(* ===== verification/Prelude.thy ===== *)
theory Prelude
  imports Main "HOL-Library.Word" "HOL-Library.Monad_Syntax"
begin

unbundle bit_operations_syntax

text \<open>
  Shared vocabulary of the development: the driver's integer types, pointers and flat byte
  memory, the \<open>BCME_*\<close> return codes of \<open>include/bcmerror.h\<close>, little/big endian loads and
  stores of \<open>include/bcmendian.h\<close>, and the generic lemmas on lists, memory and words the
  component theories share. The collections \<open>mem_simps\<close> (reads after writes) and
  \<open>word_conv\<close> (words as numbers) are extended by the components.
\<close>

named_theorems mem_simps "reads of memory after writes"
named_theorems word_conv "machine words as natural numbers"

section \<open>Integer types, pointers and memory\<close>

type_synonym u8 = "8 word"
type_synonym u16 = "16 word"
type_synonym u32 = "32 word"
type_synonym u64 = "64 word"

text \<open>A pointer is a virtual address; \<open>NULL\<close> is address 0. Memory maps every address to a byte.\<close>

type_synonym ptr = nat
type_synonym mem = "ptr \<Rightarrow> u8"

abbreviation (input) NULL :: ptr where
  "NULL \<equiv> 0"

text \<open>The return codes the modelled functions use, with their values.\<close>

datatype bcme =
    BCME_OK | BCME_ERROR | BCME_BADARG | BCME_BUFTOOSHORT | BCME_BUFTOOLONG | BCME_BUSY
  | BCME_BADADDR | BCME_NORESOURCE | BCME_UNSUPPORTED | BCME_BADLEN | BCME_NOMEM | BCME_NOTFOUND
  | BCME_BADOPTION | BCME_NOTREADY | BCME_EPERM

fun bcme_code :: "bcme \<Rightarrow> int" where
  "bcme_code BCME_OK = 0"
| "bcme_code BCME_ERROR = - 1"
| "bcme_code BCME_BADARG = - 2"
| "bcme_code BCME_BUFTOOSHORT = - 14"
| "bcme_code BCME_BUFTOOLONG = - 15"
| "bcme_code BCME_BUSY = - 16"
| "bcme_code BCME_BADADDR = - 21"
| "bcme_code BCME_NORESOURCE = - 22"
| "bcme_code BCME_UNSUPPORTED = - 23"
| "bcme_code BCME_BADLEN = - 24"
| "bcme_code BCME_NOMEM = - 27"
| "bcme_code BCME_NOTFOUND = - 30"
| "bcme_code BCME_BADOPTION = - 3"
| "bcme_code BCME_NOTREADY = - 25"
| "bcme_code BCME_EPERM = - 26"

lemma bcme_code_0 [simp]: "bcme_code e = 0 \<longleftrightarrow> e = BCME_OK"
  by (cases e) auto

section \<open>Byte blocks\<close>

text \<open>\<open>bytes m a n\<close> is the block of \<open>n\<close> bytes at \<open>a\<close>; \<open>memcpy\<close>, \<open>memset\<close> and \<open>store_bytes\<close>
  write blocks. A \<open>memcpy\<close> of overlapping blocks is undefined in C; the model reads the source
  before it writes, which is \<open>memmove\<close>.\<close>

definition bytes :: "mem \<Rightarrow> ptr \<Rightarrow> nat \<Rightarrow> u8 list" where
  "bytes m a n = map (\<lambda>i. m (a + i)) [0..<n]"

definition store_bytes :: "ptr \<Rightarrow> u8 list \<Rightarrow> mem \<Rightarrow> mem" where
  "store_bytes a bs m = (\<lambda>x. if a \<le> x \<and> x < a + length bs then bs ! (x - a) else m x)"

definition memcpy :: "ptr \<Rightarrow> ptr \<Rightarrow> nat \<Rightarrow> mem \<Rightarrow> mem" where
  "memcpy dst src n m = store_bytes dst (bytes m src n) m"

definition memset :: "ptr \<Rightarrow> u8 \<Rightarrow> nat \<Rightarrow> mem \<Rightarrow> mem" where
  "memset dst c n m = store_bytes dst (replicate n c) m"

lemma length_bytes [simp]: "length (bytes m a n) = n"
  by (simp add: bytes_def)

lemma nth_bytes [simp]: "i < n \<Longrightarrow> bytes m a n ! i = m (a + i)"
  by (simp add: bytes_def)

lemma bytes_0 [simp]: "bytes m a 0 = []"
  by (simp add: bytes_def)

lemma bytes_Suc: "bytes m a (Suc n) = m a # bytes m (Suc a) n"
  by (simp add: bytes_def upt_conv_Cons map_Suc_upt [symmetric] del: upt_Suc map_Suc_upt)

lemma bytes_add: "bytes m a (i + j) = bytes m a i @ bytes m (a + i) j"
  by (rule nth_equalityI) (auto simp: nth_append)

lemma bytes_cong: "(\<And>i. i < n \<Longrightarrow> m (a + i) = m' (a + i)) \<Longrightarrow> bytes m a n = bytes m' a n"
  by (simp add: bytes_def)

lemma bytes_eqD: "bytes m a n = bytes m' a n \<Longrightarrow> i < n \<Longrightarrow> m (a + i) = m' (a + i)"
  by (metis nth_bytes)

lemma bytes_eq_sub:
  assumes "bytes m a n = bytes m' a n" and "i + k \<le> n"
  shows "bytes m (a + i) k = bytes m' (a + i) k"
proof (rule bytes_cong)
  fix j assume "j < k"
  then have "m (a + (i + j)) = m' (a + (i + j))"
    using assms by (intro bytes_eqD [OF assms(1)]) simp
  then show "m (a + i + j) = m' (a + i + j)" by (simp add: add.assoc)
qed

lemma store_bytes_outside [mem_simps]:
  "x < a \<or> a + length bs \<le> x \<Longrightarrow> store_bytes a bs m x = m x"
  by (auto simp: store_bytes_def)

lemma store_bytes_inside [mem_simps]:
  "i < length bs \<Longrightarrow> store_bytes a bs m (a + i) = bs ! i"
  by (simp add: store_bytes_def)

lemma store_bytes_Nil [simp]: "store_bytes a [] m = m"
  by (auto simp: store_bytes_def fun_eq_iff)

lemma bytes_store_same [mem_simps]: "length bs = n \<Longrightarrow> bytes (store_bytes a bs m) a n = bs"
  by (rule nth_equalityI) (auto simp: mem_simps)

lemma bytes_store_disjoint [mem_simps]:
  "b + n \<le> a \<or> a + length bs \<le> b \<Longrightarrow> bytes (store_bytes a bs m) b n = bytes m b n"
  by (rule bytes_cong) (auto simp: mem_simps)

lemma store_bytes_append:
  "store_bytes a (xs @ ys) m = store_bytes (a + length xs) ys (store_bytes a xs m)"
  by (rule ext) (auto simp: store_bytes_def nth_append diff_diff_left)

lemma store_bytes_Cons: "store_bytes a (x # xs) m = store_bytes (Suc a) xs (m(a := x))"
proof -
  have "store_bytes a [x] m = m(a := x)"
    by (auto simp: store_bytes_def fun_eq_iff)
  then show ?thesis using store_bytes_append [of a "[x]" xs m] by simp
qed

lemma memcpy_outside [mem_simps]: "x < dst \<or> dst + n \<le> x \<Longrightarrow> memcpy dst src n m x = m x"
  by (simp add: memcpy_def mem_simps)

lemma bytes_memcpy [mem_simps]: "bytes (memcpy dst src n m) dst n = bytes m src n"
  by (simp add: memcpy_def mem_simps)

lemma memcpy_0 [simp]: "memcpy d s 0 m = m"
  by (simp add: memcpy_def)

lemma memset_outside [mem_simps]: "x < dst \<or> dst + n \<le> x \<Longrightarrow> memset dst c n m x = m x"
  by (simp add: memset_def mem_simps)

lemma bytes_memset [mem_simps]: "bytes (memset dst c n m) dst n = replicate n c"
  by (simp add: memset_def mem_simps)

section \<open>Unaligned loads and stores\<close>

text \<open>The host is little endian (arm64); \<open>ltoh16_ua\<close> and \<open>htol16_ua_store\<close> are byte by byte.
  A native 16 bit load followed by \<open>hton16\<close> is the big endian load \<open>ntoh16_ua\<close>.\<close>

definition ltoh16_ua :: "mem \<Rightarrow> ptr \<Rightarrow> nat" where
  "ltoh16_ua m a = unat (m a) + 256 * unat (m (a + 1))"

definition ntoh16_ua :: "mem \<Rightarrow> ptr \<Rightarrow> nat" where
  "ntoh16_ua m a = 256 * unat (m a) + unat (m (a + 1))"

definition htol16_ua_store :: "u16 \<Rightarrow> ptr \<Rightarrow> mem \<Rightarrow> mem" where
  "htol16_ua_store v a m = m(a := ucast v, a + 1 := ucast (drop_bit 8 v))"

lemma unat_u8_less [simp]: "unat (b :: u8) < 256"
  using unsigned_less [of b] by simp

lemma unat_u16_less [simp]: "unat (w :: u16) < 65536"
  using unsigned_less [of w] by simp

lemma unat_u32_less [simp]: "unat (w :: u32) < 4294967296"
  using unsigned_less [of w] by simp

lemma unat_u8_le [simp]: "unat (b :: u8) \<le> 255"
  using unat_u8_less [of b] by linarith

lemma ltoh16_ua_less: "ltoh16_ua m a < 65536"
proof -
  have "unat (m a) \<le> 255" "unat (m (a + 1)) \<le> 255" by simp_all
  then have "unat (m a) + 256 * unat (m (a + 1)) \<le> 255 + 256 * 255" by linarith
  then show ?thesis by (simp add: ltoh16_ua_def)
qed

lemma ntoh16_ua_less: "ntoh16_ua m a < 65536"
proof -
  have "unat (m a) \<le> 255" "unat (m (a + 1)) \<le> 255" by simp_all
  then have "256 * unat (m a) + unat (m (a + 1)) \<le> 256 * 255 + 255" by linarith
  then show ?thesis by (simp add: ntoh16_ua_def)
qed

lemma unat_ucast_u8 [word_conv]: "unat (ucast (v :: u16) :: u8) = unat v mod 256"
  by (simp add: unsigned_ucast_eq take_bit_eq_mod)

lemma unat_drop8 [word_conv]: "unat (drop_bit 8 (v :: u16)) = unat v div 256"
  by (simp only: unat_drop_bit_eq) (simp add: drop_bit_eq_div)

lemma ltoh16_store [mem_simps]: "ltoh16_ua (htol16_ua_store v a m) a = unat v"
proof -
  have "unat v div 256 mod 256 = unat v div 256"
    by (rule mod_less) (use unat_u16_less [of v] in linarith)
  then show ?thesis
    by (simp add: ltoh16_ua_def htol16_ua_store_def word_conv)
qed

lemma htol16_store_outside [mem_simps]:
  "x \<noteq> a \<Longrightarrow> x \<noteq> a + 1 \<Longrightarrow> htol16_ua_store v a m x = m x"
  by (simp add: htol16_ua_store_def)

lemma ltoh16_cong: "m a = m' a \<Longrightarrow> m (a + 1) = m' (a + 1) \<Longrightarrow> ltoh16_ua m a = ltoh16_ua m' a"
  by (simp add: ltoh16_ua_def)

lemma ntoh16_cong: "m a = m' a \<Longrightarrow> m (a + 1) = m' (a + 1) \<Longrightarrow> ntoh16_ua m a = ntoh16_ua m' a"
  by (simp add: ntoh16_ua_def)

section \<open>Counters kept in machine words\<close>

lemma of_nat_Suc_word [word_conv]: "of_nat (Suc n) = (of_nat n + 1 :: 'a::len word)"
  by (simp add: add.commute)

lemma unat_of_nat_u16 [word_conv]: "n < 65536 \<Longrightarrow> unat (of_nat n :: u16) = n"
  by (simp add: unat_of_nat)

lemma unat_of_nat_u32 [word_conv]: "n < 4294967296 \<Longrightarrow> unat (of_nat n :: u32) = n"
  by (simp add: unat_of_nat)

lemma of_nat_u16_eq_0: "n < 65536 \<Longrightarrow> (of_nat n = (0 :: u16)) = (n = 0)"
  by (auto dest: unat_of_nat_u16)

lemma sint_small: "unat (w :: u32) < 2 ^ 31 \<Longrightarrow> sint w = int (unat w)"
proof -
  assume "unat w < 2 ^ 31"
  moreover have "int (unat w) = uint w" by simp
  ultimately have "uint w < 2 ^ 31" by (metis of_nat_less_iff of_nat_numeral of_nat_power)
  then have "signed_take_bit 31 (uint w) = uint w" by (intro signed_take_bit_int_eq_self) (simp_all add: order_trans [OF _ uint_ge_0])
  then show ?thesis by (simp add: sint_uint)
qed

section \<open>Lists and lists of lists\<close>

lemma last_outside: "xs \<noteq> [] \<Longrightarrow> set xs \<inter> A = {} \<Longrightarrow> last xs \<notin> A"
  using last_in_set [of xs] by blast

lemma last_neq: "xs \<noteq> [] \<Longrightarrow> y \<notin> set xs \<Longrightarrow> last xs \<noteq> y"
  using last_in_set [of xs] by auto

lemma sum_list_update_nat:
  "i < length xs \<Longrightarrow> sum_list (xs[i := v]) + xs ! i = sum_list xs + (v :: nat)"
  by (induction xs arbitrary: i) (auto split: nat.splits)

lemma length_concat_update:
  assumes "i < length xss"
  shows "length (concat (xss[i := ys])) + length (xss ! i) = length (concat xss) + length ys"
proof -
  have "sum_list ((map length xss)[i := length ys]) + map length xss ! i
      = sum_list (map length xss) + length ys"
    using assms by (intro sum_list_update_nat) simp
  then show ?thesis using assms by (simp add: length_concat map_update)
qed

lemma nth_concat_subset: "i < length xss \<Longrightarrow> set (xss ! i) \<subseteq> set (concat xss)"
  using nth_mem by fastforce

lemma set_concat_update: "set (concat (xss[i := ys])) \<subseteq> set ys \<union> set (concat xss)"
  using set_update_subset_insert [of xss i ys] by fastforce

lemma distinct_concat_iff_nth:
  "distinct (concat xss) \<longleftrightarrow>
     (\<forall>i<length xss. distinct (xss ! i)) \<and>
     (\<forall>i j. i < j \<longrightarrow> j < length xss \<longrightarrow> set (xss ! i) \<inter> set (xss ! j) = {})"
proof (induction xss)
  case Nil
  then show ?case by simp
next
  case (Cons xs xss)
  have all_Suc: "(\<forall>i<Suc n. P i) = (P 0 \<and> (\<forall>i<n. P (Suc i)))" for P and n :: nat
    by (metis less_Suc_eq_0_disj)
  have pairs: "(\<forall>i j. i < j \<longrightarrow> j < Suc n \<longrightarrow> Q i j)
      = ((\<forall>j<n. Q 0 (Suc j)) \<and> (\<forall>i j. i < j \<longrightarrow> j < n \<longrightarrow> Q (Suc i) (Suc j)))" for Q and n :: nat
    by (auto simp: less_Suc_eq_0_disj)
  have "set xs \<inter> set (concat xss) = {} \<longleftrightarrow> (\<forall>j<length xss. set xs \<inter> set (xss ! j) = {})"
    by (simp only: all_set_conv_all_nth [of xss "\<lambda>ys. set xs \<inter> set ys = {}", symmetric]) auto
  then show ?case
    using Cons.IH by (simp add: all_Suc pairs) blast
qed

section \<open>Runs of operations and their simulation\<close>

text \<open>A component is a function from an operation and a state to a result and a new state, \<open>None\<close>
  when it has none. If every operation the specification allows is matched by the code, so is every
  run of them, with the same results.\<close>

fun run :: "('o \<Rightarrow> 's \<Rightarrow> ('r \<times> 's) option) \<Rightarrow> 'o list \<Rightarrow> 's \<Rightarrow> ('r list \<times> 's) option" where
  "run f [] s = Some ([], s)"
| "run f (op # ops) s =
     (case f op s of
        None \<Rightarrow> None
      | Some (r, s) \<Rightarrow> (case run f ops s of None \<Rightarrow> None | Some (rs, s) \<Rightarrow> Some (r # rs, s)))"

locale simulation =
  fixes rel :: "'s \<Rightarrow> 'a \<Rightarrow> bool"
    and exec :: "'o \<Rightarrow> 's \<Rightarrow> ('r \<times> 's) option"
    and spec :: "'o \<Rightarrow> 'a \<Rightarrow> ('r \<times> 'a) option"
  assumes step: "rel s a \<Longrightarrow> spec op a = Some (r, a') \<Longrightarrow> \<exists>s'. exec op s = Some (r, s') \<and> rel s' a'"
begin

lemma run_sim:
  "rel s a \<Longrightarrow> run spec ops a = Some (rs, a') \<Longrightarrow> \<exists>s'. run exec ops s = Some (rs, s') \<and> rel s' a'"
proof (induction ops arbitrary: s a rs)
  case Nil
  then show ?case by simp
next
  case (Cons op ops)
  from Cons.prems(2) obtain r a1 rs' where
    a: "spec op a = Some (r, a1)" "run spec ops a1 = Some (rs', a')" "rs = r # rs'"
    by (auto split: option.splits)
  from step [OF Cons.prems(1) a(1)] obtain s1 where s: "exec op s = Some (r, s1)" "rel s1 a1" by blast
  from Cons.IH [OF s(2) a(2)] show ?case by (auto simp: s(1) a(3))
qed

end

end
