(* ===== verification/Pktq.thy ===== *)
theory Pktq
  imports Prelude
begin

unbundle bit_operations_syntax

text \<open>
  The packet queues of \<open>hnd_pktq.c\<close> and \<open>include/hnd_pktq.h\<close>, at the level of the code: packets
  are pointers, the queue link of a packet (\<open>PKTLINK\<close>, a field of the \<open>sk_buff\<close>) is an entry of
  a link store, a queue keeps only its first and last packet and a 16 bit count. The build leaves
  \<open>HND_PKTQ_THREAD_SAFE\<close> and \<open>WL_TXQ_STALL\<close> undefined, so the mutex macros are the constant
  success and the dequeue counters are not touched; \<open>ASSERT\<close> and \<open>PKTSETQCALLER\<close> are empty.
  A loop over links is a \<^theory_text>\<open>partial_function\<close>: \<open>None\<close> is a loop that does not end or a
  \<open>NULL\<close> dereference. An optional out parameter is an option in the result, \<open>None\<close> when it is
  not written.
\<close>

section \<open>State\<close>

type_synonym links = "ptr \<Rightarrow> ptr"

definition PKTLINK :: "links \<Rightarrow> ptr \<Rightarrow> ptr" where
  "PKTLINK L p = L p"

definition PKTSETLINK :: "ptr \<Rightarrow> ptr \<Rightarrow> links \<Rightarrow> links" where
  "PKTSETLINK p v L = L(p := v)"

record pktq_prec =
  head :: ptr
  tail :: ptr
  n_pkts :: u16
  max_pkts :: u16
  stall_count :: u16
  dequeue_count :: u16

record pktq =
  num_prec :: u16
  hi_prec :: u16
  pq_max_pkts :: u16
  n_pkts_tot :: u16
  prec_q :: "pktq_prec list"

text \<open>\<open>struct spktq\<close> has the one field \<open>q\<close> besides its absent mutex.\<close>

type_synonym spktq = pktq_prec

definition PKTQ_MAX_PREC :: nat where
  "PKTQ_MAX_PREC = 16"

definition zero_prec :: pktq_prec where
  "zero_prec = \<lparr>head = NULL, tail = NULL, n_pkts = 0, max_pkts = 0, stall_count = 0,
     dequeue_count = 0\<rparr>"

definition get_q :: "pktq \<Rightarrow> nat \<Rightarrow> pktq_prec" where
  "get_q pq prec = prec_q pq ! prec"

definition put_q :: "nat \<Rightarrow> pktq_prec \<Rightarrow> pktq \<Rightarrow> pktq" where
  "put_q prec q pq = pq\<lparr>prec_q := (prec_q pq)[prec := q]\<rparr>"

section \<open>Length macros\<close>

definition pktqprec_avail_pkts :: "pktq \<Rightarrow> nat \<Rightarrow> int" where
  "pktqprec_avail_pkts pq prec = uint (max_pkts (get_q pq prec)) - uint (n_pkts (get_q pq prec))"

definition pktqprec_full :: "pktq \<Rightarrow> nat \<Rightarrow> bool" where
  "pktqprec_full pq prec \<longleftrightarrow> n_pkts (get_q pq prec) \<ge> max_pkts (get_q pq prec)"

definition pktq_avail :: "pktq \<Rightarrow> int" where
  "pktq_avail pq = uint (pq_max_pkts pq) - uint (n_pkts_tot pq)"

definition pktq_full :: "pktq \<Rightarrow> bool" where
  "pktq_full pq \<longleftrightarrow> n_pkts_tot pq \<ge> pq_max_pkts pq"

definition spktq_avail :: "spktq \<Rightarrow> int" where
  "spktq_avail spq = uint (max_pkts spq) - uint (n_pkts spq)"

definition spktq_full :: "spktq \<Rightarrow> bool" where
  "spktq_full spq \<longleftrightarrow> n_pkts spq \<ge> max_pkts spq"

section \<open>Queue manipulation common to both kinds of queue\<close>

text \<open>The statements on one \<open>struct pktq_prec\<close> that the single and the multi precedence
  operations repeat word for word.\<close>

definition q_enq_tail :: "ptr \<Rightarrow> links \<Rightarrow> pktq_prec \<Rightarrow> links \<times> pktq_prec" where
  "q_enq_tail p L q =
     (let (L, q) = (if head q \<noteq> NULL then (PKTSETLINK (tail q) p L, q)
                    else (L, q\<lparr>head := p\<rparr>));
          q = q\<lparr>tail := p\<rparr>
      in (L, q\<lparr>n_pkts := n_pkts q + 1\<rparr>))"

definition q_enq_head :: "ptr \<Rightarrow> links \<Rightarrow> pktq_prec \<Rightarrow> links \<times> pktq_prec" where
  "q_enq_head p L q =
     (let q = (if head q = NULL then q\<lparr>tail := p\<rparr> else q);
          L = PKTSETLINK p (head q) L;
          q = q\<lparr>head := p\<rparr>
      in (L, q\<lparr>n_pkts := n_pkts q + 1\<rparr>))"

definition q_deq_head :: "links \<Rightarrow> pktq_prec \<Rightarrow> ptr \<times> links \<times> pktq_prec" where
  "q_deq_head L q =
     (let p = head q in
      if p = NULL then (NULL, L, q)
      else let q = q\<lparr>head := PKTLINK L p\<rparr>;
               q = (if head q = NULL then q\<lparr>tail := NULL\<rparr> else q);
               q = q\<lparr>n_pkts := n_pkts q - 1\<rparr>
           in (p, PKTSETLINK p NULL L, q))"

text \<open>\<open>for (prev = NULL; p != q->tail; p = PKTLINK(p)) prev = p;\<close>\<close>

partial_function (option) walk_tail :: "links \<Rightarrow> ptr \<Rightarrow> ptr \<Rightarrow> ptr \<Rightarrow> (ptr \<times> ptr) option" where
  "walk_tail L t prev p =
     (if p = t then Some (prev, p)
      else if p = NULL then None
      else walk_tail L t p (PKTLINK L p))"

definition q_deq_tail :: "links \<Rightarrow> pktq_prec \<Rightarrow> (ptr \<times> links \<times> pktq_prec) option" where
  "q_deq_tail L q =
     (if head q = NULL then Some (NULL, L, q)
      else case walk_tail L (tail q) NULL (head q) of
        None \<Rightarrow> None
      | Some (prev, p) \<Rightarrow>
          (let (L, q) = (if prev \<noteq> NULL then (PKTSETLINK prev NULL L, q)
                         else (L, q\<lparr>head := NULL\<rparr>));
               q = q\<lparr>tail := prev\<rparr>
           in Some (p, L, q\<lparr>n_pkts := n_pkts q - 1\<rparr>)))"

definition q_append :: "links \<Rightarrow> pktq_prec \<Rightarrow> pktq_prec \<Rightarrow> links \<times> pktq_prec" where
  "q_append L q list_q =
     (let (L, q) = (if head q \<noteq> NULL then (PKTSETLINK (tail q) (head list_q) L, q)
                    else (L, q\<lparr>head := head list_q\<rparr>));
          q = q\<lparr>tail := tail list_q\<rparr>
      in (L, q\<lparr>n_pkts := n_pkts q + n_pkts list_q\<rparr>))"

definition q_prepend :: "links \<Rightarrow> pktq_prec \<Rightarrow> pktq_prec \<Rightarrow> links \<times> pktq_prec" where
  "q_prepend L q list_q =
     (let L = PKTSETLINK (tail list_q) (head q) L;
          q = q\<lparr>head := head list_q\<rparr>;
          q = (if tail q = NULL then q\<lparr>tail := tail list_q\<rparr> else q)
      in (L, q\<lparr>n_pkts := n_pkts q + n_pkts list_q\<rparr>))"

definition q_reset :: "pktq_prec \<Rightarrow> pktq_prec" where
  "q_reset q = q\<lparr>head := NULL, tail := NULL, n_pkts := 0\<rparr>"

section \<open>Initialisation\<close>

text \<open>Only the first \<open>num_prec\<close> entries of the array are cleared.\<close>

definition pktq_init :: "pktq \<Rightarrow> nat \<Rightarrow> nat \<Rightarrow> bool \<times> pktq" where
  "pktq_init pq np mx =
     (True, \<lparr>num_prec = of_nat np, hi_prec = 0, pq_max_pkts = of_nat mx, n_pkts_tot = 0,
        prec_q = map (\<lambda>i. if i < np then zero_prec\<lparr>max_pkts := of_nat mx\<rparr> else prec_q pq ! i)
                     [0..<length (prec_q pq)]\<rparr>)"

definition spktq_init :: "nat \<Rightarrow> bool \<times> spktq" where
  "spktq_init mx = (True, zero_prec\<lparr>max_pkts := of_nat mx\<rparr>)"

definition spktq_init_list ::
    "nat \<Rightarrow> ptr \<Rightarrow> ptr \<Rightarrow> u16 \<Rightarrow> links \<Rightarrow> bool \<times> links \<times> spktq" where
  "spktq_init_list mx h t n L =
     (True, PKTSETLINK t NULL L,
      \<lparr>head = h, tail = t, n_pkts = n, max_pkts = of_nat mx, stall_count = 0,
        dequeue_count = 0\<rparr>)"

definition pktq_set_max_plen :: "nat \<Rightarrow> nat \<Rightarrow> pktq \<Rightarrow> pktq" where
  "pktq_set_max_plen prec mx pq =
     (if prec < unat (num_prec pq) then put_q prec ((get_q pq prec)\<lparr>max_pkts := of_nat mx\<rparr>) pq
      else pq)"

section \<open>Single precedence queues\<close>

definition spktq_enq :: "ptr \<Rightarrow> links \<Rightarrow> spktq \<Rightarrow> ptr \<times> links \<times> spktq" where
  "spktq_enq p L spq =
     (let L = PKTSETLINK p NULL L; (L, spq) = q_enq_tail p L spq in (p, L, spq))"

definition spktq_enq_head :: "ptr \<Rightarrow> links \<Rightarrow> spktq \<Rightarrow> ptr \<times> links \<times> spktq" where
  "spktq_enq_head p L spq =
     (let L = PKTSETLINK p NULL L; (L, spq) = q_enq_head p L spq in (p, L, spq))"

definition spktq_enq_chain :: "links \<Rightarrow> spktq \<Rightarrow> spktq \<Rightarrow> links \<times> spktq" where
  "spktq_enq_chain L dq sq =
     (let (L, dq) = (if head dq \<noteq> NULL then (PKTSETLINK (tail dq) (head sq) L, dq)
                     else (L, dq\<lparr>head := head sq\<rparr>));
          dq = dq\<lparr>tail := tail sq\<rparr>
      in (L, dq\<lparr>n_pkts := n_pkts dq + n_pkts sq\<rparr>))"

definition spktq_deq :: "links \<Rightarrow> spktq \<Rightarrow> ptr \<times> links \<times> spktq" where
  "spktq_deq L spq = q_deq_head L spq"

text \<open>\<open>OSL_PHYS_TO_VIRT_ADDR\<close> is the identity on the host.\<close>

definition spktq_deq_virt :: "links \<Rightarrow> spktq \<Rightarrow> ptr \<times> links \<times> spktq" where
  "spktq_deq_virt L spq = q_deq_head L spq"

definition spktq_delete_node ::
    "ptr \<Rightarrow> ptr \<Rightarrow> links \<Rightarrow> spktq \<Rightarrow> ptr \<times> links \<times> spktq" where
  "spktq_delete_node prev cur L spq =
     (if cur = head spq then
        (let (_, L, spq) = spktq_deq L spq in (head spq, L, spq))
      else if cur = NULL \<or> prev = NULL then (NULL, L, spq)
      else
        (let nxt = PKTLINK L cur;
             L = PKTSETLINK prev nxt L;
             L = PKTSETLINK cur NULL L
         in (nxt, L, spq\<lparr>n_pkts := n_pkts spq - 1\<rparr>)))"

definition spktq_deq_tail :: "links \<Rightarrow> spktq \<Rightarrow> (ptr \<times> links \<times> spktq) option" where
  "spktq_deq_tail L spq = q_deq_tail L spq"

definition spktq_peek :: "spktq \<Rightarrow> ptr" where
  "spktq_peek spq = (if n_pkts spq = 0 then NULL else head spq)"

definition spktq_append :: "links \<Rightarrow> spktq \<Rightarrow> spktq \<Rightarrow> links \<times> spktq \<times> spktq" where
  "spktq_append L spq list_q =
     (if head list_q = NULL then (L, spq, list_q)
      else let (L, spq) = q_append L spq list_q in (L, spq, q_reset list_q))"

definition spktq_prepend :: "links \<Rightarrow> spktq \<Rightarrow> spktq \<Rightarrow> links \<times> spktq \<times> spktq" where
  "spktq_prepend L spq list_q =
     (if head list_q = NULL then (L, spq, list_q)
      else let (L, spq) = q_prepend L spq list_q in (L, spq, q_reset list_q))"

section \<open>Multi precedence queues: one precedence\<close>

text \<open>\<open>if (pq->hi_prec < prec) pq->hi_prec = (uint8)prec\<close>\<close>

definition raise_hi :: "nat \<Rightarrow> pktq \<Rightarrow> pktq" where
  "raise_hi prec pq =
     (if unat (hi_prec pq) < prec then pq\<lparr>hi_prec := ucast (of_nat prec :: u8)\<rparr> else pq)"

definition pktq_penq :: "nat \<Rightarrow> ptr \<Rightarrow> links \<Rightarrow> pktq \<Rightarrow> ptr \<times> links \<times> pktq" where
  "pktq_penq prec p L pq =
     (let (L, q) = q_enq_tail p L (get_q pq prec);
          pq = put_q prec q pq;
          pq = pq\<lparr>n_pkts_tot := n_pkts_tot pq + 1\<rparr>
      in (p, L, raise_hi prec pq))"

definition pktq_penq_head :: "nat \<Rightarrow> ptr \<Rightarrow> links \<Rightarrow> pktq \<Rightarrow> ptr \<times> links \<times> pktq" where
  "pktq_penq_head prec p L pq =
     (let (L, q) = q_enq_head p L (get_q pq prec);
          pq = put_q prec q pq;
          pq = pq\<lparr>n_pkts_tot := n_pkts_tot pq + 1\<rparr>
      in (p, L, raise_hi prec pq))"

definition pktq_pdeq :: "nat \<Rightarrow> links \<Rightarrow> pktq \<Rightarrow> ptr \<times> links \<times> pktq" where
  "pktq_pdeq prec L pq =
     (let (p, L, q) = q_deq_head L (get_q pq prec) in
      if p = NULL then (NULL, L, pq)
      else let pq = put_q prec q pq in (p, L, pq\<lparr>n_pkts_tot := n_pkts_tot pq - 1\<rparr>))"

definition pktq_pdeq_tail :: "nat \<Rightarrow> links \<Rightarrow> pktq \<Rightarrow> (ptr \<times> links \<times> pktq) option" where
  "pktq_pdeq_tail prec L pq =
     (if head (get_q pq prec) = NULL then Some (NULL, L, pq)
      else case q_deq_tail L (get_q pq prec) of
        None \<Rightarrow> None
      | Some (p, L, q) \<Rightarrow>
          let pq = put_q prec q pq in Some (p, L, pq\<lparr>n_pkts_tot := n_pkts_tot pq - 1\<rparr>))"

definition pktq_append :: "nat \<Rightarrow> links \<Rightarrow> pktq \<Rightarrow> spktq \<Rightarrow> links \<times> pktq \<times> spktq" where
  "pktq_append prec L pq list_q =
     (if head list_q = NULL then (L, pq, list_q)
      else let (L, q) = q_append L (get_q pq prec) list_q;
               pq = put_q prec q pq;
               pq = pq\<lparr>n_pkts_tot := n_pkts_tot pq + n_pkts list_q\<rparr>
           in (L, raise_hi prec pq, q_reset list_q))"

definition pktq_prepend :: "nat \<Rightarrow> links \<Rightarrow> pktq \<Rightarrow> spktq \<Rightarrow> links \<times> pktq \<times> spktq" where
  "pktq_prepend prec L pq list_q =
     (if head list_q = NULL then (L, pq, list_q)
      else let (L, q) = q_prepend L (get_q pq prec) list_q;
               pq = put_q prec q pq;
               pq = pq\<lparr>n_pkts_tot := n_pkts_tot pq + n_pkts list_q\<rparr>
           in (L, raise_hi prec pq, q_reset list_q))"

definition pktq_pdeq_prev :: "nat \<Rightarrow> ptr \<Rightarrow> links \<Rightarrow> pktq \<Rightarrow> ptr \<times> links \<times> pktq" where
  "pktq_pdeq_prev prec prev_p L pq =
     (if prev_p = NULL then (NULL, L, pq)
      else let p = PKTLINK L prev_p in
        if p = NULL then (NULL, L, pq)
        else let q = get_q pq prec;
                 pq = put_q prec (q\<lparr>n_pkts := n_pkts q - 1\<rparr>) pq;
                 pq = pq\<lparr>n_pkts_tot := n_pkts_tot pq - 1\<rparr>;
                 L = PKTSETLINK prev_p (PKTLINK L p) L;
                 L = PKTSETLINK p NULL L
             in (p, L, pq))"

text \<open>\<open>while (p) { if (fn == NULL || (*fn)(p, arg)) break; else { prev = p; p = PKTLINK(p); } }\<close>:
  the callback with its argument is a predicate, \<open>None\<close> for a \<open>NULL\<close> callback.\<close>

partial_function (option) find_fn ::
    "links \<Rightarrow> (ptr \<Rightarrow> bool) option \<Rightarrow> ptr \<Rightarrow> ptr \<Rightarrow> (ptr \<times> ptr) option" where
  "find_fn L fn prev p =
     (if p = NULL then Some (prev, p)
      else if (case fn of None \<Rightarrow> True | Some f \<Rightarrow> f p) then Some (prev, p)
      else find_fn L fn p (PKTLINK L p))"

definition pktq_pdeq_with_fn ::
    "nat \<Rightarrow> (ptr \<Rightarrow> bool) option \<Rightarrow> links \<Rightarrow> pktq \<Rightarrow> (ptr \<times> links \<times> pktq) option" where
  "pktq_pdeq_with_fn prec fn L pq =
     (let q = get_q pq prec in
      case find_fn L fn NULL (head q) of
        None \<Rightarrow> None
      | Some (prev, p) \<Rightarrow>
          if p = NULL then Some (NULL, L, pq)
          else let (L, q) =
                     (if prev = NULL then
                        (let q = q\<lparr>head := PKTLINK L p\<rparr>
                         in (L, if head q = NULL then q\<lparr>tail := NULL\<rparr> else q))
                      else (PKTSETLINK prev (PKTLINK L p) L,
                            if tail q = p then q\<lparr>tail := prev\<rparr> else q));
                   pq = put_q prec (q\<lparr>n_pkts := n_pkts q - 1\<rparr>) pq;
                   pq = pq\<lparr>n_pkts_tot := n_pkts_tot pq - 1\<rparr>
               in Some (p, PKTSETLINK p NULL L, pq))"

text \<open>\<open>for (p = q->head; p && PKTLINK(p) != pktbuf; p = PKTLINK(p));\<close>\<close>

partial_function (option) find_prev :: "links \<Rightarrow> ptr \<Rightarrow> ptr \<Rightarrow> ptr option" where
  "find_prev L pktbuf p =
     (if p \<noteq> NULL \<and> PKTLINK L p \<noteq> pktbuf then find_prev L pktbuf (PKTLINK L p) else Some p)"

definition pktq_pdel :: "ptr \<Rightarrow> nat \<Rightarrow> links \<Rightarrow> pktq \<Rightarrow> (bool \<times> links \<times> pktq) option" where
  "pktq_pdel pktbuf prec L pq =
     (if pktbuf = NULL then Some (False, L, pq)
      else let q = get_q pq prec;
               finish = (\<lambda>L q.
                 let pq = put_q prec (q\<lparr>n_pkts := n_pkts q - 1\<rparr>) pq;
                     pq = pq\<lparr>n_pkts_tot := n_pkts_tot pq - 1\<rparr>
                 in (True, PKTSETLINK pktbuf NULL L, pq))
           in if head q = pktbuf then
                (let q = q\<lparr>head := PKTLINK L pktbuf\<rparr>
                 in Some (finish L (if head q = NULL then q\<lparr>tail := NULL\<rparr> else q)))
              else case find_prev L pktbuf (head q) of
                  None \<Rightarrow> None
                | Some p \<Rightarrow>
                    if p = NULL then Some (False, L, pq)
                    else Some (finish (PKTSETLINK p (PKTLINK L pktbuf) L)
                                 (if tail q = pktbuf then q\<lparr>tail := p\<rparr> else q)))"

section \<open>Multi precedence queues: by priority\<close>

text \<open>\<open>while ((prec = pq->hi_prec) > 0 && pq->q[prec].head == NULL) pq->hi_prec--;\<close>\<close>

fun hi_scan :: "pktq_prec list \<Rightarrow> nat \<Rightarrow> nat" where
  "hi_scan qs 0 = 0"
| "hi_scan qs (Suc n) = (if head (qs ! Suc n) = NULL then hi_scan qs n else Suc n)"

text \<open>\<open>for (prec = 0; prec < pq->hi_prec; prec++) if (pq->q[prec].head) break;\<close>\<close>

function low_scan :: "pktq_prec list \<Rightarrow> nat \<Rightarrow> nat \<Rightarrow> nat" where
  "low_scan qs hi prec =
     (if prec < hi \<and> head (qs ! prec) = NULL then low_scan qs hi (Suc prec) else prec)"
  by pat_completeness auto
termination
  by (relation "measure (\<lambda>(qs, hi, prec). hi - prec)") auto

declare low_scan.simps [simp del]

definition pktq_peek :: "pktq \<Rightarrow> ptr \<times> nat option \<times> pktq" where
  "pktq_peek pq =
     (if n_pkts_tot pq = 0 then (NULL, None, pq)
      else let prec = hi_scan (prec_q pq) (unat (hi_prec pq));
               pq = pq\<lparr>hi_prec := of_nat prec\<rparr>
           in (head (get_q pq prec), Some prec, pq))"

definition pktq_deq :: "links \<Rightarrow> pktq \<Rightarrow> ptr \<times> nat option \<times> links \<times> pktq" where
  "pktq_deq L pq =
     (if n_pkts_tot pq = 0 then (NULL, None, L, pq)
      else let prec = hi_scan (prec_q pq) (unat (hi_prec pq));
               pq = pq\<lparr>hi_prec := of_nat prec\<rparr>;
               (p, L, q) = q_deq_head L (get_q pq prec)
           in if p = NULL then (NULL, None, L, pq)
              else let pq = put_q prec q pq
                   in (p, Some prec, L, pq\<lparr>n_pkts_tot := n_pkts_tot pq - 1\<rparr>))"

definition pktq_peek_tail :: "pktq \<Rightarrow> ptr \<times> nat option" where
  "pktq_peek_tail pq =
     (if n_pkts_tot pq = 0 then (NULL, None)
      else let prec = low_scan (prec_q pq) (unat (hi_prec pq)) 0
           in (tail (get_q pq prec), Some prec))"

definition pktq_deq_tail :: "links \<Rightarrow> pktq \<Rightarrow> (ptr \<times> nat option \<times> links \<times> pktq) option" where
  "pktq_deq_tail L pq =
     (if n_pkts_tot pq = 0 then Some (NULL, None, L, pq)
      else let prec = low_scan (prec_q pq) (unat (hi_prec pq)) 0 in
        if head (get_q pq prec) = NULL then Some (NULL, None, L, pq)
        else case q_deq_tail L (get_q pq prec) of
          None \<Rightarrow> None
        | Some (p, L, q) \<Rightarrow>
            let pq = put_q prec q pq;
                pq = pq\<lparr>n_pkts_tot := n_pkts_tot pq - 1\<rparr>
            in Some (p, Some prec, PKTSETLINK p NULL L, pq))"

text \<open>\<open>for (prec = 0; prec <= pq->hi_prec; prec++) if (prec_bmp & (1u << prec)) len += ...\<close>\<close>

definition bmp_set :: "u32 \<Rightarrow> nat \<Rightarrow> bool" where
  "bmp_set bmp prec \<longleftrightarrow> bmp AND push_bit prec 1 \<noteq> 0"

definition pktq_mlen :: "u32 \<Rightarrow> pktq \<Rightarrow> nat" where
  "pktq_mlen bmp pq =
     sum_list (map (\<lambda>prec. if bmp_set bmp prec then unat (n_pkts (get_q pq prec)) else 0)
       [0..<Suc (unat (hi_prec pq))])"

text \<open>\<open>while ((prec_bmp & (1u << prec)) == 0 || pq->q[prec].head == NULL) if (prec-- == 0) goto done;\<close>\<close>

fun mscan :: "pktq_prec list \<Rightarrow> u32 \<Rightarrow> nat \<Rightarrow> nat option" where
  "mscan qs bmp 0 = (if \<not> bmp_set bmp 0 \<or> head (qs ! 0) = NULL then None else Some 0)"
| "mscan qs bmp (Suc n) =
     (if \<not> bmp_set bmp (Suc n) \<or> head (qs ! Suc n) = NULL then mscan qs bmp n else Some (Suc n))"

definition pktq_mpeek :: "u32 \<Rightarrow> pktq \<Rightarrow> ptr \<times> nat option \<times> pktq" where
  "pktq_mpeek bmp pq =
     (if n_pkts_tot pq = 0 then (NULL, None, pq)
      else let prec = hi_scan (prec_q pq) (unat (hi_prec pq));
               pq = pq\<lparr>hi_prec := of_nat prec\<rparr>
           in case mscan (prec_q pq) bmp prec of
                None \<Rightarrow> (NULL, None, pq)
              | Some prec \<Rightarrow>
                  if head (get_q pq prec) = NULL then (NULL, None, pq)
                  else (head (get_q pq prec), Some prec, pq))"

definition pktq_mdeq :: "u32 \<Rightarrow> links \<Rightarrow> pktq \<Rightarrow> ptr \<times> nat option \<times> links \<times> pktq" where
  "pktq_mdeq bmp L pq =
     (if n_pkts_tot pq = 0 then (NULL, None, L, pq)
      else let prec = hi_scan (prec_q pq) (unat (hi_prec pq));
               pq = pq\<lparr>hi_prec := of_nat prec\<rparr>
           in case mscan (prec_q pq) bmp prec of
                None \<Rightarrow> (NULL, None, L, pq)
              | Some prec \<Rightarrow>
                  (let (p, L, q) = q_deq_head L (get_q pq prec)
                   in if p = NULL then (NULL, None, L, pq)
                      else let q = (if n_pkts q = 0 then q\<lparr>head := NULL, tail := NULL\<rparr> else q);
                               pq = put_q prec q pq
                           in (p, Some prec, L, pq\<lparr>n_pkts_tot := n_pkts_tot pq - 1\<rparr>)))"

section \<open>Flush and filter\<close>

text \<open>The operating system's \<open>PKTFREE\<close> and the caller's callbacks act on a state \<open>'c\<close> of their
  own; the filter decides from that state and the packet.\<close>

partial_function (option) pktq_pflush ::
    "(ptr \<Rightarrow> 'c \<Rightarrow> 'c) \<Rightarrow> nat \<Rightarrow> links \<Rightarrow> pktq \<Rightarrow> 'c \<Rightarrow> (links \<times> pktq \<times> 'c) option" where
  "pktq_pflush free prec L pq c =
     (case pktq_pdeq prec L pq of (p, L, pq) \<Rightarrow>
        if p = NULL then Some (L, pq, c) else pktq_pflush free prec L pq (free p c))"

partial_function (option) spktq_flush_ext ::
    "(ptr \<Rightarrow> 'c \<Rightarrow> 'c) option \<Rightarrow> (ptr \<Rightarrow> 'c \<Rightarrow> 'c) \<Rightarrow> links \<Rightarrow> spktq \<Rightarrow> 'c
      \<Rightarrow> (links \<times> spktq \<times> 'c) option" where
  "spktq_flush_ext cb free L spq c =
     (case spktq_deq L spq of (p, L, spq) \<Rightarrow>
        if p = NULL then Some (L, spq, c)
        else spktq_flush_ext cb free L spq
               (free p (case cb of None \<Rightarrow> c | Some f \<Rightarrow> f p c)))"

text \<open>\<open>PKTQ_PREC_ITER\<close>: from the highest precedence down to 0.\<close>

fun flush_precs ::
    "(ptr \<Rightarrow> 'c \<Rightarrow> 'c) \<Rightarrow> nat \<Rightarrow> links \<Rightarrow> pktq \<Rightarrow> 'c \<Rightarrow> (links \<times> pktq \<times> 'c) option" where
  "flush_precs free 0 L pq c = Some (L, pq, c)"
| "flush_precs free (Suc prec) L pq c =
     (case pktq_pflush free prec L pq c of
        None \<Rightarrow> None
      | Some (L, pq, c) \<Rightarrow> flush_precs free prec L pq c)"

definition pktq_flush ::
    "(ptr \<Rightarrow> 'c \<Rightarrow> 'c) \<Rightarrow> links \<Rightarrow> pktq \<Rightarrow> 'c \<Rightarrow> (links \<times> pktq \<times> 'c) option" where
  "pktq_flush free L pq c =
     (if n_pkts_tot pq > 0 then flush_precs free (unat (num_prec pq)) L pq c else Some (L, pq, c))"

datatype pktq_filter_result = PKT_FILTER_NOACTION | PKT_FILTER_DELETE | PKT_FILTER_REMOVE

text \<open>The loop over the work queue; \<open>put_back\<close> is \<open>pktq_penq(pq, prec, \<cdot>)\<close> or \<open>spktq_enq(spq, \<cdot>)\<close>.\<close>

partial_function (option) filter_loop ::
    "('c \<Rightarrow> ptr \<Rightarrow> pktq_filter_result \<times> 'c) \<Rightarrow> (ptr \<Rightarrow> 'c \<Rightarrow> 'c)
      \<Rightarrow> (ptr \<Rightarrow> links \<Rightarrow> 'q \<Rightarrow> ptr \<times> links \<times> 'q)
      \<Rightarrow> links \<Rightarrow> pktq_prec \<Rightarrow> 'q \<Rightarrow> 'c \<Rightarrow> (links \<times> 'q \<times> 'c) option" where
  "filter_loop fltr defer put_back L wq qs c =
     (let p = head wq in
      if p = NULL then Some (L, qs, c)
      else let wq = wq\<lparr>head := PKTLINK L p\<rparr>;
               L = PKTSETLINK p NULL L;
               wq = wq\<lparr>n_pkts := n_pkts wq - 1\<rparr>
           in case fltr c p of
                (PKT_FILTER_NOACTION, c) \<Rightarrow>
                  (case put_back p L qs of (_, L, qs) \<Rightarrow>
                     filter_loop fltr defer put_back L wq qs c)
              | (PKT_FILTER_DELETE, c) \<Rightarrow> filter_loop fltr defer put_back L wq qs (defer p c)
              | (PKT_FILTER_REMOVE, c) \<Rightarrow> filter_loop fltr defer put_back L wq qs c)"

definition pktq_pfilter_core ::
    "nat \<Rightarrow> ('c \<Rightarrow> ptr \<Rightarrow> pktq_filter_result \<times> 'c) \<Rightarrow> (ptr \<Rightarrow> 'c \<Rightarrow> 'c)
      \<Rightarrow> links \<Rightarrow> pktq \<Rightarrow> 'c \<Rightarrow> (links \<times> pktq \<times> 'c) option" where
  "pktq_pfilter_core prec fltr defer L pq c =
     (let wq = get_q pq prec;
          pq = put_q prec (q_reset (get_q pq prec)) pq;
          pq = pq\<lparr>n_pkts_tot := n_pkts_tot pq - n_pkts wq\<rparr>
      in filter_loop fltr defer (pktq_penq prec) L wq pq c)"

definition pktq_pfilter ::
    "nat \<Rightarrow> ('c \<Rightarrow> ptr \<Rightarrow> pktq_filter_result \<times> 'c) \<Rightarrow> (ptr \<Rightarrow> 'c \<Rightarrow> 'c) \<Rightarrow> ('c \<Rightarrow> 'c)
      \<Rightarrow> links \<Rightarrow> pktq \<Rightarrow> 'c \<Rightarrow> (links \<times> pktq \<times> 'c) option" where
  "pktq_pfilter prec fltr defer flush L pq c =
     (case pktq_pfilter_core prec fltr defer L pq c of
        None \<Rightarrow> None | Some (L, pq, c) \<Rightarrow> Some (L, pq, flush c))"

fun filter_precs ::
    "nat \<Rightarrow> ('c \<Rightarrow> ptr \<Rightarrow> pktq_filter_result \<times> 'c) \<Rightarrow> (ptr \<Rightarrow> 'c \<Rightarrow> 'c)
      \<Rightarrow> links \<Rightarrow> pktq \<Rightarrow> 'c \<Rightarrow> (links \<times> pktq \<times> 'c) option" where
  "filter_precs 0 fltr defer L pq c = Some (L, pq, c)"
| "filter_precs (Suc prec) fltr defer L pq c =
     (case pktq_pfilter_core prec fltr defer L pq c of
        None \<Rightarrow> None
      | Some (L, pq, c) \<Rightarrow> filter_precs prec fltr defer L pq c)"

definition pktq_filter ::
    "('c \<Rightarrow> ptr \<Rightarrow> pktq_filter_result \<times> 'c) \<Rightarrow> (ptr \<Rightarrow> 'c \<Rightarrow> 'c) \<Rightarrow> ('c \<Rightarrow> 'c)
      \<Rightarrow> links \<Rightarrow> pktq \<Rightarrow> 'c \<Rightarrow> (links \<times> pktq \<times> 'c) option" where
  "pktq_filter fltr defer flush L pq c =
     (if n_pkts_tot pq > 0 then
        (case filter_precs (unat (num_prec pq)) fltr defer L pq c of
           None \<Rightarrow> None | Some (L, pq, c) \<Rightarrow> Some (L, pq, flush c))
      else Some (L, pq, c))"

definition spktq_filter ::
    "('c \<Rightarrow> ptr \<Rightarrow> pktq_filter_result \<times> 'c) \<Rightarrow> (ptr \<Rightarrow> 'c \<Rightarrow> 'c) \<Rightarrow> ('c \<Rightarrow> 'c)
      \<Rightarrow> links \<Rightarrow> spktq \<Rightarrow> 'c \<Rightarrow> (links \<times> spktq \<times> 'c) option" where
  "spktq_filter fltr defer flush L spq c =
     (if n_pkts spq = 0 then Some (L, spq, c)
      else case filter_loop fltr defer spktq_enq L spq (q_reset spq) c of
        None \<Rightarrow> None | Some (L, spq, c) \<Rightarrow> Some (L, spq, flush c))"

section \<open>The callback registry\<close>

text \<open>\<open>spktq_cbinfo\<close> and \<open>spktq_suppress_cbinfo\<close>: a callback with its argument, absent at start.\<close>

record ('a, 'c) spktq_cbs =
  cbinfo :: "('a \<Rightarrow> spktq \<Rightarrow> 'c \<Rightarrow> 'c) option"
  cbinfo_arg :: 'a
  suppress_cb :: "('a \<Rightarrow> spktq \<Rightarrow> 'c \<Rightarrow> u32 \<times> 'c) option"
  suppress_arg :: 'a

definition spktq_free_register ::
    "('a \<Rightarrow> spktq \<Rightarrow> 'c \<Rightarrow> 'c) option \<Rightarrow> 'a \<Rightarrow> ('a, 'c) spktq_cbs \<Rightarrow> ('a, 'c) spktq_cbs" where
  "spktq_free_register cb arg s = s\<lparr>cbinfo := cb, cbinfo_arg := arg\<rparr>"

definition spktq_cb :: "('a, 'c) spktq_cbs \<Rightarrow> spktq \<Rightarrow> 'c \<Rightarrow> 'c" where
  "spktq_cb s spq c = (case cbinfo s of None \<Rightarrow> c | Some f \<Rightarrow> f (cbinfo_arg s) spq c)"

definition spktq_suppress_register ::
    "('a \<Rightarrow> spktq \<Rightarrow> 'c \<Rightarrow> u32 \<times> 'c) option \<Rightarrow> 'a \<Rightarrow> ('a, 'c) spktq_cbs \<Rightarrow> ('a, 'c) spktq_cbs" where
  "spktq_suppress_register cb arg s = s\<lparr>suppress_cb := cb, suppress_arg := arg\<rparr>"

text \<open>With no callback the \<open>int\<close> code \<open>BCME_UNSUPPORTED\<close> is returned as a \<open>uint32\<close>.\<close>

definition spktq_suppress_cb :: "('a, 'c) spktq_cbs \<Rightarrow> spktq \<Rightarrow> 'c \<Rightarrow> u32 \<times> 'c" where
  "spktq_suppress_cb s spq c =
     (case suppress_cb s of
        None \<Rightarrow> (of_int (bcme_code BCME_UNSUPPORTED), c)
      | Some f \<Rightarrow> f (suppress_arg s) spq c)"

end
