(* ===== verification/Pktq_Rep.thy ===== *)
theory Pktq_Rep
  imports Pktq
begin

text \<open>
  What a packet queue represents: \<open>seg\<close> follows the links from a packet to an end pointer,
  \<open>q_rep\<close> says that one \<open>struct pktq_prec\<close> holds a list of packets, \<open>pq_rep\<close> that a
  \<open>struct pktq\<close> holds one list per precedence, pairwise disjoint, with exact counters and a
  \<open>hi_prec\<close> hint that no packet lies above. Every manipulation of a queue is related to the
  list operation it implements. The locale \<open>fifo_queue\<close> is the interface the loops over a queue
  rely on; single queues and each precedence of a multi precedence queue are its instances.
\<close>

section \<open>Chains of packets\<close>

fun seg :: "links \<Rightarrow> ptr \<Rightarrow> ptr list \<Rightarrow> ptr \<Rightarrow> bool" where
  "seg L p [] e \<longleftrightarrow> p = e"
| "seg L p (x # xs) e \<longleftrightarrow> p = x \<and> x \<noteq> NULL \<and> seg L (L x) xs e"

lemma seg_append: "seg L p (xs @ ys) e \<longleftrightarrow> (\<exists>m. seg L p xs m \<and> seg L m ys e)"
  by (induction xs arbitrary: p) auto

lemma seg_cong: "(\<And>x. x \<in> set xs \<Longrightarrow> L' x = L x) \<Longrightarrow> seg L' p xs e = seg L p xs e"
  by (induction xs arbitrary: p) auto

lemma seg_upd [simp]: "x \<notin> set xs \<Longrightarrow> seg (L(x := v)) p xs e = seg L p xs e"
  by (rule seg_cong) auto

lemma seg_not_NULL: "seg L p xs e \<Longrightarrow> NULL \<notin> set xs"
  by (induction xs arbitrary: p) auto

lemma seg_head: "seg L p xs NULL \<Longrightarrow> p = (if xs = [] then NULL else hd xs)"
  by (cases xs) auto

lemma seg_head_NULL [simp]: "seg L NULL xs NULL \<longleftrightarrow> xs = []"
  by (cases xs) auto

lemma seg_unique: "seg L p xs NULL \<Longrightarrow> seg L p ys NULL \<Longrightarrow> xs = ys"
proof (induction xs arbitrary: p ys)
  case Nil
  then show ?case by (cases ys) auto
next
  case (Cons x xs)
  then show ?case by (cases ys) auto
qed

lemma seg_distinct: "seg L p xs NULL \<Longrightarrow> distinct xs"
proof (induction xs arbitrary: p)
  case (Cons x xs)
  have "x \<notin> set xs"
  proof
    assume "x \<in> set xs"
    then obtain us vs where xs: "xs = us @ x # vs" by (meson split_list)
    have "seg L (L x) vs NULL" using Cons.prems by (auto simp: xs seg_append)
    then have "vs = xs" using Cons.prems by (intro seg_unique) auto
    then show False using xs by simp
  qed
  then show ?case using Cons by auto
qed simp

lemma seg_snoc: "seg L p (xs @ [x]) e \<longleftrightarrow> seg L p xs x \<and> x \<noteq> NULL \<and> L x = e"
  by (auto simp: seg_append)

lemma seg_relink_last:
  assumes "seg L p xs e" and "xs \<noteq> []" and "distinct xs"
  shows "seg (L(last xs := e')) p xs e'"
proof -
  obtain ys y where xs: "xs = ys @ [y]" using assms(2) by (metis append_butlast_last_id)
  show ?thesis using assms by (simp add: xs seg_snoc)
qed

section \<open>One queue\<close>

definition q_rep :: "links \<Rightarrow> pktq_prec \<Rightarrow> ptr list \<Rightarrow> bool" where
  "q_rep L q xs \<longleftrightarrow>
     seg L (head q) xs NULL \<and> tail q = (if xs = [] then NULL else last xs) \<and>
     n_pkts q = of_nat (length xs) \<and> length xs < 65536"

lemma q_rep_distinct: "q_rep L q xs \<Longrightarrow> distinct xs"
  by (auto simp: q_rep_def dest: seg_distinct)

lemma q_rep_not_NULL: "q_rep L q xs \<Longrightarrow> NULL \<notin> set xs"
  by (auto simp: q_rep_def dest: seg_not_NULL)

lemma q_rep_head_NULL: "q_rep L q xs \<Longrightarrow> head q = NULL \<longleftrightarrow> xs = []"
  by (cases xs) (auto simp: q_rep_def)

lemma q_rep_head: "q_rep L q xs \<Longrightarrow> xs \<noteq> [] \<Longrightarrow> head q = hd xs"
  by (cases xs) (auto simp: q_rep_def)

lemma q_rep_tail: "q_rep L q xs \<Longrightarrow> xs \<noteq> [] \<Longrightarrow> tail q = last xs"
  by (simp add: q_rep_def)

lemma q_rep_cong: "(\<And>x. x \<in> set xs \<Longrightarrow> L' x = L x) \<Longrightarrow> q_rep L' q xs = q_rep L q xs"
  by (simp add: q_rep_def seg_cong [of xs L' L])

lemma q_rep_max [simp]: "q_rep L (q\<lparr>max_pkts := m\<rparr>) xs = q_rep L q xs"
  by (simp add: q_rep_def)

lemma q_rep_n_pkts_0: "q_rep L q xs \<Longrightarrow> n_pkts q = 0 \<longleftrightarrow> xs = []"
  by (auto simp: q_rep_def of_nat_u16_eq_0)

lemma q_rep_n_pkts: "q_rep L q xs \<Longrightarrow> unat (n_pkts q) = length xs"
  by (auto simp: q_rep_def word_conv)

lemma q_rep_zero [simp]: "q_rep L (zero_prec\<lparr>max_pkts := m\<rparr>) []"
  by (simp add: q_rep_def zero_prec_def)

lemma q_rep_reset [simp]: "q_rep L (q_reset q) []"
  by (simp add: q_rep_def q_reset_def)

text \<open>Every manipulation, with the links it may change.\<close>

lemma q_enq_tail_rep:
  assumes rep: "q_rep L q xs" and p: "p \<noteq> NULL" "p \<notin> set xs" "L p = NULL"
    and len: "length xs < 65535"
  obtains L' q' where "q_enq_tail p L q = (L', q')" "q_rep L' q' (xs @ [p])"
    "\<And>y. y \<notin> set xs \<Longrightarrow> L' y = L y" "max_pkts q' = max_pkts q"
proof (cases "xs = []")
  case True
  then show ?thesis
    using that [of L "q\<lparr>head := p, tail := p, n_pkts := n_pkts q + 1\<rparr>"] rep p
    by (simp add: q_rep_def q_enq_tail_def)
next
  case False
  let ?L = "L(last xs := p)" and ?q = "q\<lparr>tail := p, n_pkts := n_pkts q + 1\<rparr>"
  have "seg ?L (head q) xs p"
    using rep False q_rep_distinct [OF rep] by (intro seg_relink_last [where e = NULL]) (auto simp: q_rep_def)
  moreover have "last xs \<noteq> p" using False p by (intro last_neq)
  ultimately have rep': "q_rep ?L ?q (xs @ [p])"
    using rep p len by (auto simp: q_rep_def seg_snoc)
  have eq: "q_enq_tail p L q = (?L, ?q)"
    using rep False q_rep_head_NULL [OF rep] by (simp add: q_enq_tail_def PKTSETLINK_def q_rep_def)
  show ?thesis using eq rep' by (rule that) (use last_neq False in auto)
qed

lemma q_enq_head_rep:
  assumes rep: "q_rep L q xs" and p: "p \<noteq> NULL" "p \<notin> set xs" and len: "length xs < 65535"
  obtains L' q' where "q_enq_head p L q = (L', q')" "q_rep L' q' (p # xs)"
    "\<And>y. y \<noteq> p \<Longrightarrow> L' y = L y" "max_pkts q' = max_pkts q"
proof -
  let ?L = "L(p := head q)"
  let ?q = "q\<lparr>head := p, tail := (if xs = [] then p else tail q), n_pkts := n_pkts q + 1\<rparr>"
  have "q_enq_head p L q = (?L, ?q)"
    using q_rep_head_NULL [OF rep] by (auto simp: q_enq_head_def PKTSETLINK_def)
  moreover have "q_rep ?L ?q (p # xs)" using rep p len by (auto simp: q_rep_def)
  ultimately show ?thesis using that by simp
qed

lemma q_deq_head_Nil: "q_rep L q [] \<Longrightarrow> q_deq_head L q = (NULL, L, q)"
  by (simp add: q_deq_head_def q_rep_def)

lemma q_deq_head_Cons:
  assumes "q_rep L q (x # xs)"
  obtains q' where "q_deq_head L q = (x, L(x := NULL), q')" "q_rep (L(x := NULL)) q' xs"
    "max_pkts q' = max_pkts q"
proof -
  let ?q = "q\<lparr>head := L x, tail := (if xs = [] then NULL else tail q), n_pkts := n_pkts q - 1\<rparr>"
  have x: "head q = x" "x \<noteq> NULL" "x \<notin> set xs" "L x = NULL \<longleftrightarrow> xs = []" "seg L (L x) xs NULL"
    using assms q_rep_distinct [OF assms] by (auto simp: q_rep_def dest: seg_head)
  have "q_deq_head L q = (x, L(x := NULL), ?q)"
    using x by (simp add: q_deq_head_def PKTLINK_def PKTSETLINK_def Let_def)
  moreover have "q_rep (L(x := NULL)) ?q xs"
    using assms x by (auto simp: q_rep_def)
  ultimately show ?thesis using that by simp
qed

lemma walk_tail_seg:
  "seg L p (ys @ [t]) e \<Longrightarrow> t \<notin> set ys \<Longrightarrow>
     walk_tail L t prev p = Some (if ys = [] then prev else last ys, t)"
proof (induction ys arbitrary: p prev)
  case Nil
  then show ?case by (simp add: walk_tail.simps)
next
  case (Cons y ys)
  then have "walk_tail L t y (L y) = Some (if ys = [] then y else last ys, t)"
    by (intro Cons.IH) auto
  then show ?case
    using Cons.prems by (subst walk_tail.simps) (auto simp: PKTLINK_def)
qed

lemma q_deq_tail_Nil: "q_rep L q [] \<Longrightarrow> q_deq_tail L q = Some (NULL, L, q)"
  by (simp add: q_deq_tail_def q_rep_def)

lemma q_deq_tail_snoc:
  assumes rep: "q_rep L q (xs @ [x])"
  obtains L' q' where "q_deq_tail L q = Some (x, L', q')" "q_rep L' q' xs" "L' x = NULL"
    "\<And>y. y \<notin> set xs \<Longrightarrow> L' y = L y" "max_pkts q' = max_pkts q"
proof -
  let ?prev = "if xs = [] then NULL else last xs"
  let ?L = "if xs = [] then L else L(last xs := NULL)"
  let ?q = "q\<lparr>head := (if xs = [] then NULL else head q), tail := ?prev, n_pkts := n_pkts q - 1\<rparr>"
  have d: "x \<notin> set xs" "distinct xs" "NULL \<notin> set xs" "x \<noteq> NULL"
    using q_rep_distinct [OF rep] q_rep_not_NULL [OF rep] by auto
  have prev: "?prev \<noteq> NULL \<longleftrightarrow> xs \<noteq> []" using d last_neq [of xs NULL] by auto
  have hd: "head q \<noteq> NULL" using q_rep_head_NULL [OF rep] by simp
  have sx: "seg L (head q) xs x" "L x = NULL" using rep by (auto simp: q_rep_def seg_snoc)
  have tl: "tail q = x" using rep by (simp add: q_rep_def)
  have "walk_tail L x NULL (head q) = Some (?prev, x)"
    using rep d by (intro walk_tail_seg) (auto simp: q_rep_def)
  then have "q_deq_tail L q = Some (x, ?L, ?q)"
    using hd tl prev by (simp add: q_deq_tail_def PKTSETLINK_def)
  moreover have "q_rep ?L ?q xs"
    using rep sx d seg_relink_last [OF sx(1), of NULL] by (auto simp: q_rep_def)
  moreover have "?L x = NULL" using sx d last_neq [of xs x] by auto
  ultimately show ?thesis by (rule that) (auto split: if_splits)
qed

lemma q_append_rep:
  assumes a: "q_rep L q xs" and b: "q_rep L lq ys" and ne: "ys \<noteq> []"
    and disj: "set xs \<inter> set ys = {}" and len: "length xs + length ys < 65536"
  obtains L' q' where "q_append L q lq = (L', q')" "q_rep L' q' (xs @ ys)"
    "\<And>y. y \<notin> set xs \<Longrightarrow> L' y = L y" "max_pkts q' = max_pkts q"
proof (cases "xs = []")
  case True
  then show ?thesis
    using that [of L "q\<lparr>head := head lq, tail := tail lq, n_pkts := n_pkts q + n_pkts lq\<rparr>"] a b len
    by (simp add: q_rep_def q_append_def)
next
  case False
  let ?L = "L(last xs := head lq)"
  let ?q = "q\<lparr>tail := tail lq, n_pkts := n_pkts q + n_pkts lq\<rparr>"
  have "seg ?L (head q) xs (head lq)"
    using a False q_rep_distinct [OF a] by (intro seg_relink_last [where e = NULL]) (auto simp: q_rep_def)
  moreover have "last xs \<notin> set ys" using False disj by (rule last_outside)
  ultimately have rep': "q_rep ?L ?q (xs @ ys)"
    using a b ne len by (auto simp: q_rep_def seg_append)
  have eq: "q_append L q lq = (?L, ?q)"
    using a False q_rep_head_NULL [OF a] by (simp add: q_append_def PKTSETLINK_def q_rep_def)
  show ?thesis using eq rep' by (rule that) (use last_neq False in auto)
qed

lemma q_prepend_rep:
  assumes a: "q_rep L q xs" and b: "q_rep L lq ys" and ne: "ys \<noteq> []"
    and disj: "set xs \<inter> set ys = {}" and len: "length xs + length ys < 65536"
  obtains L' q' where "q_prepend L q lq = (L', q')" "q_rep L' q' (ys @ xs)"
    "\<And>y. y \<notin> set ys \<Longrightarrow> L' y = L y" "max_pkts q' = max_pkts q"
proof -
  let ?L = "L(last ys := head q)"
  let ?q = "q\<lparr>head := head lq, tail := (if xs = [] then tail lq else tail q),
              n_pkts := n_pkts q + n_pkts lq\<rparr>"
  have tq: "tail q = NULL \<longleftrightarrow> xs = []"
    using a q_rep_not_NULL [OF a] last_neq [of xs NULL] by (auto simp: q_rep_def)
  have "seg ?L (head lq) ys (head q)"
    using b ne q_rep_distinct [OF b] by (intro seg_relink_last [where e = NULL]) (auto simp: q_rep_def)
  moreover have "last ys \<notin> set xs" using ne disj by (intro last_outside) auto
  ultimately have rep': "q_rep ?L ?q (ys @ xs)"
    using a b ne len by (auto simp: q_rep_def seg_append)
  have eq: "q_prepend L q lq = (?L, ?q)"
    using b ne tq by (simp add: q_prepend_def PKTSETLINK_def q_rep_def)
  show ?thesis using eq rep' by (rule that) (use last_neq ne in auto)
qed

text \<open>Searching a queue, and taking a packet out of its middle.\<close>

lemma find_fn_found:
  "seg L p (ys @ x # zs) e \<Longrightarrow> \<forall>y\<in>set ys. \<not> f y \<Longrightarrow> f x \<Longrightarrow>
     find_fn L (Some f) prev p = Some (if ys = [] then prev else last ys, x)"
proof (induction ys arbitrary: p prev)
  case Nil
  then show ?case by (simp add: find_fn.simps)
next
  case (Cons y ys)
  then have "find_fn L (Some f) y (L y) = Some (if ys = [] then y else last ys, x)"
    by (intro Cons.IH) auto
  then show ?case using Cons.prems by (subst find_fn.simps) (auto simp: PKTLINK_def)
qed

lemma find_fn_none:
  "seg L p xs NULL \<Longrightarrow> \<forall>y\<in>set xs. \<not> f y \<Longrightarrow> \<exists>prev'. find_fn L (Some f) prev p = Some (prev', NULL)"
proof (induction xs arbitrary: p prev)
  case Nil
  then show ?case by (simp add: find_fn.simps)
next
  case (Cons x xs)
  then have "\<exists>prev'. find_fn L (Some f) x (L x) = Some (prev', NULL)" by (intro Cons.IH) auto
  then show ?case using Cons.prems by (subst find_fn.simps) (auto simp: PKTLINK_def)
qed

lemma find_prev_found:
  "seg L p (ys @ y # x # zs) e \<Longrightarrow> x \<notin> set ys \<Longrightarrow> x \<noteq> y \<Longrightarrow> find_prev L x p = Some y"
proof (induction ys arbitrary: p)
  case Nil
  then show ?case by (simp add: find_prev.simps PKTLINK_def)
next
  case (Cons u ys)
  have IH: "find_prev L x (L u) = Some y" using Cons by auto
  have "L u \<noteq> x" using Cons.prems by (cases ys) auto
  then show ?case using Cons.prems IH by (subst find_prev.simps) (auto simp: PKTLINK_def)
qed

lemma find_prev_none:
  "seg L p xs NULL \<Longrightarrow> x \<notin> set xs \<Longrightarrow> x \<noteq> NULL \<Longrightarrow> find_prev L x p = Some NULL"
proof (induction xs arbitrary: p)
  case Nil
  then show ?case by (simp add: find_prev.simps)
next
  case (Cons y xs)
  have IH: "find_prev L x (L y) = Some NULL" using Cons by auto
  have "L y \<noteq> x" using Cons.prems by (cases xs) auto
  then show ?case using Cons.prems IH by (subst find_prev.simps) (auto simp: PKTLINK_def)
qed

lemma seg_unlink:
  assumes "seg L p (ys @ y # x # zs) NULL"
  shows "seg (L(y := L x, x := NULL)) p (ys @ y # zs) NULL"
  using assms seg_distinct [OF assms] by (auto simp: seg_append fun_upd_twist)

lemma q_unlink_rep:
  assumes rep: "q_rep L q (ys @ y # x # zs)"
  shows "q_rep (L(y := L x, x := NULL))
           (q\<lparr>tail := (if tail q = x then y else tail q), n_pkts := n_pkts q - 1\<rparr>) (ys @ y # zs)"
proof -
  have d: "distinct (ys @ y # x # zs)" by (rule q_rep_distinct [OF rep])
  have "tail q = x \<longleftrightarrow> zs = []"
    using rep d last_in_set [of zs] by (auto simp: q_rep_def split: if_splits)
  then show ?thesis
    using rep by (auto simp: q_rep_def intro: seg_unlink)
qed

section \<open>Queues of several precedences\<close>

definition pq_rep :: "links \<Rightarrow> pktq \<Rightarrow> ptr list list \<Rightarrow> bool" where
  "pq_rep L pq xss \<longleftrightarrow>
     0 < length xss \<and> length xss = unat (num_prec pq) \<and> length xss \<le> PKTQ_MAX_PREC \<and>
     length (prec_q pq) = PKTQ_MAX_PREC \<and>
     (\<forall>i<length xss. q_rep L (get_q pq i) (xss ! i)) \<and>
     distinct (concat xss) \<and> length (concat xss) < 65536 \<and>
     n_pkts_tot pq = of_nat (length (concat xss)) \<and>
     unat (hi_prec pq) < length xss \<and> (\<forall>i<length xss. unat (hi_prec pq) < i \<longrightarrow> xss ! i = [])"

lemma pq_rep_len: "pq_rep L pq xss \<Longrightarrow> length xss \<le> length (prec_q pq)"
  by (simp add: pq_rep_def)

lemma pq_rep_q: "pq_rep L pq xss \<Longrightarrow> i < length xss \<Longrightarrow> q_rep L (get_q pq i) (xss ! i)"
  by (simp add: pq_rep_def)

lemma pq_rep_disjoint:
  assumes "pq_rep L pq xss" and "i < length xss" and "j < length xss" and "i \<noteq> j"
  shows "set (xss ! i) \<inter> set (xss ! j) = {}"
  using assms unfolding pq_rep_def distinct_concat_iff_nth by (metis Int_commute linorder_neqE_nat)

lemma pq_rep_tot_0: "pq_rep L pq xss \<Longrightarrow> n_pkts_tot pq = 0 \<longleftrightarrow> concat xss = []"
  unfolding pq_rep_def using of_nat_u16_eq_0 [of "length (concat xss)"] by (metis length_0_conv)

lemma pq_rep_not_NULL: "pq_rep L pq xss \<Longrightarrow> NULL \<notin> set (concat xss)"
  unfolding pq_rep_def by (metis (no_types) UN_E in_set_conv_nth q_rep_not_NULL set_concat)

text \<open>A step that changes the queue of one precedence: the counters, the hint and the other
  queues must fit.\<close>

lemma pq_rep_update:
  assumes rep: "pq_rep L pq xss" and i: "i < length xss"
    and q: "q_rep L' q' ys"
    and frame: "\<And>y. y \<notin> set (xss ! i) \<Longrightarrow> y \<notin> set ys \<Longrightarrow> L' y = L y"
    and fresh: "set ys \<inter> set (concat (xss[i := []])) = {}"
    and len: "length (concat (xss[i := ys])) < 65536"
    and pq': "prec_q pq' = (prec_q pq)[i := q']" "num_prec pq' = num_prec pq"
      "n_pkts_tot pq' = of_nat (length (concat (xss[i := ys])))"
    and hi: "unat (hi_prec pq') < length xss"
      "\<And>j. j < length xss \<Longrightarrow> unat (hi_prec pq') < j \<Longrightarrow> xss[i := ys] ! j = []"
  shows "pq_rep L' pq' (xss[i := ys])"
proof -
  have other: "set ys \<inter> set (xss ! j) = {}" if "j < length xss" "j \<noteq> i" for j
  proof -
    have "set (xss[i := []] ! j) \<subseteq> set (concat (xss[i := []]))"
      using that by (intro nth_concat_subset) simp
    then show ?thesis using fresh that by auto
  qed
  have qs: "q_rep L' (get_q pq' j) (xss[i := ys] ! j)" if j: "j < length xss" for j
  proof (cases "j = i")
    case True
    then show ?thesis using q pq' i pq_rep_len [OF rep] by (simp add: get_q_def)
  next
    case False
    have "L' y = L y" if "y \<in> set (xss ! j)" for y
      using that frame other [OF j False] pq_rep_disjoint [OF rep j i False] by blast
    then have "q_rep L' (get_q pq j) (xss ! j)"
      using pq_rep_q [OF rep j] q_rep_cong [of "xss ! j" L' L] by blast
    then show ?thesis using False pq' by (simp add: get_q_def)
  qed
  have "distinct (concat (xss[i := ys]))"
    unfolding distinct_concat_iff_nth
  proof (intro conjI allI impI)
    fix j assume "j < length (xss[i := ys])"
    then show "distinct (xss[i := ys] ! j)"
      using qs q_rep_distinct by fastforce
  next
    fix j k assume "j < k" "k < length (xss[i := ys])"
    then show "set (xss[i := ys] ! j) \<inter> set (xss[i := ys] ! k) = {}"
      using other [of j] other [of k] pq_rep_disjoint [OF rep, of j k]
      by (cases "j = i"; cases "k = i") auto
  qed
  then show ?thesis
    using rep qs len pq' hi unfolding pq_rep_def by simp
qed

lemma length_concat_le: "i < length xss \<Longrightarrow> length (xss ! i) \<le> length (concat xss)"
  using length_concat_update [of i xss "[]"] by simp

lemma pq_rep_sub_disjoint:
  assumes rep: "pq_rep L pq xss" and i: "i < length xss" and sub: "set ys \<subseteq> set (xss ! i)"
  shows "set ys \<inter> set (concat (xss[i := []])) = {}"
proof -
  have "set (xss ! i) \<inter> set zs = {}" if zs: "zs \<in> set (xss[i := []])" for zs
  proof -
    obtain j where j: "j < length (xss[i := []])" "xss[i := []] ! j = zs"
      using zs unfolding in_set_conv_nth by blast
    show ?thesis
    proof (cases "j = i")
      case True
      then show ?thesis using j i by simp
    next
      case False
      then show ?thesis using j pq_rep_disjoint [OF rep i, of j] by simp
    qed
  qed
  then have "set (xss ! i) \<inter> set (concat (xss[i := []])) = {}" by fastforce
  then show ?thesis using sub by blast
qed

text \<open>The two uses of \<open>pq_rep_update\<close>: adding packets at one precedence, with the hint raised,
  and removing one.\<close>

lemma raise_hi_unat:
  "prec < 256 \<Longrightarrow> unat (hi_prec (raise_hi prec pq)) = max (unat (hi_prec pq)) prec"
  by (simp add: raise_hi_def unsigned_ucast_eq unat_of_nat take_bit_eq_mod)

lemma raise_hi_fields [simp]:
  "prec_q (raise_hi i pq) = prec_q pq" "num_prec (raise_hi i pq) = num_prec pq"
  "n_pkts_tot (raise_hi i pq) = n_pkts_tot pq" "pq_max_pkts (raise_hi i pq) = pq_max_pkts pq"
  by (simp_all add: raise_hi_def)

lemma pq_rep_add:
  assumes rep: "pq_rep L pq xss" and i: "i < length xss"
    and q: "q_rep L' q' ys" and frame: "\<And>y. y \<notin> set (xss ! i) \<Longrightarrow> y \<notin> set ys \<Longrightarrow> L' y = L y"
    and fresh: "set ys \<inter> set (concat (xss[i := []])) = {}"
    and len: "length (concat xss) + n < 65536" "length ys = length (xss ! i) + n"
    and tot: "t = n_pkts_tot pq + of_nat n"
  shows "pq_rep L' (raise_hi i ((put_q i q' pq)\<lparr>n_pkts_tot := t\<rparr>)) (xss[i := ys])"
proof -
  have hi: "unat (hi_prec (raise_hi i ((put_q i q' pq)\<lparr>n_pkts_tot := t\<rparr>))) = max (unat (hi_prec pq)) i"
    using rep i by (simp add: raise_hi_unat pq_rep_def PKTQ_MAX_PREC_def put_q_def)
  have l: "length (concat (xss[i := ys])) = length (concat xss) + n"
    using length_concat_update [OF i, of ys] len length_concat_le [OF i] by simp
  show ?thesis
  proof (rule pq_rep_update [OF rep i q frame fresh])
    show "n_pkts_tot (raise_hi i ((put_q i q' pq)\<lparr>n_pkts_tot := t\<rparr>)) = of_nat (length (concat (xss[i := ys])))"
      unfolding l using rep tot by (simp add: pq_rep_def)
  qed (use rep i len l hi in \<open>auto simp: pq_rep_def put_q_def\<close>)
qed

lemma pq_rep_remove:
  assumes rep: "pq_rep L pq xss" and i: "i < length xss"
    and q: "q_rep L' q' ys" and frame: "\<And>y. y \<notin> set (xss ! i) \<Longrightarrow> L' y = L y"
    and sub: "set ys \<subseteq> set (xss ! i)" and len: "length (xss ! i) = Suc (length ys)"
  shows "pq_rep L' ((put_q i q' pq)\<lparr>n_pkts_tot := n_pkts_tot pq - 1\<rparr>) (xss[i := ys])"
proof -
  have l: "length (concat xss) = Suc (length (concat (xss[i := ys])))"
    using length_concat_update [OF i, of ys] len length_concat_le [OF i] by simp
  show ?thesis
  proof (rule pq_rep_update [OF rep i q _ pq_rep_sub_disjoint [OF rep i sub]])
    show "n_pkts_tot ((put_q i q' pq)\<lparr>n_pkts_tot := n_pkts_tot pq - 1\<rparr>)
        = of_nat (length (concat (xss[i := ys])))"
      using rep l by (simp add: pq_rep_def)
    fix j assume j: "j < length xss"
      and hj: "unat (hi_prec ((put_q i q' pq)\<lparr>n_pkts_tot := n_pkts_tot pq - 1\<rparr>)) < j"
    then have "xss ! j = []" using rep by (simp add: pq_rep_def put_q_def)
    then show "xss[i := ys] ! j = []" using len j by (cases "i = j") auto
  qed (use rep i l frame in \<open>auto simp: pq_rep_def put_q_def\<close>)
qed

end
