(* ===== verification/Pktq_Fifo.thy ===== *)
theory Pktq_Fifo
  imports Pktq_Rep
begin

text \<open>
  The interface the loops over packet queues rely on. An instance of \<open>fifo_queue\<close> represents a
  list of packets inside a context \<open>'x\<close> (the other precedences of the same queue): \<open>others\<close> are
  the packets the context owns, \<open>load\<close> counts them. The laws say what enqueue at the tail and
  dequeue at the head do to the list and which links they leave alone. From them follow, once, the
  first-in first-out order, the flush loop and the filter loop. The instances are the single
  precedence queue (\<open>spktq_enq\<close>, \<open>spktq_deq\<close>) and every precedence of a \<open>pktq\<close>
  (\<open>pktq_penq\<close>, \<open>pktq_pdeq\<close>).
\<close>

section \<open>Runs of operations\<close>

fun enq_all ::
    "(ptr \<Rightarrow> links \<Rightarrow> 'q \<Rightarrow> ptr \<times> links \<times> 'q) \<Rightarrow> ptr list \<Rightarrow> links \<Rightarrow> 'q \<Rightarrow> links \<times> 'q" where
  "enq_all enq [] L qs = (L, qs)"
| "enq_all enq (p # ps) L qs = (case enq p L qs of (_, L, qs) \<Rightarrow> enq_all enq ps L qs)"

fun deq_n ::
    "(links \<Rightarrow> 'q \<Rightarrow> ptr \<times> links \<times> 'q) \<Rightarrow> nat \<Rightarrow> links \<Rightarrow> 'q \<Rightarrow> ptr list \<times> links \<times> 'q" where
  "deq_n deq 0 L qs = ([], L, qs)"
| "deq_n deq (Suc n) L qs =
     (case deq L qs of (p, L, qs) \<Rightarrow>
        (case deq_n deq n L qs of (ps, L, qs) \<Rightarrow> (p # ps, L, qs)))"

text \<open>What the filter loop computes, on lists: the packets kept, in order, and the client state.\<close>

fun keep ::
    "('c \<Rightarrow> ptr \<Rightarrow> pktq_filter_result \<times> 'c) \<Rightarrow> (ptr \<Rightarrow> 'c \<Rightarrow> 'c) \<Rightarrow> ptr list \<Rightarrow> 'c
      \<Rightarrow> ptr list \<times> 'c" where
  "keep fltr defer [] c = ([], c)"
| "keep fltr defer (p # ps) c =
     (case fltr c p of
        (PKT_FILTER_NOACTION, c) \<Rightarrow> (case keep fltr defer ps c of (zs, c) \<Rightarrow> (p # zs, c))
      | (PKT_FILTER_DELETE, c) \<Rightarrow> keep fltr defer ps (defer p c)
      | (PKT_FILTER_REMOVE, c) \<Rightarrow> keep fltr defer ps c)"

lemma keep_set: "keep fltr defer ps c = (zs, c') \<Longrightarrow> set zs \<subseteq> set ps \<and> length zs \<le> length ps"
  by (induction ps arbitrary: c zs)
    (fastforce split: prod.splits pktq_filter_result.splits)+

section \<open>The interface\<close>

locale fifo_queue =
  fixes rep :: "links \<Rightarrow> 'q \<Rightarrow> 'x \<Rightarrow> ptr list \<Rightarrow> bool"
    and others :: "'x \<Rightarrow> ptr set"
    and load :: "'x \<Rightarrow> nat"
    and enq :: "ptr \<Rightarrow> links \<Rightarrow> 'q \<Rightarrow> ptr \<times> links \<times> 'q"
    and deq :: "links \<Rightarrow> 'q \<Rightarrow> ptr \<times> links \<times> 'q"
  assumes rep_sep: "rep L q x xs \<Longrightarrow> NULL \<notin> set xs \<and> distinct xs \<and> set xs \<inter> others x = {}"
    and rep_frame:
      "rep L q x xs \<Longrightarrow> (\<And>y. y \<in> set xs \<union> others x \<Longrightarrow> L' y = L y) \<Longrightarrow> rep L' q x xs"
    and enq_rep:
      "rep L q x xs \<Longrightarrow> p \<noteq> NULL \<Longrightarrow> p \<notin> set xs \<union> others x \<Longrightarrow> L p = NULL \<Longrightarrow>
       load x + length xs < 65535 \<Longrightarrow>
       \<exists>L' q'. enq p L q = (p, L', q') \<and> rep L' q' x (xs @ [p]) \<and> (\<forall>y. y \<notin> set xs \<longrightarrow> L' y = L y)"
    and deq_Nil: "rep L q x [] \<Longrightarrow> deq L q = (NULL, L, q)"
    and deq_Cons:
      "rep L q x (p # xs) \<Longrightarrow> \<exists>q'. deq L q = (p, L(p := NULL), q') \<and> rep (L(p := NULL)) q' x xs"
begin

lemma enq_all_rep:
  assumes "rep L q x xs" and "NULL \<notin> set ps" and "distinct ps"
    and "set ps \<inter> (set xs \<union> others x) = {}" and "\<forall>p\<in>set ps. L p = NULL"
    and "load x + length xs + length ps < 65536"
  shows "\<exists>L' q'. enq_all enq ps L q = (L', q') \<and> rep L' q' x (xs @ ps)"
  using assms
proof (induction ps arbitrary: L q xs)
  case Nil
  then show ?case by simp
next
  case (Cons p ps)
  then have "p \<noteq> NULL" "p \<notin> set xs \<union> others x" "L p = NULL" "load x + length xs < 65535" by auto
  from enq_rep [OF Cons.prems(1) this] obtain L' q' where
    e: "enq p L q = (p, L', q')" "rep L' q' x (xs @ [p])" "\<forall>y. y \<notin> set xs \<longrightarrow> L' y = L y" by blast
  have "\<exists>L'' q''. enq_all enq ps L' q' = (L'', q'') \<and> rep L'' q'' x ((xs @ [p]) @ ps)"
    using Cons.prems e by (intro Cons.IH) (auto simp: disjoint_iff)
  then show ?case by (simp add: e(1))
qed

lemma deq_n_rep:
  assumes "rep L q x (ps @ xs)"
  shows "\<exists>L' q'. deq_n deq (length ps) L q = (ps, L', q') \<and> rep L' q' x xs"
  using assms
proof (induction ps arbitrary: L q)
  case Nil
  then show ?case by simp
next
  case (Cons p ps)
  from deq_Cons [of L q x p "ps @ xs"] Cons.prems obtain q' where
    d: "deq L q = (p, L(p := NULL), q')" "rep (L(p := NULL)) q' x (ps @ xs)" by auto
  from Cons.IH [OF d(2)] obtain L' q'' where
    r: "deq_n deq (length ps) (L(p := NULL)) q' = (ps, L', q'')" "rep L' q'' x xs" by blast
  have "deq_n deq (length (p # ps)) L q = (p # ps, L', q'')" by (simp add: d(1) r(1))
  with r(2) show ?case by blast
qed

lemma fifo_order:
  assumes "rep L q x xs" and "NULL \<notin> set ps" and "distinct ps"
    and "set ps \<inter> (set xs \<union> others x) = {}" and "\<forall>p\<in>set ps. L p = NULL"
    and "load x + length xs + length ps < 65536"
  shows "\<exists>L' q'. (case enq_all enq ps L q of (L, q) \<Rightarrow> deq_n deq (length xs + length ps) L q)
           = (xs @ ps, L', q') \<and> rep L' q' x []"
proof -
  obtain L' q' where e: "enq_all enq ps L q = (L', q')" "rep L' q' x ((xs @ ps) @ [])"
    using enq_all_rep [OF assms] by auto
  from deq_n_rep [OF e(2)] show ?thesis by (simp add: e(1))
qed

lemma filter_loop_rep:
  assumes "rep L q x ks" and "seg L (head wq) ys NULL" and "set ys \<inter> (set ks \<union> others x) = {}"
    and "load x + length ks + length ys < 65536" and "keep fltr defer ys c = (zs, c')"
  shows "\<exists>L' q'. filter_loop fltr defer enq L wq q c = Some (L', q', c') \<and> rep L' q' x (ks @ zs) \<and>
           (\<forall>y. y \<notin> set ks \<union> set ys \<longrightarrow> L' y = L y)"
  using assms
proof (induction ys arbitrary: L q ks wq c zs)
  case Nil
  then show ?case by (simp add: filter_loop.simps)
next
  case (Cons p ys)
  let ?L = "L(p := NULL)"
  let ?wq = "wq\<lparr>head := L p, n_pkts := n_pkts wq - 1\<rparr>"
  have p: "head wq = p" "p \<noteq> NULL" "p \<notin> set ys" "p \<notin> set ks \<union> others x" "seg L (L p) ys NULL"
    using Cons.prems(2,3) seg_distinct [OF Cons.prems(2)] by auto
  have rep1: "rep ?L q x ks" using p by (intro rep_frame [OF Cons.prems(1)]) auto
  have seg1: "seg ?L (head ?wq) ys NULL" using p by simp
  have unf: "filter_loop fltr defer enq L wq q c =
      (case fltr c p of
         (PKT_FILTER_NOACTION, c) \<Rightarrow> (case enq p ?L q of (_, L, q) \<Rightarrow> filter_loop fltr defer enq L ?wq q c)
       | (PKT_FILTER_DELETE, c) \<Rightarrow> filter_loop fltr defer enq ?L ?wq q (defer p c)
       | (PKT_FILTER_REMOVE, c) \<Rightarrow> filter_loop fltr defer enq ?L ?wq q c)"
    unfolding filter_loop.simps [of fltr "defer" enq L wq q c] Let_def PKTLINK_def PKTSETLINK_def p(1)
    using p(2) by (simp split: prod.split pktq_filter_result.split)
  have drop: "\<exists>L' q'. filter_loop fltr defer enq ?L ?wq q d = Some (L', q', c') \<and> rep L' q' x (ks @ zs) \<and>
      (\<forall>y. y \<notin> set ks \<union> set (p # ys) \<longrightarrow> L' y = L y)" if "keep fltr defer ys d = (zs, c')" for d
  proof -
    have "\<exists>L' q'. filter_loop fltr defer enq ?L ?wq q d = Some (L', q', c') \<and> rep L' q' x (ks @ zs) \<and>
        (\<forall>y. y \<notin> set ks \<union> set ys \<longrightarrow> L' y = ?L y)"
      using Cons.prems(3,4) that by (intro Cons.IH [OF rep1 seg1]) auto
    then show ?thesis by (auto simp del: fun_upd_apply) (metis fun_upd_other)
  qed
  obtain r d where fr: "fltr c p = (r, d)" by fastforce
  show ?case
  proof (cases r)
    case PKT_FILTER_NOACTION
    then obtain zs' where k: "keep fltr defer ys d = (zs', c')" "zs = p # zs'"
      using Cons.prems(5) fr by (auto split: prod.splits)
    have "\<exists>L' q'. enq p ?L q = (p, L', q') \<and> rep L' q' x (ks @ [p]) \<and> (\<forall>y. y \<notin> set ks \<longrightarrow> L' y = ?L y)"
      using p Cons.prems(4) by (intro enq_rep [OF rep1]) auto
    then obtain L' q' where
      e: "enq p ?L q = (p, L', q')" "rep L' q' x (ks @ [p])" "\<forall>y. y \<notin> set ks \<longrightarrow> L' y = ?L y"
      by blast
    have "seg L' (head ?wq) ys NULL"
    proof -
      have "L' y = ?L y" if "y \<in> set ys" for y using that e(3) Cons.prems(3) by auto
      then show ?thesis using seg1 seg_cong [of ys L' ?L] by blast
    qed
    then have "\<exists>L'' q''. filter_loop fltr defer enq L' ?wq q' d = Some (L'', q'', c') \<and>
        rep L'' q'' x ((ks @ [p]) @ zs') \<and> (\<forall>y. y \<notin> set (ks @ [p]) \<union> set ys \<longrightarrow> L'' y = L' y)"
      using Cons.prems(3,4) p k by (intro Cons.IH [OF e(2)]) auto
    then show ?thesis using e fr k PKT_FILTER_NOACTION by (simp add: unf)
  qed (use Cons.prems(5) fr drop in \<open>auto simp: unf\<close>)
qed

end

text \<open>A loop that dequeues until the queue is empty and hands every packet to \<open>visit\<close>.\<close>

locale drained_queue = fifo_queue rep others load enq deq
  for rep :: "links \<Rightarrow> 'q \<Rightarrow> 'x \<Rightarrow> ptr list \<Rightarrow> bool"
    and others :: "'x \<Rightarrow> ptr set"
    and load :: "'x \<Rightarrow> nat"
    and enq :: "ptr \<Rightarrow> links \<Rightarrow> 'q \<Rightarrow> ptr \<times> links \<times> 'q"
    and deq :: "links \<Rightarrow> 'q \<Rightarrow> ptr \<times> links \<times> 'q" +
  fixes loop :: "links \<Rightarrow> 'q \<Rightarrow> 'c \<Rightarrow> (links \<times> 'q \<times> 'c) option"
    and visit :: "ptr \<Rightarrow> 'c \<Rightarrow> 'c"
  assumes loop_eq:
    "loop L q c = (case deq L q of (p, L, q) \<Rightarrow> if p = NULL then Some (L, q, c) else loop L q (visit p c))"
begin

lemma loop_drains:
  "rep L q x xs \<Longrightarrow>
     \<exists>L' q'. loop L q c = Some (L', q', fold visit xs c) \<and> rep L' q' x [] \<and>
       L' = (\<lambda>y. if y \<in> set xs then NULL else L y)"
proof (induction xs arbitrary: L q c)
  case Nil
  then show ?case by (subst loop_eq) (simp add: deq_Nil)
next
  case (Cons p xs)
  from deq_Cons [OF Cons.prems] obtain q' where
    d: "deq L q = (p, L(p := NULL), q')" "rep (L(p := NULL)) q' x xs" by blast
  have "p \<noteq> NULL" using rep_sep [OF Cons.prems] by auto
  from Cons.IH [OF d(2), of "visit p c"] obtain L' q'' where
    r: "loop (L(p := NULL)) q' (visit p c) = Some (L', q'', fold visit xs (visit p c))" "rep L' q'' x []"
      "L' = (\<lambda>y. if y \<in> set xs then NULL else (L(p := NULL)) y)" by blast
  have "loop L q c = Some (L', q'', fold visit (p # xs) c)"
    using \<open>p \<noteq> NULL\<close> by (subst loop_eq) (simp add: d(1) r(1))
  moreover have "L' = (\<lambda>y. if y \<in> set (p # xs) then NULL else L y)" by (simp add: r(3) fun_eq_iff)
  ultimately show ?case using r(2) by blast
qed

end

section \<open>The instances\<close>

definition sq_rep :: "links \<Rightarrow> spktq \<Rightarrow> unit \<Rightarrow> ptr list \<Rightarrow> bool" where
  "sq_rep L q x xs \<longleftrightarrow> q_rep L q xs"

definition prec_rep :: "nat \<Rightarrow> links \<Rightarrow> pktq \<Rightarrow> ptr list list \<Rightarrow> ptr list \<Rightarrow> bool" where
  "prec_rep i L pq xss xs \<longleftrightarrow> i < length xss \<and> pq_rep L pq (xss[i := xs])"

definition prec_others :: "nat \<Rightarrow> ptr list list \<Rightarrow> ptr set" where
  "prec_others i xss = set (concat (xss[i := []]))"

definition prec_load :: "nat \<Rightarrow> ptr list list \<Rightarrow> nat" where
  "prec_load i xss = length (concat (xss[i := []]))"

lemma prec_rep_self: "pq_rep L pq xss \<Longrightarrow> i < length xss \<Longrightarrow> prec_rep i L pq xss (xss ! i)"
  by (simp add: prec_rep_def)

lemma prec_split:
  assumes "i < length xss"
  shows "prec_load i xss + length xs = length (concat (xss[i := xs]))"
    and "set xs \<union> prec_others i xss = set (concat (xss[i := xs]))"
proof -
  show "prec_load i xss + length xs = length (concat (xss[i := xs]))"
    using assms length_concat_update [of i "xss[i := xs]" "[]"] by (simp add: prec_load_def)
  have "xss[i := zs] = take i xss @ zs # drop (Suc i) xss" for zs
    using assms by (rule upd_conv_take_nth_drop)
  then show "set xs \<union> prec_others i xss = set (concat (xss[i := xs]))"
    by (auto simp: prec_others_def)
qed

lemma pq_rep_frame:
  assumes "pq_rep L pq xss" and "\<And>y. y \<in> set (concat xss) \<Longrightarrow> L' y = L y"
  shows "pq_rep L' pq xss"
proof -
  have "q_rep L' (get_q pq i) (xss ! i)" if i: "i < length xss" for i
  proof -
    have "L' y = L y" if "y \<in> set (xss ! i)" for y
      using that assms(2) nth_concat_subset [OF i] by blast
    then show ?thesis using pq_rep_q [OF assms(1) i] q_rep_cong [of "xss ! i" L' L] by blast
  qed
  then show ?thesis using assms(1) by (simp add: pq_rep_def)
qed

lemma pktq_penq_rep:
  assumes rep: "pq_rep L pq xss" and i: "i < length xss"
    and p: "p \<noteq> NULL" "p \<notin> set (concat xss)" "L p = NULL" and len: "length (concat xss) < 65535"
  obtains L' pq' where "pktq_penq i p L pq = (p, L', pq')" "pq_rep L' pq' (xss[i := xss ! i @ [p]])"
    "\<And>y. y \<notin> set (xss ! i) \<Longrightarrow> L' y = L y"
proof -
  have "p \<notin> set (xss ! i)" "length (xss ! i) < 65535"
    using p nth_concat_subset [OF i] length_concat_le [OF i] len by auto
  with q_enq_tail_rep [OF pq_rep_q [OF rep i] p(1) _ p(3)] obtain L' q' where
    e: "q_enq_tail p L (get_q pq i) = (L', q')" "q_rep L' q' (xss ! i @ [p])"
      "\<And>y. y \<notin> set (xss ! i) \<Longrightarrow> L' y = L y" by metis
  have "set (xss ! i @ [p]) \<inter> set (concat (xss[i := []])) = {}"
    using pq_rep_sub_disjoint [OF rep i order_refl] p set_concat_update [of xss i "[]"] by auto
  then have "pq_rep L' (raise_hi i ((put_q i q' pq)\<lparr>n_pkts_tot := n_pkts_tot pq + 1\<rparr>)) (xss[i := xss ! i @ [p]])"
    using e len by (intro pq_rep_add [OF rep i e(2), where n = 1]) auto
  moreover have "pktq_penq i p L pq = (p, L', raise_hi i ((put_q i q' pq)\<lparr>n_pkts_tot := n_pkts_tot pq + 1\<rparr>))"
    by (simp add: pktq_penq_def e put_q_def)
  ultimately show ?thesis using that e(3) by blast
qed

lemma pktq_pdeq_Nil: "pq_rep L pq xss \<Longrightarrow> i < length xss \<Longrightarrow> xss ! i = [] \<Longrightarrow> pktq_pdeq i L pq = (NULL, L, pq)"
  using pq_rep_q [of L pq xss i] by (simp add: pktq_pdeq_def q_deq_head_Nil)

lemma pktq_pdeq_Cons:
  assumes rep: "pq_rep L pq xss" and i: "i < length xss" and xs: "xss ! i = p # xs"
  obtains pq' where "pktq_pdeq i L pq = (p, L(p := NULL), pq')" "pq_rep (L(p := NULL)) pq' (xss[i := xs])"
proof -
  have "q_rep L (get_q pq i) (p # xs)" using pq_rep_q [OF rep i] xs by simp
  from q_deq_head_Cons [OF this] obtain q' where
    d: "q_deq_head L (get_q pq i) = (p, L(p := NULL), q')" "q_rep (L(p := NULL)) q' xs" by metis
  have "p \<noteq> NULL" using q_rep_not_NULL [OF pq_rep_q [OF rep i]] xs by auto
  then have "pktq_pdeq i L pq = (p, L(p := NULL), (put_q i q' pq)\<lparr>n_pkts_tot := n_pkts_tot pq - 1\<rparr>)"
    by (simp add: pktq_pdeq_def d put_q_def)
  moreover have "pq_rep (L(p := NULL)) ((put_q i q' pq)\<lparr>n_pkts_tot := n_pkts_tot pq - 1\<rparr>) (xss[i := xs])"
    using xs by (intro pq_rep_remove [OF rep i d(2)]) auto
  ultimately show ?thesis using that by blast
qed

interpretation sfifo: fifo_queue sq_rep "\<lambda>_. {}" "\<lambda>_. 0" spktq_enq spktq_deq
proof (unfold_locales, unfold sq_rep_def)
  fix L :: links and q :: pktq_prec and xs p
  assume rep: "q_rep L q xs" and p: "p \<noteq> NULL" "p \<notin> set xs \<union> {}" "L p = NULL" "0 + length xs < 65535"
  then obtain L' q' where "q_enq_tail p L q = (L', q')" "q_rep L' q' (xs @ [p])"
    "\<And>y. y \<notin> set xs \<Longrightarrow> L' y = L y" by (auto elim: q_enq_tail_rep)
  moreover have "L(p := NULL) = L" using p(3) by auto
  ultimately show "\<exists>L' q'. spktq_enq p L q = (p, L', q') \<and> q_rep L' q' (xs @ [p]) \<and> (\<forall>y. y \<notin> set xs \<longrightarrow> L' y = L y)"
    by (simp add: spktq_enq_def PKTSETLINK_def)
qed (auto simp: spktq_deq_def q_deq_head_Nil q_rep_distinct q_rep_not_NULL
      elim: q_deq_head_Cons dest: q_rep_cong [THEN iffD2, rotated])

interpretation pfifo: fifo_queue "prec_rep i" "prec_others i" "prec_load i" "pktq_penq i" "pktq_pdeq i" for i
proof unfold_locales
  fix L pq xss xs assume "prec_rep i L pq xss xs"
  then have i: "i < length xss" and rep: "pq_rep L pq (xss[i := xs])" by (auto simp: prec_rep_def)
  have "q_rep L (get_q pq i) xs" using pq_rep_q [OF rep, of i] i by simp
  moreover have "set xs \<inter> prec_others i xss = {}"
    using pq_rep_sub_disjoint [OF rep, of i xs] i by (simp add: prec_others_def)
  ultimately show "NULL \<notin> set xs \<and> distinct xs \<and> set xs \<inter> prec_others i xss = {}"
    using q_rep_distinct q_rep_not_NULL by blast
next
  fix L pq xss xs and L' :: links
  assume a: "prec_rep i L pq xss xs" and eq: "\<And>y. y \<in> set xs \<union> prec_others i xss \<Longrightarrow> L' y = L y"
  then have i: "i < length xss" and rep: "pq_rep L pq (xss[i := xs])" by (auto simp: prec_rep_def)
  have "pq_rep L' pq (xss[i := xs])"
    using eq unfolding prec_split(2) [OF i, of xs] by (rule pq_rep_frame [OF rep])
  then show "prec_rep i L' pq xss xs" using i by (simp add: prec_rep_def)
next
  fix L pq xss xs p
  assume a: "prec_rep i L pq xss xs" "p \<noteq> NULL" "p \<notin> set xs \<union> prec_others i xss" "L p = NULL"
    "prec_load i xss + length xs < 65535"
  then have i: "i < length (xss[i := xs])" and rep: "pq_rep L pq (xss[i := xs])" by (auto simp: prec_rep_def)
  have "p \<notin> set (concat (xss[i := xs]))" "length (concat (xss[i := xs])) < 65535"
    using a(3,5) i prec_split [of i xss xs] by (simp_all flip: set_concat del: set_concat) blast
  from pktq_penq_rep [OF rep i a(2) this(1) a(4) this(2)] obtain L' pq' where
    "pktq_penq i p L pq = (p, L', pq')" "prec_rep i L' pq' xss (xs @ [p])"
    "\<And>y. y \<notin> set xs \<Longrightarrow> L' y = L y"
    using i by (auto simp: prec_rep_def)
  then show "\<exists>L' q'. pktq_penq i p L pq = (p, L', q') \<and> prec_rep i L' q' xss (xs @ [p]) \<and> (\<forall>y. y \<notin> set xs \<longrightarrow> L' y = L y)"
    by blast
next
  fix L pq xss assume "prec_rep i L pq xss []"
  then show "pktq_pdeq i L pq = (NULL, L, pq)" by (auto simp: prec_rep_def intro: pktq_pdeq_Nil)
next
  fix L pq xss p xs assume a: "prec_rep i L pq xss (p # xs)"
  then have "pq_rep L pq (xss[i := p # xs])" "i < length (xss[i := p # xs])" "xss[i := p # xs] ! i = p # xs"
    by (auto simp: prec_rep_def)
  from pktq_pdeq_Cons [OF this] obtain pq' where
    "pktq_pdeq i L pq = (p, L(p := NULL), pq')" "pq_rep (L(p := NULL)) pq' (xss[i := xs])" by auto
  then show "\<exists>q'. pktq_pdeq i L pq = (p, L(p := NULL), q') \<and> prec_rep i (L(p := NULL)) q' xss xs"
    using a by (simp add: prec_rep_def)
qed

interpretation sdrain: drained_queue sq_rep "\<lambda>_. {}" "\<lambda>_. 0" spktq_enq spktq_deq
    "spktq_flush_ext cb free" "\<lambda>p c. free p (case cb of None \<Rightarrow> c | Some f \<Rightarrow> f p c)" for cb free
  by unfold_locales (rule spktq_flush_ext.simps)

interpretation pdrain: drained_queue "prec_rep i" "prec_others i" "prec_load i" "pktq_penq i" "pktq_pdeq i"
    "pktq_pflush free i" free for i free
  by unfold_locales (rule pktq_pflush.simps)

end
