(* ===== verification/Pktq_Spec.thy ===== *)
theory Pktq_Spec
  imports Pktq_Fifo
begin

text \<open>
  The abstract machine a \<open>struct pktq\<close> implements: a list of packet lists, one per precedence.
  \<open>top_prec\<close>, \<open>low_prec\<close> and \<open>mtop_prec\<close> name the precedence an operation acts on. Every operation
  of \<open>Pktq\<close> is related to the list operation it implements, the scans over the precedences first.
\<close>

section \<open>Which precedence an operation serves\<close>

definition top_prec :: "ptr list list \<Rightarrow> nat option" where
  "top_prec xss = find (\<lambda>i. xss ! i \<noteq> []) (rev [0..<length xss])"

definition low_prec :: "ptr list list \<Rightarrow> nat option" where
  "low_prec xss = find (\<lambda>i. xss ! i \<noteq> []) [0..<length xss]"

definition mtop_prec :: "u32 \<Rightarrow> ptr list list \<Rightarrow> nat option" where
  "mtop_prec bmp xss = find (\<lambda>i. bmp_set bmp i \<and> xss ! i \<noteq> []) (rev [0..<length xss])"

lemma find_rev_upt:
  "find P (rev [0..<n]) = Some i \<longleftrightarrow> i < n \<and> P i \<and> (\<forall>j<n. i < j \<longrightarrow> \<not> P j)"
proof (induction n)
  case (Suc n)
  then show ?case by (cases "P n") (auto simp: less_Suc_eq)
qed simp

lemma find_rev_upt_None: "find P (rev [0..<n]) = None \<longleftrightarrow> (\<forall>i<n. \<not> P i)"
  by (auto simp: find_None_iff)

lemma find_upt:
  "find P [0..<n] = Some i \<longleftrightarrow> i < n \<and> P i \<and> (\<forall>j<i. \<not> P j)"
  by (auto simp: find_Some_iff)

lemma top_prec_Some:
  "top_prec xss = Some i \<longleftrightarrow> i < length xss \<and> xss ! i \<noteq> [] \<and> (\<forall>j<length xss. i < j \<longrightarrow> xss ! j = [])"
  by (simp add: top_prec_def find_rev_upt)

lemma mtop_prec_Some:
  "mtop_prec bmp xss = Some i \<longleftrightarrow> i < length xss \<and> bmp_set bmp i \<and> xss ! i \<noteq> [] \<and>
     (\<forall>j<length xss. i < j \<longrightarrow> bmp_set bmp j \<longrightarrow> xss ! j = [])"
  by (auto simp: mtop_prec_def find_rev_upt)

lemma low_prec_Some:
  "low_prec xss = Some i \<longleftrightarrow> i < length xss \<and> xss ! i \<noteq> [] \<and> (\<forall>j<i. xss ! j = [])"
  by (simp add: low_prec_def find_upt)

lemma concat_Nil_nth: "concat xss = [] \<longleftrightarrow> (\<forall>i<length xss. xss ! i = [])"
  by (auto simp: concat_eq_Nil_conv in_set_conv_nth all_set_conv_all_nth)

section \<open>The scans\<close>

lemma hi_scan_spec:
  "hi_scan qs n \<le> n \<and> (\<forall>j\<le>n. hi_scan qs n < j \<longrightarrow> head (qs ! j) = NULL) \<and>
     (hi_scan qs n = 0 \<or> head (qs ! hi_scan qs n) \<noteq> NULL)"
  by (induction n) (auto simp: le_Suc_eq)

lemma mscan_find:
  "mscan qs bmp n = find (\<lambda>i. bmp_set bmp i \<and> head (qs ! i) \<noteq> NULL) (rev [0..<Suc n])"
  by (induction n) auto

lemma low_scan_spec:
  "prec \<le> hi \<Longrightarrow> prec \<le> low_scan qs hi prec \<and> low_scan qs hi prec \<le> hi \<and>
     (\<forall>j. prec \<le> j \<longrightarrow> j < low_scan qs hi prec \<longrightarrow> head (qs ! j) = NULL) \<and>
     (low_scan qs hi prec = hi \<or> head (qs ! low_scan qs hi prec) \<noteq> NULL)"
proof (induction qs hi prec rule: low_scan.induct)
  case (1 qs hi prec)
  show ?case
  proof (cases "prec < hi \<and> head (qs ! prec) = NULL")
    case True
    have eq: "low_scan qs hi prec = low_scan qs hi (Suc prec)"
      using True low_scan.simps [of qs hi prec] by simp
    have "head (qs ! j) = NULL" if "prec \<le> j" "j < low_scan qs hi (Suc prec)" for j
      using 1 True that by (cases "j = prec") auto
    then show ?thesis unfolding eq using 1 True by auto
  next
    case False
    then have "low_scan qs hi prec = prec" using low_scan.simps [of qs hi prec] by auto
    then show ?thesis using "1.prems" False by auto
  qed
qed

lemma pq_head_NULL:
  "pq_rep L pq xss \<Longrightarrow> i < length xss \<Longrightarrow> head (prec_q pq ! i) = NULL \<longleftrightarrow> xss ! i = []"
  using q_rep_head_NULL [OF pq_rep_q] by (simp add: get_q_def)

lemma hi_scan_top:
  assumes rep: "pq_rep L pq xss" and ne: "concat xss \<noteq> []"
  shows "top_prec xss = Some (hi_scan (prec_q pq) (unat (hi_prec pq)))" (is "_ = Some ?i")
proof -
  let ?h = "unat (hi_prec pq)"
  have h: "?h < length xss" "\<And>j. j < length xss \<Longrightarrow> ?h < j \<Longrightarrow> xss ! j = []"
    using rep by (auto simp: pq_rep_def)
  have s: "?i \<le> ?h" "\<And>j. j \<le> ?h \<Longrightarrow> ?i < j \<Longrightarrow> head (prec_q pq ! j) = NULL"
    "?i = 0 \<or> head (prec_q pq ! ?i) \<noteq> NULL"
    using hi_scan_spec [of "prec_q pq" ?h] by auto
  have above: "xss ! j = []" if "j < length xss" "?i < j" for j
    using that s(2) h pq_head_NULL [OF rep, of j] by (cases "j \<le> ?h") auto
  have "xss ! ?i \<noteq> []"
  proof
    assume e: "xss ! ?i = []"
    then have "?i = 0" using s h pq_head_NULL [OF rep, of ?i] by auto
    then have "xss ! j = []" if "j < length xss" for j
      using that above [of j] e by (cases "j = 0") auto
    then show False using ne by (simp only: concat_Nil_nth) blast
  qed
  then show ?thesis unfolding top_prec_Some using above s(1) h(1) by (meson le_less_trans)
qed

lemma low_scan_low:
  assumes rep: "pq_rep L pq xss" and ne: "concat xss \<noteq> []"
  shows "low_prec xss = Some (low_scan (prec_q pq) (unat (hi_prec pq)) 0)" (is "_ = Some ?i")
proof -
  let ?h = "unat (hi_prec pq)"
  have h: "?h < length xss" "\<And>j. j < length xss \<Longrightarrow> ?h < j \<Longrightarrow> xss ! j = []"
    using rep by (auto simp: pq_rep_def)
  have s: "?i \<le> ?h" "\<And>j. j < ?i \<Longrightarrow> head (prec_q pq ! j) = NULL"
    "?i = ?h \<or> head (prec_q pq ! ?i) \<noteq> NULL"
    using low_scan_spec [of 0 ?h "prec_q pq"] by auto
  have below: "xss ! j = []" if "j < ?i" for j
    using that s h pq_head_NULL [OF rep, of j] by auto
  have "xss ! ?i \<noteq> []"
  proof
    assume e: "xss ! ?i = []"
    then have "?i = ?h" using s h pq_head_NULL [OF rep, of ?i] by auto
    then have "xss ! j = []" if "j < length xss" for j
      using that below [of j] e h(2) [of j] by (cases "j < ?h"; cases "j = ?h") auto
    then show False using ne by (simp only: concat_Nil_nth) blast
  qed
  then show ?thesis unfolding low_prec_Some using below s(1) h(1) by (meson le_less_trans)
qed

lemma mscan_mtop:
  assumes rep: "pq_rep L pq xss" and top: "top_prec xss = Some n"
  shows "mscan (prec_q pq) bmp n = mtop_prec bmp xss"
proof -
  have n: "n < length xss" "\<And>j. j < length xss \<Longrightarrow> n < j \<Longrightarrow> xss ! j = []"
    using top by (auto simp: top_prec_Some)
  have "mscan (prec_q pq) bmp n = Some i \<longleftrightarrow> mtop_prec bmp xss = Some i" for i
    unfolding mscan_find find_rev_upt mtop_prec_Some
    using n pq_head_NULL [OF rep] by (metis (no_types, lifting) less_Suc_eq_le le_less_trans not_le)
  then show ?thesis by (metis option.exhaust)
qed

lemma pq_rep_lower:
  assumes rep: "pq_rep L pq xss" and top: "top_prec xss = Some n"
  shows "pq_rep L (pq\<lparr>hi_prec := of_nat n\<rparr>) xss"
proof -
  have n: "n < length xss" "length xss \<le> 16" "\<And>j. j < length xss \<Longrightarrow> n < j \<Longrightarrow> xss ! j = []"
    using top rep by (auto simp: top_prec_Some pq_rep_def PKTQ_MAX_PREC_def)
  then have "unat (of_nat n :: u16) = n" by (intro unat_of_nat_u16) simp
  then show ?thesis using rep n by (simp add: pq_rep_def get_q_def)
qed

end
