(* ===== verification/Pktq_Ops.thy ===== *)
theory Pktq_Ops
  imports Pktq_Spec
begin

text \<open>
  Every operation of a \<open>struct pktq\<close> against the lists it represents. Operations that take the
  packet of a chosen precedence are reduced to the operation on that precedence, which the code
  repeats in line.
\<close>

section \<open>Operations on one precedence\<close>

lemma pktq_penq_head_rep:
  assumes rep: "pq_rep L pq xss" and i: "i < length xss"
    and p: "p \<noteq> NULL" "p \<notin> set (concat xss)" and len: "length (concat xss) < 65535"
  obtains L' pq' where "pktq_penq_head i p L pq = (p, L', pq')" "pq_rep L' pq' (xss[i := p # xss ! i])"
    "\<And>y. y \<noteq> p \<Longrightarrow> L' y = L y"
proof -
  have "p \<notin> set (xss ! i)" "length (xss ! i) < 65535"
    using p nth_concat_subset [OF i] length_concat_le [OF i] len by auto
  with q_enq_head_rep [OF pq_rep_q [OF rep i] p(1)] obtain L' q' where
    e: "q_enq_head p L (get_q pq i) = (L', q')" "q_rep L' q' (p # xss ! i)"
      "\<And>y. y \<noteq> p \<Longrightarrow> L' y = L y" by metis
  have "set (p # xss ! i) \<inter> set (concat (xss[i := []])) = {}"
    using pq_rep_sub_disjoint [OF rep i order_refl] p set_concat_update [of xss i "[]"] by auto
  then have "pq_rep L' (raise_hi i ((put_q i q' pq)\<lparr>n_pkts_tot := n_pkts_tot pq + 1\<rparr>)) (xss[i := p # xss ! i])"
    using e len by (intro pq_rep_add [OF rep i e(2), where n = 1]) auto
  moreover have "pktq_penq_head i p L pq = (p, L', raise_hi i ((put_q i q' pq)\<lparr>n_pkts_tot := n_pkts_tot pq + 1\<rparr>))"
    by (simp add: pktq_penq_head_def e put_q_def)
  ultimately show ?thesis using that e(3) by blast
qed

lemma pktq_pdeq_tail_Nil:
  "pq_rep L pq xss \<Longrightarrow> i < length xss \<Longrightarrow> xss ! i = [] \<Longrightarrow> pktq_pdeq_tail i L pq = Some (NULL, L, pq)"
  using pq_rep_q [of L pq xss i] by (simp add: pktq_pdeq_tail_def q_rep_head_NULL)

lemma pktq_pdeq_tail_snoc:
  assumes rep: "pq_rep L pq xss" and i: "i < length xss" and xs: "xss ! i = xs @ [p]"
  obtains L' pq' where "pktq_pdeq_tail i L pq = Some (p, L', pq')" "pq_rep L' pq' (xss[i := xs])"
    "L' p = NULL" "\<And>y. y \<notin> set (xss ! i) \<Longrightarrow> L' y = L y"
proof -
  have q: "q_rep L (get_q pq i) (xs @ [p])" using pq_rep_q [OF rep i] xs by simp
  from q_deq_tail_snoc [OF q] obtain L' q' where
    d: "q_deq_tail L (get_q pq i) = Some (p, L', q')" "q_rep L' q' xs" "L' p = NULL"
      "\<And>y. y \<notin> set xs \<Longrightarrow> L' y = L y" by metis
  have "head (get_q pq i) \<noteq> NULL" using q_rep_head_NULL [OF q] by simp
  then have "pktq_pdeq_tail i L pq = Some (p, L', (put_q i q' pq)\<lparr>n_pkts_tot := n_pkts_tot pq - 1\<rparr>)"
    by (simp add: pktq_pdeq_tail_def d put_q_def Let_def)
  moreover have "pq_rep L' ((put_q i q' pq)\<lparr>n_pkts_tot := n_pkts_tot pq - 1\<rparr>) (xss[i := xs])"
    using xs d(4) by (intro pq_rep_remove [OF rep i d(2)]) auto
  ultimately show ?thesis using that d(3,4) xs by auto
qed

text \<open>Taking a packet out of the middle, as \<open>pktq_pdel\<close> and \<open>pktq_pdeq_with_fn\<close> do.\<close>

definition unlink_after :: "nat \<Rightarrow> ptr \<Rightarrow> ptr \<Rightarrow> links \<Rightarrow> pktq \<Rightarrow> links \<times> pktq" where
  "unlink_after i y x L pq =
     (L(y := L x, x := NULL),
      (put_q i ((get_q pq i)\<lparr>tail := (if tail (get_q pq i) = x then y else tail (get_q pq i)),
                             n_pkts := n_pkts (get_q pq i) - 1\<rparr>) pq)\<lparr>n_pkts_tot := n_pkts_tot pq - 1\<rparr>)"

lemma unlink_after_rep:
  assumes rep: "pq_rep L pq xss" and i: "i < length xss" and xs: "xss ! i = ys @ y # x # zs"
    and u: "unlink_after i y x L pq = (L', pq')"
  shows "pq_rep L' pq' (xss[i := ys @ y # zs])" and "L' x = NULL"
    and "\<And>v. v \<notin> set (xss ! i) \<Longrightarrow> L' v = L v"
proof -
  have "q_rep L (get_q pq i) (ys @ y # x # zs)" using pq_rep_q [OF rep i] xs by simp
  from q_unlink_rep [OF this] show "pq_rep L' pq' (xss[i := ys @ y # zs])"
    using u xs unfolding unlink_after_def prod.inject
    by (elim conjE, hypsubst) (rule pq_rep_remove [OF rep i], auto)
  show "L' x = NULL" using u by (auto simp: unlink_after_def)
  show "L' v = L v" if "v \<notin> set (xss ! i)" for v using u xs that by (auto simp: unlink_after_def)
qed

lemma pktq_pdel_head:
  assumes rep: "pq_rep L pq xss" and i: "i < length xss" and xs: "xss ! i = p # xs"
    and d: "pktq_pdeq i L pq = (p, L', pq')"
  shows "pktq_pdel p i L pq = Some (True, L', pq')"
proof -
  have "head (get_q pq i) = p" "p \<noteq> NULL"
    using pq_rep_q [OF rep i] xs by (auto simp: q_rep_def)
  then show ?thesis using d
    by (auto simp: pktq_pdel_def pktq_pdeq_def q_deq_head_def Let_def put_q_def PKTLINK_def PKTSETLINK_def)
qed

lemma pktq_pdel_mid:
  assumes rep: "pq_rep L pq xss" and i: "i < length xss" and xs: "xss ! i = ys @ y # x # zs"
    and u: "unlink_after i y x L pq = (L', pq')"
  shows "pktq_pdel x i L pq = Some (True, L', pq')"
proof -
  have q: "q_rep L (get_q pq i) (ys @ y # x # zs)" using pq_rep_q [OF rep i] xs by simp
  have d: "x \<noteq> NULL" "y \<noteq> NULL" "x \<notin> set ys" "x \<noteq> y"
    using q_rep_distinct [OF q] q_rep_not_NULL [OF q] by auto
  have h: "head (get_q pq i) \<noteq> x" using q_rep_head [OF q] d by (cases ys) auto
  have "find_prev L x (head (get_q pq i)) = Some y"
    using q d by (intro find_prev_found) (auto simp: q_rep_def)
  then show ?thesis using u d h
    by (auto simp: pktq_pdel_def unlink_after_def put_q_def PKTLINK_def PKTSETLINK_def Let_def)
qed

lemma pktq_pdel_absent:
  assumes rep: "pq_rep L pq xss" and i: "i < length xss" and x: "x \<notin> set (xss ! i)"
  shows "pktq_pdel x i L pq = Some (False, L, pq)"
proof (cases "x = NULL")
  case False
  have q: "seg L (head (get_q pq i)) (xss ! i) NULL" using pq_rep_q [OF rep i] by (simp add: q_rep_def)
  have "head (get_q pq i) \<noteq> x" using seg_head [OF q] x False by (auto split: if_splits)
  moreover have "find_prev L x (head (get_q pq i)) = Some NULL"
    using q x False by (rule find_prev_none)
  ultimately show ?thesis using False by (simp add: pktq_pdel_def Let_def)
qed (simp add: pktq_pdel_def)

lemma pktq_pdeq_with_fn_head:
  assumes rep: "pq_rep L pq xss" and i: "i < length xss" and xs: "xss ! i = p # xs" and f: "f p"
    and d: "pktq_pdeq i L pq = (p, L', pq')"
  shows "pktq_pdeq_with_fn i (Some f) L pq = Some (p, L', pq')"
proof -
  have q: "head (get_q pq i) = p" "p \<noteq> NULL"
    using pq_rep_q [OF rep i] xs by (auto simp: q_rep_def)
  have "find_fn L (Some f) NULL p = Some (NULL, p)" using f by (simp add: find_fn.simps)
  then show ?thesis using d q
    by (auto simp: pktq_pdeq_with_fn_def pktq_pdeq_def q_deq_head_def Let_def put_q_def PKTLINK_def PKTSETLINK_def)
qed

lemma pktq_pdeq_with_fn_mid:
  assumes rep: "pq_rep L pq xss" and i: "i < length xss" and xs: "xss ! i = ys @ y # x # zs"
    and f: "\<forall>v\<in>set (ys @ [y]). \<not> f v" "f x" and u: "unlink_after i y x L pq = (L', pq')"
  shows "pktq_pdeq_with_fn i (Some f) L pq = Some (x, L', pq')"
proof -
  have q: "q_rep L (get_q pq i) (ys @ y # x # zs)" using pq_rep_q [OF rep i] xs by simp
  have d: "x \<noteq> NULL" "y \<noteq> NULL" using q_rep_not_NULL [OF q] by auto
  have "find_fn L (Some f) NULL (head (get_q pq i)) = Some (y, x)"
    using find_fn_found [of L "head (get_q pq i)" "ys @ [y]" x zs NULL f NULL] q f by (simp add: q_rep_def)
  then show ?thesis using u d
    by (auto simp: pktq_pdeq_with_fn_def unlink_after_def put_q_def PKTLINK_def PKTSETLINK_def Let_def)
qed

lemma pktq_pdeq_with_fn_none:
  assumes rep: "pq_rep L pq xss" and i: "i < length xss" and f: "\<forall>v\<in>set (xss ! i). \<not> f v"
  shows "pktq_pdeq_with_fn i (Some f) L pq = Some (NULL, L, pq)"
proof -
  have "seg L (head (get_q pq i)) (xss ! i) NULL" using pq_rep_q [OF rep i] by (simp add: q_rep_def)
  from find_fn_none [OF this f] obtain prev' where
    "find_fn L (Some f) NULL (head (get_q pq i)) = Some (prev', NULL)" by blast
  then show ?thesis by (simp add: pktq_pdeq_with_fn_def Let_def)
qed

section \<open>Operations by priority\<close>

lemma pktq_deq_empty: "pq_rep L pq xss \<Longrightarrow> concat xss = [] \<Longrightarrow> pktq_deq L pq = (NULL, None, L, pq)"
  by (simp add: pktq_deq_def pq_rep_tot_0)

lemma top_prec_None: "top_prec xss = None \<longleftrightarrow> concat xss = []"
  by (simp only: concat_Nil_nth top_prec_def find_rev_upt_None not_not)

lemma low_prec_None: "low_prec xss = None \<longleftrightarrow> concat xss = []"
  by (simp only: concat_Nil_nth low_prec_def find_None_iff set_upt) auto

lemma pktq_deq_pdeq:
  assumes rep: "pq_rep L pq xss" and top: "top_prec xss = Some i"
    and d: "pktq_pdeq i L (pq\<lparr>hi_prec := of_nat i\<rparr>) = (p, L', pq')" and p: "p \<noteq> NULL"
  shows "pktq_deq L pq = (p, Some i, L', pq')"
proof -
  have ne: "concat xss \<noteq> []" using top top_prec_None [of xss] by auto
  have "hi_scan (prec_q pq) (unat (hi_prec pq)) = i" using hi_scan_top [OF rep ne] top by simp
  moreover have "n_pkts_tot pq \<noteq> 0" using pq_rep_tot_0 [OF rep] ne by simp
  ultimately show ?thesis using d p
    by (auto simp: pktq_deq_def pktq_pdeq_def Let_def put_q_def split: prod.splits if_splits)
qed

lemma pktq_deq_tail_pdeq_tail:
  assumes rep: "pq_rep L pq xss" and low: "low_prec xss = Some i"
    and d: "pktq_pdeq_tail i L pq = Some (p, L', pq')" and p: "L' p = NULL"
  shows "pktq_deq_tail L pq = Some (p, Some i, L', pq')"
proof -
  have ne: "concat xss \<noteq> []" using low low_prec_None [of xss] by auto
  have i: "i < length xss" "xss ! i \<noteq> []" using low by (auto simp: low_prec_Some)
  have "low_scan (prec_q pq) (unat (hi_prec pq)) 0 = i" using low_scan_low [OF rep ne] low by simp
  moreover have "n_pkts_tot pq \<noteq> 0" using pq_rep_tot_0 [OF rep] ne by simp
  moreover have "head (get_q pq i) \<noteq> NULL" using q_rep_head_NULL [OF pq_rep_q [OF rep i(1)]] i(2) by simp
  moreover have "L'(p := NULL) = L'" using p by auto
  ultimately show ?thesis using d
    by (auto simp: pktq_deq_tail_def pktq_pdeq_tail_def Let_def put_q_def PKTSETLINK_def split: option.splits prod.splits)
qed

lemma mtop_le_top: "top_prec xss = Some n \<Longrightarrow> mtop_prec bmp xss = Some i \<Longrightarrow> i \<le> n"
  by (auto simp: top_prec_Some mtop_prec_Some not_le)

lemma pktq_mdeq_none:
  assumes rep: "pq_rep L pq xss" and m: "mtop_prec bmp xss = None"
  shows "\<exists>pq'. pktq_mdeq bmp L pq = (NULL, None, L, pq') \<and> pq_rep L pq' xss"
proof (cases "top_prec xss")
  case None
  then show ?thesis using rep by (simp add: pktq_mdeq_def pq_rep_tot_0 top_prec_None)
next
  case (Some n)
  then have ne: "concat xss \<noteq> []" using top_prec_None [of xss] by auto
  have "hi_scan (prec_q pq) (unat (hi_prec pq)) = n" using hi_scan_top [OF rep ne] Some by simp
  moreover have "n_pkts_tot pq \<noteq> 0" using pq_rep_tot_0 [OF rep] ne by simp
  ultimately show ?thesis using pq_rep_lower [OF rep Some] mscan_mtop [OF rep Some, of bmp] m
    by (simp add: pktq_mdeq_def Let_def)
qed

lemma pktq_mdeq_pdeq:
  assumes rep: "pq_rep L pq xss" and m: "mtop_prec bmp xss = Some i" and top: "top_prec xss = Some n"
    and d: "pktq_pdeq i L (pq\<lparr>hi_prec := of_nat n\<rparr>) = (p, L', pq')" and p: "p \<noteq> NULL"
    and rep': "pq_rep L' pq' (xss[i := ys])"
  shows "pktq_mdeq bmp L pq = (p, Some i, L', pq')"
proof -
  have ne: "concat xss \<noteq> []" using top top_prec_None [of xss] by auto
  have i: "i < length xss" using m by (simp add: mtop_prec_Some)
  have scan: "hi_scan (prec_q pq) (unat (hi_prec pq)) = n" using hi_scan_top [OF rep ne] top by simp
  have tot: "n_pkts_tot pq \<noteq> 0" using pq_rep_tot_0 [OF rep] ne by simp
  obtain q' where q': "q_deq_head L (get_q pq i) = (p, L', q')"
      and pq': "pq' = (put_q i q' (pq\<lparr>hi_prec := of_nat n\<rparr>))\<lparr>n_pkts_tot := n_pkts_tot pq - 1\<rparr>"
    using d p by (auto simp: pktq_pdeq_def get_q_def put_q_def Let_def split: prod.splits if_splits)
  have "get_q pq' i = q'"
    using pq' i pq_rep_len [OF rep] by (simp add: get_q_def put_q_def)
  then have "q_rep L' q' ys" using pq_rep_q [OF rep', of i] i by simp
  then have "n_pkts q' = 0 \<Longrightarrow> q'\<lparr>head := NULL, tail := NULL\<rparr> = q'"
    using q_rep_n_pkts_0 [of L' q' ys] by (cases q') (auto simp: q_rep_def)
  then show ?thesis using scan tot mscan_mtop [OF rep top, of bmp] m q' p pq'
    by (auto simp: pktq_mdeq_def Let_def get_q_def put_q_def)
qed

end
