(* ===== verification/Pktq_Machine.thy ===== *)
theory Pktq_Machine
  imports Pktq_Ops
begin

text \<open>
  A \<open>struct pktq\<close> as a machine: the operations a client may issue in any order, executed on the
  links and the queue, against the same operations on a list of packet lists. The interpretation
  \<open>psim\<close> discharges the simulation for every operation, so every run of operations from
  \<open>pktq_init\<close> returns the packets the abstract machine returns.
\<close>

section \<open>Operations and their execution\<close>

datatype pktq_op =
    Penq nat ptr | PenqHead nat ptr | Pdeq nat | PdeqTail nat | PdeqWithFn nat "ptr \<Rightarrow> bool"
  | Pdel ptr nat | Deq | DeqTail | Mdeq u32

datatype pktq_res = Pkt ptr | PktPrec ptr "nat option" | Deleted bool

fun pktq_exec :: "pktq_op \<Rightarrow> links \<times> pktq \<Rightarrow> (pktq_res \<times> links \<times> pktq) option" where
  "pktq_exec (Penq i p) (L, pq) = (case pktq_penq i p L pq of (r, s) \<Rightarrow> Some (Pkt r, s))"
| "pktq_exec (PenqHead i p) (L, pq) = (case pktq_penq_head i p L pq of (r, s) \<Rightarrow> Some (Pkt r, s))"
| "pktq_exec (Pdeq i) (L, pq) = (case pktq_pdeq i L pq of (r, s) \<Rightarrow> Some (Pkt r, s))"
| "pktq_exec (PdeqTail i) (L, pq) = map_option (\<lambda>(r, s). (Pkt r, s)) (pktq_pdeq_tail i L pq)"
| "pktq_exec (PdeqWithFn i f) (L, pq) =
     map_option (\<lambda>(r, s). (Pkt r, s)) (pktq_pdeq_with_fn i (Some f) L pq)"
| "pktq_exec (Pdel p i) (L, pq) = map_option (\<lambda>(r, s). (Deleted r, s)) (pktq_pdel p i L pq)"
| "pktq_exec Deq (L, pq) = (case pktq_deq L pq of (r, i, s) \<Rightarrow> Some (PktPrec r i, s))"
| "pktq_exec DeqTail (L, pq) = map_option (\<lambda>(r, i, s). (PktPrec r i, s)) (pktq_deq_tail L pq)"
| "pktq_exec (Mdeq bmp) (L, pq) = (case pktq_mdeq bmp L pq of (r, i, s) \<Rightarrow> Some (PktPrec r i, s))"

text \<open>The abstract machine; \<open>None\<close> is a call outside the contract: a precedence the queue does not
  have, a packet that is \<open>NULL\<close> or already queued, or a full 16 bit counter.\<close>

definition fresh_pkt :: "nat \<Rightarrow> ptr \<Rightarrow> ptr list list \<Rightarrow> bool" where
  "fresh_pkt i p xss \<longleftrightarrow>
     i < length xss \<and> p \<noteq> NULL \<and> p \<notin> set (concat xss) \<and> length (concat xss) < 65535"

fun pktq_spec :: "pktq_op \<Rightarrow> ptr list list \<Rightarrow> (pktq_res \<times> ptr list list) option" where
  "pktq_spec (Penq i p) xss =
     (if fresh_pkt i p xss then Some (Pkt p, xss[i := xss ! i @ [p]]) else None)"
| "pktq_spec (PenqHead i p) xss =
     (if fresh_pkt i p xss then Some (Pkt p, xss[i := p # xss ! i]) else None)"
| "pktq_spec (Pdeq i) xss =
     (if i < length xss then
        Some (if xss ! i = [] then (Pkt NULL, xss) else (Pkt (hd (xss ! i)), xss[i := tl (xss ! i)]))
      else None)"
| "pktq_spec (PdeqTail i) xss =
     (if i < length xss then
        Some (if xss ! i = [] then (Pkt NULL, xss) else (Pkt (last (xss ! i)), xss[i := butlast (xss ! i)]))
      else None)"
| "pktq_spec (PdeqWithFn i f) xss =
     (if i < length xss then
        Some (case find f (xss ! i) of
                None \<Rightarrow> (Pkt NULL, xss)
              | Some p \<Rightarrow> (Pkt p, xss[i := remove1 p (xss ! i)]))
      else None)"
| "pktq_spec (Pdel p i) xss =
     (if i < length xss then Some (Deleted (p \<in> set (xss ! i)), xss[i := remove1 p (xss ! i)])
      else None)"
| "pktq_spec Deq xss =
     Some (case top_prec xss of
             None \<Rightarrow> (PktPrec NULL None, xss)
           | Some i \<Rightarrow> (PktPrec (hd (xss ! i)) (Some i), xss[i := tl (xss ! i)]))"
| "pktq_spec DeqTail xss =
     Some (case low_prec xss of
             None \<Rightarrow> (PktPrec NULL None, xss)
           | Some i \<Rightarrow> (PktPrec (last (xss ! i)) (Some i), xss[i := butlast (xss ! i)]))"
| "pktq_spec (Mdeq bmp) xss =
     Some (case mtop_prec bmp xss of
             None \<Rightarrow> (PktPrec NULL None, xss)
           | Some i \<Rightarrow> (PktPrec (hd (xss ! i)) (Some i), xss[i := tl (xss ! i)]))"

section \<open>The simulation\<close>

text \<open>A packet in no queue has a \<open>NULL\<close> link: what \<open>pktq_penq\<close> asserts of its argument and every
  removal re-establishes.\<close>

fun pktq_rel :: "links \<times> pktq \<Rightarrow> ptr list list \<Rightarrow> bool" where
  "pktq_rel (L, pq) xss \<longleftrightarrow> pq_rep L pq xss \<and> (\<forall>y. y \<notin> set (concat xss) \<longrightarrow> L y = NULL)"

lemma set_concat_upd:
  "i < length (xss :: ptr list list) \<Longrightarrow> set (concat (xss[i := ys])) = set ys \<union> set (concat (xss[i := []]))"
  using prec_split(2) [of i xss ys] by (simp add: prec_others_def)

lemma pktq_rel_add:
  assumes "pktq_rel (L, pq) xss" and i: "i < length xss" and "pq_rep L' pq' (xss[i := ys])"
    and "set (xss ! i) \<subseteq> set ys" and fr: "\<And>y. y \<notin> set ys \<Longrightarrow> L' y = L y"
  shows "pktq_rel (L', pq') (xss[i := ys])"
proof -
  have "L' y = NULL" if "y \<notin> set (concat (xss[i := ys]))" for y
  proof -
    have "y \<notin> set ys" "y \<notin> set (concat xss)"
      using that assms(4) set_concat_upd [OF i, of ys] set_concat_upd [OF i, of "xss ! i"] by auto
    then show ?thesis using assms(1) fr by simp
  qed
  then show ?thesis using assms(3) by simp
qed

lemma pktq_rel_remove:
  assumes "pktq_rel (L, pq) xss" and i: "i < length xss" and "pq_rep L' pq' (xss[i := ys])"
    and "set (xss ! i) = insert p (set ys)" and "L' p = NULL"
    and fr: "\<And>y. y \<notin> set (xss ! i) \<Longrightarrow> L' y = L y"
  shows "pktq_rel (L', pq') (xss[i := ys])"
proof -
  have "L' y = NULL" if y: "y \<notin> set (concat (xss[i := ys]))" for y
  proof (cases "y = p")
    case False
    then have "y \<notin> set (xss ! i)" "y \<notin> set (concat xss)"
      using y assms(4) set_concat_upd [OF i, of ys] set_concat_upd [OF i, of "xss ! i"] by auto
    then show ?thesis using assms(1) fr by simp
  qed (simp add: assms(5))
  then show ?thesis using assms(3) by simp
qed

lemma pktq_rel_pdeq:
  assumes rel: "pktq_rel (L, pq) xss" and i: "i < length xss" and xs: "xss ! i \<noteq> []"
  shows "\<exists>L' pq'. pktq_pdeq i L pq = (hd (xss ! i), L', pq') \<and> hd (xss ! i) \<noteq> NULL \<and>
    pktq_rel (L', pq') (xss[i := tl (xss ! i)])"
proof -
  obtain p ys where ps: "xss ! i = p # ys" using xs by (cases "xss ! i") auto
  have rep: "pq_rep L pq xss" using rel by simp
  from pktq_pdeq_Cons [OF rep i ps] obtain pq' where
    d: "pktq_pdeq i L pq = (p, L(p := NULL), pq')" "pq_rep (L(p := NULL)) pq' (xss[i := ys])" .
  have "pktq_rel (L(p := NULL), pq') (xss[i := ys])"
    using ps by (intro pktq_rel_remove [OF rel i d(2)]) auto
  then show ?thesis using d(1) ps q_rep_not_NULL [OF pq_rep_q [OF rep i]] by auto
qed

lemma pktq_rel_pdeq_tail:
  assumes rel: "pktq_rel (L, pq) xss" and i: "i < length xss" and xs: "xss ! i \<noteq> []"
  shows "\<exists>L' pq'. pktq_pdeq_tail i L pq = Some (last (xss ! i), L', pq') \<and> L' (last (xss ! i)) = NULL \<and>
    pktq_rel (L', pq') (xss[i := butlast (xss ! i)])"
proof -
  obtain p ys where ps: "xss ! i = ys @ [p]" using xs by (metis append_butlast_last_id)
  have rep: "pq_rep L pq xss" using rel by simp
  from pktq_pdeq_tail_snoc [OF rep i ps] obtain L' pq' where
    d: "pktq_pdeq_tail i L pq = Some (p, L', pq')" "pq_rep L' pq' (xss[i := ys])" "L' p = NULL"
      "\<And>y. y \<notin> set (xss ! i) \<Longrightarrow> L' y = L y" by metis
  have "pktq_rel (L', pq') (xss[i := ys])"
    using ps d by (intro pktq_rel_remove [OF rel i d(2)]) auto
  then show ?thesis using d(1,3) ps by auto
qed

text \<open>Removing a given packet, head or not, by either of the two routines.\<close>

lemma pktq_rel_take:
  assumes rel: "pktq_rel (L, pq) xss" and i: "i < length xss" and xs: "xss ! i = us @ x # zs"
  shows "\<exists>L' pq'. pktq_pdel x i L pq = Some (True, L', pq') \<and>
    (\<forall>f. (\<forall>u\<in>set us. \<not> f u) \<longrightarrow> f x \<longrightarrow> pktq_pdeq_with_fn i (Some f) L pq = Some (x, L', pq')) \<and>
    pktq_rel (L', pq') (xss[i := us @ zs])"
proof (cases us rule: rev_cases)
  case Nil
  have rep: "pq_rep L pq xss" using rel by simp
  from pktq_rel_pdeq [OF rel i] xs Nil obtain L' pq' where
    d: "pktq_pdeq i L pq = (x, L', pq')" "pktq_rel (L', pq') (xss[i := zs])" by auto
  have "xss ! i = x # zs" using xs Nil by simp
  then show ?thesis
    using d pktq_pdel_head [OF rep i _ d(1)] pktq_pdeq_with_fn_head [OF rep i _ _ d(1)] Nil by auto
next
  case (snoc ys y)
  have rep: "pq_rep L pq xss" using rel by simp
  have xs': "xss ! i = ys @ y # x # zs" using xs snoc by simp
  obtain L' pq' where u: "unlink_after i y x L pq = (L', pq')" by fastforce
  note r = unlink_after_rep [OF rep i xs' u]
  have "pktq_rel (L', pq') (xss[i := ys @ y # zs])"
    using xs' r by (intro pktq_rel_remove [OF rel i r(1)]) auto
  then show ?thesis
    using pktq_pdel_mid [OF rep i xs' u] pktq_pdeq_with_fn_mid [OF rep i xs' _ _ u] snoc by auto
qed

lemma remove1_middle: "x \<notin> set us \<Longrightarrow> remove1 x (us @ x # zs) = us @ zs"
  by (simp add: remove1_append)

lemma find_split: "find f xs = Some p \<Longrightarrow> \<exists>us zs. xs = us @ p # zs \<and> (\<forall>u\<in>set us. \<not> f u) \<and> f p"
  by (induction xs) (auto split: if_splits, metis append_Nil empty_iff empty_set, metis Cons_eq_appendI set_ConsD)

text \<open>One lemma per group of operations, then all of them.\<close>

lemma step_penq:
  assumes rel: "pktq_rel (L, pq) xss" and f: "fresh_pkt i p xss"
  shows "\<exists>L' pq'. pktq_penq i p L pq = (p, L', pq') \<and> pktq_rel (L', pq') (xss[i := xss ! i @ [p]])"
proof -
  have rep: "pq_rep L pq xss" and g: "i < length xss" "p \<noteq> NULL" "p \<notin> set (concat xss)" "L p = NULL"
    "length (concat xss) < 65535" using rel f unfolding fresh_pkt_def by auto
  from pktq_penq_rep [OF rep g] obtain L' pq' where
    d: "pktq_penq i p L pq = (p, L', pq')" "pq_rep L' pq' (xss[i := xss ! i @ [p]])"
      "\<And>y. y \<notin> set (xss ! i) \<Longrightarrow> L' y = L y" by metis
  have "pktq_rel (L', pq') (xss[i := xss ! i @ [p]])"
    using d(3) by (intro pktq_rel_add [OF rel g(1) d(2)]) auto
  then show ?thesis using d(1) by blast
qed

lemma step_penq_head:
  assumes rel: "pktq_rel (L, pq) xss" and f: "fresh_pkt i p xss"
  shows "\<exists>L' pq'. pktq_penq_head i p L pq = (p, L', pq') \<and> pktq_rel (L', pq') (xss[i := p # xss ! i])"
proof -
  have rep: "pq_rep L pq xss" and g: "i < length xss" "p \<noteq> NULL" "p \<notin> set (concat xss)"
    "length (concat xss) < 65535" using rel f unfolding fresh_pkt_def by auto
  from pktq_penq_head_rep [OF rep g] obtain L' pq' where
    d: "pktq_penq_head i p L pq = (p, L', pq')" "pq_rep L' pq' (xss[i := p # xss ! i])"
      "\<And>y. y \<noteq> p \<Longrightarrow> L' y = L y" by metis
  have "pktq_rel (L', pq') (xss[i := p # xss ! i])"
    using d(3) by (intro pktq_rel_add [OF rel g(1) d(2)]) auto
  then show ?thesis using d(1) by blast
qed

lemma step_pdel:
  assumes rel: "pktq_rel (L, pq) xss" and i: "i < length xss"
  shows "\<exists>L' pq'. pktq_pdel p i L pq = Some (p \<in> set (xss ! i), L', pq') \<and>
    pktq_rel (L', pq') (xss[i := remove1 p (xss ! i)])"
proof (cases "p \<in> set (xss ! i)")
  case True
  then obtain us zs where xs: "xss ! i = us @ p # zs" "p \<notin> set us" by (meson split_list_first)
  from pktq_rel_take [OF rel i xs(1)] True show ?thesis by (auto simp: xs remove1_middle)
next
  case False
  then show ?thesis using rel pktq_pdel_absent [of L pq xss i p] i by (simp add: remove1_idem)
qed

lemma step_pdeq_with_fn:
  assumes rel: "pktq_rel (L, pq) xss" and i: "i < length xss"
  shows "\<exists>L' pq'. pktq_pdeq_with_fn i (Some f) L pq
      = Some ((case find f (xss ! i) of None \<Rightarrow> NULL | Some p \<Rightarrow> p), L', pq') \<and>
    pktq_rel (L', pq') (case find f (xss ! i) of None \<Rightarrow> xss | Some p \<Rightarrow> xss[i := remove1 p (xss ! i)])"
proof (cases "find f (xss ! i)")
  case None
  then have "\<forall>v\<in>set (xss ! i). \<not> f v" by (auto simp: find_None_iff)
  then show ?thesis using rel pktq_pdeq_with_fn_none [of L pq xss i f] i None by simp
next
  case (Some p)
  from find_split [OF this] obtain us zs where
    xs: "xss ! i = us @ p # zs" and f: "\<forall>u\<in>set us. \<not> f u" "f p" by blast
  then have "p \<notin> set us" by blast
  with pktq_rel_take [OF rel i xs] f Some show ?thesis by (auto simp: xs remove1_middle)
qed

lemma step_deq:
  assumes rel: "pktq_rel (L, pq) xss" and top: "top_prec xss = Some i"
  shows "\<exists>L' pq'. pktq_deq L pq = (hd (xss ! i), Some i, L', pq') \<and>
    pktq_rel (L', pq') (xss[i := tl (xss ! i)])"
proof -
  have rep: "pq_rep L pq xss" and i: "i < length xss" "xss ! i \<noteq> []"
    using rel top by (auto simp: top_prec_Some)
  have "pktq_rel (L, pq\<lparr>hi_prec := of_nat i\<rparr>) xss" using rel pq_rep_lower [OF rep top] by simp
  from pktq_rel_pdeq [OF this i] obtain L' pq' where
    d: "pktq_pdeq i L (pq\<lparr>hi_prec := of_nat i\<rparr>) = (hd (xss ! i), L', pq')" "hd (xss ! i) \<noteq> NULL"
      "pktq_rel (L', pq') (xss[i := tl (xss ! i)])" by blast
  then show ?thesis using pktq_deq_pdeq [OF rep top d(1,2)] by blast
qed

lemma step_deq_tail:
  assumes rel: "pktq_rel (L, pq) xss" and low: "low_prec xss = Some i"
  shows "\<exists>L' pq'. pktq_deq_tail L pq = Some (last (xss ! i), Some i, L', pq') \<and>
    pktq_rel (L', pq') (xss[i := butlast (xss ! i)])"
proof -
  have rep: "pq_rep L pq xss" and i: "i < length xss" "xss ! i \<noteq> []"
    using rel low by (auto simp: low_prec_Some)
  from pktq_rel_pdeq_tail [OF rel i] obtain L' pq' where
    d: "pktq_pdeq_tail i L pq = Some (last (xss ! i), L', pq')" "L' (last (xss ! i)) = NULL"
      "pktq_rel (L', pq') (xss[i := butlast (xss ! i)])" by blast
  then show ?thesis using pktq_deq_tail_pdeq_tail [OF rep low d(1,2)] by blast
qed

lemma step_mdeq:
  assumes rel: "pktq_rel (L, pq) xss" and m: "mtop_prec bmp xss = Some i"
  shows "\<exists>L' pq'. pktq_mdeq bmp L pq = (hd (xss ! i), Some i, L', pq') \<and>
    pktq_rel (L', pq') (xss[i := tl (xss ! i)])"
proof -
  have rep: "pq_rep L pq xss" and i: "i < length xss" "xss ! i \<noteq> []"
    using rel m by (auto simp: mtop_prec_Some)
  then have "concat xss \<noteq> []" by (simp only: concat_Nil_nth) blast
  then obtain n where top: "top_prec xss = Some n" using top_prec_None [of xss] by fastforce
  have "pktq_rel (L, pq\<lparr>hi_prec := of_nat n\<rparr>) xss" using rel pq_rep_lower [OF rep top] by simp
  from pktq_rel_pdeq [OF this i] obtain L' pq' where
    d: "pktq_pdeq i L (pq\<lparr>hi_prec := of_nat n\<rparr>) = (hd (xss ! i), L', pq')" "hd (xss ! i) \<noteq> NULL"
      "pktq_rel (L', pq') (xss[i := tl (xss ! i)])" by blast
  then have "pq_rep L' pq' (xss[i := tl (xss ! i)])" by simp
  then show ?thesis using pktq_mdeq_pdeq [OF rep m top d(1,2)] d(3) by blast
qed

lemma pktq_step_sim:
  assumes rel: "pktq_rel (L, pq) xss" and sp: "pktq_spec op xss = Some (r, xss')"
  shows "\<exists>L' pq'. pktq_exec op (L, pq) = Some (r, L', pq') \<and> pktq_rel (L', pq') xss'"
proof -
  have rep: "pq_rep L pq xss" using rel by simp
  show ?thesis
  proof (cases op)
    case (Penq i p)
    then have "fresh_pkt i p xss" "r = Pkt p" "xss' = xss[i := xss ! i @ [p]]"
      using sp by (auto split: if_splits)
    with step_penq [OF rel this(1)] Penq show ?thesis by (metis pktq_exec.simps(1) case_prod_conv)
  next
    case (PenqHead i p)
    then have "fresh_pkt i p xss" "r = Pkt p" "xss' = xss[i := p # xss ! i]"
      using sp by (auto split: if_splits)
    with step_penq_head [OF rel this(1)] PenqHead show ?thesis by (metis pktq_exec.simps(2) case_prod_conv)
  next
    case (Pdeq i)
    then show ?thesis
      using sp rel pktq_rel_pdeq [OF rel, of i] pktq_pdeq_Nil [OF rep, of i]
      by (cases "xss ! i = []") (auto split: if_splits simp del: pktq_rel.simps)
  next
    case (PdeqTail i)
    then show ?thesis
      using sp rel pktq_rel_pdeq_tail [OF rel, of i] pktq_pdeq_tail_Nil [OF rep, of i]
      by (cases "xss ! i = []") (auto split: if_splits simp del: pktq_rel.simps)
  next
    case (PdeqWithFn i f)
    then show ?thesis
      using sp rel step_pdeq_with_fn [OF rel, of i f]
      by (auto split: if_splits option.splits simp del: pktq_rel.simps)
  next
    case (Pdel p i)
    then show ?thesis
      using sp step_pdel [OF rel, of i p] by (auto split: if_splits simp del: pktq_rel.simps)
  next
    case Deq
    then show ?thesis
      using sp rel step_deq [OF rel] pktq_deq_empty [OF rep] top_prec_None [of xss]
      by (cases "top_prec xss") (auto simp del: pktq_rel.simps concat_eq_Nil_conv)
  next
    case DeqTail
    have "low_prec xss = None \<Longrightarrow> pktq_deq_tail L pq = Some (NULL, None, L, pq)"
      using pq_rep_tot_0 [OF rep] by (simp add: pktq_deq_tail_def low_prec_None)
    then show ?thesis
      using DeqTail sp rel step_deq_tail [OF rel]
      by (cases "low_prec xss") (auto simp del: pktq_rel.simps)
  next
    case (Mdeq bmp)
    then show ?thesis
      using sp rel step_mdeq [OF rel, of bmp] pktq_mdeq_none [OF rep, of bmp]
      by (cases "mtop_prec bmp xss") fastforce+
  qed
qed

interpretation psim: simulation pktq_rel pktq_exec pktq_spec
proof
  fix s xss op r xss'
  assume R: "pktq_rel s xss" and sp: "pktq_spec op xss = Some (r, xss')"
  obtain L pq where s: "s = (L, pq)" by fastforce
  have rel: "pktq_rel (L, pq) xss" and rep: "pq_rep L pq xss" using R s by auto
  have "\<exists>L' pq'. pktq_exec op (L, pq) = Some (r, L', pq') \<and> pktq_rel (L', pq') xss'"
    using rel sp by (rule pktq_step_sim)
  then show "\<exists>s'. pktq_exec op s = Some (r, s') \<and> pktq_rel s' xss'" using s by auto
qed

end
