(* ===== verification/Pktq_Correct.thy ===== *)
theory Pktq_Correct
  imports Pktq_Machine
begin

text \<open>
  What clients of the packet queues rely on: runs of operations refine the abstract machine, a
  precedence is first in first out, flush hands every packet to \<open>PKTFREE\<close> once, filter keeps
  exactly the packets the callback keeps, moves between queues concatenate, length and peek agree
  with the contents. The last section shows the three operations that lose track of the tail.
\<close>

section \<open>Initial states\<close>

lemma concat_replicate_Nil [simp]: "concat (replicate n []) = []"
  by (induction n) auto

lemma pktq_init_rep:
  assumes "0 < np" and "np \<le> PKTQ_MAX_PREC" and "length (prec_q pq0) = PKTQ_MAX_PREC"
  shows "pq_rep L (snd (pktq_init pq0 np mx)) (replicate np [])"
proof -
  have "unat (of_nat np :: u16) = np" using assms by (intro unat_of_nat_u16) (simp add: PKTQ_MAX_PREC_def)
  then show ?thesis using assms by (simp add: pq_rep_def pktq_init_def get_q_def q_rep_def zero_prec_def)
qed

section \<open>Flush\<close>

lemma pflush_rep:
  assumes rep: "pq_rep L pq xss" and i: "i < length xss"
  obtains pq' where
    "pktq_pflush free i L pq c = Some (\<lambda>y. if y \<in> set (xss ! i) then NULL else L y, pq', fold free (xss ! i) c)"
    "pq_rep (\<lambda>y. if y \<in> set (xss ! i) then NULL else L y) pq' (xss[i := []])"
  using pdrain.loop_drains [OF prec_rep_self [OF rep i], of free c] by (auto simp: prec_rep_def)

lemma flush_precs_rep:
  assumes "pq_rep L pq xss" and "n \<le> length xss"
  shows "\<exists>L' pq'. flush_precs free n L pq c = Some (L', pq', fold free (concat (rev (take n xss))) c) \<and>
    pq_rep L' pq' (replicate n [] @ drop n xss) \<and>
    L' = (\<lambda>y. if y \<in> set (concat (take n xss)) then NULL else L y)"
  using assms
proof (induction n arbitrary: L pq xss c)
  case 0
  then show ?case by simp
next
  case (Suc n)
  let ?L = "\<lambda>y. if y \<in> set (xss ! n) then NULL else L y"
  have n: "n < length xss" using Suc.prems by simp
  obtain pq1 where
    f: "pktq_pflush free n L pq c = Some (?L, pq1, fold free (xss ! n) c)" "pq_rep ?L pq1 (xss[n := []])"
    using pflush_rep [OF Suc.prems(1) n] .
  from Suc.IH [OF f(2), of "fold free (xss ! n) c"] n obtain L' pq' where
    g: "flush_precs free n ?L pq1 (fold free (xss ! n) c)
        = Some (L', pq', fold free (concat (rev (take n xss))) (fold free (xss ! n) c))"
      "pq_rep L' pq' (replicate n [] @ drop n (xss[n := []]))"
      "L' = (\<lambda>y. if y \<in> set (concat (take n xss)) then NULL else ?L y)" by auto
  have tk: "take (Suc n) xss = take n xss @ [xss ! n]" using n by (rule take_Suc_conv_app_nth)
  have "drop n (xss[n := []]) = [] # drop (Suc n) xss"
    using n by (simp add: drop_update_swap Cons_nth_drop_Suc [symmetric])
  then have "pq_rep L' pq' (replicate (Suc n) [] @ drop (Suc n) xss)"
    using g(2) by (simp add: replicate_append_same [symmetric])
  moreover have "L' = (\<lambda>y. if y \<in> set (concat (take (Suc n) xss)) then NULL else L y)"
    unfolding g(3) tk by (auto simp: fun_eq_iff)
  ultimately show ?case using f(1) g(1) tk by simp
qed

section \<open>Filter\<close>

text \<open>From the highest precedence down, with the client state threaded through.\<close>

fun keep_precs ::
    "nat \<Rightarrow> ('c \<Rightarrow> ptr \<Rightarrow> pktq_filter_result \<times> 'c) \<Rightarrow> (ptr \<Rightarrow> 'c \<Rightarrow> 'c) \<Rightarrow> ptr list list \<Rightarrow> 'c
      \<Rightarrow> ptr list list \<times> 'c" where
  "keep_precs 0 fltr dfr xss c = (xss, c)"
| "keep_precs (Suc n) fltr dfr xss c =
     (case keep fltr dfr (xss ! n) c of (zs, c) \<Rightarrow> keep_precs n fltr dfr (xss[n := zs]) c)"

lemma pq_rep_take_queue:
  assumes rep: "pq_rep L pq xss" and i: "i < length xss"
  shows "pq_rep L ((put_q i (q_reset (get_q pq i)) pq)\<lparr>n_pkts_tot := n_pkts_tot pq - n_pkts (get_q pq i)\<rparr>)
    (xss[i := []])"
proof (rule pq_rep_update [OF rep i])
  have l: "length (concat (xss[i := []])) + length (xss ! i) = length (concat xss)"
    using length_concat_update [OF i, of "[]"] by simp
  have n: "n_pkts (get_q pq i) = of_nat (length (xss ! i))" "n_pkts_tot pq = of_nat (length (concat xss))"
    using rep pq_rep_q [OF rep i] by (auto simp: pq_rep_def q_rep_def)
  show "n_pkts_tot ((put_q i (q_reset (get_q pq i)) pq)\<lparr>n_pkts_tot := n_pkts_tot pq - n_pkts (get_q pq i)\<rparr>)
      = of_nat (length (concat (xss[i := []])))"
    unfolding n l [symmetric] by simp
  show "length (concat (xss[i := []])) < 65536" using l rep by (simp add: pq_rep_def)
  fix j assume "j < length xss"
    "unat (hi_prec ((put_q i (q_reset (get_q pq i)) pq)\<lparr>n_pkts_tot := n_pkts_tot pq - n_pkts (get_q pq i)\<rparr>)) < j"
  then have "xss ! j = []" using rep by (simp add: pq_rep_def put_q_def)
  then show "xss[i := []] ! j = []" using i by (cases "i = j") auto
qed (use rep in \<open>auto simp: pq_rep_def put_q_def\<close>)

lemma pfilter_core_rep:
  assumes rep: "pq_rep L pq xss" and i: "i < length xss" and k: "keep fltr dfr (xss ! i) c = (zs, c')"
  shows "\<exists>L' pq'. pktq_pfilter_core i fltr dfr L pq c = Some (L', pq', c') \<and>
    pq_rep L' pq' (xss[i := zs]) \<and> (\<forall>y. y \<notin> set (xss ! i) \<longrightarrow> L' y = L y)"
proof -
  let ?pq = "(put_q i (q_reset (get_q pq i)) pq)\<lparr>n_pkts_tot := n_pkts_tot pq - n_pkts (get_q pq i)\<rparr>"
  have tk: "prec_rep i L ?pq xss []" using pq_rep_take_queue [OF rep i] i by (simp add: prec_rep_def)
  have sg: "seg L (head (get_q pq i)) (xss ! i) NULL" using pq_rep_q [OF rep i] by (simp add: q_rep_def)
  have dj: "set (xss ! i) \<inter> (set [] \<union> prec_others i xss) = {}"
    using pq_rep_sub_disjoint [OF rep i order_refl] by (simp add: prec_others_def)
  have "prec_load i xss + length (xss ! i) = length (concat xss)"
    using prec_split(1) [OF i, of "xss ! i"] by simp
  then have ld: "prec_load i xss + length ([]::ptr list) + length (xss ! i) < 65536"
    using rep by (simp add: pq_rep_def)
  from pfifo.filter_loop_rep [OF tk sg dj ld k] obtain L' pq' where
    "filter_loop fltr dfr (pktq_penq i) L (get_q pq i) ?pq c = Some (L', pq', c')"
    "prec_rep i L' pq' xss zs" "\<forall>y. y \<notin> set (xss ! i) \<longrightarrow> L' y = L y" by auto
  then show ?thesis by (simp add: pktq_pfilter_core_def prec_rep_def put_q_def Let_def)
qed

lemma filter_precs_rep:
  assumes "pq_rep L pq xss" and "n \<le> length xss" and "keep_precs n fltr dfr xss c = (zss, c')"
  shows "\<exists>L' pq'. filter_precs n fltr dfr L pq c = Some (L', pq', c') \<and> pq_rep L' pq' zss \<and>
    (\<forall>y. y \<notin> set (concat xss) \<longrightarrow> L' y = L y)"
  using assms
proof (induction n arbitrary: L pq xss c)
  case 0
  then show ?case by simp
next
  case (Suc n)
  have n: "n < length xss" using Suc.prems by simp
  obtain zs d where k: "keep fltr dfr (xss ! n) c = (zs, d)" by fastforce
  from pfilter_core_rep [OF Suc.prems(1) n k] obtain L1 pq1 where
    f: "pktq_pfilter_core n fltr dfr L pq c = Some (L1, pq1, d)" "pq_rep L1 pq1 (xss[n := zs])"
      "\<forall>y. y \<notin> set (xss ! n) \<longrightarrow> L1 y = L y" by blast
  have k': "keep_precs n fltr dfr (xss[n := zs]) d = (zss, c')" using Suc.prems(3) k by simp
  from Suc.IH [OF f(2) _ k'] n obtain L' pq' where
    g: "filter_precs n fltr dfr L1 pq1 d = Some (L', pq', c')" "pq_rep L' pq' zss"
      "\<forall>y. y \<notin> set (concat (xss[n := zs])) \<longrightarrow> L' y = L1 y" by auto
  have "L' y = L y" if "y \<notin> set (concat xss)" for y
  proof -
    have "y \<notin> set (xss ! n)" "y \<notin> set (concat (xss[n := zs]))"
      using that keep_set [OF k] nth_concat_subset [OF n] set_concat_update [of xss n zs] by blast+
    then show ?thesis using f(3) g(3) by simp
  qed
  then show ?case using f(1) g(1,2) by simp
qed

section \<open>Moving a whole queue\<close>

lemma pq_rep_fresh_disjoint:
  assumes rep: "pq_rep L pq xss" and i: "i < length xss" and dj: "set ys \<inter> set (concat xss) = {}"
  shows "(set (xss ! i) \<union> set ys) \<inter> set (concat (xss[i := []])) = {}"
proof -
  have "set (concat (xss[i := []])) \<subseteq> set (concat xss)" using set_concat_update [of xss i "[]"] by simp
  then show ?thesis using pq_rep_sub_disjoint [OF rep i order_refl] dj by blast
qed

lemma pktq_append_rep:
  assumes rep: "pq_rep L pq xss" and i: "i < length xss" and lq: "q_rep L lq ys"
    and dj: "set ys \<inter> set (concat xss) = {}" and len: "length (concat xss) + length ys < 65536"
  shows "\<exists>L' pq' lq'. pktq_append i L pq lq = (L', pq', lq') \<and> pq_rep L' pq' (xss[i := xss ! i @ ys]) \<and>
    q_rep L' lq' []"
proof (cases "ys = []")
  case True
  then show ?thesis using rep lq q_rep_head_NULL [OF lq] by (simp add: pktq_append_def)
next
  case False
  have d: "set (xss ! i) \<inter> set ys = {}" "length (xss ! i) + length ys < 65536"
    using dj nth_concat_subset [OF i] length_concat_le [OF i] len by (blast, linarith)
  from q_append_rep [OF pq_rep_q [OF rep i] lq False d] obtain L' q' where
    a: "q_append L (get_q pq i) lq = (L', q')" "q_rep L' q' (xss ! i @ ys)"
      "\<And>y. y \<notin> set (xss ! i) \<Longrightarrow> L' y = L y" by metis
  have "set (xss ! i @ ys) \<inter> set (concat (xss[i := []])) = {}"
    using pq_rep_fresh_disjoint [OF rep i dj] unfolding set_append by blast
  then have "pq_rep L' (raise_hi i ((put_q i q' pq)\<lparr>n_pkts_tot := n_pkts_tot pq + n_pkts lq\<rparr>)) (xss[i := xss ! i @ ys])"
    using a len lq by (intro pq_rep_add [OF rep i a(2), where n = "length ys"]) (auto simp: q_rep_def)
  then show ?thesis using False q_rep_head_NULL [OF lq] a(1)
    by (simp add: pktq_append_def put_q_def)
qed

lemma pktq_prepend_rep:
  assumes rep: "pq_rep L pq xss" and i: "i < length xss" and lq: "q_rep L lq ys"
    and dj: "set ys \<inter> set (concat xss) = {}" and len: "length (concat xss) + length ys < 65536"
  shows "\<exists>L' pq' lq'. pktq_prepend i L pq lq = (L', pq', lq') \<and> pq_rep L' pq' (xss[i := ys @ xss ! i]) \<and>
    q_rep L' lq' []"
proof (cases "ys = []")
  case True
  then show ?thesis using rep lq q_rep_head_NULL [OF lq] by (simp add: pktq_prepend_def)
next
  case False
  have d: "set (xss ! i) \<inter> set ys = {}" "length (xss ! i) + length ys < 65536"
    using dj nth_concat_subset [OF i] length_concat_le [OF i] len by (blast, linarith)
  from q_prepend_rep [OF pq_rep_q [OF rep i] lq False d] obtain L' q' where
    a: "q_prepend L (get_q pq i) lq = (L', q')" "q_rep L' q' (ys @ xss ! i)"
      "\<And>y. y \<notin> set ys \<Longrightarrow> L' y = L y" by metis
  have "set (ys @ xss ! i) \<inter> set (concat (xss[i := []])) = {}"
    using pq_rep_fresh_disjoint [OF rep i dj] unfolding set_append by blast
  then have "pq_rep L' (raise_hi i ((put_q i q' pq)\<lparr>n_pkts_tot := n_pkts_tot pq + n_pkts lq\<rparr>)) (xss[i := ys @ xss ! i])"
    using a len lq by (intro pq_rep_add [OF rep i a(2), where n = "length ys"]) (auto simp: q_rep_def)
  then show ?thesis using False q_rep_head_NULL [OF lq] a(1)
    by (simp add: pktq_prepend_def put_q_def)
qed

section \<open>Looking without taking\<close>

lemma peek_eq:
  assumes rep: "pq_rep L pq xss"
  shows "\<exists>pq'. pktq_peek pq = (case top_prec xss of None \<Rightarrow> (NULL, None, pq') | Some i \<Rightarrow> (hd (xss ! i), Some i, pq'))
    \<and> pq_rep L pq' xss"
proof (cases "top_prec xss")
  case None
  then have "n_pkts_tot pq = 0" using pq_rep_tot_0 [OF rep] top_prec_None by blast
  then show ?thesis using rep None by (simp add: pktq_peek_def)
next
  case (Some i)
  then have i: "i < length xss" "xss ! i \<noteq> []" and ne: "concat xss \<noteq> []"
    using top_prec_None [of xss] by (auto simp: top_prec_Some)
  have "hi_scan (prec_q pq) (unat (hi_prec pq)) = i" using hi_scan_top [OF rep ne] Some by simp
  moreover have "head (get_q pq i) = hd (xss ! i)" using q_rep_head [OF pq_rep_q [OF rep i(1)] i(2)] .
  ultimately show ?thesis using pq_rep_lower [OF rep Some] pq_rep_tot_0 [OF rep] ne Some
    by (simp add: pktq_peek_def Let_def get_q_def)
qed

lemma peek_tail_eq:
  assumes rep: "pq_rep L pq xss"
  shows "pktq_peek_tail pq = (case low_prec xss of None \<Rightarrow> (NULL, None) | Some i \<Rightarrow> (last (xss ! i), Some i))"
proof (cases "low_prec xss")
  case None
  then have "n_pkts_tot pq = 0" using pq_rep_tot_0 [OF rep] low_prec_None by blast
  then show ?thesis using None by (simp add: pktq_peek_tail_def)
next
  case (Some i)
  then have i: "i < length xss" "xss ! i \<noteq> []" and ne: "concat xss \<noteq> []"
    using low_prec_None [of xss] by (auto simp: low_prec_Some)
  have "low_scan (prec_q pq) (unat (hi_prec pq)) 0 = i" using low_scan_low [OF rep ne] Some by simp
  then show ?thesis using q_rep_tail [OF pq_rep_q [OF rep i(1)] i(2)] pq_rep_tot_0 [OF rep] ne Some
    by (simp add: pktq_peek_tail_def)
qed

lemma mpeek_eq:
  assumes rep: "pq_rep L pq xss"
  shows "\<exists>pq'. pktq_mpeek bmp pq =
      (case mtop_prec bmp xss of None \<Rightarrow> (NULL, None, pq') | Some i \<Rightarrow> (hd (xss ! i), Some i, pq'))
    \<and> pq_rep L pq' xss"
proof (cases "top_prec xss")
  case None
  then have "mtop_prec bmp xss = None"
    using concat_Nil_nth [of xss] by (auto simp: top_prec_None mtop_prec_def find_rev_upt_None)
  moreover have "n_pkts_tot pq = 0" using None pq_rep_tot_0 [OF rep] top_prec_None by blast
  ultimately show ?thesis using rep by (simp add: pktq_mpeek_def)
next
  case (Some n)
  then have ne: "concat xss \<noteq> []" using top_prec_None [of xss] by auto
  have "hi_scan (prec_q pq) (unat (hi_prec pq)) = n" using hi_scan_top [OF rep ne] Some by simp
  moreover have "n_pkts_tot pq \<noteq> 0" using pq_rep_tot_0 [OF rep] ne by simp
  ultimately have eq: "pktq_mpeek bmp pq = (case mtop_prec bmp xss of
        None \<Rightarrow> (NULL, None, pq\<lparr>hi_prec := of_nat n\<rparr>)
      | Some i \<Rightarrow> if head (get_q pq i) = NULL then (NULL, None, pq\<lparr>hi_prec := of_nat n\<rparr>)
                  else (head (get_q pq i), Some i, pq\<lparr>hi_prec := of_nat n\<rparr>))"
    using mscan_mtop [OF rep Some, of bmp] by (simp add: pktq_mpeek_def get_q_def Let_def split: option.split)
  show ?thesis
  proof (cases "mtop_prec bmp xss")
    case (Some i)
    then have i: "i < length xss" "xss ! i \<noteq> []" by (auto simp: mtop_prec_Some)
    have "head (get_q pq i) = hd (xss ! i)" "head (get_q pq i) \<noteq> NULL"
      using q_rep_head [OF pq_rep_q [OF rep i(1)]] q_rep_head_NULL [OF pq_rep_q [OF rep i(1)]] i(2) by auto
    then show ?thesis using eq Some pq_rep_lower [OF rep \<open>top_prec xss = Some n\<close>] by auto
  qed (use eq pq_rep_lower [OF rep Some] in auto)
qed

lemma deq_eq:
  assumes rel: "pktq_rel (L, pq) xss"
  shows "\<exists>L' pq'. pktq_deq L pq =
    (case top_prec xss of None \<Rightarrow> NULL | Some i \<Rightarrow> hd (xss ! i), top_prec xss, L', pq')"
  using rel step_deq [OF rel] pktq_deq_empty [of L pq xss] top_prec_None [of xss]
  by (cases "top_prec xss") auto

lemma deq_tail_eq:
  assumes rel: "pktq_rel (L, pq) xss"
  shows "\<exists>L' pq'. pktq_deq_tail L pq =
    Some (case low_prec xss of None \<Rightarrow> NULL | Some i \<Rightarrow> last (xss ! i), low_prec xss, L', pq')"
proof (cases "low_prec xss")
  case None
  then have "n_pkts_tot pq = 0" using rel pq_rep_tot_0 [of L pq xss] low_prec_None [of xss] by auto
  then show ?thesis using None by (simp add: pktq_deq_tail_def)
qed (use step_deq_tail [OF rel] in auto)

lemma mdeq_eq:
  assumes rel: "pktq_rel (L, pq) xss"
  shows "\<exists>L' pq'. pktq_mdeq bmp L pq =
    (case mtop_prec bmp xss of None \<Rightarrow> NULL | Some i \<Rightarrow> hd (xss ! i), mtop_prec bmp xss, L', pq')"
  using rel step_mdeq [OF rel, of bmp] pktq_mdeq_none [of L pq xss bmp]
  by (cases "mtop_prec bmp xss") auto

lemma mlen_eq:
  assumes rep: "pq_rep L pq xss"
  shows "pktq_mlen bmp pq = sum_list (map (\<lambda>i. if bmp_set bmp i then length (xss ! i) else 0) [0..<length xss])"
proof -
  let ?h = "Suc (unat (hi_prec pq))"
  let ?f = "\<lambda>i. if bmp_set bmp i then length (xss ! i) else 0"
  have h: "?h \<le> length xss" "\<And>j. j < length xss \<Longrightarrow> ?h \<le> j \<Longrightarrow> xss ! j = []"
    using rep by (auto simp: pq_rep_def)
  have "map (\<lambda>i. if bmp_set bmp i then unat (n_pkts (get_q pq i)) else 0) [0..<?h] = map ?f [0..<?h]"
    using h(1) q_rep_n_pkts [OF pq_rep_q [OF rep]] by (auto intro!: map_cong)
  moreover have "map ?f [?h..<length xss] = map (\<lambda>_. 0) [?h..<length xss]"
    using h(2) by (intro map_cong) auto
  moreover have "[0..<length xss] = [0..<?h] @ [?h..<length xss]"
    using h(1) by (metis le_add_diff_inverse upt_add_eq_append zero_le)
  ultimately have "map ?f [0..<length xss] =
      map (\<lambda>i. if bmp_set bmp i then unat (n_pkts (get_q pq i)) else 0) [0..<?h] @ map (\<lambda>_. 0) [?h..<length xss]"
    by (simp only: map_append)
  then show ?thesis unfolding pktq_mlen_def by (simp only: sum_list_append) (simp add: map_replicate_const)
qed

section \<open>Properties\<close>

text \<open>C1: any run of enqueue, dequeue, search and delete operations that respects the contract, from
  a freshly initialised queue, returns exactly what the abstract machine on packet lists returns,
  terminates, and leaves a queue that represents the abstract state.\<close>

theorem pktq_run_refines:
  assumes "0 < np" and "np \<le> PKTQ_MAX_PREC" and "length (prec_q pq0) = PKTQ_MAX_PREC"
    and "run pktq_spec ops (replicate np []) = Some (rs, xss)"
  shows "\<exists>L pq. run pktq_exec ops ((\<lambda>_. NULL), snd (pktq_init pq0 np mx)) = Some (rs, L, pq) \<and>
    pq_rep L pq xss"
proof -
  have "pktq_rel ((\<lambda>_. NULL), snd (pktq_init pq0 np mx)) (replicate np [])"
    using pktq_init_rep [OF assms(1,2,3)] by simp
  from psim.run_sim [OF this assms(4)] show ?thesis by auto
qed

definition sample_pktq :: pktq where
  "sample_pktq = \<lparr>num_prec = 0, hi_prec = 0, pq_max_pkts = 0, n_pkts_tot = 0,
     prec_q = replicate 16 zero_prec\<rparr>"

lemma sample_run:
  "\<exists>L pq. run pktq_exec [Penq 0 5, Penq 0 6, Penq 1 7] ((\<lambda>_. NULL), snd (pktq_init sample_pktq 2 64))
      = Some ([Pkt 5, Pkt 6, Pkt 7], L, pq) \<and> pktq_rel (L, pq) [[5, 6], [7]]"
proof -
  have init: "pktq_rel ((\<lambda>_. NULL), snd (pktq_init sample_pktq 2 64)) (replicate 2 [])"
    using pktq_init_rep [of 2 sample_pktq] by (simp add: PKTQ_MAX_PREC_def sample_pktq_def)
  have "run pktq_spec [Penq 0 5, Penq 0 6, Penq 1 7] (replicate 2 []) = Some ([Pkt 5, Pkt 6, Pkt 7], [[5, 6], [7]])"
    by (simp add: fresh_pkt_def numeral_2_eq_2)
  from psim.run_sim [OF init this] show ?thesis by auto
qed

theorem pktq_run_refines_witness:
  "\<exists>L pq. run pktq_exec [Penq 1 100, Penq 0 200, PenqHead 1 300, Deq, DeqTail, Pdel 7 1]
      ((\<lambda>_. NULL), snd (pktq_init sample_pktq 2 64))
    = Some ([Pkt 100, Pkt 200, Pkt 300, PktPrec 300 (Some 1), PktPrec 200 (Some 0), Deleted False], L, pq) \<and>
    pq_rep L pq [[], [100]]"
  by (rule pktq_run_refines)
    (simp_all add: PKTQ_MAX_PREC_def sample_pktq_def fresh_pkt_def top_prec_def low_prec_def
      numeral_2_eq_2 upt_rec)

text \<open>C2: one precedence of a queue is first in first out: enqueueing \<open>ps\<close> behind the packets
  \<open>xss ! i\<close> already there and dequeueing as often as there are packets returns \<open>xss ! i @ ps\<close>, and
  the other precedences are unchanged.\<close>

theorem pktq_prec_fifo:
  assumes "pq_rep L pq xss" and "i < length xss" and "NULL \<notin> set ps" and "distinct ps"
    and "set ps \<inter> set (concat xss) = {}" and "\<forall>p\<in>set ps. L p = NULL"
    and "length (concat xss) + length ps < 65536"
  shows "\<exists>L' pq'. (case enq_all (pktq_penq i) ps L pq of (L, pq) \<Rightarrow>
      deq_n (pktq_pdeq i) (length (xss ! i) + length ps) L pq) = (xss ! i @ ps, L', pq') \<and>
    pq_rep L' pq' (xss[i := []])"
proof -
  note sp = prec_split [OF assms(2), of "xss ! i"]
  have "\<exists>L' pq'. (case enq_all (pktq_penq i) ps L pq of (L, pq) \<Rightarrow>
      deq_n (pktq_pdeq i) (length (xss ! i) + length ps) L pq) = (xss ! i @ ps, L', pq') \<and>
    prec_rep i L' pq' xss []"
  proof (rule pfifo.fifo_order [OF prec_rep_self [OF assms(1,2)] assms(3,4) _ assms(6)])
    show "set ps \<inter> (set (xss ! i) \<union> prec_others i xss) = {}" unfolding sp(2) using assms(5) by simp
    show "prec_load i xss + length (xss ! i) + length ps < 65536" unfolding sp(1) using assms(7) by simp
  qed
  then show ?thesis by (auto simp: prec_rep_def)
qed

theorem pktq_prec_fifo_witness:
  "\<exists>L' pq'. (case enq_all (pktq_penq 1) [5, 6, 7] (\<lambda>_. NULL) (snd (pktq_init sample_pktq 2 64)) of (L, pq) \<Rightarrow>
      deq_n (pktq_pdeq 1) 3 L pq) = ([5, 6, 7], L', pq') \<and> pq_rep L' pq' [[], []]"
proof -
  have "pq_rep (\<lambda>_. NULL) (snd (pktq_init sample_pktq 2 64)) (replicate 2 [])"
    by (rule pktq_init_rep) (simp_all add: PKTQ_MAX_PREC_def sample_pktq_def)
  from pktq_prec_fifo [OF this, of 1 "[5, 6, 7]"] show ?thesis
    by (simp add: numeral_2_eq_2 numeral_3_eq_3)
qed

text \<open>C3: \<open>pktq_flush\<close> ends, hands every queued packet to \<open>PKTFREE\<close> exactly once, from the highest
  precedence to the lowest and in queue order, clears the links of exactly these packets, and leaves
  every precedence empty.\<close>

theorem pktq_flush_frees_all:
  assumes rep: "pq_rep L pq xss"
  shows "\<exists>L' pq'. pktq_flush free L pq c = Some (L', pq', fold free (concat (rev xss)) c) \<and>
    pq_rep L' pq' (replicate (length xss) []) \<and>
    L' = (\<lambda>y. if y \<in> set (concat xss) then NULL else L y)"
proof (cases "n_pkts_tot pq = 0")
  case True
  then have e: "concat xss = []" using pq_rep_tot_0 [OF rep] by simp
  then have "xss = replicate (length xss) []"
    by (intro replicate_eqI) (simp_all add: concat_eq_Nil_conv)
  moreover have "fold free (concat (rev xss)) c = c"
  proof -
    have "concat (rev xss) = []" using e by simp
    then show ?thesis by (simp only: fold_simps)
  qed
  moreover have "(\<lambda>y. if y \<in> set (concat xss) then NULL else L y) = L" unfolding e by simp
  ultimately show ?thesis using True rep unfolding pktq_flush_def by simp
next
  case False
  have n: "unat (num_prec pq) = length xss" using rep by (simp add: pq_rep_def)
  have "n_pkts_tot pq > 0" using False by (simp add: word_neq_0_conv)
  then show ?thesis using flush_precs_rep [OF rep order_refl, of free c] by (simp add: pktq_flush_def n)
qed

theorem pktq_flush_frees_all_witness:
  "\<exists>L pq L' pq'. run pktq_exec [Penq 0 5, Penq 0 6, Penq 1 7] ((\<lambda>_. NULL), snd (pktq_init sample_pktq 2 64))
      = Some ([Pkt 5, Pkt 6, Pkt 7], L, pq) \<and>
    pktq_flush (\<lambda>p ps. ps @ [p]) L pq [] = Some (L', pq', [7, 5, 6]) \<and> pq_rep L' pq' [[], []]"
proof -
  obtain L pq where r: "run pktq_exec [Penq 0 5, Penq 0 6, Penq 1 7]
      ((\<lambda>_. NULL), snd (pktq_init sample_pktq 2 64)) = Some ([Pkt 5, Pkt 6, Pkt 7], L, pq)"
    "pktq_rel (L, pq) [[5, 6], [7]]" using sample_run by blast
  from pktq_flush_frees_all [of L pq "[[5, 6], [7]]" "\<lambda>p ps. ps @ [p]" "[]"] r show ?thesis by auto
qed

text \<open>C4: \<open>pktq_filter\<close> ends, offers every packet to the filter callback once, from the highest
  precedence down and in queue order, keeps exactly the packets for which it answers
  \<open>PKT_FILTER_NOACTION\<close> in their order, defers the deletion of those it wants deleted, and runs the
  deferred flush once when the queue was not empty.\<close>

theorem pktq_filter_keeps:
  assumes rep: "pq_rep L pq xss" and k: "keep_precs (length xss) fltr dfr xss c = (zss, c')"
  shows "\<exists>L' pq'. pktq_filter fltr dfr flush L pq c
      = Some (L', pq', if concat xss = [] then c else flush c') \<and> pq_rep L' pq' zss"
proof (cases "concat xss = []")
  case True
  then have "xss ! i = []" if "i < length xss" for i using that concat_Nil_nth by blast
  then have "xss ! i = [] \<and> xss[i := []] = xss" if "i < length xss" for i
    using that list_update_id [of xss i] by metis
  then have "keep_precs n fltr dfr xss c = (xss, c)" if "n \<le> length xss" for n
    using that by (induction n) auto
  then show ?thesis using k rep True pq_rep_tot_0 [OF rep] by (auto simp: pktq_filter_def)
next
  case False
  have n: "unat (num_prec pq) = length xss" using rep by (simp add: pq_rep_def)
  have "n_pkts_tot pq > 0" using False pq_rep_tot_0 [OF rep] by (metis word_neq_0_conv)
  then show ?thesis using filter_precs_rep [OF rep order_refl k] False by (auto simp: pktq_filter_def n)
qed

theorem pktq_filter_keeps_witness:
  "\<exists>L pq L' pq'. run pktq_exec [Penq 0 5, Penq 0 6, Penq 1 7] ((\<lambda>_. NULL), snd (pktq_init sample_pktq 2 64))
      = Some ([Pkt 5, Pkt 6, Pkt 7], L, pq) \<and>
    pktq_filter (\<lambda>c p. (if odd p then PKT_FILTER_DELETE else PKT_FILTER_NOACTION, c)) (\<lambda>p c. p # c)
      (\<lambda>c. 0 # c) L pq [] = Some (L', pq', [0, 5, 7]) \<and> pq_rep L' pq' [[6], []]"
proof -
  obtain L pq where r: "run pktq_exec [Penq 0 5, Penq 0 6, Penq 1 7]
      ((\<lambda>_. NULL), snd (pktq_init sample_pktq 2 64)) = Some ([Pkt 5, Pkt 6, Pkt 7], L, pq)"
    "pktq_rel (L, pq) [[5, 6], [7]]" using sample_run by blast
  from pktq_filter_keeps [of L pq "[[5, 6], [7]]"
      "\<lambda>c p. (if odd p then PKT_FILTER_DELETE else PKT_FILTER_NOACTION, c)" "\<lambda>p c. p # c" "[]" "[[6], []]"
      "[5, 7]" "\<lambda>c. 0 # c"] r
  show ?thesis by auto
qed

text \<open>C5: \<open>pktq_append\<close> and \<open>pktq_prepend\<close> move the whole list queue behind, respectively in front of,
  the packets of a precedence and leave the list queue empty.\<close>

theorem pktq_append_prepend_move:
  assumes "pq_rep L pq xss" and "i < length xss" and "q_rep L lq ys"
    and "set ys \<inter> set (concat xss) = {}" and "length (concat xss) + length ys < 65536"
  shows "(\<exists>L' pq' lq'. pktq_append i L pq lq = (L', pq', lq') \<and> pq_rep L' pq' (xss[i := xss ! i @ ys]) \<and>
      q_rep L' lq' []) \<and>
    (\<exists>L' pq' lq'. pktq_prepend i L pq lq = (L', pq', lq') \<and> pq_rep L' pq' (xss[i := ys @ xss ! i]) \<and>
      q_rep L' lq' [])"
  using pktq_append_rep [OF assms] pktq_prepend_rep [OF assms] by simp

theorem pktq_append_prepend_move_witness:
  "\<exists>L pq L' pq' lq'. run pktq_exec [Penq 0 5, Penq 0 6, Penq 1 7] ((\<lambda>_. NULL), snd (pktq_init sample_pktq 2 64))
      = Some ([Pkt 5, Pkt 6, Pkt 7], L, pq) \<and>
    pktq_append 1 L pq (snd (snd (spktq_enq 9 L (snd (spktq_init 4))))) = (L', pq', lq') \<and>
    pq_rep L' pq' [[5, 6], [7, 9]] \<and> q_rep L' lq' []"
proof -
  obtain L pq where r: "run pktq_exec [Penq 0 5, Penq 0 6, Penq 1 7]
      ((\<lambda>_. NULL), snd (pktq_init sample_pktq 2 64)) = Some ([Pkt 5, Pkt 6, Pkt 7], L, pq)"
    "pktq_rel (L, pq) [[5, 6], [7]]" using sample_run by blast
  have "q_rep L (snd (snd (spktq_enq 9 L (snd (spktq_init 4))))) [9]"
    using r(2) by (simp add: spktq_enq_def spktq_init_def zero_prec_def q_enq_tail_def q_rep_def)
  from pktq_append_prepend_move [OF _ _ this, of pq "[[5, 6], [7]]" 1] r show ?thesis by auto
qed

text \<open>The peek operations return the packet and the precedence the matching dequeue would take,
  and \<open>pktq_mlen\<close> counts the packets of the selected precedences.\<close>

theorem pktq_peek_agrees:
  assumes rel: "pktq_rel (L, pq) xss"
  shows "fst (pktq_peek pq) = fst (pktq_deq L pq) \<and> fst (snd (pktq_peek pq)) = fst (snd (pktq_deq L pq)) \<and>
    fst (pktq_mpeek bmp pq) = fst (pktq_mdeq bmp L pq) \<and>
    fst (snd (pktq_mpeek bmp pq)) = fst (snd (pktq_mdeq bmp L pq)) \<and>
    (\<exists>L' pq'. pktq_deq_tail L pq = Some (fst (pktq_peek_tail pq), snd (pktq_peek_tail pq), L', pq')) \<and>
    pktq_mlen bmp pq = sum_list (map (\<lambda>i. if bmp_set bmp i then length (xss ! i) else 0) [0..<length xss])"
proof -
  have rep: "pq_rep L pq xss" using rel by simp
  obtain L1 pq1 L2 pq2 L3 pq3 where
    "pktq_deq L pq = (case top_prec xss of None \<Rightarrow> NULL | Some i \<Rightarrow> hd (xss ! i), top_prec xss, L1, pq1)"
    "pktq_mdeq bmp L pq = (case mtop_prec bmp xss of None \<Rightarrow> NULL | Some i \<Rightarrow> hd (xss ! i), mtop_prec bmp xss, L2, pq2)"
    "pktq_deq_tail L pq = Some (case low_prec xss of None \<Rightarrow> NULL | Some i \<Rightarrow> last (xss ! i), low_prec xss, L3, pq3)"
    using deq_eq [OF rel] mdeq_eq [OF rel, of bmp] deq_tail_eq [OF rel] by metis
  then show ?thesis
    using peek_eq [OF rep] mpeek_eq [OF rep, of bmp] peek_tail_eq [OF rep] mlen_eq [OF rep, of bmp]
    by (auto split: option.splits)
qed

theorem pktq_peek_agrees_witness:
  "\<exists>L pq. run pktq_exec [Penq 0 5, Penq 0 6, Penq 1 7] ((\<lambda>_. NULL), snd (pktq_init sample_pktq 2 64))
      = Some ([Pkt 5, Pkt 6, Pkt 7], L, pq) \<and> fst (pktq_peek pq) = fst (pktq_deq L pq)"
proof -
  obtain L pq where r: "run pktq_exec [Penq 0 5, Penq 0 6, Penq 1 7]
      ((\<lambda>_. NULL), snd (pktq_init sample_pktq 2 64)) = Some ([Pkt 5, Pkt 6, Pkt 7], L, pq)"
    "pktq_rel (L, pq) [[5, 6], [7]]" using sample_run by blast
  from pktq_peek_agrees [OF r(2)] r(1) show ?thesis by blast
qed

section \<open>Operations that lose the tail\<close>

lemma q_rep_tail_head: "q_rep L q xs \<Longrightarrow> tail q = NULL \<longleftrightarrow> head q = NULL"
  using q_rep_head_NULL [of L q xs] q_rep_not_NULL [of L q xs] last_neq [of xs NULL]
  by (auto simp: q_rep_def split: if_splits)

lemma spktq_enq_chain_q_append: "spktq_enq_chain L dq sq = q_append L dq sq"
  by (simp add: spktq_enq_chain_def q_append_def)

text \<open>\<open>spktq_enq_chain\<close> appends the source chain when there is one; called with an empty source on
  a non-empty queue it leaves a queue with packets and no tail, which represents no list.\<close>

theorem spktq_enq_chain_appends:
  assumes dq: "q_rep L dq xs" and sq: "q_rep L sq ys" and dj: "set xs \<inter> set ys = {}"
    and len: "length xs + length ys < 65536"
  shows "if ys = [] \<and> xs \<noteq> []
    then \<forall>L' zs. \<not> q_rep L' (snd (spktq_enq_chain L dq sq)) zs
    else \<exists>L' q'. spktq_enq_chain L dq sq = (L', q') \<and> q_rep L' q' (xs @ ys)"
proof (cases "ys = []")
  case False
  from q_append_rep [OF dq sq False dj len] show ?thesis
    using False by (metis spktq_enq_chain_q_append)
next
  case True
  show ?thesis
  proof (cases "xs = []")
    case True
    with \<open>ys = []\<close> show ?thesis using dq sq by (auto simp: spktq_enq_chain_def q_rep_def)
  next
    case False
    let ?q = "snd (spktq_enq_chain L dq sq)"
    have "head ?q = head dq" "tail ?q = NULL" "head dq \<noteq> NULL"
      using False dq sq q_rep_head_NULL [OF dq] \<open>ys = []\<close> by (auto simp: spktq_enq_chain_def q_rep_def)
    then have "\<not> q_rep L' ?q zs" for L' zs using q_rep_tail_head [of L' ?q zs] by auto
    then show ?thesis using True False by simp
  qed
qed

theorem spktq_enq_chain_appends_witness:
  "\<forall>L' zs. \<not> q_rep L' (snd (spktq_enq_chain (\<lambda>_. NULL)
     (snd (snd (spktq_enq 9 (\<lambda>_. NULL) (snd (spktq_init 4))))) (snd (spktq_init 4)))) zs"
proof -
  have "q_rep (\<lambda>_. NULL) (snd (snd (spktq_enq 9 (\<lambda>_. NULL) (snd (spktq_init 4))))) [9]"
    "q_rep (\<lambda>_. NULL) (snd (spktq_init 4)) []"
    by (simp_all add: spktq_enq_def spktq_init_def zero_prec_def q_enq_tail_def q_rep_def PKTSETLINK_def)
  from spktq_enq_chain_appends [OF this] show ?thesis by simp
qed

text \<open>Deleting the last packet of a queue of two or more: the count and the links are updated, the
  tail still names the packet that was removed.\<close>

lemma spktq_delete_node_stale_tail:
  assumes rep: "q_rep L spq (ys @ [y, x])"
  shows "tail (snd (snd (spktq_delete_node y x L spq))) = x \<and>
    \<not> q_rep L' (snd (snd (spktq_delete_node y x L spq))) (ys @ [y])"
proof -
  have d: "x \<noteq> NULL" "y \<noteq> NULL" "x \<noteq> y" "x \<notin> set ys"
    using q_rep_distinct [OF rep] q_rep_not_NULL [OF rep] by auto
  have "head spq \<noteq> x" using q_rep_head [OF rep] d by (cases ys) auto
  then show ?thesis using d q_rep_tail [OF rep] by (auto simp: spktq_delete_node_def Let_def q_rep_def)
qed

lemma pktq_pdeq_prev_stale_tail:
  assumes rep: "pq_rep L pq xss" and i: "i < length xss" and xs: "xss ! i = ys @ [y, x]"
  shows "fst (pktq_pdeq_prev i y L pq) = x \<and> tail (get_q (snd (snd (pktq_pdeq_prev i y L pq))) i) = x \<and>
    \<not> pq_rep L' (snd (snd (pktq_pdeq_prev i y L pq))) (xss[i := ys @ [y]])"
proof -
  have q: "q_rep L (get_q pq i) (ys @ [y, x])" using pq_rep_q [OF rep i] xs by simp
  have d: "x \<noteq> NULL" "y \<noteq> NULL" "x \<noteq> y" and l: "L y = x"
    using q_rep_distinct [OF q] q_rep_not_NULL [OF q] q by (auto simp: q_rep_def seg_append)
  have t: "tail (get_q (snd (snd (pktq_pdeq_prev i y L pq))) i) = x"
    using d l i q_rep_tail [OF q] pq_rep_len [OF rep]
    by (simp add: pktq_pdeq_prev_def PKTLINK_def Let_def put_q_def get_q_def)
  then have "\<not> q_rep L' (get_q (snd (snd (pktq_pdeq_prev i y L pq))) i) (ys @ [y])"
    using d by (auto simp: q_rep_def)
  then have "\<not> pq_rep L' (snd (snd (pktq_pdeq_prev i y L pq))) (xss[i := ys @ [y]])"
    using pq_rep_q [of L' _ "xss[i := ys @ [y]]" i] i by auto
  then show ?thesis using t d l by (simp add: pktq_pdeq_prev_def PKTLINK_def Let_def)
qed

end
