(* ===== verification/Xtlv.thy ===== *)
theory Xtlv
  imports Prelude
begin

unbundle bit_operations_syntax

text \<open>
  The extended type-length-value records of \<open>bcmxtlv.c\<close> and \<open>include/bcmtlv.h\<close>. Buffers are
  ranges of a flat byte memory, an \<open>int\<close> argument is an \<open>int\<close> (no sum here leaves 32 bits for
  lengths up to \<open>2^31 - 8\<close>), a \<open>uint16\<close> wraps at 16 bits. The host is little endian. Out
  parameters are components of the result. Loops whose stride is at least the header sz are
  total functions; the loop of \<open>bcm_xtlv_put_int\<close>, which counts an \<open>int\<close> down to 0, is a
  \<^theory_text>\<open>partial_function\<close>.
\<close>

section \<open>Options and sizes\<close>

type_synonym bcm_xtlv_opts_t = u16

definition BCM_XTLV_OPTION_ALIGN32 :: bcm_xtlv_opts_t where "BCM_XTLV_OPTION_ALIGN32 = 0x0001"
definition BCM_XTLV_OPTION_IDU8 :: bcm_xtlv_opts_t where "BCM_XTLV_OPTION_IDU8 = 0x0002"
definition BCM_XTLV_OPTION_LENU8 :: bcm_xtlv_opts_t where "BCM_XTLV_OPTION_LENU8 = 0x0004"
definition BCM_XTLV_OPTION_IDBE :: bcm_xtlv_opts_t where "BCM_XTLV_OPTION_IDBE = 0x0008"
definition BCM_XTLV_OPTION_LENBE :: bcm_xtlv_opts_t where "BCM_XTLV_OPTION_LENBE = 0x0010"

definition opt :: "bcm_xtlv_opts_t \<Rightarrow> bcm_xtlv_opts_t \<Rightarrow> bool" where
  "opt opts f \<longleftrightarrow> opts AND f \<noteq> 0"

abbreviation idu8 where "idu8 opts \<equiv> opt opts BCM_XTLV_OPTION_IDU8"
abbreviation lenu8 where "lenu8 opts \<equiv> opt opts BCM_XTLV_OPTION_LENU8"
abbreviation align32 where "align32 opts \<equiv> opt opts BCM_XTLV_OPTION_ALIGN32"
abbreviation idbe where "idbe opts \<equiv> opt opts BCM_XTLV_OPTION_IDBE"
abbreviation lenbe where "lenbe opts \<equiv> opt opts BCM_XTLV_OPTION_LENBE"

definition bcm_xtlv_hdr_size :: "bcm_xtlv_opts_t \<Rightarrow> int" where
  "bcm_xtlv_hdr_size opts =
     4 - (if lenu8 opts then 1 else 0) - (if idu8 opts then 1 else 0)"

text \<open>\<open>ALIGN_SIZE(size, 4)\<close> is \<open>(sz + 3) & ~3\<close>: the multiple of 4 at or below \<open>sz + 3\<close>.\<close>

definition ALIGN_SIZE :: "int \<Rightarrow> int \<Rightarrow> int" where
  "ALIGN_SIZE sz boundary = (sz + boundary - 1) AND NOT (boundary - 1)"

definition bcm_xtlv_size_for_data :: "int \<Rightarrow> bcm_xtlv_opts_t \<Rightarrow> int" where
  "bcm_xtlv_size_for_data dlen opts =
     (let hsz = bcm_xtlv_hdr_size opts
      in if align32 opts then ALIGN_SIZE (dlen + hsz) 4 else dlen + hsz)"

definition bcm_xtlv_len :: "mem \<Rightarrow> ptr \<Rightarrow> bcm_xtlv_opts_t \<Rightarrow> int" where
  "bcm_xtlv_len m elt opts =
     (let lenp = (if idu8 opts then elt + 2 - 1 else elt + 2)
      in if lenu8 opts then uint (m lenp)
         else if lenbe opts then int (ntoh16_ua m (elt + 2))
         else int (ltoh16_ua m lenp))"

definition bcm_xtlv_id :: "mem \<Rightarrow> ptr \<Rightarrow> bcm_xtlv_opts_t \<Rightarrow> int" where
  "bcm_xtlv_id m elt opts =
     (if idu8 opts then uint (m elt)
      else if idbe opts then int (ntoh16_ua m elt)
      else int (ltoh16_ua m elt))"

definition bcm_xtlv_size :: "mem \<Rightarrow> ptr \<Rightarrow> bcm_xtlv_opts_t \<Rightarrow> int" where
  "bcm_xtlv_size m elt opts = bcm_xtlv_size_for_data (bcm_xtlv_len m elt opts) opts"

definition bcm_valid_xtlv :: "mem \<Rightarrow> ptr \<Rightarrow> int \<Rightarrow> bcm_xtlv_opts_t \<Rightarrow> bool" where
  "bcm_valid_xtlv m elt buf_len opts \<longleftrightarrow>
     elt \<noteq> NULL \<and> buf_len \<ge> bcm_xtlv_hdr_size opts \<and> buf_len \<ge> bcm_xtlv_size m elt opts"

text \<open>The next element (\<open>NULL\<close> when there is none) and the remaining length, which is written even
  when the next element is not valid.\<close>

definition bcm_next_xtlv :: "mem \<Rightarrow> ptr \<Rightarrow> int \<Rightarrow> bcm_xtlv_opts_t \<Rightarrow> ptr \<times> int" where
  "bcm_next_xtlv m elt buflen opts =
     (if \<not> bcm_valid_xtlv m elt buflen opts then (NULL, buflen)
      else let sz = bcm_xtlv_size m elt opts;
               elt = nat (int elt + sz);
               buflen = buflen - sz
           in if \<not> bcm_valid_xtlv m elt buflen opts then (NULL, buflen) else (elt, buflen))"

section \<open>Packing buffers\<close>

record bcm_xtlvbuf =
  xb_opts :: bcm_xtlv_opts_t
  xb_size :: u16
  xb_head :: ptr
  xb_buf :: ptr

text \<open>\<open>tlv_buf\<close> is \<open>None\<close> for a \<open>NULL\<close> argument; the result replaces the structure.\<close>

definition bcm_xtlv_buf_init ::
    "bcm_xtlvbuf option \<Rightarrow> ptr \<Rightarrow> u16 \<Rightarrow> bcm_xtlv_opts_t \<Rightarrow> bcme \<times> bcm_xtlvbuf option" where
  "bcm_xtlv_buf_init tlv_buf buf len opts =
     (if tlv_buf = None \<or> buf = NULL \<or> len = 0 then (BCME_BADARG, tlv_buf)
      else (BCME_OK, Some \<lparr>xb_opts = opts, xb_size = len, xb_head = buf, xb_buf = buf\<rparr>))"

definition bcm_xtlv_buf_len :: "bcm_xtlvbuf option \<Rightarrow> u16" where
  "bcm_xtlv_buf_len tbuf =
     (case tbuf of None \<Rightarrow> 0 | Some t \<Rightarrow> of_int (int (xb_buf t) - int (xb_head t)))"

definition bcm_xtlv_buf_rlen :: "bcm_xtlvbuf option \<Rightarrow> u16" where
  "bcm_xtlv_buf_rlen tbuf =
     (case tbuf of None \<Rightarrow> 0 | Some t \<Rightarrow> xb_size t - bcm_xtlv_buf_len tbuf)"

definition bcm_xtlv_buf :: "bcm_xtlvbuf option \<Rightarrow> ptr" where
  "bcm_xtlv_buf tbuf = (case tbuf of None \<Rightarrow> NULL | Some t \<Rightarrow> xb_buf t)"

definition bcm_xtlv_head :: "bcm_xtlvbuf option \<Rightarrow> ptr" where
  "bcm_xtlv_head tbuf = (case tbuf of None \<Rightarrow> NULL | Some t \<Rightarrow> xb_head t)"

definition bcm_xtlv_pack_xtlv ::
    "ptr \<Rightarrow> u16 \<Rightarrow> u16 \<Rightarrow> ptr \<Rightarrow> bcm_xtlv_opts_t \<Rightarrow> mem \<Rightarrow> mem" where
  "bcm_xtlv_pack_xtlv xtlv type len data opts m =
     (let mask = BCM_XTLV_OPTION_IDU8 OR BCM_XTLV_OPTION_LENU8;
          hdr =
            (if \<not> opt opts mask then
               (let idp = xtlv; lenp = idp + 2
                in Some (lenp + 2, htol16_ua_store len lenp (htol16_ua_store type idp m)))
             else if opts AND mask = mask then
               (let idp = xtlv; lenp = idp + 1
                in Some (lenp + 1, m(idp := ucast type, lenp := ucast len)))
             else if idu8 opts then
               (let idp = xtlv; lenp = idp + 1
                in Some (lenp + 2, htol16_ua_store len lenp (m(idp := ucast type))))
             else if lenu8 opts then
               (let idp = xtlv; lenp = idp + 2
                in Some (lenp + 1, (htol16_ua_store type idp m)(lenp := ucast len)))
             else None)
      in case hdr of
           None \<Rightarrow> m
         | Some (data_buf, m) \<Rightarrow>
             (let len = (if lenu8 opts then len AND 0xff else len)
              in if data \<noteq> NULL then memcpy data_buf data (unat len) m else m))"

definition bcm_xtlv_unpack_xtlv :: "mem \<Rightarrow> ptr \<Rightarrow> bcm_xtlv_opts_t \<Rightarrow> u16 \<times> u16 \<times> ptr" where
  "bcm_xtlv_unpack_xtlv m xtlv opts =
     (of_int (bcm_xtlv_id m xtlv opts), of_int (bcm_xtlv_len m xtlv opts),
      nat (int xtlv + bcm_xtlv_hdr_size opts))"

definition bcm_xtlv_put_data ::
    "bcm_xtlvbuf option \<Rightarrow> u16 \<Rightarrow> ptr \<Rightarrow> int \<Rightarrow> mem \<Rightarrow> bcme \<times> bcm_xtlvbuf option \<times> mem" where
  "bcm_xtlv_put_data tbuf type data n m =
     (case tbuf of
        None \<Rightarrow> (BCME_BADARG, tbuf, m)
      | Some t \<Rightarrow>
          (let sz = bcm_xtlv_size_for_data n (xb_opts t)
           in if uint (bcm_xtlv_buf_rlen tbuf) < sz then (BCME_NOMEM, tbuf, m)
              else let xtlv = bcm_xtlv_buf tbuf;
                       m = bcm_xtlv_pack_xtlv xtlv type (of_int n) data (xb_opts t) m
                   in (BCME_OK, Some (t\<lparr>xb_buf := nat (int (xb_buf t) + sz)\<rparr>), m)))"

text \<open>The 32 and 64 bit unaligned loads and stores of \<open>bcmendian.h\<close>.\<close>

definition ltoh32_ua :: "mem \<Rightarrow> ptr \<Rightarrow> u32" where
  "ltoh32_ua m a = ucast (m a) OR push_bit 8 (ucast (m (a + 1))) OR push_bit 16 (ucast (m (a + 2)))
     OR push_bit 24 (ucast (m (a + 3)))"

definition htol32_ua_store :: "u32 \<Rightarrow> ptr \<Rightarrow> mem \<Rightarrow> mem" where
  "htol32_ua_store v a m =
     m(a := ucast (v AND 0xff), a + 1 := ucast (drop_bit 8 v AND 0xff),
       a + 2 := ucast (drop_bit 16 v AND 0xff), a + 3 := ucast (drop_bit 24 v))"

definition ltoh64_ua :: "mem \<Rightarrow> ptr \<Rightarrow> u64" where
  "ltoh64_ua m a =
     ucast (m a) OR push_bit 8 (ucast (m (a + 1))) OR
     push_bit 16 (ucast (m (a + 2))) OR push_bit 24 (ucast (m (a + 3))) OR
     push_bit 32 (ucast (m (a + 4))) OR push_bit 40 (ucast (m (a + 5))) OR
     push_bit 48 (ucast (m (a + 6))) OR push_bit 56 (ucast (m (a + 7)))"

fun store64_loop :: "nat \<Rightarrow> u64 \<Rightarrow> ptr \<Rightarrow> mem \<Rightarrow> mem" where
  "store64_loop 0 v a m = m"
| "store64_loop (Suc k) v a m = store64_loop k (drop_bit 8 v) (a + 1) (m(a := ucast (v AND 0xff)))"

definition htol64_ua_store :: "u64 \<Rightarrow> ptr \<Rightarrow> mem \<Rightarrow> mem" where
  "htol64_ua_store v a m = store64_loop 8 v a m"

text \<open>\<open>for (; n != 0; --n, xtlv_data += int_sz, data += int_sz) switch (int_sz) ...\<close>: an element
  of one byte is skipped, an unknown sz is an error. A negative count does not reach 0.\<close>

partial_function (option) put_int_loop ::
    "int \<Rightarrow> nat \<Rightarrow> ptr \<Rightarrow> ptr \<Rightarrow> mem \<Rightarrow> (bcme \<times> mem) option" where
  "put_int_loop n int_sz xtlv_data data m =
     (if n = 0 then Some (BCME_OK, m)
      else if int_sz = 1 then
        put_int_loop (n - 1) int_sz (xtlv_data + int_sz) (data + int_sz) m
      else if int_sz = 2 then
        put_int_loop (n - 1) int_sz (xtlv_data + int_sz) (data + int_sz)
          (htol16_ua_store (of_nat (ltoh16_ua m data)) xtlv_data m)
      else if int_sz = 4 then
        put_int_loop (n - 1) int_sz (xtlv_data + int_sz) (data + int_sz)
          (htol32_ua_store (ltoh32_ua m data) xtlv_data m)
      else if int_sz = 8 then
        put_int_loop (n - 1) int_sz (xtlv_data + int_sz) (data + int_sz)
          (htol64_ua_store (ltoh64_ua m data) xtlv_data m)
      else Some (BCME_UNSUPPORTED, m))"

definition bcm_xtlv_put_int ::
    "bcm_xtlvbuf option \<Rightarrow> u16 \<Rightarrow> ptr \<Rightarrow> int \<Rightarrow> nat \<Rightarrow> mem
      \<Rightarrow> (bcme \<times> bcm_xtlvbuf option \<times> mem) option" where
  "bcm_xtlv_put_int tbuf type data n int_sz m =
     (case tbuf of
        None \<Rightarrow> Some (BCME_BADARG, tbuf, m)
      | Some t \<Rightarrow>
          (let xtlv = bcm_xtlv_buf tbuf;
               xtlv_len = n * int int_sz;
               (err, tbuf, m) = bcm_xtlv_put_data tbuf type NULL xtlv_len m
           in if err \<noteq> BCME_OK then Some (err, tbuf, m)
              else case put_int_loop n int_sz (nat (int xtlv + bcm_xtlv_hdr_size (xb_opts t))) data m of
                     None \<Rightarrow> None
                   | Some (err, m) \<Rightarrow> Some (err, tbuf, m)))"

definition bcm_xtlv_put16 where "bcm_xtlv_put16 tbuf type data n = bcm_xtlv_put_int tbuf type data n 2"
definition bcm_xtlv_put32 where "bcm_xtlv_put32 tbuf type data n = bcm_xtlv_put_int tbuf type data n 4"
definition bcm_xtlv_put64 where "bcm_xtlv_put64 tbuf type data n = bcm_xtlv_put_int tbuf type data n 8"

section \<open>Single records\<close>

definition bcm_unpack_xtlv_entry ::
    "ptr \<Rightarrow> u16 \<Rightarrow> u16 \<Rightarrow> ptr \<Rightarrow> bcm_xtlv_opts_t \<Rightarrow> mem \<Rightarrow> bcme \<times> ptr \<times> mem" where
  "bcm_unpack_xtlv_entry tlv_buf xpct_type xpct_len dst_data opts m =
     (let (type, len, data) = bcm_xtlv_unpack_xtlv m tlv_buf opts
      in if len \<noteq> 0 \<and> (type \<noteq> xpct_type \<or> len > xpct_len) then (BCME_BADARG, tlv_buf, m)
         else let m = (if len \<noteq> 0 \<and> dst_data \<noteq> NULL \<and> data \<noteq> NULL then memcpy dst_data data (unat len) m
                       else m)
              in (BCME_OK, nat (int tlv_buf + bcm_xtlv_size m tlv_buf opts), m))"

definition bcm_pack_xtlv_entry ::
    "ptr \<Rightarrow> u16 \<Rightarrow> u16 \<Rightarrow> u16 \<Rightarrow> ptr \<Rightarrow> bcm_xtlv_opts_t \<Rightarrow> mem \<Rightarrow> bcme \<times> ptr \<times> u16 \<times> mem" where
  "bcm_pack_xtlv_entry tlv_buf buflen type len src_data opts m =
     (let sz = bcm_xtlv_size_for_data (uint len) opts
      in if sz > uint buflen then (BCME_BADLEN, tlv_buf, buflen, m)
         else (BCME_OK, nat (int tlv_buf + sz), buflen - of_int sz,
               bcm_xtlv_pack_xtlv tlv_buf type len src_data opts m))"

definition bcm_xtlv_bcopy ::
    "ptr \<Rightarrow> ptr \<Rightarrow> int \<Rightarrow> int \<Rightarrow> bcm_xtlv_opts_t \<Rightarrow> mem \<Rightarrow> ptr \<times> mem" where
  "bcm_xtlv_bcopy src dst src_buf_len dst_buf_len opts m =
     (let src = (if src \<noteq> NULL \<and> bcm_valid_xtlv m src src_buf_len opts then src else NULL)
      in if src \<noteq> NULL \<and> dst \<noteq> NULL then
           (let (type, len, data) = bcm_xtlv_unpack_xtlv m src opts;
                sz = bcm_xtlv_size_for_data (uint len) opts
            in if sz \<le> dst_buf_len then
                 (nat (int dst + sz), bcm_xtlv_pack_xtlv dst type len data opts m)
               else (NULL, m))
         else (NULL, m))"

section \<open>Whole buffers\<close>

lemma bcm_xtlv_hdr_size_bounds: "2 \<le> bcm_xtlv_hdr_size opts" "bcm_xtlv_hdr_size opts \<le> 4"
  by (auto simp: bcm_xtlv_hdr_size_def)

lemma ALIGN_SIZE_4: "ALIGN_SIZE n 4 = (n + 3) div 4 * 4"
proof -
  have "(NOT 3 :: int) = - 4" by (simp add: not_int_def)
  moreover have "x AND - 4 = x div 4 * 4" for x :: int
  proof -
    have "x AND - 4 = x AND NOT (mask 2)" by (simp add: mask_eq_exp_minus_1 not_int_def)
    also have "\<dots> = push_bit 2 (drop_bit 2 x)" by (rule bit_eqI) (auto simp: bit_simps not_less simp flip: Suc_diff_le)
    finally show ?thesis by (simp add: push_bit_eq_mult drop_bit_eq_div)
  qed
  ultimately show ?thesis by (simp add: ALIGN_SIZE_def)
qed

lemma align4_ge: "(x :: int) \<le> (x + 3) div 4 * 4" "(x + 3) div 4 * 4 \<le> x + 3"
  by presburger+

lemma size_for_data_ge: "dlen + bcm_xtlv_hdr_size opts \<le> bcm_xtlv_size_for_data dlen opts"
  using align4_ge(1) [of "dlen + bcm_xtlv_hdr_size opts"]
  by (simp add: bcm_xtlv_size_for_data_def Let_def ALIGN_SIZE_4)

lemma size_for_data_le: "bcm_xtlv_size_for_data dlen opts \<le> dlen + bcm_xtlv_hdr_size opts + 3"
  using align4_ge(2) [of "dlen + bcm_xtlv_hdr_size opts"]
  by (simp add: bcm_xtlv_size_for_data_def Let_def ALIGN_SIZE_4)

lemma size_for_data_pos: "0 \<le> dlen \<Longrightarrow> 2 \<le> bcm_xtlv_size_for_data dlen opts"
  using size_for_data_ge [of dlen opts] bcm_xtlv_hdr_size_bounds(1) [of opts] by linarith

lemma bcm_xtlv_len_bounds: "0 \<le> bcm_xtlv_len m elt opts" "bcm_xtlv_len m elt opts < 65536"
proof -
  have u8: "uint b < 65536" for b :: u8
  proof -
    have "uint b < 2 ^ 8" using unsigned_less [of b, where 'a = int] by simp
    then show ?thesis by simp
  qed
  have "int (ltoh16_ua m a) < 65536" "int (ntoh16_ua m a) < 65536" for a
    using ltoh16_ua_less [of m a] ntoh16_ua_less [of m a] by linarith+
  with u8 show "bcm_xtlv_len m elt opts < 65536" by (simp add: bcm_xtlv_len_def Let_def)
qed (simp add: bcm_xtlv_len_def Let_def)

lemma bcm_xtlv_size_pos: "2 \<le> bcm_xtlv_size m elt opts"
  unfolding bcm_xtlv_size_def by (rule size_for_data_pos) (rule bcm_xtlv_len_bounds)

text \<open>The callback \<open>cbfn(ctx, data, type, len)\<close> returns a code and the new context.\<close>

function bcm_unpack_xtlv_buf ::
    "('c \<Rightarrow> ptr \<Rightarrow> u16 \<Rightarrow> u16 \<Rightarrow> bcme \<times> 'c) \<Rightarrow> mem \<Rightarrow> bcm_xtlv_opts_t \<Rightarrow> 'c \<Rightarrow> ptr \<Rightarrow> nat \<Rightarrow> bcme \<times> 'c" where
  "bcm_unpack_xtlv_buf cbfn m opts ctx tlv_buf sbuflen =
     (if int sbuflen \<ge> bcm_xtlv_hdr_size opts then
        (let (type, len, data) = bcm_xtlv_unpack_xtlv m tlv_buf opts;
             sz = nat (bcm_xtlv_size_for_data (uint len) opts)
         in if sbuflen < sz then (BCME_OK, ctx)
            else let (res, ctx) = cbfn ctx data type len
                 in if res \<noteq> BCME_OK then (res, ctx)
                    else bcm_unpack_xtlv_buf cbfn m opts ctx (tlv_buf + sz) (sbuflen - sz))
      else (BCME_OK, ctx))"
  by pat_completeness auto
termination
proof (relation "measure (\<lambda>(cbfn, m, opts, ctx, tlv_buf, sbuflen). sbuflen)", goal_cases)
  case (2 cbfn m opts ctx tlv_buf sbuflen x type y len data sz)
  then show ?case
    using bcm_xtlv_hdr_size_bounds(1) [of opts] size_for_data_pos [of "uint len" opts] by auto
qed simp

declare bcm_unpack_xtlv_buf.simps [simp del]

text \<open>\<open>get_next\<close> returns whether more records follow (\<open>cont\<close>, \<open>more\<close> in the code) and the next id and length; \<open>pack_next\<close> fills the
  record's data and may write memory. The result is the code, the length written and the memory.\<close>

function pack_buf_loop ::
    "('c \<Rightarrow> bool \<times> u16 \<times> u16 \<times> 'c) \<Rightarrow> ('c \<Rightarrow> u16 \<Rightarrow> u16 \<Rightarrow> ptr \<Rightarrow> mem \<Rightarrow> 'c \<times> mem)
      \<Rightarrow> bcm_xtlv_opts_t \<Rightarrow> ptr \<Rightarrow> bool \<Rightarrow> 'c \<Rightarrow> ptr \<Rightarrow> mem \<Rightarrow> bcme \<times> ptr \<times> 'c \<times> mem" where
  "pack_buf_loop get_next pack_next opts endp cont ctx buf m =
     (if cont \<and> buf < endp then
        (let (cont, tlv_id, tlv_len, ctx) = get_next ctx;
             sz = nat (bcm_xtlv_size_for_data (uint tlv_len) opts)
         in if buf + sz > endp then (BCME_BUFTOOSHORT, buf, ctx, m)
            else let m = bcm_xtlv_pack_xtlv buf tlv_id tlv_len NULL opts m;
                     (ctx, m) = pack_next ctx tlv_id tlv_len (buf + nat (bcm_xtlv_hdr_size opts)) m
                 in pack_buf_loop get_next pack_next opts endp cont ctx (buf + sz) m)
      else (if cont then BCME_BUFTOOSHORT else BCME_OK, buf, ctx, m))"
  by pat_completeness auto
termination
proof (relation "measure (\<lambda>(get_next, pack_next, opts, endp, cont, ctx, buf, m). endp - buf)", goal_cases)
  case (2 get_next pack_next opts endp cont ctx buf m x cont' y tlv_id z tlv_len ctx' sz m' u ctx'' m'')
  then show ?case using size_for_data_pos [of "uint tlv_len" opts] by auto
qed simp

declare pack_buf_loop.simps [simp del]

definition bcm_pack_xtlv_buf ::
    "('c \<Rightarrow> bool \<times> u16 \<times> u16 \<times> 'c) \<Rightarrow> ('c \<Rightarrow> u16 \<Rightarrow> u16 \<Rightarrow> ptr \<Rightarrow> mem \<Rightarrow> 'c \<times> mem)
      \<Rightarrow> 'c \<Rightarrow> ptr \<Rightarrow> u16 \<Rightarrow> bcm_xtlv_opts_t \<Rightarrow> mem \<Rightarrow> bcme \<times> int \<times> 'c \<times> mem" where
  "bcm_pack_xtlv_buf get_next pack_next ctx tlv_buf buflen opts m =
     (let (res, buf, ctx, m) =
        pack_buf_loop get_next pack_next opts (tlv_buf + unat buflen) True ctx tlv_buf m
      in (res, int buf - int tlv_buf, ctx, m))"

text \<open>\<open>xtlv_desc_t\<close>: an array of descriptors ends at the first one of type 0.\<close>

record xtlv_desc =
  xd_type :: u16
  xd_len :: u16
  xd_ptr :: ptr

fun bcm_pack_xtlv_buf_from_mem ::
    "ptr \<Rightarrow> u16 \<Rightarrow> xtlv_desc list \<Rightarrow> bcm_xtlv_opts_t \<Rightarrow> mem \<Rightarrow> bcme \<times> ptr \<times> u16 \<times> mem" where
  "bcm_pack_xtlv_buf_from_mem ptlv buflen [] opts m = (BCME_OK, ptlv, buflen, m)"
| "bcm_pack_xtlv_buf_from_mem ptlv buflen (it # items) opts m =
     (if xd_type it = 0 then (BCME_OK, ptlv, buflen, m)
      else if xd_len it \<noteq> 0 \<and> xd_ptr it \<noteq> NULL then
        (let (res, ptlv, buflen, m) =
               bcm_pack_xtlv_entry ptlv buflen (xd_type it) (xd_len it) (xd_ptr it) opts m
         in if res \<noteq> BCME_OK then (res, ptlv, buflen, m)
            else bcm_pack_xtlv_buf_from_mem ptlv buflen items opts m)
      else bcm_pack_xtlv_buf_from_mem ptlv buflen items opts m)"

text \<open>The inner loop: the first descriptor of the record's type takes its data.\<close>

fun desc_store :: "xtlv_desc list \<Rightarrow> u16 \<Rightarrow> u16 \<Rightarrow> ptr \<Rightarrow> mem \<Rightarrow> bcme \<times> mem" where
  "desc_store [] type len data m = (BCME_OK, m)"
| "desc_store (d # ds) type len data m =
     (if xd_type d = 0 then (BCME_OK, m)
      else if type = xd_type d then
        (if len \<noteq> xd_len d then (BCME_BADLEN, m) else (BCME_OK, memcpy (xd_ptr d) data (unat len) m))
      else desc_store ds type len data m)"

function unpack_to_mem_loop ::
    "xtlv_desc list \<Rightarrow> bcm_xtlv_opts_t \<Rightarrow> ptr \<Rightarrow> int \<Rightarrow> bcme \<Rightarrow> mem \<Rightarrow> bcme \<times> int \<times> mem" where
  "unpack_to_mem_loop items opts elt buflen res m =
     (if elt \<noteq> NULL \<and> res = BCME_OK then
        (let (type, len, data) = bcm_xtlv_unpack_xtlv m elt opts;
             (res, m) = desc_store items type len data m;
             (nxt, buflen') = bcm_next_xtlv m elt buflen opts
         in unpack_to_mem_loop items opts nxt buflen' res m)
      else (res, buflen, m))"
  by pat_completeness auto
termination
proof (relation "measures [\<lambda>(items, opts, elt, buflen, res, m). nat buflen,
    \<lambda>(items, opts, elt, buflen, res, m). if elt = NULL then 0 else 1]", goal_cases)
  case (2 items opts elt buflen res m x type y len data z res' m' w nxt buflen')
  then show ?case
    using bcm_xtlv_size_pos [of m' elt opts] bcm_xtlv_hdr_size_bounds(1) [of opts]
    by (auto simp: bcm_next_xtlv_def bcm_valid_xtlv_def Let_def split: if_splits)
qed simp

declare unpack_to_mem_loop.simps [simp del]

definition bcm_unpack_xtlv_buf_to_mem ::
    "ptr \<Rightarrow> int \<Rightarrow> xtlv_desc list option \<Rightarrow> bcm_xtlv_opts_t \<Rightarrow> mem \<Rightarrow> bcme \<times> int \<times> mem" where
  "bcm_unpack_xtlv_buf_to_mem tlv_buf buflen items opts m =
     (let elt = (if bcm_valid_xtlv m tlv_buf buflen opts then tlv_buf else NULL)
      in case items of
           None \<Rightarrow> (BCME_BADARG, buflen, m)
         | Some ds \<Rightarrow>
             if elt = NULL then (BCME_BADARG, buflen, m)
             else let (res, buflen, m) = unpack_to_mem_loop ds opts elt buflen BCME_OK m
                  in (if res = BCME_OK \<and> buflen \<noteq> 0 then BCME_BUFTOOSHORT else res, buflen, m))"

function get_data_loop :: "mem \<Rightarrow> u16 \<Rightarrow> bcm_xtlv_opts_t \<Rightarrow> ptr \<Rightarrow> nat \<Rightarrow> ptr \<times> u16" where
  "get_data_loop m i opts tlv_buf sbuflen =
     (if int sbuflen \<ge> bcm_xtlv_hdr_size opts then
        (let (type, len, data) = bcm_xtlv_unpack_xtlv m tlv_buf opts;
             sz = nat (bcm_xtlv_size_for_data (uint len) opts)
         in if sbuflen < sz then (NULL, 0)
            else if i = type then (data, len)
            else get_data_loop m i opts (tlv_buf + sz) (sbuflen - sz))
      else (NULL, 0))"
  by pat_completeness auto
termination
proof (relation "measure (\<lambda>(m, i, opts, tlv_buf, sbuflen). sbuflen)", goal_cases)
  case (2 m i opts tlv_buf sbuflen x type y len data sz)
  then show ?case
    using bcm_xtlv_hdr_size_bounds(1) [of opts] size_for_data_pos [of "uint len" opts] by auto
qed simp

declare get_data_loop.simps [simp del]

text \<open>The data pointer and \<open>*datalen\<close>, which is 0 when nothing is found.\<close>

definition bcm_get_data_from_xtlv_buf ::
    "mem \<Rightarrow> ptr \<Rightarrow> u16 \<Rightarrow> u16 \<Rightarrow> bcm_xtlv_opts_t \<Rightarrow> ptr \<times> u16" where
  "bcm_get_data_from_xtlv_buf m tlv_buf buflen i opts = get_data_loop m i opts tlv_buf (unat buflen)"

end
