(* ===== verification/Xtlv_Correct.thy ===== *)
theory Xtlv_Correct
  imports Xtlv
begin

text \<open>
  What the packing and unpacking of XTLV records guarantees: a packed record unpacks to the same
  type, length and data, packing writes only inside the space it reserved, a buffer packed from
  descriptors unpacks to exactly the packed records, searching a buffer stays inside it.
\<close>

section \<open>Options\<close>

lemma opt_or: "opt opts (f OR g) \<longleftrightarrow> opt opts f \<or> opt opts g"
  by (auto simp: opt_def bit.conj_disj_distrib or_eq_0_iff)

lemma opt_bits: "idu8 opts \<longleftrightarrow> bit opts 1" "lenu8 opts \<longleftrightarrow> bit opts 2"
  using and_exp_eq_0_iff_not_bit [of opts 1] and_exp_eq_0_iff_not_bit [of opts 2]
  by (simp_all add: opt_def BCM_XTLV_OPTION_IDU8_def BCM_XTLV_OPTION_LENU8_def)

lemma opt_both:
  "opts AND (BCM_XTLV_OPTION_IDU8 OR BCM_XTLV_OPTION_LENU8) = BCM_XTLV_OPTION_IDU8 OR BCM_XTLV_OPTION_LENU8
     \<longleftrightarrow> idu8 opts \<and> lenu8 opts"
proof -
  have six: "bit (6 :: u16) n \<longleftrightarrow> n = 1 \<or> n = 2" for n
    by (cases n; cases "n - 1"; cases "n - 2") (auto simp: bit_simps bit_numeral_rec split: nat.splits)
  have "opts AND 6 = 6 \<longleftrightarrow> bit opts 1 \<and> bit opts 2"
  proof
    assume "opts AND 6 = 6"
    then have "bit opts n \<and> bit (6 :: u16) n \<longleftrightarrow> bit (6 :: u16) n" for n by (metis bit_and_iff)
    from this [of 1] this [of 2] show "bit opts 1 \<and> bit opts 2" by (simp only: six) simp
  next
    assume "bit opts 1 \<and> bit opts 2"
    then show "opts AND 6 = 6" by (intro bit_eqI) (auto simp only: bit_and_iff six)
  qed
  then show ?thesis unfolding opt_bits by (simp add: BCM_XTLV_OPTION_IDU8_def BCM_XTLV_OPTION_LENU8_def)
qed

section \<open>One record\<close>

abbreviation hsz :: "bcm_xtlv_opts_t \<Rightarrow> nat" where
  "hsz opts \<equiv> nat (bcm_xtlv_hdr_size opts)"

text \<open>The header of a record and the bytes of data that follow it.\<close>

definition pack_hdr :: "ptr \<Rightarrow> u16 \<Rightarrow> u16 \<Rightarrow> bcm_xtlv_opts_t \<Rightarrow> mem \<Rightarrow> mem" where
  "pack_hdr x type len opts m =
     (let m = (if idu8 opts then m(x := ucast type) else htol16_ua_store type x m);
          lenp = (if idu8 opts then x + 1 else x + 2)
      in if lenu8 opts then m(lenp := ucast len) else htol16_ua_store len lenp m)"

definition dlen :: "u16 \<Rightarrow> bcm_xtlv_opts_t \<Rightarrow> nat" where
  "dlen len opts = unat (if lenu8 opts then len AND 0xff else len)"

lemma pack_xtlv_eq:
  "bcm_xtlv_pack_xtlv x type len data opts m =
     (if data = NULL then pack_hdr x type len opts m
      else memcpy (x + hsz opts) data (dlen len opts) (pack_hdr x type len opts m))"
  by (cases "idu8 opts"; cases "lenu8 opts")
    (simp_all add: bcm_xtlv_pack_xtlv_def opt_or opt_both pack_hdr_def dlen_def bcm_xtlv_hdr_size_def Let_def numeral_eq_Suc)

lemma pack_hdr_outside: "y < x \<or> x + hsz opts \<le> y \<Longrightarrow> pack_hdr x type len opts m y = m y"
  by (cases "idu8 opts"; cases "lenu8 opts")
    (auto simp: pack_hdr_def bcm_xtlv_hdr_size_def htol16_ua_store_def Let_def)

lemma pack_outside:
  "y < x \<or> x + hsz opts + (if data = NULL then 0 else dlen len opts) \<le> y \<Longrightarrow>
     bcm_xtlv_pack_xtlv x type len data opts m y = m y"
  by (auto simp: pack_xtlv_eq mem_simps pack_hdr_outside)

text \<open>Records whose fields fit the options: what \<open>bcm_xtlv_pack_xtlv\<close> can represent. It always
  writes little endian fields, so the big endian options are not among them.\<close>

definition fits :: "bcm_xtlv_opts_t \<Rightarrow> u16 \<Rightarrow> u16 \<Rightarrow> bool" where
  "fits opts type len \<longleftrightarrow>
     \<not> idbe opts \<and> \<not> lenbe opts \<and> (idu8 opts \<longrightarrow> unat type < 256) \<and> (lenu8 opts \<longrightarrow> unat len < 256)"

lemma uint_ucast_small: "unat (v :: u16) < 256 \<Longrightarrow> uint (ucast v :: u8) = uint v"
proof -
  assume "unat v < 256"
  then have "unat (ucast v :: u8) = unat v" by (simp add: unat_ucast_u8)
  then show ?thesis by (metis uint_nat)
qed

lemma dlen_fits: "fits opts type len \<Longrightarrow> dlen len opts = unat len"
proof -
  assume f: "fits opts type len"
  have "unat (len AND 0xff) = unat len" if "unat len < 256"
  proof -
    have "len AND 0xff = take_bit 8 len" by (simp add: take_bit_eq_mask mask_eq_exp_minus_1)
    then show ?thesis using that by (simp add: take_bit_eq_mod unat_mod)
  qed
  then show ?thesis using f by (simp add: dlen_def fits_def)
qed

lemma pack_hdr_fields:
  assumes "fits opts type len"
  shows "bcm_xtlv_id (pack_hdr x type len opts m) x opts = uint type"
    and "bcm_xtlv_len (pack_hdr x type len opts m) x opts = uint len"
proof -
  have nat16: "int (ltoh16_ua m' a) = uint v" if "ltoh16_ua m' a = unat v" for m' a and v :: u16
    by (simp only: that uint_nat)
  have two: "ltoh16_ua (htol16_ua_store w (a + 2) (htol16_ua_store v a m')) a = unat v"
    "ltoh16_ua ((htol16_ua_store v a m')(a + 2 := c)) a = unat v" for v w :: u16 and a m' c
    using ltoh16_store [of v a m'] by (simp_all add: ltoh16_ua_def htol16_ua_store_def)
  show "bcm_xtlv_id (pack_hdr x type len opts m) x opts = uint type"
    using assms two nat16
    by (cases "idu8 opts"; cases "lenu8 opts")
      (auto simp: bcm_xtlv_id_def pack_hdr_def fits_def Let_def uint_ucast_small htol16_ua_store_def)
  show "bcm_xtlv_len (pack_hdr x type len opts m) x opts = uint len"
    using assms nat16 ltoh16_store
    by (cases "idu8 opts"; cases "lenu8 opts")
      (auto simp: bcm_xtlv_len_def pack_hdr_def fits_def Let_def uint_ucast_small)
qed

text \<open>The header is read from \<open>hsz\<close> bytes, except for a one byte id with a big endian length.\<close>

lemma hdr_read_cong:
  assumes "\<And>y. x \<le> y \<Longrightarrow> y < x + hsz opts \<Longrightarrow> m y = m' y" and "\<not> (idu8 opts \<and> lenbe opts \<and> \<not> lenu8 opts)"
  shows "bcm_xtlv_id m x opts = bcm_xtlv_id m' x opts" "bcm_xtlv_len m x opts = bcm_xtlv_len m' x opts"
  using assms
  by (cases "idu8 opts"; cases "lenu8 opts"; simp add: bcm_xtlv_id_def bcm_xtlv_len_def Let_def
      bcm_xtlv_hdr_size_def ltoh16_ua_def ntoh16_ua_def)+

lemma hsz_bounds: "2 \<le> hsz opts" "hsz opts \<le> 4" "int (hsz opts) = bcm_xtlv_hdr_size opts"
  using bcm_xtlv_hdr_size_bounds [of opts] by linarith+

lemma unpack_data: "snd (snd (bcm_xtlv_unpack_xtlv m x opts)) = x + hsz opts"
  using bcm_xtlv_hdr_size_bounds(1) [of opts] by (simp add: bcm_xtlv_unpack_xtlv_def nat_add_distrib)

lemma unpack_cong:
  assumes "\<And>y. x \<le> y \<Longrightarrow> y < x + hsz opts \<Longrightarrow> m y = m' y" and "\<not> (idu8 opts \<and> lenbe opts \<and> \<not> lenu8 opts)"
  shows "bcm_xtlv_unpack_xtlv m x opts = bcm_xtlv_unpack_xtlv m' x opts"
  using hdr_read_cong [OF assms] by (simp add: bcm_xtlv_unpack_xtlv_def)

lemma pack_unpack:
  assumes f: "fits opts type len"
  shows "bcm_xtlv_unpack_xtlv (bcm_xtlv_pack_xtlv x type len data opts m) x opts = (type, len, x + hsz opts)"
proof -
  let ?h = "pack_hdr x type len opts m"
  have "bcm_xtlv_unpack_xtlv (bcm_xtlv_pack_xtlv x type len data opts m) x opts = bcm_xtlv_unpack_xtlv ?h x opts"
    using f by (intro unpack_cong) (auto simp: pack_xtlv_eq mem_simps fits_def)
  also have "\<dots> = (type, len, x + hsz opts)"
    using pack_hdr_fields [OF f, of x m] unpack_data [of ?h x opts] by (simp add: bcm_xtlv_unpack_xtlv_def)
  finally show ?thesis .
qed

lemma pack_bytes:
  assumes f: "fits opts type len" and data: "data \<noteq> NULL"
    and dj: "data + unat len \<le> x \<or> x + hsz opts + unat len \<le> data"
  shows "bytes (bcm_xtlv_pack_xtlv x type len data opts m) (x + hsz opts) (unat len) = bytes m data (unat len)"
proof -
  have "bytes (pack_hdr x type len opts m) data (unat len) = bytes m data (unat len)"
    using dj by (intro bytes_cong pack_hdr_outside) auto
  then show ?thesis using data by (simp add: pack_xtlv_eq dlen_fits [OF f] mem_simps)
qed

section \<open>Sequences of records\<close>

definition rsz :: "bcm_xtlv_opts_t \<Rightarrow> nat \<Rightarrow> nat" where
  "rsz opts n = nat (bcm_xtlv_size_for_data (int n) opts)"

fun total_size :: "bcm_xtlv_opts_t \<Rightarrow> (u16 \<times> u8 list) list \<Rightarrow> nat" where
  "total_size opts [] = 0"
| "total_size opts ((t, d) # es) = rsz opts (length d) + total_size opts es"

fun xtlvs_at :: "mem \<Rightarrow> bcm_xtlv_opts_t \<Rightarrow> ptr \<Rightarrow> (u16 \<times> u8 list) list \<Rightarrow> bool" where
  "xtlvs_at m opts a [] \<longleftrightarrow> True"
| "xtlvs_at m opts a ((t, d) # es) \<longleftrightarrow>
     bcm_xtlv_unpack_xtlv m a opts = (t, of_nat (length d), a + hsz opts) \<and> length d < 65536 \<and>
     bytes m (a + hsz opts) (length d) = d \<and> xtlvs_at m opts (a + rsz opts (length d)) es"

lemma rsz_ge: "hsz opts + n \<le> rsz opts n" "2 \<le> rsz opts n" "int (rsz opts n) = bcm_xtlv_size_for_data (int n) opts"
  using size_for_data_ge [of "int n" opts] bcm_xtlv_hdr_size_bounds(1) [of opts] by (auto simp: rsz_def)

lemma uint_of_nat_u16: "n < 65536 \<Longrightarrow> uint (of_nat n :: u16) = int n"
  by (simp only: uint_nat unat_of_nat_u16)

text \<open>The callbacks \<open>bcm_unpack_xtlv_buf\<close> makes on a sequence of records.\<close>

fun visit ::
    "('c \<Rightarrow> ptr \<Rightarrow> u16 \<Rightarrow> u16 \<Rightarrow> bcme \<times> 'c) \<Rightarrow> bcm_xtlv_opts_t \<Rightarrow> ptr \<Rightarrow> (u16 \<times> u8 list) list \<Rightarrow> 'c \<Rightarrow> bcme \<times> 'c" where
  "visit cb opts a [] ctx = (BCME_OK, ctx)"
| "visit cb opts a ((t, d) # es) ctx =
     (let (res, ctx) = cb ctx (a + hsz opts) t (of_nat (length d))
      in if res \<noteq> BCME_OK then (res, ctx) else visit cb opts (a + rsz opts (length d)) es ctx)"

lemma unpack_buf_visits:
  assumes "xtlvs_at m opts a es" and "r < hsz opts"
  shows "bcm_unpack_xtlv_buf cb m opts ctx a (total_size opts es + r) = visit cb opts a es ctx"
  using assms(1)
proof (induction es arbitrary: a ctx)
  case Nil
  have "\<not> bcm_xtlv_hdr_size opts \<le> int r" using assms(2) by linarith
  then show ?case by (simp add: bcm_unpack_xtlv_buf.simps)
next
  case (Cons e es)
  obtain t d where e: "e = (t, d)" by fastforce
  let ?n = "length d"
  have u: "bcm_xtlv_unpack_xtlv m a opts = (t, of_nat ?n, a + hsz opts)" and n: "?n < 65536"
    and rest: "xtlvs_at m opts (a + rsz opts ?n) es" using Cons.prems e by auto
  have h: "bcm_xtlv_hdr_size opts \<le> int (total_size opts (e # es) + r)"
    using rsz_ge(1) [of opts ?n] hsz_bounds(3) [of opts] by (simp add: e)
  have s: "nat (bcm_xtlv_size_for_data (uint (of_nat ?n :: u16)) opts) = rsz opts ?n"
    using n by (simp add: uint_of_nat_u16 rsz_def)
  show ?case
    using Cons.IH [OF rest] h
    by (subst bcm_unpack_xtlv_buf.simps) (simp add: u s e split: prod.split)
qed

lemma visit_collect:
  assumes "xtlvs_at m opts a es"
  shows "visit (\<lambda>ctx p t l. (BCME_OK, ctx @ [(t, bytes m p (unat l))])) opts a es ctx = (BCME_OK, ctx @ es)"
  using assms by (induction es arbitrary: a ctx) (auto simp: word_conv)

lemma xtlvs_at_append:
  "xtlvs_at m opts a (es @ fs) \<longleftrightarrow> xtlvs_at m opts a es \<and> xtlvs_at m opts (a + total_size opts es) fs"
  by (induction es arbitrary: a) (auto simp: add.assoc)

lemma xtlvs_at_cong:
  assumes "\<And>y. a \<le> y \<Longrightarrow> y < a + total_size opts es \<Longrightarrow> m y = m' y"
    and o: "\<not> (idu8 opts \<and> lenbe opts \<and> \<not> lenu8 opts)" and "xtlvs_at m opts a es"
  shows "xtlvs_at m' opts a es"
  using assms(1,3)
proof (induction es arbitrary: a)
  case (Cons e es)
  obtain t d where e: "e = (t, d)" by fastforce
  have g: "hsz opts + length d \<le> rsz opts (length d)" by (rule rsz_ge)
  have "bcm_xtlv_unpack_xtlv m a opts = bcm_xtlv_unpack_xtlv m' a opts"
    using Cons.prems(1) g by (intro unpack_cong [OF _ o]) (auto simp: e)
  moreover have "bytes m (a + hsz opts) (length d) = bytes m' (a + hsz opts) (length d)"
    using Cons.prems(1) g by (intro bytes_cong) (auto simp: e)
  moreover have "xtlvs_at m' opts (a + rsz opts (length d)) es"
    using Cons.prems e by (intro Cons.IH) auto
  ultimately show ?case using Cons.prems(2) e by simp
qed simp

section \<open>Packing from descriptors\<close>

text \<open>The descriptors that are packed, and the record each one stands for.\<close>

definition packed_items :: "xtlv_desc list \<Rightarrow> xtlv_desc list" where
  "packed_items items = filter (\<lambda>it. xd_len it \<noteq> 0 \<and> xd_ptr it \<noteq> NULL) (takeWhile (\<lambda>it. xd_type it \<noteq> 0) items)"

definition desc_rec :: "mem \<Rightarrow> xtlv_desc \<Rightarrow> u16 \<times> u8 list" where
  "desc_rec m it = (xd_type it, bytes m (xd_ptr it) (unat (xd_len it)))"

text \<open>What a caller has to provide: fields that fit the options and sources outside the buffer.\<close>

definition items_ok :: "bcm_xtlv_opts_t \<Rightarrow> ptr \<Rightarrow> nat \<Rightarrow> xtlv_desc list \<Rightarrow> bool" where
  "items_ok opts a n items \<longleftrightarrow>
     (\<forall>it\<in>set items. fits opts (xd_type it) (xd_len it) \<and>
        (xd_ptr it + unat (xd_len it) \<le> a \<or> a + n \<le> xd_ptr it))"

lemma packed_items_simps [simp]:
  "packed_items [] = []"
  "packed_items (it # items) = (if xd_type it = 0 then []
     else if xd_len it \<noteq> 0 \<and> xd_ptr it \<noteq> NULL then it # packed_items items else packed_items items)"
  by (auto simp: packed_items_def)

lemma pack_entry_ok:
  assumes "bcm_pack_xtlv_entry a buflen type len src opts m = (BCME_OK, a', buflen', m')"
  shows "a' = a + rsz opts (unat len) \<and> unat buflen' + rsz opts (unat len) = unat buflen \<and>
    m' = bcm_xtlv_pack_xtlv a type len src opts m"
proof -
  have sz: "bcm_xtlv_size_for_data (uint len) opts = int (rsz opts (unat len))"
    using rsz_ge(3) [of opts "unat len"] by (simp only: uint_nat)
  have le: "rsz opts (unat len) \<le> unat buflen"
    and eq: "a' = a + rsz opts (unat len)" "buflen' = buflen - of_nat (rsz opts (unat len))"
      "m' = bcm_xtlv_pack_xtlv a type len src opts m"
    using assms unfolding bcm_pack_xtlv_entry_def Let_def sz uint_nat [of buflen]
    by (auto split: if_splits simp del: of_nat_unat)
  have "unat (of_nat (rsz opts (unat len)) :: u16) = rsz opts (unat len)"
    using le unat_u16_less [of buflen] by (intro unat_of_nat_u16) linarith
  then have "unat buflen' = unat buflen - rsz opts (unat len)"
    using eq(2) le by (simp add: unat_sub word_le_nat_alt)
  then show ?thesis using eq le by simp
qed

lemma pack_items:
  assumes "bcm_pack_xtlv_buf_from_mem a buflen items opts m = (BCME_OK, a', buflen', m')"
    and "items_ok opts a (unat buflen) (packed_items items)"
  shows "xtlvs_at m' opts a (map (desc_rec m) (packed_items items)) \<and>
    a' = a + total_size opts (map (desc_rec m) (packed_items items)) \<and>
    unat buflen' + total_size opts (map (desc_rec m) (packed_items items)) = unat buflen \<and>
    (\<forall>y. y < a \<or> a' \<le> y \<longrightarrow> m' y = m y)"
  using assms
proof (induction items arbitrary: a buflen m)
  case (Cons it items)
  show ?case
  proof (cases "xd_type it \<noteq> 0 \<and> xd_len it \<noteq> 0 \<and> xd_ptr it \<noteq> NULL")
    case False
    show ?thesis
    proof (cases "xd_type it = 0")
      case True
      then show ?thesis using Cons.prems(1) by simp
    next
      case nz: False
      then have "packed_items (it # items) = packed_items items"
        "bcm_pack_xtlv_buf_from_mem a buflen items opts m = (BCME_OK, a', buflen', m')"
        using False Cons.prems(1) by auto
      then show ?thesis using Cons.IH [of a buflen m] Cons.prems(2) by presburger
    qed
  next
    case True
    let ?n = "unat (xd_len it)"
    obtain a1 b1 m1 where p: "bcm_pack_xtlv_entry a buflen (xd_type it) (xd_len it) (xd_ptr it) opts m
        = (BCME_OK, a1, b1, m1)" and rest: "bcm_pack_xtlv_buf_from_mem a1 b1 items opts m1 = (BCME_OK, a', buflen', m')"
      using Cons.prems(1) True by (auto split: prod.splits if_splits)
    note e = pack_entry_ok [OF p]
    have ok: "fits opts (xd_type it) (xd_len it)" "xd_ptr it + ?n \<le> a \<or> a + unat buflen \<le> xd_ptr it"
      and oks: "items_ok opts a (unat buflen) (packed_items items)"
      using Cons.prems(2) True by (auto simp: items_ok_def)
    have g: "hsz opts + ?n \<le> rsz opts ?n" by (rule rsz_ge)
    have out: "m1 y = m y" if "y < a \<or> a + rsz opts ?n \<le> y" for y
      using e that g dlen_fits [OF ok(1)] by (auto intro!: pack_outside split: if_splits)
    have out1: "bytes m1 (xd_ptr i) (unat (xd_len i)) = bytes m (xd_ptr i) (unat (xd_len i))"
      if "i \<in> set (packed_items items)" for i
      using that oks e by (intro bytes_cong out) (auto simp: items_ok_def)
    then have recs: "map (desc_rec m1) (packed_items items) = map (desc_rec m) (packed_items items)"
      by (simp add: desc_rec_def)
    have "items_ok opts a1 (unat b1) (packed_items items)"
      using oks e by (auto simp: items_ok_def)
    note ih = Cons.IH [OF rest this, unfolded recs]
    have "xtlvs_at m1 opts a [desc_rec m it]"
      using e ok g True by (auto simp: desc_rec_def pack_unpack intro!: pack_bytes)
    then have "xtlvs_at m' opts a [desc_rec m it]"
      using ih e ok(1) by (elim xtlvs_at_cong [rotated 2]) (auto simp: desc_rec_def fits_def)
    then show ?thesis using ih e True out by (auto simp: desc_rec_def [of m it] add.assoc)
  qed
qed simp

section \<open>Packing buffers\<close>

text \<open>The write position stays inside the buffer.\<close>

definition xb_ok :: "bcm_xtlvbuf \<Rightarrow> bool" where
  "xb_ok t \<longleftrightarrow> xb_head t \<le> xb_buf t \<and> xb_buf t \<le> xb_head t + unat (xb_size t)"

lemma buf_rlen:
  assumes "xb_ok t"
  shows "unat (bcm_xtlv_buf_rlen (Some t)) = xb_head t + unat (xb_size t) - xb_buf t"
proof -
  let ?k = "xb_buf t - xb_head t"
  have k: "?k \<le> unat (xb_size t)" "int (xb_buf t) - int (xb_head t) = int ?k"
    using assms by (auto simp: xb_ok_def)
  have "bcm_xtlv_buf_len (Some t) = of_nat ?k" unfolding bcm_xtlv_buf_len_def by (simp add: k(2))
  moreover have "unat (of_nat ?k :: u16) = ?k"
    using k(1) unat_u16_less [of "xb_size t"] by (intro unat_of_nat_u16) linarith
  ultimately have "unat (bcm_xtlv_buf_rlen (Some t)) = unat (xb_size t) - ?k"
    using k(1) by (simp add: bcm_xtlv_buf_rlen_def unat_sub word_le_nat_alt)
  then show ?thesis using assms by (simp add: xb_ok_def)
qed

lemma put_data_cases:
  assumes ok: "xb_ok t" and n: "n < 65536"
  shows "bcm_xtlv_put_data (Some t) type data (int n) m =
    (if xb_head t + unat (xb_size t) < xb_buf t + rsz (xb_opts t) n then (BCME_NOMEM, Some t, m)
     else (BCME_OK, Some (t\<lparr>xb_buf := xb_buf t + rsz (xb_opts t) n\<rparr>),
           bcm_xtlv_pack_xtlv (xb_buf t) type (of_nat n) data (xb_opts t) m))"
proof -
  have r: "uint (bcm_xtlv_buf_rlen (Some t)) = int (xb_head t + unat (xb_size t)) - int (xb_buf t)"
    using buf_rlen [OF ok] ok unfolding uint_nat by (simp add: xb_ok_def del: of_nat_unat)
  have "uint (bcm_xtlv_buf_rlen (Some t)) < int (rsz (xb_opts t) n) \<longleftrightarrow>
      xb_head t + unat (xb_size t) < xb_buf t + rsz (xb_opts t) n"
    unfolding r by linarith
  then show ?thesis
    by (simp add: bcm_xtlv_put_data_def Let_def bcm_xtlv_buf_def nat_int_add flip: rsz_ge(3))
qed

section \<open>Searching\<close>

lemma get_data_bounds:
  assumes "get_data_loop m i opts a n = (p, l)" and "p \<noteq> NULL"
  shows "a + hsz opts \<le> p \<and> p + unat l \<le> a + n"
  using assms
proof (induction m i opts a n rule: get_data_loop.induct)
  case (1 m i opts a n)
  obtain t len where u: "bcm_xtlv_unpack_xtlv m a opts = (t, len, a + hsz opts)"
    using unpack_data [of m a opts] by (metis prod.collapse)
  have sz: "nat (bcm_xtlv_size_for_data (uint len) opts) = rsz opts (unat len)"
    by (simp only: rsz_def uint_nat)
  have g: "hsz opts + unat len \<le> rsz opts (unat len)" by (rule rsz_ge)
  have unf: "get_data_loop m i opts a n =
      (if bcm_xtlv_hdr_size opts \<le> int n then
         if n < rsz opts (unat len) then (NULL, 0) else if i = t then (a + hsz opts, len)
         else get_data_loop m i opts (a + rsz opts (unat len)) (n - rsz opts (unat len))
       else (NULL, 0))"
    by (subst get_data_loop.simps) (simp add: u sz Let_def)
  have h: "bcm_xtlv_hdr_size opts \<le> int n" and le: "\<not> n < rsz opts (unat len)"
    using "1.prems" unfolding unf by (auto split: if_splits)
  show ?case
  proof (cases "i = t")
    case True
    then have "p = a + hsz opts" "l = len"
      using "1.prems"(1) h le unfolding unf by auto
    then show ?thesis using g le by simp
  next
    case False
    then have "get_data_loop m i opts (a + rsz opts (unat len)) (n - rsz opts (unat len)) = (p, l)"
      using "1.prems"(1) h le unfolding unf by auto
    from "1.IH" [OF h u [symmetric] refl refl sz [symmetric] le False this "1.prems"(2)]
    show ?thesis using le by linarith
  qed
qed

lemma get_data_finds:
  assumes "xtlvs_at m opts a es" and "r < hsz opts"
  shows "get_data_loop m i opts a (total_size opts es + r) =
    (case find (\<lambda>(t, d). t = i) es of
       None \<Rightarrow> (NULL, 0)
     | Some (t, d) \<Rightarrow> (a + total_size opts (takeWhile (\<lambda>(t, d). t \<noteq> i) es) + hsz opts, of_nat (length d)))"
  using assms(1)
proof (induction es arbitrary: a)
  case Nil
  have "\<not> bcm_xtlv_hdr_size opts \<le> int r" using assms(2) by linarith
  then show ?case by (simp add: get_data_loop.simps)
next
  case (Cons e es)
  obtain t d where e: "e = (t, d)" by fastforce
  let ?n = "length d"
  have u: "bcm_xtlv_unpack_xtlv m a opts = (t, of_nat ?n, a + hsz opts)" and n: "?n < 65536"
    and rest: "xtlvs_at m opts (a + rsz opts ?n) es" using Cons.prems e by auto
  have h: "bcm_xtlv_hdr_size opts \<le> int (total_size opts (e # es) + r)"
    using rsz_ge(1) [of opts ?n] hsz_bounds(3) [of opts] by (simp add: e)
  have s: "nat (bcm_xtlv_size_for_data (uint (of_nat ?n :: u16)) opts) = rsz opts ?n"
    using n by (simp add: uint_of_nat_u16 rsz_def)
  show ?case
    using Cons.IH [OF rest] h
    by (subst get_data_loop.simps) (auto simp: u s e add.assoc split: option.split prod.split)
qed

section \<open>Integers\<close>

lemma store16: "htol16_ua_store (of_nat (ltoh16_ua m s)) d m' = store_bytes d (bytes m s 2) m'"
proof -
  have "ltoh16_ua m s < 65536" by (rule ltoh16_ua_less)
  then have n: "unat (of_nat (ltoh16_ua m s) :: u16) = ltoh16_ua m s" by (rule unat_of_nat_u16)
  have "(ucast (of_nat (ltoh16_ua m s) :: u16) :: u8) = m s"
    unfolding word_unat_eq_iff unat_ucast_u8 n by (simp add: ltoh16_ua_def)
  moreover have "(ucast (drop_bit 8 (of_nat (ltoh16_ua m s) :: u16)) :: u8) = m (s + 1)"
    unfolding word_unat_eq_iff unat_ucast_u8 unat_drop8 n by (simp add: ltoh16_ua_def)
  ultimately show ?thesis
    by (simp add: htol16_ua_store_def bytes_def store_bytes_Cons numeral_2_eq_2)
qed

lemma bits_u8: "bit (b :: u8) n \<Longrightarrow> n < 8"
  using bit_imp_le_length [of b n] by simp

lemma ff_mask: "(255 :: u32) = mask 8"
  by (simp add: mask_eq_exp_minus_1)

lemma ltoh32_bytes:
  "ucast (ltoh32_ua m s AND 0xff) = m s" "ucast (drop_bit 8 (ltoh32_ua m s) AND 0xff) = m (s + 1)"
  "ucast (drop_bit 16 (ltoh32_ua m s) AND 0xff) = m (s + 2)" "ucast (drop_bit 24 (ltoh32_ua m s)) = m (s + 3)"
  unfolding ltoh32_ua_def by (rule bit_eqI; auto simp: bit_simps ff_mask dest: bits_u8)+

lemma store32: "htol32_ua_store (ltoh32_ua m s) d m' = store_bytes d (bytes m s 4) m'"
proof -
  have "bytes m s 4 = [m s, m (s + 1), m (s + 2), m (s + 3)]" by (simp add: bytes_def upt_rec eval_nat_numeral)
  moreover have "store_bytes d [b0, b1, b2, b3] m' = m'(d := b0, d + 1 := b1, d + 2 := b2, d + 3 := b3)"
    for b0 b1 b2 b3 by (simp add: store_bytes_Cons eval_nat_numeral)
  ultimately show ?thesis by (simp only: htol32_ua_store_def ltoh32_bytes)
qed

lemma ff_mask64: "(255 :: u64) = mask 8"
  by (simp add: mask_eq_exp_minus_1)

lemma ucast_low8: "(ucast (v AND 0xff) :: u8) = ucast (v :: u64)"
  unfolding ff_mask64 by (rule bit_eqI) (auto simp: bit_simps)

lemma store64_loop_bytes:
  "store64_loop k v a m = store_bytes a (map (\<lambda>i. ucast (drop_bit (8 * i) v)) [0..<k]) m"
proof (induction k arbitrary: v a m)
  case (Suc k)
  have "map (\<lambda>i. ucast (drop_bit (8 * i) v)) [0..<Suc k]
      = (ucast v :: u8) # map (\<lambda>i. ucast (drop_bit (8 * i) (drop_bit 8 v))) [0..<k]"
    by (simp add: map_upt_Suc add.commute del: upt_Suc)
  then show ?case using Suc by (simp add: store_bytes_Cons ucast_low8 fun_upd_def)
qed simp

lemma ltoh64_bytes:
  assumes "i < 8"
  shows "ucast (drop_bit (8 * i) (ltoh64_ua m s)) = m (s + i)"
proof -
  have "i \<in> {0, 1, 2, 3, 4, 5, 6, 7}" using assms by auto
  then show ?thesis
    unfolding ltoh64_ua_def by (elim insertE; simp; intro bit_eqI; auto simp: bit_simps dest: bits_u8)
qed

lemma store64: "htol64_ua_store (ltoh64_ua m s) d m' = store_bytes d (bytes m s 8) m'"
  unfolding htol64_ua_store_def store64_loop_bytes bytes_def
  by (intro arg_cong [where f = "\<lambda>bs. store_bytes d bs m'"] map_cong refl ltoh64_bytes) simp

lemma put_int_loop_copies:
  assumes "sz \<in> {2, 4, 8}" and "s + n * sz \<le> d \<or> d + n * sz \<le> s"
  shows "put_int_loop (int n) sz d s m = Some (BCME_OK, store_bytes d (bytes m s (n * sz)) m)"
  using assms(2)
proof (induction n arbitrary: d s m)
  case 0
  then show ?case by (simp add: put_int_loop.simps)
next
  case (Suc n)
  let ?m = "store_bytes d (bytes m s sz) m"
  have step: "put_int_loop (int (Suc n)) sz d s m = put_int_loop (int n) sz (d + sz) (s + sz) ?m"
    using assms(1) by (subst put_int_loop.simps) (auto simp: store16 store32 store64)
  have same: "bytes ?m (s + sz) (n * sz) = bytes m (s + sz) (n * sz)"
    using Suc.prems by (intro bytes_store_disjoint) auto
  have "put_int_loop (int n) sz (d + sz) (s + sz) ?m
      = Some (BCME_OK, store_bytes (d + sz) (bytes ?m (s + sz) (n * sz)) ?m)"
    using Suc.prems by (intro Suc.IH) auto
  also have "store_bytes (d + sz) (bytes ?m (s + sz) (n * sz)) ?m = store_bytes d (bytes m s (Suc n * sz)) m"
    by (simp add: same bytes_add store_bytes_append)
  finally show ?case using step by simp
qed

section \<open>Properties\<close>

text \<open>C6: a record packed with little endian options whose type and length fit their fields unpacks to
  the same type and length, its data area holds the source bytes, and no byte outside the record is
  written.\<close>

theorem xtlv_pack_unpack:
  assumes "fits opts type len" and "data \<noteq> NULL"
    and "data + unat len \<le> x \<or> x + hsz opts + unat len \<le> data"
  shows "bcm_xtlv_unpack_xtlv (bcm_xtlv_pack_xtlv x type len data opts m) x opts = (type, len, x + hsz opts) \<and>
    bytes (bcm_xtlv_pack_xtlv x type len data opts m) (x + hsz opts) (unat len) = bytes m data (unat len) \<and>
    (\<forall>y. y < x \<or> x + hsz opts + unat len \<le> y \<longrightarrow> bcm_xtlv_pack_xtlv x type len data opts m y = m y)"
  using pack_unpack [OF assms(1)] pack_bytes [OF assms] pack_outside dlen_fits [OF assms(1)]
  by (auto simp: assms(2))

theorem xtlv_pack_unpack_witness:
  "bcm_xtlv_unpack_xtlv (bcm_xtlv_pack_xtlv 100 7 3 50 2 (\<lambda>y. of_nat y)) 100 2 = (7, 3, 103) \<and>
    bytes (bcm_xtlv_pack_xtlv 100 7 3 50 2 (\<lambda>y. of_nat y)) 103 3 = [50, 51, 52]"
proof -
  have f: "fits 2 7 3" and h: "hsz 2 = 3"
    by (simp_all add: fits_def opt_def bcm_xtlv_hdr_size_def BCM_XTLV_OPTION_IDU8_def
        BCM_XTLV_OPTION_LENU8_def BCM_XTLV_OPTION_IDBE_def BCM_XTLV_OPTION_LENBE_def)
  have "unat (3 :: u16) = 3" by simp
  with xtlv_pack_unpack [OF f, of 50 100 "\<lambda>y. of_nat y"] h show ?thesis
    by (simp add: bytes_def upt_rec)
qed

text \<open>C7: a buffer packed from descriptors by \<open>bcm_pack_xtlv_buf_from_mem\<close> is read back by
  \<open>bcm_unpack_xtlv_buf\<close>: the callback is called once per packed descriptor, in order, with its type and
  its bytes.\<close>

theorem xtlv_buf_roundtrip:
  assumes "bcm_pack_xtlv_buf_from_mem a buflen items opts m = (BCME_OK, a', buflen', m')"
    and "items_ok opts a (unat buflen) (packed_items items)"
  shows "bcm_unpack_xtlv_buf (\<lambda>ctx p t l. (BCME_OK, ctx @ [(t, bytes m' p (unat l))])) m' opts [] a (a' - a)
    = (BCME_OK, map (\<lambda>it. (xd_type it, bytes m (xd_ptr it) (unat (xd_len it)))) (packed_items items))"
proof -
  note p = pack_items [OF assms]
  have "0 < hsz opts" using hsz_bounds(1) [of opts] by linarith
  from unpack_buf_visits [OF conjunct1 [OF p] this,
      of "\<lambda>ctx p t l. (BCME_OK, ctx @ [(t, bytes m' p (unat l))])" "[]"]
    visit_collect [OF conjunct1 [OF p], of "[]"] p
  show ?thesis by (simp add: desc_rec_def [abs_def])
qed

theorem xtlv_buf_roundtrip_witness:
  "\<exists>a' b' m'. bcm_pack_xtlv_buf_from_mem 100 32
      [\<lparr>xd_type = 1, xd_len = 2, xd_ptr = 10\<rparr>, \<lparr>xd_type = 9, xd_len = 1, xd_ptr = 20\<rparr>] 1 (\<lambda>y. of_nat y) = (BCME_OK, a', b', m') \<and>
    bcm_unpack_xtlv_buf (\<lambda>ctx p t l. (BCME_OK, ctx @ [(t, bytes m' p (unat l))])) m' 1 [] 100 (a' - 100)
      = (BCME_OK, [(1, [10, 11]), (9, [20])])"
proof -
  let ?items = "[\<lparr>xd_type = 1, xd_len = 2, xd_ptr = 10\<rparr>, \<lparr>xd_type = 9, xd_len = 1, xd_ptr = 20\<rparr>]"
  note opts = opt_def BCM_XTLV_OPTION_IDU8_def BCM_XTLV_OPTION_LENU8_def BCM_XTLV_OPTION_IDBE_def
    BCM_XTLV_OPTION_LENBE_def BCM_XTLV_OPTION_ALIGN32_def
  obtain a' b' m' where p: "bcm_pack_xtlv_buf_from_mem 100 32 ?items 1 (\<lambda>y. of_nat y) = (BCME_OK, a', b', m')"
    by (simp add: bcm_pack_xtlv_entry_def bcm_xtlv_size_for_data_def bcm_xtlv_hdr_size_def opts ALIGN_SIZE_4)
  have "items_ok 1 100 (unat (32 :: u16)) (packed_items ?items)"
    by (simp add: items_ok_def fits_def opts)
  from xtlv_buf_roundtrip [OF p this] p show ?thesis by (auto simp: bytes_def upt_rec)
qed

text \<open>C8: \<open>bcm_xtlv_put_data\<close> keeps the write position inside the buffer, writes only the bytes between
  the old and the new position, and changes nothing when it reports \<open>BCME_NOMEM\<close>, which it does
  exactly when the padded record does not fit.\<close>

theorem xtlv_put_data_safe:
  assumes ok: "xb_ok t" and n: "n < 65536" and f: "fits (xb_opts t) type (of_nat n)"
    and r: "bcm_xtlv_put_data (Some t) type data (int n) m = (e, tb, m')"
  shows "if xb_head t + unat (xb_size t) < xb_buf t + rsz (xb_opts t) n
    then e = BCME_NOMEM \<and> tb = Some t \<and> m' = m
    else e = BCME_OK \<and> tb = Some (t\<lparr>xb_buf := xb_buf t + rsz (xb_opts t) n\<rparr>) \<and>
      xb_ok (t\<lparr>xb_buf := xb_buf t + rsz (xb_opts t) n\<rparr>) \<and>
      (\<forall>y. y < xb_buf t \<or> xb_buf t + rsz (xb_opts t) n \<le> y \<longrightarrow> m' y = m y)"
proof -
  have "dlen (of_nat n) (xb_opts t) = n" using dlen_fits [OF f] n by (simp add: word_conv)
  then have "m' y = m y" if "m' = bcm_xtlv_pack_xtlv (xb_buf t) type (of_nat n) data (xb_opts t) m"
    "y < xb_buf t \<or> xb_buf t + rsz (xb_opts t) n \<le> y" for y
    using that rsz_ge(1) [of "xb_opts t" n] by (auto intro!: pack_outside split: if_splits)
  then show ?thesis using r ok unfolding put_data_cases [OF ok n] by (auto simp: xb_ok_def split: if_splits)
qed

theorem xtlv_put_data_safe_witness:
  "\<exists>tb m'. bcm_xtlv_put_data (Some \<lparr>xb_opts = 0, xb_size = 16, xb_head = 100, xb_buf = 100\<rparr>) 5 40 (int 3) (\<lambda>y. of_nat y)
      = (BCME_OK, tb, m') \<and> m' 107 = of_nat 107"
proof -
  let ?t = "\<lparr>xb_opts = 0, xb_size = 16, xb_head = 100, xb_buf = 100\<rparr>"
  have h: "bcm_xtlv_hdr_size 0 = 4" "rsz 0 3 = 7"
    by (simp_all add: rsz_def bcm_xtlv_size_for_data_def bcm_xtlv_hdr_size_def opt_def)
  have "xb_ok ?t" "fits (xb_opts ?t) 5 (of_nat 3)" by (simp_all add: xb_ok_def fits_def opt_def)
  moreover obtain e tb m' where r: "bcm_xtlv_put_data (Some ?t) 5 40 (int 3) (\<lambda>y. of_nat y) = (e, tb, m')"
    by (metis prod_cases3)
  ultimately have "e = BCME_OK \<and> m' 107 = of_nat 107"
    using xtlv_put_data_safe [OF _ _ _ r] by (simp add: h)
  then show ?thesis using r by blast
qed

text \<open>C9: \<open>bcm_get_data_from_xtlv_buf\<close> never returns data outside the buffer, whatever the bytes and
  the options are.\<close>

theorem xtlv_get_data_in_bounds:
  assumes "bcm_get_data_from_xtlv_buf m a buflen i opts = (p, l)" and "p \<noteq> NULL"
  shows "a + hsz opts \<le> p \<and> p + unat l \<le> a + unat buflen"
  using get_data_bounds assms unfolding bcm_get_data_from_xtlv_buf_def by blast

theorem xtlv_get_data_in_bounds_witness:
  "\<exists>p l. bcm_get_data_from_xtlv_buf (\<lambda>y. if y = 101 then 1 else 0) 100 3 0 6 = (p, l) \<and> p \<noteq> NULL \<and>
    p + unat l \<le> 103"
proof -
  have r: "bcm_get_data_from_xtlv_buf (\<lambda>y. if y = 101 then 1 else 0) 100 3 0 6 = (102, 1)"
    by (simp add: bcm_get_data_from_xtlv_buf_def get_data_loop.simps bcm_xtlv_unpack_xtlv_def
        bcm_xtlv_id_def bcm_xtlv_len_def bcm_xtlv_hdr_size_def bcm_xtlv_size_for_data_def opt_def
        BCM_XTLV_OPTION_IDU8_def BCM_XTLV_OPTION_LENU8_def BCM_XTLV_OPTION_ALIGN32_def)
  from xtlv_get_data_in_bounds [OF r] r show ?thesis by auto
qed

text \<open>On a well formed buffer with at most a partial header behind its records,
  \<open>bcm_get_data_from_xtlv_buf\<close> returns the data of the first record of the requested type, and \<open>NULL\<close>
  with length 0 when there is none.\<close>

theorem xtlv_get_data_first:
  assumes "xtlvs_at m opts a es" and "r < hsz opts" and "unat buflen = total_size opts es + r"
  shows "bcm_get_data_from_xtlv_buf m a buflen i opts =
    (case find (\<lambda>(t, d). t = i) es of
       None \<Rightarrow> (NULL, 0)
     | Some (t, d) \<Rightarrow> (a + total_size opts (takeWhile (\<lambda>(t, d). t \<noteq> i) es) + hsz opts, of_nat (length d)))"
  using get_data_finds [OF assms(1,2)] assms(3) by (simp add: bcm_get_data_from_xtlv_buf_def)

theorem xtlv_get_data_first_witness:
  "bcm_get_data_from_xtlv_buf (\<lambda>y. 0) 100 4 9 6 = (NULL, 0)"
proof -
  have o: "hsz 6 = 2" "rsz 6 0 = 2"
    by (simp_all add: rsz_def bcm_xtlv_size_for_data_def bcm_xtlv_hdr_size_def opt_def
      BCM_XTLV_OPTION_IDU8_def BCM_XTLV_OPTION_LENU8_def BCM_XTLV_OPTION_ALIGN32_def)
  have "xtlvs_at (\<lambda>y. 0) 6 100 [(0, []), (0, [])]"
    by (simp add: o bcm_xtlv_unpack_xtlv_def bcm_xtlv_id_def bcm_xtlv_len_def bcm_xtlv_hdr_size_def opt_def
      BCM_XTLV_OPTION_IDU8_def BCM_XTLV_OPTION_LENU8_def)
  from xtlv_get_data_first [OF this, of 0 4 9] show ?thesis by (simp add: o)
qed

text \<open>\<open>bcm_xtlv_put16\<close>, \<open>put32\<close> and \<open>put64\<close> end and append one record whose data are the \<open>n\<close> source
  integers in little endian order, when it fits; they write nothing outside the record.\<close>

theorem xtlv_put_ints:
  assumes ok: "xb_ok t" and sz: "sz \<in> {2, 4, 8}" and n: "n * sz < 65536"
    and f: "fits (xb_opts t) type (of_nat (n * sz))"
    and room: "xb_buf t + rsz (xb_opts t) (n * sz) \<le> xb_head t + unat (xb_size t)"
    and dj: "data + n * sz \<le> xb_buf t \<or> xb_buf t + rsz (xb_opts t) (n * sz) \<le> data"
  shows "\<exists>t' m'. bcm_xtlv_put_int (Some t) type data (int n) sz m = Some (BCME_OK, Some t', m') \<and> xb_ok t' \<and>
    xtlvs_at m' (xb_opts t) (xb_buf t) [(type, bytes m data (n * sz))] \<and>
    (\<forall>y. y < xb_buf t \<or> xb_buf t' \<le> y \<longrightarrow> m' y = m y)"
proof -
  let ?o = "xb_opts t" and ?x = "xb_buf t" and ?k = "n * sz"
  let ?h = "pack_hdr ?x type (of_nat ?k) ?o m"
  let ?m = "store_bytes (?x + hsz ?o) (bytes m data ?k) ?h"
  have g: "hsz ?o + ?k \<le> rsz ?o ?k" by (rule rsz_ge)
  have put: "bcm_xtlv_put_data (Some t) type NULL (int n * int sz) m
      = (BCME_OK, Some (t\<lparr>xb_buf := ?x + rsz ?o ?k\<rparr>), ?h)"
    using put_data_cases [OF ok n, of type NULL m] room by (simp add: pack_xtlv_eq)
  have "bytes ?h data ?k = bytes m data ?k" using dj g by (intro bytes_cong pack_hdr_outside) auto
  moreover have "put_int_loop (int n) sz (?x + hsz ?o) data ?h
      = Some (BCME_OK, store_bytes (?x + hsz ?o) (bytes ?h data ?k) ?h)"
    using dj g by (intro put_int_loop_copies [OF sz]) auto
  ultimately have "bcm_xtlv_put_int (Some t) type data (int n) sz m
      = Some (BCME_OK, Some (t\<lparr>xb_buf := ?x + rsz ?o ?k\<rparr>), ?m)"
    using put unpack_data [of m ?x ?o]
    by (simp add: bcm_xtlv_put_int_def bcm_xtlv_buf_def bcm_xtlv_unpack_xtlv_def)
  moreover have "bcm_xtlv_unpack_xtlv ?m ?x ?o = bcm_xtlv_unpack_xtlv ?h ?x ?o"
    using f by (intro unpack_cong) (auto simp: mem_simps fits_def)
  then have "xtlvs_at ?m ?o ?x [(type, bytes m data ?k)]"
    using pack_unpack [OF f, of ?x NULL m] n by (simp add: pack_xtlv_eq mem_simps)
  moreover have "?m y = m y" if "y < ?x \<or> ?x + rsz ?o ?k \<le> y" for y
    using that g by (subst store_bytes_outside) (auto intro!: pack_hdr_outside)
  ultimately show ?thesis using room ok by (auto simp: xb_ok_def)
qed

theorem xtlv_put_ints_witness:
  "\<exists>t' m'. bcm_xtlv_put_int (Some \<lparr>xb_opts = 0, xb_size = 16, xb_head = 100, xb_buf = 100\<rparr>) 5 40 (int 2) 4 (\<lambda>y. of_nat y)
      = Some (BCME_OK, Some t', m') \<and> xtlvs_at m' 0 100 [(5, [40, 41, 42, 43, 44, 45, 46, 47])]"
proof -
  let ?t = "\<lparr>xb_opts = 0, xb_size = 16, xb_head = 100, xb_buf = 100\<rparr>"
  have r: "rsz 0 8 = 12"
    by (simp add: rsz_def bcm_xtlv_size_for_data_def bcm_xtlv_hdr_size_def opt_def)
  have "xb_ok ?t" "fits (xb_opts ?t) 5 (of_nat (2 * 4))" by (simp_all add: xb_ok_def fits_def opt_def)
  from xtlv_put_ints [OF this(1) _ _ this(2), of 40 "\<lambda>y. of_nat y"] show ?thesis
    by (auto simp: r bytes_def upt_rec)
qed

text \<open>With a one byte id and a big endian length the length is read at the nominal offset 2, one byte
  behind the header and shifted by one: the record below has length 1 in its header bytes, and the
  code reads a length that depends on the byte after the header.\<close>

lemma xtlv_len_idu8_lenbe:
  "idu8 opts \<Longrightarrow> lenbe opts \<Longrightarrow> \<not> lenu8 opts \<Longrightarrow>
     hsz opts = 3 \<and> bcm_xtlv_len m x opts = 256 * uint (m (x + 2)) + uint (m (x + 3))"
  by (simp add: bcm_xtlv_len_def bcm_xtlv_hdr_size_def ntoh16_ua_def Let_def eval_nat_numeral)

end
