(* ===== verification/Tlv.thy ===== *)
theory Tlv
  imports Prelude
begin

text \<open>
  The 802.11 information elements (one byte tag, one byte length, value) of \<open>bcmutils.c\<close>: parsers,
  buffer cursors and writers. A length is a natural number (the code's 32 bit \<open>uint\<close>; every sum here
  is at most the buffer length or 257). Pointers are 64 bit: the one comparison that guards against
  the buffer wrapping the address space is written with the wrap. \<open>COV_*\<close> and \<open>GCC_*\<close> macros are
  annotations.
\<close>

section \<open>Elements\<close>

definition TLV_HDR_LEN :: nat where "TLV_HDR_LEN = 2"
definition BCM_TLV_MAX_DATA_SIZE :: nat where "BCM_TLV_MAX_DATA_SIZE = 255"
definition BCM_TLV_EXT_MAX_DATA_SIZE :: nat where "BCM_TLV_EXT_MAX_DATA_SIZE = 254"
definition DOT11_MNG_ID_EXT_ID :: nat where "DOT11_MNG_ID_EXT_ID = 255"
definition DOT11_MNG_VS_ID :: nat where "DOT11_MNG_VS_ID = 221"
definition DOT11_OUI_LEN :: nat where "DOT11_OUI_LEN = 3"

text \<open>\<open>elt->id\<close>, \<open>elt->len\<close> and \<open>elt->data[i]\<close>.\<close>

definition tlv_id :: "mem \<Rightarrow> ptr \<Rightarrow> nat" where "tlv_id m elt = unat (m elt)"
definition tlv_len :: "mem \<Rightarrow> ptr \<Rightarrow> nat" where "tlv_len m elt = unat (m (elt + 1))"
definition tlv_data :: "mem \<Rightarrow> ptr \<Rightarrow> nat \<Rightarrow> nat" where "tlv_data m elt i = unat (m (elt + 2 + i))"

definition BCM_TLV_SIZE :: "mem \<Rightarrow> ptr \<Rightarrow> nat" where
  "BCM_TLV_SIZE m tlv = (if tlv \<noteq> NULL then 2 + tlv_len m tlv else 0)"

definition bcm_valid_tlv :: "mem \<Rightarrow> ptr \<Rightarrow> nat \<Rightarrow> bool" where
  "bcm_valid_tlv m elt buflen \<longleftrightarrow> elt \<noteq> NULL \<and> buflen \<ge> 2 \<and> buflen \<ge> 2 + tlv_len m elt"

section \<open>Cursors\<close>

definition bcm_next_tlv :: "mem \<Rightarrow> ptr \<Rightarrow> nat \<Rightarrow> ptr \<times> nat" where
  "bcm_next_tlv m elt buflen =
     (if \<not> bcm_valid_tlv m elt buflen then (NULL, buflen)
      else let len = TLV_HDR_LEN + tlv_len m elt;
               elt = elt + len;
               buflen = buflen - len
           in if \<not> bcm_valid_tlv m elt buflen then (NULL, buflen) else (elt, buflen))"

definition bcm_tlv_buffer_advance_to :: "mem \<Rightarrow> ptr \<Rightarrow> ptr \<times> nat \<Rightarrow> ptr \<times> nat" where
  "bcm_tlv_buffer_advance_to m elt bl =
     (let (buffer, buflen) = bl; new_buffer = elt
      in if buffer \<noteq> NULL \<and> buffer < (buffer + buflen) mod 2 ^ 64 \<and> new_buffer \<ge> buffer \<and>
            new_buffer < buffer + buflen
         then let delta = new_buffer - buffer;
                  new_buflen = buflen - delta
              in if bcm_valid_tlv m elt new_buflen then (new_buffer, new_buflen) else (NULL, 0)
         else (NULL, 0))"

definition bcm_tlv_buffer_advance_past :: "mem \<Rightarrow> ptr \<Rightarrow> ptr \<times> nat \<Rightarrow> ptr \<times> nat" where
  "bcm_tlv_buffer_advance_past m elt bl =
     (let (buffer, buflen) = bcm_tlv_buffer_advance_to m elt bl
      in if buflen = 0 then (buffer, buflen)
         else let elt = elt + 2 + tlv_len m elt
              in bcm_tlv_buffer_advance_to m elt (buffer, buflen))"

section \<open>Parsers\<close>

function parse_tlvs_loop :: "mem \<Rightarrow> nat \<Rightarrow> ptr \<Rightarrow> nat \<Rightarrow> ptr" where
  "parse_tlvs_loop m key elt totlen =
     (if totlen \<ge> TLV_HDR_LEN then
        (let len = tlv_len m elt
         in if totlen < len + TLV_HDR_LEN then NULL
            else if tlv_id m elt = key \<or>
                    (tlv_id m elt = DOT11_MNG_ID_EXT_ID \<and> len > 0 \<and>
                     tlv_data m elt 0 + DOT11_MNG_ID_EXT_ID = key)
            then elt
            else parse_tlvs_loop m key (elt + (len + TLV_HDR_LEN)) (totlen - (len + TLV_HDR_LEN)))
      else NULL)"
  by pat_completeness auto
termination
  by (relation "measure (\<lambda>(m, key, elt, totlen). totlen)") (auto simp: TLV_HDR_LEN_def)

definition bcm_parse_tlvs :: "mem \<Rightarrow> ptr \<Rightarrow> nat \<Rightarrow> nat \<Rightarrow> ptr" where
  "bcm_parse_tlvs m buf buflen key = (if buf = NULL then NULL else parse_tlvs_loop m key buf buflen)"

datatype bcm_tlv_advance_mode = BCM_TLV_ADVANCE_NONE | BCM_TLV_ADVANCE_TO | BCM_TLV_ADVANCE_PAST

definition bcm_parse_tlvs_advance ::
    "mem \<Rightarrow> ptr \<times> nat \<Rightarrow> nat \<Rightarrow> bcm_tlv_advance_mode \<Rightarrow> ptr \<times> ptr \<times> nat" where
  "bcm_parse_tlvs_advance m bl key adv =
     (let elt = bcm_parse_tlvs m (fst bl) (snd bl) key
      in if elt = NULL then (elt, bl)
         else case adv of
                BCM_TLV_ADVANCE_TO \<Rightarrow> (elt, bcm_tlv_buffer_advance_to m elt bl)
              | BCM_TLV_ADVANCE_PAST \<Rightarrow> (elt, bcm_tlv_buffer_advance_past m elt bl)
              | BCM_TLV_ADVANCE_NONE \<Rightarrow> (elt, bl))"

function bcm_parse_tlvs_dot11 :: "mem \<Rightarrow> ptr \<Rightarrow> nat \<Rightarrow> nat \<Rightarrow> bool \<Rightarrow> ptr" where
  "bcm_parse_tlvs_dot11 m elt totlen key id_ext =
     (if totlen \<ge> TLV_HDR_LEN then
        (let len = tlv_len m elt
         in if totlen < len + TLV_HDR_LEN then NULL
            else if (if id_ext then tlv_id m elt = DOT11_MNG_ID_EXT_ID \<and> tlv_len m elt > 0 \<and>
                                    key = tlv_data m elt 0
                     else tlv_id m elt = key)
            then elt
            else bcm_parse_tlvs_dot11 m (elt + (len + TLV_HDR_LEN)) (totlen - (len + TLV_HDR_LEN)) key id_ext)
      else NULL)"
  by pat_completeness auto
termination
  by (relation "measure (\<lambda>(m, elt, totlen, key, id_ext). totlen)") (auto simp: TLV_HDR_LEN_def)

definition bcm_parse_tlvs_min_bodylen :: "mem \<Rightarrow> ptr \<Rightarrow> nat \<Rightarrow> nat \<Rightarrow> nat \<Rightarrow> ptr" where
  "bcm_parse_tlvs_min_bodylen m buf buflen key min_bodylen =
     (let ret = bcm_parse_tlvs m buf buflen key
      in if ret = NULL \<or> tlv_len m ret < min_bodylen then NULL else ret)"

definition bcm_parse_tlvs_minmax_len :: "mem \<Rightarrow> ptr \<Rightarrow> nat \<Rightarrow> nat \<Rightarrow> nat \<Rightarrow> nat \<Rightarrow> ptr" where
  "bcm_parse_tlvs_minmax_len m buf buflen key min_len max_len =
     (let ret = bcm_parse_tlvs m buf buflen key
      in if ret = NULL \<or> BCM_TLV_SIZE m ret > max_len \<or> BCM_TLV_SIZE m ret < min_len then NULL else ret)"

function bcm_parse_ordered_tlvs :: "mem \<Rightarrow> ptr \<Rightarrow> nat \<Rightarrow> nat \<Rightarrow> ptr" where
  "bcm_parse_ordered_tlvs m elt totlen key =
     (if totlen \<ge> TLV_HDR_LEN then
        (let i = tlv_id m elt; len = tlv_len m elt
         in if i > key then NULL
            else if totlen < len + TLV_HDR_LEN then NULL
            else if i = key then elt
            else bcm_parse_ordered_tlvs m (elt + (len + TLV_HDR_LEN)) (totlen - (len + TLV_HDR_LEN)) key)
      else NULL)"
  by pat_completeness auto
termination
  by (relation "measure (\<lambda>(m, elt, totlen, key). totlen)") (auto simp: TLV_HDR_LEN_def)

declare parse_tlvs_loop.simps [simp del] bcm_parse_tlvs_dot11.simps [simp del]
  bcm_parse_ordered_tlvs.simps [simp del]

text \<open>\<open>*buffer\<close> and \<open>*buflen\<close>; the length is a \<open>uint8\<close>.\<close>

definition bcm_tlv_sub_buffer :: "mem \<Rightarrow> ptr \<Rightarrow> nat \<Rightarrow> ptr \<times> nat" where
  "bcm_tlv_sub_buffer m elt body_offset =
     (if tlv_len m elt > body_offset then
        (elt + 2 + body_offset, (tlv_len m elt - body_offset) mod 256)
      else (NULL, 0))"

section \<open>Vendor elements\<close>

lemma advance_to_le: "snd (bcm_tlv_buffer_advance_to m elt bl) \<le> snd bl"
  by (auto simp: bcm_tlv_buffer_advance_to_def Let_def split: prod.splits)

lemma advance_past_less:
  "snd bl \<noteq> 0 \<Longrightarrow> snd (bcm_tlv_buffer_advance_past m elt bl) < snd bl"
  by (auto simp: bcm_tlv_buffer_advance_past_def bcm_tlv_buffer_advance_to_def Let_def
      split: prod.splits if_splits)

lemma advance_to_past_less:
  assumes "snd bl \<noteq> 0"
  shows "snd (bcm_tlv_buffer_advance_past m elt' (bcm_tlv_buffer_advance_to m elt bl)) < snd bl"
proof (cases "snd (bcm_tlv_buffer_advance_to m elt bl) = 0")
  case True
  then show ?thesis using assms
    by (auto simp: bcm_tlv_buffer_advance_past_def bcm_tlv_buffer_advance_to_def Let_def split: prod.splits if_splits)
next
  case False
  from advance_past_less [OF this] advance_to_le [of m elt bl] show ?thesis by (meson le_less_trans less_le_trans)
qed

lemma parse_tlvs_0: "bcm_parse_tlvs m buf 0 key = NULL"
  by (simp add: bcm_parse_tlvs_def parse_tlvs_loop.simps TLV_HDR_LEN_def)

lemma parse_advance_to_found:
  assumes "bcm_parse_tlvs_advance m (b, n) key BCM_TLV_ADVANCE_TO = (ie, bl)" and "ie \<noteq> NULL"
  shows "ie = bcm_parse_tlvs m b n key \<and> n \<noteq> 0 \<and> bl = bcm_tlv_buffer_advance_to m ie (b, n)"
proof -
  have e: "ie = bcm_parse_tlvs m b n key \<and> bl = bcm_tlv_buffer_advance_to m ie (b, n)"
    using assms by (auto simp: bcm_parse_tlvs_advance_def Let_def split: if_splits)
  moreover have "n \<noteq> 0"
  proof
    assume "n = 0"
    then show False using e assms(2) parse_tlvs_0 by simp
  qed
  ultimately show ?thesis by blast
qed

function bcm_find_ie :: "mem \<Rightarrow> ptr \<Rightarrow> nat \<Rightarrow> nat \<Rightarrow> nat \<Rightarrow> ptr \<Rightarrow> nat \<Rightarrow> ptr" where
  "bcm_find_ie m tlvs tlvs_len tag oui_len oui type =
     (let (ie, bl) = bcm_parse_tlvs_advance m (tlvs, tlvs_len) tag BCM_TLV_ADVANCE_TO
      in if ie = NULL then NULL
         else if tlv_len m ie > oui_len \<and> bytes m (ie + 2) oui_len = bytes m oui oui_len \<and>
                 tlv_data m ie oui_len = type
         then ie
         else let (tlvs, tlvs_len) = bcm_tlv_buffer_advance_past m ie bl
              in bcm_find_ie m tlvs tlvs_len tag oui_len oui type)"
  by pat_completeness auto
termination
proof (relation "measure (\<lambda>(m, tlvs, tlvs_len, tag, oui_len, oui, type). tlvs_len)", goal_cases)
  case (2 m tlvs tlvs_len tag oui_len oui type x ie bl y tlvs' tlvs_len')
  have p: "bcm_parse_tlvs_advance m (tlvs, tlvs_len) tag BCM_TLV_ADVANCE_TO = (ie, bl)" "ie \<noteq> NULL"
    "bcm_tlv_buffer_advance_past m ie bl = (tlvs', tlvs_len')"
    using 2(1,2,3,5,6) by simp_all
  have f: "tlvs_len \<noteq> 0" "bl = bcm_tlv_buffer_advance_to m ie (tlvs, tlvs_len)"
    using parse_advance_to_found [OF p(1,2)] by blast+
  have "tlvs_len' < tlvs_len"
    using advance_to_past_less [of "(tlvs, tlvs_len)" m ie ie] f(1) p(3) unfolding f(2) by simp
  then show ?case by simp
qed simp

text \<open>The \<open>do ... while\<close> loop after the first element was validated.\<close>

function find_vendor_loop :: "mem \<Rightarrow> ptr \<Rightarrow> nat \<Rightarrow> ptr \<Rightarrow> ptr \<Rightarrow> nat \<Rightarrow> ptr" where
  "find_vendor_loop m ie tlvs_len voui type type_len =
     (if tlv_id m ie = DOT11_MNG_VS_ID \<and> tlv_len m ie \<ge> DOT11_OUI_LEN + type_len \<and>
         bytes m (ie + 2) DOT11_OUI_LEN = bytes m voui DOT11_OUI_LEN \<and>
         (type_len = 0 \<or> bytes m (ie + 2 + DOT11_OUI_LEN) type_len = bytes m type type_len)
      then ie
      else let (nxt, tlvs_len') = bcm_next_tlv m ie tlvs_len
           in if nxt \<noteq> NULL then find_vendor_loop m nxt tlvs_len' voui type type_len else NULL)"
  by pat_completeness auto
termination
  by (relation "measure (\<lambda>(m, ie, tlvs_len, voui, type, type_len). tlvs_len)")
    (auto simp: bcm_next_tlv_def bcm_valid_tlv_def TLV_HDR_LEN_def Let_def split: if_splits)

declare bcm_find_ie.simps [simp del] find_vendor_loop.simps [simp del]

definition bcm_find_vendor_ie :: "mem \<Rightarrow> ptr \<Rightarrow> nat \<Rightarrow> ptr \<Rightarrow> ptr \<Rightarrow> nat \<Rightarrow> ptr" where
  "bcm_find_vendor_ie m tlvs tlvs_len voui type type_len =
     (if tlvs = NULL \<or> \<not> bcm_valid_tlv m tlvs tlvs_len then NULL
      else find_vendor_loop m tlvs tlvs_len voui type type_len)"

section \<open>Writers\<close>

definition bcm_write_tlv :: "nat \<Rightarrow> ptr \<Rightarrow> nat \<Rightarrow> ptr \<Rightarrow> mem \<Rightarrow> ptr \<times> mem" where
  "bcm_write_tlv type data datalen dst m =
     (if dst \<noteq> NULL \<and> datalen \<le> BCM_TLV_MAX_DATA_SIZE \<and> (data \<noteq> NULL \<or> datalen = 0) then
        (let m = m(dst := of_nat type, dst + 1 := of_nat datalen);
             m = (if datalen > 0 then memcpy (dst + 2) data datalen m else m)
         in (dst + 2 + datalen, m))
      else (dst, m))"

definition bcm_write_tlv_ext :: "u8 \<Rightarrow> u8 \<Rightarrow> ptr \<Rightarrow> nat \<Rightarrow> ptr \<Rightarrow> mem \<Rightarrow> ptr \<times> mem" where
  "bcm_write_tlv_ext type ext data datalen dst m =
     (if dst \<noteq> NULL \<and> datalen \<le> BCM_TLV_EXT_MAX_DATA_SIZE \<and> (data \<noteq> NULL \<or> datalen = 0) then
        (let m = m(dst := type, dst + 2 := ext, dst + 1 := 1 + of_nat datalen);
             m = (if datalen > 0 then memcpy (dst + 3) data datalen m else m)
         in (dst + 3 + datalen, m))
      else (dst, m))"

definition bcm_write_tlv_safe :: "nat \<Rightarrow> ptr \<Rightarrow> nat \<Rightarrow> ptr \<Rightarrow> nat \<Rightarrow> mem \<Rightarrow> ptr \<times> mem" where
  "bcm_write_tlv_safe type data datalen dst dst_maxlen m =
     (if datalen \<le> BCM_TLV_MAX_DATA_SIZE then
        (if datalen + 2 \<le> dst_maxlen then bcm_write_tlv type data datalen dst m else (dst, m))
      else (dst, m))"

definition bcm_copy_tlv :: "ptr \<Rightarrow> ptr \<Rightarrow> mem \<Rightarrow> ptr \<times> mem" where
  "bcm_copy_tlv src dst m =
     (if dst \<noteq> NULL \<and> src \<noteq> NULL then
        (let totlen = 2 + tlv_len m src in (dst + totlen, memcpy dst src totlen m))
      else (dst, m))"

definition bcm_copy_tlv_safe :: "ptr \<Rightarrow> ptr \<Rightarrow> nat \<Rightarrow> mem \<Rightarrow> ptr \<times> mem" where
  "bcm_copy_tlv_safe src dst dst_maxlen m =
     (if bcm_valid_tlv m src dst_maxlen then bcm_copy_tlv src dst m else (dst, m))"

end
