(* ===== verification/Tlv_Correct.thy ===== *)
theory Tlv_Correct
  imports Tlv
begin

text \<open>
  The parsers against a reference that decodes the buffer's bytes into a list of elements: every
  parser returns the first matching element of that list, and so reads nothing outside the buffer.
  The loops share the locale \<open>tlv_scan\<close>. Writers produce bytes that decode to what was written.
\<close>

section \<open>The elements of a byte string\<close>

fun tlv_list :: "u8 list \<Rightarrow> (nat \<times> u8 list) list" where
  "tlv_list (i # l # rest) =
     (if unat l \<le> length rest then (unat i, take (unat l) rest) # tlv_list (drop (unat l) rest) else [])"
| "tlv_list [i] = []"
| "tlv_list [] = []"

fun find_off :: "(nat \<times> u8 list \<Rightarrow> bool) \<Rightarrow> (nat \<times> u8 list) list \<Rightarrow> nat option" where
  "find_off P [] = None"
| "find_off P (e # es) = (if P e then Some 0 else map_option ((+) (2 + length (snd e))) (find_off P es))"

text \<open>The address of an offset in a buffer, \<open>NULL\<close> for none.\<close>

definition at_off :: "ptr \<Rightarrow> nat option \<Rightarrow> ptr" where
  "at_off a r = (case r of None \<Rightarrow> NULL | Some k \<Rightarrow> a + k)"

lemma take_bytes: "k \<le> n \<Longrightarrow> take k (bytes m a n) = bytes m a k"
  by (rule nth_equalityI) auto

lemma drop_bytes: "drop k (bytes m a n) = bytes m (a + k) (n - k)"
  by (rule nth_equalityI) (auto simp: add.assoc)

lemma tlv_list_bytes:
  "tlv_list (bytes m a n) =
     (if 2 \<le> n \<and> tlv_len m a + 2 \<le> n then
        (tlv_id m a, bytes m (a + 2) (tlv_len m a)) #
          tlv_list (bytes m (a + (tlv_len m a + 2)) (n - (tlv_len m a + 2)))
      else [])"
proof (cases "2 \<le> n")
  case True
  then obtain k where n: "n = Suc (Suc k)" using le_Suc_ex [OF True] by auto
  have "bytes m a n = m a # m (a + 1) # bytes m (a + 2) k" by (simp add: n bytes_Suc)
  moreover have "a + (tlv_len m a + 2) = a + 2 + tlv_len m a" "n - (tlv_len m a + 2) = k - tlv_len m a"
    "2 \<le> n \<and> tlv_len m a + 2 \<le> n \<longleftrightarrow> tlv_len m a \<le> k" by (auto simp: n)
  ultimately show ?thesis
    by (simp only: tlv_list.simps length_bytes drop_bytes tlv_id_def tlv_len_def [symmetric])
      (simp add: take_bytes)
next
  case False
  then have "n = 0 \<or> n = Suc 0" by auto
  then show ?thesis by (auto simp: bytes_Suc)
qed

section \<open>Scanning loops\<close>

text \<open>A loop that walks the elements of a buffer and returns the first one its test accepts, \<open>NULL\<close>
  when the next element does not fit.\<close>

locale tlv_scan =
  fixes m :: mem and loop :: "ptr \<Rightarrow> nat \<Rightarrow> ptr" and P :: "nat \<times> u8 list \<Rightarrow> bool"
  assumes loop_eq: "a \<noteq> NULL \<Longrightarrow> loop a n =
    (if 2 \<le> n \<and> tlv_len m a + 2 \<le> n then
       if P (tlv_id m a, bytes m (a + 2) (tlv_len m a)) then a
       else loop (a + (tlv_len m a + 2)) (n - (tlv_len m a + 2))
     else NULL)"
begin

lemma loop_finds: "a \<noteq> NULL \<Longrightarrow> loop a n = at_off a (find_off P (tlv_list (bytes m a n)))"
proof (induction n arbitrary: a rule: less_induct)
  case (less n)
  let ?k = "tlv_len m a + 2"
  show ?case
  proof (cases "2 \<le> n \<and> ?k \<le> n \<and> \<not> P (tlv_id m a, bytes m (a + 2) (tlv_len m a))")
    case True
    have "loop (a + ?k) (n - ?k) = at_off (a + ?k) (find_off P (tlv_list (bytes m (a + ?k) (n - ?k))))"
      using True less.prems by (intro less.IH) auto
    then show ?thesis using True less.prems
      by (subst loop_eq, simp, subst tlv_list_bytes) (auto simp: at_off_def split: option.splits)
  next
    case False
    then show ?thesis using less.prems
      by (subst loop_eq, simp, subst tlv_list_bytes) (auto simp: at_off_def)
  qed
qed

end

definition parse_match :: "nat \<Rightarrow> nat \<times> u8 list \<Rightarrow> bool" where
  "parse_match key e \<longleftrightarrow> fst e = key \<or> (fst e = 255 \<and> snd e \<noteq> [] \<and> unat (hd (snd e)) + 255 = key)"

definition dot11_match :: "nat \<Rightarrow> bool \<Rightarrow> nat \<times> u8 list \<Rightarrow> bool" where
  "dot11_match key id_ext e \<longleftrightarrow>
     (if id_ext then fst e = 255 \<and> snd e \<noteq> [] \<and> unat (hd (snd e)) = key else fst e = key)"

definition vendor_match :: "mem \<Rightarrow> ptr \<Rightarrow> ptr \<Rightarrow> nat \<Rightarrow> nat \<times> u8 list \<Rightarrow> bool" where
  "vendor_match m voui type type_len e \<longleftrightarrow>
     fst e = 221 \<and> 3 + type_len \<le> length (snd e) \<and> take 3 (snd e) = bytes m voui 3 \<and>
     take type_len (drop 3 (snd e)) = bytes m type type_len"

lemma bytes_eq_Nil [simp]: "bytes m a n = [] \<longleftrightarrow> n = 0"
  by (metis length_0_conv length_bytes)

lemma hd_bytes: "n \<noteq> 0 \<Longrightarrow> hd (bytes m a n) = m a"
  by (cases n) (auto simp: bytes_Suc)

interpretation pscan: tlv_scan m "parse_tlvs_loop m key" "parse_match key" for m key
proof
  fix a n
  show "parse_tlvs_loop m key a n =
    (if 2 \<le> n \<and> tlv_len m a + 2 \<le> n then
       if parse_match key (tlv_id m a, bytes m (a + 2) (tlv_len m a)) then a
       else parse_tlvs_loop m key (a + (tlv_len m a + 2)) (n - (tlv_len m a + 2))
     else NULL)"
    by (subst parse_tlvs_loop.simps)
      (auto simp: parse_match_def TLV_HDR_LEN_def DOT11_MNG_ID_EXT_ID_def hd_bytes tlv_data_def Let_def)
qed

interpretation dscan: tlv_scan m "\<lambda>a n. bcm_parse_tlvs_dot11 m a n key id_ext" "dot11_match key id_ext"
  for m key id_ext
proof
  fix a n
  show "bcm_parse_tlvs_dot11 m a n key id_ext =
    (if 2 \<le> n \<and> tlv_len m a + 2 \<le> n then
       if dot11_match key id_ext (tlv_id m a, bytes m (a + 2) (tlv_len m a)) then a
       else bcm_parse_tlvs_dot11 m (a + (tlv_len m a + 2)) (n - (tlv_len m a + 2)) key id_ext
     else NULL)"
    by (subst bcm_parse_tlvs_dot11.simps)
      (auto simp: dot11_match_def TLV_HDR_LEN_def DOT11_MNG_ID_EXT_ID_def hd_bytes tlv_data_def Let_def)
qed

lemma vendor_test:
  "(tlv_id m ie = DOT11_MNG_VS_ID \<and> DOT11_OUI_LEN + type_len \<le> tlv_len m ie \<and>
      bytes m (ie + 2) DOT11_OUI_LEN = bytes m voui DOT11_OUI_LEN \<and>
      (type_len = 0 \<or> bytes m (ie + 2 + DOT11_OUI_LEN) type_len = bytes m type type_len))
    \<longleftrightarrow> vendor_match m voui type type_len (tlv_id m ie, bytes m (ie + 2) (tlv_len m ie))"
  by (auto simp: vendor_match_def DOT11_MNG_VS_ID_def DOT11_OUI_LEN_def take_bytes drop_bytes)

interpretation vscan: tlv_scan m "\<lambda>a n. bcm_find_vendor_ie m a n voui type type_len"
    "vendor_match m voui type type_len" for m voui type type_len
proof
  fix a n :: nat assume a: "a \<noteq> NULL"
  let ?k = "tlv_len m a + 2" and ?P = "vendor_match m voui type type_len (tlv_id m a, bytes m (a + 2) (tlv_len m a))"
  have v: "bcm_valid_tlv m a n \<longleftrightarrow> 2 \<le> n \<and> ?k \<le> n" using a by (auto simp: bcm_valid_tlv_def)
  have nx: "bcm_next_tlv m a n = (if bcm_valid_tlv m (a + ?k) (n - ?k) then a + ?k else NULL, n - ?k)"
    if "bcm_valid_tlv m a n"
    using that by (auto simp: bcm_next_tlv_def TLV_HDR_LEN_def Let_def add.commute)
  show "bcm_find_vendor_ie m a n voui type type_len =
    (if 2 \<le> n \<and> ?k \<le> n then if ?P then a else bcm_find_vendor_ie m (a + ?k) (n - ?k) voui type type_len
     else NULL)"
  proof (cases "bcm_valid_tlv m a n")
    case True
    then have "find_vendor_loop m a n voui type type_len =
        (if ?P then a else if bcm_valid_tlv m (a + ?k) (n - ?k)
         then find_vendor_loop m (a + ?k) (n - ?k) voui type type_len else NULL)"
      by (subst find_vendor_loop.simps, subst vendor_test) (simp add: nx a)
    then show ?thesis using True v a by (simp add: bcm_find_vendor_ie_def)
  qed (use v a in \<open>auto simp: bcm_find_vendor_ie_def\<close>)
qed

text \<open>The ordered parser also stops at the first larger tag.\<close>

lemma ordered_finds:
  "a \<noteq> NULL \<Longrightarrow> bcm_parse_ordered_tlvs m a n key =
     at_off a (find_off (\<lambda>e. fst e = key) (takeWhile (\<lambda>e. fst e \<le> key) (tlv_list (bytes m a n))))"
proof (induction n arbitrary: a rule: less_induct)
  case (less n)
  let ?k = "tlv_len m a + 2"
  show ?case
  proof (cases "2 \<le> n \<and> ?k \<le> n \<and> tlv_id m a < key")
    case True
    have "bcm_parse_ordered_tlvs m (a + ?k) (n - ?k) key = at_off (a + ?k)
        (find_off (\<lambda>e. fst e = key) (takeWhile (\<lambda>e. fst e \<le> key) (tlv_list (bytes m (a + ?k) (n - ?k)))))"
      using True less.prems by (intro less.IH) auto
    then show ?thesis using True
      by (subst bcm_parse_ordered_tlvs.simps, subst tlv_list_bytes)
        (auto simp: at_off_def TLV_HDR_LEN_def Let_def split: option.splits)
  next
    case False
    then show ?thesis
      by (subst bcm_parse_ordered_tlvs.simps, subst tlv_list_bytes)
        (auto simp: at_off_def TLV_HDR_LEN_def Let_def)
  qed
qed

section \<open>Elements by organisation\<close>

fun esz :: "(nat \<times> u8 list) list \<Rightarrow> nat" where
  "esz [] = 0"
| "esz (e # es) = 2 + length (snd e) + esz es"

lemma find_off_append:
  "find_off P (xs @ ys) =
     (case find_off P xs of Some k \<Rightarrow> Some k | None \<Rightarrow> map_option ((+) (esz xs)) (find_off P ys))"
  by (cases "find_off P ys"; induction xs) (auto split: option.splits)

lemma find_off_None: "find_off P es = None \<longleftrightarrow> (\<forall>e\<in>set es. \<not> P e)"
  by (induction es) auto

text \<open>Where the first match lies: the elements before it, itself, and the elements after it.\<close>

lemma find_off_split:
  assumes "find_off P (tlv_list (bytes m a n)) = Some k"
  shows "\<exists>us. tlv_list (bytes m a n) =
      us @ (tlv_id m (a + k), bytes m (a + k + 2) (tlv_len m (a + k))) #
        tlv_list (bytes m (a + k + (tlv_len m (a + k) + 2)) (n - k - (tlv_len m (a + k) + 2))) \<and>
    esz us = k \<and> (\<forall>e\<in>set us. \<not> P e) \<and> k + (tlv_len m (a + k) + 2) \<le> n"
  using assms
proof (induction n arbitrary: a k rule: less_induct)
  case (less n)
  let ?l = "tlv_len m a + 2" and ?e = "(tlv_id m a, bytes m (a + 2) (tlv_len m a))"
  have fit: "2 \<le> n \<and> ?l \<le> n" using less.prems by (subst (asm) tlv_list_bytes) (auto split: if_splits)
  then have eq: "tlv_list (bytes m a n) = ?e # tlv_list (bytes m (a + ?l) (n - ?l))"
    by (subst tlv_list_bytes) simp
  show ?case
  proof (cases "P ?e")
    case True
    then have "k = 0" using less.prems by (simp add: eq)
    then show ?thesis using eq fit by (intro exI [of _ "[]"]) simp
  next
    case False
    then obtain j where j: "find_off P (tlv_list (bytes m (a + ?l) (n - ?l))) = Some j" "k = ?l + j"
      using less.prems by (auto simp: eq)
    have "n - ?l < n" using fit by simp
    from less.IH [OF this j(1)] obtain us where us:
      "tlv_list (bytes m (a + ?l) (n - ?l)) = us @ (tlv_id m (a + ?l + j), bytes m (a + ?l + j + 2) (tlv_len m (a + ?l + j))) #
        tlv_list (bytes m (a + ?l + j + (tlv_len m (a + ?l + j) + 2)) (n - ?l - j - (tlv_len m (a + ?l + j) + 2)))"
      "esz us = j" "\<forall>e\<in>set us. \<not> P e" "j + (tlv_len m (a + ?l + j) + 2) \<le> n - ?l" by blast
    have k: "a + ?l + j = a + k" "n - ?l - j = n - k" using j(2) by simp_all
    show ?thesis
      using us fit False unfolding eq k by (intro exI [of _ "?e # us"]) (simp add: j(2))
  qed
qed

definition ie_match :: "mem \<Rightarrow> nat \<Rightarrow> nat \<Rightarrow> ptr \<Rightarrow> nat \<Rightarrow> nat \<times> u8 list \<Rightarrow> bool" where
  "ie_match m tag oui_len oui type e \<longleftrightarrow>
     fst e = tag \<and> oui_len < length (snd e) \<and> take oui_len (snd e) = bytes m oui oui_len \<and>
     unat (snd e ! oui_len) = type"

lemma ie_test:
  "tlv_id m ie = tag \<Longrightarrow>
   (oui_len < tlv_len m ie \<and> bytes m (ie + 2) oui_len = bytes m oui oui_len \<and> tlv_data m ie oui_len = type)
     \<longleftrightarrow> ie_match m tag oui_len oui type (tlv_id m ie, bytes m (ie + 2) (tlv_len m ie))"
  by (auto simp: ie_match_def take_bytes tlv_data_def)

lemma parse_match_u8: "tag < 256 \<Longrightarrow> parse_match tag e \<longleftrightarrow> fst e = tag"
  by (auto simp: parse_match_def)

lemma advance_to_eq:
  assumes "b \<noteq> NULL" and "b + n < 2 ^ 64" and "b \<le> e" and "e < b + n"
  shows "bcm_tlv_buffer_advance_to m e (b, n) =
    (if bcm_valid_tlv m e (n - (e - b)) then (e, n - (e - b)) else (NULL, 0))"
proof -
  have "(b + n) mod 2 ^ 64 = b + n" using assms(2) by (rule mod_less)
  then show ?thesis using assms by (simp only: bcm_tlv_buffer_advance_to_def Let_def case_prod_conv) simp
qed

lemma advance_past_eq:
  assumes "b \<noteq> NULL" and "b + n < 2 ^ 64" and v: "bcm_valid_tlv m b n"
  shows "bcm_tlv_buffer_advance_past m b (b, n) =
    (let k = tlv_len m b + 2
     in if bcm_valid_tlv m (b + k) (n - k) then (b + k, n - k) else (NULL, 0))"
proof -
  let ?k = "tlv_len m b + 2"
  have n: "?k \<le> n" "n \<noteq> 0" using v by (auto simp: bcm_valid_tlv_def)
  have first: "bcm_tlv_buffer_advance_to m b (b, n) = (b, n)"
    using advance_to_eq [OF assms(1,2), of b m] n v by simp
  have "bcm_tlv_buffer_advance_to m (b + ?k) (b, n) =
      (if bcm_valid_tlv m (b + ?k) (n - ?k) then (b + ?k, n - ?k) else (NULL, 0))"
  proof (cases "?k < n")
    case True
    then show ?thesis using advance_to_eq [OF assms(1,2), of "b + ?k" m] by simp
  next
    case False
    then have "?k = n" using n by simp
    then show ?thesis by (simp add: bcm_tlv_buffer_advance_to_def bcm_valid_tlv_def Let_def)
  qed
  moreover have "b + 2 + tlv_len m b = b + ?k" by simp
  ultimately show ?thesis
    by (simp only: bcm_tlv_buffer_advance_past_def first Let_def case_prod_conv n(2) if_False)
qed

lemma find_ie_NULL: "bcm_find_ie m NULL n tag oui_len oui type = NULL"
  by (subst bcm_find_ie.simps) (simp add: bcm_parse_tlvs_advance_def bcm_parse_tlvs_def)

lemma find_ie_finds:
  assumes "tag < 256" and "a \<noteq> NULL" and "a + n < 2 ^ 64"
  shows "bcm_find_ie m a n tag oui_len oui type =
    at_off a (find_off (ie_match m tag oui_len oui type) (tlv_list (bytes m a n)))"
  using assms(2,3)
proof (induction n arbitrary: a rule: less_induct)
  case (less n)
  let ?Q = "ie_match m tag oui_len oui type" and ?L = "tlv_list (bytes m a n)"
  let ?F = "\<lambda>a n. bcm_find_ie m a n tag oui_len oui type"
  have p: "bcm_parse_tlvs m a n tag = at_off a (find_off (parse_match tag) ?L)"
    using less.prems by (simp add: bcm_parse_tlvs_def pscan.loop_finds)
  have QP: "?Q e \<Longrightarrow> parse_match tag e" for e using assms(1) by (simp add: ie_match_def parse_match_u8)
  show ?case
  proof (cases "find_off (parse_match tag) ?L")
    case None
    then have "find_off ?Q ?L = None" using QP by (auto simp: find_off_None)
    moreover have "?F a n = NULL"
      using None p by (subst bcm_find_ie.simps) (simp add: bcm_parse_tlvs_advance_def at_off_def)
    ultimately show ?thesis by (simp add: at_off_def)
  next
    case (Some k)
    let ?ie = "a + k" and ?l = "tlv_len m (a + k) + 2"
    let ?e = "(tlv_id m ?ie, bytes m (?ie + 2) (tlv_len m ?ie))"
    from find_off_split [OF Some] obtain us where
      L: "?L = us @ ?e # tlv_list (bytes m (?ie + ?l) (n - k - ?l))"
      and us: "esz us = k" "\<forall>e\<in>set us. \<not> parse_match tag e" and fit: "k + ?l \<le> n" by blast
    have "find_off (parse_match tag) us = None" using us(2) by (simp add: find_off_None)
    then have "parse_match tag ?e" using Some unfolding L find_off_append by (auto simp: us(1) split: if_splits)
    then have tag: "tlv_id m ?ie = tag" using assms(1) by (simp add: parse_match_u8)
    have none: "find_off ?Q us = None" using us(2) QP by (auto simp: find_off_None)
    have v: "bcm_valid_tlv m ?ie (n - k)" using fit less.prems by (auto simp: bcm_valid_tlv_def)
    have ie: "?ie \<noteq> NULL" "?ie + (n - k) < 2 ^ 64" using less.prems fit by auto
    have adv: "bcm_parse_tlvs_advance m (a, n) tag BCM_TLV_ADVANCE_TO = (?ie, ?ie, n - k)"
      using p Some v fit advance_to_eq [OF less.prems, of ?ie m] less.prems(1)
      by (simp add: bcm_parse_tlvs_advance_def at_off_def Let_def)
    have unf: "?F a n = (if ?Q ?e then ?ie
        else if bcm_valid_tlv m (?ie + ?l) (n - k - ?l) then ?F (?ie + ?l) (n - k - ?l) else NULL)"
      unfolding bcm_find_ie.simps [of m a n tag oui_len oui type] adv Let_def case_prod_conv ie_test [OF tag]
        advance_past_eq [OF ie v, unfolded Let_def]
      using ie(1) by (auto simp: find_ie_NULL)
    have off: "find_off ?Q ?L = (if ?Q ?e then Some k
        else map_option ((+) (k + ?l)) (find_off ?Q (tlv_list (bytes m (?ie + ?l) (n - k - ?l)))))"
      unfolding L find_off_append none using us(1)
      by (cases "find_off ?Q (tlv_list (bytes m (?ie + ?l) (n - k - ?l)))") auto
    show ?thesis
    proof (cases "bcm_valid_tlv m (?ie + ?l) (n - k - ?l)")
      case True
      have "?F (?ie + ?l) (n - k - ?l) = at_off (?ie + ?l) (find_off ?Q (tlv_list (bytes m (?ie + ?l) (n - k - ?l))))"
        using fit less.prems by (intro less.IH) auto
      then show ?thesis unfolding unf off using True by (auto simp: at_off_def split: option.splits)
    next
      case False
      then have "tlv_list (bytes m (?ie + ?l) (n - k - ?l)) = []"
        by (subst tlv_list_bytes) (auto simp: bcm_valid_tlv_def)
      then show ?thesis unfolding unf off using False by (simp add: at_off_def)
    qed
  qed
qed

section \<open>Writers\<close>

lemma tlv_list_single:
  assumes "length d < 256"
  shows "tlv_list (of_nat t # of_nat (length d) # d) = [(t mod 256, d)]"
proof -
  have "unat (of_nat (length d) :: u8) = length d" using assms by (simp add: unat_of_nat)
  then show ?thesis by (simp add: unat_of_nat)
qed

lemma write_tlv_bytes:
  assumes "dst \<noteq> NULL" and n: "n \<le> BCM_TLV_MAX_DATA_SIZE" and d: "data \<noteq> NULL \<or> n = 0"
    and dj: "data + n \<le> dst \<or> dst + 2 + n \<le> data"
  shows "bcm_write_tlv t data n dst m =
    (dst + 2 + n, store_bytes dst (of_nat t # of_nat n # bytes m data n) m)"
proof -
  let ?m = "m(dst := of_nat t, dst + 1 := of_nat n)"
  have "bytes ?m data n = bytes m data n" using dj by (intro bytes_cong) auto
  then show ?thesis using assms
    by (simp add: bcm_write_tlv_def store_bytes_Cons memcpy_def Let_def)
qed

section \<open>Properties\<close>

text \<open>C10: \<open>bcm_parse_tlvs\<close> returns the address of the first element of the buffer whose tag, or extended
  tag, is the key, and \<open>NULL\<close> when there is none before the end of the buffer or before the first
  element that does not fit. Its result is a function of the \<open>buflen\<close> bytes of the buffer.\<close>

theorem parse_tlvs_first:
  "bcm_parse_tlvs m buf buflen key =
     (if buf = NULL then NULL else at_off buf (find_off (parse_match key) (tlv_list (bytes m buf buflen))))"
  by (simp add: bcm_parse_tlvs_def pscan.loop_finds)

text \<open>C11: \<open>bcm_parse_tlvs_dot11\<close> and \<open>bcm_parse_ordered_tlvs\<close> return the first element of the buffer that
  matches their key; the ordered parser only looks at the elements before the first larger tag.\<close>

theorem parse_tlvs_dot11_ordered_first:
  assumes "buf \<noteq> NULL"
  shows "bcm_parse_tlvs_dot11 m buf buflen key id_ext =
      at_off buf (find_off (dot11_match key id_ext) (tlv_list (bytes m buf buflen))) \<and>
    bcm_parse_ordered_tlvs m buf buflen key =
      at_off buf (find_off (\<lambda>e. fst e = key) (takeWhile (\<lambda>e. fst e \<le> key) (tlv_list (bytes m buf buflen))))"
  using dscan.loop_finds [OF assms] ordered_finds [OF assms] by blast

theorem parse_tlvs_dot11_ordered_first_witness:
  "bcm_parse_ordered_tlvs (\<lambda>y. if y = 12 then 5 else 0) 10 4 5 = 12"
  using parse_tlvs_dot11_ordered_first [of 10 "\<lambda>y. if y = 12 then 5 else 0" 4 5 False]
  by (simp add: bytes_def upt_rec at_off_def)

text \<open>\<open>bcm_find_ie\<close> ends and returns the first element of the buffer with the given tag whose body
  starts with the organisation identifier followed by the type byte; a buffer must not wrap the address
  space. It combines the parser with both cursor functions.\<close>

theorem find_ie_first:
  assumes "tag < 256" and "tlvs \<noteq> NULL" and "tlvs + tlvs_len < 2 ^ 64"
  shows "bcm_find_ie m tlvs tlvs_len tag oui_len oui type =
    at_off tlvs (find_off (ie_match m tag oui_len oui type) (tlv_list (bytes m tlvs tlvs_len)))"
  using assms by (rule find_ie_finds)

theorem find_ie_first_witness:
  "bcm_find_ie (\<lambda>y. if y = 10 \<or> y = 13 then 221 else if y = 11 then 1 else if y = 14 then 2 else if y = 15 \<or> y = 40 then 7 else 9)
     10 7 221 1 40 9 = 13"
  using find_ie_first [of 221 10 7
      "\<lambda>y. if y = 10 \<or> y = 13 then 221 else if y = 11 then 1 else if y = 14 then 2 else if y = 15 \<or> y = 40 then 7 else 9" 1 40 9]
  by (simp add: bytes_def upt_rec at_off_def ie_match_def)

text \<open>\<open>bcm_find_vendor_ie\<close> returns the first vendor specific element whose body starts with the three
  byte identifier and the optional type.\<close>

theorem find_vendor_ie_first:
  "bcm_find_vendor_ie m tlvs tlvs_len voui type type_len =
     (if tlvs = NULL then NULL
      else at_off tlvs (find_off (vendor_match m voui type type_len) (tlv_list (bytes m tlvs tlvs_len))))"
  using vscan.loop_finds by (simp add: bcm_find_vendor_ie_def)

text \<open>C12: \<open>bcm_write_tlv_safe\<close> writes an element that decodes to the type and data given, within the
  space it was told it has, and nothing else; when the space is too small it writes nothing.\<close>

theorem write_tlv_safe_decodes:
  assumes "dst \<noteq> NULL" and "n \<le> 255" and "data \<noteq> NULL \<or> n = 0"
    and "data + n \<le> dst \<or> dst + 2 + n \<le> data"
    and r: "bcm_write_tlv_safe t data n dst maxlen m = (dst', m')"
  shows "if n + 2 \<le> maxlen
    then dst' = dst + 2 + n \<and> tlv_list (bytes m' dst (n + 2)) = [(t mod 256, bytes m data n)] \<and>
      (\<forall>y. y < dst \<or> dst + maxlen \<le> y \<longrightarrow> m' y = m y)
    else dst' = dst \<and> m' = m"
proof (cases "n + 2 \<le> maxlen")
  case True
  let ?bs = "of_nat t # of_nat n # bytes m data n"
  have w: "dst' = dst + 2 + n" "m' = store_bytes dst ?bs m"
    using r True assms(2) write_tlv_bytes [OF assms(1) _ assms(3,4)]
    by (auto simp: bcm_write_tlv_safe_def BCM_TLV_MAX_DATA_SIZE_def)
  have "bytes m' dst (n + 2) = ?bs" unfolding w(2) by (rule bytes_store_same) simp
  then have "tlv_list (bytes m' dst (n + 2)) = [(t mod 256, bytes m data n)]"
    using tlv_list_single [of "bytes m data n" t] assms(2) by simp
  moreover have "m' y = m y" if "y < dst \<or> dst + maxlen \<le> y" for y
    unfolding w(2) using that True by (intro store_bytes_outside) auto
  ultimately show ?thesis using True w(1) by simp
qed (use r in \<open>auto simp: bcm_write_tlv_safe_def split: if_splits\<close>)

theorem write_tlv_safe_decodes_witness:
  "\<exists>dst' m'. bcm_write_tlv_safe 300 50 2 100 4 (\<lambda>y. of_nat y) = (dst', m') \<and> dst' = 104 \<and>
    tlv_list (bytes m' 100 4) = [(44, [50, 51])] \<and> m' 104 = 104"
proof -
  obtain dst' m' where r: "bcm_write_tlv_safe 300 50 2 100 4 (\<lambda>y. of_nat y) = (dst', m')" by fastforce
  from write_tlv_safe_decodes [OF _ _ _ _ r] show ?thesis
    using r by (auto simp: bytes_def upt_rec)
qed

end
