(* ===== verification/Mwbmap.thy ===== *)
theory Mwbmap
  imports Prelude
begin

unbundle bit_operations_syntax

text \<open>
  The two id allocators of \<open>bcmutils.c\<close>: the hierarchical multiword bitmap (\<open>bcm_mwbmap_*\<close>) and the
  stack of 16 bit ids (\<open>id16_map_*\<close>), with the bit counting helpers of \<open>include/bcmutils.h\<close>. Indices
  are natural numbers (at most 64K of them, far below the \<open>uint32\<close> of the code), bitmaps are words,
  \<open>wd_count\<close> an \<open>int8\<close>. \<open>BCM_MWBMAP_USE_CNTSETBITS\<close>, \<open>BCM_MWBMAP_DEBUG\<close> and \<open>BCM_DBG_ID16\<close> are
  undefined on the host, \<open>ASSERT\<close> is empty. \<open>MALLOCZ\<close> may fail: \<open>init\<close> takes its outcome as an
  argument. The audit handle \<open>magic\<close> and the debug pointer are not modelled.
\<close>

section \<open>Counting bits\<close>

definition B2 :: "nat \<Rightarrow> nat list" where "B2 n = [n, n + 1, n + 1, n + 2]"
definition B4 :: "nat \<Rightarrow> nat list" where "B4 n = B2 n @ B2 (n + 1) @ B2 (n + 1) @ B2 (n + 2)"
definition B6 :: "nat \<Rightarrow> nat list" where "B6 n = B4 n @ B4 (n + 1) @ B4 (n + 1) @ B4 (n + 2)"

definition CSBTBL :: "nat list" where
  "CSBTBL = B6 0 @ B6 (0 + 1) @ B6 (0 + 1) @ B6 (0 + 2)"

text \<open>The four bytes of the argument in memory order (the order does not matter for the sum).\<close>

definition bcm_cntsetbits :: "u32 \<Rightarrow> nat" where
  "bcm_cntsetbits w =
     CSBTBL ! unat (ucast w :: u8) + CSBTBL ! unat (ucast (drop_bit 8 w) :: u8) +
     CSBTBL ! unat (ucast (drop_bit 16 w) :: u8) + CSBTBL ! unat (ucast (drop_bit 24 w) :: u8)"

function clz_shifts :: "u32 \<Rightarrow> nat" where
  "clz_shifts x = (if x \<noteq> 0 then Suc (clz_shifts (drop_bit 1 x)) else 0)"
  by pat_completeness auto
termination
proof (relation "measure unat", goal_cases)
  case (2 x)
  then have "unat x \<noteq> 0" by (simp add: unat_eq_0)
  then show ?case by (simp only: in_measure unat_drop_bit_eq) (simp add: drop_bit_eq_div)
qed simp

declare clz_shifts.simps [simp del]

definition bcm_count_leading_zeros :: "u32 \<Rightarrow> nat" where
  "bcm_count_leading_zeros x = 32 - clz_shifts x"

section \<open>The multiword bitmap\<close>

definition BCM_MWBMAP_BITS_WORD :: nat where "BCM_MWBMAP_BITS_WORD = 32"
definition BCM_MWBMAP_WORDS_MAX :: nat where "BCM_MWBMAP_WORDS_MAX = 2048"
definition BCM_MWBMAP_WDMAP_MAX :: nat where "BCM_MWBMAP_WDMAP_MAX = 64"
definition BCM_MWBMAP_INVALID_IDX :: nat where "BCM_MWBMAP_INVALID_IDX = 2 ^ 32 - 1"

definition MODOP :: "nat \<Rightarrow> nat" where "MODOP ix = ix mod 32"
definition DIVOP :: "nat \<Rightarrow> nat" where "DIVOP ix = ix div 32"
definition MULOP :: "nat \<Rightarrow> nat" where "MULOP ix = ix * 32"

record bcm_mwbmap =
  wmaps :: u16
  imaps :: u16
  ifree :: int
  mw_total :: u16
  wd_bitmap :: "u32 list"
  wd_count :: "u8 list"
  id_bitmap :: "u32 list"

text \<open>\<open>~0U\<close> in the first \<open>words\<close> entries, the last one without its upper \<open>32 - extra\<close> bits.\<close>

definition all_ones :: "nat \<Rightarrow> nat \<Rightarrow> u32 list \<Rightarrow> u32 list" where
  "all_ones words extra bm =
     (let bm = map (\<lambda>w. if w < words then NOT 0 else bm ! w) [0..<length bm]
      in if extra \<noteq> 0 then bm[words - 1 := (bm ! (words - 1)) XOR push_bit extra (NOT 0)] else bm)"

definition bcm_mwbmap_init :: "bool \<Rightarrow> nat \<Rightarrow> bcm_mwbmap option" where
  "bcm_mwbmap_init malloc_ok items_max =
     (if \<not> malloc_ok then None
      else let extra = MODOP items_max;
               words = DIVOP items_max + (if extra \<noteq> 0 then 1 else 0);
               imaps = (of_nat words :: u16);
               n = unat imaps;
               ids = all_ones n extra (replicate words 0);
               counts = map (\<lambda>w. if w < n then 32 else 0) [0..<BCM_MWBMAP_WORDS_MAX];
               counts = (if extra \<noteq> 0 then counts[n - 1 := of_nat extra] else counts);
               extra1 = MODOP n;
               words1 = DIVOP n + (if extra1 \<noteq> 0 then 1 else 0);
               wmaps = (of_nat words1 :: u16)
           in Some \<lparr>wmaps = wmaps, imaps = imaps, ifree = int items_max, mw_total = of_nat items_max,
                wd_bitmap = all_ones (unat wmaps) extra1 (replicate BCM_MWBMAP_WDMAP_MAX 0),
                wd_count = counts, id_bitmap = ids\<rparr>)"

text \<open>\<open>bitmap & -bitmap\<close>, skipped for \<open>1u << 31u\<close>, whose negation overflows an \<open>int\<close>.\<close>

definition trailing_1 :: "u32 \<Rightarrow> u32" where
  "trailing_1 bitmap = (if bitmap \<noteq> push_bit 31 1 then bitmap AND - bitmap else bitmap)"

definition bcm_mwbmap_alloc :: "bcm_mwbmap \<Rightarrow> nat \<times> bcm_mwbmap" where
  "bcm_mwbmap_alloc mw =
     (case find (\<lambda>w. wd_bitmap mw ! w \<noteq> 0) [0..<unat (wmaps mw)] of
        None \<Rightarrow> (BCM_MWBMAP_INVALID_IDX, mw)
      | Some w \<Rightarrow>
          (let bitix = bcm_count_leading_zeros (trailing_1 (wd_bitmap mw ! w));
               bitix = (if bitix \<le> 31 then 31 - bitix else 0);
               wordix = MULOP w + bitix;
               mw = mw\<lparr>wd_count := (wd_count mw)[wordix := wd_count mw ! wordix - 1]\<rparr>;
               bitmap = (if wd_count mw ! wordix = 0 then push_bit bitix 1 else 0);
               mw = mw\<lparr>wd_bitmap := (wd_bitmap mw)[w := (wd_bitmap mw ! w) XOR bitmap]\<rparr>;
               bitmap = trailing_1 (id_bitmap mw ! wordix);
               bitix = MULOP wordix + 31 - bcm_count_leading_zeros bitmap;
               mw = mw\<lparr>ifree := ifree mw - 1\<rparr>
           in (bitix, mw\<lparr>id_bitmap := (id_bitmap mw)[wordix := (id_bitmap mw ! wordix) XOR bitmap]\<rparr>)))"

definition bcm_mwbmap_force :: "nat \<Rightarrow> bcm_mwbmap \<Rightarrow> bcm_mwbmap" where
  "bcm_mwbmap_force bitix mw =
     (let wordix = DIVOP bitix;
          bitmap = push_bit (MODOP bitix) 1;
          mw = mw\<lparr>ifree := ifree mw - 1\<rparr>;
          mw = mw\<lparr>id_bitmap := (id_bitmap mw)[wordix := (id_bitmap mw ! wordix) XOR bitmap]\<rparr>;
          bitix = wordix;
          wordix = DIVOP bitix;
          mw = mw\<lparr>wd_count := (wd_count mw)[bitix := wd_count mw ! bitix - 1]\<rparr>;
          bitmap = (if wd_count mw ! bitix = 0 then push_bit (MODOP bitix) 1 else 0)
      in mw\<lparr>wd_bitmap := (wd_bitmap mw)[wordix := (wd_bitmap mw ! wordix) XOR bitmap]\<rparr>)"

definition bcm_mwbmap_free :: "nat \<Rightarrow> bcm_mwbmap \<Rightarrow> bcm_mwbmap" where
  "bcm_mwbmap_free bitix mw =
     (let wordix = DIVOP bitix;
          bitmap = push_bit (MODOP bitix) 1;
          mw = mw\<lparr>ifree := ifree mw + 1\<rparr>;
          mw = mw\<lparr>id_bitmap := (id_bitmap mw)[wordix := (id_bitmap mw ! wordix) OR bitmap]\<rparr>;
          bitix = wordix;
          wordix = DIVOP bitix;
          bitmap = push_bit (MODOP bitix) 1;
          mw = mw\<lparr>wd_count := (wd_count mw)[bitix := wd_count mw ! bitix + 1]\<rparr>
      in mw\<lparr>wd_bitmap := (wd_bitmap mw)[wordix := (wd_bitmap mw ! wordix) OR bitmap]\<rparr>)"

definition bcm_mwbmap_free_cnt :: "bcm_mwbmap \<Rightarrow> nat" where
  "bcm_mwbmap_free_cnt mw = nat (ifree mw mod 2 ^ 32)"

definition bcm_mwbmap_isfree :: "nat \<Rightarrow> bcm_mwbmap \<Rightarrow> bool" where
  "bcm_mwbmap_isfree bitix mw \<longleftrightarrow>
     (id_bitmap mw ! DIVOP bitix) AND push_bit (MODOP bitix) 1 \<noteq> 0"

text \<open>The audit: whether its assertions hold and the counted and the stored number of free ids agree.\<close>

definition bcm_mwbmap_audit :: "bcm_mwbmap \<Rightarrow> bool" where
  "bcm_mwbmap_audit mw \<longleftrightarrow>
     (let ixs = concat (map (\<lambda>w. map (\<lambda>b. MULOP w + b)
                  (filter (\<lambda>b. (wd_bitmap mw ! w) AND push_bit b 1 \<noteq> 0) [0..<32])) [0..<unat (wmaps mw)])
      in (\<forall>ix\<in>set ixs. unat (wd_count mw ! ix) = bcm_cntsetbits (id_bitmap mw ! ix) \<and> wd_count mw ! ix \<noteq> 0) \<and>
         int (sum_list (map (\<lambda>ix. unat (wd_count mw ! ix)) ixs)) = ifree mw)"

section \<open>The stack of 16 bit ids\<close>

definition ID16_INVALID :: u16 where "ID16_INVALID = 0xFFFF"
definition ID16_UNDEFINED :: u16 where "ID16_UNDEFINED = ID16_INVALID"

record id16_map =
  failures :: u32
  id_total :: u16
  id_start :: u16
  stack_idx :: int
  id_stack :: "u16 list"

text \<open>The loop that fills the stack: \<open>for (idx = 0; idx < total_ids; idx++, val16++)\<close>.\<close>

definition id16_fill :: "u16 \<Rightarrow> u16 \<Rightarrow> id16_map \<Rightarrow> id16_map" where
  "id16_fill total_ids start_val16 s =
     (let s = s\<lparr>id_total := total_ids, id_start := start_val16, failures := 0, stack_idx := - 1\<rparr>
      in if start_val16 \<noteq> ID16_UNDEFINED then
           s\<lparr>stack_idx := int (unat total_ids) - 1,
             id_stack := map (\<lambda>i. if i < unat total_ids then start_val16 + of_nat i else id_stack s ! i)
               [0..<length (id_stack s)]\<rparr>
         else s)"

definition id16_map_init :: "bool \<Rightarrow> u16 \<Rightarrow> u16 \<Rightarrow> id16_map option" where
  "id16_map_init malloc_ok total_ids start_val16 =
     (if \<not> malloc_ok then None
      else Some (id16_fill total_ids start_val16
        \<lparr>failures = 0, id_total = 0, id_start = 0, stack_idx = 0, id_stack = replicate (unat total_ids) 0\<rparr>))"

definition id16_map_clear :: "u16 \<Rightarrow> u16 \<Rightarrow> id16_map option \<Rightarrow> id16_map option" where
  "id16_map_clear total_ids start_val16 h = map_option (id16_fill total_ids start_val16) h"

definition id16_map_alloc :: "id16_map \<Rightarrow> u16 \<times> id16_map" where
  "id16_map_alloc s =
     (if stack_idx s < 0 then (ID16_INVALID, s\<lparr>failures := failures s + 1\<rparr>)
      else (id_stack s ! nat (stack_idx s), s\<lparr>stack_idx := stack_idx s - 1\<rparr>))"

definition id16_map_free :: "u16 \<Rightarrow> id16_map \<Rightarrow> id16_map" where
  "id16_map_free val16 s =
     (let s = s\<lparr>stack_idx := stack_idx s + 1\<rparr>
      in s\<lparr>id_stack := (id_stack s)[nat (stack_idx s) := val16]\<rparr>)"

definition id16_map_failures :: "id16_map \<Rightarrow> u32" where
  "id16_map_failures s = failures s"

text \<open>The audit returns 0 in a build without the debug map (\<open>insane\<close> is never set); what it checks are its
  assertions, in \<open>int\<close> arithmetic: this is whether they all hold.\<close>

definition id16_map_audit :: "id16_map \<Rightarrow> bool" where
  "id16_map_audit s \<longleftrightarrow>
     stack_idx s \<ge> - 1 \<and> stack_idx s < int (unat (id_total s)) \<and>
     (id_start s = ID16_UNDEFINED \<or>
      (\<forall>idx\<in>set [0..<nat (stack_idx s + 1)].
         unat (id_stack s ! idx) \<ge> unat (id_start s) \<and>
         unat (id_stack s ! idx) < unat (id_start s) + unat (id_total s)))"

end
