(* ===== verification/Mwbmap_Correct.thy ===== *)
theory Mwbmap_Correct
  imports Mwbmap
begin

unbundle bit_operations_syntax

text \<open>
  The bitmap allocator against the set of free indices it represents, the stack allocator against the
  ids on its stack, and what clients of either rely on: the locale \<open>id_allocator\<close> states the contract
  of allocation and release, \<open>id_reach\<close> the states a client reaches, and no id is handed out twice.
\<close>

section \<open>Bits\<close>

lemma bit_one_bit: "bit (push_bit b 1 :: u32) k \<longleftrightarrow> k = b \<and> b < 32"
  by (auto simp: bit_simps)

lemma bit_pow: "bit (2 ^ b :: u32) k \<longleftrightarrow> k = b \<and> b < 32"
  using bit_one_bit [of b k] by (simp only: push_bit_of_1)

lemma bit_u32_less: "bit (x :: u32) k \<Longrightarrow> k < 32"
  using bit_imp_le_length [of x k] by simp

lemma finite_bits: "finite {k. bit (x :: u32) k}"
  by (rule finite_subset [of _ "{..<32}"]) (auto dest: bit_u32_less)

lemma bits_empty: "{k. bit (x :: u32) k} = {} \<longleftrightarrow> x = 0"
  by (auto simp: bit_eq_iff dest: bit_u32_less)

lemma card_bits: "card {k. bit (x :: u32) k} \<le> 32"
  using card_mono [of "{..<32}" "{k. bit x k}"] by (auto dest: bit_u32_less)

lemma and_minus_odd: "odd c \<Longrightarrow> c AND - c = (1 :: u32)"
proof -
  assume "odd c"
  then have c0: "bit c 0" by (simp add: bit_0)
  have "- c = NOT c + 1" by (simp add: minus_eq_not_plus_1)
  also have "\<dots> = NOT c OR 1"
    using c0 by (intro disjunctive_add_eq_or bit_eqI) (auto simp: bit_simps bit_1_iff)
  finally have "c AND - c = c AND 1" by (simp add: bit.conj_disj_distrib)
  then show ?thesis using \<open>odd c\<close> by (simp add: and_one_eq odd_iff_mod_2_eq_one)
qed

lemma lowest_bit:
  assumes "b \<noteq> (0 :: u32)"
  obtains k where "k < 32" "bit b k" "\<And>j. bit b j \<Longrightarrow> k \<le> j" "trailing_1 b = push_bit k 1"
proof -
  define k where "k = (LEAST k. bit b k)"
  have "\<exists>k. bit b k" using assms bits_empty [of b] by auto
  then have k: "bit b k" "\<And>j. bit b j \<Longrightarrow> k \<le> j" unfolding k_def by (auto intro: LeastI Least_le)
  define c where "c = drop_bit k b"
  have "take_bit k b = 0" using k(2) by (intro bit_eqI) (force simp: bit_simps not_less)
  then have b: "b = push_bit k c" using bits_ident [of k b] by (simp add: c_def)
  have "odd c" using k(1) by (simp add: c_def bit_iff_odd_drop_bit)
  have "b AND - b = push_bit k (c AND - c)"
    unfolding push_bit_and by (simp add: b push_bit_eq_mult)
  also have "\<dots> = push_bit k 1" using and_minus_odd [OF \<open>odd c\<close>] by simp
  finally have t: "b AND - b = push_bit k 1" .
  have "trailing_1 b = push_bit k 1"
  proof (cases "b = push_bit 31 1")
    case True
    then have "k = 31" using k(1) bit_one_bit [of 31 k] by metis
    then show ?thesis using True by (simp add: trailing_1_def)
  qed (simp add: trailing_1_def t)
  then show ?thesis using that k bit_u32_less [OF k(1)] by blast
qed

lemma clz_shifts_bit: "k < 32 \<Longrightarrow> clz_shifts (push_bit k 1) = Suc k"
proof (induction k)
  case 0
  have "drop_bit 1 (1 :: u32) = 0" by simp
  then show ?case using clz_shifts.simps [of 1] clz_shifts.simps [of 0] by simp
next
  case (Suc k)
  have "push_bit (Suc k) 1 \<noteq> (0 :: u32)" using bit_one_bit [of "Suc k" "Suc k"] Suc.prems by auto
  moreover have "drop_bit 1 (push_bit (Suc k) 1) = (push_bit k 1 :: u32)"
    using Suc.prems by (intro bit_eqI) (auto simp: bit_simps)
  ultimately show ?case using Suc clz_shifts.simps [of "push_bit (Suc k) 1"] by simp
qed

lemma clz_bit: "k < 32 \<Longrightarrow> bcm_count_leading_zeros (push_bit k 1) = 31 - k"
  by (simp only: bcm_count_leading_zeros_def clz_shifts_bit)

text \<open>The table driven population count.\<close>

lemma nth_blocks:
  assumes "length a = L" "length b = L" "length c = L" "length d = L" and "r < L" and "q < 4"
  shows "(a @ b @ c @ d) ! (q * L + r) = ([a, b, c, d] ! q) ! r"
proof -
  consider "q = 0" | "q = 1" | "q = 2" | "q = 3" using assms(6) by linarith
  then show ?thesis using assms(1-5) by cases (simp_all add: nth_append eval_nat_numeral)
qed

lemma lengths_B: "length (B2 n) = 4" "length (B4 n) = 16" "length (B6 n) = 64"
  by (simp_all add: B2_def B4_def B6_def)

definition ones2 :: "nat \<Rightarrow> nat" where "ones2 q = q div 2 + q mod 2"

lemma pick4: "q < 4 \<Longrightarrow> [f n, f (n + 1), f (n + 1), f (n + 2)] ! q = f (n + ones2 q)" for n :: nat
proof -
  assume "q < 4"
  then consider "q = 0" | "q = 1" | "q = 2" | "q = 3" by linarith
  then show ?thesis by cases (simp_all add: ones2_def)
qed

lemma base4:
  "(i :: nat) = i div 64 * 64 + (i div 16 mod 4 * 16 + (i div 4 mod 4 * 4 + i mod 4))"
proof -
  have "i = i div 4 * 4 + i mod 4" "i div 4 = i div 16 * 4 + i div 4 mod 4" "i div 16 = i div 64 * 4 + i div 16 mod 4"
    using div_mult_mod_eq [of i 4] div_mult_mod_eq [of "i div 4" 4] div_mult_mod_eq [of "i div 16" 4]
    by (simp_all add: div_mult2_eq [symmetric])
  then show ?thesis by linarith
qed

lemma CSBTBL_digits:
  assumes "q3 < 4" "q2 < 4" "q1 < 4" "q0 < 4"
  shows "CSBTBL ! (q3 * 64 + (q2 * 16 + (q1 * 4 + q0))) = ones2 q3 + ones2 q2 + ones2 q1 + ones2 q0"
proof -
  have "CSBTBL ! (q3 * 64 + (q2 * 16 + (q1 * 4 + q0))) = B6 (0 + ones2 q3) ! (q2 * 16 + (q1 * 4 + q0))"
    unfolding CSBTBL_def by (subst nth_blocks) (use assms pick4 [of q3 B6 0] in \<open>auto simp: lengths_B\<close>)
  also have "\<dots> = B4 (0 + ones2 q3 + ones2 q2) ! (q1 * 4 + q0)"
    unfolding B6_def by (subst nth_blocks) (use assms pick4 [of q2 B4 "0 + ones2 q3"] in \<open>auto simp: lengths_B\<close>)
  also have "\<dots> = B2 (0 + ones2 q3 + ones2 q2 + ones2 q1) ! q0"
    unfolding B4_def by (subst nth_blocks) (use assms pick4 [of q1 B2 "0 + ones2 q3 + ones2 q2"] in \<open>auto simp: lengths_B\<close>)
  also have "\<dots> = ones2 q3 + ones2 q2 + ones2 q1 + ones2 q0"
    unfolding B2_def using pick4 [of q0 "\<lambda>x. x" "0 + ones2 q3 + ones2 q2 + ones2 q1"] assms by simp
  finally show ?thesis .
qed

lemma ones2_mod4: "ones2 (x mod 4) = x div 2 mod 2 + x mod 2"
proof -
  have "x mod 4 = 2 * (x div 2 mod 2) + x mod 2" using mod_mult2_eq [of x 2 2] by simp
  then show ?thesis by (simp add: ones2_def)
qed

lemma sum8: "(\<Sum>k<8. f k) = f 0 + f 1 + f 2 + f 3 + f 4 + f 5 + f 6 + f (7 :: nat)" for f :: "nat \<Rightarrow> nat"
  by (simp add: eval_nat_numeral)

lemma bit_u8_nat: "of_bool (bit (u :: u8) k) = unat u div 2 ^ k mod 2"
proof -
  have "bit u k \<longleftrightarrow> odd (unat u div 2 ^ k)"
    using bit_unsigned_iff [of u k, where 'a = nat] bit_iff_odd [of "unat u" k] by simp
  then show ?thesis by (simp add: mod2_eq_if)
qed

lemma digits_sum:
  assumes "(i :: nat) < 256"
  shows "CSBTBL ! i = (\<Sum>k<8. i div 2 ^ k mod 2)"
proof -
  have q: "i div 64 < 4" using assms by (simp add: div_less_iff_less_mult)
  then have m: "i div 64 mod 4 = i div 64" by simp
  have "CSBTBL ! i = CSBTBL ! (i div 64 * 64 + (i div 16 mod 4 * 16 + (i div 4 mod 4 * 4 + i mod 4)))"
    by (simp only: base4 [symmetric])
  also have "\<dots> = ones2 (i div 64 mod 4) + ones2 (i div 16 mod 4) + ones2 (i div 4 mod 4) + ones2 (i mod 4)"
    unfolding m using q by (intro CSBTBL_digits) simp_all
  also have "\<dots> = (\<Sum>k<8. i div 2 ^ k mod 2)"
    unfolding ones2_mod4 sum8 by (simp add: div_mult2_eq [symmetric])
  finally show ?thesis .
qed

lemma CSBTBL_bits: "CSBTBL ! unat (u :: u8) = (\<Sum>k<8. of_bool (bit u k))"
  unfolding bit_u8_nat by (rule digits_sum) simp

lemma cntsetbits_card: "bcm_cntsetbits w = card {k. bit w k}"
proof -
  have byte: "(\<Sum>k<8. of_bool (bit (ucast (drop_bit n w) :: u8) k)) = card {k. bit w k \<and> n \<le> k \<and> k < n + 8}" for n
  proof -
    have "(\<Sum>k<8. of_bool (bit (ucast (drop_bit n w) :: u8) k)) = card {k. k < 8 \<and> bit w (n + k)}"
      by (simp add: bit_simps Collect_conj_eq lessThan_def Int_commute
          flip: sum_of_bool_eq [of "{..<8}" "\<lambda>k. bit w (n + k)"])
    also have "\<dots> = card ((+) n ` {k. k < 8 \<and> bit w (n + k)})" by (simp add: card_image)
    also have "(+) n ` {k. k < 8 \<and> bit w (n + k)} = {k. bit w k \<and> n \<le> k \<and> k < n + 8}"
      by (auto simp: image_iff) (metis le_Suc_ex nat_add_left_cancel_less)
    finally show ?thesis .
  qed
  let ?S = "\<lambda>n. {k. bit w k \<and> n \<le> k \<and> k < n + 8}"
  have fin: "finite (?S n)" for n by (rule finite_subset [OF _ finite_bits [of w]]) auto
  have "{k. bit w k} = ?S 0 \<union> ?S 8 \<union> ?S 16 \<union> ?S 24" by (auto dest: bit_u32_less)
  moreover have "card (?S 0 \<union> ?S 8 \<union> ?S 16 \<union> ?S 24) = card (?S 0) + card (?S 8) + card (?S 16) + card (?S 24)"
  proof -
    have "?S 0 \<inter> ?S 8 = {}" "(?S 0 \<union> ?S 8) \<inter> ?S 16 = {}" "(?S 0 \<union> ?S 8 \<union> ?S 16) \<inter> ?S 24 = {}" by auto
    then show ?thesis using fin by (simp only: card_Un_disjoint finite_Un)
  qed
  moreover have "(\<Sum>k<8. of_bool (bit (ucast w :: u8) k)) = card (?S 0)"
    using byte [of 0] by (simp only: drop_bit_0 id_apply)
  ultimately show ?thesis
    by (simp only: bcm_cntsetbits_def CSBTBL_bits byte)
qed

section \<open>The invariant of the bitmap allocator\<close>

definition nw :: "nat \<Rightarrow> nat" where "nw n = (n + 31) div 32"

definition mw_free :: "bcm_mwbmap \<Rightarrow> nat set" where
  "mw_free mw = {i. i div 32 < length (id_bitmap mw) \<and> bit (id_bitmap mw ! (i div 32)) (i mod 32)}"

definition mw_inv :: "nat \<Rightarrow> bcm_mwbmap \<Rightarrow> bool" where
  "mw_inv n mw \<longleftrightarrow>
     n \<le> 65536 \<and> unat (imaps mw) = nw n \<and> unat (wmaps mw) = nw (nw n) \<and>
     length (id_bitmap mw) = nw n \<and> length (wd_bitmap mw) = 64 \<and> length (wd_count mw) = 2048 \<and>
     mw_free mw \<subseteq> {..<n} \<and>
     (\<forall>w<nw n. unat (wd_count mw ! w) = card {b. bit (id_bitmap mw ! w) b}) \<and>
     (\<forall>w<32 * nw (nw n). bit (wd_bitmap mw ! (w div 32)) (w mod 32) \<longleftrightarrow> w < nw n \<and> id_bitmap mw ! w \<noteq> 0) \<and>
     ifree mw = int (card (mw_free mw))"

lemma nw_le: "n \<le> 65536 \<Longrightarrow> nw n \<le> 2048 \<and> nw (nw n) \<le> 64"
proof -
  assume "n \<le> 65536"
  then have "nw n \<le> (65536 + 31) div 32" unfolding nw_def by (intro div_le_mono) simp
  then have a: "nw n \<le> 2048" by simp
  then have "nw (nw n) \<le> (2048 + 31) div 32" unfolding nw_def [of "nw n"] by (intro div_le_mono) simp
  then show ?thesis using a by simp
qed

lemma less_nw: "w < nw n \<longleftrightarrow> 32 * w < n"
  unfolding nw_def less_eq_Suc_le [of w] by (subst less_eq_div_iff_mult_less_eq) auto

lemma div32_less_nw: "i < n \<Longrightarrow> i div 32 < nw n"
  by (simp add: less_nw)

lemma nw_word: "w < nw n \<Longrightarrow> w < 32 * nw (nw n) \<and> w div 32 < nw (nw n)"
  using div32_less_nw [of w "nw n"] less_nw [of "w div 32" "nw n"] by (auto simp: less_nw nw_def)

lemma mw_free_finite: "mw_inv n mw \<Longrightarrow> finite (mw_free mw) \<and> card (mw_free mw) \<le> n"
  unfolding mw_inv_def by (metis card_lessThan card_mono finite_lessThan finite_subset)

text \<open>A step that replaces one word of the second level and keeps the first level in line with it.\<close>

lemma mw_inv_step:
  assumes inv: "mw_inv n mw" and w: "w < nw n"
    and f: "wmaps mw' = wmaps mw" "imaps mw' = imaps mw"
      "id_bitmap mw' = (id_bitmap mw)[w := x]" "wd_count mw' = (wd_count mw)[w := c]"
      "wd_bitmap mw' = (wd_bitmap mw)[w div 32 := y]" "ifree mw' = int (card (mw_free mw'))"
    and c: "unat c = card {b. bit x b}"
    and y: "\<And>k. k < 32 \<Longrightarrow> bit y k \<longleftrightarrow> (if k = w mod 32 then x \<noteq> 0 else bit (wd_bitmap mw ! (w div 32)) k)"
    and sub: "mw_free mw' \<subseteq> {..<n}"
  shows "mw_inv n mw'"
proof -
  have n: "n \<le> 65536" and len: "length (id_bitmap mw) = nw n" "length (wd_bitmap mw) = 64" "length (wd_count mw) = 2048"
    using inv by (auto simp: mw_inv_def)
  have lw: "w < 2048" "w div 32 < 64" using nw_le [OF n] nw_word [OF w] w by auto
  have cnt: "unat (wd_count mw' ! v) = card {b. bit (id_bitmap mw' ! v) b}" if "v < nw n" for v
    using that inv c lw len by (cases "v = w") (auto simp: f mw_inv_def)
  have wd: "bit (wd_bitmap mw' ! (v div 32)) (v mod 32) \<longleftrightarrow> v < nw n \<and> id_bitmap mw' ! v \<noteq> 0"
    if v: "v < 32 * nw (nw n)" for v
  proof (cases "v = w")
    case True
    then show ?thesis using w lw len y by (simp add: f)
  next
    case False
    have "bit (wd_bitmap mw' ! (v div 32)) (v mod 32) = bit (wd_bitmap mw ! (v div 32)) (v mod 32)"
    proof (cases "v div 32 = w div 32")
      case True
      then have "v mod 32 \<noteq> w mod 32" using False by (metis div_mult_mod_eq)
      then show ?thesis using True lw len y [of "v mod 32"] by (simp add: f)
    next
      case False
      then show ?thesis by (simp add: f)
    qed
    then show ?thesis using inv v False by (simp add: f mw_inv_def)
  qed
  show ?thesis using inv cnt wd sub f by (simp add: mw_inv_def)
qed

lemma mw_free_word:
  assumes "length (id_bitmap mw) = nw n" and "w < nw n" and "id_bitmap mw' = (id_bitmap mw)[w := x]"
  shows "i \<in> mw_free mw' \<longleftrightarrow> (if i div 32 = w then bit x (i mod 32) else i \<in> mw_free mw)"
  using assms by (auto simp: mw_free_def)

lemma bits_xor: "bit x b \<Longrightarrow> {k. bit (x XOR push_bit b 1 :: u32) k} = {k. bit x k} - {b}"
  by (auto simp: bit_xor_iff bit_pow dest: bit_u32_less)

lemma bits_or: "b < 32 \<Longrightarrow> {k. bit (x OR push_bit b 1 :: u32) k} = insert b {k. bit x k}"
  by (auto simp: bit_or_iff bit_pow)

lemma force_inv:
  assumes inv: "mw_inv n mw" and i: "i \<in> mw_free mw"
  shows "mw_inv n (bcm_mwbmap_force i mw) \<and> mw_free (bcm_mwbmap_force i mw) = mw_free mw - {i}"
proof -
  let ?w = "i div 32" and ?b = "i mod 32" and ?mw = "bcm_mwbmap_force i mw"
  let ?x = "(id_bitmap mw ! ?w) XOR push_bit ?b 1"
  let ?c = "wd_count mw ! ?w - 1"
  have len: "length (id_bitmap mw) = nw n" "length (wd_count mw) = 2048" and n: "n \<le> 65536"
    and sub: "mw_free mw \<subseteq> {..<n}" using inv by (auto simp: mw_inv_def)
  have w: "?w < nw n" "bit (id_bitmap mw ! ?w) ?b" using i len by (auto simp: mw_free_def)
  have w48: "?w < 2048" using nw_le [OF n] w(1) by linarith
  have id: "id_bitmap ?mw = (id_bitmap mw)[?w := ?x]"
    by (simp add: bcm_mwbmap_force_def DIVOP_def MODOP_def Let_def)
  have fr: "mw_free ?mw = mw_free mw - {i}"
  proof (rule set_eqI)
    fix j
    have "bit ?x (j mod 32) \<longleftrightarrow> bit (id_bitmap mw ! ?w) (j mod 32) \<and> j mod 32 \<noteq> ?b"
      using w(2) by (auto simp: bit_xor_iff bit_pow)
    moreover have "j = i \<longleftrightarrow> j div 32 = ?w \<and> j mod 32 = ?b" by (metis div_mult_mod_eq)
    ultimately show "j \<in> mw_free ?mw \<longleftrightarrow> j \<in> mw_free mw - {i}"
      using mw_free_word [OF len(1) w(1) id, of j] w len by (auto simp: mw_free_def)
  qed
  have cold: "unat (wd_count mw ! ?w) = card {k. bit (id_bitmap mw ! ?w) k}" using inv w(1) by (simp add: mw_inv_def)
  have pos: "0 < card {k. bit (id_bitmap mw ! ?w) k}" using w(2) finite_bits by (auto simp: card_gt_0_iff)
  then have cnz: "wd_count mw ! ?w \<noteq> 0" using cold by auto
  have c: "unat ?c = card {k. bit ?x k}"
    unfolding bits_xor [OF w(2)] unat_minus_one [OF cnz] cold
    by (subst card_Diff_singleton) (use w(2) in auto)
  have zero: "?c = 0 \<longleftrightarrow> ?x = 0"
    using c bits_empty [of ?x] finite_bits [of ?x] by (metis card_0_eq unat_eq_zero)
  have wdold: "bit (wd_bitmap mw ! (?w div 32)) (?w mod 32)"
  proof -
    have "id_bitmap mw ! ?w \<noteq> 0" using w(2) by auto
    then show ?thesis using inv nw_word [OF w(1)] w(1) by (simp add: mw_inv_def)
  qed
  have "mw_inv n ?mw"
  proof (rule mw_inv_step [OF inv w(1) _ _ id _ _ _ c])
    show "wd_bitmap ?mw = (wd_bitmap mw)[?w div 32 := (wd_bitmap mw ! (?w div 32)) XOR
        (if ?c = 0 then push_bit (?w mod 32) 1 else 0)]"
      "wd_count ?mw = (wd_count mw)[?w := ?c]"
      using w48 len by (simp_all add: bcm_mwbmap_force_def DIVOP_def MODOP_def Let_def)
    show "bit ((wd_bitmap mw ! (?w div 32)) XOR (if ?c = 0 then push_bit (?w mod 32) 1 else 0)) k
        \<longleftrightarrow> (if k = ?w mod 32 then ?x \<noteq> 0 else bit (wd_bitmap mw ! (?w div 32)) k)" if "k < 32" for k
      using wdold zero by (auto simp: bit_xor_iff bit_pow)
    show "ifree ?mw = int (card (mw_free ?mw))"
      using inv mw_free_finite [OF inv] i fr card_gt_0_iff [of "mw_free mw"]
      by (auto simp: bcm_mwbmap_force_def Let_def mw_inv_def of_nat_diff Suc_leI)
    show "mw_free ?mw \<subseteq> {..<n}" using fr sub by auto
  qed (simp_all add: bcm_mwbmap_force_def Let_def)
  then show ?thesis using fr by simp
qed

lemma free_inv:
  assumes inv: "mw_inv n mw" and i: "i < n" "i \<notin> mw_free mw"
  shows "mw_inv n (bcm_mwbmap_free i mw) \<and> mw_free (bcm_mwbmap_free i mw) = insert i (mw_free mw)"
proof -
  let ?w = "i div 32" and ?b = "i mod 32" and ?mw = "bcm_mwbmap_free i mw"
  let ?x = "(id_bitmap mw ! ?w) OR push_bit ?b 1"
  let ?c = "wd_count mw ! ?w + 1"
  have len: "length (id_bitmap mw) = nw n" "length (wd_count mw) = 2048" and n: "n \<le> 65536"
    and sub: "mw_free mw \<subseteq> {..<n}" using inv by (auto simp: mw_inv_def)
  have w: "?w < nw n" "\<not> bit (id_bitmap mw ! ?w) ?b" using i len div32_less_nw by (auto simp: mw_free_def)
  have w48: "?w < 2048" using nw_le [OF n] w(1) by linarith
  have id: "id_bitmap ?mw = (id_bitmap mw)[?w := ?x]"
    by (simp add: bcm_mwbmap_free_def DIVOP_def MODOP_def Let_def)
  have fr: "mw_free ?mw = insert i (mw_free mw)"
  proof (rule set_eqI)
    fix j
    have "bit ?x (j mod 32) \<longleftrightarrow> bit (id_bitmap mw ! ?w) (j mod 32) \<or> j mod 32 = ?b"
      by (auto simp: bit_or_iff bit_pow)
    moreover have "j = i \<longleftrightarrow> j div 32 = ?w \<and> j mod 32 = ?b" by (metis div_mult_mod_eq)
    ultimately show "j \<in> mw_free ?mw \<longleftrightarrow> j \<in> insert i (mw_free mw)"
      using mw_free_word [OF len(1) w(1) id, of j] w len by (auto simp: mw_free_def)
  qed
  have cold: "unat (wd_count mw ! ?w) = card {k. bit (id_bitmap mw ! ?w) k}" using inv w(1) by (simp add: mw_inv_def)
  have bits: "{k. bit ?x k} = insert ?b {k. bit (id_bitmap mw ! ?w) k}" by (rule bits_or) simp
  have "card {k. bit ?x k} = Suc (card {k. bit (id_bitmap mw ! ?w) k})"
    unfolding bits using w(2) finite_bits by (subst card_insert_disjoint) auto
  then have c: "unat ?c = card {k. bit ?x k}"
    using cold card_bits [of ?x] by (simp add: unat_word_ariths)
  have xnz: "?x \<noteq> 0" using bits bits_empty [of ?x] by auto
  have "mw_inv n ?mw"
  proof (rule mw_inv_step [OF inv w(1) _ _ id _ _ _ c])
    show "wd_bitmap ?mw = (wd_bitmap mw)[?w div 32 := (wd_bitmap mw ! (?w div 32)) OR push_bit (?w mod 32) 1]"
      "wd_count ?mw = (wd_count mw)[?w := ?c]"
      using w48 len by (simp_all add: bcm_mwbmap_free_def DIVOP_def MODOP_def Let_def)
    show "bit ((wd_bitmap mw ! (?w div 32)) OR push_bit (?w mod 32) 1) k
        \<longleftrightarrow> (if k = ?w mod 32 then ?x \<noteq> 0 else bit (wd_bitmap mw ! (?w div 32)) k)" if "k < 32" for k
      using xnz by (auto simp: bit_or_iff bit_pow)
    show "ifree ?mw = int (card (mw_free ?mw))"
      using inv mw_free_finite [OF inv] i(2) fr by (auto simp: bcm_mwbmap_free_def Let_def mw_inv_def)
    show "mw_free ?mw \<subseteq> {..<n}" using fr sub i by auto
  qed (simp_all add: bcm_mwbmap_free_def Let_def)
  then show ?thesis using fr by simp
qed

section \<open>Allocation\<close>

text \<open>The first level leads to the first word with a free id, the second to its lowest bit.\<close>

lemma wd_find:
  assumes inv: "mw_inv n mw"
  shows "case find (\<lambda>w. wd_bitmap mw ! w \<noteq> 0) [0..<unat (wmaps mw)] of
      None \<Rightarrow> mw_free mw = {}
    | Some v \<Rightarrow> v < nw (nw n) \<and> wd_bitmap mw ! v \<noteq> 0 \<and> (\<forall>i\<in>mw_free mw. v \<le> i div 32 div 32)"
proof -
  have wm: "unat (wmaps mw) = nw (nw n)" using inv by (simp add: mw_inv_def)
  have nz: "i div 32 < nw n \<and> i div 32 div 32 < nw (nw n) \<and> wd_bitmap mw ! (i div 32 div 32) \<noteq> 0" if i: "i \<in> mw_free mw" for i
  proof -
    have w: "i div 32 < nw n" "id_bitmap mw ! (i div 32) \<noteq> 0"
      using i inv by (auto simp: mw_free_def mw_inv_def)
    then have "bit (wd_bitmap mw ! (i div 32 div 32)) (i div 32 mod 32)"
      using inv nw_word [OF w(1)] by (simp add: mw_inv_def)
    then show ?thesis using w(1) nw_word [OF w(1)] by auto
  qed
  show ?thesis
  proof (cases "find (\<lambda>w. wd_bitmap mw ! w \<noteq> 0) [0..<unat (wmaps mw)]")
    case None
    then have "\<forall>w<nw (nw n). wd_bitmap mw ! w = 0" by (auto simp: find_None_iff wm)
    then show ?thesis using None nz by auto
  next
    case (Some v)
    then have v: "v < nw (nw n)" "wd_bitmap mw ! v \<noteq> 0" "\<And>j. j < v \<Longrightarrow> wd_bitmap mw ! j = 0"
      by (auto simp: find_Some_iff wm)
    then show ?thesis using Some nz by (auto simp: not_less [symmetric])
  qed
qed

lemma lex32:
  assumes "v \<le> j div 32" and "j div 32 = v \<Longrightarrow> b \<le> j mod 32" and "b < 32"
  shows "v * 32 + b \<le> (j :: nat)"
proof (cases "j div 32 = v")
  case True
  then show ?thesis using assms(2) div_mult_mod_eq [of j 32] by linarith
next
  case False
  then have "Suc v \<le> j div 32" using assms(1) by simp
  then show ?thesis using assms(3) div_mult_mod_eq [of j 32] by linarith
qed

lemma dm32: "k < 32 \<Longrightarrow> (w * 32 + k) div 32 = (w :: nat)" "k < 32 \<Longrightarrow> (w * 32 + k) mod 32 = (k :: nat)"
  by simp_all

lemma clz_pow: "k < 32 \<Longrightarrow> bcm_count_leading_zeros (2 ^ k) = 31 - k"
  using clz_bit [of k] by (simp only: push_bit_of_1)

lemma alloc_eq_force:
  assumes inv: "mw_inv n mw" and ne: "mw_free mw \<noteq> {}"
  shows "bcm_mwbmap_alloc mw = (Min (mw_free mw), bcm_mwbmap_force (Min (mw_free mw)) mw) \<and>
    Min (mw_free mw) \<in> mw_free mw"
proof -
  have fin: "finite (mw_free mw)" using mw_free_finite [OF inv] by simp
  have n: "n \<le> 65536" and len: "length (wd_bitmap mw) = 64" "length (wd_count mw) = 2048" "length (id_bitmap mw) = nw n"
    using inv by (auto simp: mw_inv_def)
  obtain v where fv: "find (\<lambda>w. wd_bitmap mw ! w \<noteq> 0) [0..<unat (wmaps mw)] = Some v"
    and v: "v < nw (nw n)" "wd_bitmap mw ! v \<noteq> 0" "\<And>i. i \<in> mw_free mw \<Longrightarrow> v \<le> i div 32 div 32"
    using wd_find [OF inv] ne by (auto split: option.splits)
  obtain b where b: "b < 32" "bit (wd_bitmap mw ! v) b" "\<And>j. bit (wd_bitmap mw ! v) j \<Longrightarrow> b \<le> j"
    "trailing_1 (wd_bitmap mw ! v) = push_bit b 1" using lowest_bit [OF v(2)] by metis
  let ?w = "v * 32 + b"
  have wdm: "?w div 32 = v" "?w mod 32 = b" using dm32 [OF b(1), of v] by blast+
  have iff: "bit (wd_bitmap mw ! (u div 32)) (u mod 32) \<longleftrightarrow> u < nw n \<and> id_bitmap mw ! u \<noteq> 0"
    if "u < 32 * nw (nw n)" for u using inv that by (simp add: mw_inv_def)
  have "?w < 32 * nw (nw n)" using v(1) b(1) by linarith
  from iff [OF this] have w: "?w < nw n" "id_bitmap mw ! ?w \<noteq> 0" using b(2) wdm by simp_all
  obtain k where k: "k < 32" "bit (id_bitmap mw ! ?w) k" "\<And>j. bit (id_bitmap mw ! ?w) j \<Longrightarrow> k \<le> j"
    "trailing_1 (id_bitmap mw ! ?w) = push_bit k 1" using lowest_bit [OF w(2)] by metis
  let ?i = "?w * 32 + k"
  have idm: "?i div 32 = ?w" "?i mod 32 = k" using dm32 [OF k(1), of ?w] by blast+
  have mem: "?i \<in> mw_free mw" using w(1) k(2) len idm by (simp add: mw_free_def)
  have low: "?i \<le> i" if i: "i \<in> mw_free mw" for i
  proof -
    have iw: "i div 32 < nw n" "bit (id_bitmap mw ! (i div 32)) (i mod 32)" using i len by (auto simp: mw_free_def)
    then have "bit (wd_bitmap mw ! (i div 32 div 32)) (i div 32 mod 32)"
      using iff [of "i div 32"] nw_word [OF iw(1)] by auto
    then have "i div 32 div 32 = v \<Longrightarrow> b \<le> i div 32 mod 32" using b(3) by auto
    then have ge: "?w \<le> i div 32" using v(3) [OF i] b(1) by (intro lex32) auto
    moreover have "i div 32 = ?w \<Longrightarrow> k \<le> i mod 32" using iw(2) k(3) by auto
    ultimately show ?thesis using k(1) by (rule lex32)
  qed
  have min: "Min (mw_free mw) = ?i" using fin mem low by (intro Min_eqI) auto
  show ?thesis unfolding min
    using fv b(1,4) k(1,4) mem wdm idm
    by (simp add: bcm_mwbmap_alloc_def bcm_mwbmap_force_def clz_pow MULOP_def DIVOP_def MODOP_def Let_def)
qed

lemma alloc_none:
  assumes inv: "mw_inv n mw" and e: "mw_free mw = {}"
  shows "bcm_mwbmap_alloc mw = (BCM_MWBMAP_INVALID_IDX, mw)"
proof -
  have "find (\<lambda>w. wd_bitmap mw ! w \<noteq> 0) [0..<unat (wmaps mw)] = None"
  proof (rule ccontr)
    assume "find (\<lambda>w. wd_bitmap mw ! w \<noteq> 0) [0..<unat (wmaps mw)] \<noteq> None"
    then obtain v where v: "v < nw (nw n)" "wd_bitmap mw ! v \<noteq> 0"
      using wd_find [OF inv] by auto
    obtain b where b: "b < 32" "bit (wd_bitmap mw ! v) b" using lowest_bit [OF v(2)] by metis
    have "v * 32 + b < 32 * nw (nw n)" using v(1) b(1) by linarith
    then have w: "v * 32 + b < nw n" "id_bitmap mw ! (v * 32 + b) \<noteq> 0"
      using inv b dm32 [OF b(1), of v] by (auto simp: mw_inv_def)
    obtain k where k: "k < 32" "bit (id_bitmap mw ! (v * 32 + b)) k" using lowest_bit [OF w(2)] by metis
    have "(v * 32 + b) * 32 + k \<in> mw_free mw"
      unfolding mw_free_def mem_Collect_eq dm32 [OF k(1)] using inv w(1) k(2) by (simp add: mw_inv_def)
    then show False using e by simp
  qed
  then show ?thesis by (simp add: bcm_mwbmap_alloc_def)
qed

section \<open>Initialisation\<close>

lemma nw_div_mod: "n div 32 + (if n mod 32 \<noteq> 0 then 1 else 0) = nw n"
proof -
  have "(n + 31) div 32 = n div 32 + (n mod 32 + 31) div 32" using div_mult_self3 [of 32 "n div 32" "n mod 32 + 31"]
    by (simp add: algebra_simps)
  moreover have "(n mod 32 + 31) div 32 = (if n mod 32 \<noteq> 0 then 1 else 0)"
    using mod_less_divisor [of 32 n] by (auto simp: div_nat_eqI)
  ultimately show ?thesis by (simp add: nw_def)
qed

lemma div32_rest: "32 * (n div 32) + b < n \<longleftrightarrow> b < n mod 32" for n :: nat
  using mult_div_mod_eq [of 32 n] by linarith

lemma div32_full: "w < n div 32 \<Longrightarrow> b < 32 \<Longrightarrow> 32 * w + b < n" for n :: nat
proof -
  assume "w < n div 32" "b < 32"
  then have "Suc w * 32 \<le> n div 32 * 32" by (intro mult_le_mono1) simp
  then have "Suc w * 32 \<le> n" using div_times_less_eq_dividend [of n 32] by (rule le_trans)
  then show ?thesis using \<open>b < 32\<close> by simp
qed

lemma all_ones_bit:
  assumes "nw n \<le> L" and w: "w < L"
  shows "bit (all_ones (nw n) (n mod 32) (replicate L 0) ! w) b \<longleftrightarrow> b < 32 \<and> 32 * w + b < n"
proof -
  have n: "n = n div 32 * 32 + n mod 32" "n mod 32 < 32" by simp_all
  show ?thesis
  proof (cases "n mod 32 \<noteq> 0 \<and> w = nw n - 1")
    case True
    then have "nw n = Suc (n div 32)" "w = n div 32" using nw_div_mod [of n] by auto
    moreover note div32_rest [of n b]
    ultimately show ?thesis using True n(2) assms w
      by (auto simp: all_ones_def Let_def bit_simps dest: bit_u32_less)
  next
    case False
    have "32 * w + b < n \<longleftrightarrow> w < nw n" if "b < 32"
    proof
      assume "32 * w + b < n" then show "w < nw n" by (simp add: less_nw)
    next
      assume "w < nw n"
      then have "w < n div 32" using False nw_div_mod [of n] by (auto split: if_splits)
      then show "32 * w + b < n" using that by (rule div32_full)
    qed
    moreover have "all_ones (nw n) (n mod 32) (replicate L 0) ! w = (if w < nw n then NOT 0 else 0)"
      using False w assms by (auto simp: all_ones_def Let_def)
    ultimately show ?thesis by (auto simp: bit_simps)
  qed
qed

lemma init_inv:
  assumes n: "n \<le> 65536"
  shows "\<exists>mw. bcm_mwbmap_init True n = Some mw \<and> mw_inv n mw \<and> mw_free mw = {..<n}"
proof -
  have le: "nw n \<le> 2048" "nw (nw n) \<le> 64" using nw_le [OF n] by auto
  have u: "unat (of_nat (nw n) :: u16) = nw n" "unat (of_nat (nw (nw n)) :: u16) = nw (nw n)"
    using le by (auto intro!: unat_of_nat_u16)
  let ?ids = "all_ones (nw n) (n mod 32) (replicate (nw n) 0)"
  let ?wds = "all_ones (nw (nw n)) (nw n mod 32) (replicate 64 0)"
  let ?cs = "map (\<lambda>w. if w < nw n then 32 else (0 :: u8)) [0..<2048]"
  let ?cs' = "if n mod 32 \<noteq> 0 then ?cs[nw n - 1 := of_nat (n mod 32)] else ?cs"
  let ?mw = "\<lparr>wmaps = of_nat (nw (nw n)), imaps = of_nat (nw n), ifree = int n, mw_total = of_nat n,
    wd_bitmap = ?wds, wd_count = ?cs', id_bitmap = ?ids\<rparr>"
  have "bcm_mwbmap_init True n = Some ?mw"
    unfolding bcm_mwbmap_init_def DIVOP_def MODOP_def Let_def BCM_MWBMAP_WORDS_MAX_def
      BCM_MWBMAP_WDMAP_MAX_def nw_div_mod u by simp
  moreover have len: "length ?ids = nw n" "length ?wds = 64" by (simp_all add: all_ones_def Let_def)
  have idb: "bit (?ids ! w) b \<longleftrightarrow> b < 32 \<and> 32 * w + b < n" if "w < nw n" for w b
    using all_ones_bit [OF _ that] by simp
  have free: "mw_free ?mw = {..<n}"
  proof (rule set_eqI)
    fix i
    show "i \<in> mw_free ?mw \<longleftrightarrow> i \<in> {..<n}"
      using idb [of "i div 32" "i mod 32"] div32_less_nw [of i n] by (auto simp: mw_free_def len)
  qed
  moreover have "mw_inv n ?mw"
  proof -
    have "unat (?cs' ! w) = card {b. bit (?ids ! w) b}" if w: "w < nw n" for w
    proof (cases "n mod 32 \<noteq> 0 \<and> w = nw n - 1")
      case True
      then have "w = n div 32" using nw_div_mod [of n] by auto
      then have "b \<in> {b. bit (?ids ! w) b} \<longleftrightarrow> b \<in> {..<n mod 32}" for b
        using idb [OF w, of b] div32_rest [of n b] mod_less_divisor [of 32 n] by auto
      then have "{b. bit (?ids ! w) b} = {..<n mod 32}" by blast
      moreover have "?cs' ! w = of_nat (n mod 32)" using True w le by simp
      moreover have "unat (of_nat (n mod 32) :: u8) = n mod 32"
        using mod_less_divisor [of 32 n] by (simp add: unat_of_nat)
      ultimately show ?thesis by simp
    next
      case False
      then have "w < n div 32" using w nw_div_mod [of n] by (auto split: if_splits)
      then have "b \<in> {b. bit (?ids ! w) b} \<longleftrightarrow> b \<in> {..<32}" for b
        using idb [OF w, of b] div32_full [of w n b] by auto
      then have "{b. bit (?ids ! w) b} = {..<32}" by blast
      moreover have "?cs' ! w = 32" using False w le by auto
      ultimately show ?thesis by simp
    qed
    moreover have "bit (?wds ! (w div 32)) (w mod 32) \<longleftrightarrow> w < nw n \<and> ?ids ! w \<noteq> 0"
      if w: "w < 32 * nw (nw n)" for w
    proof -
      have "w div 32 < 64" using w le by (simp add: div_less_iff_less_mult)
      then have "bit (?wds ! (w div 32)) (w mod 32) \<longleftrightarrow> w < nw n"
        using all_ones_bit [of "nw n" 64 "w div 32" "w mod 32"] le by simp
      moreover have "w < nw n \<Longrightarrow> bit (?ids ! w) 0" using idb [of w 0] by (simp add: less_nw)
      ultimately show ?thesis by auto
    qed
    ultimately show ?thesis using n u free len by (simp add: mw_inv_def)
  qed
  ultimately show ?thesis by blast
qed

end
