(* ===== verification/Id_Alloc.thy ===== *)
theory Id_Alloc
  imports Mwbmap_Correct
begin

unbundle bit_operations_syntax

text \<open>
  The contract of an id allocator and its two implementations. \<open>id_reach\<close> are the states a client
  reaches from a start state by allocating and by releasing ids it holds, paired with the ids it
  holds. In every such state the held and the available ids partition the managed ones.
\<close>

section \<open>The contract\<close>

inductive id_reach ::
    "('s \<Rightarrow> 'i \<times> 's) \<Rightarrow> ('i \<Rightarrow> 's \<Rightarrow> 's) \<Rightarrow> 'i \<Rightarrow> 's \<Rightarrow> 's \<times> 'i set \<Rightarrow> bool"
  for alloc release bad s0 where
  start: "id_reach alloc release bad s0 (s0, {})"
| allocate: "id_reach alloc release bad s0 (s, out) \<Longrightarrow> alloc s = (i, s') \<Longrightarrow>
    id_reach alloc release bad s0 (s', if i = bad then out else insert i out)"
| give_back: "id_reach alloc release bad s0 (s, out) \<Longrightarrow> i \<in> out \<Longrightarrow>
    id_reach alloc release bad s0 (release i s, out - {i})"

locale id_allocator =
  fixes inv :: "'s \<Rightarrow> bool" and avail :: "'s \<Rightarrow> 'i set" and ids :: "'i set"
    and alloc :: "'s \<Rightarrow> 'i \<times> 's" and release :: "'i \<Rightarrow> 's \<Rightarrow> 's" and bad :: 'i
  assumes avail_sub: "inv s \<Longrightarrow> avail s \<subseteq> ids" and bad: "inv s \<Longrightarrow> bad \<notin> ids"
    and alloc_some: "inv s \<Longrightarrow> avail s \<noteq> {} \<Longrightarrow>
      \<exists>i s'. alloc s = (i, s') \<and> i \<in> avail s \<and> inv s' \<and> avail s' = avail s - {i}"
    and alloc_empty: "inv s \<Longrightarrow> avail s = {} \<Longrightarrow>
      \<exists>s'. alloc s = (bad, s') \<and> inv s' \<and> avail s' = {}"
    and release: "inv s \<Longrightarrow> i \<in> ids \<Longrightarrow> i \<notin> avail s \<Longrightarrow>
      inv (release i s) \<and> avail (release i s) = insert i (avail s)"
begin

lemma reach_partition:
  assumes "id_reach alloc release bad s0 (s, out)" and "inv s0" and "avail s0 = ids"
  shows "inv s \<and> out \<union> avail s = ids \<and> out \<inter> avail s = {}"
  using assms
proof (induction "(s, out)" arbitrary: s out rule: id_reach.induct)
  case start
  then show ?case by simp
next
  case (allocate s out i s')
  then have IH: "inv s" "out \<union> avail s = ids" "out \<inter> avail s = {}" by auto
  show ?case
  proof (cases "avail s = {}")
    case True
    with alloc_empty [OF IH(1)] allocate.hyps(3) IH show ?thesis by auto
  next
    case False
    with alloc_some [OF IH(1)] allocate.hyps(3) have "i \<in> avail s" "inv s'" "avail s' = avail s - {i}" by auto
    moreover have "i \<noteq> bad" using \<open>i \<in> avail s\<close> IH(2) bad [OF IH(1)] by auto
    ultimately show ?thesis using IH by auto
  qed
next
  case (give_back s out i)
  then have IH: "inv s" "out \<union> avail s = ids" "out \<inter> avail s = {}" by auto
  then have "i \<in> ids" "i \<notin> avail s" using give_back.hyps(3) by auto
  from release [OF IH(1) this] IH give_back.hyps(3) show ?case by auto
qed

lemma alloc_fresh:
  assumes r: "id_reach alloc release bad s0 (s, out)" and "inv s0" and "avail s0 = ids"
    and a: "alloc s = (i, s')"
  shows "(i = bad \<longleftrightarrow> out = ids) \<and> (i \<noteq> bad \<longrightarrow> i \<in> ids \<and> i \<notin> out)"
proof -
  have p: "inv s" "out \<union> avail s = ids" "out \<inter> avail s = {}" using reach_partition [OF assms(1-3)] by auto
  show ?thesis
  proof (cases "avail s = {}")
    case True
    with alloc_empty [OF p(1)] a p show ?thesis by auto
  next
    case False
    with alloc_some [OF p(1)] a have "i \<in> avail s" by auto
    then show ?thesis using p bad [OF p(1)] by auto
  qed
qed

end

section \<open>The bitmap allocator\<close>

interpretation mwa: id_allocator "mw_inv n" mw_free "{..<n}" bcm_mwbmap_alloc bcm_mwbmap_free
    BCM_MWBMAP_INVALID_IDX for n
proof
  fix mw assume inv: "mw_inv n mw"
  then have n: "n \<le> 65536" by (simp add: mw_inv_def)
  show "mw_free mw \<subseteq> {..<n}" using inv by (simp add: mw_inv_def)
  show "\<exists>i mw'. bcm_mwbmap_alloc mw = (i, mw') \<and> i \<in> mw_free mw \<and> mw_inv n mw' \<and> mw_free mw' = mw_free mw - {i}"
    if "mw_free mw \<noteq> {}"
    using alloc_eq_force [OF inv that] force_inv [OF inv] by auto
  show "BCM_MWBMAP_INVALID_IDX \<notin> {..<n}" using n by (simp add: BCM_MWBMAP_INVALID_IDX_def)
  show "\<exists>mw'. bcm_mwbmap_alloc mw = (BCM_MWBMAP_INVALID_IDX, mw') \<and> mw_inv n mw' \<and> mw_free mw' = {}"
    if "mw_free mw = {}"
    using alloc_none [OF inv that] inv that by simp
  show "mw_inv n (bcm_mwbmap_free i mw) \<and> mw_free (bcm_mwbmap_free i mw) = insert i (mw_free mw)"
    if "i \<in> {..<n}" "i \<notin> mw_free mw" for i
    using free_inv [OF inv _ that(2)] that(1) by simp
qed

lemma isfree_iff: "mw_inv n mw \<Longrightarrow> i < n \<Longrightarrow> bcm_mwbmap_isfree i mw \<longleftrightarrow> i \<in> mw_free mw"
  using div32_less_nw [of i n] and_exp_eq_0_iff_not_bit [of "id_bitmap mw ! (i div 32)" "i mod 32"]
  by (simp add: bcm_mwbmap_isfree_def mw_free_def mw_inv_def DIVOP_def MODOP_def)

lemma free_cnt_card: "mw_inv n mw \<Longrightarrow> bcm_mwbmap_free_cnt mw = card (mw_free mw)"
proof -
  assume inv: "mw_inv n mw"
  then have "card (mw_free mw) < 2 ^ 32" "ifree mw = int (card (mw_free mw))"
    using mw_free_finite [OF inv] by (auto simp: mw_inv_def)
  then show ?thesis by (simp add: bcm_mwbmap_free_cnt_def)
qed

text \<open>The words the audit visits, and what it counts.\<close>

lemma free_words:
  assumes "mw_inv n mw"
  shows "mw_free mw = (\<Union>w<nw n. (\<lambda>b. w * 32 + b) ` {b. bit (id_bitmap mw ! w) b})"
proof (rule set_eqI)
  fix i
  have len: "length (id_bitmap mw) = nw n" using assms by (simp add: mw_inv_def)
  have "i \<in> (\<lambda>b. w * 32 + b) ` {b. bit (id_bitmap mw ! w) b} \<longleftrightarrow> i div 32 = w \<and> bit (id_bitmap mw ! w) (i mod 32)" for w
  proof
    assume "i \<in> (\<lambda>b. w * 32 + b) ` {b. bit (id_bitmap mw ! w) b}"
    then obtain b where b: "i = w * 32 + b" "bit (id_bitmap mw ! w) b" by auto
    then show "i div 32 = w \<and> bit (id_bitmap mw ! w) (i mod 32)" using dm32 [OF bit_u32_less [OF b(2)], of w] by simp
  next
    assume "i div 32 = w \<and> bit (id_bitmap mw ! w) (i mod 32)"
    then show "i \<in> (\<lambda>b. w * 32 + b) ` {b. bit (id_bitmap mw ! w) b}"
      using div_mult_mod_eq [of i 32] by (intro image_eqI [of _ _ "i mod 32"]) auto
  qed
  then show "i \<in> mw_free mw \<longleftrightarrow> i \<in> (\<Union>w<nw n. (\<lambda>b. w * 32 + b) ` {b. bit (id_bitmap mw ! w) b})"
    by (auto simp: mw_free_def len)
qed

lemma card_free_sum:
  assumes "mw_inv n mw"
  shows "card (mw_free mw) = (\<Sum>w<nw n. card {b. bit (id_bitmap mw ! w) b})"
proof -
  define A where "A w = (\<lambda>b. w * 32 + b) ` {b. bit (id_bitmap mw ! w) b}" for w
  have key: "i div 32 = w" if "i \<in> A w" for i w
  proof -
    from that obtain b where b: "i = w * 32 + b" "bit (id_bitmap mw ! w) b" unfolding A_def by blast
    then show ?thesis using dm32(1) [OF bit_u32_less [OF b(2)], of w] by simp
  qed
  have "A v \<inter> A w = {}" if "v \<noteq> w" for v w
  proof -
    have "i \<notin> A w" if "i \<in> A v" for i using key [of i v] key [of i w] that \<open>v \<noteq> w\<close> by metis
    then show ?thesis by (simp add: disjoint_iff)
  qed
  then have "card (\<Union>w<nw n. A w) = (\<Sum>w<nw n. card (A w))"
    by (intro card_UN_disjoint) (auto simp: A_def finite_bits)
  moreover have "card (A w) = card {b. bit (id_bitmap mw ! w) b}" for w unfolding A_def by (rule card_image) simp
  moreover have "mw_free mw = (\<Union>w<nw n. A w)" unfolding A_def by (rule free_words [OF assms])
  ultimately show ?thesis by simp
qed

definition audit_words :: "bcm_mwbmap \<Rightarrow> nat list" where
  "audit_words mw = concat (map (\<lambda>w. map (\<lambda>b. MULOP w + b)
     (filter (\<lambda>b. (wd_bitmap mw ! w) AND push_bit b 1 \<noteq> 0) [0..<32])) [0..<unat (wmaps mw)])"

lemma audit_words_filter:
  "audit_words mw = filter (\<lambda>w. bit (wd_bitmap mw ! (w div 32)) (w mod 32)) [0..<unat (wmaps mw) * 32]"
proof -
  have block: "map (\<lambda>b. MULOP w + b) (filter (\<lambda>b. (wd_bitmap mw ! w) AND push_bit b 1 \<noteq> 0) [0..<32])
      = filter (\<lambda>v. bit (wd_bitmap mw ! (v div 32)) (v mod 32)) [w * 32..<w * 32 + 32]" for w
  proof -
    have "[w * 32..<w * 32 + 32] = map (\<lambda>b. w * 32 + b) [0..<32]"
      using map_add_upt [of "w * 32" 32] by (simp only: add.commute)
    moreover have "filter (\<lambda>b. (wd_bitmap mw ! w) AND push_bit b 1 \<noteq> 0) [0..<32]
        = filter (\<lambda>b. bit (wd_bitmap mw ! ((w * 32 + b) div 32)) ((w * 32 + b) mod 32)) [0..<32]"
      using dm32 [of _ w] and_exp_eq_0_iff_not_bit [of "wd_bitmap mw ! w"] by (intro filter_cong) auto
    ultimately show ?thesis by (simp only: filter_map o_def MULOP_def)
  qed
  have "concat (map (\<lambda>w. filter P [w * 32..<w * 32 + 32]) [0..<n]) = filter P [0..<n * 32]" for P n
  proof (induction n)
    case (Suc n)
    have "[0..<Suc n * 32] = [0..<n * 32] @ [n * 32..<n * 32 + 32]"
      using upt_add_eq_append [of 0 "n * 32" 32] by (simp add: add.commute)
    then show ?case using Suc by simp
  qed simp
  then show ?thesis unfolding audit_words_def block by blast
qed

lemma audit_passes:
  assumes inv: "mw_inv n mw"
  shows "bcm_mwbmap_audit mw"
proof -
  have wm: "unat (wmaps mw) = nw (nw n)" and ifr: "ifree mw = int (card (mw_free mw))"
    and cnt: "\<And>w. w < nw n \<Longrightarrow> unat (wd_count mw ! w) = card {b. bit (id_bitmap mw ! w) b}"
    and iff: "\<And>w. w < 32 * nw (nw n) \<Longrightarrow> bit (wd_bitmap mw ! (w div 32)) (w mod 32) \<longleftrightarrow> w < nw n \<and> id_bitmap mw ! w \<noteq> 0"
    using inv by (auto simp: mw_inv_def)
  have dist: "distinct (audit_words mw)" unfolding audit_words_filter by simp
  have set: "set (audit_words mw) = {w. w < nw n \<and> id_bitmap mw ! w \<noteq> 0}"
    unfolding audit_words_filter wm using iff nw_word [of _ n] by (auto simp: mult.commute)
  have pos: "unat (wd_count mw ! w) = bcm_cntsetbits (id_bitmap mw ! w) \<and> wd_count mw ! w \<noteq> 0"
    if "w \<in> set (audit_words mw)" for w
  proof -
    have w: "w < nw n" "id_bitmap mw ! w \<noteq> 0" using that set by auto
    have "card {b. bit (id_bitmap mw ! w) b} \<noteq> 0"
      using bits_empty [of "id_bitmap mw ! w"] finite_bits [of "id_bitmap mw ! w"] w(2) by (metis card_0_eq)
    then show ?thesis using cnt [OF w(1)] by (auto simp: cntsetbits_card)
  qed
  have "sum_list (map (\<lambda>w. unat (wd_count mw ! w)) (audit_words mw)) = (\<Sum>w\<in>set (audit_words mw). unat (wd_count mw ! w))"
    using dist by (rule sum_list_distinct_conv_sum_set)
  also have "\<dots> = (\<Sum>w\<in>set (audit_words mw). card {b. bit (id_bitmap mw ! w) b})"
    using cnt set by (intro sum.cong) auto
  also have "\<dots> = (\<Sum>w<nw n. card {b. bit (id_bitmap mw ! w) b})"
    using bits_empty set by (intro sum.mono_neutral_left) auto
  finally have "int (sum_list (map (\<lambda>w. unat (wd_count mw ! w)) (audit_words mw))) = ifree mw"
    using card_free_sum [OF inv] ifr by simp
  then show ?thesis using pos unfolding bcm_mwbmap_audit_def audit_words_def Let_def by blast
qed

section \<open>The stack of ids\<close>

definition id16_ids :: "u16 \<Rightarrow> u16 \<Rightarrow> u16 set" where
  "id16_ids tot start = (\<lambda>k. start + of_nat k) ` {..<unat tot}"

definition id16_avail :: "id16_map \<Rightarrow> u16 set" where
  "id16_avail s = set (take (nat (stack_idx s + 1)) (id_stack s))"

definition id16_inv :: "u16 \<Rightarrow> u16 \<Rightarrow> id16_map \<Rightarrow> bool" where
  "id16_inv tot start s \<longleftrightarrow>
     unat start + unat tot < 65535 \<and> length (id_stack s) = unat tot \<and> id_total s = tot \<and> id_start s = start \<and>
     - 1 \<le> stack_idx s \<and> nat (stack_idx s + 1) \<le> unat tot \<and>
     distinct (take (nat (stack_idx s + 1)) (id_stack s)) \<and> id16_avail s \<subseteq> id16_ids tot start"

lemma id16_vals:
  assumes "unat (start :: u16) + unat (tot :: u16) < 65535" and "k < unat tot"
  shows "unat (start + of_nat k :: u16) = unat start + k"
  using assms by (simp add: unat_word_ariths unat_of_nat)

lemma id16_inj:
  assumes "unat (start :: u16) + unat (tot :: u16) < 65535"
  shows "inj_on (\<lambda>k. start + of_nat k :: u16) {..<unat tot}"
  by (rule inj_onI) (metis add_left_cancel assms id16_vals lessThan_iff)

lemma id16_card: "unat start + unat tot < 65535 \<Longrightarrow> card (id16_ids tot start) = unat tot"
  unfolding id16_ids_def by (simp add: card_image id16_inj)

lemma id16_avail_card:
  "id16_inv tot start s \<Longrightarrow> card (id16_avail s) = nat (stack_idx s + 1)"
  unfolding id16_inv_def id16_avail_def by (auto simp: distinct_card)

lemma id16_range:
  "unat start + unat tot < 65535 \<Longrightarrow> j \<in> id16_ids tot start \<Longrightarrow>
     unat start \<le> unat j \<and> unat j < unat start + unat tot"
  using id16_vals [of start tot] by (auto simp: id16_ids_def)

lemma id16_audit_passes:
  assumes inv: "id16_inv tot start s"
  shows "id16_map_audit s"
proof -
  let ?k = "nat (stack_idx s + 1)"
  have k: "?k \<le> length (id_stack s)" "- 1 \<le> stack_idx s" "?k \<le> unat (id_total s)"
    and lim: "unat start + unat tot < 65535" and sub: "id16_avail s \<subseteq> id16_ids tot start"
    and h: "id_start s = start" "id_total s = tot"
    using inv by (auto simp: id16_inv_def)
  have "id_stack s ! j \<in> id16_avail s" if "j < ?k" for j
    using that k(1) by (auto simp: id16_avail_def in_set_conv_nth intro!: exI [of _ j])
  then have "unat start \<le> unat (id_stack s ! j) \<and> unat (id_stack s ! j) < unat start + unat tot" if "j < ?k" for j
    using that sub id16_range [OF lim] by blast
  moreover have "stack_idx s < int (unat (id_total s))" using k(2,3) by linarith
  ultimately show ?thesis using k(2) h by (simp add: id16_map_audit_def del: of_nat_unat)
qed

lemma id16_alloc_some:
  assumes inv: "id16_inv tot start s" and ne: "id16_avail s \<noteq> {}"
  shows "\<exists>i s'. id16_map_alloc s = (i, s') \<and> i \<in> id16_avail s \<and> id16_inv tot start s' \<and>
    id16_avail s' = id16_avail s - {i}"
proof -
  let ?k = "nat (stack_idx s)" and ?s = "s\<lparr>stack_idx := stack_idx s - 1\<rparr>"
  have "0 < card (id16_avail s)" using ne by (simp add: id16_avail_def card_gt_0_iff)
  then have pos: "0 \<le> stack_idx s" using id16_avail_card [OF inv] by simp
  then have k: "?k < length (id_stack s)" "nat (stack_idx s + 1) = Suc ?k" using inv by (auto simp: id16_inv_def)
  have tk: "take (Suc ?k) (id_stack s) = take ?k (id_stack s) @ [id_stack s ! ?k]"
    by (rule take_Suc_conv_app_nth [OF k(1)])
  have d: "distinct (take ?k (id_stack s) @ [id_stack s ! ?k])" using inv k(2) tk by (simp add: id16_inv_def)
  have av: "id16_avail s = insert (id_stack s ! ?k) (set (take ?k (id_stack s)))" "id16_avail ?s = set (take ?k (id_stack s))"
    using k(2) tk by (auto simp: id16_avail_def)
  have "id16_inv tot start ?s" using inv pos d av by (auto simp: id16_inv_def)
  moreover have "id16_map_alloc s = (id_stack s ! ?k, ?s)" using pos by (simp add: id16_map_alloc_def)
  ultimately show ?thesis using av d by auto
qed

lemma id16_release:
  assumes inv: "id16_inv tot start s" and i: "i \<in> id16_ids tot start" "i \<notin> id16_avail s"
  shows "id16_inv tot start (id16_map_free i s) \<and> id16_avail (id16_map_free i s) = insert i (id16_avail s)"
proof -
  let ?k = "nat (stack_idx s + 1)" and ?s = "id16_map_free i s"
  have ids: "card (id16_ids tot start) = unat tot" using inv id16_card by (auto simp: id16_inv_def)
  have "id16_avail s \<subset> id16_ids tot start" using inv i by (auto simp: id16_inv_def)
  then have "card (id16_avail s) < unat tot"
    unfolding ids [symmetric] by (intro psubset_card_mono) (auto simp: id16_ids_def)
  then have k: "?k < length (id_stack s)" using id16_avail_card [OF inv] inv by (simp add: id16_inv_def)
  have s': "stack_idx ?s = stack_idx s + 1" "id_stack ?s = (id_stack s)[?k := i]"
    by (simp_all add: id16_map_free_def Let_def)
  have h: "id_total ?s = id_total s" "id_start ?s = id_start s" by (simp_all add: id16_map_free_def Let_def)
  have n: "nat (stack_idx ?s + 1) = Suc ?k" using inv s' by (auto simp: id16_inv_def)
  have tk: "take (Suc ?k) (id_stack ?s) = take ?k (id_stack s) @ [i]"
    using k by (simp add: s' take_Suc_conv_app_nth)
  have "distinct (take ?k (id_stack s) @ [i])" using inv i(2) by (auto simp: id16_inv_def id16_avail_def)
  moreover have av: "id16_avail ?s = insert i (id16_avail s)" unfolding id16_avail_def n tk by simp
  ultimately have "id16_inv tot start ?s"
    using inv i(1) k tk n s' h unfolding id16_inv_def by auto
  then show ?thesis using av by simp
qed

interpretation i16: id_allocator "id16_inv tot start" id16_avail "id16_ids tot start" id16_map_alloc id16_map_free
    ID16_INVALID for tot start
proof
  fix s assume inv: "id16_inv tot start s"
  then have lim: "unat start + unat tot < 65535" by (simp add: id16_inv_def)
  show "id16_avail s \<subseteq> id16_ids tot start" using inv by (simp add: id16_inv_def)
  show "ID16_INVALID \<notin> id16_ids tot start"
  proof
    assume "ID16_INVALID \<in> id16_ids tot start"
    then obtain k where "k < unat tot" "ID16_INVALID = start + of_nat k" by (auto simp: id16_ids_def)
    then have "unat ID16_INVALID = unat start + k" "k < unat tot" using id16_vals [OF lim, of k] by metis+
    then show False using lim by (simp add: ID16_INVALID_def)
  qed
  show "\<exists>s'. id16_map_alloc s = (ID16_INVALID, s') \<and> id16_inv tot start s' \<and> id16_avail s' = {}" if "id16_avail s = {}"
  proof -
    have "nat (stack_idx s + 1) = 0" using id16_avail_card [OF inv] that by simp
    then show ?thesis using inv that by (simp add: id16_map_alloc_def id16_inv_def id16_avail_def)
  qed
qed (rule id16_alloc_some id16_release; assumption)+

lemma id16_init_inv:
  assumes lim: "unat start + unat tot < 65535"
  shows "\<exists>s. id16_map_init True tot start = Some s \<and> id16_inv tot start s \<and> id16_avail s = id16_ids tot start"
proof -
  have st: "start \<noteq> ID16_UNDEFINED"
    using lim by (auto simp: ID16_UNDEFINED_def ID16_INVALID_def)
  let ?vals = "map (\<lambda>i. start + of_nat i) [0..<unat tot]"
  let ?s = "\<lparr>failures = 0, id_total = tot, id_start = start, stack_idx = int (unat tot) - 1, id_stack = ?vals\<rparr>"
  have "id16_map_init True tot start = Some ?s"
    using st by (simp add: id16_map_init_def id16_fill_def Let_def)
  moreover have "id16_avail ?s = id16_ids tot start"
    by (auto simp: id16_avail_def id16_ids_def lessThan_atLeast0 simp del: of_nat_unat)
  moreover have "distinct ?vals"
    using id16_inj [OF lim] by (simp add: distinct_map lessThan_atLeast0)
  ultimately show ?thesis using lim by (simp add: id16_inv_def del: of_nat_unat)
qed

section \<open>Properties\<close>

text \<open>\<open>bcm_mwbmap_alloc\<close> returns the lowest free index and takes exactly it out of the free set; it
  returns \<open>BCM_MWBMAP_INVALID_IDX\<close> and changes nothing exactly when no index is free.\<close>

theorem mwbmap_alloc_lowest:
  assumes "mw_inv n mw"
  shows "if mw_free mw = {} then bcm_mwbmap_alloc mw = (BCM_MWBMAP_INVALID_IDX, mw)
    else \<exists>mw'. bcm_mwbmap_alloc mw = (Min (mw_free mw), mw') \<and> mw_inv n mw' \<and>
      mw_free mw' = mw_free mw - {Min (mw_free mw)}"
  using alloc_none [OF assms] alloc_eq_force [OF assms] force_inv [OF assms] by auto

theorem mwbmap_alloc_lowest_witness:
  "\<exists>mw mw'. bcm_mwbmap_init True 40 = Some mw \<and> bcm_mwbmap_alloc mw = (0, mw') \<and> mw_free mw' = {..<40} - {0}"
proof -
  obtain mw where mw: "bcm_mwbmap_init True 40 = Some mw" "mw_inv 40 mw" "mw_free mw = {..<40}"
    using init_inv [of 40] by auto
  have "Min {..<40 :: nat} = 0" by (rule Min_eqI) auto
  moreover have "0 \<in> {..<40 :: nat}" by simp
  then have "{..<40 :: nat} \<noteq> {}" by blast
  ultimately show ?thesis using mwbmap_alloc_lowest [OF mw(2)] mw(1,3) by auto
qed

text \<open>C13: whatever a client does with a bitmap allocator of \<open>n\<close> indices, an index it gets is below \<open>n\<close>
  and not one it already holds; allocation fails exactly when it holds all \<open>n\<close>; the free count, the
  per index query and the audit agree with what it holds.\<close>

theorem mwbmap_ids_unique:
  assumes n: "n \<le> 65536" and s0: "bcm_mwbmap_init True n = Some mw0"
    and r: "id_reach bcm_mwbmap_alloc bcm_mwbmap_free BCM_MWBMAP_INVALID_IDX mw0 (mw, held)"
    and a: "bcm_mwbmap_alloc mw = (i, mw')"
  shows "(i = BCM_MWBMAP_INVALID_IDX \<longleftrightarrow> held = {..<n}) \<and>
    (i \<noteq> BCM_MWBMAP_INVALID_IDX \<longrightarrow> i < n \<and> i \<notin> held) \<and>
    bcm_mwbmap_free_cnt mw = n - card held \<and>
    (\<forall>j<n. bcm_mwbmap_isfree j mw \<longleftrightarrow> j \<notin> held) \<and> bcm_mwbmap_audit mw"
proof -
  have start: "mw_inv n mw0" "mw_free mw0 = {..<n}" using init_inv [OF n] s0 by auto
  note p = mwa.reach_partition [OF r start]
  have "card held + card (mw_free mw) = card {..<n}"
    using p by (metis card_Un_disjoint finite_Un finite_lessThan)
  then have "bcm_mwbmap_free_cnt mw = n - card held" using free_cnt_card p by auto
  moreover have "bcm_mwbmap_isfree j mw \<longleftrightarrow> j \<notin> held" if "j < n" for j
    using isfree_iff [OF conjunct1 [OF p] that] p that by auto
  ultimately show ?thesis using mwa.alloc_fresh [OF r start a] audit_passes p by auto
qed

theorem mwbmap_ids_unique_witness:
  "\<exists>mw0 mw mw'. bcm_mwbmap_init True 40 = Some mw0 \<and> bcm_mwbmap_alloc mw0 = (0, mw) \<and>
    bcm_mwbmap_alloc mw = (1, mw') \<and> bcm_mwbmap_free_cnt mw = 39"
proof -
  obtain mw0 where mw0: "bcm_mwbmap_init True 40 = Some mw0" "mw_inv 40 mw0" "mw_free mw0 = {..<40}"
    using init_inv [of 40] by auto
  have m0: "Min {..<40 :: nat} = 0" "Min ({..<40 :: nat} - {0}) = 1"
    by (rule Min_eqI; auto)+
  have "0 \<in> {..<40 :: nat}" "1 \<in> {..<40 :: nat} - {0}" by simp_all
  then have ne: "{..<40 :: nat} \<noteq> {}" "{..<40 :: nat} - {0} \<noteq> {}" by blast+
  obtain mw where mw: "bcm_mwbmap_alloc mw0 = (0, mw)" "mw_inv 40 mw" "mw_free mw = {..<40} - {0}"
    using alloc_eq_force [OF mw0(2)] force_inv [OF mw0(2)] m0 ne mw0(3) by auto
  obtain mw' where mw': "bcm_mwbmap_alloc mw = (1, mw')"
    using alloc_eq_force [OF mw(2)] m0 ne mw(3) by auto
  have "id_reach bcm_mwbmap_alloc bcm_mwbmap_free BCM_MWBMAP_INVALID_IDX mw0 (mw, {0})"
    using id_reach.allocate [OF id_reach.start, of bcm_mwbmap_alloc mw0 0 mw bcm_mwbmap_free BCM_MWBMAP_INVALID_IDX] mw(1)
    by (simp add: BCM_MWBMAP_INVALID_IDX_def)
  from mwbmap_ids_unique [OF _ mw0(1) this mw'] show ?thesis using mw0(1) mw(1) mw' by auto
qed

text \<open>C14: an \<open>id16\<close> allocator for \<open>tot\<close> ids from \<open>start\<close> hands out ids of its range, never one that is
  held, and fails exactly when all are held; a failure is counted, and the audit's
  assertions hold.\<close>

theorem id16_ids_unique:
  assumes lim: "unat start + unat tot < 65535" and s0: "id16_map_init True tot start = Some s0"
    and r: "id_reach id16_map_alloc id16_map_free ID16_INVALID s0 (s, held)"
    and a: "id16_map_alloc s = (i, s')"
  shows "(i = ID16_INVALID \<longleftrightarrow> held = id16_ids tot start) \<and>
    (i \<noteq> ID16_INVALID \<longrightarrow> unat start \<le> unat i \<and> unat i < unat start + unat tot \<and> i \<notin> held) \<and>
    id16_map_failures s' = id16_map_failures s + (if i = ID16_INVALID then 1 else 0) \<and> id16_map_audit s"
proof -
  have start: "id16_inv tot start s0" "id16_avail s0 = id16_ids tot start" using id16_init_inv [OF lim] s0 by auto
  note f = i16.alloc_fresh [OF r start a]
  note range = id16_range [OF lim]
  have inv: "id16_inv tot start s" using i16.reach_partition [OF r start] by simp
  have "stack_idx s < 0 \<longleftrightarrow> i = ID16_INVALID"
  proof (cases "id16_avail s = {}")
    case True
    then show ?thesis using id16_avail_card [OF inv] a by (auto simp: id16_map_alloc_def)
  next
    case False
    then have "\<not> stack_idx s < 0" using id16_avail_card [OF inv] by (auto simp: id16_avail_def)
    moreover have "i \<in> id16_avail s" using id16_alloc_some [OF inv False] a by auto
    ultimately show ?thesis using i16.bad [OF inv] i16.avail_sub [OF inv] by auto
  qed
  then have "id16_map_failures s' = id16_map_failures s + (if i = ID16_INVALID then 1 else 0)"
    using a by (auto simp: id16_map_alloc_def id16_map_failures_def split: if_splits)
  then show ?thesis using f range id16_audit_passes [OF inv] by blast
qed

theorem id16_ids_unique_witness:
  "\<exists>s0 s'. id16_map_init True 3 10 = Some s0 \<and> id16_map_alloc s0 = (12, s') \<and> unat (12 :: u16) < 10 + 3"
proof -
  obtain s0 s' where s0: "id16_map_init True 3 10 = Some s0" "id16_map_alloc s0 = (12, s')"
    by (simp add: id16_map_init_def id16_fill_def id16_map_alloc_def ID16_UNDEFINED_def ID16_INVALID_def upt_rec)
  from id16_ids_unique [OF _ s0(1) id_reach.start s0(2)] show ?thesis
    using s0 by (auto simp: ID16_INVALID_def)
qed

text \<open>The table driven \<open>bcm_cntsetbits\<close> counts the bits that are set.\<close>

theorem cntsetbits_counts: "bcm_cntsetbits w = card {k. bit w k}"
  by (rule cntsetbits_card)

end
