(* ===== verification/Crc.thy ===== *)
theory Crc
  imports Prelude
begin

text \<open>
  The cyclic redundancy checks of \<open>bcmutils.c\<close>: the three 256 entry tables and the table driven loops
  \<open>hndcrc8\<close>, \<open>hndcrc16\<close> and \<open>hndcrc32\<close>. The reference is the bit serial shift register of the polynomial
  that the comments name. The locale \<open>crc_table\<close> states what a table has to be for a polynomial; its
  lemmas hold for the three widths by the interpretations \<open>c8\<close>, \<open>c16\<close> and \<open>c32\<close>.
\<close>

unbundle bit_operations_syntax

section \<open>The code\<close>

definition crc8_table :: "u8 list" where
  "crc8_table =
    [0x00, 0xF7, 0xB9, 0x4E, 0x25, 0xD2, 0x9C, 0x6B,
     0x4A, 0xBD, 0xF3, 0x04, 0x6F, 0x98, 0xD6, 0x21,
     0x94, 0x63, 0x2D, 0xDA, 0xB1, 0x46, 0x08, 0xFF,
     0xDE, 0x29, 0x67, 0x90, 0xFB, 0x0C, 0x42, 0xB5,
     0x7F, 0x88, 0xC6, 0x31, 0x5A, 0xAD, 0xE3, 0x14,
     0x35, 0xC2, 0x8C, 0x7B, 0x10, 0xE7, 0xA9, 0x5E,
     0xEB, 0x1C, 0x52, 0xA5, 0xCE, 0x39, 0x77, 0x80,
     0xA1, 0x56, 0x18, 0xEF, 0x84, 0x73, 0x3D, 0xCA,
     0xFE, 0x09, 0x47, 0xB0, 0xDB, 0x2C, 0x62, 0x95,
     0xB4, 0x43, 0x0D, 0xFA, 0x91, 0x66, 0x28, 0xDF,
     0x6A, 0x9D, 0xD3, 0x24, 0x4F, 0xB8, 0xF6, 0x01,
     0x20, 0xD7, 0x99, 0x6E, 0x05, 0xF2, 0xBC, 0x4B,
     0x81, 0x76, 0x38, 0xCF, 0xA4, 0x53, 0x1D, 0xEA,
     0xCB, 0x3C, 0x72, 0x85, 0xEE, 0x19, 0x57, 0xA0,
     0x15, 0xE2, 0xAC, 0x5B, 0x30, 0xC7, 0x89, 0x7E,
     0x5F, 0xA8, 0xE6, 0x11, 0x7A, 0x8D, 0xC3, 0x34,
     0xAB, 0x5C, 0x12, 0xE5, 0x8E, 0x79, 0x37, 0xC0,
     0xE1, 0x16, 0x58, 0xAF, 0xC4, 0x33, 0x7D, 0x8A,
     0x3F, 0xC8, 0x86, 0x71, 0x1A, 0xED, 0xA3, 0x54,
     0x75, 0x82, 0xCC, 0x3B, 0x50, 0xA7, 0xE9, 0x1E,
     0xD4, 0x23, 0x6D, 0x9A, 0xF1, 0x06, 0x48, 0xBF,
     0x9E, 0x69, 0x27, 0xD0, 0xBB, 0x4C, 0x02, 0xF5,
     0x40, 0xB7, 0xF9, 0x0E, 0x65, 0x92, 0xDC, 0x2B,
     0x0A, 0xFD, 0xB3, 0x44, 0x2F, 0xD8, 0x96, 0x61,
     0x55, 0xA2, 0xEC, 0x1B, 0x70, 0x87, 0xC9, 0x3E,
     0x1F, 0xE8, 0xA6, 0x51, 0x3A, 0xCD, 0x83, 0x74,
     0xC1, 0x36, 0x78, 0x8F, 0xE4, 0x13, 0x5D, 0xAA,
     0x8B, 0x7C, 0x32, 0xC5, 0xAE, 0x59, 0x17, 0xE0,
     0x2A, 0xDD, 0x93, 0x64, 0x0F, 0xF8, 0xB6, 0x41,
     0x60, 0x97, 0xD9, 0x2E, 0x45, 0xB2, 0xFC, 0x0B,
     0xBE, 0x49, 0x07, 0xF0, 0x9B, 0x6C, 0x22, 0xD5,
     0xF4, 0x03, 0x4D, 0xBA, 0xD1, 0x26, 0x68, 0x9F]"

definition crc16_table :: "u16 list" where
  "crc16_table =
    [0x0000, 0x1189, 0x2312, 0x329B, 0x4624, 0x57AD, 0x6536, 0x74BF,
     0x8C48, 0x9DC1, 0xAF5A, 0xBED3, 0xCA6C, 0xDBE5, 0xE97E, 0xF8F7,
     0x1081, 0x0108, 0x3393, 0x221A, 0x56A5, 0x472C, 0x75B7, 0x643E,
     0x9CC9, 0x8D40, 0xBFDB, 0xAE52, 0xDAED, 0xCB64, 0xF9FF, 0xE876,
     0x2102, 0x308B, 0x0210, 0x1399, 0x6726, 0x76AF, 0x4434, 0x55BD,
     0xAD4A, 0xBCC3, 0x8E58, 0x9FD1, 0xEB6E, 0xFAE7, 0xC87C, 0xD9F5,
     0x3183, 0x200A, 0x1291, 0x0318, 0x77A7, 0x662E, 0x54B5, 0x453C,
     0xBDCB, 0xAC42, 0x9ED9, 0x8F50, 0xFBEF, 0xEA66, 0xD8FD, 0xC974,
     0x4204, 0x538D, 0x6116, 0x709F, 0x0420, 0x15A9, 0x2732, 0x36BB,
     0xCE4C, 0xDFC5, 0xED5E, 0xFCD7, 0x8868, 0x99E1, 0xAB7A, 0xBAF3,
     0x5285, 0x430C, 0x7197, 0x601E, 0x14A1, 0x0528, 0x37B3, 0x263A,
     0xDECD, 0xCF44, 0xFDDF, 0xEC56, 0x98E9, 0x8960, 0xBBFB, 0xAA72,
     0x6306, 0x728F, 0x4014, 0x519D, 0x2522, 0x34AB, 0x0630, 0x17B9,
     0xEF4E, 0xFEC7, 0xCC5C, 0xDDD5, 0xA96A, 0xB8E3, 0x8A78, 0x9BF1,
     0x7387, 0x620E, 0x5095, 0x411C, 0x35A3, 0x242A, 0x16B1, 0x0738,
     0xFFCF, 0xEE46, 0xDCDD, 0xCD54, 0xB9EB, 0xA862, 0x9AF9, 0x8B70,
     0x8408, 0x9581, 0xA71A, 0xB693, 0xC22C, 0xD3A5, 0xE13E, 0xF0B7,
     0x0840, 0x19C9, 0x2B52, 0x3ADB, 0x4E64, 0x5FED, 0x6D76, 0x7CFF,
     0x9489, 0x8500, 0xB79B, 0xA612, 0xD2AD, 0xC324, 0xF1BF, 0xE036,
     0x18C1, 0x0948, 0x3BD3, 0x2A5A, 0x5EE5, 0x4F6C, 0x7DF7, 0x6C7E,
     0xA50A, 0xB483, 0x8618, 0x9791, 0xE32E, 0xF2A7, 0xC03C, 0xD1B5,
     0x2942, 0x38CB, 0x0A50, 0x1BD9, 0x6F66, 0x7EEF, 0x4C74, 0x5DFD,
     0xB58B, 0xA402, 0x9699, 0x8710, 0xF3AF, 0xE226, 0xD0BD, 0xC134,
     0x39C3, 0x284A, 0x1AD1, 0x0B58, 0x7FE7, 0x6E6E, 0x5CF5, 0x4D7C,
     0xC60C, 0xD785, 0xE51E, 0xF497, 0x8028, 0x91A1, 0xA33A, 0xB2B3,
     0x4A44, 0x5BCD, 0x6956, 0x78DF, 0x0C60, 0x1DE9, 0x2F72, 0x3EFB,
     0xD68D, 0xC704, 0xF59F, 0xE416, 0x90A9, 0x8120, 0xB3BB, 0xA232,
     0x5AC5, 0x4B4C, 0x79D7, 0x685E, 0x1CE1, 0x0D68, 0x3FF3, 0x2E7A,
     0xE70E, 0xF687, 0xC41C, 0xD595, 0xA12A, 0xB0A3, 0x8238, 0x93B1,
     0x6B46, 0x7ACF, 0x4854, 0x59DD, 0x2D62, 0x3CEB, 0x0E70, 0x1FF9,
     0xF78F, 0xE606, 0xD49D, 0xC514, 0xB1AB, 0xA022, 0x92B9, 0x8330,
     0x7BC7, 0x6A4E, 0x58D5, 0x495C, 0x3DE3, 0x2C6A, 0x1EF1, 0x0F78]"

definition crc32_table :: "u32 list" where
  "crc32_table =
    [0x00000000, 0x77073096, 0xEE0E612C, 0x990951BA, 0x076DC419, 0x706AF48F, 0xE963A535, 0x9E6495A3,
     0x0EDB8832, 0x79DCB8A4, 0xE0D5E91E, 0x97D2D988, 0x09B64C2B, 0x7EB17CBD, 0xE7B82D07, 0x90BF1D91,
     0x1DB71064, 0x6AB020F2, 0xF3B97148, 0x84BE41DE, 0x1ADAD47D, 0x6DDDE4EB, 0xF4D4B551, 0x83D385C7,
     0x136C9856, 0x646BA8C0, 0xFD62F97A, 0x8A65C9EC, 0x14015C4F, 0x63066CD9, 0xFA0F3D63, 0x8D080DF5,
     0x3B6E20C8, 0x4C69105E, 0xD56041E4, 0xA2677172, 0x3C03E4D1, 0x4B04D447, 0xD20D85FD, 0xA50AB56B,
     0x35B5A8FA, 0x42B2986C, 0xDBBBC9D6, 0xACBCF940, 0x32D86CE3, 0x45DF5C75, 0xDCD60DCF, 0xABD13D59,
     0x26D930AC, 0x51DE003A, 0xC8D75180, 0xBFD06116, 0x21B4F4B5, 0x56B3C423, 0xCFBA9599, 0xB8BDA50F,
     0x2802B89E, 0x5F058808, 0xC60CD9B2, 0xB10BE924, 0x2F6F7C87, 0x58684C11, 0xC1611DAB, 0xB6662D3D,
     0x76DC4190, 0x01DB7106, 0x98D220BC, 0xEFD5102A, 0x71B18589, 0x06B6B51F, 0x9FBFE4A5, 0xE8B8D433,
     0x7807C9A2, 0x0F00F934, 0x9609A88E, 0xE10E9818, 0x7F6A0DBB, 0x086D3D2D, 0x91646C97, 0xE6635C01,
     0x6B6B51F4, 0x1C6C6162, 0x856530D8, 0xF262004E, 0x6C0695ED, 0x1B01A57B, 0x8208F4C1, 0xF50FC457,
     0x65B0D9C6, 0x12B7E950, 0x8BBEB8EA, 0xFCB9887C, 0x62DD1DDF, 0x15DA2D49, 0x8CD37CF3, 0xFBD44C65,
     0x4DB26158, 0x3AB551CE, 0xA3BC0074, 0xD4BB30E2, 0x4ADFA541, 0x3DD895D7, 0xA4D1C46D, 0xD3D6F4FB,
     0x4369E96A, 0x346ED9FC, 0xAD678846, 0xDA60B8D0, 0x44042D73, 0x33031DE5, 0xAA0A4C5F, 0xDD0D7CC9,
     0x5005713C, 0x270241AA, 0xBE0B1010, 0xC90C2086, 0x5768B525, 0x206F85B3, 0xB966D409, 0xCE61E49F,
     0x5EDEF90E, 0x29D9C998, 0xB0D09822, 0xC7D7A8B4, 0x59B33D17, 0x2EB40D81, 0xB7BD5C3B, 0xC0BA6CAD,
     0xEDB88320, 0x9ABFB3B6, 0x03B6E20C, 0x74B1D29A, 0xEAD54739, 0x9DD277AF, 0x04DB2615, 0x73DC1683,
     0xE3630B12, 0x94643B84, 0x0D6D6A3E, 0x7A6A5AA8, 0xE40ECF0B, 0x9309FF9D, 0x0A00AE27, 0x7D079EB1,
     0xF00F9344, 0x8708A3D2, 0x1E01F268, 0x6906C2FE, 0xF762575D, 0x806567CB, 0x196C3671, 0x6E6B06E7,
     0xFED41B76, 0x89D32BE0, 0x10DA7A5A, 0x67DD4ACC, 0xF9B9DF6F, 0x8EBEEFF9, 0x17B7BE43, 0x60B08ED5,
     0xD6D6A3E8, 0xA1D1937E, 0x38D8C2C4, 0x4FDFF252, 0xD1BB67F1, 0xA6BC5767, 0x3FB506DD, 0x48B2364B,
     0xD80D2BDA, 0xAF0A1B4C, 0x36034AF6, 0x41047A60, 0xDF60EFC3, 0xA867DF55, 0x316E8EEF, 0x4669BE79,
     0xCB61B38C, 0xBC66831A, 0x256FD2A0, 0x5268E236, 0xCC0C7795, 0xBB0B4703, 0x220216B9, 0x5505262F,
     0xC5BA3BBE, 0xB2BD0B28, 0x2BB45A92, 0x5CB36A04, 0xC2D7FFA7, 0xB5D0CF31, 0x2CD99E8B, 0x5BDEAE1D,
     0x9B64C2B0, 0xEC63F226, 0x756AA39C, 0x026D930A, 0x9C0906A9, 0xEB0E363F, 0x72076785, 0x05005713,
     0x95BF4A82, 0xE2B87A14, 0x7BB12BAE, 0x0CB61B38, 0x92D28E9B, 0xE5D5BE0D, 0x7CDCEFB7, 0x0BDBDF21,
     0x86D3D2D4, 0xF1D4E242, 0x68DDB3F8, 0x1FDA836E, 0x81BE16CD, 0xF6B9265B, 0x6FB077E1, 0x18B74777,
     0x88085AE6, 0xFF0F6A70, 0x66063BCA, 0x11010B5C, 0x8F659EFF, 0xF862AE69, 0x616BFFD3, 0x166CCF45,
     0xA00AE278, 0xD70DD2EE, 0x4E048354, 0x3903B3C2, 0xA7672661, 0xD06016F7, 0x4969474D, 0x3E6E77DB,
     0xAED16A4A, 0xD9D65ADC, 0x40DF0B66, 0x37D83BF0, 0xA9BCAE53, 0xDEBB9EC5, 0x47B2CF7F, 0x30B5FFE9,
     0xBDBDF21C, 0xCABAC28A, 0x53B39330, 0x24B4A3A6, 0xBAD03605, 0xCDD70693, 0x54DE5729, 0x23D967BF,
     0xB3667A2E, 0xC4614AB8, 0x5D681B02, 0x2A6F2B94, 0xB40BBE37, 0xC30C8EA1, 0x5A05DF1B, 0x2D02EF8D]"

definition CRC8_INIT_VALUE :: u8 where "CRC8_INIT_VALUE = 0xff"
definition CRC8_GOOD_VALUE :: u8 where "CRC8_GOOD_VALUE = 0x9f"
definition CRC16_INIT_VALUE :: u16 where "CRC16_INIT_VALUE = 0xffff"
definition CRC16_GOOD_VALUE :: u16 where "CRC16_GOOD_VALUE = 0xf0b8"
definition CRC32_INIT_VALUE :: u32 where "CRC32_INIT_VALUE = 0xffffffff"
definition CRC32_GOOD_VALUE :: u32 where "CRC32_GOOD_VALUE = 0xdebb20e3"

text \<open>\<open>CRC_INNER_LOOP\<close>: \<open>c = (c >> 8) ^ table[(c ^ x) & 0xff]\<close>. The 8 bit loop has no shift.\<close>

definition CRC_INNER_LOOP :: "'a :: len word list \<Rightarrow> 'a word \<Rightarrow> u8 \<Rightarrow> 'a word" where
  "CRC_INNER_LOOP table c x = drop_bit 8 c XOR table ! unat ((c XOR ucast x) AND 0xff)"

fun hndcrc8 :: "mem \<Rightarrow> ptr \<Rightarrow> nat \<Rightarrow> u8 \<Rightarrow> u8" where
  "hndcrc8 m pdata 0 crc = crc"
| "hndcrc8 m pdata (Suc nbytes) crc =
     hndcrc8 m (pdata + 1) nbytes (crc8_table ! unat ((crc XOR m pdata) AND 0xff))"

fun hndcrc16 :: "mem \<Rightarrow> ptr \<Rightarrow> nat \<Rightarrow> u16 \<Rightarrow> u16" where
  "hndcrc16 m pdata 0 crc = crc"
| "hndcrc16 m pdata (Suc nbytes) crc = hndcrc16 m (pdata + 1) nbytes (CRC_INNER_LOOP crc16_table crc (m pdata))"

function crc32_loop :: "mem \<Rightarrow> ptr \<Rightarrow> ptr \<Rightarrow> u32 \<Rightarrow> u32" where
  "crc32_loop m pdata pend crc =
     (if pdata < pend then crc32_loop m (pdata + 1) pend (CRC_INNER_LOOP crc32_table crc (m pdata)) else crc)"
  by pat_completeness auto
termination by (relation "measure (\<lambda>(m, pdata, pend, crc). pend - pdata)") auto

declare crc32_loop.simps [simp del]

definition hndcrc32 :: "mem \<Rightarrow> ptr \<Rightarrow> nat \<Rightarrow> u32 \<Rightarrow> u32" where
  "hndcrc32 m pdata nbytes crc = crc32_loop m pdata (pdata + nbytes) crc"

section \<open>The shift register\<close>

text \<open>One bit of the reflected shift register: the low bit leaves, the polynomial is added if it was set.
  \<open>crc_byte\<close> takes in a byte.\<close>

definition crc_step :: "'a :: len word \<Rightarrow> 'a word \<Rightarrow> 'a word" where
  "crc_step poly c = (if bit c 0 then drop_bit 1 c XOR poly else drop_bit 1 c)"

definition crc_byte :: "'a :: len word \<Rightarrow> u8 \<Rightarrow> 'a word \<Rightarrow> 'a word" where
  "crc_byte poly x c = (crc_step poly ^^ 8) (c XOR ucast x)"

lemma crc_step_xor: "crc_step p (a XOR b) = crc_step p a XOR crc_step p b"
  by (rule bit_eqI) (auto simp: crc_step_def bit_simps)

lemma crc_steps_xor: "(crc_step p ^^ n) (a XOR b) = (crc_step p ^^ n) a XOR (crc_step p ^^ n) b"
  by (induction n) (simp_all add: crc_step_xor)

lemma crc_steps_high:
  assumes "\<And>j. j < n \<Longrightarrow> \<not> bit v j"
  shows "(crc_step p ^^ n) v = drop_bit n v"
  using assms
proof (induction n arbitrary: v)
  case (Suc n)
  have "crc_step p v = drop_bit 1 v" using Suc.prems [of 0] by (simp add: crc_step_def)
  moreover have "(crc_step p ^^ n) (drop_bit 1 v) = drop_bit n (drop_bit 1 v)"
    using Suc.prems by (intro Suc.IH) (simp add: bit_simps)
  ultimately show ?case by (simp add: funpow_swap1 del: funpow.simps add: funpow_Suc_right)
qed simp

lemma ff_mask8: "(0xff :: 'a :: len word) = mask 8"
  by (simp add: mask_eq_exp_minus_1)

lemma crc_steps_low:
  "(crc_step p ^^ 8) c = drop_bit 8 c XOR (crc_step p ^^ 8) (c AND 0xff)"
proof -
  have "c = (c AND NOT (mask 8)) XOR (c AND 0xff)"
    unfolding ff_mask8 by (rule bit_eqI) (auto simp: bit_simps)
  then have "(crc_step p ^^ 8) c = (crc_step p ^^ 8) (c AND NOT (mask 8)) XOR (crc_step p ^^ 8) (c AND 0xff)"
    by (metis crc_steps_xor)
  moreover have "(crc_step p ^^ 8) (c AND NOT (mask 8)) = drop_bit 8 (c AND NOT (mask 8))"
    by (rule crc_steps_high) (simp add: bit_simps)
  moreover have "drop_bit 8 (c AND NOT (mask 8)) = drop_bit 8 c"
    by (rule bit_eqI) (auto simp: bit_simps dest: bit_imp_le_length)
  ultimately show ?thesis by simp
qed

lemma drop8_byte: "drop_bit 8 (ucast (x :: u8) :: 'a :: len word) = 0"
  by (rule bit_eqI) (auto simp: bit_simps dest: bit_imp_le_length)

lemma word_xor_0_iff: "(a XOR b = 0) \<longleftrightarrow> a = (b :: 'a :: len word)"
  by (auto simp: bit_eq_iff bit_simps)

lemma drop1_0:
  assumes "drop_bit 1 v = 0" and "\<not> bit v 0"
  shows "v = (0 :: 'a :: len word)"
proof (rule bit_eqI)
  fix n
  have "bit v (Suc k) = bit (drop_bit 1 v) k" for k by (simp add: bit_drop_bit_eq)
  then show "bit v n = bit 0 n" using assms by (cases n) simp_all
qed

lemma crc_step_inj:
  assumes "bit p (LENGTH('a) - 1)" and "crc_step p a = crc_step p (b :: 'a :: len word)"
  shows "a = b"
proof -
  let ?v = "a XOR b"
  have z: "crc_step p ?v = 0" using assms(2) by (simp add: crc_step_xor)
  have top: "\<not> bit (drop_bit 1 ?v) (LENGTH('a) - 1)" by (auto simp: bit_simps dest: bit_imp_le_length)
  have e: "\<not> bit ?v 0"
  proof
    assume "bit ?v 0"
    then have "drop_bit 1 ?v = p" using z by (simp add: crc_step_def word_xor_0_iff)
    then show False using top assms(1) by simp
  qed
  then have "drop_bit 1 ?v = 0" using z by (simp add: crc_step_def)
  then have "?v = 0" using e by (rule drop1_0)
  then show ?thesis by (simp add: word_xor_0_iff)
qed

lemma crc_steps_inj:
  assumes "bit p (LENGTH('a) - 1)" and "(crc_step p ^^ n) a = (crc_step p ^^ n) (b :: 'a :: len word)"
  shows "a = b"
  using assms(2) by (induction n) (auto dest: crc_step_inj [OF assms(1)])

section \<open>What a table has to be\<close>

text \<open>Entry \<open>i\<close> of the table of a polynomial is the register after the 8 bits of \<open>i\<close>. A table grows by
  doubling: the entries with bit \<open>k\<close> set are those without it plus the entry \<open>2 ^ k\<close>, and the
  entries of the powers of two are successive register states from the polynomial down.\<close>

definition dbl :: "'a :: len word \<Rightarrow> 'a word list \<Rightarrow> 'a word list" where
  "dbl c xs = xs @ map (\<lambda>x. c XOR x) xs"

text \<open>A block of bytes as a little endian number.\<close>

primrec le_word :: "u8 list \<Rightarrow> 'a :: len word" where
  "le_word [] = 0"
| "le_word (x # xs) = ucast x XOR push_bit 8 (le_word xs)"

lemma le_word_bound: "bit (le_word xs :: 'a :: len word) j \<Longrightarrow> j < 8 * length xs"
proof (induction xs arbitrary: j)
  case (Cons x xs)
  have "j < 8 \<or> bit (le_word xs :: 'a word) (j - 8)"
    using Cons.prems by (auto simp: bit_simps dest: bit_imp_le_length)
  then show ?case using Cons.IH [of "j - 8"] by fastforce
qed simp

lemma le_word_inj:
  assumes "length xs = length ys" and "8 * length xs \<le> LENGTH('a)" and "le_word xs = (le_word ys :: 'a :: len word)"
  shows "xs = ys"
  using assms
proof (induction xs ys rule: list_induct2)
  case (Cons x xs y ys)
  have w: "8 \<le> LENGTH('a)" using Cons.prems by simp
  have b: "bit (ucast x XOR push_bit 8 (le_word xs) :: 'a word) j = bit (ucast y XOR push_bit 8 (le_word ys) :: 'a word) j" for j
    using Cons.prems(2) by simp
  have "bit x j = bit y j" if "j < 8" for j using b [of j] that w by (simp add: bit_simps)
  then have "x = y" by (intro bit_eqI) simp
  have "bit (le_word xs :: 'a word) j = bit (le_word ys :: 'a word) j" for j
  proof (cases "8 + j < LENGTH('a)")
    case True
    then show ?thesis using b [of "8 + j"] \<open>x = y\<close> by (auto simp: bit_simps)
  next
    case False
    then show ?thesis using Cons.prems(1) Cons.hyps le_word_bound [of xs j] le_word_bound [of ys j] by fastforce
  qed
  then have "le_word xs = (le_word ys :: 'a word)" by (rule bit_eqI)
  then show ?case using Cons \<open>x = y\<close> by simp
qed simp

text \<open>The complemented remainder as the sender stores it, low byte first.\<close>

definition le_bytes :: "nat \<Rightarrow> 'a :: len word \<Rightarrow> u8 list" where
  "le_bytes n w = map (\<lambda>i. ucast (drop_bit (8 * i) w)) [0..<n]"

lemma length_le_bytes [simp]: "length (le_bytes n w) = n"
  by (simp add: le_bytes_def)

lemma le_word_le_bytes:
  "8 * n \<le> LENGTH('a) \<Longrightarrow> (le_word (le_bytes n w) :: 'a :: len word) = take_bit (8 * n) w"
proof (induction n arbitrary: w)
  case (Suc n)
  have "le_bytes (Suc n) w = ucast w # le_bytes n (drop_bit 8 w)"
    unfolding le_bytes_def by (simp add: map_upt_Suc add.commute del: upt_Suc)
  then have "le_word (le_bytes (Suc n) w) = ucast (ucast w :: u8) XOR push_bit 8 (take_bit (8 * n) (drop_bit 8 w))"
    using Suc by simp
  also have "\<dots> = take_bit (8 * Suc n) w"
    using Suc.prems by (intro bit_eqI) (auto simp: bit_simps)
  finally show ?case .
qed (simp add: le_bytes_def)

locale crc_table =
  fixes poly :: "'a :: len word" and table :: "'a word list" and basis :: "'a word list"
  assumes width: "8 \<le> LENGTH('a)"
    and top: "bit poly (LENGTH('a) - 1)"
    and table: "foldr dbl basis [0] = table"
    and basis: "length basis = 8" "basis ! 0 = poly" "map (crc_step poly) (butlast basis) = tl basis"
begin

lemma basis_state: "k < 8 \<Longrightarrow> basis ! k = (crc_step poly ^^ k) poly"
proof (induction k)
  case (Suc k)
  have "basis ! Suc k = tl basis ! k" using Suc.prems basis(1) by (simp add: nth_tl)
  also have "\<dots> = crc_step poly (basis ! k)"
    using Suc.prems basis(1) by (simp add: nth_butlast flip: basis(3))
  finally show ?case using Suc by simp
qed (simp add: basis)

lemma power_state:
  assumes "k < 8"
  shows "(crc_step poly ^^ 8) (2 ^ k) = basis ! (7 - k)"
proof -
  have "(crc_step poly ^^ k) (2 ^ k :: 'a word) = drop_bit k (2 ^ k)"
    by (rule crc_steps_high) (simp add: bit_simps)
  also have "\<dots> = 1" using assms width by (intro bit_eqI) (auto simp: bit_simps)
  finally have "(crc_step poly ^^ k) (2 ^ k :: 'a word) = 1" .
  moreover have "crc_step poly 1 = poly" by (simp add: crc_step_def)
  moreover have "(crc_step poly ^^ 8) = (crc_step poly ^^ (7 - k)) \<circ> crc_step poly \<circ> (crc_step poly ^^ k)"
  proof -
    have "(8 :: nat) = Suc (7 - k) + k" using assms by simp
    then show ?thesis by (simp only: funpow_add funpow_Suc_right)
  qed
  ultimately show ?thesis using basis_state [of "7 - k"] by simp
qed

lemma doubled:
  "j \<le> 8 \<Longrightarrow> length (foldr dbl (drop (8 - j) basis) [0]) = 2 ^ j \<and>
    (\<forall>i<2 ^ j. foldr dbl (drop (8 - j) basis) [0] ! i = (crc_step poly ^^ 8) (of_nat i))"
proof (induction j)
  case 0
  have "(crc_step poly ^^ 8) 0 = 0" using crc_steps_high [of 8 0 poly] by simp
  then show ?case using basis(1) by simp
next
  case (Suc j)
  let ?t = "foldr dbl (drop (8 - j) basis) [0]" and ?b = "basis ! (7 - j)"
  have IH: "length ?t = 2 ^ j" "\<And>i. i < 2 ^ j \<Longrightarrow> ?t ! i = (crc_step poly ^^ 8) (of_nat i)"
    using Suc by auto
  have "drop (8 - Suc j) basis = ?b # drop (8 - j) basis"
    using Suc.prems basis(1) Cons_nth_drop_Suc [of "7 - j" basis] by (simp add: Suc_diff_le numeral_eq_Suc)
  then have t: "foldr dbl (drop (8 - Suc j) basis) [0] = dbl ?b ?t" by simp
  have "dbl ?b ?t ! i = (crc_step poly ^^ 8) (of_nat i)" if i: "i < 2 ^ Suc j" for i
  proof (cases "i < 2 ^ j")
    case True
    then show ?thesis using IH by (simp add: dbl_def nth_append)
  next
    case False
    let ?i = "i - 2 ^ j"
    have l: "?i < 2 ^ j" using i False by simp
    have "(of_nat i :: 'a word) = 2 ^ j + of_nat ?i" using False by (simp add: of_nat_diff)
    also have "\<dots> = 2 ^ j XOR of_nat ?i"
    proof (rule disjunctive_add_eq_xor, rule bit_eqI)
      fix n
      have "\<not> bit ?i j" using l by (metis bit_take_bit_iff less_irrefl take_bit_nat_eq_self)
      then show "bit (2 ^ j AND of_nat ?i :: 'a word) n = bit (0 :: 'a word) n"
        by (auto simp: bit_simps)
    qed
    finally have "(crc_step poly ^^ 8) (of_nat i) = (crc_step poly ^^ 8) (2 ^ j) XOR (crc_step poly ^^ 8) (of_nat ?i)"
      by (simp only: crc_steps_xor)
    also have "\<dots> = ?b XOR ?t ! ?i" using power_state [of j] Suc.prems IH(2) [OF l] by simp
    finally show ?thesis using False l IH(1) by (simp add: dbl_def nth_append)
  qed
  then show ?case unfolding t using IH(1) by (simp add: dbl_def)
qed

lemma table_entry: "i < 256 \<Longrightarrow> table ! i = (crc_step poly ^^ 8) (of_nat i)"
  using doubled [of 8] by (simp add: table)

lemma inner_loop: "CRC_INNER_LOOP table c x = crc_byte poly x c"
proof -
  let ?i = "(c XOR ucast x) AND 0xff"
  have "unat ?i < 256"
  proof -
    have "?i = take_bit 8 (c XOR ucast x)" by (simp only: ff_mask8 take_bit_eq_mask)
    then have "unat ?i = take_bit 8 (unat (c XOR ucast x))" by (simp only: unsigned_take_bit_eq)
    then show ?thesis using take_bit_nat_less_exp [of 8 "unat (c XOR ucast x)"] by simp
  qed
  then have "table ! unat ?i = (crc_step poly ^^ 8) ?i" by (simp add: table_entry)
  moreover have "drop_bit 8 c = drop_bit 8 (c XOR ucast x)" by (simp add: drop_bit_xor drop8_byte)
  ultimately show ?thesis
    unfolding CRC_INNER_LOOP_def crc_byte_def crc_steps_low [of poly "c XOR ucast x"] by simp
qed

lemma steps8: "(crc_step poly ^^ 8) c = drop_bit 8 c XOR table ! unat (c AND 0xff)"
  using inner_loop [of c 0] by (simp add: CRC_INNER_LOOP_def crc_byte_def)

lemma burst_state:
  "8 * length xs \<le> LENGTH('a) \<Longrightarrow>
    fold (crc_byte poly) xs c = (crc_step poly ^^ (8 * length xs)) (c XOR le_word xs)"
proof (induction xs arbitrary: c)
  case (Cons x xs)
  let ?h = "le_word xs :: 'a word"
  have "drop_bit 8 (push_bit 8 ?h) = ?h"
    using Cons.prems le_word_bound [of xs] by (intro bit_eqI) (fastforce simp: bit_simps)
  then have high: "(crc_step poly ^^ 8) (push_bit 8 ?h) = ?h"
    using crc_steps_high [of 8 "push_bit 8 ?h" poly] by (simp add: bit_simps)
  have "fold (crc_byte poly) (x # xs) c
      = (crc_step poly ^^ (8 * length xs)) ((crc_step poly ^^ 8) (c XOR ucast x) XOR ?h)"
    using Cons by (simp add: crc_byte_def [of poly x])
  also have "\<dots> = (crc_step poly ^^ (8 * length xs)) ((crc_step poly ^^ 8) ((c XOR ucast x) XOR push_bit 8 ?h))"
    by (simp only: crc_steps_xor [of 8 poly "c XOR ucast x"] high)
  moreover have "8 * length (x # xs) = 8 * length xs + 8" by simp
  ultimately show ?case by (simp only: funpow_add comp_apply le_word.simps xor.assoc)
qed simp

lemma fold_inj: "fold (crc_byte poly) xs a = fold (crc_byte poly) xs b \<Longrightarrow> a = b"
proof (induction xs arbitrary: a b)
  case (Cons x xs)
  then have "crc_byte poly x a = crc_byte poly x b" by simp
  then have "a XOR ucast x = b XOR ucast x" unfolding crc_byte_def by (rule crc_steps_inj [OF top])
  then show ?case by (metis xor.assoc xor_self_eq xor.right_neutral)
qed simp

lemma burst_detected:
  assumes "length xs = length ys" and "8 * length xs \<le> LENGTH('a)" and "xs \<noteq> ys"
  shows "fold (crc_byte poly) (pre @ xs @ post) c \<noteq> fold (crc_byte poly) (pre @ ys @ post) c"
proof
  let ?c = "fold (crc_byte poly) pre c"
  assume "fold (crc_byte poly) (pre @ xs @ post) c = fold (crc_byte poly) (pre @ ys @ post) c"
  then have "fold (crc_byte poly) xs ?c = fold (crc_byte poly) ys ?c" by (auto dest: fold_inj)
  then have "?c XOR le_word xs = ?c XOR le_word ys"
    using assms(1,2) by (auto simp: burst_state dest: crc_steps_inj [OF top])
  then have "le_word xs = (le_word ys :: 'a word)" by (metis xor.left_commute xor_self_eq xor.right_neutral)
  then show False using le_word_inj assms by blast
qed

lemma good_value:
  assumes "8 * n = LENGTH('a)"
  shows "fold (crc_byte poly) (xs @ le_bytes n (NOT (fold (crc_byte poly) xs c))) c
    = (crc_step poly ^^ LENGTH('a)) (- 1)"
proof -
  let ?c = "fold (crc_byte poly) xs c"
  have "le_word (le_bytes n (NOT ?c)) = NOT ?c" using assms by (simp add: le_word_le_bytes)
  moreover have "?c XOR NOT ?c = - 1" by (rule bit_eqI) (auto simp: bit_simps)
  ultimately show ?thesis using burst_state [of "le_bytes n (NOT ?c)" ?c] assms by simp
qed

end

interpretation c8: crc_table "0xAB" crc8_table "[0xAB, 0xFE, 0x7F, 0x94, 0x4A, 0x25, 0xB9, 0xF7]"
  by unfold_locales (simp_all add: dbl_def crc8_table_def crc_step_def bit_numeral_rec)

interpretation c16: crc_table "0x8408" crc16_table
    "[0x8408, 0x4204, 0x2102, 0x1081, 0x8C48, 0x4624, 0x2312, 0x1189]"
  by unfold_locales (simp_all add: dbl_def crc16_table_def crc_step_def bit_numeral_rec)

interpretation c32: crc_table "0xEDB88320" crc32_table
    "[0xEDB88320, 0x76DC4190, 0x3B6E20C8, 0x1DB71064, 0x0EDB8832, 0x076DC419, 0xEE0E612C, 0x77073096]"
  by unfold_locales (simp_all add: dbl_def crc32_table_def crc_step_def bit_numeral_rec)

section \<open>The loops\<close>

lemma hndcrc8_fold: "hndcrc8 m p n c = fold (crc_byte 0xAB) (bytes m p n) c"
proof (induction n arbitrary: p c)
  case (Suc n)
  have "drop_bit 8 c = 0" by (rule bit_eqI) (auto simp: bit_simps dest: bit_imp_le_length)
  then have "crc8_table ! unat ((c XOR m p) AND 0xff) = crc_byte 0xAB (m p) c"
    using c8.inner_loop [of c "m p"] by (simp add: CRC_INNER_LOOP_def)
  then show ?case using Suc by (simp add: bytes_Suc)
qed simp

lemma hndcrc16_fold: "hndcrc16 m p n c = fold (crc_byte 0x8408) (bytes m p n) c"
  by (induction n arbitrary: p c) (simp_all add: bytes_Suc c16.inner_loop)

lemma hndcrc32_fold: "hndcrc32 m p n c = fold (crc_byte 0xEDB88320) (bytes m p n) c"
  unfolding hndcrc32_def
proof (induction n arbitrary: p c)
  case 0
  then show ?case by (simp add: crc32_loop.simps)
next
  case (Suc n)
  then show ?case using Suc [of "p + 1"] by (subst crc32_loop.simps) (simp add: bytes_Suc c32.inner_loop)
qed

lemmas hndcrc_fold = hndcrc8_fold hndcrc16_fold hndcrc32_fold

lemma full_steps:
  "(crc_step 0xAB ^^ 8) (- 1) = CRC8_GOOD_VALUE"
  "(crc_step 0x8408 ^^ 16) (- 1) = CRC16_GOOD_VALUE"
  "(crc_step 0xEDB88320 ^^ 32) (- 1) = CRC32_GOOD_VALUE"
proof -
  have f: "(16 :: nat) = 8 + 8" "(32 :: nat) = 8 + (8 + (8 + 8))" by simp_all
  have ones: "(- 1 :: u8) = 0xFF" "(- 1 :: u16) = 0xFFFF" "(- 1 :: u32) = 0xFFFFFFFF" by simp_all
  have s16:
    "(crc_step 0x8408 ^^ 8) 0xFFFF = (0xF87 :: u16)"
    "(crc_step 0x8408 ^^ 8) 0xF87 = (0xF0B8 :: u16)"
    unfolding c16.steps8 by (simp_all add: crc16_table_def)
  have s32:
    "(crc_step 0xEDB88320 ^^ 8) 0xFFFFFFFF = (0x2DFD1072 :: u32)"
    "(crc_step 0xEDB88320 ^^ 8) 0x2DFD1072 = (0xBE26ED00 :: u32)"
    "(crc_step 0xEDB88320 ^^ 8) 0xBE26ED00 = (0xBE26ED :: u32)"
    "(crc_step 0xEDB88320 ^^ 8) 0xBE26ED = (0xDEBB20E3 :: u32)"
    unfolding c32.steps8 by (simp_all add: crc32_table_def)
  show "(crc_step 0xAB ^^ 8) (- 1) = CRC8_GOOD_VALUE"
    unfolding c8.steps8 ones by (simp add: CRC8_GOOD_VALUE_def crc8_table_def)
  show "(crc_step 0x8408 ^^ 16) (- 1) = CRC16_GOOD_VALUE"
    unfolding f funpow_add comp_apply ones s16 CRC16_GOOD_VALUE_def ..
  show "(crc_step 0xEDB88320 ^^ 32) (- 1) = CRC32_GOOD_VALUE"
    unfolding f funpow_add comp_apply ones s32 CRC32_GOOD_VALUE_def ..
qed

section \<open>Properties\<close>

text \<open>C15: the table driven loops compute the bit serial remainder of the polynomials the code names
  (\<open>x^8 + x^7 + x^6 + x^4 + x^2 + 1\<close>, \<open>x^16 + x^12 + x^5 + 1\<close> and the IEEE 802 polynomial, in reflected bit
  order): every table entry is right and every loop takes in each byte of the block once, in order.\<close>

theorem crc_loops_bit_serial:
  "hndcrc8 m p n c = fold (crc_byte 0xAB) (bytes m p n) c \<and>
   hndcrc16 m p n c' = fold (crc_byte 0x8408) (bytes m p n) c' \<and>
   hndcrc32 m p n c'' = fold (crc_byte 0xEDB88320) (bytes m p n) c''"
  by (simp add: hndcrc_fold)

text \<open>C16: the documented check. When the complement of the remainder, low byte first, follows the data,
  the remainder of the whole block is the good value of the width.\<close>

theorem crc_good_value:
  assumes "bytes m8 (p + n) 1 = le_bytes 1 (NOT (hndcrc8 m8 p n CRC8_INIT_VALUE))"
    and "bytes m16 (p + n) 2 = le_bytes 2 (NOT (hndcrc16 m16 p n CRC16_INIT_VALUE))"
    and "bytes m32 (p + n) 4 = le_bytes 4 (NOT (hndcrc32 m32 p n CRC32_INIT_VALUE))"
  shows "hndcrc8 m8 p (n + 1) CRC8_INIT_VALUE = CRC8_GOOD_VALUE \<and>
    hndcrc16 m16 p (n + 2) CRC16_INIT_VALUE = CRC16_GOOD_VALUE \<and>
    hndcrc32 m32 p (n + 4) CRC32_INIT_VALUE = CRC32_GOOD_VALUE"
  unfolding hndcrc_fold bytes_add assms
  using c8.good_value [of 1 "bytes m8 p n" CRC8_INIT_VALUE] c16.good_value [of 2 "bytes m16 p n" CRC16_INIT_VALUE]
    c32.good_value [of 4 "bytes m32 p n" CRC32_INIT_VALUE]
  by (simp add: full_steps)

theorem crc_good_value_witness:
  "let d = (\<lambda>x. if x = 11 then NOT (crc8_table ! 254) else 1) in hndcrc8 d 10 2 CRC8_INIT_VALUE = CRC8_GOOD_VALUE"
proof -
  let ?c16 = "hndcrc16 (\<lambda>_. 1) 10 1 CRC16_INIT_VALUE" and ?c32 = "hndcrc32 (\<lambda>_. 1) 10 1 CRC32_INIT_VALUE"
  let ?m8 = "\<lambda>x. if x = 11 then NOT (crc8_table ! 254) else 1"
  let ?m16 = "store_bytes 11 (le_bytes 2 (NOT ?c16)) (\<lambda>_. 1)"
  let ?m32 = "store_bytes 11 (le_bytes 4 (NOT ?c32)) (\<lambda>_. 1)"
  have "hndcrc16 ?m16 10 1 CRC16_INIT_VALUE = ?c16" "hndcrc32 ?m32 10 1 CRC32_INIT_VALUE = ?c32"
    by (simp_all add: hndcrc_fold bytes_Suc store_bytes_outside)
  then have "bytes ?m16 (10 + 1) 2 = le_bytes 2 (NOT (hndcrc16 ?m16 10 1 CRC16_INIT_VALUE))"
    "bytes ?m32 (10 + 1) 4 = le_bytes 4 (NOT (hndcrc32 ?m32 10 1 CRC32_INIT_VALUE))"
    by (simp_all add: bytes_store_same)
  moreover have "bytes ?m8 (10 + 1) 1 = le_bytes 1 (NOT (hndcrc8 ?m8 10 1 CRC8_INIT_VALUE))"
    by (simp add: bytes_def le_bytes_def CRC8_INIT_VALUE_def)
  ultimately have "hndcrc8 ?m8 10 (1 + 1) CRC8_INIT_VALUE = CRC8_GOOD_VALUE"
    using crc_good_value [of ?m8 10 1 ?m16 ?m32] by blast
  then show ?thesis unfolding Let_def by (simp only: one_add_one)
qed

text \<open>C17: error detection. Two blocks that differ, and only in a window no wider than the remainder
  (one, two or four bytes), never have the same remainder.\<close>

theorem crc_burst_detected:
  assumes "k + w \<le> n" and "bytes m p n \<noteq> bytes m' p n"
    and "\<And>i. i < n \<Longrightarrow> i < k \<or> k + w \<le> i \<Longrightarrow> m (p + i) = m' (p + i)"
  shows "(w \<le> 1 \<longrightarrow> hndcrc8 m p n c \<noteq> hndcrc8 m' p n c) \<and>
    (w \<le> 2 \<longrightarrow> hndcrc16 m p n c' \<noteq> hndcrc16 m' p n c') \<and>
    (w \<le> 4 \<longrightarrow> hndcrc32 m p n c'' \<noteq> hndcrc32 m' p n c'')"
proof -
  have split: "bytes x p n = bytes x p k @ bytes x (p + k) w @ bytes x (p + k + w) (n - k - w)" for x
    using bytes_add [of x p k "n - k"] bytes_add [of x "p + k" w "n - k - w"] assms(1) by simp
  have same: "bytes m' p k = bytes m p k" "bytes m' (p + k + w) (n - k - w) = bytes m (p + k + w) (n - k - w)"
    using assms(1) assms(3) by (auto intro!: bytes_cong simp: add.assoc)
  then have ne: "bytes m (p + k) w \<noteq> bytes m' (p + k) w" using assms(2) unfolding split by auto
  show ?thesis
    unfolding hndcrc_fold split same
    using ne c8.burst_detected c16.burst_detected c32.burst_detected by auto
qed

theorem crc_burst_detected_witness:
  "hndcrc32 (\<lambda>_. 0) 0 8 CRC32_INIT_VALUE \<noteq> hndcrc32 ((\<lambda>_. 0)(3 := 1, 5 := 7)) 0 8 CRC32_INIT_VALUE"
proof -
  have "bytes (\<lambda>_. 0) 0 8 ! 3 \<noteq> bytes ((\<lambda>_. 0)(3 := 1, 5 := 7)) 0 8 ! 3" by simp
  then have "bytes (\<lambda>_. 0) 0 8 \<noteq> bytes ((\<lambda>_. 0)(3 := 1, 5 := 7)) 0 8" by (rule contrapos_nn) simp
  moreover have "(0 :: u8) = ((\<lambda>_. 0)(3 := 1, 5 := 7)) (0 + i)" if "i < 3 \<or> 3 + 4 \<le> i" for i :: nat
    using that by auto
  ultimately show ?thesis using crc_burst_detected [of 3 4 8 "\<lambda>_. 0" 0 "(\<lambda>_. 0)(3 := 1, 5 := 7)"] by auto
qed

end
