(* ===== verification/Stdlib_S.thy ===== *)
theory Stdlib_S
  imports Prelude
begin

text \<open>
  The bounds checking copy and string functions of \<open>bcmstdlib_s.c\<close>: \<open>memmove_s\<close>, \<open>memcpy_s\<close>, \<open>memset_s\<close>,
  \<open>strlcpy\<close> and \<open>strlcat_s\<close>, over the byte memory, with the 64 bit wrap-around of their pointer checks.
  The lemmas give the contracts of the comments: what is copied, what is cleared on an error, where the
  terminator goes and that no byte outside the destination is written.
\<close>

unbundle bit_operations_syntax

section \<open>The code\<close>

definition RSIZE_MAX :: nat where "RSIZE_MAX = (2 ^ 64 - 1) div 2"

text \<open>\<open>p + n\<close> on 64 bit pointers.\<close>

definition ptr_plus :: "ptr \<Rightarrow> nat \<Rightarrow> ptr" where "ptr_plus p n = (p + n) mod 2 ^ 64"

definition bzero :: "ptr \<Rightarrow> nat \<Rightarrow> mem \<Rightarrow> mem" where "bzero p n m = memset p 0 n m"

definition memmove_s :: "ptr \<Rightarrow> nat \<Rightarrow> ptr \<Rightarrow> nat \<Rightarrow> mem \<Rightarrow> bcme \<times> mem" where
  "memmove_s dest destsz src n m =
     (if dest = NULL \<or> ptr_plus dest destsz < dest then (BCME_BADARG, m)
      else if destsz > RSIZE_MAX then (BCME_BADLEN, m)
      else if destsz < n then (BCME_BADLEN, bzero dest destsz m)
      else if src = NULL \<or> ptr_plus src n < src then (BCME_BADARG, bzero dest destsz m)
      else (BCME_OK, memcpy dest src n m))"

definition memcpy_s :: "ptr \<Rightarrow> nat \<Rightarrow> ptr \<Rightarrow> nat \<Rightarrow> mem \<Rightarrow> bcme \<times> mem" where
  "memcpy_s dest destsz src n m =
     (if dest = NULL \<or> ptr_plus dest destsz < dest then (BCME_BADARG, m)
      else if destsz > RSIZE_MAX then (BCME_BADLEN, m)
      else if destsz < n then (BCME_BADLEN, bzero dest destsz m)
      else if src = NULL \<or> ptr_plus src n < src then (BCME_BADARG, bzero dest destsz m)
      else if \<not> (ptr_plus dest destsz \<le> src \<or> dest \<ge> ptr_plus src n) then (BCME_BADARG, bzero dest destsz m)
      else (BCME_OK, memcpy dest src n m))"

definition memset_s :: "ptr \<Rightarrow> nat \<Rightarrow> int \<Rightarrow> nat \<Rightarrow> mem \<Rightarrow> bcme \<times> mem" where
  "memset_s dest destsz c n m =
     (if dest = NULL \<or> ptr_plus dest destsz < dest then (BCME_BADARG, m)
      else if destsz > RSIZE_MAX then (BCME_BADLEN, m)
      else if destsz < n then (BCME_BADLEN, memset dest (of_int c) destsz m)
      else (BCME_OK, memset dest (of_int c) n m))"

function strlcpy_loop :: "ptr \<Rightarrow> ptr \<Rightarrow> nat \<Rightarrow> nat \<Rightarrow> mem \<Rightarrow> nat \<times> mem" where
  "strlcpy_loop dest src sz i m =
     (if i < sz then
        (let m = m(dest + i := m (src + i))
         in if m (dest + i) = 0 then (i, m) else strlcpy_loop dest src sz (i + 1) m)
      else (sz, m(dest + sz - 1 := 0)))"
  by pat_completeness auto
termination by (relation "measure (\<lambda>(dest, src, sz, i, m). sz - i)") auto

declare strlcpy_loop.simps [simp del]

definition strlcpy :: "ptr \<Rightarrow> ptr \<Rightarrow> nat \<Rightarrow> mem \<Rightarrow> nat \<times> mem" where
  "strlcpy dest src sz m =
     (if dest = NULL \<or> sz = 0 then (0, m)
      else if src = NULL then (0, m(dest := 0))
      else strlcpy_loop dest src sz 0 m)"

text \<open>\<open>while (n != 0 && *d != 0) { d++; n--; }\<close> and \<open>while (n-- != 0 && *(s + slen) != 0) ++slen;\<close>\<close>

fun end_scan :: "mem \<Rightarrow> ptr \<Rightarrow> nat \<Rightarrow> ptr \<times> nat" where
  "end_scan m d 0 = (d, 0)"
| "end_scan m d (Suc n) = (if m d \<noteq> 0 then end_scan m (d + 1) n else (d, Suc n))"

fun slen_loop :: "mem \<Rightarrow> ptr \<Rightarrow> nat \<Rightarrow> nat \<Rightarrow> nat" where
  "slen_loop m s 0 slen = slen"
| "slen_loop m s (Suc n) slen = (if m (s + slen) \<noteq> 0 then slen_loop m s n (slen + 1) else slen)"

definition strlcat_s :: "ptr \<Rightarrow> ptr \<Rightarrow> nat \<Rightarrow> mem \<Rightarrow> nat \<times> mem" where
  "strlcat_s dest src sz m =
     (if dest = NULL then (0, m)
      else let (d, n) = end_scan m dest sz;
               dlen = d - dest;
               (n, bytes_to_copy, d, m) =
                 (if src \<noteq> NULL then
                    let slen = slen_loop m src sz 0;
                        n = sz - dlen
                    in if n \<noteq> 0 then
                         let bytes_to_copy = min slen (n - 1)
                         in (n, bytes_to_copy, d + bytes_to_copy, memcpy d src bytes_to_copy m)
                       else (n, 0, d, m)
                  else (n, 0, d, m));
               d = (if n = 0 \<and> dlen \<noteq> 0 then d - 1 else d)
           in (dlen + bytes_to_copy, m(d := 0)))"

section \<open>Strings in memory\<close>

text \<open>The string at an address, as far as \<open>n\<close> bytes reach.\<close>

definition cstr :: "mem \<Rightarrow> ptr \<Rightarrow> nat \<Rightarrow> u8 list" where
  "cstr m p n = takeWhile (\<lambda>b. b \<noteq> 0) (bytes m p n)"

lemma cstr_0 [simp]: "cstr m p 0 = []"
  by (simp add: cstr_def)

lemma cstr_Suc: "cstr m p (Suc n) = (if m p = 0 then [] else m p # cstr m (Suc p) n)"
  by (simp add: cstr_def bytes_Suc)

lemma length_cstr_le: "length (cstr m p n) \<le> n"
  unfolding cstr_def using length_takeWhile_le [of "\<lambda>b. b \<noteq> 0" "bytes m p n"] by simp

lemma cstr_eq_take: "cstr m p n = bytes m p (length (cstr m p n))"
proof (induction n arbitrary: p)
  case (Suc n)
  then show ?case by (simp add: cstr_Suc bytes_Suc)
qed simp

lemma cstr_nonzero: "0 \<notin> set (cstr m p n)"
  unfolding cstr_def by (auto dest: set_takeWhileD)

lemma cstr_cong: "(\<And>i. i < n \<Longrightarrow> m (p + i) = m' (p + i)) \<Longrightarrow> cstr m p n = cstr m' p n"
  unfolding cstr_def using bytes_cong [of n m p m'] by simp

lemma cstr_store:
  assumes "0 \<notin> set bs" and "length bs < n"
  shows "cstr (store_bytes p (bs @ [0]) m) p n = bs"
proof -
  have "n = length (bs @ [0]) + (n - Suc (length bs))" using assms by simp
  then have "bytes (store_bytes p (bs @ [0]) m) p n
      = (bs @ [0]) @ bytes (store_bytes p (bs @ [0]) m) (p + length (bs @ [0])) (n - Suc (length bs))"
    by (metis bytes_add bytes_store_same)
  then show ?thesis using assms(1) by (simp add: cstr_def takeWhile_append)
qed

section \<open>Copies\<close>

text \<open>The arguments every copy accepts: a destination object that does not wrap, of at most \<open>RSIZE_MAX\<close> bytes,
  with room for the \<open>n\<close> bytes of a source that does not wrap either.\<close>

definition dest_ok :: "ptr \<Rightarrow> nat \<Rightarrow> bool" where
  "dest_ok dest destsz \<longleftrightarrow> dest \<noteq> NULL \<and> dest + destsz < 2 ^ 64 \<and> destsz \<le> RSIZE_MAX"

definition copy_ok :: "ptr \<Rightarrow> nat \<Rightarrow> ptr \<Rightarrow> nat \<Rightarrow> bool" where
  "copy_ok dest destsz src n \<longleftrightarrow> dest_ok dest destsz \<and> n \<le> destsz \<and> src \<noteq> NULL \<and> src + n < 2 ^ 64"

text \<open>What a copy promises of its result when it is to succeed exactly if \<open>ok\<close>.\<close>

definition copied_or_cleared :: "bool \<Rightarrow> ptr \<Rightarrow> nat \<Rightarrow> ptr \<Rightarrow> nat \<Rightarrow> mem \<Rightarrow> bcme \<times> mem \<Rightarrow> bool" where
  "copied_or_cleared ok dest destsz src n m r \<longleftrightarrow>
     (fst r = BCME_OK \<longleftrightarrow> ok) \<and>
     (if ok then bytes (snd r) dest n = bytes m src n
      else if dest_ok dest destsz then bytes (snd r) dest destsz = replicate destsz 0
      else snd r = m) \<and>
     (\<forall>y. y < dest \<or> dest + destsz \<le> y \<longrightarrow> snd r y = m y)"

lemma ptr_wraps: "p < 2 ^ 64 \<Longrightarrow> n < 2 ^ 64 \<Longrightarrow> ptr_plus p n < p \<longleftrightarrow> 2 ^ 64 \<le> p + n"
  by (cases "p + n < 2 ^ 64") (auto simp: ptr_plus_def mod_if)

lemma ptr_plus_no_wrap: "p + n < 2 ^ 64 \<Longrightarrow> ptr_plus p n = p + n"
  by (simp add: ptr_plus_def)

lemma memmove_s_cases:
  assumes "dest < 2 ^ 64" "destsz < 2 ^ 64" "src < 2 ^ 64" "n < 2 ^ 64"
  shows "if copy_ok dest destsz src n then memmove_s dest destsz src n m = (BCME_OK, memcpy dest src n m)
    else \<exists>e. e \<noteq> BCME_OK \<and> memmove_s dest destsz src n m =
      (e, if dest_ok dest destsz then memset dest 0 destsz m else m)"
  using assms by (auto simp: memmove_s_def copy_ok_def dest_ok_def ptr_wraps bzero_def)

lemma memcpy_s_cases:
  assumes "dest < 2 ^ 64" "destsz < 2 ^ 64" "src < 2 ^ 64" "n < 2 ^ 64"
  shows "if copy_ok dest destsz src n \<and> (dest + destsz \<le> src \<or> src + n \<le> dest)
    then memcpy_s dest destsz src n m = (BCME_OK, memcpy dest src n m)
    else \<exists>e. e \<noteq> BCME_OK \<and> memcpy_s dest destsz src n m =
      (e, if dest_ok dest destsz then memset dest 0 destsz m else m)"
  using assms by (auto simp: memcpy_s_def copy_ok_def dest_ok_def ptr_wraps ptr_plus_no_wrap bzero_def)

lemma memset_s_cases:
  assumes "dest < 2 ^ 64" "destsz < 2 ^ 64"
  shows "memset_s dest destsz c n m =
    (if dest_ok dest destsz then (if n \<le> destsz then BCME_OK else BCME_BADLEN, memset dest (of_int c) (min n destsz) m)
     else (if dest = NULL \<or> 2 ^ 64 \<le> dest + destsz then BCME_BADARG else BCME_BADLEN, m))"
  using assms by (auto simp: memset_s_def dest_ok_def ptr_wraps min_def)

section \<open>Strings\<close>

lemma strlcpy_loop_copies:
  assumes "i \<le> sz" and "dest + sz \<le> src \<or> src + sz \<le> dest"
  shows "strlcpy_loop dest src sz i m =
    (let s = cstr m (src + i) (sz - i) in
     if length s < sz - i then (i + length s, store_bytes (dest + i) (s @ [0]) m)
     else (sz, (store_bytes (dest + i) s m)(dest + sz - 1 := 0)))"
  using assms
proof (induction dest src sz i m rule: strlcpy_loop.induct)
  case (1 dest src sz i m)
  show ?case
  proof (cases "i < sz")
    case True
    let ?m = "m(dest + i := m (src + i))" and ?r = "cstr m (src + Suc i) (sz - Suc i)"
    have r: "cstr ?m (src + (i + 1)) (sz - (i + 1)) = ?r"
      using "1.prems"(2) True by (simp only: Suc_eq_plus1 [symmetric], intro cstr_cong) auto
    have d: "sz - i = Suc (sz - Suc i)" using True by simp
    have IH: "strlcpy_loop dest src sz (i + 1) ?m =
        (if length ?r < sz - (i + 1) then (i + 1 + length ?r, store_bytes (dest + (i + 1)) (?r @ [0]) ?m)
         else (sz, (store_bytes (dest + (i + 1)) ?r ?m)(dest + sz - 1 := 0)))" if "m (src + i) \<noteq> 0"
    proof -
      have "?m (dest + i) \<noteq> 0" "i + 1 \<le> sz" using that True by simp_all
      from "1.IH" [OF True refl this "1.prems"(2)] show ?thesis by (simp only: Let_def r)
    qed
    show ?thesis
      using True IH unfolding strlcpy_loop.simps [of dest src sz i m] Let_def d cstr_Suc
      by (simp add: store_bytes_Cons)
  qed (use "1.prems" in \<open>simp add: strlcpy_loop.simps\<close>)
qed

lemma end_scan_cstr: "end_scan m d n = (d + length (cstr m d n), n - length (cstr m d n))"
  by (induction n arbitrary: d) (simp_all add: cstr_Suc)

lemma slen_loop_cstr: "slen_loop m s n k = k + length (cstr m (s + k) n)"
  by (induction n arbitrary: k) (simp_all add: cstr_Suc)

lemma store_last: "store_bytes p (xs @ [x]) m = (store_bytes p xs m)(p + length xs := x)"
  by (auto simp: store_bytes_def nth_append fun_eq_iff less_Suc_eq)

section \<open>Properties\<close>



text \<open>\<open>strlcpy\<close> copies as much of the source string as fits with its terminator, always terminates the
  destination, returns the length of the source string if all of it fits and \<open>size\<close> otherwise, and writes
  nothing outside the destination.\<close>

theorem strlcpy_copies:
  assumes "dest \<noteq> NULL" "src \<noteq> NULL" "0 < sz" and "dest + sz \<le> src \<or> src + sz \<le> dest"
    and "strlcpy dest src sz m = (r, m')"
  shows "cstr m' dest sz = take (sz - 1) (cstr m src sz) \<and> r = length (cstr m src sz) \<and>
    m' (dest + length (cstr m' dest sz)) = 0 \<and> (\<forall>y. y < dest \<or> dest + sz \<le> y \<longrightarrow> m' y = m y)"
proof -
  let ?s = "cstr m src sz"
  let ?t = "take (sz - 1) ?s"
  have le: "length ?s \<le> sz" by (rule length_cstr_le)
  have "(r, m') = (if length ?s < sz then (length ?s, store_bytes dest (?s @ [0]) m)
      else (sz, (store_bytes dest ?s m)(dest + sz - 1 := 0)))"
    using assms strlcpy_loop_copies [of 0 sz dest src m] by (auto simp: strlcpy_def Let_def)
  moreover have "(store_bytes dest ?s m)(dest + sz - 1 := 0) = store_bytes dest (?t @ [0]) m" if "length ?s = sz"
  proof -
    have "?s = ?t @ [last ?s]" using that assms(3)
      by (metis append_butlast_last_id butlast_conv_take length_0_conv less_numeral_extra(3))
    then have "store_bytes dest ?s m = (store_bytes dest ?t m)(dest + (sz - 1) := last ?s)"
      using that by (metis store_last length_take min.absorb2 diff_le_self)
    then show ?thesis using that assms(3) by (simp add: store_last)
  qed
  ultimately have r: "r = length ?s" and m': "m' = store_bytes dest (?t @ [0]) m"
    using le assms(3) by (auto split: if_splits)
  have t: "0 \<notin> set ?t" "length ?t < sz" using cstr_nonzero [of m src sz] assms(3) by (auto dest: in_set_takeD)
  have c: "cstr m' dest sz = ?t" unfolding m' using t by (rule cstr_store)
  have "m' (dest + length ?t) = 0" unfolding m' by (simp add: store_last)
  moreover have "m' y = m y" if "y < dest \<or> dest + sz \<le> y" for y
    unfolding m' using that t(2) by (intro store_bytes_outside) auto
  ultimately show ?thesis using r c by simp
qed

theorem strlcpy_copies_witness:
  "fst (strlcpy 100 200 3 (\<lambda>y. if y < 205 then 65 else 0)) = 3 \<and>
   cstr (snd (strlcpy 100 200 3 (\<lambda>y. if y < 205 then 65 else 0))) 100 3 = [65, 65]"
proof -
  obtain r m' where r: "strlcpy 100 200 3 (\<lambda>y. if y < 205 then 65 else 0) = (r, m')" by fastforce
  from strlcpy_copies [OF _ _ _ _ r] r show ?thesis by (simp add: cstr_def bytes_def upt_rec)
qed

text \<open>\<open>strlcat_s\<close> on a terminated destination appends as much of the source string as fits with its
  terminator, returns the length of the result and writes nothing outside the destination; a destination
  without a terminator in its \<open>size\<close> bytes gets one in its last byte.\<close>

theorem strlcat_s_appends:
  assumes "dest \<noteq> NULL" "src \<noteq> NULL" "0 < sz" and "dest + sz \<le> src \<or> src + sz \<le> dest"
    and "strlcat_s dest src sz m = (r, m')"
  shows "cstr m' dest sz = take (sz - 1) (cstr m dest sz @ cstr m src sz) \<and>
    (length (cstr m dest sz) < sz \<longrightarrow> r = length (cstr m' dest sz)) \<and>
    m' (dest + length (cstr m' dest sz)) = 0 \<and> (\<forall>y. y < dest \<or> dest + sz \<le> y \<longrightarrow> m' y = m y)"
proof -
  let ?d = "cstr m dest sz" and ?s = "cstr m src sz"
  let ?t = "take (sz - 1) (?d @ ?s)"
  have le: "length ?d \<le> sz" by (rule length_cstr_le)
  have own: "store_bytes dest (bytes m dest k) m = m" for k by (auto simp: store_bytes_def bytes_def fun_eq_iff)
  have r: "(length ?d < sz \<longrightarrow> r = length ?t) \<and> m' = store_bytes dest (?t @ [0]) m"
  proof (cases "length ?d < sz")
    case True
    let ?k = "min (length ?s) (sz - length ?d - 1)"
    have s: "bytes m src ?k = take (sz - 1 - length ?d) ?s"
    proof -
      have "bytes m src ?k = take ?k (bytes m src (length ?s))" by (simp add: bytes_def take_map)
      then show ?thesis using cstr_eq_take [of m src sz] by (simp add: min_def)
    qed
    have a: "(r, m') = (length ?d + ?k, (memcpy (dest + length ?d) src ?k m)(dest + length ?d + ?k := 0))"
      using assms True by (simp add: strlcat_s_def Let_def end_scan_cstr slen_loop_cstr)
    have b: "memcpy (dest + length ?d) src ?k m = store_bytes dest (?d @ bytes m src ?k) m"
      unfolding memcpy_def store_bytes_append using own [of "length ?d"] cstr_eq_take [of m dest sz] by simp
    have t: "?t = ?d @ bytes m src ?k" unfolding s using True by simp
    have "m' = store_bytes dest (?t @ [0]) m" unfolding store_last t using a unfolding b by (simp add: add.assoc)
    moreover have "r = length ?t" unfolding t using a by simp
    ultimately show ?thesis by blast
  next
    case False
    then have l: "length ?d = sz" using le by simp
    have t: "?t = bytes m dest (sz - 1)"
      using cstr_eq_take [of m dest sz] l by (simp add: bytes_def take_map)
    have "m' = m(dest + sz - 1 := 0)"
      using assms l by (auto simp: strlcat_s_def Let_def end_scan_cstr)
    moreover have "store_bytes dest (?t @ [0]) m = m(dest + sz - 1 := 0)"
      unfolding t store_last own using assms(3) by simp
    ultimately show ?thesis using l by simp
  qed
  have t: "0 \<notin> set ?t" "length ?t < sz"
    using cstr_nonzero [of m src sz] cstr_nonzero [of m dest sz] assms(3) by (auto dest: in_set_takeD)
  have c: "cstr m' dest sz = ?t" unfolding conjunct2 [OF r] using t by (rule cstr_store)
  have "m' (dest + length ?t) = 0" unfolding conjunct2 [OF r] store_last by (rule fun_upd_same)
  moreover have "m' y = m y" if "y < dest \<or> dest + sz \<le> y" for y
    unfolding conjunct2 [OF r] using that t(2) by (intro store_bytes_outside) auto
  ultimately show ?thesis using conjunct1 [OF r] unfolding c by blast
qed

theorem strlcat_s_appends_witness:
  "fst (strlcat_s 100 200 4 (\<lambda>y. if y = 101 \<or> y = 202 then 0 else 65)) = 3 \<and>
   cstr (snd (strlcat_s 100 200 4 (\<lambda>y. if y = 101 \<or> y = 202 then 0 else 65))) 100 4 = [65, 65, 65]"
proof -
  obtain r m' where r: "strlcat_s 100 200 4 (\<lambda>y. if y = 101 \<or> y = 202 then 0 else 65) = (r, m')" by fastforce
  from strlcat_s_appends [OF _ _ _ _ r] r show ?thesis by (simp add: cstr_def bytes_def upt_rec)
qed

end
