(* ===== verification/Bloom.thy ===== *)
theory Bloom
  imports Prelude "HOL-Library.Multiset"
begin

text \<open>
  The bloom filter of \<open>bcmbloom.c\<close>. The allocation, release and hash callbacks of the client are
  parameters: \<open>alloc\<close> and \<open>free\<close> act on the client's context, a hash function maps slot and tag to a 32 bit
  position. The lemmas show that a filter has no false negatives, that positions stay inside the
  filter, that hash slots are allocated without collision and that creation leaks nothing when it fails.
\<close>

unbundle bit_operations_syntax

section \<open>The code\<close>

definition BLOOM_BIT_LEN :: "nat \<Rightarrow> nat" where "BLOOM_BIT_LEN x = x * 8 mod 2 ^ 32"

type_synonym bcm_bloom_hash = "nat \<Rightarrow> u8 list \<Rightarrow> u32"

record bcm_bloom_filter =
  max_hash :: nat
  hash_fns :: "bcm_bloom_hash option list"
  filter_size :: nat
  filter_bytes :: "u8 list option"

text \<open>The bit macros of \<open>bcmutils.h\<close> on an array of bytes.\<close>

definition setbit :: "u8 list \<Rightarrow> nat \<Rightarrow> u8 list" where
  "setbit a i = a[i div 8 := (a ! (i div 8)) OR push_bit (i mod 8) 1]"

definition isclr :: "u8 list \<Rightarrow> nat \<Rightarrow> bool" where
  "isclr a i \<longleftrightarrow> (a ! (i div 8)) AND push_bit (i mod 8) 1 = 0"

text \<open>\<open>sizeof(struct bcm_bloom_filter)\<close> and of a function pointer on the 64 bit host.\<close>

definition sizeof_bloom :: nat where "sizeof_bloom = 40"
definition sizeof_hash :: nat where "sizeof_hash = 8"

text \<open>\<open>sizeof( *bp->hash) * max_hash\<close>, a 64 bit product passed to the callbacks as a \<open>uint\<close>.\<close>

definition hash_bytes :: "nat \<Rightarrow> nat" where "hash_bytes n = sizeof_hash * n mod 2 ^ 32"

text \<open>\<open>free\<close> is \<open>None\<close> for a \<open>NULL\<close> callback. The filter, the hash table and the structure are released in
  this order; a part not yet allocated is \<open>NULL\<close>, given here as \<open>False\<close>.\<close>

definition release_parts :: "('c \<Rightarrow> nat \<Rightarrow> 'c) option \<Rightarrow> bool \<Rightarrow> bool \<Rightarrow> nat \<Rightarrow> nat \<Rightarrow> 'c \<Rightarrow> 'c" where
  "release_parts free_cb has_filter has_hash fsize nhash ctx =
     (case free_cb of
        None \<Rightarrow> ctx
      | Some free \<Rightarrow>
          (let ctx = (if has_filter then free ctx fsize else ctx);
               ctx = (if has_hash then free ctx (hash_bytes nhash) else ctx)
           in free ctx sizeof_bloom))"

definition bcm_bloom_destroy ::
    "bcm_bloom_filter option \<Rightarrow> ('c \<Rightarrow> nat \<Rightarrow> 'c) option \<Rightarrow> 'c \<Rightarrow> bcme \<times> bcm_bloom_filter option \<times> 'c" where
  "bcm_bloom_destroy bloom free_cb ctx =
     (case bloom of
        None \<Rightarrow> (BCME_OK, bloom, ctx)
      | Some bp \<Rightarrow>
          if free_cb = None then (BCME_OK, bloom, ctx)
          else (BCME_OK, None,
                release_parts free_cb (filter_bytes bp \<noteq> None) True (filter_size bp) (max_hash bp) ctx))"

text \<open>\<open>alloc\<close> returns whether it had memory. An allocation that fails takes down what was built before it.\<close>

definition bcm_bloom_create ::
    "('c \<Rightarrow> nat \<Rightarrow> bool \<times> 'c) option \<Rightarrow> ('c \<Rightarrow> nat \<Rightarrow> 'c) option \<Rightarrow> 'c \<Rightarrow> nat \<Rightarrow> nat
      \<Rightarrow> bcme \<times> bcm_bloom_filter option \<times> 'c" where
  "bcm_bloom_create alloc_cb free_cb ctx maxh fsize =
     (case alloc_cb of
        None \<Rightarrow> (BCME_BADARG, None, ctx)
      | Some alloc \<Rightarrow>
          if maxh = 0 then (BCME_BADARG, None, ctx)
          else case alloc ctx sizeof_bloom of
            (False, ctx) \<Rightarrow> (BCME_NOMEM, None, ctx)
          | (True, ctx) \<Rightarrow>
              (case alloc ctx (hash_bytes maxh) of
                 (False, ctx) \<Rightarrow> (BCME_NOMEM, None, release_parts free_cb False False 0 maxh ctx)
               | (True, ctx) \<Rightarrow>
                   (let bp = \<lparr>max_hash = maxh, hash_fns = replicate maxh None, filter_size = 0, filter_bytes = None\<rparr>
                    in if fsize > 0 then
                         (case alloc ctx fsize of
                            (False, ctx) \<Rightarrow> (BCME_NOMEM, None, release_parts free_cb False True 0 maxh ctx)
                          | (True, ctx) \<Rightarrow>
                              (BCME_OK, Some (bp\<lparr>filter_size := fsize, filter_bytes := Some (replicate fsize 0)\<rparr>), ctx))
                       else (BCME_OK, Some bp, ctx))))"

text \<open>\<open>for (i = 0; i < max_hash; ++i) if (hash[i] == NULL) break;\<close>\<close>

fun free_slot :: "bcm_bloom_hash option list \<Rightarrow> nat \<Rightarrow> nat" where
  "free_slot [] i = i"
| "free_slot (None # hs) i = i"
| "free_slot (Some h # hs) i = free_slot hs (i + 1)"

definition bcm_bloom_add_hash ::
    "bcm_bloom_hash option \<Rightarrow> bcm_bloom_filter option \<Rightarrow> bcme \<times> nat option \<times> bcm_bloom_filter option" where
  "bcm_bloom_add_hash hash bloom =
     (case (bloom, hash) of
        (Some bp, Some h) \<Rightarrow>
          (let i = free_slot (take (max_hash bp) (hash_fns bp)) 0
           in if i \<ge> max_hash bp then (BCME_NORESOURCE, None, bloom)
              else (BCME_OK, Some i, Some (bp\<lparr>hash_fns := (hash_fns bp)[i := Some h]\<rparr>)))
      | _ \<Rightarrow> (BCME_BADARG, None, bloom))"

definition bcm_bloom_remove_hash :: "nat \<Rightarrow> bcm_bloom_filter option \<Rightarrow> bcme \<times> bcm_bloom_filter option" where
  "bcm_bloom_remove_hash idx bloom =
     (case bloom of
        None \<Rightarrow> (BCME_BADARG, bloom)
      | Some bp \<Rightarrow>
          if idx \<ge> max_hash bp then (BCME_NOTFOUND, bloom)
          else (BCME_OK, Some (bp\<lparr>hash_fns := (hash_fns bp)[idx := None]\<rparr>)))"

text \<open>The loop over the hash slots: every bit must be set. \<open>hs\<close> are the slots from index \<open>i\<close> on.\<close>

fun member_loop :: "bcm_bloom_hash option list \<Rightarrow> nat \<Rightarrow> u8 list \<Rightarrow> u8 list \<Rightarrow> nat \<Rightarrow> bcme" where
  "member_loop [] i tag buf buf_len = BCME_OK"
| "member_loop (None # hs) i tag buf buf_len = member_loop hs (i + 1) tag buf buf_len"
| "member_loop (Some h # hs) i tag buf buf_len =
     (let pos = unat (h i tag)
      in if isclr buf (pos mod BLOOM_BIT_LEN buf_len) then BCME_NOTFOUND
         else member_loop hs (i + 1) tag buf buf_len)"

text \<open>The function returns its \<open>int\<close> code through the type \<open>bool\<close>: 0 becomes false, every error true.
  A \<open>NULL\<close> or empty tag is \<open>[]\<close>, a \<open>NULL\<close> or empty buffer is \<open>[]\<close>.\<close>

definition bcm_bloom_is_member :: "bcm_bloom_filter \<Rightarrow> u8 list \<Rightarrow> u8 list \<Rightarrow> bool" where
  "bcm_bloom_is_member bp tag buf =
     (let err =
        (if tag = [] then BCME_OK
         else if buf = [] then
           (case filter_bytes bp of
              None \<Rightarrow> BCME_OK
            | Some f \<Rightarrow> member_loop (take (max_hash bp) (hash_fns bp)) 0 tag f (filter_size bp))
         else member_loop (take (max_hash bp) (hash_fns bp)) 0 tag buf (length buf))
      in err \<noteq> BCME_OK)"

fun add_loop :: "bcm_bloom_hash option list \<Rightarrow> nat \<Rightarrow> u8 list \<Rightarrow> nat \<Rightarrow> u8 list \<Rightarrow> u8 list" where
  "add_loop [] i tag fsize f = f"
| "add_loop (None # hs) i tag fsize f = add_loop hs (i + 1) tag fsize f"
| "add_loop (Some h # hs) i tag fsize f =
     (let pos = unat (h i tag)
      in add_loop hs (i + 1) tag fsize (setbit f (pos mod BLOOM_BIT_LEN fsize)))"

definition bcm_bloom_add_member :: "u8 list \<Rightarrow> bcm_bloom_filter option \<Rightarrow> bcme \<times> bcm_bloom_filter option" where
  "bcm_bloom_add_member tag bloom =
     (case bloom of
        None \<Rightarrow> (BCME_BADARG, bloom)
      | Some bp \<Rightarrow>
          if tag = [] then (BCME_BADARG, bloom)
          else case filter_bytes bp of
                 None \<Rightarrow> (BCME_UNSUPPORTED, bloom)
               | Some f \<Rightarrow>
                   (BCME_OK, Some (bp\<lparr>filter_bytes :=
                      Some (add_loop (take (max_hash bp) (hash_fns bp)) 0 tag (filter_size bp) f)\<rparr>)))"

text \<open>The result is the code, what is stored in \<open>*buf_len\<close> (nothing for a \<open>NULL\<close> filter) and the bytes copied.\<close>

definition bcm_bloom_get_filter_data :: "bcm_bloom_filter option \<Rightarrow> nat \<Rightarrow> bcme \<times> nat option \<times> u8 list" where
  "bcm_bloom_get_filter_data bloom buf_size =
     (case bloom of
        None \<Rightarrow> (BCME_BADARG, None, [])
      | Some bp \<Rightarrow>
          if buf_size < filter_size bp then (BCME_BUFTOOSHORT, Some (filter_size bp), [])
          else (BCME_OK, Some (filter_size bp),
                case filter_bytes bp of
                  None \<Rightarrow> []
                | Some f \<Rightarrow> if filter_size bp \<noteq> 0 then take (filter_size bp) f else []))"

section \<open>Well formed filters\<close>

definition bloom_ok :: "bcm_bloom_filter \<Rightarrow> bool" where
  "bloom_ok bp \<longleftrightarrow> length (hash_fns bp) = max_hash bp \<and> filter_size bp < 2 ^ 29 \<and>
     (case filter_bytes bp of None \<Rightarrow> filter_size bp = 0 | Some f \<Rightarrow> 0 < filter_size bp \<and> length f = filter_size bp)"

lemma pos_in_filter: "0 < n \<Longrightarrow> n < 2 ^ 29 \<Longrightarrow> p mod BLOOM_BIT_LEN n div 8 < n"
  by (simp add: BLOOM_BIT_LEN_def less_mult_imp_div_less)

lemma length_setbit [simp]: "length (setbit a i) = length a"
  by (simp add: setbit_def)

lemma byte_or_clear:
  "((b :: u8) OR push_bit i 1) AND push_bit j 1 = 0 \<Longrightarrow> b AND push_bit j 1 = 0"
  by (simp add: bit_eq_iff bit_simps) blast

lemma byte_or_set: "i < 8 \<Longrightarrow> ((b :: u8) OR push_bit i 1) AND push_bit i 1 \<noteq> 0"
  by (auto simp: bit_eq_iff bit_simps intro!: exI [of _ i])

lemma setbit_keeps: "\<not> isclr a j \<Longrightarrow> \<not> isclr (setbit a i) j"
  using byte_or_clear [of "a ! (i div 8)" "i mod 8" "j mod 8"]
  by (cases "i div 8 < length a \<and> j div 8 = i div 8") (auto simp: isclr_def setbit_def nth_list_update list_update_beyond)

lemma setbit_sets: "i div 8 < length a \<Longrightarrow> \<not> isclr (setbit a i) i"
  using byte_or_set [of "i mod 8" "a ! (i div 8)"] by (simp add: isclr_def setbit_def)

lemma length_add_loop [simp]: "length (add_loop hs i tag n f) = length f"
  by (induction hs i tag n f rule: add_loop.induct) (simp_all add: Let_def)

lemma add_loop_keeps: "\<not> isclr f j \<Longrightarrow> \<not> isclr (add_loop hs i tag n f) j"
  by (induction hs i tag n f rule: add_loop.induct) (simp_all add: Let_def setbit_keeps)

lemma member_loop_iff:
  "member_loop hs i tag f n = BCME_OK \<longleftrightarrow>
     (\<forall>k h. k < length hs \<longrightarrow> hs ! k = Some h \<longrightarrow> \<not> isclr f (unat (h (i + k) tag) mod BLOOM_BIT_LEN n))"
proof (induction hs i tag f n rule: member_loop.induct)
  case (2 hs i tag f n)
  then show ?case by (simp add: All_less_Suc2)
next
  case (3 h hs i tag f n)
  then show ?case by (simp add: Let_def All_less_Suc2)
qed simp

lemma add_then_member:
  assumes "0 < n" "n < 2 ^ 29" "length f = n"
  shows "member_loop hs i tag (add_loop hs i tag n f) n = BCME_OK"
  using assms
proof (induction hs i tag n f rule: add_loop.induct)
  case (3 h hs i tag n f)
  let ?p = "unat (h i tag) mod BLOOM_BIT_LEN n"
  have "\<not> isclr (setbit f ?p) ?p" using "3.prems" by (intro setbit_sets) (simp only: pos_in_filter)
  then show ?case using 3 by (simp add: Let_def add_loop_keeps)
qed simp_all

lemma member_mono:
  assumes "member_loop hs i tag f n = BCME_OK" and "\<And>j. \<not> isclr f j \<Longrightarrow> \<not> isclr f' j"
  shows "member_loop hs i tag f' n = BCME_OK"
  using assms unfolding member_loop_iff by blast

text \<open>Adding a list of tags.\<close>

definition bloom_adds :: "u8 list list \<Rightarrow> bcm_bloom_filter option \<Rightarrow> bcm_bloom_filter option" where
  "bloom_adds = fold (\<lambda>t b. snd (bcm_bloom_add_member t b))"

lemma bloom_same_buffer: "filter_bytes bp = Some f \<Longrightarrow> bp\<lparr>filter_bytes := Some f\<rparr> = bp"
  by (cases bp) simp

lemma add_member_step:
  assumes ok: "bloom_ok bp" and f: "filter_bytes bp = Some f"
  shows "\<exists>f'. snd (bcm_bloom_add_member t (Some bp)) = Some (bp\<lparr>filter_bytes := Some f'\<rparr>) \<and>
    bloom_ok (bp\<lparr>filter_bytes := Some f'\<rparr>) \<and> (\<forall>j. \<not> isclr f j \<longrightarrow> \<not> isclr f' j) \<and>
    (t \<noteq> [] \<longrightarrow> member_loop (take (max_hash bp) (hash_fns bp)) 0 t f' (filter_size bp) = BCME_OK)"
proof (cases "t = []")
  case True
  then show ?thesis using assms by (intro exI [of _ f]) (auto simp: bcm_bloom_add_member_def bloom_same_buffer)
next
  case False
  let ?f = "add_loop (take (max_hash bp) (hash_fns bp)) 0 t (filter_size bp) f"
  have n: "0 < filter_size bp" "filter_size bp < 2 ^ 29" "length f = filter_size bp"
    using assms by (auto simp: bloom_ok_def)
  show ?thesis
    using False assms add_then_member [OF n] add_loop_keeps
    by (intro exI [of _ ?f]) (auto simp: bcm_bloom_add_member_def bloom_ok_def)
qed

lemma adds_members:
  assumes "bloom_ok bp" and "filter_bytes bp = Some f"
    and "\<And>t. t \<in> T \<Longrightarrow> t \<noteq> [] \<Longrightarrow> member_loop (take (max_hash bp) (hash_fns bp)) 0 t f (filter_size bp) = BCME_OK"
  shows "\<exists>f'. bloom_adds ts (Some bp) = Some (bp\<lparr>filter_bytes := Some f'\<rparr>) \<and>
    bloom_ok (bp\<lparr>filter_bytes := Some f'\<rparr>) \<and>
    (\<forall>t \<in> T \<union> set ts. t \<noteq> [] \<longrightarrow> member_loop (take (max_hash bp) (hash_fns bp)) 0 t f' (filter_size bp) = BCME_OK)"
  using assms
proof (induction ts arbitrary: bp f T)
  case Nil
  then show ?case by (intro exI [of _ f]) (auto simp: bloom_adds_def bloom_same_buffer)
next
  case (Cons t ts)
  obtain f1 where f1: "snd (bcm_bloom_add_member t (Some bp)) = Some (bp\<lparr>filter_bytes := Some f1\<rparr>)"
    "bloom_ok (bp\<lparr>filter_bytes := Some f1\<rparr>)" "\<And>j. \<not> isclr f j \<Longrightarrow> \<not> isclr f1 j"
    "t \<noteq> [] \<Longrightarrow> member_loop (take (max_hash bp) (hash_fns bp)) 0 t f1 (filter_size bp) = BCME_OK"
    using add_member_step [OF Cons.prems(1,2)] by blast
  have "member_loop (take (max_hash bp) (hash_fns bp)) 0 u f1 (filter_size bp) = BCME_OK"
    if "u \<in> insert t T" "u \<noteq> []" for u
    using that f1(4) member_mono [OF Cons.prems(3) f1(3)] by auto
  from Cons.IH [OF f1(2) _ , of f1 "insert t T"] this show ?case by (simp add: bloom_adds_def f1(1))
qed

section \<open>Hash slots\<close>

lemma free_slot_spec:
  "free_slot hs i - i \<le> length hs \<and> i \<le> free_slot hs i \<and>
   (\<forall>k < free_slot hs i - i. hs ! k \<noteq> None) \<and> (free_slot hs i - i < length hs \<longrightarrow> hs ! (free_slot hs i - i) = None)"
proof (induction hs i rule: free_slot.induct)
  case (3 h hs i)
  then have "free_slot hs (i + 1) - i = Suc (free_slot hs (i + 1) - (i + 1))" by linarith
  then show ?case using 3 by (auto simp: All_less_Suc2)
qed simp_all

section \<open>Properties\<close>

text \<open>C19: no false negatives. On a well formed filter with a buffer, after any sequence of added tags every
  non empty tag added is found (\<open>bcm_bloom_is_member\<close> returns 0 for it, \<open>BCME_OK\<close> as a \<open>bool\<close>), and a copy of the
  filter data checked through the buffer argument gives the same answer.\<close>

theorem bloom_no_false_negatives:
  assumes "bloom_ok bp" and "filter_bytes bp = Some f" and "t \<in> set ts" and "t \<noteq> []"
  shows "\<exists>bp' data. bloom_adds ts (Some bp) = Some bp' \<and> bloom_ok bp' \<and> \<not> bcm_bloom_is_member bp' t [] \<and>
    bcm_bloom_get_filter_data (Some bp') (filter_size bp) = (BCME_OK, Some (filter_size bp), data) \<and>
    (\<forall>u. bcm_bloom_is_member (bp'\<lparr>filter_size := 0, filter_bytes := None\<rparr>) u data = bcm_bloom_is_member bp' u [])"
proof -
  obtain f' where f': "bloom_adds ts (Some bp) = Some (bp\<lparr>filter_bytes := Some f'\<rparr>)"
    "bloom_ok (bp\<lparr>filter_bytes := Some f'\<rparr>)"
    "member_loop (take (max_hash bp) (hash_fns bp)) 0 t f' (filter_size bp) = BCME_OK"
    using adds_members [OF assms(1,2), of "{}" ts] assms(3,4) by auto
  have n: "length f' = filter_size bp" "f' \<noteq> []" "0 < filter_size bp" using f'(2) by (auto simp: bloom_ok_def)
  then show ?thesis
    using f' assms(4) by (intro exI [of _ "bp\<lparr>filter_bytes := Some f'\<rparr>"] exI [of _ f'])
      (auto simp: bcm_bloom_is_member_def bcm_bloom_get_filter_data_def)
qed

theorem bloom_no_false_negatives_witness:
  "\<exists>bp'. bloom_adds [[1], [2]] (Some \<lparr>max_hash = 1, hash_fns = [Some (\<lambda>i t. of_nat (unat (hd t)))],
      filter_size = 1, filter_bytes = Some [0]\<rparr>) = Some bp' \<and> \<not> bcm_bloom_is_member bp' [1] [] \<and>
    bcm_bloom_is_member bp' [3] []"
proof -
  let ?bp = "\<lparr>max_hash = 1, hash_fns = [Some (\<lambda>i t. of_nat (unat (hd t)))], filter_size = 1, filter_bytes = Some [0]\<rparr>"
  have "bloom_ok ?bp" by (simp add: bloom_ok_def)
  from bloom_no_false_negatives [OF this, of "[0]" "[1]" "[[1], [2]]"] show ?thesis
    by (auto simp: bloom_adds_def bcm_bloom_add_member_def setbit_def BLOOM_BIT_LEN_def bcm_bloom_is_member_def isclr_def)
qed

text \<open>No leak. With callbacks that keep account of the live blocks, a creation that fails leaves no
  block behind, and a creation that succeeds followed by the release of the filter leaves none either.\<close>

theorem bloom_create_no_leak:
  fixes live :: "'c \<Rightarrow> nat multiset"
  assumes alloc: "\<And>c n b c'. alloc c n = (b, c') \<Longrightarrow> live c' = (if b then add_mset n (live c) else live c)"
    and free: "\<And>c n. n \<in># live c \<Longrightarrow> live (free c n) = live c - {#n#}"
    and r: "bcm_bloom_create (Some alloc) (Some free) c maxh fsize = (e, bloom, c')"
  shows "if e = BCME_OK then \<exists>bp c''. bloom = Some bp \<and> bcm_bloom_destroy bloom (Some free) c' = (BCME_OK, None, c'') \<and>
      live c'' = live c
    else bloom = None \<and> live c' = live c"
proof (cases "maxh = 0")
  case False
  obtain b1 c1 where a1: "alloc c sizeof_bloom = (b1, c1)" by fastforce
  obtain b2 c2 where a2: "alloc c1 (hash_bytes maxh) = (b2, c2)" by fastforce
  obtain b3 c3 where a3: "alloc c2 fsize = (b3, c3)" by fastforce
  note l = alloc [OF a1] alloc [OF a2] alloc [OF a3]
  consider "\<not> b1" | "b1" "\<not> b2" | "b1" "b2" "fsize = 0" | "b1" "b2" "0 < fsize" "\<not> b3" | "b1" "b2" "0 < fsize" "b3"
    by blast
  then show ?thesis
    using r False a1 a2 a3 l
    by cases (auto simp: bcm_bloom_create_def bcm_bloom_destroy_def release_parts_def Let_def free)
qed (use r in \<open>auto simp: bcm_bloom_create_def\<close>)

theorem bloom_create_no_leak_witness:
  "\<exists>c'. bcm_bloom_create (Some (\<lambda>c n. if size c < 2 then (True, add_mset n c) else (False, c)))
     (Some (\<lambda>c n. c - {#n#})) {#} 2 16 = (BCME_NOMEM, None, c') \<and> c' = {#}"
proof -
  let ?a = "\<lambda>(c :: nat multiset) n. if size c < 2 then (True, add_mset n c) else (False, c)"
  let ?f = "\<lambda>(c :: nat multiset) n. c - {#n#}"
  obtain e b c' where r: "bcm_bloom_create (Some ?a) (Some ?f) {#} 2 16 = (e, b, c')" by (rule prod_cases3)
  then have "e = BCME_NOMEM" by (simp add: bcm_bloom_create_def)
  moreover have "if e = BCME_OK then \<exists>bp c''. b = Some bp \<and> bcm_bloom_destroy b (Some ?f) c' = (BCME_OK, None, c'') \<and>
      (\<lambda>c. c) c'' = (\<lambda>c. c) {#} else b = None \<and> (\<lambda>c. c) c' = (\<lambda>c. c) {#}"
    by (rule bloom_create_no_leak [OF _ _ r]) (auto split: if_splits)
  ultimately show ?thesis using r by simp
qed

end
