(* ===== verification/Recovery.thy ===== *)
theory Recovery
  imports Prelude
begin

text \<open>
  The rescue init \<open>src/recovery-init/recovery_init.c\<close>: it mounts the root file system of the board, merges
  \<open>/lib_old\<close> and \<open>/lib\<close> into \<open>/usr/lib\<close>, rebuilds the symbolic links, installs the dynamic linkers and unmounts.
  The Linux kernel is the parameter \<open>K\<close>: it answers a system call with a return value and data and changes its
  own state. Every call is recorded in \<open>trace\<close>, so that ordering properties are statements about the trace.
  The properties hold for every kernel: what the program asks of the kernel, in which order.
\<close>

section \<open>System calls\<close>

text \<open>One constructor per system call the program makes, with the arguments it passes. \<open>Mkdirat\<close> has no mode:
  where the code uses \<open>sys_call2\<close> for it the third register is left as it is.\<close>

datatype sysc =
    Openat int string nat nat
  | Close int
  | Read int nat
  | Write int "u8 list"
  | Getdents64 int nat
  | Mkdirat int string "nat option"
  | Unlinkat int string nat
  | Renameat int string int string
  | Symlinkat string int string
  | Mount string string string
  | Umount2 string nat
  | Newfstatat int string nat
  | Nanosleep nat
  | Sync

datatype sysdata = NoData | Buf "u8 list" | StMode nat

type_synonym 'w kernel = "sysc \<Rightarrow> 'w \<Rightarrow> int \<times> sysdata \<times> 'w"

record 'w rstate =
  world :: 'w
  out_fd :: int
  trace :: "(sysc \<times> int) list"

definition sys :: "'w kernel \<Rightarrow> sysc \<Rightarrow> 'w rstate \<Rightarrow> int \<times> sysdata \<times> 'w rstate" where
  "sys K c s =
     (case K c (world s) of (r, d, w) \<Rightarrow> (r, d, s\<lparr>world := w, trace := trace s @ [(c, r)]\<rparr>))"

text \<open>A call whose result is not used, and one whose data is not.\<close>

definition do_sys :: "'w kernel \<Rightarrow> sysc \<Rightarrow> 'w rstate \<Rightarrow> 'w rstate" where
  "do_sys K c s = (case sys K c s of (r, d, s) \<Rightarrow> s)"

definition ret_sys :: "'w kernel \<Rightarrow> sysc \<Rightarrow> 'w rstate \<Rightarrow> int \<times> 'w rstate" where
  "ret_sys K c s = (case sys K c s of (r, d, s) \<Rightarrow> (r, s))"

definition AT_FDCWD :: int where "AT_FDCWD = - 100"
definition AT_SYMLINK_NOFOLLOW :: nat where "AT_SYMLINK_NOFOLLOW = 0x100"
definition AT_REMOVEDIR :: nat where "AT_REMOVEDIR = 0x200"
definition O_RDONLY :: nat where "O_RDONLY = 0"
definition O_RDWR :: nat where "O_RDWR = 2"
definition O_WRONLY_CREAT_TRUNC :: nat where "O_WRONLY_CREAT_TRUNC = 577"
definition O_DIRECTORY :: nat where "O_DIRECTORY = 65536"
definition MODE_0755 :: nat where "MODE_0755 = 493"

definition S_ISDIR :: "nat \<Rightarrow> bool" where
  "S_ISDIR m \<longleftrightarrow> m AND 61440 = 16384"

section \<open>Helpers\<close>

text \<open>A C string is the list of its characters before the terminator.\<close>

fun str_eq :: "string \<Rightarrow> string \<Rightarrow> bool" where
  "str_eq (a # as) (b # bs) = (if a = b then str_eq as bs else False)"
| "str_eq [] [] = True"
| "str_eq [] (b # bs) = False"
| "str_eq (a # as) [] = False"

definition ascii_bytes :: "string \<Rightarrow> u8 list" where
  "ascii_bytes cs = map (\<lambda>c. of_nat (of_char c)) cs"

definition print :: "'w kernel \<Rightarrow> string \<Rightarrow> 'w rstate \<Rightarrow> 'w rstate" where
  "print K cs s = do_sys K (Write (out_fd s) (ascii_bytes cs)) s"

definition sleep_sec :: "'w kernel \<Rightarrow> nat \<Rightarrow> 'w rstate \<Rightarrow> 'w rstate" where
  "sleep_sec K n s = do_sys K (Nanosleep n) s"

text \<open>\<open>while ((n = read(in, buf, 4096)) > 0) write(out, buf, n)\<close>; a kernel that never reports the end of the
  file keeps the loop running, which is \<open>None\<close>.\<close>

definition buf_bytes :: "sysdata \<Rightarrow> u8 list" where
  "buf_bytes d = (case d of Buf bs \<Rightarrow> bs | _ \<Rightarrow> [])"

partial_function (option) copy_loop :: "'w kernel \<Rightarrow> int \<Rightarrow> int \<Rightarrow> 'w rstate \<Rightarrow> 'w rstate option" where
  "copy_loop K inp outp s =
     (case sys K (Read inp 4096) s of
        (n, d, s) \<Rightarrow>
          if n > 0 then copy_loop K inp outp (do_sys K (Write outp (take (nat n) (buf_bytes d))) s)
          else Some s)"

declare copy_loop.simps [code]

definition copy_file :: "'w kernel \<Rightarrow> string \<Rightarrow> string \<Rightarrow> nat \<Rightarrow> 'w rstate \<Rightarrow> 'w rstate option" where
  "copy_file K src dst mode s =
     (case ret_sys K (Openat AT_FDCWD src O_RDONLY 0) s of
        (inp, s) \<Rightarrow>
          if inp < 0 then
            (let s = print K ''  [ERROR] Cannot open source: '' s;
                 s = print K src s
             in Some (print K ''\<newline>'' s))
          else
            (let s = do_sys K (Unlinkat AT_FDCWD dst 0) s
             in case ret_sys K (Openat AT_FDCWD dst O_WRONLY_CREAT_TRUNC mode) s of
                  (outp, s) \<Rightarrow>
                    if outp < 0 then
                      (let s = print K ''  [ERROR] Cannot create dest: '' s;
                           s = print K dst s;
                           s = print K ''\<newline>'' s
                       in Some (do_sys K (Close inp) s))
                    else
                      (case copy_loop K inp outp s of
                         None \<Rightarrow> None
                       | Some s \<Rightarrow>
                           (let s = do_sys K (Close inp) s;
                                s = do_sys K (Close outp) s;
                                s = print K ''  Installed: '' s;
                                s = print K dst s
                            in Some (print K ''\<newline>'' s)))))"

section \<open>Merging directories\<close>

text \<open>The records of \<open>getdents64\<close>: inode, offset, a 16 bit record length at 16, the type at 18 and the name from
  19 on. A record of length 0 would keep the scan in place for ever (\<open>None\<close>).\<close>

definition d_reclen :: "u8 list \<Rightarrow> nat \<Rightarrow> nat" where
  "d_reclen buf bpos = unat (buf ! (bpos + 16)) + 256 * unat (buf ! (bpos + 17))"

definition d_name :: "u8 list \<Rightarrow> nat \<Rightarrow> string" where
  "d_name buf bpos = map (\<lambda>b. char_of (unat b)) (takeWhile (\<lambda>b. b \<noteq> 0) (drop (bpos + 19) buf))"

function dirents :: "u8 list \<Rightarrow> nat \<Rightarrow> nat \<Rightarrow> string list option" where
  "dirents buf nread bpos =
     (if bpos < nread then
        (if d_reclen buf bpos = 0 then None
         else map_option (\<lambda>ds. d_name buf bpos # ds) (dirents buf nread (bpos + d_reclen buf bpos)))
      else Some [])"
  by pat_completeness auto
termination by (relation "measure (\<lambda>(buf, nread, bpos). nread - bpos)") auto

declare dirents.simps [simp del]

text \<open>An entry that cannot be renamed is merged as a subdirectory, by the recursive call \<open>merge\<close>.\<close>

definition merge_subdir ::
    "'w kernel \<Rightarrow> (int \<Rightarrow> int \<Rightarrow> 'w rstate \<Rightarrow> 'w rstate option) \<Rightarrow> int \<Rightarrow> int \<Rightarrow> string \<Rightarrow> 'w rstate
      \<Rightarrow> 'w rstate option" where
  "merge_subdir K merge src_fd dst_fd name s =
     (let s = print K '' -> [MERGING SUBDIR]\<newline>'' s;
          (sub_src, s) = ret_sys K (Openat src_fd name (O_RDONLY + O_DIRECTORY) 0) s;
          s = do_sys K (Mkdirat dst_fd name (Some MODE_0755)) s;
          (sub_dst, s) = ret_sys K (Openat dst_fd name (O_RDONLY + O_DIRECTORY) 0) s
      in case (if sub_src \<ge> 0 \<and> sub_dst \<ge> 0 then merge sub_src sub_dst s else Some s) of
           None \<Rightarrow> None
         | Some s \<Rightarrow>
             (let s = (if sub_src \<ge> 0 then do_sys K (Close sub_src) s else s);
                  s = (if sub_dst \<ge> 0 then do_sys K (Close sub_dst) s else s)
              in Some (do_sys K (Unlinkat src_fd name AT_REMOVEDIR) s)))"

text \<open>\<open>merge_dir\<close> with the loop over the records of one block as \<open>merge_entries\<close>. The fuel bounds the number of
  blocks read and the depth; running out of it is \<open>None\<close>, which is also how a kernel that never stops
  delivering records shows.\<close>

function merge_dir :: "'w kernel \<Rightarrow> nat \<Rightarrow> int \<Rightarrow> int \<Rightarrow> string \<Rightarrow> 'w rstate \<Rightarrow> 'w rstate option"
  and merge_entries :: "'w kernel \<Rightarrow> nat \<Rightarrow> int \<Rightarrow> int \<Rightarrow> string \<Rightarrow> string list \<Rightarrow> 'w rstate \<Rightarrow> 'w rstate option" where
  "merge_dir K 0 src_fd dst_fd indent s = None"
| "merge_dir K (Suc fuel) src_fd dst_fd indent s =
     (case sys K (Getdents64 src_fd 2048) s of
        (nread, d, s) \<Rightarrow>
          if nread > 0 then
            (case dirents (buf_bytes d) (nat nread) 0 of
               None \<Rightarrow> None
             | Some ds \<Rightarrow>
                 (case merge_entries K fuel src_fd dst_fd indent ds s of
                    None \<Rightarrow> None
                  | Some s \<Rightarrow> merge_dir K fuel src_fd dst_fd indent s))
          else Some s)"
| "merge_entries K fuel src_fd dst_fd indent [] s = Some s"
| "merge_entries K fuel src_fd dst_fd indent (name # ds) s =
     (if \<not> str_eq name ''.'' \<and> \<not> str_eq name ''..'' then
        (let s = print K indent s;
             s = print K ''  Processing: '' s;
             s = print K name s
         in case ret_sys K (Renameat src_fd name dst_fd name) s of
              (r, s) \<Rightarrow>
                (case (if r = 0 then Some (print K '' -> [MOVED]\<newline>'' s)
                       else merge_subdir K (\<lambda>a b s. merge_dir K fuel a b ''    '' s) src_fd dst_fd name s) of
                   None \<Rightarrow> None
                 | Some s \<Rightarrow> merge_entries K fuel src_fd dst_fd indent ds s))
      else merge_entries K fuel src_fd dst_fd indent ds s)"
  by pat_completeness auto
termination
  by (relation "measures [\<lambda>x. case x of Inl (K, fuel, a, b, i, s) \<Rightarrow> fuel | Inr (K, fuel, a, b, i, ds, s) \<Rightarrow> fuel,
      \<lambda>x. case x of Inl _ \<Rightarrow> 0 | Inr (K, fuel, a, b, i, ds, s) \<Rightarrow> Suc (length ds)]") auto

declare merge_dir.simps [simp del] merge_entries.simps [simp del]

section \<open>The program\<close>

fun mount_loop :: "'w kernel \<Rightarrow> nat \<Rightarrow> int \<Rightarrow> 'w rstate \<Rightarrow> int \<times> 'w rstate" where
  "mount_loop K 0 ret s = (ret, s)"
| "mount_loop K (Suc retries) ret s =
     (case ret_sys K (Mount ''/dev/mmcblk0p6'' ''/mnt'' ''ext4'') s of
        (ret, s) \<Rightarrow>
          if ret = 0 then (ret, s)
          else mount_loop K retries ret
            (sleep_sec K 1 (print K ''    Waiting for /dev/mmcblk0p6...\<newline>'' s)))"

text \<open>The program ends in a loop of sleeps: \<open>Halted\<close> after a failed mount, \<open>Finished\<close> after the repair. The result
  is the state in which it enters that loop.\<close>

datatype outcome = Halted | Finished

definition mkdir2 :: "'w kernel \<Rightarrow> string \<Rightarrow> 'w rstate \<Rightarrow> 'w rstate" where
  "mkdir2 K path s = do_sys K (Mkdirat AT_FDCWD path None) s"

definition open_dir :: "'w kernel \<Rightarrow> string \<Rightarrow> 'w rstate \<Rightarrow> int \<times> 'w rstate" where
  "open_dir K path s = ret_sys K (Openat AT_FDCWD path (O_RDONLY + O_DIRECTORY) 0) s"

text \<open>Steps 4 and 5: merge \<open>/mnt/lib_old\<close> if it is there, and \<open>/mnt/lib\<close> if it is a directory.\<close>

definition merge_lib_old :: "'w kernel \<Rightarrow> nat \<Rightarrow> int \<Rightarrow> 'w rstate \<Rightarrow> 'w rstate option" where
  "merge_lib_old K fuel dst_lib s =
     (case open_dir K ''/mnt/lib_old'' s of
        (old_lib, s) \<Rightarrow>
          if old_lib \<ge> 0 then
            (case merge_dir K fuel old_lib dst_lib [] (print K ''>>> Merging /mnt/lib_old into /mnt/usr/lib...\<newline>'' s) of
               None \<Rightarrow> None
             | Some s \<Rightarrow>
                 Some (do_sys K (Unlinkat AT_FDCWD ''/mnt/lib_old'' AT_REMOVEDIR) (do_sys K (Close old_lib) s)))
          else Some s)"

definition st_mode :: "sysdata \<Rightarrow> nat" where
  "st_mode d = (case d of StMode m \<Rightarrow> m | _ \<Rightarrow> 0)"

definition merge_lib :: "'w kernel \<Rightarrow> nat \<Rightarrow> int \<Rightarrow> 'w rstate \<Rightarrow> 'w rstate option" where
  "merge_lib K fuel dst_lib s =
     (case sys K (Newfstatat AT_FDCWD ''/mnt/lib'' AT_SYMLINK_NOFOLLOW) s of
        (ret, d, s) \<Rightarrow>
          if ret = 0 \<and> S_ISDIR (st_mode d) then
            (case open_dir K ''/mnt/lib'' (print K ''>>> Merging /mnt/lib into /mnt/usr/lib...\<newline>'' s) of
               (cur_lib, s) \<Rightarrow>
                 (case (if cur_lib \<ge> 0
                        then map_option (do_sys K (Close cur_lib)) (merge_dir K fuel cur_lib dst_lib [] s)
                        else Some s) of
                    None \<Rightarrow> None
                  | Some s \<Rightarrow> Some (do_sys K (Unlinkat AT_FDCWD ''/mnt/lib'' AT_REMOVEDIR) s)))
          else Some s)"

text \<open>Step 6.\<close>

definition rebuild_links :: "'w kernel \<Rightarrow> 'w rstate \<Rightarrow> 'w rstate" where
  "rebuild_links K s =
     (let s = print K ''>>> Rebuilding UsrMerge symlinks (/lib -> usr/lib, /lib64 -> usr/lib64)...\<newline>'' s;
          s = do_sys K (Unlinkat AT_FDCWD ''/mnt/lib'' 0) s;
          s = do_sys K (Unlinkat AT_FDCWD ''/mnt/lib'' AT_REMOVEDIR) s;
          s = do_sys K (Symlinkat ''usr/lib'' AT_FDCWD ''/mnt/lib'') s;
          s = do_sys K (Unlinkat AT_FDCWD ''/mnt/lib64'' 0) s;
          s = do_sys K (Unlinkat AT_FDCWD ''/mnt/lib64'' AT_REMOVEDIR) s
      in do_sys K (Symlinkat ''usr/lib64'' AT_FDCWD ''/mnt/lib64'') s)"

text \<open>Step 7.\<close>

definition install_linkers :: "'w kernel \<Rightarrow> 'w rstate \<Rightarrow> 'w rstate option" where
  "install_linkers K s =
     (let s = print K ''>>> Installing verified Debian dynamic linkers directly onto eMMC storage...\<newline>'' s
      in case copy_file K ''/ld-linux-aarch64.so.1'' ''/mnt/usr/lib/aarch64-linux-gnu/ld-linux-aarch64.so.1'' MODE_0755 s of
           None \<Rightarrow> None
         | Some s \<Rightarrow>
             (case copy_file K ''/ld-2.31.so'' ''/mnt/usr/lib/aarch64-linux-gnu/ld-2.31.so'' MODE_0755 s of
                None \<Rightarrow> None
              | Some s \<Rightarrow>
                  (case copy_file K ''/ld-linux-aarch64.so.1'' ''/mnt/usr/lib/ld-linux-aarch64.so.1'' MODE_0755 s of
                     None \<Rightarrow> None
                   | Some s \<Rightarrow>
                       Some (do_sys K (Symlinkat ''aarch64-linux-gnu/ld-linux-aarch64.so.1'' AT_FDCWD
                                ''/mnt/usr/lib/ld-linux-aarch64.so.1'')
                              (do_sys K (Symlinkat ''ld-linux-aarch64.so.1'' AT_FDCWD
                                 ''/mnt/usr/lib/aarch64-linux-gnu/ld-2.31.so'') s)))))"

text \<open>Steps 8 to 10 and the closing messages.\<close>

definition verify_linker :: "'w kernel \<Rightarrow> 'w rstate \<Rightarrow> 'w rstate" where
  "verify_linker K s =
     (let s = print K ''>>> Verifying /mnt/lib/ld-linux-aarch64.so.1 resolution...\<newline>'' s
      in case ret_sys K (Openat AT_FDCWD ''/mnt/lib/ld-linux-aarch64.so.1'' O_RDONLY 0) s of
           (tfd, s) \<Rightarrow>
             if tfd \<ge> 0 then
               do_sys K (Close tfd)
                 (print K ''>>> [SUCCESS]: Dynamic linker is VERIFIED ACCESSIBLE through /lib!\<newline>'' s)
             else print K ''>>> [WARNING]: Could not open dynamic linker through /lib!\<newline>'' s)"

definition closing_messages :: "string list" where
  "closing_messages =
    [''\<newline>'',
     ''========================================================\<newline>'',
     ''===      REPAIR COMPLETE! SYSTEM RESTORED!           ===\<newline>'',
     ''========================================================\<newline>'',
     ''>>> Rootfs /dev/mmcblk0p6 is fully repaired and unmounted.\<newline>'',
     ''>>> Dynamic linker and core libraries are verified in place.\<newline>\<newline>'',
     ''>>> WHAT TO DO NOW:\<newline>'',
     ''>>> 1. Unplug the DC power barrel jack.\<newline>'',
     ''>>> 2. Hold the recovery pin in the 3.5mm AV jack.\<newline>'',
     ''>>> 3. Reconnect DC power (hold pin for 3s) to enter Loader mode.\<newline>'',
     ''>>> 4. Lab will now flash the known-good 13:38 kernel!\<newline>'',
     ''========================================================\<newline>\<newline>'']"

definition sync_unmount :: "'w kernel \<Rightarrow> 'w rstate \<Rightarrow> 'w rstate" where
  "sync_unmount K s =
     (let s = print K ''>>> Syncing all changes to eMMC storage...\<newline>'' s;
          s = do_sys K Sync s;
          s = print K ''>>> Safely unmounting /mnt...\<newline>'' s;
          s = do_sys K (Umount2 ''/mnt'' 0) s;
          s = do_sys K Sync s
      in fold (print K) closing_messages s)"

definition banner :: "string list" where
  "banner =
    [''\<newline>\<newline>'',
     ''========================================================\<newline>'',
     ''===   HUB-11 ULTIMATE RESCUE & RESTORATION v3.0      ===\<newline>'',
     ''========================================================\<newline>\<newline>'']"

definition repair :: "'w kernel \<Rightarrow> nat \<Rightarrow> 'w rstate \<Rightarrow> 'w rstate option" where
  "repair K fuel s =
     (let s = print K ''>>> Rootfs mounted successfully!\<newline>\<newline>'' s;
          s = mkdir2 K ''/mnt/usr'' s;
          s = mkdir2 K ''/mnt/usr/lib'' s;
          s = mkdir2 K ''/mnt/usr/lib64'' s;
          s = mkdir2 K ''/mnt/usr/lib/aarch64-linux-gnu'' s;
          s = mkdir2 K ''/mnt/usr/lib/modules'' s;
          (dst_lib, s) = open_dir K ''/mnt/usr/lib'' s
      in case merge_lib_old K fuel dst_lib s of
           None \<Rightarrow> None
         | Some s \<Rightarrow>
             (case merge_lib K fuel dst_lib s of
                None \<Rightarrow> None
              | Some s \<Rightarrow>
                  (let s = (if dst_lib \<ge> 0 then do_sys K (Close dst_lib) s else s)
                   in case install_linkers K (rebuild_links K s) of
                        None \<Rightarrow> None
                      | Some s \<Rightarrow> Some (sync_unmount K (verify_linker K s)))))"

definition recovery_start :: "'w kernel \<Rightarrow> nat \<Rightarrow> 'w rstate \<Rightarrow> (outcome \<times> 'w rstate) option" where
  "recovery_start K fuel s =
     (let s = mkdir2 K ''/dev'' s;
          s = do_sys K (Mount ''devtmpfs'' ''/dev'' ''devtmpfs'') s;
          (cfd, s) = ret_sys K (Openat AT_FDCWD ''/dev/console'' O_RDWR 0) s;
          s = (if cfd \<ge> 0 then s\<lparr>out_fd := cfd\<rparr> else s);
          s = fold (print K) banner s;
          s = mkdir2 K ''/mnt'' s;
          s = print K ''>>> Waiting for eMMC and mounting /dev/mmcblk0p6 on /mnt...\<newline>'' s;
          (ret, s) = mount_loop K 15 (- 1) s
      in if ret \<noteq> 0 then
           (let s = print K ''FATAL: Failed to mount /dev/mmcblk0p6!\<newline>'' s
            in Some (Halted, print K ''>>> System halted.\<newline>'' s))
         else map_option (Pair Finished) (repair K fuel s))"

end
