(* ===== verification/Recovery_Correct.thy ===== *)
theory Recovery_Correct
  imports Recovery "HOL-Library.Sublist"
begin

text \<open>
  Properties of the rescue init for every kernel. \<open>disciplined\<close> says of a trace that every call that reads or
  changes the root file system is made while it is mounted; \<open>fd_delta\<close> counts the descriptors opened and not yet
  closed. Both are carried through the program by the assertion \<open>good\<close>, with one rule per kind of call.
\<close>

section \<open>Traces\<close>

text \<open>The calls that use the root file system: everything below \<open>/mnt/\<close> and everything relative to an open
  directory.\<close>

fun touches :: "sysc \<Rightarrow> bool" where
  "touches (Openat d p f m) \<longleftrightarrow> d \<noteq> AT_FDCWD \<or> prefix ''/mnt/'' p"
| "touches (Mkdirat d p m) \<longleftrightarrow> d \<noteq> AT_FDCWD \<or> prefix ''/mnt/'' p"
| "touches (Newfstatat d p f) \<longleftrightarrow> d \<noteq> AT_FDCWD \<or> prefix ''/mnt/'' p"
| "touches (Unlinkat d p f) \<longleftrightarrow> True"
| "touches (Renameat d p e q) \<longleftrightarrow> True"
| "touches (Symlinkat t d p) \<longleftrightarrow> True"
| "touches (Getdents64 d n) \<longleftrightarrow> True"
| "touches (Read d n) \<longleftrightarrow> True"
| "touches _ \<longleftrightarrow> False"

fun mounts :: "bool \<Rightarrow> sysc \<times> int \<Rightarrow> bool" where
  "mounts m (Mount dev dir fs, r) = (m \<or> (dev = ''/dev/mmcblk0p6'' \<and> r = 0))"
| "mounts m (Umount2 dir f, r) = False"
| "mounts m _ = m"

definition mounted :: "(sysc \<times> int) list \<Rightarrow> bool" where
  "mounted xs = fold (\<lambda>e m. mounts m e) xs False"

fun disciplined :: "bool \<Rightarrow> (sysc \<times> int) list \<Rightarrow> bool" where
  "disciplined m [] = True"
| "disciplined m (e # xs) = ((touches (fst e) \<longrightarrow> m) \<and> disciplined (mounts m e) xs)"

fun fd_event :: "int \<Rightarrow> sysc \<times> int \<Rightarrow> int" where
  "fd_event fd (Openat d p f m, r) = (if 0 \<le> r \<and> r = fd then 1 else 0)"
| "fd_event fd (Close f, r) = (if f = fd then - 1 else 0)"
| "fd_event fd _ = 0"

definition fd_delta :: "(sysc \<times> int) list \<Rightarrow> int \<Rightarrow> int" where
  "fd_delta xs fd = sum_list (map (fd_event fd) xs)"

lemma disciplined_append:
  "disciplined m (xs @ [e]) \<longleftrightarrow> disciplined m xs \<and> (touches (fst e) \<longrightarrow> fold (\<lambda>e m. mounts m e) xs m)"
  by (induction xs arbitrary: m) auto

lemma mounted_append [simp]: "mounted (xs @ [e]) = mounts (mounted xs) e"
  by (simp add: mounted_def)

lemma fd_delta_append [simp]: "fd_delta (xs @ [e]) fd = fd_delta xs fd + fd_event fd e"
  by (simp add: fd_delta_def)

section \<open>The assertion and its rules\<close>

definition good :: "bool \<Rightarrow> (int \<Rightarrow> int) \<Rightarrow> 'w rstate \<Rightarrow> bool" where
  "good m D s \<longleftrightarrow> disciplined False (trace s) \<and> mounted (trace s) = m \<and> (\<forall>fd. fd_delta (trace s) fd = D fd)"

definition bump :: "int \<Rightarrow> (int \<Rightarrow> int) \<Rightarrow> int \<Rightarrow> int" where
  "bump r D = (\<lambda>fd. D fd + (if 0 \<le> r \<and> r = fd then 1 else 0))"

definition unbump :: "int \<Rightarrow> (int \<Rightarrow> int) \<Rightarrow> int \<Rightarrow> int" where
  "unbump r D = (\<lambda>fd. D fd - (if r = fd then 1 else 0))"

lemma unbump_bump [simp]: "0 \<le> r \<Longrightarrow> unbump r (bump r D) = D"
  by (auto simp: bump_def unbump_def)

lemma bump_commute: "bump p (bump q D) = bump q (bump p D)"
  by (auto simp: bump_def)

lemma bump_neg [simp]: "r < 0 \<Longrightarrow> bump r D = D"
  by (auto simp: bump_def)

text \<open>Calls that neither mount nor open nor close.\<close>

fun neutral :: "sysc \<Rightarrow> bool" where
  "neutral (Openat d p f m) = False"
| "neutral (Close f) = False"
| "neutral (Mount a b c) = False"
| "neutral (Umount2 a b) = False"
| "neutral _ = True"

lemma trace_sys: "sys K c s = (r, d, s') \<Longrightarrow> trace s' = trace s @ [(c, r)] \<and> out_fd s' = out_fd s"
  by (auto simp: sys_def split: prod.splits)

lemma good_step:
  assumes "good m D s" and "trace s' = trace s @ [(c, r)]" and "touches c \<longrightarrow> m"
  shows "good (mounts m (c, r)) (\<lambda>fd. D fd + fd_event fd (c, r)) s'"
  using assms by (simp add: good_def disciplined_append mounted_def)

lemma neutral_event: "neutral c \<Longrightarrow> fd_event fd (c, r) = 0 \<and> mounts m (c, r) = m"
  by (cases c) auto

lemma good_sys:
  assumes "good m D s" and "sys K c s = (r, d, s')" and "neutral c" and "touches c \<longrightarrow> m"
  shows "good m D s'"
  using good_step [OF assms(1) conjunct1 [OF trace_sys [OF assms(2)]] assms(4)] neutral_event [OF assms(3)] by simp

lemma do_sys_eq: "do_sys K c s = snd (snd (sys K c s))"
  by (simp add: do_sys_def split: prod.splits)

lemma trace_do: "trace (do_sys K c s) = trace s @ [(c, fst (sys K c s))]"
  using trace_sys [of K c s] by (cases "sys K c s") (simp add: do_sys_def)

lemma ret_sys_eq: "ret_sys K c s = (r, s') \<longleftrightarrow> (\<exists>d. sys K c s = (r, d, s'))"
  by (auto simp: ret_sys_def split: prod.splits)

lemma good_do: "good m D s \<Longrightarrow> neutral c \<Longrightarrow> (touches c \<longrightarrow> m) \<Longrightarrow> good m D (do_sys K c s)"
  unfolding do_sys_eq by (rule good_sys [of _ _ _ K c "fst (sys K c s)" "fst (snd (sys K c s))"]) auto

lemma good_ret: "good m D s \<Longrightarrow> ret_sys K c s = (r, s') \<Longrightarrow> neutral c \<Longrightarrow> (touches c \<longrightarrow> m) \<Longrightarrow> good m D s'"
  unfolding ret_sys_eq using good_sys by blast

lemma good_print: "good m D s \<Longrightarrow> good m D (print K cs s)"
  unfolding print_def by (rule good_do) auto

lemma good_sleep: "good m D s \<Longrightarrow> good m D (sleep_sec K n s)"
  unfolding sleep_sec_def by (rule good_do) auto

lemma good_mkdir: "good m D s \<Longrightarrow> (prefix ''/mnt/'' p \<longrightarrow> m) \<Longrightarrow> good m D (mkdir2 K p s)"
  unfolding mkdir2_def by (rule good_do) auto

lemma good_open:
  assumes "good m D s" and "ret_sys K (Openat a p f o') s = (r, s')" and "a \<noteq> AT_FDCWD \<or> prefix ''/mnt/'' p \<longrightarrow> m"
  shows "good m (bump r D) s'"
proof -
  obtain d where "sys K (Openat a p f o') s = (r, d, s')" using assms(2) by (auto simp: ret_sys_eq)
  then have "trace s' = trace s @ [(Openat a p f o', r)]" by (simp add: trace_sys)
  from good_step [OF assms(1) this] assms(3) show ?thesis by (simp add: bump_def)
qed

lemma good_close1: "good m D s \<Longrightarrow> good m (unbump f D) (do_sys K (Close f) s)"
proof -
  assume g: "good m D s"
  from good_step [OF g trace_do] show ?thesis
    by (simp add: unbump_def if_distrib [of "\<lambda>x. D _ + x"] cong: if_cong) (auto simp: good_def)
qed

lemma good_close: "good m (bump f D) s \<Longrightarrow> 0 \<le> f \<Longrightarrow> good m D (do_sys K (Close f) s)"
  using good_close1 [of m "bump f D" s f K] by simp

lemmas good_intros = good_print good_sleep good_mkdir good_do

section \<open>The procedures\<close>

lemma good_prints: "good m D s \<Longrightarrow> good m D (fold (print K) cs s)"
  by (induction cs arbitrary: s) (auto intro: good_print)

lemma good_copy_loop: "copy_loop K i j s = Some s' \<Longrightarrow> good True D s \<longrightarrow> good True D s'"
proof (induction rule: copy_loop.raw_induct [rotated, consumes 1])
  case (1 cl K i j s s')
  obtain n d t where t: "sys K (Read i 4096) s = (n, d, t)" by (rule prod_cases3)
  have g: "good True D s \<longrightarrow> good True D t" using good_sys [OF _ t] by simp
  show ?case
  proof (cases "n > 0")
    case True
    then have "cl K i j (do_sys K (Write j (take (nat n) (buf_bytes d))) t) = Some s'" using 1(2) t by simp
    from 1(1) [OF this] show ?thesis using g good_do [of True D t "Write j (take (nat n) (buf_bytes d))" K] by simp
  next
    case False
    then show ?thesis using 1(2) t g by simp
  qed
qed

lemma good_copy_file:
  assumes g: "good True D s" and r: "copy_file K a b md s = Some s'"
  shows "good True D s'"
proof -
  obtain i s1 where s1: "ret_sys K (Openat AT_FDCWD a O_RDONLY 0) s = (i, s1)" by fastforce
  have g1: "good True (bump i D) s1" using good_open [OF g s1] by simp
  show ?thesis
  proof (cases "i < 0")
    case True
    then show ?thesis using r s1 g1 by (auto simp: copy_file_def Let_def intro!: good_print)
  next
    case i: False
    obtain j s2 where s2: "ret_sys K (Openat AT_FDCWD b O_WRONLY_CREAT_TRUNC md) (do_sys K (Unlinkat AT_FDCWD b 0) s1) = (j, s2)"
      by fastforce
    have g2: "good True (bump j (bump i D)) s2" using good_open [OF good_do [OF g1] s2] by simp
    show ?thesis
    proof (cases "j < 0")
      case True
      then show ?thesis
        using r s1 s2 g2 i by (auto simp: copy_file_def Let_def intro!: good_close good_print)
    next
      case j: False
      then obtain s3 where s3: "copy_loop K i j s2 = Some s3" using r s1 s2 i
        by (auto simp: copy_file_def Let_def split: option.splits)
      have "good True (bump i (bump j D)) s3" using good_copy_loop [OF s3] g2 by (simp add: bump_commute)
      then show ?thesis
        using r s1 s2 s3 i j by (auto simp: copy_file_def Let_def intro!: good_close good_print)
    qed
  qed
qed

lemma good_subdir:
  assumes merge: "\<And>D a b s s'. good True D s \<Longrightarrow> merge a b s = Some s' \<Longrightarrow> good True D s'"
    and g: "good True D s" and r: "merge_subdir K merge a b name s = Some s'"
  shows "good True D s'"
proof -
  let ?s = "print K '' -> [MERGING SUBDIR]\<newline>'' s"
  obtain i s1 where s1: "ret_sys K (Openat a name (O_RDONLY + O_DIRECTORY) 0) ?s = (i, s1)" by fastforce
  obtain j s2 where s2: "ret_sys K (Openat b name (O_RDONLY + O_DIRECTORY) 0)
      (do_sys K (Mkdirat b name (Some MODE_0755)) s1) = (j, s2)" by fastforce
  have "good True (bump i D) s1" using good_open [OF good_print [OF g] s1] by simp
  then have g2: "good True (bump j (bump i D)) s2" using good_open [OF good_do s2] by simp
  obtain s3 where s3: "(if i \<ge> 0 \<and> j \<ge> 0 then merge i j s2 else Some s2) = Some s3"
    and e: "s' = do_sys K (Unlinkat a name AT_REMOVEDIR)
      (if j \<ge> 0 then do_sys K (Close j) (if i \<ge> 0 then do_sys K (Close i) s3 else s3)
       else if i \<ge> 0 then do_sys K (Close i) s3 else s3)"
    using r s1 s2 by (auto simp: merge_subdir_def Let_def split: option.splits)
  have g3: "good True (bump i (bump j D)) s3"
    using merge [OF g2] g2 s3 by (auto simp: bump_commute split: if_splits)
  have "good True (bump j D) (if i \<ge> 0 then do_sys K (Close i) s3 else s3)"
    using g3 good_close [OF g3] by (cases "0 \<le> i") simp_all
  then have "good True D (if j \<ge> 0 then do_sys K (Close j) (if i \<ge> 0 then do_sys K (Close i) s3 else s3)
       else if i \<ge> 0 then do_sys K (Close i) s3 else s3)"
    using good_close by (cases "0 \<le> j") auto
  then show ?thesis unfolding e by (rule good_do) simp_all
qed

lemma good_entries:
  assumes merge: "\<And>D a b ind s s'. good True D s \<Longrightarrow> merge_dir K k a b ind s = Some s' \<Longrightarrow> good True D s'"
  shows "good True D s \<Longrightarrow> merge_entries K k a b ind ds s = Some s' \<Longrightarrow> good True D s'"
proof (induction ds arbitrary: s)
  case Nil
  then show ?case by (simp add: merge_entries.simps)
next
  case (Cons name ds)
  show ?case
  proof (cases "\<not> str_eq name ''.'' \<and> \<not> str_eq name ''..''")
    case False
    then have "merge_entries K k a b ind ds s = Some s'" 
      using Cons.prems(2) unfolding merge_entries.simps if_not_P [OF False] by blast
    then show ?thesis using Cons.IH Cons.prems(1) by blast
  next
    case True
    let ?s = "print K name (print K ''  Processing: '' (print K ind s))"
    obtain r s1 where s1: "ret_sys K (Renameat a name b name) ?s = (r, s1)" by fastforce
    have g1: "good True D s1" using Cons.prems(1) by (intro good_ret [OF _ s1] good_print) simp_all
    obtain s2 where s2: "(if r = 0 then Some (print K '' -> [MOVED]\<newline>'' s1)
        else merge_subdir K (\<lambda>a b s. merge_dir K k a b ''    '' s) a b name s1) = Some s2"
      and m: "merge_entries K k a b ind ds s2 = Some s'"
      using Cons.prems(2) True s1 unfolding merge_entries.simps Let_def by (auto split: option.splits)
    have "good True D s2"
    proof (cases "r = 0")
      case True
      then show ?thesis using s2 good_print [OF g1] by auto
    next
      case False
      then show ?thesis using s2 good_subdir [OF merge g1] by simp
    qed
    then show ?thesis using Cons.IH m by simp
  qed
qed

lemma good_merge: "good True D s \<Longrightarrow> merge_dir K k a b ind s = Some s' \<Longrightarrow> good True D s'"
proof (induction k arbitrary: D a b ind s s')
  case 0
  then show ?case by (simp add: merge_dir.simps)
next
  case (Suc k)
  obtain n d t where t: "sys K (Getdents64 a 2048) s = (n, d, t)" by (rule prod_cases3)
  have g: "good True D t" using good_sys [OF Suc.prems(1) t] by simp
  have entries: "merge_entries K k a b ind ds t = Some u \<Longrightarrow> good True D u" for ds u
    by (rule good_entries [OF _ g]) (rule Suc.IH)
  show ?case
    using Suc.prems(2) t g by (auto simp: merge_dir.simps split: if_splits option.splits dest: entries intro: Suc.IH)
qed

section \<open>The program\<close>

lemma good_merge_lib_old:
  assumes g: "good True D s" and r: "merge_lib_old K k dst s = Some s'"
  shows "good True D s'"
proof -
  obtain i s1 where s1: "open_dir K ''/mnt/lib_old'' s = (i, s1)" by fastforce
  have g1: "good True (bump i D) s1" using good_open [OF g s1 [unfolded open_dir_def]] by simp
  then show ?thesis
    using r s1 good_merge [OF good_print [OF g1]]
    by (auto simp: merge_lib_old_def split: if_splits option.splits intro!: good_do good_close)
qed

lemma good_merge_lib:
  assumes g: "good True D s" and r: "merge_lib K k dst s = Some s'"
  shows "good True D s'"
proof -
  obtain q d s1 where s1: "sys K (Newfstatat AT_FDCWD ''/mnt/lib'' AT_SYMLINK_NOFOLLOW) s = (q, d, s1)" by (rule prod_cases3)
  have g1: "good True D s1" using good_sys [OF g s1] by simp
  let ?s = "print K ''>>> Merging /mnt/lib into /mnt/usr/lib...\<newline>'' s1"
  obtain i s2 where s2: "open_dir K ''/mnt/lib'' ?s = (i, s2)" by fastforce
  have g2: "good True (bump i D) s2" using good_open [OF good_print [OF g1] s2 [unfolded open_dir_def]] by simp
  show ?thesis
    using r s1 s2 g1 g2 good_merge [OF g2]
    by (auto simp: merge_lib_def split: if_splits option.splits intro!: good_do good_close)
qed

lemma good_rebuild: "good True D s \<Longrightarrow> good True D (rebuild_links K s)"
  unfolding rebuild_links_def Let_def by (intro good_do good_print) simp_all

lemma bind_some: "(case x of None \<Rightarrow> None | Some s \<Rightarrow> f s) = Some y \<longleftrightarrow> (\<exists>s. x = Some s \<and> f s = Some y)"
  by (cases x) auto

lemma good_install:
  assumes g: "good True D s" and r: "install_linkers K s = Some s'"
  shows "good True D s'"
proof -
  let ?s = "print K ''>>> Installing verified Debian dynamic linkers directly onto eMMC storage...\<newline>'' s"
  obtain s1 s2 s3 where
    c: "copy_file K ''/ld-linux-aarch64.so.1'' ''/mnt/usr/lib/aarch64-linux-gnu/ld-linux-aarch64.so.1'' MODE_0755 ?s = Some s1"
      "copy_file K ''/ld-2.31.so'' ''/mnt/usr/lib/aarch64-linux-gnu/ld-2.31.so'' MODE_0755 s1 = Some s2"
      "copy_file K ''/ld-linux-aarch64.so.1'' ''/mnt/usr/lib/ld-linux-aarch64.so.1'' MODE_0755 s2 = Some s3"
    and e: "s' = do_sys K (Symlinkat ''aarch64-linux-gnu/ld-linux-aarch64.so.1'' AT_FDCWD ''/mnt/usr/lib/ld-linux-aarch64.so.1'')
      (do_sys K (Symlinkat ''ld-linux-aarch64.so.1'' AT_FDCWD ''/mnt/usr/lib/aarch64-linux-gnu/ld-2.31.so'') s3)"
    using r unfolding install_linkers_def Let_def bind_some by blast
  have "good True D s3"
    using good_copy_file [OF good_copy_file [OF good_copy_file [OF good_print [OF g] c(1)] c(2)] c(3)] .
  then show ?thesis unfolding e by (intro good_do) simp_all
qed

lemma good_verify: "good True D s \<Longrightarrow> good True D (verify_linker K s)"
proof -
  assume g: "good True D s"
  let ?s = "print K ''>>> Verifying /mnt/lib/ld-linux-aarch64.so.1 resolution...\<newline>'' s"
  obtain i s1 where s1: "ret_sys K (Openat AT_FDCWD ''/mnt/lib/ld-linux-aarch64.so.1'' O_RDONLY 0) ?s = (i, s1)" by fastforce
  have "good True (bump i D) s1" using good_open [OF good_print [OF g] s1] by simp
  then show ?thesis using s1 by (auto simp: verify_linker_def intro!: good_close good_print)
qed

lemma good_unmount: "good True D s \<Longrightarrow> good False D (sync_unmount K s)"
proof -
  assume g: "good True D s"
  let ?s = "print K ''>>> Safely unmounting /mnt...\<newline>'' (do_sys K Sync (print K ''>>> Syncing all changes to eMMC storage...\<newline>'' s))"
  have "good True D ?s" using g by (intro good_do good_print) simp_all
  from good_step [OF this trace_do [of K "Umount2 ''/mnt'' 0"]] have "good False D (do_sys K (Umount2 ''/mnt'' 0) ?s)" by simp
  then show ?thesis unfolding sync_unmount_def Let_def by (rule good_prints [OF good_do]) simp_all
qed

lemma good_repair:
  assumes g: "good True D s" and r: "repair K k s = Some s'"
  shows "good False D s'"
proof -
  let ?s = "mkdir2 K ''/mnt/usr/lib/modules'' (mkdir2 K ''/mnt/usr/lib/aarch64-linux-gnu''
    (mkdir2 K ''/mnt/usr/lib64'' (mkdir2 K ''/mnt/usr/lib'' (mkdir2 K ''/mnt/usr''
      (print K ''>>> Rootfs mounted successfully!\<newline>\<newline>'' s)))))"
  obtain i s1 where s1: "open_dir K ''/mnt/usr/lib'' ?s = (i, s1)" by fastforce
  have "good True D ?s" using g by (intro good_mkdir good_print) simp_all
  from good_open [OF this s1 [unfolded open_dir_def]] have g1: "good True (bump i D) s1" by simp
  obtain s2 s3 s4 where s: "merge_lib_old K k i s1 = Some s2" "merge_lib K k i s2 = Some s3"
    "install_linkers K (rebuild_links K (if i \<ge> 0 then do_sys K (Close i) s3 else s3)) = Some s4"
    "s' = sync_unmount K (verify_linker K s4)"
    using r s1 unfolding repair_def Let_def bind_some by (auto simp: bind_some)
  have g3: "good True (bump i D) s3" using good_merge_lib [OF good_merge_lib_old [OF g1 s(1)] s(2)] .
  then have "good True D (if i \<ge> 0 then do_sys K (Close i) s3 else s3)"
    using good_close [OF g3] by (cases "0 \<le> i") simp_all
  from good_install [OF good_rebuild [OF this] s(3)] have "good True D s4" .
  then show ?thesis unfolding s(4) by (intro good_unmount good_verify)
qed

lemma good_mount_loop:
  "good False D s \<Longrightarrow> mount_loop K n r s = (ret, s') \<Longrightarrow> r \<noteq> 0 \<Longrightarrow> good (ret = 0) D s'"
proof (induction n arbitrary: r s)
  case (Suc n)
  let ?m = "Mount ''/dev/mmcblk0p6'' ''/mnt'' ''ext4''"
  obtain q s1 where s1: "ret_sys K ?m s = (q, s1)" by fastforce
  then have "trace s1 = trace s @ [(?m, q)]" by (auto simp: ret_sys_eq dest: trace_sys)
  from good_step [OF Suc.prems(1) this] have g: "good (q = 0) D s1" by simp
  show ?case
  proof (cases "q = 0")
    case True
    then show ?thesis using Suc.prems s1 g by simp
  next
    case False
    then have "good False D (sleep_sec K 1 (print K ''    Waiting for /dev/mmcblk0p6...\<newline>'' s1))"
      using g by (intro good_sleep good_print) simp
    then show ?thesis using Suc.prems(2) s1 False by (auto intro: Suc.IH)
  qed
qed simp

text \<open>The descriptor of the console, the only one that stays open.\<close>

definition console_fd :: "'w kernel \<Rightarrow> 'w rstate \<Rightarrow> int" where
  "console_fd K s = fst (ret_sys K (Openat AT_FDCWD ''/dev/console'' O_RDWR 0)
     (do_sys K (Mount ''devtmpfs'' ''/dev'' ''devtmpfs'') (mkdir2 K ''/dev'' s)))"

text \<open>Traces without a successful mount of the root file system.\<close>

definition unmounted :: "'w rstate \<Rightarrow> bool" where
  "unmounted s \<longleftrightarrow> (\<forall>e\<in>set (trace s). \<not> mounts False e)"

lemma unmounted_do: "unmounted s \<Longrightarrow> (\<And>r. \<not> mounts False (c, r)) \<Longrightarrow> unmounted (do_sys K c s)"
  by (auto simp: unmounted_def trace_do)

lemma unmounted_ret: "unmounted s \<Longrightarrow> ret_sys K c s = (r, s') \<Longrightarrow> \<not> mounts False (c, r) \<Longrightarrow> unmounted s'"
  by (auto simp: unmounted_def ret_sys_eq dest!: trace_sys)

lemma unmounted_print: "unmounted s \<Longrightarrow> unmounted (print K cs s)"
  unfolding print_def by (rule unmounted_do) simp_all

lemma unmounted_prints: "unmounted s \<Longrightarrow> unmounted (fold (print K) cs s)"
  by (induction cs arbitrary: s) (auto intro: unmounted_print)

lemma unmounted_mkdir: "unmounted s \<Longrightarrow> unmounted (mkdir2 K p s)"
  unfolding mkdir2_def by (rule unmounted_do) simp_all

lemma unmounted_mount_loop: "unmounted s \<Longrightarrow> mount_loop K n r s = (ret, s') \<Longrightarrow> ret \<noteq> 0 \<Longrightarrow> unmounted s'"
proof (induction n arbitrary: r s)
  case (Suc n)
  obtain q s1 where s1: "ret_sys K (Mount ''/dev/mmcblk0p6'' ''/mnt'' ''ext4'') s = (q, s1)" by fastforce
  have "q \<noteq> 0" using Suc.prems s1 by auto
  then have "unmounted (sleep_sec K 1 (print K ''    Waiting for /dev/mmcblk0p6...\<newline>'' s1))"
    unfolding sleep_sec_def using unmounted_ret [OF Suc.prems(1) s1] by (intro unmounted_do unmounted_print) simp_all
  then show ?case using Suc.prems s1 \<open>q \<noteq> 0\<close> by (auto intro: Suc.IH)
qed simp

lemma disciplined_unmounted:
  "disciplined False xs \<Longrightarrow> (\<forall>e\<in>set xs. \<not> mounts False e) \<Longrightarrow> (\<forall>e\<in>set xs. \<not> touches (fst e))"
  by (induction xs) auto

lemma good_start:
  assumes t: "trace s = []" and r: "recovery_start K k s = Some (oc, s')"
  shows "good False (bump (console_fd K s) (\<lambda>_. 0)) s' \<and> (oc = Halted \<longrightarrow> unmounted s')"
proof -
  let ?s1 = "mkdir2 K ''/dev'' s"
  let ?s2 = "do_sys K (Mount ''devtmpfs'' ''/dev'' ''devtmpfs'') ?s1"
  obtain c s3 where s3: "ret_sys K (Openat AT_FDCWD ''/dev/console'' O_RDWR 0) ?s2 = (c, s3)" by fastforce
  let ?s4 = "if c \<ge> 0 then s3\<lparr>out_fd := c\<rparr> else s3"
  let ?s5 = "print K ''>>> Waiting for eMMC and mounting /dev/mmcblk0p6 on /mnt...\<newline>''
    (mkdir2 K ''/mnt'' (fold (print K) banner ?s4))"
  obtain q s6 where s6: "mount_loop K 15 (- 1) ?s5 = (q, s6)" by fastforce
  have "good False (\<lambda>_. 0) s" by (simp add: good_def t mounted_def fd_delta_def)
  then have "good False (\<lambda>_. 0) ?s1" by (rule good_mkdir) simp
  from good_step [OF this trace_do [of K "Mount ''devtmpfs'' ''/dev'' ''devtmpfs''"]] have "good False (\<lambda>_. 0) ?s2" by simp
  from good_open [OF this s3] have "good False (bump c (\<lambda>_. 0)) s3" by simp
  then have "good False (bump c (\<lambda>_. 0)) ?s4" by (simp add: good_def)
  then have "good False (bump c (\<lambda>_. 0)) ?s5" by (intro good_print good_mkdir good_prints) simp_all
  from good_mount_loop [OF this s6] have g6: "good (q = 0) (bump c (\<lambda>_. 0)) s6" by simp
  have start: "recovery_start K k s = (if q \<noteq> 0
      then Some (Halted, print K ''>>> System halted.\<newline>'' (print K ''FATAL: Failed to mount /dev/mmcblk0p6!\<newline>'' s6))
      else map_option (Pair Finished) (repair K k s6))"
    unfolding recovery_start_def Let_def using s3 s6 by simp
  have "unmounted s" by (simp add: unmounted_def t)
  then have "unmounted ?s2" by (intro unmounted_do unmounted_mkdir) simp_all
  from unmounted_ret [OF this s3] have "unmounted ?s4" by (simp add: unmounted_def)
  then have "unmounted ?s5" by (intro unmounted_print unmounted_mkdir unmounted_prints)
  from unmounted_mount_loop [OF this s6] have u6: "q \<noteq> 0 \<Longrightarrow> unmounted s6" .
  have "good False (bump c (\<lambda>_. 0)) s' \<and> (oc = Halted \<longrightarrow> unmounted s')"
  proof (cases "q = 0")
    case True
    then have rep: "repair K k s6 = Some s'" using r unfolding start by auto
    moreover have "oc = Finished" using r True unfolding start by auto
    ultimately show ?thesis using good_repair [OF _ rep] g6 True by simp
  next
    case False
    then have "s' = print K ''>>> System halted.\<newline>'' (print K ''FATAL: Failed to mount /dev/mmcblk0p6!\<newline>'' s6)"
      using r unfolding start by simp
    then show ?thesis using g6 u6 False by (auto intro: good_print unmounted_print)
  qed
  then show ?thesis using s3 by (simp add: console_fd_def)
qed

section \<open>The program ends\<close>

text \<open>
  What makes the loops end, as four observations on the kernel's state: the states considered (\<open>sane\<close>), the open
  descriptors (\<open>fds\<close>), the number of blocks a descriptor can still deliver (\<open>left\<close>) and the length of the chain of
  directories through which a descriptor was opened (\<open>level\<close>). On a disk of finite size both numbers are bounded, by
  \<open>N\<close> and \<open>D\<close>: a new descriptor has at most \<open>N\<close> blocks, one opened relative to another is a level deeper, and a
  successful read uses up a block. A new descriptor is not one that is open, and directory records have a length.
\<close>

record 'w fsview =
  sane :: "'w \<Rightarrow> bool"
  fds :: "'w \<Rightarrow> int set"
  left :: "'w \<Rightarrow> int \<Rightarrow> nat"
  level :: "'w \<Rightarrow> int \<Rightarrow> nat"

definition keeps :: "'w fsview \<Rightarrow> 'w \<Rightarrow> 'w \<Rightarrow> bool" where
  "keeps V w w' \<longleftrightarrow> sane V w' \<and> fds V w \<subseteq> fds V w' \<and>
     (\<forall>fd\<in>fds V w. left V w' fd \<le> left V w fd \<and> level V w' fd = level V w fd)"

fun call_ok :: "'w fsview \<Rightarrow> nat \<Rightarrow> nat \<Rightarrow> sysc \<Rightarrow> int \<Rightarrow> sysdata \<Rightarrow> 'w \<Rightarrow> 'w \<Rightarrow> bool" where
  "call_ok V N D (Openat a p f m) r d w w' \<longleftrightarrow> keeps V w w' \<and>
     (0 \<le> r \<longrightarrow> r \<notin> fds V w \<and> r \<in> fds V w' \<and> left V w' r \<le> N \<and> level V w' r \<le> D \<and>
        (a \<in> fds V w \<longrightarrow> level V w a < level V w' r))"
| "call_ok V N D (Close f) r d w w' \<longleftrightarrow> sane V w' \<and> fds V w' = fds V w - {f} \<and>
     (\<forall>fd\<in>fds V w - {f}. left V w' fd \<le> left V w fd \<and> level V w' fd = level V w fd)"
| "call_ok V N D (Read fd n) r d w w' \<longleftrightarrow> keeps V w w' \<and> (0 < r \<longrightarrow> left V w' fd < left V w fd)"
| "call_ok V N D (Getdents64 fd n) r d w w' \<longleftrightarrow> keeps V w w' \<and>
     (0 < r \<longrightarrow> left V w' fd < left V w fd \<and> dirents (buf_bytes d) (nat r) 0 \<noteq> None)"
| "call_ok V N D c r d w w' \<longleftrightarrow> keeps V w w'"

definition finite_kernel :: "'w kernel \<Rightarrow> 'w fsview \<Rightarrow> nat \<Rightarrow> nat \<Rightarrow> bool" where
  "finite_kernel K V N D \<longleftrightarrow>
     (\<forall>c w. sane V w \<longrightarrow> (case K c w of (r, d, w') \<Rightarrow> call_ok V N D c r d w w'))"

lemma keeps_refl: "sane V w \<Longrightarrow> keeps V w w"
  by (simp add: keeps_def)

lemma keeps_trans: "keeps V u v \<Longrightarrow> keeps V v w \<Longrightarrow> keeps V u w"
  unfolding keeps_def by fastforce

lemma keepsD:
  assumes "keeps V w w'" and "fd \<in> fds V w"
  shows "fd \<in> fds V w'" and "left V w' fd \<le> left V w fd" and "level V w' fd = level V w fd"
  using assms by (auto simp: keeps_def)

lemma keeps_sane: "keeps V v w \<Longrightarrow> sane V w"
  by (simp add: keeps_def)

fun closes :: "sysc \<Rightarrow> bool" where
  "closes (Close f) = True"
| "closes _ = False"

lemma sys_world: "sys K c s = (r, d, s') \<Longrightarrow> K c (world s) = (r, d, world s')"
  by (auto simp: sys_def split: prod.splits)

lemma finite_kernel_call:
  assumes "finite_kernel K V N D" and "sys K c s = (r, d, s')" and "sane V (world s)"
  shows "call_ok V N D c r d (world s) (world s')"
  using assms(1) [unfolded finite_kernel_def, rule_format, OF assms(3), of c] sys_world [OF assms(2)] by simp

lemma call_ok_keeps: "call_ok V N D c r d w w' \<Longrightarrow> \<not> closes c \<Longrightarrow> keeps V w w'"
  by (cases c) simp_all

text \<open>The rules, from a reference state \<open>w\<close> to the current one.\<close>

lemma keeps_sys:
  "finite_kernel K V N D \<Longrightarrow> keeps V w (world s) \<Longrightarrow> sys K c s = (r, d, s') \<Longrightarrow> \<not> closes c \<Longrightarrow> keeps V w (world s')"
  by (rule keeps_trans [OF _ call_ok_keeps [OF finite_kernel_call [OF _ _ keeps_sane]]])

lemma keeps_do:
  "finite_kernel K V N D \<Longrightarrow> keeps V w (world s) \<Longrightarrow> \<not> closes c \<Longrightarrow> keeps V w (world (do_sys K c s))"
  unfolding do_sys_eq
  by (rule keeps_sys [where c = c and r = "fst (sys K c s)" and d = "fst (snd (sys K c s))"]) auto

lemma keeps_ret:
  "finite_kernel K V N D \<Longrightarrow> ret_sys K c s = (r, s') \<Longrightarrow> keeps V w (world s) \<Longrightarrow> \<not> closes c \<Longrightarrow> keeps V w (world s')"
  unfolding ret_sys_eq using keeps_sys by metis

lemma keeps_print: "finite_kernel K V N D \<Longrightarrow> keeps V w (world s) \<Longrightarrow> keeps V w (world (print K cs s))"
  unfolding print_def by (rule keeps_do) simp_all

lemma keeps_prints: "finite_kernel K V N D \<Longrightarrow> keeps V w (world s) \<Longrightarrow> keeps V w (world (fold (print K) cs s))"
  by (induction cs arbitrary: s) (auto intro: keeps_print)

lemma keeps_close:
  assumes "finite_kernel K V N D" and "keeps V w (world s)" and "f \<notin> fds V w"
  shows "keeps V w (world (do_sys K (Close f) s))"
proof -
  obtain r d s' where c: "sys K (Close f) s = (r, d, s')" by (rule prod_cases3)
  from finite_kernel_call [OF assms(1) c keeps_sane [OF assms(2)]]
  have ok: "sane V (world s')" "fds V (world s') = fds V (world s) - {f}"
    "\<And>fd. fd \<in> fds V (world s) - {f} \<Longrightarrow> left V (world s') fd \<le> left V (world s) fd \<and>
       level V (world s') fd = level V (world s) fd" by simp_all
  have "fd \<in> fds V (world s') \<and> left V (world s') fd \<le> left V w fd \<and> level V (world s') fd = level V w fd"
    if "fd \<in> fds V w" for fd
    using ok(2) ok(3) [of fd] keepsD [OF assms(2) that] assms(3) that by (auto intro: le_trans)
  then show ?thesis using c ok(1) by (auto simp: do_sys_eq keeps_def)
qed

lemma opened:
  assumes "finite_kernel K V N D" and "ret_sys K (Openat a p f m) s = (r, s')" and "keeps V w (world s)" and "0 \<le> r"
  shows "r \<notin> fds V w" and "r \<in> fds V (world s')" and "left V (world s') r \<le> N" and "level V (world s') r \<le> D"
    and "a \<in> fds V w \<longrightarrow> level V w a < level V (world s') r"
proof -
  obtain d where "sys K (Openat a p f m) s = (r, d, s')" using assms(2) by (auto simp: ret_sys_eq)
  from finite_kernel_call [OF assms(1) this keeps_sane [OF assms(3)]] assms(3,4)
  show "r \<notin> fds V w" and "r \<in> fds V (world s')" and "left V (world s') r \<le> N" and "level V (world s') r \<le> D"
    and "a \<in> fds V w \<longrightarrow> level V w a < level V (world s') r"
    by (auto simp: keeps_def)
qed

text \<open>\<open>returns V f w s\<close>: the procedure returns, in a state that keeps the descriptors of \<open>w\<close>.\<close>

definition returns :: "'w fsview \<Rightarrow> 'w rstate option \<Rightarrow> 'w \<Rightarrow> bool" where
  "returns V r w \<longleftrightarrow> (\<exists>s'. r = Some s' \<and> keeps V w (world s'))"

lemma returnsE: "returns V r w \<Longrightarrow> (\<And>s'. r = Some s' \<Longrightarrow> keeps V w (world s') \<Longrightarrow> P) \<Longrightarrow> P"
  by (auto simp: returns_def)

lemma returns_trans: "returns V r v \<Longrightarrow> keeps V w v \<Longrightarrow> returns V r w"
  unfolding returns_def by (auto intro: keeps_trans [rotated])

lemma copy_loop_returns:
  assumes k: "finite_kernel K V N D"
  shows "keeps V w (world s) \<Longrightarrow> i \<in> fds V (world s) \<Longrightarrow> returns V (copy_loop K i j s) w"
proof (induction "left V (world s) i" arbitrary: s rule: less_induct)
  case less
  obtain n d t where t: "sys K (Read i 4096) s = (n, d, t)" by (rule prod_cases3)
  let ?u = "do_sys K (Write j (take (nat n) (buf_bytes d))) t"
  note s = keeps_sane [OF less.prems(1)]
  show ?case
  proof (cases "n > 0")
    case True
    have st: "keeps V (world s) (world t)" using keeps_sys [OF k keeps_refl [OF s] t] by simp
    have tu: "keeps V (world t) (world ?u)" using keeps_do [OF k keeps_refl [OF keeps_sane [OF st]]] by simp
    have i: "i \<in> fds V (world t)" using st less.prems(2) by (auto simp: keeps_def)
    have "left V (world t) i < left V (world s) i" using finite_kernel_call [OF k t s] True by simp
    then have lt: "left V (world ?u) i < left V (world s) i" using keepsD(2) [OF tu i] by simp
    have "returns V (copy_loop K i j ?u) w"
      using keeps_trans [OF less.prems(1) keeps_trans [OF st tu]] i tu
      by (intro less.hyps [OF lt]) (auto simp: keeps_def)
    then show ?thesis using t True by (subst copy_loop.simps) simp
  next
    case False
    then show ?thesis using keeps_sys [OF k less.prems(1) t] t by (subst copy_loop.simps) (simp add: returns_def)
  qed
qed

lemma copy_file_returns:
  assumes k: "finite_kernel K V N D" and w: "keeps V w (world s)"
  shows "returns V (copy_file K a b md s) w"
proof -
  obtain i s1 where s1: "ret_sys K (Openat AT_FDCWD a O_RDONLY 0) s = (i, s1)" by fastforce
  let ?u = "do_sys K (Unlinkat AT_FDCWD b 0) s1"
  obtain j s2 where s2: "ret_sys K (Openat AT_FDCWD b O_WRONLY_CREAT_TRUNC md) ?u = (j, s2)" by fastforce
  have w1: "keeps V w (world s1)" using keeps_ret [OF k s1 w] by simp
  have wu: "keeps V w (world ?u)" using keeps_do [OF k w1] by simp
  have w2: "keeps V w (world s2)" using keeps_ret [OF k s2 wu] by simp
  show ?thesis
  proof (cases "i < 0")
    case True
    then show ?thesis using w1 s1 by (auto simp: copy_file_def Let_def returns_def intro!: keeps_print [OF k])
  next
    case False
    then have i: "0 \<le> i" by simp
    note op = opened [OF k s1 w i]
    have "keeps V (world s1) (world s2)"
      using keeps_ret [OF k s2 keeps_do [OF k keeps_refl [OF keeps_sane [OF w1]]]] by simp
    then have i2: "i \<in> fds V (world s2)" using op(2) by (auto simp: keeps_def)
    show ?thesis
    proof (cases "j < 0")
      case True
      then show ?thesis using w2 s1 s2 i op(1)
        by (auto simp: copy_file_def Let_def returns_def intro!: keeps_close [OF k] keeps_print [OF k])
    next
      case False
      then have j: "0 \<le> j" by simp
      obtain s3 where s3: "copy_loop K i j s2 = Some s3" "keeps V w (world s3)"
        using copy_loop_returns [OF k w2 i2] by (auto simp: returns_def)
      then show ?thesis using s1 s2 i j op(1) opened(1) [OF k s2 wu j]
        by (auto simp: copy_file_def Let_def returns_def intro!: keeps_close [OF k] keeps_print [OF k])
    qed
  qed
qed

lemma subdir_returns:
  assumes k: "finite_kernel K V N D" and w: "keeps V w (world s)" and a: "a \<in> fds V w"
    and m: "\<And>i j s. sane V (world s) \<Longrightarrow> i \<in> fds V (world s) \<Longrightarrow> left V (world s) i \<le> N \<Longrightarrow>
      level V w a < level V (world s) i \<Longrightarrow> level V (world s) i \<le> D \<Longrightarrow> returns V (merge i j s) (world s)"
  shows "returns V (merge_subdir K merge a b name s) w"
proof -
  let ?s = "print K '' -> [MERGING SUBDIR]\<newline>'' s"
  obtain i s1 where s1: "ret_sys K (Openat a name (O_RDONLY + O_DIRECTORY) 0) ?s = (i, s1)" by fastforce
  let ?u = "do_sys K (Mkdirat b name (Some MODE_0755)) s1"
  obtain j s2 where s2: "ret_sys K (Openat b name (O_RDONLY + O_DIRECTORY) 0) ?u = (j, s2)" by fastforce
  note ws = keeps_print [OF k w]
  have w1: "keeps V w (world s1)" using keeps_ret [OF k s1 ws] by simp
  have wu: "keeps V w (world ?u)" using keeps_do [OF k w1] by simp
  have w2: "keeps V w (world s2)" using keeps_ret [OF k s2 wu] by simp
  have w12: "keeps V (world s1) (world s2)"
    using keeps_ret [OF k s2 keeps_do [OF k keeps_refl [OF keeps_sane [OF w1]]]] by simp
  have "returns V (if i \<ge> 0 \<and> j \<ge> 0 then merge i j s2 else Some s2) w"
  proof (cases "i \<ge> 0 \<and> j \<ge> 0")
    case True
    then have op: "i \<in> fds V (world s1)" "left V (world s1) i \<le> N" "level V (world s1) i \<le> D"
        "level V w a < level V (world s1) i" using opened [OF k s1 ws] a by simp_all
    have "returns V (merge i j s2) (world s2)"
      using w12 op keeps_sane [OF w2] by (intro m) (fastforce simp: keeps_def)+
    from returns_trans [OF this w2] True show ?thesis by simp
  next
    case False
    then show ?thesis unfolding if_not_P [OF False] using w2 by (simp add: returns_def)
  qed
  then obtain s3 where s3: "(if i \<ge> 0 \<and> j \<ge> 0 then merge i j s2 else Some s2) = Some s3" "keeps V w (world s3)"
    by (auto simp: returns_def)
  show ?thesis
    unfolding merge_subdir_def Let_def s1 prod.case s2 s3(1) option.case returns_def
    using s3(2) opened(1) [OF k s1 ws] opened(1) [OF k s2 wu]
    by (auto intro!: keeps_do [OF k] keeps_close [OF k])
qed

text \<open>\<open>need V N D w a\<close>: the fuel that is enough to merge the directory \<open>a\<close>.\<close>

definition need :: "'w fsview \<Rightarrow> nat \<Rightarrow> nat \<Rightarrow> 'w \<Rightarrow> int \<Rightarrow> nat" where
  "need V N D w a = left V w a + (D - level V w a) * Suc N"

lemma need_deeper:
  assumes "left V w' i \<le> N" and "level V w a < level V w' i" and "level V w' i \<le> D"
  shows "need V N D w' i < (D - level V w a) * Suc N"
proof -
  have "Suc (D - level V w' i) * Suc N \<le> (D - level V w a) * Suc N" using assms(2,3) by (intro mult_le_mono1) arith
  then show ?thesis using assms(1) unfolding need_def by simp
qed

lemma entries_returns:
  assumes k: "finite_kernel K V N D" and a: "a \<in> fds V w" and f: "(D - level V w a) * Suc N \<le> f"
    and m: "\<And>i j ind s. sane V (world s) \<Longrightarrow> i \<in> fds V (world s) \<Longrightarrow> need V N D (world s) i < f \<Longrightarrow>
      returns V (merge_dir K f i j ind s) (world s)"
  shows "keeps V w (world s) \<Longrightarrow> returns V (merge_entries K f a b ind ds s) w"
proof (induction ds arbitrary: s)
  case Nil
  then show ?case by (simp add: returns_def merge_entries.simps)
next
  case (Cons name ds)
  let ?s = "print K name (print K ''  Processing: '' (print K ind s))"
  obtain r s1 where s1: "ret_sys K (Renameat a name b name) ?s = (r, s1)" by fastforce
  have w1: "keeps V w (world s1)" using keeps_ret [OF k s1] keeps_print [OF k] Cons.prems by simp
  have "returns V (merge_subdir K (\<lambda>i j s. merge_dir K f i j ''    '' s) a b name s1) w"
    using f by (intro subdir_returns [OF k w1 a] m) (auto dest: need_deeper)
  then obtain s2 where s2: "(if r = 0 then Some (print K '' -> [MOVED]\<newline>'' s1)
      else merge_subdir K (\<lambda>i j s. merge_dir K f i j ''    '' s) a b name s1) = Some s2" "keeps V w (world s2)"
    using keeps_print [OF k w1] by (cases "r = 0") (auto simp: returns_def)
  show ?case
    unfolding merge_entries.simps Let_def s1 prod.case s2(1) option.case
    using Cons.IH [OF Cons.prems] Cons.IH [OF s2(2)] by simp
qed

lemma merge_returns:
  assumes k: "finite_kernel K V N D"
  shows "sane V (world s) \<Longrightarrow> a \<in> fds V (world s) \<Longrightarrow> need V N D (world s) a < f \<Longrightarrow>
    returns V (merge_dir K f a b ind s) (world s)"
proof (induction f arbitrary: a b ind s)
  case (Suc f)
  obtain r d t where t: "sys K (Getdents64 a 2048) s = (r, d, t)" by (rule prod_cases3)
  have st: "keeps V (world s) (world t)" using keeps_sys [OF k keeps_refl [OF Suc.prems(1)] t] by simp
  show ?case
  proof (cases "r > 0")
    case True
    from finite_kernel_call [OF k t Suc.prems(1)] True obtain ds where
      ds: "dirents (buf_bytes d) (nat r) 0 = Some ds" and lt: "left V (world t) a < left V (world s) a" by auto
    have a: "a \<in> fds V (world t)" "level V (world t) a = level V (world s) a" using st Suc.prems(2) by (auto simp: keeps_def)
    have "need V N D (world t) a < f" using lt a(2) Suc.prems(3) by (simp add: need_def)
    then obtain u where u: "merge_entries K f a b ind ds t = Some u" "keeps V (world t) (world u)"
      using entries_returns [OF k a(1) _ Suc.IH keeps_refl [OF keeps_sane [OF st]], where b = b and ind = ind and ds = ds]
      by (auto simp: need_def returns_def)
    have "need V N D (world u) a < f" "a \<in> fds V (world u)"
      using \<open>need V N D (world t) a < f\<close> u(2) a(1) by (fastforce simp: need_def keeps_def)+
    from returns_trans [OF Suc.IH [OF keeps_sane [OF u(2)] this(2,1)] keeps_trans [OF st u(2)]]
    show ?thesis using t True ds u by (simp add: merge_dir.simps)
  next
    case False
    then show ?thesis using t st by (simp add: merge_dir.simps returns_def)
  qed
qed simp

lemma merge_opened:
  assumes k: "finite_kernel K V N D" and o: "open_dir K p s = (i, s1)" and i: "0 \<le> i" and w: "keeps V w (world s)"
    and u: "keeps V (world s1) (world s2)" and f: "Suc N * Suc D \<le> f"
  shows "returns V (merge_dir K f i b ind s2) w"
proof -
  note op = opened [OF k o [unfolded open_dir_def] w i]
  have i2: "i \<in> fds V (world s2)" "left V (world s2) i \<le> N" using op u by (fastforce simp: keeps_def)+
  have "need V N D (world s2) i \<le> N + D * Suc N" unfolding need_def using i2(2) by (intro add_mono mult_le_mono1) auto
  also have "\<dots> < f" using f by (simp add: algebra_simps)
  finally have "returns V (merge_dir K f i b ind s2) (world s2)" by (rule merge_returns [OF k keeps_sane [OF u] i2(1)])
  moreover have "keeps V w (world s1)" using keeps_ret [OF k o [unfolded open_dir_def] w] by simp
  ultimately show ?thesis using returns_trans [OF _ keeps_trans [OF _ u]] by simp
qed

lemma merge_lib_old_returns:
  assumes k: "finite_kernel K V N D" and f: "Suc N * Suc D \<le> f" and w: "keeps V w (world s)"
  shows "returns V (merge_lib_old K f dst s) w"
proof -
  obtain i s1 where s1: "open_dir K ''/mnt/lib_old'' s = (i, s1)" by fastforce
  have w1: "keeps V w (world s1)" using keeps_ret [OF k s1 [unfolded open_dir_def] w] by simp
  note u = keeps_print [OF k keeps_refl [OF keeps_sane [OF w1]], where cs = "''>>> Merging /mnt/lib_old into /mnt/usr/lib...\<newline>''"]
  show ?thesis
    using w1 s1 merge_opened [OF k s1 _ w u f, where b = dst and ind = "[]"] opened(1) [OF k s1 [unfolded open_dir_def] w]
    by (cases "0 \<le> i") (auto simp: merge_lib_old_def elim!: returnsE intro!: keeps_do [OF k] keeps_close [OF k]
        simp: returns_def)
qed

lemma merge_lib_returns:
  assumes k: "finite_kernel K V N D" and f: "Suc N * Suc D \<le> f" and w: "keeps V w (world s)"
  shows "returns V (merge_lib K f dst s) w"
proof -
  obtain q d s1 where s1: "sys K (Newfstatat AT_FDCWD ''/mnt/lib'' AT_SYMLINK_NOFOLLOW) s = (q, d, s1)" by (rule prod_cases3)
  have w1: "keeps V w (world s1)" using keeps_sys [OF k w s1] by simp
  let ?s = "print K ''>>> Merging /mnt/lib into /mnt/usr/lib...\<newline>'' s1"
  note ws = keeps_print [OF k w1]
  obtain i s2 where s2: "open_dir K ''/mnt/lib'' ?s = (i, s2)" by fastforce
  have w2: "keeps V w (world s2)" using keeps_ret [OF k s2 [unfolded open_dir_def] ws] by simp
  have "returns V (if i \<ge> 0 then map_option (do_sys K (Close i)) (merge_dir K f i dst [] s2) else Some s2) w"
    using merge_opened [OF k s2 _ ws keeps_refl [OF keeps_sane [OF w2]] f, where b = dst and ind = "[]"] opened(1) [OF k s2 [unfolded open_dir_def] ws] w2
    by (cases "0 \<le> i") (auto simp: returns_def intro: keeps_close [OF k])
  then show ?thesis
    unfolding merge_lib_def s1 prod.case s2 using w1 by (auto simp: returns_def intro!: keeps_do [OF k])
qed

lemma install_returns:
  assumes k: "finite_kernel K V N D" and w: "keeps V w (world s)"
  shows "returns V (install_linkers K s) w"
proof -
  let ?s = "print K ''>>> Installing verified Debian dynamic linkers directly onto eMMC storage...\<newline>'' s"
  note cf = copy_file_returns [OF k, THEN returnsE]
  obtain s1 where s1: "copy_file K ''/ld-linux-aarch64.so.1'' ''/mnt/usr/lib/aarch64-linux-gnu/ld-linux-aarch64.so.1''
      MODE_0755 ?s = Some s1" "keeps V w (world s1)" using cf [OF keeps_print [OF k w]] by blast
  obtain s2 where s2: "copy_file K ''/ld-2.31.so'' ''/mnt/usr/lib/aarch64-linux-gnu/ld-2.31.so'' MODE_0755 s1 = Some s2"
      "keeps V w (world s2)" using cf [OF s1(2)] by blast
  obtain s3 where s3: "copy_file K ''/ld-linux-aarch64.so.1'' ''/mnt/usr/lib/ld-linux-aarch64.so.1'' MODE_0755 s2 = Some s3"
      "keeps V w (world s3)" using cf [OF s2(2)] by blast
  show ?thesis unfolding install_linkers_def Let_def s1(1) s2(1) s3(1) option.case returns_def
    using s3(2) by (auto intro!: keeps_do [OF k])
qed

lemma keeps_rebuild:
  "finite_kernel K V N D \<Longrightarrow> keeps V w (world s) \<Longrightarrow> keeps V w (world (rebuild_links K s))"
  unfolding rebuild_links_def Let_def by (intro keeps_do keeps_print) simp_all

lemma keeps_mkdir: "finite_kernel K V N D \<Longrightarrow> keeps V w (world s) \<Longrightarrow> keeps V w (world (mkdir2 K p s))"
  unfolding mkdir2_def by (rule keeps_do) simp_all

lemma repair_returns:
  assumes k: "finite_kernel K V N D" and f: "Suc N * Suc D \<le> f" and w: "keeps V w (world s)"
  shows "\<exists>s'. repair K f s = Some s'"
proof -
  let ?s = "mkdir2 K ''/mnt/usr/lib/modules'' (mkdir2 K ''/mnt/usr/lib/aarch64-linux-gnu''
    (mkdir2 K ''/mnt/usr/lib64'' (mkdir2 K ''/mnt/usr/lib'' (mkdir2 K ''/mnt/usr''
      (print K ''>>> Rootfs mounted successfully!\<newline>\<newline>'' s)))))"
  have ws: "keeps V w (world ?s)" by (intro keeps_mkdir [OF k] keeps_print [OF k] w)
  obtain i s1 where s1: "open_dir K ''/mnt/usr/lib'' ?s = (i, s1)" by fastforce
  have w1: "keeps V w (world s1)" using keeps_ret [OF k s1 [unfolded open_dir_def] ws] by simp
  obtain s2 where s2: "merge_lib_old K f i s1 = Some s2" "keeps V w (world s2)"
    using merge_lib_old_returns [OF k f w1] by (auto simp: returns_def)
  obtain s3 where s3: "merge_lib K f i s2 = Some s3" "keeps V w (world s3)"
    using merge_lib_returns [OF k f s2(2)] by (auto simp: returns_def)
  let ?s4 = "if i \<ge> 0 then do_sys K (Close i) s3 else s3"
  have "keeps V w (world ?s4)"
    using s3(2) opened(1) [OF k s1 [unfolded open_dir_def] ws] by (auto intro: keeps_close [OF k])
  from install_returns [OF k keeps_rebuild [OF k this]] obtain s5 where "install_linkers K (rebuild_links K ?s4) = Some s5"
    by (auto simp: returns_def)
  then show ?thesis unfolding repair_def Let_def s1 prod.case s2(1) s3(1) option.case by simp
qed

lemma keeps_mount_loop:
  assumes k: "finite_kernel K V N D"
  shows "mount_loop K m r s = (q, s') \<Longrightarrow> keeps V w (world s) \<Longrightarrow> keeps V w (world s')"
proof (induction m arbitrary: r s)
  case (Suc m)
  obtain q1 s1 where s1: "ret_sys K (Mount ''/dev/mmcblk0p6'' ''/mnt'' ''ext4'') s = (q1, s1)" by fastforce
  have w1: "keeps V w (world s1)" using keeps_ret [OF k s1 Suc.prems(2)] by simp
  have "keeps V w (world (sleep_sec K 1 (print K ''    Waiting for /dev/mmcblk0p6...\<newline>'' s1)))"
    unfolding sleep_sec_def by (intro keeps_do [OF k] keeps_print [OF k] w1) simp
  then show ?case using Suc.IH Suc.prems(1) s1 w1 by (auto split: if_splits)
qed simp

lemma start_returns:
  assumes k: "finite_kernel K V N D" and f: "Suc N * Suc D \<le> f" and s: "sane V (world s)"
  shows "\<exists>oc s'. recovery_start K f s = Some (oc, s')"
proof -
  let ?s2 = "do_sys K (Mount ''devtmpfs'' ''/dev'' ''devtmpfs'') (mkdir2 K ''/dev'' s)"
  obtain c s3 where s3: "ret_sys K (Openat AT_FDCWD ''/dev/console'' O_RDWR 0) ?s2 = (c, s3)" by fastforce
  let ?s4 = "if c \<ge> 0 then s3\<lparr>out_fd := c\<rparr> else s3"
  let ?s5 = "print K ''>>> Waiting for eMMC and mounting /dev/mmcblk0p6 on /mnt...\<newline>''
    (mkdir2 K ''/mnt'' (fold (print K) banner ?s4))"
  obtain q s6 where s6: "mount_loop K 15 (- 1) ?s5 = (q, s6)" by fastforce
  have "keeps V (world s) (world ?s2)" by (intro keeps_do [OF k] keeps_mkdir [OF k] keeps_refl s) simp
  from keeps_ret [OF k s3 this] have "keeps V (world s) (world ?s4)" by simp
  then have "keeps V (world s) (world ?s5)"
    by (intro keeps_print [OF k] keeps_mkdir [OF k] keeps_prints [OF k])
  from keeps_mount_loop [OF k s6 this] obtain s' where "repair K f s6 = Some s'" using repair_returns [OF k f] by blast
  then show ?thesis unfolding recovery_start_def Let_def s3 prod.case s6 by simp
qed

section \<open>A kernel\<close>

text \<open>
  A small kernel, to run the program on: its state is the next descriptor and the open ones, each with the blocks it
  still delivers and its level. Every directory holds one entry \<open>a\<close> that cannot be renamed, down to level 1; every
  file has one byte.
\<close>

type_synonym demo = "int \<times> (int \<rightharpoonup> nat \<times> nat)"

definition demo_block :: "u8 list" where
  "demo_block = replicate 16 0 @ [24, 0, 4, 97] @ replicate 4 0"

definition demo_take :: "int \<Rightarrow> (int \<rightharpoonup> nat \<times> nat) \<Rightarrow> u8 list \<Rightarrow> int \<times> sysdata \<times> (int \<rightharpoonup> nat \<times> nat)" where
  "demo_take fd fs bs = (case fs fd of
      Some (Suc l, v) \<Rightarrow> (int (length bs), Buf bs, fs(fd \<mapsto> (l, v)))
    | _ \<Rightarrow> (0, NoData, fs))"

fun demo_kernel :: "demo kernel" where
  "demo_kernel (Openat a p f m) (n, fs) =
     (let v = (case fs a of Some (l, v) \<Rightarrow> Suc v | None \<Rightarrow> 0)
      in if v \<le> 1 then (n, NoData, n + 1, fs(n \<mapsto> (1, v))) else (- 40, NoData, n, fs))"
| "demo_kernel (Close f) (n, fs) = (0, NoData, n, fs(f := None))"
| "demo_kernel (Read fd k) (n, fs) = (case demo_take fd fs [1] of (r, d, fs) \<Rightarrow> (r, d, n, fs))"
| "demo_kernel (Getdents64 fd k) (n, fs) = (case demo_take fd fs demo_block of (r, d, fs) \<Rightarrow> (r, d, n, fs))"
| "demo_kernel (Renameat a p b q) w = (- 39, NoData, w)"
| "demo_kernel (Newfstatat a p f) w = (0, StMode 16877, w)"
| "demo_kernel c w = (0, NoData, w)"

definition demo_view :: "demo fsview" where
  "demo_view = \<lparr>sane = (\<lambda>(n, fs). 0 \<le> n \<and> (\<forall>fd\<in>dom fs. fd < n)), fds = (\<lambda>(n, fs). dom fs),
     left = (\<lambda>(n, fs) fd. case fs fd of Some (l, v) \<Rightarrow> l | None \<Rightarrow> 0),
     level = (\<lambda>(n, fs) fd. case fs fd of Some (l, v) \<Rightarrow> v | None \<Rightarrow> 0)\<rparr>"

definition demo_start :: "demo rstate" where
  "demo_start = \<lparr>world = (3, Map.empty), out_fd = 1, trace = []\<rparr>"

lemma demo_record: "d_reclen demo_block 0 = 24" "d_name demo_block 0 = ''a''" "length demo_block = 24"
  by code_simp+

lemma demo_dirents: "dirents demo_block 24 0 = Some [''a'']"
  by (subst dirents.simps) (simp add: demo_record, subst dirents.simps, simp)

lemma demo_take_keeps:
  assumes "demo_take fd fs bs = (r, d, fs')" and "0 \<le> n" and "\<forall>fd\<in>dom fs. fd < n"
  shows "keeps demo_view (n, fs) (n, fs') \<and> (0 < r \<longrightarrow> left demo_view (n, fs') fd < left demo_view (n, fs) fd \<and> d = Buf bs \<and> r = int (length bs))"
  using assms by (auto simp: demo_take_def keeps_def demo_view_def split: option.splits nat.splits prod.splits if_splits)

lemma demo_finite: "finite_kernel demo_kernel demo_view 1 1"
proof -
  have "call_ok demo_view 1 1 c r d (n, fs) w'"
    if "demo_kernel c (n, fs) = (r, d, w')" "0 \<le> n" "\<forall>fd\<in>dom fs. fd < n" for c r d n fs w'
  proof (cases c)
    case (Openat a p f m)
    have n: "fs n = None" using that(3) by (cases "fs n") auto
    have lt: "fs i = Some x \<Longrightarrow> i < n" for i x using that(3) by auto
    then show ?thesis using that(1,2) n Openat
      by (auto simp: keeps_def demo_view_def Let_def less_imp_le split: if_splits option.splits intro: lt less_imp_le)
  next
    case (Close f)
    then show ?thesis using that by (auto simp: keeps_def demo_view_def split: if_splits)
  next
    case (Read fd k)
    then show ?thesis using that demo_take_keeps [of fd fs "[1]"] by (auto split: prod.splits)
  next
    case (Getdents64 fd k)
    obtain q e fs' where tk: "demo_take fd fs demo_block = (q, e, fs')" by (rule prod_cases3)
    then have "w' = (n, fs')" "r = q" "d = e" using that(1) Getdents64 by auto
    then show ?thesis using demo_take_keeps [OF tk that(2,3)] Getdents64
      by (auto simp: demo_record demo_dirents buf_bytes_def)
  qed (use that in \<open>auto simp: keeps_def demo_view_def\<close>)
  then show ?thesis by (auto simp: finite_kernel_def demo_view_def split: prod.splits)
qed

lemma demo_returns: "\<exists>oc s'. recovery_start demo_kernel 4 demo_start = Some (oc, s')"
  by (rule start_returns [OF demo_finite]) (simp_all add: demo_view_def demo_start_def)

section \<open>Properties\<close>







end
