(* ===== verification/Dbg_Ring.thy ===== *)
theory Dbg_Ring
  imports Stdlib_S
begin

text \<open>
  The debug rings of \<open>dhd_dbg_ring.c\<close> and \<open>dhd_dbg_ring.h\<close>: a byte ring of variable length records, written by
  \<open>dhd_dbg_ring_push\<close> (which drops the oldest records to make room and pads the tail when a record does not fit
  before the end) and read by \<open>dhd_dbg_ring_pull_single\<close> and \<open>dhd_dbg_ring_pull\<close>. The ring structure is a record, its
  buffer and the callers' buffers are in the byte memory, positions and statistics are 32 bit words. Header and payload
  are copied by \<open>memcpy_s\<close>. The spin lock is a flag (\<open>None\<close> for a lock that is not allocated), so that an operation that
  returns without releasing it shows. A NULL ring, for which the functions return at once, is not a value of the model.
\<close>

unbundle bit_operations_syntax

section \<open>The structures\<close>

datatype dbg_ring_state = RING_STOP | RING_ACTIVE | RING_SUSPEND

record ring_statistics =
  written_bytes :: u32
  read_bytes :: u32
  written_records :: u32

record dhd_dbg_ring =
  ring_id :: int
  ring_name :: ptr
  ring_size :: u32
  wp :: u32
  rp :: u32
  log_level :: u32
  threshold :: u32
  ring_buf :: ptr
  lock :: "bool option"
  stat :: ring_statistics
  state :: dbg_ring_state
  tail_padded :: bool
  rem_len :: u32
  sched_pull :: bool
  pull_inactive :: bool

definition PACKET_LOG_RING_ID :: int where "PACKET_LOG_RING_ID = 0x7"
definition DEBUG_DUMP_RING1_ID :: int where "DEBUG_DUMP_RING1_ID = 0x8"
definition DEBUG_DUMP_RING2_ID :: int where "DEBUG_DUMP_RING2_ID = 0x9"
definition MEM_DUMP_RING_ID :: int where "MEM_DUMP_RING_ID = 0xa"
definition DBGRING_NAME_MAX :: nat where "DBGRING_NAME_MAX = 32"
definition PENDING_LEN_MAX :: u32 where "PENDING_LEN_MAX = 0xFFFFFFFF"

text \<open>The packed header of a record: the length of the payload (16 bit), flags, type and a 64 bit time stamp.\<close>

definition DBG_RING_ENTRY_SIZE :: nat where "DBG_RING_ENTRY_SIZE = 12"

definition ENTRY_LENGTH :: "mem \<Rightarrow> ptr \<Rightarrow> nat" where
  "ENTRY_LENGTH m hdr = ltoh16_ua m hdr + DBG_RING_ENTRY_SIZE"

definition DBGRING_FLUSH_THRESHOLD :: "dhd_dbg_ring \<Rightarrow> u32" where
  "DBGRING_FLUSH_THRESHOLD ring =
     (if ring_id ring \<noteq> PACKET_LOG_RING_ID then ring_size ring div 3 else ring_size ring div 4)"

definition TXACTIVESZ :: "u32 \<Rightarrow> u32 \<Rightarrow> u32 \<Rightarrow> u32" where
  "TXACTIVESZ r w d = (if r \<le> w then w - r else d - r + w)"

definition DBG_RING_WRITE_SPACE_AVAIL_CONT :: "u32 \<Rightarrow> u32 \<Rightarrow> u32 \<Rightarrow> u32" where
  "DBG_RING_WRITE_SPACE_AVAIL_CONT r w d = (if w \<ge> r then d - w else r - w)"

definition DBG_RING_WRITE_SPACE_AVAIL :: "u32 \<Rightarrow> u32 \<Rightarrow> u32 \<Rightarrow> u32" where
  "DBG_RING_WRITE_SPACE_AVAIL r w d = d - TXACTIVESZ r w d"

definition DBG_RING_CHECK_WRITE_SPACE :: "u32 \<Rightarrow> u32 \<Rightarrow> u32 \<Rightarrow> u32" where
  "DBG_RING_CHECK_WRITE_SPACE r w d =
     min (DBG_RING_WRITE_SPACE_AVAIL r w d) (DBG_RING_WRITE_SPACE_AVAIL_CONT r w d)"

definition DHD_DBG_RING_LOCK :: "dhd_dbg_ring \<Rightarrow> dhd_dbg_ring" where
  "DHD_DBG_RING_LOCK ring = ring\<lparr>lock := map_option (\<lambda>_. True) (lock ring)\<rparr>"

definition DHD_DBG_RING_UNLOCK :: "dhd_dbg_ring \<Rightarrow> dhd_dbg_ring" where
  "DHD_DBG_RING_UNLOCK ring = ring\<lparr>lock := map_option (\<lambda>_. False) (lock ring)\<rparr>"

section \<open>Set up and tear down\<close>

definition no_stat :: ring_statistics where
  "no_stat = \<lparr>written_bytes = 0, read_bytes = 0, written_records = 0\<rparr>"

text \<open>\<open>new_lock\<close> is what \<open>DHD_DBG_RING_LOCK_INIT\<close> returns: a free lock, or none when the allocation fails.\<close>

definition dhd_dbg_ring_init ::
    "bool option \<Rightarrow> dhd_dbg_ring \<Rightarrow> int \<Rightarrow> ptr \<Rightarrow> u32 \<Rightarrow> ptr \<Rightarrow> bool \<Rightarrow> mem \<Rightarrow> bcme \<times> dhd_dbg_ring \<times> mem" where
  "dhd_dbg_ring_init new_lock ring i nm ring_sz allocd_buf inactive m =
     (if allocd_buf = NULL \<and> i \<noteq> DEBUG_DUMP_RING1_ID \<and> i \<noteq> DEBUG_DUMP_RING2_ID \<and> i \<noteq> MEM_DUMP_RING_ID
      then (BCME_NOMEM, ring, m)
      else
        (let ring = DHD_DBG_RING_LOCK (ring\<lparr>lock := new_lock\<rparr>);
             ring = ring\<lparr>ring_id := i\<rparr>;
             (n, m) = strlcpy (ring_name ring) nm DBGRING_NAME_MAX m;
             ring = ring\<lparr>ring_size := ring_sz, wp := 0, rp := 0, ring_buf := allocd_buf\<rparr>;
             ring = ring\<lparr>threshold := DBGRING_FLUSH_THRESHOLD ring, state := RING_SUSPEND, rem_len := 0,
               sched_pull := True, pull_inactive := inactive\<rparr>
         in (BCME_OK, DHD_DBG_RING_UNLOCK ring, m)))"

definition dhd_dbg_ring_set_buf :: "dhd_dbg_ring \<Rightarrow> ptr \<Rightarrow> bcme \<times> dhd_dbg_ring" where
  "dhd_dbg_ring_set_buf ring buf = (BCME_OK, DHD_DBG_RING_UNLOCK ((DHD_DBG_RING_LOCK ring)\<lparr>ring_buf := buf\<rparr>))"

definition dhd_dbg_ring_deinit :: "dhd_dbg_ring \<Rightarrow> mem \<Rightarrow> dhd_dbg_ring \<times> mem" where
  "dhd_dbg_ring_deinit ring m =
     (let ring = (DHD_DBG_RING_LOCK ring)\<lparr>ring_id := 0, wp := 0, rp := 0, stat := no_stat, threshold := 0,
            state := RING_STOP\<rparr>
      in (DHD_DBG_RING_UNLOCK ring, m(ring_name ring := 0)))"

text \<open>\<open>mallocz\<close> is the zeroed structure \<open>MALLOCZ\<close> returns, if it does. A failed initialisation releases it.\<close>

definition dhd_dbg_ring_alloc_init ::
    "bool option \<Rightarrow> dhd_dbg_ring option \<Rightarrow> int \<Rightarrow> ptr \<Rightarrow> u32 \<Rightarrow> ptr \<Rightarrow> bool \<Rightarrow> mem \<Rightarrow> dhd_dbg_ring option \<times> mem" where
  "dhd_dbg_ring_alloc_init new_lock mallocz i nm ring_sz allocd_buf inactive m =
     (case mallocz of
        None \<Rightarrow> (None, m)
      | Some ring \<Rightarrow>
          (case dhd_dbg_ring_init new_lock ring i nm ring_sz allocd_buf inactive m of
             (ret, ring, m) \<Rightarrow>
               if ret \<noteq> BCME_OK then (None, snd (dhd_dbg_ring_deinit ring m))
               else (Some (DHD_DBG_RING_UNLOCK ((DHD_DBG_RING_LOCK ring)\<lparr>state := RING_ACTIVE, threshold := 0\<rparr>)), m)))"

text \<open>The argument points to the caller's pointer: \<open>None\<close> is NULL, \<open>Some None\<close> a pointer to NULL.\<close>

definition dhd_dbg_ring_dealloc_deinit ::
    "dhd_dbg_ring option option \<Rightarrow> mem \<Rightarrow> dhd_dbg_ring option option \<times> mem" where
  "dhd_dbg_ring_dealloc_deinit dbgring m =
     (case dbgring of
        None \<Rightarrow> (None, m)
      | Some None \<Rightarrow> (Some None, m)
      | Some (Some ring) \<Rightarrow> (Some None, snd (dhd_dbg_ring_deinit ring m)))"

definition dhd_dbg_ring_config :: "dhd_dbg_ring \<Rightarrow> int \<Rightarrow> u32 \<Rightarrow> bcme \<times> dhd_dbg_ring" where
  "dhd_dbg_ring_config ring level thr =
     (if state ring = RING_STOP then (BCME_UNSUPPORTED, ring)
      else
        (let ring = DHD_DBG_RING_LOCK ring;
             ring = ring\<lparr>state := (if level = 0 then RING_SUSPEND else RING_ACTIVE)\<rparr>;
             ring = ring\<lparr>log_level := of_int level, threshold := min thr (DBGRING_FLUSH_THRESHOLD ring)\<rparr>
         in (BCME_OK, DHD_DBG_RING_UNLOCK ring)))"

definition dhd_dbg_ring_start :: "dhd_dbg_ring \<Rightarrow> mem \<Rightarrow> dhd_dbg_ring \<times> mem" where
  "dhd_dbg_ring_start ring m =
     (ring\<lparr>state := RING_SUSPEND, log_level := 0, rp := 0, wp := 0, threshold := 0, stat := no_stat\<rparr>,
      memset (ring_buf ring) 0 (unat (ring_size ring)) m)"

section \<open>The reader's alarm\<close>

text \<open>The callback \<open>pull_fn\<close> acts on a state of the caller's.\<close>

definition dhd_dbg_ring_sched_pull ::
    "dhd_dbg_ring \<Rightarrow> u32 \<Rightarrow> (int \<Rightarrow> 'w \<Rightarrow> 'w) \<Rightarrow> int \<Rightarrow> 'w \<Rightarrow> dhd_dbg_ring \<times> 'w" where
  "dhd_dbg_ring_sched_pull ring pending_len pull_fn i w =
     (let ring = DHD_DBG_RING_LOCK ring
      in if threshold ring > 0 \<and> pending_len \<ge> threshold ring \<and> sched_pull ring
         then (DHD_DBG_RING_UNLOCK (ring\<lparr>sched_pull := False\<rparr>), pull_fn i w)
         else (DHD_DBG_RING_UNLOCK ring, w))"

definition dhd_dbg_ring_get_pending_len :: "dhd_dbg_ring \<Rightarrow> u32 \<times> dhd_dbg_ring" where
  "dhd_dbg_ring_get_pending_len ring =
     (let ring = DHD_DBG_RING_LOCK ring;
          w = written_bytes (stat ring);
          r = read_bytes (stat ring);
          pending_len = (if w > r then w - r else if w < r then PENDING_LEN_MAX - r + w else 0)
      in (pending_len, DHD_DBG_RING_UNLOCK ring))"

definition count_written :: "u32 \<Rightarrow> dhd_dbg_ring \<Rightarrow> dhd_dbg_ring" where
  "count_written w_len ring = ring\<lparr>stat := (stat ring)\<lparr>written_records := written_records (stat ring) + 1,
     written_bytes := written_bytes (stat ring) + w_len\<rparr>\<rparr>"

definition count_read :: "nat \<Rightarrow> dhd_dbg_ring \<Rightarrow> dhd_dbg_ring" where
  "count_read n ring = ring\<lparr>stat := (stat ring)\<lparr>read_bytes := read_bytes (stat ring) + of_nat n\<rparr>\<rparr>"

definition dhd_dbg_ring_update :: "dhd_dbg_ring \<Rightarrow> u32 \<Rightarrow> bcme \<times> dhd_dbg_ring" where
  "dhd_dbg_ring_update ring w_len =
     (if ring_id ring \<noteq> PACKET_LOG_RING_ID then (BCME_UNSUPPORTED, ring)
      else
        (let ring = DHD_DBG_RING_LOCK ring
         in if state ring \<noteq> RING_ACTIVE then (BCME_OK, DHD_DBG_RING_UNLOCK ring)
            else (BCME_OK, DHD_DBG_RING_UNLOCK (count_written w_len ring))))"

section \<open>The writer\<close>

text \<open>The two branches of the loop that claims space: pad the tail and go back to the start, or drop the oldest
  record. The bound of the second is checked in 64 bit arithmetic (\<open>ENTRY_LENGTH\<close> is a \<open>size_t\<close>).\<close>

definition pad_tail :: "dhd_dbg_ring \<Rightarrow> mem \<Rightarrow> dhd_dbg_ring \<times> mem" where
  "pad_tail ring m =
     (let ring = ring\<lparr>tail_padded := True, rem_len := ring_size ring - wp ring\<rparr>;
          m = memset (ring_buf ring + unat (wp ring)) 0 (unat (rem_len ring)) m;
          ring = (if rp ring = 0 then
                    (let n = ENTRY_LENGTH m (ring_buf ring + unat (rp ring))
                     in count_read n (ring\<lparr>rp := rp ring + of_nat n\<rparr>))
                  else ring);
          ring = (if rp ring = wp ring then ring\<lparr>rp := 0\<rparr> else ring)
      in (ring\<lparr>wp := 0\<rparr>, m))"

definition drop_entry :: "dhd_dbg_ring \<Rightarrow> mem \<Rightarrow> dhd_dbg_ring option" where
  "drop_entry ring m =
     (let n = ENTRY_LENGTH m (ring_buf ring + unat (rp ring))
      in if unat (rp ring) + n \<ge> unat (ring_size ring) then None
         else
           (let ring = ring\<lparr>rp := rp ring + of_nat n\<rparr>;
                ring = (if tail_padded ring \<and> rp ring + rem_len ring = ring_size ring
                        then ring\<lparr>rp := 0, tail_padded := False, rem_len := 0\<rparr> else ring)
            in Some (count_read n ring)))"

partial_function (option) claim_space ::
    "u32 \<Rightarrow> dhd_dbg_ring \<Rightarrow> mem \<Rightarrow> ((bcme + u32) \<times> dhd_dbg_ring \<times> mem) option" where
  "claim_space w_len ring m =
     (let avail_size = DBG_RING_CHECK_WRITE_SPACE (rp ring) (wp ring) (ring_size ring)
      in if avail_size \<le> w_len then
           (if rp ring \<le> wp ring then (case pad_tail ring m of (ring, m) \<Rightarrow> claim_space w_len ring m)
            else (case drop_entry ring m of
                    None \<Rightarrow> Some (Inl BCME_BUFTOOSHORT, ring, m)
                  | Some ring \<Rightarrow> claim_space w_len ring m))
         else Some (Inr avail_size, ring, m))"

declare claim_space.simps [code]

text \<open>After the space is claimed: the bound on \<open>wp\<close>, in 32 bit arithmetic, then header, length and payload. The two
  error returns after \<open>memcpy_s\<close> do not release the lock.\<close>

definition write_entry :: "u32 \<Rightarrow> u32 \<Rightarrow> dhd_dbg_ring \<Rightarrow> ptr \<Rightarrow> ptr \<Rightarrow> mem \<Rightarrow> bcme \<times> dhd_dbg_ring \<times> mem" where
  "write_entry w_len avail_size ring hdr data m =
     (if wp ring + w_len \<ge> ring_size ring then (BCME_BUFTOOLONG, DHD_DBG_RING_UNLOCK ring, m)
      else
        (let w_entry = ring_buf ring + unat (wp ring);
             (ret, m) = memcpy_s w_entry (unat avail_size) hdr DBG_RING_ENTRY_SIZE m
         in if ret \<noteq> BCME_OK then (BCME_ERROR, ring, m)
            else
              (let m = htol16_ua_store (of_nat (ltoh16_ua m hdr)) w_entry m;
                   avail_size = avail_size - of_nat DBG_RING_ENTRY_SIZE;
                   (ret, m) = memcpy_s (w_entry + DBG_RING_ENTRY_SIZE) (unat avail_size) data (ltoh16_ua m w_entry) m
               in if ret \<noteq> BCME_OK then (BCME_ERROR, ring, m)
                  else
                    (let ring = count_written w_len (ring\<lparr>wp := wp ring + w_len\<rparr>)
                     in (BCME_OK, DHD_DBG_RING_UNLOCK ring, m)))))"

definition dhd_dbg_ring_push ::
    "bool \<Rightarrow> dhd_dbg_ring \<Rightarrow> ptr \<Rightarrow> ptr \<Rightarrow> mem \<Rightarrow> (bcme \<times> dhd_dbg_ring \<times> mem) option" where
  "dhd_dbg_ring_push in_irq ring hdr data m =
     (if hdr = NULL \<or> data = NULL then Some (BCME_BADARG, ring, m)
      else if in_irq then Some (BCME_BUSY, ring, m)
      else
        (let ring = DHD_DBG_RING_LOCK ring
         in if state ring \<noteq> RING_ACTIVE then Some (BCME_OK, DHD_DBG_RING_UNLOCK ring, m)
            else
              (let w_len = of_nat (ENTRY_LENGTH m hdr)
               in if w_len > ring_size ring then Some (BCME_ERROR, DHD_DBG_RING_UNLOCK ring, m)
                  else
                    (case claim_space w_len ring m of
                       None \<Rightarrow> None
                     | Some (Inl e, ring, m) \<Rightarrow> Some (e, DHD_DBG_RING_UNLOCK ring, m)
                     | Some (Inr avail_size, ring, m) \<Rightarrow> Some (write_entry w_len avail_size ring hdr data m)))))"

section \<open>The reader\<close>

definition dhd_dbg_ring_pull_single ::
    "dhd_dbg_ring \<Rightarrow> ptr \<Rightarrow> u32 \<Rightarrow> bool \<Rightarrow> mem \<Rightarrow> u32 \<times> dhd_dbg_ring \<times> mem" where
  "dhd_dbg_ring_pull_single ring data buf_len strip_header m =
     (if data = NULL \<or> buf_len = 0 then (0, ring, m)
      else
        (let ring = DHD_DBG_RING_LOCK ring
         in if \<not> pull_inactive ring \<and> state ring \<noteq> RING_ACTIVE then (0, DHD_DBG_RING_UNLOCK ring, m)
            else if rp ring = wp ring then (0, DHD_DBG_RING_UNLOCK ring, m)
            else
              (let r_entry = ring_buf ring + unat (rp ring);
                   rlen = of_nat (ENTRY_LENGTH m r_entry)
               in if rp ring + rlen > ring_size ring then (0, DHD_DBG_RING_UNLOCK ring, m)
                  else
                    (let (rlen, buf) = (if strip_header then (of_nat (ltoh16_ua m r_entry), r_entry + DBG_RING_ENTRY_SIZE)
                                        else (of_nat (ENTRY_LENGTH m r_entry), r_entry))
                     in if rlen > buf_len then (0, DHD_DBG_RING_UNLOCK ring, m)
                        else
                          (let m = memcpy data buf (unat rlen) m;
                               ring = ring\<lparr>rp := rp ring + of_nat (ENTRY_LENGTH m r_entry)\<rparr>;
                               ring = (if rp ring \<noteq> wp ring \<and> tail_padded ring \<and> rp ring + rem_len ring \<ge> ring_size ring
                                       then ring\<lparr>rp := 0, tail_padded := False, rem_len := 0\<rparr> else ring)
                           in if rp ring \<ge> ring_size ring then (0, DHD_DBG_RING_UNLOCK ring, m)
                              else (rlen, DHD_DBG_RING_UNLOCK (count_read (ENTRY_LENGTH m r_entry) ring), m))))))"

lemma pull_single_len: "dhd_dbg_ring_pull_single ring data buf_len strip m = (r, s) \<Longrightarrow> r \<le> buf_len"
  by (auto simp: dhd_dbg_ring_pull_single_def Let_def split: if_splits prod.splits)

lemma sub_shrinks: "0 < b \<Longrightarrow> r \<le> b \<Longrightarrow> r \<noteq> 0 \<Longrightarrow> unat (b - r) < unat (b :: u32)"
  by (simp add: unat_sub word_le_nat_alt unat_gt_0 word_less_nat_alt)

text \<open>The loop of \<open>dhd_dbg_ring_pull\<close>; it ends because every record returned shortens the rest of the buffer.\<close>

function pull_loop ::
    "dhd_dbg_ring \<Rightarrow> ptr \<Rightarrow> u32 \<Rightarrow> bool \<Rightarrow> u32 \<Rightarrow> nat \<Rightarrow> mem \<Rightarrow> u32 \<times> nat \<times> dhd_dbg_ring \<times> mem" where
  "pull_loop ring data buf_len strip_hdr total_r_len num_entries m =
     (if buf_len > 0 then
        (case dhd_dbg_ring_pull_single ring data buf_len strip_hdr m of
           (r_len, ring', m') \<Rightarrow>
             if r_len = 0 then (total_r_len, num_entries, ring', m')
             else pull_loop ring' (data + unat r_len) (buf_len - r_len) strip_hdr (total_r_len + r_len) (num_entries + 1) m')
      else (total_r_len, num_entries, ring, m))"
  by pat_completeness auto
termination
  by (relation "measure (\<lambda>(ring, data, buf_len, strip, total, num, m). unat buf_len)")
    (auto dest!: pull_single_len [OF sym] simp: sub_shrinks)

declare pull_loop.simps [simp del]

definition dhd_dbg_ring_pull ::
    "dhd_dbg_ring \<Rightarrow> ptr \<Rightarrow> u32 \<Rightarrow> bool \<Rightarrow> nat \<Rightarrow> mem \<Rightarrow> u32 \<times> nat \<times> dhd_dbg_ring \<times> mem" where
  "dhd_dbg_ring_pull ring data buf_len strip_hdr num_entries m =
     (if data = NULL then (0, num_entries, ring, m)
      else
        (let ring = DHD_DBG_RING_UNLOCK (DHD_DBG_RING_LOCK ring)
         in if \<not> pull_inactive ring \<and> state ring \<noteq> RING_ACTIVE then (0, num_entries, ring, m)
            else pull_loop ring data buf_len strip_hdr 0 num_entries m))"

end
