(* ===== verification/Dbg_Ring_Rep.thy ===== *)
theory Dbg_Ring_Rep
  imports Dbg_Ring
begin

text \<open>
  What the debug rings keep: \<open>rep\<close> relates the ring structure and the memory to the list of records it holds. Three
  layouts occur: one run of records, a run at the end followed by one at the start (with padding between), and a run
  in a ring whose padding flag is out of date, in which the records already read are still in place.
\<close>

section \<open>Records in memory\<close>

definition wf_entry :: "u8 list \<Rightarrow> bool" where
  "wf_entry e \<longleftrightarrow> 12 \<le> length e \<and> unat (e ! 0) + 256 * unat (e ! 1) + 12 = length e"

definition len :: "u8 list list \<Rightarrow> nat" where
  "len es = length (concat es)"

definition region :: "mem \<Rightarrow> ptr \<Rightarrow> u8 list list \<Rightarrow> bool" where
  "region m a es \<longleftrightarrow> bytes m a (len es) = concat es \<and> (\<forall>e\<in>set es. wf_entry e)"

lemma len_simps [simp]: "len [] = 0" "len (e # es) = length e + len es" "len (es @ fs) = len es + len fs"
  by (simp_all add: len_def)

lemma region_Nil [simp]: "region m a []"
  by (simp add: region_def)

lemma region_append: "region m a (es @ fs) \<longleftrightarrow> region m a es \<and> region m (a + len es) fs"
  by (auto simp: region_def bytes_add len_def)

lemma region_Cons: "region m a (e # es) \<longleftrightarrow> wf_entry e \<and> bytes m a (length e) = e \<and> region m (a + length e) es"
  by (auto simp: region_def bytes_add len_def)

lemma region_cong: "(\<And>x. a \<le> x \<Longrightarrow> x < a + len es \<Longrightarrow> m' x = m x) \<Longrightarrow> region m' a es = region m a es"
  unfolding region_def using bytes_cong [of "len es" m' a m] by simp

lemma region_wf: "region m a es \<Longrightarrow> e \<in> set es \<Longrightarrow> wf_entry e"
  by (simp add: region_def)

lemma len_pos: "region m a es \<Longrightarrow> es \<noteq> [] \<Longrightarrow> 12 \<le> len es"
  by (cases es) (auto simp: region_Cons wf_entry_def)

lemma len_0: "region m a es \<Longrightarrow> len es = 0 \<longleftrightarrow> es = []"
  using len_pos [of m a es] by (cases "es = []") simp_all

lemma ENTRY_LENGTH_bytes: "wf_entry e \<Longrightarrow> bytes m a (length e) = e \<Longrightarrow> ENTRY_LENGTH m a = length e"
proof -
  assume w: "wf_entry e" and b: "bytes m a (length e) = e"
  have "0 < length e" "1 < length e" using w unfolding wf_entry_def by linarith+
  then have "bytes m a (length e) ! 0 = m (a + 0)" "bytes m a (length e) ! 1 = m (a + 1)" by (simp_all only: nth_bytes)
  then show ?thesis using w unfolding b by (simp add: wf_entry_def ENTRY_LENGTH_def ltoh16_ua_def DBG_RING_ENTRY_SIZE_def)
qed

lemma ENTRY_LENGTH_head: "region m a (e # es) \<Longrightarrow> ENTRY_LENGTH m a = length e"
  by (simp add: region_Cons ENTRY_LENGTH_bytes)

lemma wf_entry_len: "wf_entry e \<Longrightarrow> 12 \<le> length e \<and> length e < 65548"
proof -
  assume "wf_entry e"
  moreover have "unat (e ! 0) \<le> 255" "unat (e ! 1) \<le> 255" by simp_all
  ultimately show ?thesis unfolding wf_entry_def by linarith
qed

section \<open>Layouts\<close>

abbreviation R :: "dhd_dbg_ring \<Rightarrow> nat" where "R ring \<equiv> unat (rp ring)"
abbreviation W :: "dhd_dbg_ring \<Rightarrow> nat" where "W ring \<equiv> unat (wp ring)"
abbreviation S :: "dhd_dbg_ring \<Rightarrow> nat" where "S ring \<equiv> unat (ring_size ring)"
abbreviation P :: "dhd_dbg_ring \<Rightarrow> nat" where "P ring \<equiv> unat (rem_len ring)"

definition geometry :: "dhd_dbg_ring \<Rightarrow> bool" where
  "geometry ring \<longleftrightarrow> ring_buf ring \<noteq> NULL \<and> ring_buf ring + S ring < 2 ^ 64 \<and> 0 < S ring \<and> S ring < 2 ^ 31"

text \<open>\<open>rep ring m old es\<close>: the ring holds the records \<open>es\<close>. \<open>old\<close> is \<open>None\<close> in a ring whose padding flag is right; with
  a flag that is out of date it is the list of the records in front of \<open>rp\<close>, which have been read.\<close>

definition plain :: "dhd_dbg_ring \<Rightarrow> mem \<Rightarrow> u8 list list \<Rightarrow> bool" where
  "plain ring m es \<longleftrightarrow> \<not> tail_padded ring \<and> W ring < S ring \<and> W ring = R ring + len es \<and>
     region m (ring_buf ring + R ring) es"

definition stale :: "dhd_dbg_ring \<Rightarrow> mem \<Rightarrow> u8 list list \<Rightarrow> u8 list list \<Rightarrow> bool" where
  "stale ring m old es \<longleftrightarrow> tail_padded ring \<and> 0 < P ring \<and> P ring \<le> S ring \<and> W ring < S ring \<and> R ring = len old \<and>
     W ring = R ring + len es \<and> region m (ring_buf ring) (old @ es)"

definition wrapped :: "dhd_dbg_ring \<Rightarrow> mem \<Rightarrow> u8 list list \<Rightarrow> u8 list list \<Rightarrow> bool" where
  "wrapped ring m es1 es2 \<longleftrightarrow> tail_padded ring \<and> 0 < P ring \<and> W ring < R ring \<and> W ring = len es2 \<and> es1 \<noteq> [] \<and>
     R ring + len es1 + P ring = S ring \<and> region m (ring_buf ring + R ring) es1 \<and> region m (ring_buf ring) es2"

definition rep :: "dhd_dbg_ring \<Rightarrow> mem \<Rightarrow> u8 list list option \<Rightarrow> u8 list list \<Rightarrow> bool" where
  "rep ring m old es \<longleftrightarrow> geometry ring \<and>
     (case old of
        Some o' \<Rightarrow> stale ring m o' es
      | None \<Rightarrow> plain ring m es \<or> (\<exists>es1 es2. es = es1 @ es2 \<and> wrapped ring m es1 es2))"

text \<open>What no operation on the records changes.\<close>

definition kept :: "dhd_dbg_ring \<Rightarrow> dhd_dbg_ring \<Rightarrow> bool" where
  "kept ring ring' \<longleftrightarrow> ring_size ring' = ring_size ring \<and> ring_buf ring' = ring_buf ring \<and> lock ring' = lock ring \<and>
     state ring' = state ring \<and> pull_inactive ring' = pull_inactive ring"

lemma kept_refl [simp]: "kept ring ring"
  by (simp add: kept_def)

lemma kept_trans: "kept a b \<Longrightarrow> kept b c \<Longrightarrow> kept a c"
  by (simp add: kept_def)

text \<open>Equality of memory outside the ring's buffer.\<close>

definition outside :: "dhd_dbg_ring \<Rightarrow> mem \<Rightarrow> mem \<Rightarrow> bool" where
  "outside ring m m' \<longleftrightarrow> (\<forall>x. x < ring_buf ring \<or> ring_buf ring + S ring \<le> x \<longrightarrow> m' x = m x)"

lemma outside_refl [simp]: "outside ring m m"
  by (simp add: outside_def)

lemma outside_trans: "outside ring m m' \<Longrightarrow> kept ring ring' \<Longrightarrow> outside ring' m' m'' \<Longrightarrow> outside ring m m''"
  by (simp add: outside_def kept_def)

section \<open>Space\<close>

lemma unat_minus: "b \<le> (a :: u32) \<Longrightarrow> unat (a - b) = unat a - unat b"
  by (simp add: unat_sub word_le_nat_alt)

lemma unat_plus: "unat a + unat b < 2 ^ 32 \<Longrightarrow> unat (a + b :: u32) = unat a + unat b"
  by (simp add: unat_word_ariths)

lemma avail_linear:
  assumes "R ring \<le> W ring" and "W ring < S ring"
  shows "unat (DBG_RING_CHECK_WRITE_SPACE (rp ring) (wp ring) (ring_size ring)) = S ring - W ring"
proof -
  have le: "rp ring \<le> wp ring" "wp ring \<le> ring_size ring" "wp ring - rp ring \<le> ring_size ring"
    using assms by (simp_all add: word_le_nat_alt unat_minus)
  then have "unat (ring_size ring - (wp ring - rp ring)) = S ring - (W ring - R ring)" "unat (ring_size ring - wp ring) = S ring - W ring"
    by (simp_all add: unat_minus)
  then show ?thesis using le assms
    by (auto simp: DBG_RING_CHECK_WRITE_SPACE_def DBG_RING_WRITE_SPACE_AVAIL_def TXACTIVESZ_def
        DBG_RING_WRITE_SPACE_AVAIL_CONT_def min_def word_le_nat_alt)
qed

lemma avail_wrapped:
  assumes "W ring < R ring" and "R ring < S ring"
  shows "unat (DBG_RING_CHECK_WRITE_SPACE (rp ring) (wp ring) (ring_size ring)) = R ring - W ring"
proof -
  have le: "\<not> rp ring \<le> wp ring" "wp ring \<le> rp ring" "rp ring \<le> ring_size ring"
    using assms by (simp_all add: word_le_nat_alt)
  have "ring_size ring - (ring_size ring - rp ring + wp ring) = rp ring - wp ring" by simp
  then show ?thesis using le assms
    by (simp add: DBG_RING_CHECK_WRITE_SPACE_def DBG_RING_WRITE_SPACE_AVAIL_def TXACTIVESZ_def
        DBG_RING_WRITE_SPACE_AVAIL_CONT_def unat_minus)
qed

section \<open>Claiming space\<close>

text \<open>Reading on: the record at the front is \<open>e\<close>, and \<open>rp\<close> moves behind it.\<close>

lemma front_len:
  assumes "geometry ring" and "region m (ring_buf ring + R ring) (e # es)" and "R ring + len (e # es) \<le> S ring"
  shows "ENTRY_LENGTH m (ring_buf ring + R ring) = length e" and "unat (rp ring + of_nat (length e)) = R ring + length e"
    and "12 \<le> length e"
proof -
  show l: "ENTRY_LENGTH m (ring_buf ring + R ring) = length e" using ENTRY_LENGTH_head [OF assms(2)] .
  have "R ring + length e < 2 ^ 31" using assms(1,3) by (simp add: geometry_def)
  then show "unat (rp ring + of_nat (length e)) = R ring + length e"
    by (subst unat_plus) (simp_all add: unat_of_nat_u32)
  show "12 \<le> length e" using assms(2) by (simp add: region_Cons wf_entry_def)
qed

lemma drop_step:
  assumes g: "geometry ring" and w: "wrapped ring m (e # es1) es2"
  shows "\<exists>ring'. drop_entry ring m = Some ring' \<and> kept ring ring' \<and> rep ring' m None (es1 @ es2)"
proof -
  have d: "tail_padded ring" "0 < P ring" "W ring < R ring" "W ring = len es2" "R ring + len (e # es1) + P ring = S ring"
      "region m (ring_buf ring + R ring) (e # es1)" "region m (ring_buf ring) es2"
    using w by (simp_all add: wrapped_def)
  have "R ring + len (e # es1) \<le> S ring" using d(5) by simp
  note f = front_len [OF g d(6) this]
  let ?r = "ring\<lparr>rp := rp ring + of_nat (length e)\<rparr>"
  have s: "unat (rp ?r + rem_len ring) = R ring + length e + P ring"
    using f(2) d(5) g by (subst unat_plus) (simp_all add: geometry_def)
  have pad: "rp ?r + rem_len ring = ring_size ring \<longleftrightarrow> es1 = []"
    using s d(5) len_pos [of m "ring_buf ring + R ring + length e" es1] d(6)
    by (cases "es1 = []") (simp_all add: word_unat_eq_iff region_Cons)
  have n: "\<not> S ring \<le> R ring + length e" using d(2,5) by simp
  show ?thesis
  proof (cases "es1 = []")
    case True
    then have "drop_entry ring m = Some (count_read (length e) (?r\<lparr>rp := 0, tail_padded := False, rem_len := 0\<rparr>))"
      using pad n d(1) f(1) by (simp add: drop_entry_def Let_def)
    then show ?thesis using True g d by (auto simp: kept_def rep_def geometry_def plain_def count_read_def)
  next
    case False
    then have "drop_entry ring m = Some (count_read (length e) ?r)"
      using pad n d(1) f(1) by (simp add: drop_entry_def Let_def)
    moreover have "wrapped (count_read (length e) ?r) m es1 es2"
      using False d f(2,3) by (auto simp: wrapped_def count_read_def region_Cons add.assoc)
    ultimately show ?thesis using g by (auto simp: kept_def rep_def geometry_def count_read_def)
  qed
qed

text \<open>A ring with one run of records, with or without an out of date flag.\<close>

definition linear :: "dhd_dbg_ring \<Rightarrow> mem \<Rightarrow> u8 list list \<Rightarrow> bool" where
  "linear ring m es \<longleftrightarrow> W ring < S ring \<and> W ring = R ring + len es \<and> region m (ring_buf ring + R ring) es"

lemma linear_stale: "stale ring m old es \<Longrightarrow> linear ring m es"
  by (auto simp: stale_def linear_def region_append)

lemma linear_plain: "plain ring m es \<Longrightarrow> linear ring m es"
  by (auto simp: plain_def linear_def)

lemma pad_mem:
  assumes "geometry ring" and "W ring < S ring"
  shows "outside ring m (memset (ring_buf ring + W ring) 0 (unat (ring_size ring - wp ring)) m)"
    and "a + len es \<le> ring_buf ring + W ring \<Longrightarrow>
      region (memset (ring_buf ring + W ring) 0 (unat (ring_size ring - wp ring)) m) a es = region m a es"
proof -
  have "unat (ring_size ring - wp ring) = S ring - W ring" using assms(2) by (simp add: unat_minus word_le_nat_alt)
  then show "outside ring m (memset (ring_buf ring + W ring) 0 (unat (ring_size ring - wp ring)) m)"
    and "a + len es \<le> ring_buf ring + W ring \<Longrightarrow>
      region (memset (ring_buf ring + W ring) 0 (unat (ring_size ring - wp ring)) m) a es = region m a es"
    using assms(2) by (auto simp: outside_def mem_simps intro!: region_cong)
qed

lemma pad_step:
  assumes g: "geometry ring" and l: "linear ring m es" and w: "0 < W ring" and p: "pad_tail ring m = (ring', m')"
  shows "kept ring ring' \<and> outside ring m m' \<and> W ring' = 0 \<and>
    (\<exists>k old. (old = None \<or> old = Some []) \<and> rep ring' m' old (drop k es))"
proof -
  let ?m = "memset (ring_buf ring + W ring) 0 (unat (ring_size ring - wp ring)) m"
  have d: "W ring < S ring" "W ring = R ring + len es" "region m (ring_buf ring + R ring) es"
    using l by (simp_all add: linear_def)
  have m': "m' = ?m" using p by (simp add: pad_tail_def Let_def split: if_splits)
  note out = pad_mem(1) [OF g d(1), of m]
  have reg: "region ?m (ring_buf ring + R ring) es" using pad_mem(2) [OF g d(1), of "ring_buf ring + R ring" es m] d by simp
  have rem: "unat (ring_size ring - wp ring) = S ring - W ring" using d(1) by (simp add: unat_minus word_le_nat_alt)
  show ?thesis
  proof (cases "R ring = 0")
    case False
    then have rp: "rp ring \<noteq> 0" by (simp add: unat_eq_0)
    show ?thesis
    proof (cases "rp ring = wp ring")
      case True
      have "es = []" using len_pos [OF d(3)] d(2) True by (cases "es = []") simp_all
      moreover have "ring' = ring\<lparr>tail_padded := True, rem_len := ring_size ring - wp ring, rp := 0, wp := 0\<rparr>"
        using p rp True by (simp add: pad_tail_def Let_def)
      ultimately have "rep ring' m' (Some []) (drop 0 es)" "kept ring ring'" "W ring' = 0"
        using g rem d(1) by (simp_all add: kept_def rep_def geometry_def stale_def)
      then show ?thesis using out m' by blast
    next
      case neq: False
      then have e: "ring' = ring\<lparr>tail_padded := True, rem_len := ring_size ring - wp ring, wp := 0\<rparr>"
        using p rp by (auto simp: pad_tail_def Let_def)
      have "es \<noteq> []" using neq d(2) by (auto simp: word_unat_eq_iff)
      then have "wrapped ring' m' es []" unfolding e m' using d reg rem False by (auto simp: wrapped_def)
      then have "rep ring' m' None (drop 0 es)" "kept ring ring'" "W ring' = 0"
        using g unfolding e by (auto simp: kept_def rep_def geometry_def)
      then show ?thesis using out m' by blast
    qed
  next
    case True
    then have rp: "rp ring = 0" by (simp add: unat_eq_0)
    obtain e es' where es: "es = e # es'" using w d(2) True by (cases es) auto
    have "R ring + len (e # es') \<le> S ring" using d es by simp
    note f = front_len [OF g reg [unfolded es] this]
    let ?r = "ring\<lparr>tail_padded := True, rem_len := ring_size ring - wp ring\<rparr>"
    have n: "unat (of_nat (length e) :: u32) = length e" using f(2) rp by simp
    have ring': "ring' = (if es' = [] then (count_read (length e) ?r)\<lparr>rp := 0, wp := 0\<rparr>
        else (count_read (length e) ?r)\<lparr>rp := of_nat (length e), wp := 0\<rparr>)"
    proof -
      have "of_nat (length e) = wp ring \<longleftrightarrow> es' = []"
        using n d(2) True es len_0 [of ?m "ring_buf ring + R ring + length e" es'] reg
        by (auto simp: word_unat_eq_iff region_Cons)
      then show ?thesis using p rp f(1) True by (auto simp: pad_tail_def Let_def count_read_def)
    qed
    show ?thesis
    proof (cases "es' = []")
      case True
      then have "rep ring' m' (Some []) (drop 1 es)" "kept ring ring'" "W ring' = 0"
        unfolding ring' es using g rem d(1) by (simp_all add: kept_def rep_def geometry_def stale_def count_read_def)
      then show ?thesis using out m' by blast
    next
      case False
      have "wrapped ring' m' es' []"
        unfolding ring' m' using False reg es d rem n True f(3) by (auto simp: wrapped_def count_read_def region_Cons)
      then have "rep ring' m' None (drop 1 es)" "kept ring ring'" "W ring' = 0"
        using g False unfolding ring' es by (auto simp: kept_def rep_def geometry_def count_read_def)
      then show ?thesis using out m' by blast
    qed
  qed
qed

lemma rep_cases:
  assumes "rep ring m old es"
  obtains (linear) "linear ring m es" and "R ring \<le> W ring" and "W ring < S ring"
  | (wrapped) e es1 es2 where "es = e # es1 @ es2" and "old = None" and "wrapped ring m (e # es1) es2"
      and "W ring < R ring" and "R ring < S ring"
proof (cases "linear ring m es")
  case True
  then show ?thesis using linear by (simp add: linear_def)
next
  case False
  then obtain es1 es2 where "es = es1 @ es2" "old = None" and w: "wrapped ring m es1 es2"
    using assms linear_stale linear_plain by (auto simp: rep_def split: option.splits)
  moreover from w obtain e es' where "es1 = e # es'" by (cases es1) (auto simp: wrapped_def)
  moreover have "W ring < R ring" "R ring < S ring" using w by (auto simp: wrapped_def)
  ultimately show ?thesis using wrapped by auto
qed

lemma rep_geometry: "rep ring m old es \<Longrightarrow> geometry ring"
  by (simp add: rep_def)

definition work :: "dhd_dbg_ring \<Rightarrow> u8 list list \<Rightarrow> nat" where
  "work ring es = 2 * length es + (if R ring \<le> W ring \<and> 0 < W ring then 1 else 0)"

definition claimed :: "u32 \<Rightarrow> dhd_dbg_ring \<Rightarrow> mem \<Rightarrow> u8 list list option \<Rightarrow> u8 list list \<Rightarrow> bool" where
  "claimed w ring m old es \<longleftrightarrow> (\<exists>av ring' m' old' k. claim_space w ring m = Some (Inr av, ring', m') \<and>
     rep ring' m' old' (drop k es) \<and> old' \<in> {old, None, Some []} \<and> kept ring ring' \<and> outside ring m m' \<and>
     w < av \<and> av = DBG_RING_CHECK_WRITE_SPACE (rp ring') (wp ring') (ring_size ring'))"

lemma claimed_step:
  assumes "claimed w ring' m' old' (drop k es)" and "claim_space w ring m = claim_space w ring' m'"
    and "old' \<in> {old, None, Some []}" and "kept ring ring'" and "outside ring m m'"
  shows "claimed w ring m old es"
proof -
  obtain av r2 m2 old2 j where c: "claim_space w ring' m' = Some (Inr av, r2, m2)" "rep r2 m2 old2 (drop j (drop k es))"
    "old2 \<in> {old', None, Some []}" "kept ring' r2" "outside ring' m' m2" "w < av"
    "av = DBG_RING_CHECK_WRITE_SPACE (rp r2) (wp r2) (ring_size r2)"
    using assms(1) unfolding claimed_def by blast
  have "old2 \<in> {old, None, Some []}" using c(3) assms(3) by auto
  moreover have "rep r2 m2 old2 (drop (j + k) es)" using c(2) by simp
  ultimately show ?thesis unfolding claimed_def
    using c(1,6,7) assms(2) kept_trans [OF assms(4) c(4)] outside_trans [OF assms(5,4) c(5)] by metis
qed

lemma claim_space_ok:
  "rep ring m old es \<Longrightarrow> unat w < S ring \<Longrightarrow> claimed w ring m old es"
proof (induction "work ring es" arbitrary: ring m old es rule: less_induct)
  case less
  let ?av = "DBG_RING_CHECK_WRITE_SPACE (rp ring) (wp ring) (ring_size ring)"
  note g = rep_geometry [OF less.prems(1)]
  show ?case
  proof (cases "w < ?av")
    case True
    then have "\<not> ?av \<le> w" by simp
    then have "claim_space w ring m = Some (Inr ?av, ring, m)" by (subst claim_space.simps) (simp only: Let_def if_False)
    moreover have "rep ring m old (drop 0 es)" using less.prems(1) by simp
    ultimately show ?thesis unfolding claimed_def using True kept_refl outside_refl by blast
  next
    case False
    from less.prems(1) show ?thesis
    proof (cases rule: rep_cases)
      case linear
      have "unat ?av = S ring - W ring" using linear by (intro avail_linear) simp_all
      then have W: "0 < W ring" using False less.prems(2) by (simp add: word_less_nat_alt)
      obtain ring' m' where p: "pad_tail ring m = (ring', m')" by fastforce
      from pad_step [OF g linear(1) W p] obtain k old' where s: "kept ring ring'" "outside ring m m'" "W ring' = 0"
        "old' = None \<or> old' = Some []" "rep ring' m' old' (drop k es)" by blast
      have "work ring' (drop k es) < work ring es" using s(3) W linear(2) by (simp add: work_def)
      moreover have "unat w < S ring'" using s(1) less.prems(2) by (simp add: kept_def)
      ultimately have "claimed w ring' m' old' (drop k es)" using less.hyps s(5) by blast
      moreover have "claim_space w ring m = claim_space w ring' m'"
        using False linear(2) p by (subst claim_space.simps) (simp add: Let_def not_less word_le_nat_alt)
      ultimately show ?thesis using claimed_step s(1,2,4) by blast
    next
      case (wrapped e es1 es2)
      from drop_step [OF g wrapped(3)] obtain ring' where s: "drop_entry ring m = Some ring'" "kept ring ring'"
        "rep ring' m None (drop 1 es)" using wrapped(1) by auto
      have "work ring' (drop 1 es) < work ring es" using wrapped(1) by (simp add: work_def)
      moreover have "unat w < S ring'" using s(2) less.prems(2) by (simp add: kept_def)
      ultimately have "claimed w ring' m None (drop 1 es)" using less.hyps s(3) by blast
      moreover have "claim_space w ring m = claim_space w ring' m"
        using False wrapped(4) s(1) by (subst claim_space.simps) (simp add: Let_def not_less word_le_nat_alt)
      ultimately show ?thesis using claimed_step [OF _ _ _ s(2) outside_refl] by blast
    qed
  qed
qed

section \<open>Writing a record\<close>

definition apart :: "dhd_dbg_ring \<Rightarrow> ptr \<Rightarrow> nat \<Rightarrow> bool" where
  "apart ring a n \<longleftrightarrow> a \<noteq> NULL \<and> a + n < 2 ^ 64 \<and> (a + n \<le> ring_buf ring \<or> ring_buf ring + S ring \<le> a)"

text \<open>\<open>put e\<close>: the record is in place at \<open>wp\<close>, and nothing else has changed.\<close>

definition put :: "dhd_dbg_ring \<Rightarrow> u8 list \<Rightarrow> mem \<Rightarrow> mem \<Rightarrow> bool" where
  "put ring e m m' \<longleftrightarrow> bytes m' (ring_buf ring + W ring) (length e) = e \<and>
     (\<forall>x. x < ring_buf ring + W ring \<or> ring_buf ring + W ring + length e \<le> x \<longrightarrow> m' x = m x)"

lemma put_region: "put ring e m m' \<Longrightarrow> a + len es \<le> ring_buf ring + W ring \<or> ring_buf ring + W ring + length e \<le> a \<Longrightarrow>
    region m' a es = region m a es"
  by (rule region_cong) (auto simp: put_def)

lemma put_snoc:
  assumes "put ring e m m'" and "wf_entry e" and "region m a es" and "a + len es = ring_buf ring + W ring"
  shows "region m' a (es @ [e])"
  using assms put_region [OF assms(1), of a es] by (simp add: region_append region_Cons put_def)

lemma room:
  assumes "rep ring m old es" and "av = DBG_RING_CHECK_WRITE_SPACE (rp ring) (wp ring) (ring_size ring)"
  shows "W ring + unat av \<le> S ring" and "W ring < R ring \<Longrightarrow> W ring + unat av \<le> R ring"
  using assms(1) by (cases rule: rep_cases; simp add: assms(2) avail_linear avail_wrapped)+

lemma rep_put:
  assumes r: "rep ring m old es" and p: "put ring e m m'" and e: "wf_entry e"
    and w: "W ring + length e < S ring" "W ring < R ring \<Longrightarrow> W ring + length e < R ring"
    and u: "unat wp' = W ring + length e"
  shows "rep (ring\<lparr>wp := wp'\<rparr>) m' old (es @ [e])"
proof (cases old)
  case (Some o')
  then have "stale ring m o' es" using r by (simp add: rep_def)
  moreover from this have "region m' (ring_buf ring) ((o' @ es) @ [e])"
    by (intro put_snoc [OF p e]) (auto simp: stale_def)
  ultimately show ?thesis using r u w Some by (auto simp: rep_def geometry_def stale_def)
next
  case None
  then consider "plain ring m es" | es1 es2 where "es = es1 @ es2" "wrapped ring m es1 es2"
    using r by (auto simp: rep_def)
  then show ?thesis
  proof cases
    case 1
    then have "region m' (ring_buf ring + R ring) (es @ [e])"
      by (intro put_snoc [OF p e]) (auto simp: plain_def)
    then show ?thesis using 1 r u w None by (auto simp: rep_def geometry_def plain_def)
  next
    case 2
    then have d: "W ring < R ring" "W ring = len es2" "region m (ring_buf ring) es2" "region m (ring_buf ring + R ring) es1"
      by (simp_all add: wrapped_def)
    have "region m' (ring_buf ring) (es2 @ [e])" using d by (intro put_snoc [OF p e]) auto
    moreover have "region m' (ring_buf ring + R ring) es1"
      using put_region [OF p, of "ring_buf ring + R ring" es1] d w(2) by simp
    ultimately have "wrapped (ring\<lparr>wp := wp'\<rparr>) m' es1 (es2 @ [e])" using 2(2) u w(2) d by (simp add: wrapped_def)
    then show ?thesis using r None 2(1) by (auto simp: rep_def geometry_def)
  qed
qed

lemma store16_same:
  assumes "m' b = m a" and "m' (b + 1) = m (a + 1)"
  shows "htol16_ua_store (of_nat (ltoh16_ua m a)) b m' = m'"
proof -
  let ?n = "ltoh16_ua m a"
  have u: "unat (of_nat ?n :: u16) = ?n" using ltoh16_ua_less by (simp add: unat_of_nat_u16)
  have lo: "ucast (of_nat ?n :: u16) = m a" by (rule iffD2 [OF word_unat_eq_iff]) (simp add: word_conv u, simp add: ltoh16_ua_def)
  have hi: "ucast (drop_bit 8 (of_nat ?n :: u16)) = m (a + 1)"
    by (rule iffD2 [OF word_unat_eq_iff]) (simp add: word_conv u, simp add: ltoh16_ua_def)
  show ?thesis unfolding htol16_ua_store_def lo hi using assms by (auto simp: fun_eq_iff)
qed

lemma memcpy_s_ok:
  assumes "apart ring src n" and "geometry ring" and "off + destsz \<le> S ring" and "n \<le> destsz"
  shows "memcpy_s (ring_buf ring + off) destsz src n m = (BCME_OK, memcpy (ring_buf ring + off) src n m)"
proof -
  have "copy_ok (ring_buf ring + off) destsz src n \<and>
      (ring_buf ring + off + destsz \<le> src \<or> src + n \<le> ring_buf ring + off)"
    using assms by (auto simp: copy_ok_def dest_ok_def apart_def geometry_def RSIZE_MAX_def)
  moreover have "ring_buf ring + off < 2 ^ 64" "destsz < 2 ^ 64" "src < 2 ^ 64" "n < 2 ^ 64"
    using assms by (auto simp: apart_def geometry_def)
  ultimately show ?thesis using memcpy_s_cases [of "ring_buf ring + off" destsz src n m] by simp
qed

definition record_at :: "mem \<Rightarrow> ptr \<Rightarrow> ptr \<Rightarrow> u8 list" where
  "record_at m hdr data = bytes m hdr 12 @ bytes m data (ltoh16_ua m hdr)"

lemma record_at_wf: "wf_entry (record_at m hdr data)" and length_record_at: "length (record_at m hdr data) = ENTRY_LENGTH m hdr"
  by (simp_all add: wf_entry_def record_at_def nth_append ltoh16_ua_def ENTRY_LENGTH_def DBG_RING_ENTRY_SIZE_def)

lemma write_entry_ok:
  assumes r: "rep ring m old es" and av: "av = DBG_RING_CHECK_WRITE_SPACE (rp ring) (wp ring) (ring_size ring)"
    and w: "w = of_nat (ENTRY_LENGTH m hdr)" "w < av"
    and h: "apart ring hdr 12" and d: "apart ring data (ltoh16_ua m hdr)"
  shows "\<exists>m'. write_entry w av ring hdr data m =
      (BCME_OK, DHD_DBG_RING_UNLOCK (count_written w (ring\<lparr>wp := wp ring + w\<rparr>)), m') \<and>
    put ring (record_at m hdr data) m m' \<and> unat w = ENTRY_LENGTH m hdr"
proof -
  let ?n = "ltoh16_ua m hdr" and ?a = "ring_buf ring + W ring"
  note g = rep_geometry [OF r]
  have n: "?n < 65536" by (rule ltoh16_ua_less)
  have uw: "unat w = ?n + 12"
    using n unfolding w(1) ENTRY_LENGTH_def DBG_RING_ENTRY_SIZE_def by (subst unat_of_nat_u32) simp_all
  have lt: "?n + 12 < unat av" using w(2) uw by (simp add: word_less_nat_alt)
  note rm = room(1) [OF r av]
  have av12: "unat (av - of_nat DBG_RING_ENTRY_SIZE) = unat av - 12"
    using lt by (subst unat_minus) (simp_all add: word_le_nat_alt DBG_RING_ENTRY_SIZE_def)
  have "unat (wp ring + w) = W ring + unat w" using rm lt uw g by (subst unat_plus) (simp_all add: geometry_def)
  then have bound: "\<not> ring_size ring \<le> wp ring + w" using rm lt uw by (simp add: word_le_nat_alt)
  let ?m1 = "memcpy ?a hdr 12 m"
  have c1: "memcpy_s ?a (unat av) hdr DBG_RING_ENTRY_SIZE m = (BCME_OK, ?m1)"
    using memcpy_s_ok [OF h g rm, of m] lt by (simp add: DBG_RING_ENTRY_SIZE_def)
  have m1: "?m1 x = m x" if "x < ?a \<or> ?a + 12 \<le> x" for x using that by (simp add: mem_simps)
  have hout: "hdr + 12 \<le> ?a \<or> ?a + 12 \<le> hdr" using h rm lt by (auto simp: apart_def)
  have dout: "data + ?n \<le> ?a \<or> ?a + 12 \<le> data" using d rm lt by (auto simp: apart_def)
  have l1: "ltoh16_ua ?m1 hdr = ?n" using hout m1 [of hdr] m1 [of "hdr + 1"] by (intro ltoh16_cong) auto
  have b1: "bytes ?m1 ?a 12 = bytes m hdr 12" by (rule bytes_memcpy)
  have eq: "?m1 ?a = m hdr" "?m1 (?a + 1) = m (hdr + 1)"
    using bytes_eqD [of m hdr 12 m] arg_cong [OF b1, of "\<lambda>xs. xs ! 0"] arg_cong [OF b1, of "\<lambda>xs. xs ! 1"] by simp_all
  have m2: "htol16_ua_store (of_nat (ltoh16_ua ?m1 hdr)) ?a ?m1 = ?m1"
    unfolding l1 by (rule store16_same) (rule eq)+
  have l2: "ltoh16_ua ?m1 ?a = ?n" using eq by (simp add: ltoh16_ua_def)
  let ?m3 = "memcpy (?a + 12) data ?n ?m1"
  have c2: "memcpy_s (?a + DBG_RING_ENTRY_SIZE) (unat (av - of_nat DBG_RING_ENTRY_SIZE)) data (ltoh16_ua ?m1 ?a) ?m1 = (BCME_OK, ?m3)"
    using memcpy_s_ok [OF d g, of "W ring + 12" "unat av - 12" ?m1] lt rm av12 l2
    by (simp add: DBG_RING_ENTRY_SIZE_def add.assoc)
  have "write_entry w av ring hdr data m = (BCME_OK, DHD_DBG_RING_UNLOCK (count_written w (ring\<lparr>wp := wp ring + w\<rparr>)), ?m3)"
    using bound c1 m2 c2 by (simp add: write_entry_def Let_def)
  moreover have "put ring (record_at m hdr data) m ?m3"
  proof -
    have "bytes ?m3 ?a 12 = bytes ?m1 ?a 12" by (rule bytes_cong) (simp add: mem_simps)
    moreover have "bytes ?m3 (?a + 12) ?n = bytes ?m1 data ?n" by (rule bytes_memcpy)
    moreover have "bytes ?m1 data ?n = bytes m data ?n" using dout by (intro bytes_cong m1) auto
    ultimately have "bytes ?m3 ?a (12 + ?n) = record_at m hdr data" unfolding bytes_add record_at_def b1 by simp
    moreover have "length (record_at m hdr data) = 12 + ?n" by (simp add: record_at_def)
    ultimately show ?thesis unfolding put_def by (auto simp: mem_simps)
  qed
  ultimately show ?thesis using uw by (auto simp: ENTRY_LENGTH_def DBG_RING_ENTRY_SIZE_def)
qed

lemma rep_lock [simp]: "rep (ring\<lparr>lock := l\<rparr>) m old es = rep ring m old es"
  by (simp add: rep_def geometry_def plain_def stale_def wrapped_def split: option.splits)

lemma rep_stat [simp]: "rep (ring\<lparr>stat := l\<rparr>) m old es = rep ring m old es"
  by (simp add: rep_def geometry_def plain_def stale_def wrapped_def split: option.splits)

lemma unlock_lock: "lock ring \<noteq> Some True \<Longrightarrow> map_option (\<lambda>_. False) (lock ring) = lock ring"
  by (cases "lock ring") auto

text \<open>A push after its space is claimed: the record is added, and only \<open>wp\<close> moves.\<close>

lemma push_claimed:
  assumes st: "state ring = RING_ACTIVE" and lk: "lock ring \<noteq> Some True"
    and h: "apart ring hdr 12" and d: "apart ring data (ltoh16_ua m hdr)" and s: "ENTRY_LENGTH m hdr < S ring"
    and c: "claim_space (of_nat (ENTRY_LENGTH m hdr)) (DHD_DBG_RING_LOCK ring) m = Some (Inr av, r1, m1)"
      "rep r1 m1 old' es'" "kept (DHD_DBG_RING_LOCK ring) r1" "outside (DHD_DBG_RING_LOCK ring) m m1"
      "of_nat (ENTRY_LENGTH m hdr) < av" "av = DBG_RING_CHECK_WRITE_SPACE (rp r1) (wp r1) (ring_size r1)"
  shows "\<exists>ring' m'. dhd_dbg_ring_push False ring hdr data m = Some (BCME_OK, ring', m') \<and>
    rep ring' m' old' (es' @ [record_at m hdr data]) \<and> kept ring ring' \<and> outside ring m m' \<and>
    rp ring' = rp r1 \<and> rem_len ring' = rem_len r1"
proof -
  let ?w = "of_nat (ENTRY_LENGTH m hdr) :: u32"
  have uw: "unat ?w = ENTRY_LENGTH m hdr" using s by (intro unat_of_nat_u32) (use unat_u32_less [of "ring_size ring"] in linarith)
  have k1: "ring_size r1 = ring_size ring" "ring_buf r1 = ring_buf ring" using c(3) by (simp_all add: kept_def DHD_DBG_RING_LOCK_def)
  have same: "m1 x = m x" if "x < ring_buf ring \<or> ring_buf ring + S ring \<le> x" for x
    using c(4) that by (auto simp: outside_def DHD_DBG_RING_LOCK_def)
  have l1: "ltoh16_ua m1 hdr = ltoh16_ua m hdr" using h by (intro ltoh16_cong same) (auto simp: apart_def)
  have b: "bytes m1 hdr 12 = bytes m hdr 12" "bytes m1 data (ltoh16_ua m hdr) = bytes m data (ltoh16_ua m hdr)"
    using h d by (intro bytes_cong same; force simp: apart_def)+
  have rec: "record_at m1 hdr data = record_at m hdr data" and len1: "ENTRY_LENGTH m1 hdr = ENTRY_LENGTH m hdr"
    using l1 b by (simp_all add: record_at_def ENTRY_LENGTH_def)
  have ap: "apart r1 hdr 12" "apart r1 data (ltoh16_ua m1 hdr)" using h d k1 l1 by (simp_all add: apart_def)
  obtain m2 where wr: "write_entry ?w av r1 hdr data m1 =
      (BCME_OK, DHD_DBG_RING_UNLOCK (count_written ?w (r1\<lparr>wp := wp r1 + ?w\<rparr>)), m2)" "put r1 (record_at m hdr data) m1 m2"
    using write_entry_ok [OF c(2,6) _ c(5) ap] len1 rec by auto
  note rm = room [OF c(2,6)]
  have lt: "ENTRY_LENGTH m hdr < unat av" using c(5) uw by (simp add: word_less_nat_alt)
  have up: "unat (wp r1 + ?w) = W r1 + length (record_at m hdr data)"
    using rm(1) lt uw rep_geometry [OF c(2)] by (subst unat_plus) (simp_all add: geometry_def length_record_at)
  have fit: "W r1 + length (record_at m hdr data) < S r1"
      "W r1 < R r1 \<Longrightarrow> W r1 + length (record_at m hdr data) < R r1"
    using rm lt by (simp_all add: length_record_at)
  let ?r = "DHD_DBG_RING_UNLOCK (count_written ?w (r1\<lparr>wp := wp r1 + ?w\<rparr>))"
  have "rep (r1\<lparr>wp := wp r1 + ?w\<rparr>) m2 old' (es' @ [record_at m hdr data])"
    by (rule rep_put [OF c(2) wr(2) record_at_wf fit up])
  then have "rep ?r m2 old' (es' @ [record_at m hdr data])" by (simp add: DHD_DBG_RING_UNLOCK_def count_written_def)
  moreover have "kept ring ?r" using c(3) unlock_lock [OF lk]
    by (simp add: kept_def DHD_DBG_RING_UNLOCK_def DHD_DBG_RING_LOCK_def count_written_def option.map_comp comp_def)
  moreover have "outside ring m m2" using same wr(2) fit(1) k1 by (auto simp: outside_def put_def)
  moreover have "dhd_dbg_ring_push False ring hdr data m = Some (BCME_OK, ?r, m2)"
    using c(1) wr(1) st h d s uw
    by (simp add: dhd_dbg_ring_push_def Let_def apart_def DHD_DBG_RING_LOCK_def word_less_nat_alt)
  moreover have "rp ?r = rp r1" "rem_len ?r = rem_len r1" by (simp_all add: DHD_DBG_RING_UNLOCK_def count_written_def)
  ultimately show ?thesis by blast
qed

text \<open>A push that finds the ring active and a record shorter than the ring keeps the youngest records and adds
  the new one.\<close>

lemma push_ok:
  assumes r: "rep ring m old es" and st: "state ring = RING_ACTIVE" and lk: "lock ring \<noteq> Some True"
    and h: "apart ring hdr 12" and d: "apart ring data (ltoh16_ua m hdr)" and s: "ENTRY_LENGTH m hdr < S ring"
  shows "\<exists>ring' m' old' k. dhd_dbg_ring_push False ring hdr data m = Some (BCME_OK, ring', m') \<and>
    rep ring' m' old' (drop k es @ [record_at m hdr data]) \<and> old' \<in> {old, None, Some []} \<and> kept ring ring' \<and> outside ring m m'"
proof -
  let ?r = "DHD_DBG_RING_LOCK ring" and ?w = "of_nat (ENTRY_LENGTH m hdr) :: u32"
  have r': "rep ?r m old es" using r by (simp add: DHD_DBG_RING_LOCK_def)
  have "unat ?w = ENTRY_LENGTH m hdr" using s by (intro unat_of_nat_u32) (use unat_u32_less [of "ring_size ring"] in linarith)
  then have "claimed ?w ?r m old es" using s by (intro claim_space_ok [OF r']) (simp add: DHD_DBG_RING_LOCK_def)
  then obtain av r1 m1 old' k where c: "claim_space ?w ?r m = Some (Inr av, r1, m1)" "rep r1 m1 old' (drop k es)"
    "old' \<in> {old, None, Some []}" "kept ?r r1" "outside ?r m m1" "?w < av"
    "av = DBG_RING_CHECK_WRITE_SPACE (rp r1) (wp r1) (ring_size r1)" unfolding claimed_def by blast
  from push_claimed [OF st lk h d s c(1,2,4-7)] c(3) show ?thesis by blast
qed

section \<open>Reading a record\<close>

text \<open>The two updates of \<open>rp\<close> in the reader.\<close>

definition advance :: "nat \<Rightarrow> dhd_dbg_ring \<Rightarrow> dhd_dbg_ring" where
  "advance n ring =
     (let ring = ring\<lparr>rp := rp ring + of_nat n\<rparr>
      in if rp ring \<noteq> wp ring \<and> tail_padded ring \<and> rp ring + rem_len ring \<ge> ring_size ring
         then ring\<lparr>rp := 0, tail_padded := False, rem_len := 0\<rparr> else ring)"

text \<open>What remains after the record at the front is read. In a ring with an out of date flag the reader may go back
  to the start, to all records since the flag was set.\<close>

definition next_records :: "dhd_dbg_ring \<Rightarrow> u8 list list option \<times> u8 list list \<Rightarrow> (u8 list list option \<times> u8 list list) set" where
  "next_records ring st = (case st of
     (None, es) \<Rightarrow> {(None, tl es)}
   | (Some o', es) \<Rightarrow>
       {if tl es \<noteq> [] \<and> S ring \<le> R ring + length (hd es) + P ring then (None, o' @ es) else (Some (o' @ [hd es]), tl es)})"

lemma advance_ok:
  assumes r: "rep ring m old (e # es)"
  shows "\<exists>st\<in>next_records ring (old, e # es). rep (advance (length e) ring) m (fst st) (snd st)"
    and "R (advance (length e) ring) < S ring" and "kept ring (advance (length e) ring)"
proof -
  note g = rep_geometry [OF r]
  let ?r = "ring\<lparr>rp := rp ring + of_nat (length e)\<rparr>"
  show "kept ring (advance (length e) ring)" by (simp add: advance_def kept_def Let_def)
  have "(\<exists>st\<in>next_records ring (old, e # es). rep (advance (length e) ring) m (fst st) (snd st)) \<and> R (advance (length e) ring) < S ring"
    using r
  proof (cases rule: rep_cases)
    case linear
    then have d: "W ring = R ring + (length e + len es)" "region m (ring_buf ring + R ring) (e # es)"
      by (simp_all add: linear_def)
    have "R ring + len (e # es) \<le> S ring" using d(1) linear(3) by simp
    note f = front_len [OF g d(2) this]
    show ?thesis
    proof (cases old)
      case None
      then have np: "\<not> tail_padded ring" and pl: "plain ring m (e # es)"
        using r linear(2) by (auto simp: rep_def wrapped_def plain_def)
      have adv: "advance (length e) ring = ?r" using np by (simp add: advance_def Let_def)
      have "plain ?r m es" using pl f(2) by (simp add: plain_def region_Cons add.assoc)
      then show ?thesis using adv g None f(2) d(1) linear(3) by (simp add: next_records_def rep_def geometry_def)
    next
      case (Some o')
      then have st: "stale ring m o' (e # es)" using r by (simp add: rep_def)
      have "unat (rp ?r + rem_len ring) = R ring + length e + P ring"
        using f(2) st g linear(3) d(1) by (subst unat_plus) (simp_all add: geometry_def stale_def)
      then have jump: "rp ?r \<noteq> wp ring \<and> rp ?r + rem_len ring \<ge> ring_size ring \<longleftrightarrow>
          es \<noteq> [] \<and> S ring \<le> R ring + length e + P ring"
        using f(2) d len_0 [of m "ring_buf ring + R ring + length e" es] by (auto simp: word_unat_eq_iff word_le_nat_alt region_Cons)
      show ?thesis
      proof (cases "rp ?r \<noteq> wp ring \<and> rp ?r + rem_len ring \<ge> ring_size ring")
        case True
        then have adv: "advance (length e) ring = ?r\<lparr>rp := 0, tail_padded := False, rem_len := 0\<rparr>"
          using st by (simp add: advance_def Let_def stale_def)
        have "plain (advance (length e) ring) m (o' @ e # es)" using st unfolding adv by (simp add: plain_def stale_def)
        then show ?thesis using adv g Some True jump by (auto simp: next_records_def rep_def geometry_def)
      next
        case False
        then have adv: "advance (length e) ring = ?r" by (auto simp: advance_def Let_def)
        have "stale ?r m (o' @ [e]) es" using st f(2) by (simp add: stale_def)
        then show ?thesis using adv g Some f(2) d(1) linear(3) False jump
          by (auto simp: next_records_def rep_def geometry_def)
      qed
    qed
  next
    case (wrapped e' es1 es2)
    then have es: "e' = e" "es = es1 @ es2" and d: "tail_padded ring" "W ring < R ring" "W ring = len es2"
      "R ring + len (e # es1) + P ring = S ring" "0 < P ring" "region m (ring_buf ring + R ring) (e # es1)"
      "region m (ring_buf ring) es2"
      by (auto simp: wrapped_def)
    have "R ring + len (e # es1) \<le> S ring" using d(4) by simp
    note f = front_len [OF g d(6) this]
    have s: "unat (rp ?r + rem_len ring) = R ring + length e + P ring"
      using f(2) d(4) g by (subst unat_plus) (simp_all add: geometry_def)
    have pad: "ring_size ring \<le> rp ?r + rem_len ring \<longleftrightarrow> es1 = []"
      using s d(4) len_pos [of m "ring_buf ring + R ring + length e" es1] d(6)
      by (cases "es1 = []") (simp_all add: word_le_nat_alt region_Cons)
    have ne: "rp ?r \<noteq> wp ring" using f(2) d(2) by (auto simp: word_unat_eq_iff)
    show ?thesis
    proof (cases "es1 = []")
      case True
      then have "advance (length e) ring = ?r\<lparr>rp := 0, tail_padded := False, rem_len := 0\<rparr>"
        using pad ne d(1) by (simp add: advance_def Let_def)
      then show ?thesis using True es d g wrapped(2)
        by (simp add: next_records_def rep_def geometry_def plain_def)
    next
      case False
      then have adv: "advance (length e) ring = ?r" using pad by (simp add: advance_def Let_def)
      have "wrapped ?r m es1 es2" using False d f(2) by (auto simp: wrapped_def region_Cons add.assoc)
      then show ?thesis using adv g wrapped(2) es d(4,5) f(2)
        by (auto simp: next_records_def rep_def geometry_def)
    qed
  qed
  then show "\<exists>st\<in>next_records ring (old, e # es). rep (advance (length e) ring) m (fst st) (snd st)"
    and "R (advance (length e) ring) < S ring" by blast+
qed

definition payload :: "bool \<Rightarrow> u8 list \<Rightarrow> u8 list" where
  "payload strip e = (if strip then drop 12 e else e)"

definition readable :: "dhd_dbg_ring \<Rightarrow> bool" where
  "readable ring \<longleftrightarrow> pull_inactive ring \<or> state ring = RING_ACTIVE"

lemma rep_empty: "rep ring m old [] \<Longrightarrow> rp ring = wp ring"
  by (erule rep_cases) (auto simp: linear_def word_unat_eq_iff)

lemma rep_front:
  assumes r: "rep ring m old (e # es)"
  shows "wf_entry e" and "bytes m (ring_buf ring + R ring) (length e) = e" and "R ring + length e \<le> S ring"
    and "rp ring \<noteq> wp ring"
proof -
  have "\<exists>fs. region m (ring_buf ring + R ring) (e # fs) \<and> R ring + len (e # fs) \<le> S ring \<and> rp ring \<noteq> wp ring"
    using r
  proof (cases rule: rep_cases)
    case linear
    then have l: "region m (ring_buf ring + R ring) (e # es)" "W ring = R ring + len (e # es)" by (simp_all add: linear_def)
    have "12 \<le> len (e # es)" by (rule len_pos [OF l(1)]) simp
    then have "R ring < W ring" using l(2) by linarith
    then show ?thesis using l linear(3) by (auto simp: word_unat_eq_iff intro!: exI [of _ es])
  next
    case (wrapped e' es1 es2)
    then show ?thesis by (auto simp: wrapped_def word_unat_eq_iff intro!: exI [of _ es1])
  qed
  then show "wf_entry e" and "bytes m (ring_buf ring + R ring) (length e) = e" and "R ring + length e \<le> S ring"
    and "rp ring \<noteq> wp ring" by (auto simp: region_Cons)
qed

lemma rep_frame:
  assumes r: "rep ring m old es" and eq: "\<And>x. ring_buf ring \<le> x \<Longrightarrow> x < ring_buf ring + S ring \<Longrightarrow> m' x = m x"
  shows "rep ring m' old es"
proof -
  have reg: "region m' a fs = region m a fs" if "ring_buf ring \<le> a" "a + len fs \<le> ring_buf ring + S ring" for a fs
    using that eq by (intro region_cong) auto
  show ?thesis
  proof (cases old)
    case (Some o')
    then have "stale ring m o' es" using r by (simp add: rep_def)
    then have "stale ring m' o' es" using reg [of "ring_buf ring" "o' @ es"] by (simp add: stale_def)
    then show ?thesis using r Some by (simp add: rep_def)
  next
    case None
    then consider "plain ring m es" | es1 es2 where "es = es1 @ es2" "wrapped ring m es1 es2"
      using r by (auto simp: rep_def)
    then show ?thesis
    proof cases
      case 1
      then have "plain ring m' es" using reg [of "ring_buf ring + R ring" es] by (simp add: plain_def)
      then show ?thesis using r None by (simp add: rep_def)
    next
      case 2
      then have "wrapped ring m' es1 es2"
        using reg [of "ring_buf ring + R ring" es1] reg [of "ring_buf ring" es2] by (simp add: wrapped_def)
      then show ?thesis using r None 2(1) by (auto simp: rep_def)
    qed
  qed
qed

lemma pull_nothing:
  assumes "lock ring \<noteq> Some True" and "rp ring = wp ring \<or> \<not> readable ring"
  shows "dhd_dbg_ring_pull_single ring data buf_len strip m = (0, ring, m)"
proof -
  have "DHD_DBG_RING_UNLOCK (DHD_DBG_RING_LOCK ring) = ring"
    using unlock_lock [OF assms(1)] by (simp add: DHD_DBG_RING_UNLOCK_def DHD_DBG_RING_LOCK_def option.map_comp comp_def)
  then show ?thesis using assms(2)
    by (auto simp: dhd_dbg_ring_pull_single_def readable_def Let_def DHD_DBG_RING_LOCK_def)
qed

lemma lock_simps [simp]:
  "rp (DHD_DBG_RING_LOCK ring) = rp ring" "wp (DHD_DBG_RING_LOCK ring) = wp ring"
  "ring_size (DHD_DBG_RING_LOCK ring) = ring_size ring" "ring_buf (DHD_DBG_RING_LOCK ring) = ring_buf ring"
  "state (DHD_DBG_RING_LOCK ring) = state ring" "pull_inactive (DHD_DBG_RING_LOCK ring) = pull_inactive ring"
  by (simp_all add: DHD_DBG_RING_LOCK_def)

lemma size_advance [simp]: "ring_size (advance n ring) = ring_size ring"
  by (simp add: advance_def Let_def)

lemma pull_single_eq:
  "dhd_dbg_ring_pull_single ring data buf_len strip m =
     (if data = NULL \<or> buf_len = 0 then (0, ring, m)
      else
        (let ring = DHD_DBG_RING_LOCK ring
         in if \<not> pull_inactive ring \<and> state ring \<noteq> RING_ACTIVE then (0, DHD_DBG_RING_UNLOCK ring, m)
            else if rp ring = wp ring then (0, DHD_DBG_RING_UNLOCK ring, m)
            else
              (let a = ring_buf ring + unat (rp ring)
               in if rp ring + of_nat (ENTRY_LENGTH m a) > ring_size ring then (0, DHD_DBG_RING_UNLOCK ring, m)
                  else
                    (case (if strip then (of_nat (ltoh16_ua m a), a + DBG_RING_ENTRY_SIZE) else (of_nat (ENTRY_LENGTH m a), a)) of
                       (rlen, buf) \<Rightarrow>
                         if rlen > buf_len then (0, DHD_DBG_RING_UNLOCK ring, m)
                         else
                           (let m = memcpy data buf (unat rlen) m;
                                r = advance (ENTRY_LENGTH m a) ring
                            in if rp r \<ge> ring_size r then (0, DHD_DBG_RING_UNLOCK r, m)
                               else (rlen, DHD_DBG_RING_UNLOCK (count_read (ENTRY_LENGTH m a) r), m))))))"
  by (simp only: dhd_dbg_ring_pull_single_def advance_def Let_def)

lemma pull_record:
  assumes r: "rep ring m old (e # es)" and rd: "readable ring" and lk: "lock ring \<noteq> Some True"
    and b: "length (payload strip e) \<le> unat buf_len" and p: "apart ring data (length (payload strip e))" and z: "buf_len \<noteq> 0"
  shows "\<exists>ring' m'. dhd_dbg_ring_pull_single ring data buf_len strip m = (of_nat (length (payload strip e)), ring', m') \<and>
    bytes m' data (length (payload strip e)) = payload strip e \<and>
    (\<forall>x. x < data \<or> data + length (payload strip e) \<le> x \<longrightarrow> m' x = m x) \<and>
    (\<exists>st\<in>next_records ring (old, e # es). rep ring' m' (fst st) (snd st)) \<and> kept ring ring'"
proof -
  note f = rep_front [OF r]
  have wl: "12 \<le> length e" "length e < 65548" using wf_entry_len [OF f(1)] by simp_all
  let ?a = "ring_buf ring + R ring" and ?buf = "if strip then ring_buf ring + R ring + 12 else ring_buf ring + R ring"
  let ?n = "length (payload strip e)" and ?m = "memcpy data (if strip then ring_buf ring + R ring + 12 else ring_buf ring + R ring)
    (length (payload strip e)) m"
  have en: "ENTRY_LENGTH m ?a = length e" using ENTRY_LENGTH_bytes [OF f(1,2)] .
  then have l16: "ltoh16_ua m ?a = length e - 12" by (simp add: ENTRY_LENGTH_def DBG_RING_ENTRY_SIZE_def)
  have un: "unat (of_nat (length e) :: u32) = length e" "unat (of_nat (length e - 12) :: u32) = length e - 12"
    using wl(2) by (rule_tac [!] unat_of_nat_u32) linarith+
  have same: "?m x = m x" if "ring_buf ring \<le> x" "x < ring_buf ring + S ring" for x
    using that p by (auto simp: apart_def mem_simps)
  have en': "ENTRY_LENGTH ?m ?a = length e"
  proof -
    have "bytes ?m ?a (length e) = bytes m ?a (length e)" using f(3) by (intro bytes_cong same) auto
    then show ?thesis using ENTRY_LENGTH_bytes [OF f(1)] f(2) by simp
  qed
  have copied: "bytes ?m data ?n = payload strip e"
  proof (cases strip)
    case True
    have "bytes m ?a (12 + (length e - 12)) = e" using f(2) wl(1) by simp
    then have "bytes m (?a + 12) (length e - 12) = drop 12 e" unfolding bytes_add by (metis append_eq_conv_conj length_bytes)
    then show ?thesis using True by (simp add: mem_simps payload_def)
  next
    case False
    then show ?thesis using f(2) by (simp add: mem_simps payload_def)
  qed
  have fit: "\<not> ring_size ring < rp ring + of_nat (length e)"
  proof -
    have "unat (rp ring + of_nat (length e)) = R ring + length e"
      using f(3) un(1) rep_geometry [OF r] by (subst unat_plus) (auto simp: geometry_def)
    then show ?thesis using f(3) by (simp add: word_less_nat_alt)
  qed
  let ?l = "DHD_DBG_RING_LOCK ring"
  let ?ring' = "DHD_DBG_RING_UNLOCK (count_read (length e) (advance (length e) ?l))"
  have rl: "rep ?l m old (e # es)" using r by (simp add: DHD_DBG_RING_LOCK_def)
  note adv = advance_ok [OF rl]
  have "\<not> ring_size ?l \<le> rp (advance (length e) ?l)" using adv(2) by (simp add: word_le_nat_alt)
  moreover have "\<not> buf_len < of_nat ?n" using b un by (cases strip) (simp_all add: word_less_nat_alt payload_def)
  moreover have "\<not> (data = NULL \<or> buf_len = 0)" "\<not> (\<not> pull_inactive ring \<and> state ring \<noteq> RING_ACTIVE)"
    using p z rd by (auto simp: apart_def readable_def)
  moreover have "(if strip then (of_nat (ltoh16_ua m ?a), ?a + DBG_RING_ENTRY_SIZE) else (of_nat (ENTRY_LENGTH m ?a), ?a))
      = (of_nat ?n :: u32, ?buf)" using l16 en by (simp add: payload_def DBG_RING_ENTRY_SIZE_def)
  moreover have "unat (of_nat ?n :: u32) = ?n" using un by (simp add: payload_def)
  ultimately have call: "dhd_dbg_ring_pull_single ring data buf_len strip m = (of_nat ?n, ?ring', ?m)"
    unfolding pull_single_eq using f(4) fit en en'
    by (simp only: lock_simps if_False Let_def prod.case size_advance not_False_eq_True)
  have "next_records ?l = next_records ring" by (rule ext) (simp add: next_records_def DHD_DBG_RING_LOCK_def split: prod.split option.split)
  then obtain st where st: "st \<in> next_records ring (old, e # es)" "rep (advance (length e) ?l) m (fst st) (snd st)"
    using adv(1) by auto
  have "rep (advance (length e) ?l) ?m (fst st) (snd st)"
    using adv(3) by (intro rep_frame [OF st(2)] same) (auto simp: kept_def DHD_DBG_RING_LOCK_def)
  then have "rep ?ring' ?m (fst st) (snd st)" by (simp add: DHD_DBG_RING_UNLOCK_def count_read_def)
  moreover have "kept ring ?ring'" using adv(3) unlock_lock [OF lk]
    by (simp add: kept_def DHD_DBG_RING_UNLOCK_def DHD_DBG_RING_LOCK_def count_read_def option.map_comp comp_def)
  ultimately show ?thesis using call copied st(1) by (auto simp: mem_simps)
qed

end
