(* ===== verification/Dbg_Ring_Correct.thy ===== *)
theory Dbg_Ring_Correct
  imports Dbg_Ring_Rep "HOL-Library.Sublist"
begin

text \<open>
  Runs of pushes and pulls on a debug ring, over the layouts of \<open>Dbg_Ring_Rep\<close>: what the ring delivers was pushed, in
  order and with losses only at the old end as long as the padding flag is right, and how a record is delivered twice
  when it is not.
\<close>

section \<open>Runs\<close>

text \<open>
  A user of a ring: \<open>Push e\<close> puts the header and the payload of a record into the writer's buffers at \<open>H\<close> and \<open>D\<close> and
  calls \<open>dhd_dbg_ring_push\<close>; \<open>Pull\<close> calls \<open>dhd_dbg_ring_pull_single\<close> with a buffer at \<open>B\<close> for a record of any length.
  The result of an operation is the list of the records it delivered; a push that fails has no result.
\<close>

datatype ring_op = Push "u8 list" | Pull

fun ring_exec :: "ptr \<Rightarrow> ptr \<Rightarrow> ptr \<Rightarrow> ring_op \<Rightarrow> dhd_dbg_ring \<times> mem \<Rightarrow> (u8 list list \<times> dhd_dbg_ring \<times> mem) option" where
  "ring_exec H D B (Push e) (ring, m) =
     (case dhd_dbg_ring_push False ring H D (store_bytes H (take 12 e) (store_bytes D (drop 12 e) m)) of
        Some (BCME_OK, s) \<Rightarrow> Some ([], s)
      | _ \<Rightarrow> None)"
| "ring_exec H D B Pull (ring, m) =
     (case dhd_dbg_ring_pull_single ring B 65547 False m of
        (r, ring, m) \<Rightarrow> Some (if r = 0 then [] else [bytes m B (unat r)], ring, m))"

fun pushed :: "ring_op list \<Rightarrow> u8 list list" where
  "pushed [] = []"
| "pushed (Push e # ops) = e # pushed ops"
| "pushed (Pull # ops) = pushed ops"

lemma pushed_append [simp]: "pushed (xs @ ys) = pushed xs @ pushed ys"
  by (induction xs rule: pushed.induct) auto

definition buffers :: "dhd_dbg_ring \<Rightarrow> ptr \<Rightarrow> ptr \<Rightarrow> ptr \<Rightarrow> bool" where
  "buffers ring H D B \<longleftrightarrow> apart ring H 12 \<and> apart ring D 65535 \<and> apart ring B 65547 \<and> (H + 12 \<le> D \<or> D + 65535 \<le> H)"

text \<open>Memory of nobody: outside the ring and the three buffers.\<close>

definition foreign :: "dhd_dbg_ring \<Rightarrow> ptr \<Rightarrow> ptr \<Rightarrow> ptr \<Rightarrow> ptr \<Rightarrow> bool" where
  "foreign ring H D B x \<longleftrightarrow> (x < ring_buf ring \<or> ring_buf ring + S ring \<le> x) \<and> (x < H \<or> H + 12 \<le> x) \<and>
     (x < D \<or> D + 65535 \<le> x) \<and> (x < B \<or> B + 65547 \<le> x)"

definition usable :: "dhd_dbg_ring \<Rightarrow> ptr \<Rightarrow> ptr \<Rightarrow> ptr \<Rightarrow> bool" where
  "usable ring H D B \<longleftrightarrow> buffers ring H D B \<and> state ring = RING_ACTIVE \<and> lock ring \<noteq> Some True"

lemma usable_kept: "usable ring H D B \<Longrightarrow> kept ring ring' \<Longrightarrow> usable ring' H D B"
  by (simp add: usable_def buffers_def apart_def kept_def)

lemma foreign_kept: "kept ring ring' \<Longrightarrow> foreign ring' H D B x = foreign ring H D B x"
  by (simp add: foreign_def kept_def)

lemma apart_le: "apart ring a n \<Longrightarrow> k \<le> n \<Longrightarrow> apart ring a k"
  by (auto simp: apart_def)

text \<open>The writer's buffers before a push.\<close>

abbreviation prepared :: "ptr \<Rightarrow> ptr \<Rightarrow> u8 list \<Rightarrow> mem \<Rightarrow> mem" where
  "prepared H D e m \<equiv> store_bytes H (take 12 e) (store_bytes D (drop 12 e) m)"

lemma prepared_push:
  assumes u: "usable ring H D B" and e: "wf_entry e" "length e < S ring"
  shows "record_at (prepared H D e m) H D = e" and "ENTRY_LENGTH (prepared H D e m) H = length e"
    and "apart ring D (ltoh16_ua (prepared H D e m) H)"
    and "rep ring m old es \<Longrightarrow> rep ring (prepared H D e m) old es"
    and "outside ring (prepared H D e m) m' \<Longrightarrow> foreign ring H D B x \<Longrightarrow> m' x = m x"
proof -
  let ?m = "prepared H D e m"
  have l: "12 \<le> length e" "length e < 65548" using wf_entry_len [OF e(1)] by simp_all
  have b: "apart ring H 12" "apart ring D 65535" "H + 12 \<le> D \<or> D + 65535 \<le> H"
    using u by (auto simp: usable_def buffers_def)
  have same: "?m x = m x" if "ring_buf ring \<le> x" "x < ring_buf ring + S ring" for x
    using that b l by (auto simp: apart_def mem_simps)
  show "rep ring m old es \<Longrightarrow> rep ring ?m old es" by (erule rep_frame) (rule same)
  have h: "bytes ?m H 12 = take 12 e" using l by (simp add: mem_simps)
  have d: "bytes ?m D (length e - 12) = drop 12 e"
  proof -
    have "D + (length e - 12) \<le> H \<or> H + length (take 12 e) \<le> D" using l b(3) by auto
    then show ?thesis by (simp only: bytes_store_disjoint) (simp add: mem_simps)
  qed
  have "bytes ?m H 12 ! 0 = e ! 0" "bytes ?m H 12 ! 1 = e ! 1" unfolding h using l by simp_all
  then have "ltoh16_ua ?m H = unat (e ! 0) + 256 * unat (e ! 1)" by (simp add: ltoh16_ua_def)
  then have n: "ltoh16_ua ?m H = length e - 12" using e(1) unfolding wf_entry_def by linarith
  show rec: "record_at ?m H D = e" unfolding record_at_def n h d by simp
  show "ENTRY_LENGTH ?m H = length e" by (rule length_record_at [of ?m H D, unfolded rec, symmetric])
  show "apart ring D (ltoh16_ua ?m H)" using apart_le [OF b(2)] n l by simp
  show "outside ring ?m m' \<Longrightarrow> foreign ring H D B x \<Longrightarrow> m' x = m x"
    using l by (auto simp: foreign_def outside_def mem_simps)
qed

lemma usableD:
  assumes "usable ring H D B"
  shows "state ring = RING_ACTIVE" and "lock ring \<noteq> Some True" and "apart ring H 12"
  using assms by (simp_all add: usable_def buffers_def)

lemma exec_push:
  assumes r: "rep ring m old es" and u: "usable ring H D B" and e: "wf_entry e" "length e < S ring"
  shows "\<exists>ring' m' old' k. ring_exec H D B (Push e) (ring, m) = Some ([], ring', m') \<and>
    rep ring' m' old' (drop k es @ [e]) \<and> old' \<in> {old, None, Some []} \<and> kept ring ring' \<and>
    (\<forall>x. foreign ring H D B x \<longrightarrow> m' x = m x)"
proof -
  note p = prepared_push [OF u e]
  from push_ok [OF p(4) [OF r] usableD [OF u] p(3)] e(2) obtain ring' m' old' k where
    c: "dhd_dbg_ring_push False ring H D (prepared H D e m) = Some (BCME_OK, ring', m')" "rep ring' m' old' (drop k es @ [e])"
    "old' \<in> {old, None, Some []}" "kept ring ring'" "outside ring (prepared H D e m) m'" unfolding p(1,2) by blast
  then show ?thesis using p(5) [OF c(5)] by auto
qed

text \<open>The two cases in which the space claimed is known: the record fits behind \<open>wp\<close>, and a ring with one record
  at its start has to be emptied for it.\<close>

lemma exec_push_claimed:
  assumes u: "usable ring H D B" and e: "wf_entry e" "length e < S ring"
    and c: "claim_space (of_nat (length e)) (DHD_DBG_RING_LOCK ring) (prepared H D e m) = Some (Inr av, r1, m1)"
      "rep r1 m1 old' es'" "kept (DHD_DBG_RING_LOCK ring) r1" "outside (DHD_DBG_RING_LOCK ring) (prepared H D e m) m1"
      "of_nat (length e) < av" "av = DBG_RING_CHECK_WRITE_SPACE (rp r1) (wp r1) (ring_size r1)"
  shows "\<exists>ring' m'. ring_exec H D B (Push e) (ring, m) = Some ([], ring', m') \<and> rep ring' m' old' (es' @ [e]) \<and>
    kept ring ring' \<and> rp ring' = rp r1 \<and> rem_len ring' = rem_len r1"
proof -
  note p = prepared_push [OF u e, of m]
  have "\<exists>ring' m'. dhd_dbg_ring_push False ring H D (prepared H D e m) = Some (BCME_OK, ring', m') \<and>
      rep ring' m' old' (es' @ [e]) \<and> kept ring ring' \<and> rp ring' = rp r1 \<and> rem_len ring' = rem_len r1"
    using push_claimed [OF usableD [OF u] p(3), of av r1 m1 old' es'] e(2) c unfolding p(1,2) by blast
  then show ?thesis by auto
qed

lemma unat_length: "wf_entry e \<Longrightarrow> unat (of_nat (length e) :: u32) = length e"
  using wf_entry_len [of e] by (intro unat_of_nat_u32) simp

lemma exec_push_fits:
  assumes r: "rep ring m old es" and u: "usable ring H D B" and e: "wf_entry e" "W ring + length e < S ring" and l: "R ring \<le> W ring"
  shows "\<exists>ring' m'. ring_exec H D B (Push e) (ring, m) = Some ([], ring', m') \<and> rep ring' m' old (es @ [e]) \<and>
    kept ring ring' \<and> rp ring' = rp ring \<and> rem_len ring' = rem_len ring"
proof -
  let ?r = "DHD_DBG_RING_LOCK ring" and ?m = "prepared H D e m"
  let ?av = "DBG_RING_CHECK_WRITE_SPACE (rp ?r) (wp ?r) (ring_size ?r)"
  have lt: "of_nat (length e) < ?av"
    using e unat_length [OF e(1)] avail_linear [of ring] l by (simp add: word_less_nat_alt)
  have e': "length e < S ring" using e(2) by simp
  have "\<not> ?av \<le> of_nat (length e)" using lt by simp
  then have c: "claim_space (of_nat (length e)) ?r ?m = Some (Inr ?av, ?r, ?m)"
    by (subst claim_space.simps) (simp only: Let_def if_False)
  have "rep ?r ?m old es" using prepared_push(4) [OF u e(1) e' r] by (simp add: DHD_DBG_RING_LOCK_def)
  from exec_push_claimed [OF u e(1) e' c this kept_refl outside_refl lt refl] show ?thesis
    by (simp add: DHD_DBG_RING_LOCK_def)
qed

lemma claim_reset:
  assumes r: "rep ring m old [a]" and z: "R ring = 0" and w: "S ring - W ring \<le> unat w" "unat w < S ring"
  shows "\<exists>r1 m1. claim_space w ring m = Some (Inr (ring_size ring), r1, m1) \<and> rep r1 m1 (Some []) [] \<and> kept ring r1 \<and>
    outside ring m m1 \<and> rp r1 = 0 \<and> wp r1 = 0 \<and> P r1 = S ring - length a"
proof -
  note g = rep_geometry [OF r]
  have l: "linear ring m [a]" using r by (cases rule: rep_cases) (use z in auto)
  then have W: "W ring = length a" "W ring < S ring" using z by (simp_all add: linear_def)
  have a: "wf_entry a" using l by (simp add: linear_def region_Cons)
  obtain r1 m1 where p: "pad_tail ring m = (r1, m1)" by fastforce
  have "0 < W ring" using W(1) wf_entry_len [OF a] by linarith
  note ps = pad_step [OF g l this p]
  have rp: "rp ring = 0" using z by (simp add: unat_eq_0)
  let ?m = "memset (ring_buf ring + W ring) 0 (unat (ring_size ring - wp ring)) m"
  have "region ?m (ring_buf ring + R ring) [a]"
    using pad_mem(2) [OF g W(2), of "ring_buf ring + R ring" "[a]" m] l z W(1) by (simp add: linear_def)
  then have en: "ENTRY_LENGTH ?m (ring_buf ring) = length a" using ENTRY_LENGTH_head z by simp
  have wa: "of_nat (length a) = wp ring" using W(1) unat_length [OF a] by (simp add: word_unat_eq_iff)
  have r1: "r1 = (count_read (length a) (ring\<lparr>tail_padded := True, rem_len := ring_size ring - wp ring\<rparr>))\<lparr>rp := 0, wp := 0\<rparr>"
    using p rp en wa by (simp add: pad_tail_def Let_def count_read_def)
  have P: "P r1 = S ring - length a" using W by (simp add: r1 count_read_def unat_minus word_le_nat_alt)
  have rep: "rep r1 m1 (Some []) []" using g P W by (simp add: r1 rep_def geometry_def stale_def count_read_def)
  have av: "DBG_RING_CHECK_WRITE_SPACE (rp ring) (wp ring) (ring_size ring) \<le> w"
    using avail_linear [of ring] W(2) z w(1) by (simp add: word_le_nat_alt)
  have "\<not> ring_size ring \<le> w" using w(2) by (simp add: word_le_nat_alt)
  moreover have "DBG_RING_CHECK_WRITE_SPACE (rp r1) (wp r1) (ring_size r1) = ring_size ring"
    by (simp add: r1 count_read_def DBG_RING_CHECK_WRITE_SPACE_def DBG_RING_WRITE_SPACE_AVAIL_def TXACTIVESZ_def
        DBG_RING_WRITE_SPACE_AVAIL_CONT_def)
  ultimately have "claim_space w r1 m1 = Some (Inr (ring_size ring), r1, m1)"
    by (subst claim_space.simps) (simp only: Let_def if_False)
  moreover have "claim_space w ring m = claim_space w r1 m1"
    using av p rp by (subst claim_space.simps) (simp add: Let_def)
  ultimately show ?thesis using ps rep P by (auto simp: r1 count_read_def)
qed

lemma exec_push_reset:
  assumes r: "rep ring m old [a]" and u: "usable ring H D B" and e: "wf_entry e" "length e < S ring"
    and l: "R ring = 0" "S ring \<le> length a + length e"
  shows "\<exists>ring' m'. ring_exec H D B (Push e) (ring, m) = Some ([], ring', m') \<and> rep ring' m' (Some []) [e] \<and>
    kept ring ring' \<and> rp ring' = 0 \<and> P ring' = S ring - length a"
proof -
  let ?r = "DHD_DBG_RING_LOCK ring" and ?m = "prepared H D e m"
  have r': "rep ?r ?m old [a]" using prepared_push(4) [OF u e r] by (simp add: DHD_DBG_RING_LOCK_def)
  have "linear ring m [a]" using r by (cases rule: rep_cases) (use l in auto)
  then have "W ring = length a" using l by (simp add: linear_def)
  then have w: "S ?r - W ?r \<le> unat (of_nat (length e) :: u32)" "unat (of_nat (length e) :: u32) < S ?r"
    using l e unat_length [OF e(1)] by auto
  from claim_reset [OF r' _ w] l(1) obtain r1 m1 where
    c: "claim_space (of_nat (length e)) ?r ?m = Some (Inr (ring_size ?r), r1, m1)" "rep r1 m1 (Some []) []" "kept ?r r1"
    "outside ?r ?m m1" "rp r1 = 0" "wp r1 = 0" "P r1 = S ?r - length a" by auto
  have "of_nat (length e) < ring_size ?r" using w(2) by (simp add: word_less_nat_alt)
  moreover have "ring_size ?r = DBG_RING_CHECK_WRITE_SPACE (rp r1) (wp r1) (ring_size r1)"
    using c(3,5,6) by (simp add: kept_def DBG_RING_CHECK_WRITE_SPACE_def DBG_RING_WRITE_SPACE_AVAIL_def TXACTIVESZ_def
        DBG_RING_WRITE_SPACE_AVAIL_CONT_def)
  ultimately show ?thesis using exec_push_claimed [OF u e c(1-4)] c(5,7) by auto
qed

lemma exec_pull:
  assumes r: "rep ring m old es" and u: "usable ring H D B"
  shows "\<exists>ring' m'. ring_exec H D B Pull (ring, m) = Some (take 1 es, ring', m') \<and>
    (\<exists>st\<in>(if es = [] then {(old, es)} else next_records ring (old, es)). rep ring' m' (fst st) (snd st)) \<and> kept ring ring' \<and>
    (\<forall>x. foreign ring H D B x \<longrightarrow> m' x = m x)"
proof (cases es)
  case Nil
  then show ?thesis using pull_nothing [of ring] rep_empty r u by (auto simp: usable_def)
next
  case (Cons e fs)
  have l: "12 \<le> length e" "length e < 65548" using wf_entry_len [OF rep_front(1)] r Cons by auto
  have n: "unat (of_nat (length e) :: u32) = length e" using l by (intro unat_of_nat_u32) simp
  have "apart ring B 65547" using u by (simp add: usable_def buffers_def)
  then have "apart ring B (length e)" by (rule apart_le) (use l in simp)
  moreover have "readable ring" "lock ring \<noteq> Some True" using u by (simp_all add: usable_def readable_def)
  ultimately obtain ring' m' where c: "dhd_dbg_ring_pull_single ring B 65547 False m = (of_nat (length e), ring', m')"
    "bytes m' B (length e) = e" "\<forall>x. x < B \<or> B + length e \<le> x \<longrightarrow> m' x = m x"
    "\<exists>st\<in>next_records ring (old, es). rep ring' m' (fst st) (snd st)" "kept ring ring'"
    using pull_record [of ring m old e fs False 65547 B] r Cons l by (auto simp: payload_def)
  have "of_nat (length e) \<noteq> (0 :: u32)" using n l by auto
  then have "ring_exec H D B Pull (ring, m) = Some (take 1 es, ring', m')" using c n Cons by simp
  moreover have "\<forall>x. foreign ring H D B x \<longrightarrow> m' x = m x" using c(3) l by (auto simp: foreign_def)
  ultimately show ?thesis using c(4,5) Cons by auto
qed

text \<open>Every operation keeps to what was pushed: the records in the ring and the ones it delivers.\<close>

fun held :: "u8 list list option \<Rightarrow> u8 list set" where
  "held None = {}"
| "held (Some o') = set o'"

definition admissible :: "dhd_dbg_ring \<Rightarrow> ring_op list \<Rightarrow> bool" where
  "admissible ring ops \<longleftrightarrow> (\<forall>e\<in>set (pushed ops). wf_entry e \<and> length e < S ring)"

lemma exec_step:
  assumes r: "rep ring m old es" and u: "usable ring H D B" and a: "admissible ring [op]" and h: "held old \<union> set es \<subseteq> A"
  shows "\<exists>out ring' m' old' es'. ring_exec H D B op (ring, m) = Some (out, ring', m') \<and> rep ring' m' old' es' \<and>
    set out \<subseteq> A \<and> held old' \<union> set es' \<subseteq> A \<union> set (pushed [op]) \<and> kept ring ring' \<and>
    (\<forall>x. foreign ring H D B x \<longrightarrow> m' x = m x)"
proof (cases op)
  case (Push e)
  then have e: "wf_entry e" "length e < S ring" using a by (simp_all add: admissible_def)
  from exec_push [OF r u this] obtain ring' m' old' k where
    c: "ring_exec H D B (Push e) (ring, m) = Some ([], ring', m')" "rep ring' m' old' (drop k es @ [e])"
    "old' \<in> {old, None, Some []}" "kept ring ring'" "\<forall>x. foreign ring H D B x \<longrightarrow> m' x = m x" by blast
  have "held old' \<union> set (drop k es @ [e]) \<subseteq> A \<union> {e}" using c(3) h by (auto dest: in_set_dropD)
  then show ?thesis using c Push by fastforce
next
  case Pull
  from exec_pull [OF r u] obtain ring' m' st where
    c: "ring_exec H D B Pull (ring, m) = Some (take 1 es, ring', m')"
    "st \<in> (if es = [] then {(old, es)} else next_records ring (old, es))" "rep ring' m' (fst st) (snd st)"
    "kept ring ring'" "\<forall>x. foreign ring H D B x \<longrightarrow> m' x = m x" by blast
  have "held (fst st) \<union> set (snd st) \<subseteq> A"
    using c(2) h by (cases es; cases old) (auto simp: next_records_def split: if_splits)
  moreover have "set (take 1 es) \<subseteq> A" using h by (auto dest: in_set_takeD)
  ultimately show ?thesis using c Pull by fastforce
qed

lemma run_integrity:
  assumes "rep ring m old es" and "usable ring H D B" and "admissible ring ops" and "held old \<union> set es \<subseteq> A"
  shows "\<exists>outs ring' m'. run (ring_exec H D B) ops (ring, m) = Some (outs, ring', m') \<and>
    set (concat outs) \<subseteq> A \<union> set (pushed ops) \<and> kept ring ring' \<and> (\<forall>x. foreign ring H D B x \<longrightarrow> m' x = m x)"
  using assms
proof (induction ops arbitrary: ring m old es A)
  case Nil
  then show ?case by simp
next
  case (Cons op ops)
  have p: "set (pushed (op # ops)) = set (pushed [op]) \<union> set (pushed ops)" by (cases op) auto
  then have a: "admissible ring [op]" "admissible ring ops" using Cons.prems(3) by (auto simp: admissible_def)
  from exec_step [OF Cons.prems(1,2) a(1) Cons.prems(4)] obtain out r1 m1 old1 es1 where
    s: "ring_exec H D B op (ring, m) = Some (out, r1, m1)" "rep r1 m1 old1 es1" "set out \<subseteq> A"
    "held old1 \<union> set es1 \<subseteq> A \<union> set (pushed [op])" "kept ring r1" "\<forall>x. foreign ring H D B x \<longrightarrow> m1 x = m x" by blast
  have "admissible r1 ops" using a(2) s(5) by (simp add: admissible_def kept_def)
  from Cons.IH [OF s(2) usable_kept [OF Cons.prems(2) s(5)] this s(4)] obtain outs r2 m2 where
    t: "run (ring_exec H D B) ops (r1, m1) = Some (outs, r2, m2)"
    "set (concat outs) \<subseteq> A \<union> set (pushed [op]) \<union> set (pushed ops)" "kept r1 r2"
    "\<forall>x. foreign r1 H D B x \<longrightarrow> m2 x = m1 x" by blast
  have "run (ring_exec H D B) (op # ops) (ring, m) = Some (out # outs, r2, m2)" using s(1) t(1) by simp
  moreover have "set (concat (out # outs)) \<subseteq> A \<union> set (pushed (op # ops))" using p s(3) t(2) by auto
  moreover have "\<forall>x. foreign ring H D B x \<longrightarrow> m2 x = m x" using t(4) s(6) foreign_kept [OF s(5)] by simp
  ultimately show ?case using kept_trans [OF s(5) t(3)] by blast
qed

text \<open>The runs in which the padding flag is never out of date.\<close>

definition fifo_exec :: "ptr \<Rightarrow> ptr \<Rightarrow> ptr \<Rightarrow> ring_op \<Rightarrow> dhd_dbg_ring \<times> mem \<Rightarrow> (u8 list list \<times> dhd_dbg_ring \<times> mem) option" where
  "fifo_exec H D B op s = (case ring_exec H D B op s of
      Some (out, ring, m) \<Rightarrow> if tail_padded ring \<and> rp ring \<le> wp ring then None else Some (out, ring, m)
    | None \<Rightarrow> None)"

lemma fifo_exec_Some:
  "fifo_exec H D B op s = Some (out, ring, m) \<longleftrightarrow>
    ring_exec H D B op s = Some (out, ring, m) \<and> \<not> (tail_padded ring \<and> rp ring \<le> wp ring)"
  by (auto simp: fifo_exec_def split: option.splits if_splits)

lemma run_ConsD:
  "run f (op # ops) s = Some (rs, s') \<Longrightarrow> \<exists>r s1 rs'. f op s = Some (r, s1) \<and> run f ops s1 = Some (rs', s') \<and> rs = r # rs'"
  by (auto split: option.splits)

lemma rep_current: "rep ring m old es \<Longrightarrow> \<not> (tail_padded ring \<and> rp ring \<le> wp ring) \<Longrightarrow> old = None"
  by (cases old) (auto simp: rep_def stale_def word_le_nat_alt)

lemma fifo_run:
  assumes "rep ring m None es" and "usable ring H D B" and "admissible ring ops"
    and "run (fifo_exec H D B) ops (ring, m) = Some (outs, ring', m')" and "suffix es ps" and "subseq (ds @ es) ps"
  shows "\<exists>es'. rep ring' m' None es' \<and> usable ring' H D B \<and> suffix es' (ps @ pushed ops) \<and>
    subseq (ds @ concat outs @ es') (ps @ pushed ops)"
  using assms
proof (induction ops arbitrary: ring m es outs ps ds)
  case Nil
  then show ?case by auto
next
  case (Cons op ops)
  from Cons.prems(4) obtain out r1 m1 outs' where
    x: "ring_exec H D B op (ring, m) = Some (out, r1, m1)" "\<not> (tail_padded r1 \<and> rp r1 \<le> wp r1)"
    "run (fifo_exec H D B) ops (r1, m1) = Some (outs', ring', m')" "outs = out # outs'"
    using run_ConsD [OF Cons.prems(4)] unfolding split_paired_Ex fifo_exec_Some by blast
  have "\<exists>es1. rep r1 m1 None es1 \<and> kept ring r1 \<and> suffix es1 (ps @ pushed [op]) \<and> subseq ((ds @ out) @ es1) (ps @ pushed [op])"
  proof (cases op)
    case (Push e)
    then have "wf_entry e" "length e < S ring" using Cons.prems(3) by (simp_all add: admissible_def)
    from exec_push [OF Cons.prems(1,2) this] x(1) Push obtain old1 k where
      c: "out = []" "rep r1 m1 old1 (drop k es @ [e])" "kept ring r1" by auto
    have "suffix (drop k es) ps" using Cons.prems(5) suffix_drop suffix_order.trans by blast
    then have "suffix (drop k es @ [e]) (ps @ [e])" by simp
    moreover have "subseq (ds @ drop k es) ps"
      using Cons.prems(6) list_emb_append_mono [OF subseq_order.refl suffix_imp_subseq [OF suffix_drop]]
      by (blast intro: subseq_order.trans)
    then have "subseq ((ds @ drop k es) @ [e]) (ps @ [e])" by (simp only: subseq_append_iff) blast
    ultimately show ?thesis using c rep_current [OF c(2) x(2)] Push by auto
  next
    case Pull
    from exec_pull [OF Cons.prems(1,2)] x(1) Pull obtain st where
      c: "out = take 1 es" "st \<in> (if es = [] then {(None, es)} else next_records ring (None, es))" "rep r1 m1 (fst st) (snd st)"
      "kept ring r1" by auto
    then have st: "st = (None, drop 1 es)" by (auto simp: next_records_def drop_Suc split: if_splits)
    have "suffix (drop 1 es) ps" using Cons.prems(5) suffix_drop suffix_order.trans by blast
    then show ?thesis using c st Pull Cons.prems(6) by auto
  qed
  then obtain es1 where s: "rep r1 m1 None es1" "kept ring r1" "suffix es1 (ps @ pushed [op])"
    "subseq ((ds @ out) @ es1) (ps @ pushed [op])" by blast
  have "admissible r1 ops" using Cons.prems(3) s(2) by (cases op) (simp_all add: admissible_def kept_def)
  from Cons.IH [OF s(1) usable_kept [OF Cons.prems(2) s(2)] this x(3) s(3,4)] x(4)
  show ?case by (cases op) simp_all
qed

lemma drain:
  assumes "rep ring m None es" and "usable ring H D B"
  shows "\<exists>s. run (ring_exec H D B) (replicate (length es) Pull) (ring, m) = Some (map (\<lambda>e. [e]) es, s)"
  using assms
proof (induction es arbitrary: ring m)
  case (Cons e es)
  from exec_pull [OF Cons.prems] obtain r1 m1 where
    c: "ring_exec H D B Pull (ring, m) = Some ([e], r1, m1)" "rep r1 m1 None es" "kept ring r1"
    by (auto simp: next_records_def)
  from Cons.IH [OF c(2) usable_kept [OF Cons.prems(2) c(3)]] c(1) show ?case by (auto split: option.splits)
qed simp

section \<open>A new ring\<close>

text \<open>A ring set up in zeroed memory by \<open>dhd_dbg_ring_init\<close> and switched on by \<open>dhd_dbg_ring_config\<close>.\<close>

definition set_up :: "dhd_dbg_ring \<Rightarrow> int \<Rightarrow> ptr \<Rightarrow> u32 \<Rightarrow> ptr \<Rightarrow> bool \<Rightarrow> int \<Rightarrow> u32 \<Rightarrow> mem \<Rightarrow> dhd_dbg_ring \<times> mem" where
  "set_up ring i nm sz buf inact level thr m =
     (case dhd_dbg_ring_init (Some False) ring i nm sz buf inact m of
        (ret, ring, m) \<Rightarrow> (snd (dhd_dbg_ring_config ring level thr), m))"

lemma set_up_rep:
  assumes "set_up ring0 i nm sz buf inact level thr m0 = (ring, m)" and "\<not> tail_padded ring0" and "level \<noteq> 0"
    and "buf \<noteq> NULL" and "buf + unat sz < 2 ^ 64" and "0 < unat sz" and "unat sz < 2 ^ 31"
  shows "rep ring m' None [] \<and> state ring = RING_ACTIVE \<and> lock ring = Some False \<and> ring_size ring = sz \<and> ring_buf ring = buf \<and>
    rp ring = 0 \<and> wp ring = 0 \<and> \<not> tail_padded ring"
proof -
  have "state ring = RING_ACTIVE \<and> lock ring = Some False \<and> ring_size ring = sz \<and> ring_buf ring = buf \<and> rp ring = 0 \<and>
      wp ring = 0 \<and> \<not> tail_padded ring"
    using assms(1-4)
    by (auto simp: set_up_def dhd_dbg_ring_init_def dhd_dbg_ring_config_def Let_def DHD_DBG_RING_UNLOCK_def
        DHD_DBG_RING_LOCK_def split: prod.splits)
  then show ?thesis using assms(4-) by (simp add: rep_def plain_def geometry_def)
qed

definition zero_ring :: dhd_dbg_ring where
  "zero_ring = \<lparr>ring_id = 0, ring_name = 500, ring_size = 0, wp = 0, rp = 0, log_level = 0, threshold = 0, ring_buf = NULL,
     lock = None, stat = no_stat, state = RING_STOP, tail_padded = False, rem_len = 0, sched_pull = False,
     pull_inactive = False\<rparr>"

text \<open>A record with a payload of \<open>n\<close> bytes \<open>b\<close>.\<close>

definition demo_record :: "nat \<Rightarrow> u8 \<Rightarrow> u8 list" where
  "demo_record n b = of_nat n # replicate 11 0 @ replicate n b"

lemma demo_wf: "n < 256 \<Longrightarrow> wf_entry (demo_record n b)" and demo_length [simp]: "length (demo_record n b) = n + 12"
  by (simp_all add: wf_entry_def demo_record_def unat_of_nat nth_Cons' nth_append)

definition demo_ring :: "dhd_dbg_ring \<times> mem" where
  "demo_ring = set_up zero_ring 4 NULL 40 1000 False 1 0 (\<lambda>_. 0)"

lemma demo_set_up: "set_up zero_ring 4 NULL 40 1000 False 1 0 (\<lambda>_. 0) = (fst demo_ring, snd demo_ring)"
  by (simp add: demo_ring_def)

lemmas demo_rep = set_up_rep [OF demo_set_up, simplified zero_ring_def, simplified]

lemma demo_buffers: "buffers (fst demo_ring) 2000 3000 100000"
  using demo_rep by (simp add: buffers_def apart_def)

section \<open>Properties\<close>

text \<open>
  C23: a debug ring keeps what it is given. From any ring set up and switched on, every sequence of pushes of records
  shorter than the ring and of pulls ends, every push succeeds, every record a pull delivers is, byte for byte, one that
  was pushed, the lock is free afterwards, and no byte outside the ring's buffer and the callers' buffers changes.
\<close>

theorem ring_run_integrity:
  assumes "set_up ring0 i nm sz buf inact level thr m0 = (ring, m)" and "\<not> tail_padded ring0" and "level \<noteq> 0"
    and "buf \<noteq> NULL" and "buf + unat sz < 2 ^ 64" and "0 < unat sz" and "unat sz < 2 ^ 31"
    and "buffers ring H D B" and "admissible ring ops"
  shows "\<exists>outs ring' m'. run (ring_exec H D B) ops (ring, m) = Some (outs, ring', m') \<and>
    set (concat outs) \<subseteq> set (pushed ops) \<and> lock ring' = Some False \<and> (\<forall>x. foreign ring H D B x \<longrightarrow> m' x = m x)"
proof -
  note s = set_up_rep [OF assms(1-7), of m]
  then have "usable ring H D B" using assms(8) by (simp add: usable_def)
  from run_integrity [OF conjunct1 [OF s] this assms(9), of "{}"] s show ?thesis by (auto simp: kept_def)
qed

theorem ring_run_integrity_witness:
  "\<exists>outs ring' m'. run (ring_exec 2000 3000 100000) [Push (demo_record 2 1), Pull] demo_ring = Some (outs, ring', m') \<and>
    set (concat outs) \<subseteq> {demo_record 2 1}"
proof -
  have "admissible (fst demo_ring) [Push (demo_record 2 1), Pull]"
    using demo_rep by (simp add: admissible_def demo_wf)
  from ring_run_integrity [OF demo_set_up _ _ _ _ _ _ demo_buffers this] show ?thesis
    by (auto simp: zero_ring_def)
qed



section \<open>The pending length\<close>

text \<open>The difference of the byte counters, except after the writer's counter has wrapped: there it is one too small.\<close>

lemma pending_len:
  "fst (dhd_dbg_ring_get_pending_len ring) =
    (let w = written_bytes (stat ring); r = read_bytes (stat ring) in if r \<le> w then w - r else w - r - 1)"
  by (auto simp: dhd_dbg_ring_get_pending_len_def Let_def DHD_DBG_RING_LOCK_def PENDING_LEN_MAX_def)

section \<open>The out of date flag\<close>

text \<open>Emptying a ring for a record that does not fit behind the only one leaves the padding flag set. The next pull
  but one then goes back to the start: \<open>b\<close>, pushed once, is delivered twice.\<close>

theorem ring_delivers_twice:
  assumes "set_up ring0 i nm sz buf inact level thr m0 = (ring, m)" and "\<not> tail_padded ring0" and "level \<noteq> 0"
    and "buf \<noteq> NULL" and "buf + unat sz < 2 ^ 64" and "0 < unat sz" and "unat sz < 2 ^ 31" and "buffers ring H D B"
    and w: "wf_entry a" "wf_entry b" "wf_entry c"
    and l: "length a < unat sz" "length a \<le> length b" "unat sz \<le> length a + length b" "length b + length c < unat sz"
  shows "\<exists>s. run (ring_exec H D B) [Push a, Push b, Push c, Pull, Pull] (ring, m) = Some ([[], [], [], [b], [b]], s)"
proof -
  note s = set_up_rep [OF assms(1-7), of m]
  then have u: "usable ring H D B" using assms(8) by (simp add: usable_def)
  have z: "rp ring = wp ring" "rp ring = 0" using s by simp_all
  obtain r1 m1 where 1: "ring_exec H D B (Push a) (ring, m) = Some ([], r1, m1)" "rep r1 m1 None [a]" "kept ring r1" "rp r1 = 0"
    using exec_push_fits [OF conjunct1 [OF s] u w(1)] z l(1) s by auto
  have u1: "usable r1 H D B" "S r1 = unat sz" using usable_kept [OF u 1(3)] s 1(3) by (simp_all add: kept_def)
  obtain r2 m2 where 2: "ring_exec H D B (Push b) (r1, m1) = Some ([], r2, m2)" "rep r2 m2 (Some []) [b]" "kept r1 r2"
    "rp r2 = 0" "P r2 = unat sz - length a"
    using exec_push_reset [OF 1(2) u1(1) w(2)] 1(4) u1(2) l by auto
  have u2: "usable r2 H D B" "S r2 = unat sz" using usable_kept [OF u1(1) 2(3)] u1(2) 2(3) by (simp_all add: kept_def)
  have W2: "W r2 = length b" using 2(2,4) by (simp add: rep_def stale_def)
  obtain r3 m3 where 3: "ring_exec H D B (Push c) (r2, m2) = Some ([], r3, m3)" "rep r3 m3 (Some []) [b, c]" "kept r2 r3"
    "rp r3 = 0" "P r3 = unat sz - length a"
    using exec_push_fits [OF 2(2) u2(1) w(3)] W2 2(4,5) u2(2) l(4) by auto
  have u3: "usable r3 H D B" "S r3 = unat sz" using usable_kept [OF u2(1) 3(3)] u2(2) 3(3) by (simp_all add: kept_def)
  have "S r3 \<le> R r3 + length b + P r3" using u3(2) 3(4,5) l(1,2) by simp
  then have nr: "next_records r3 (Some [], [b, c]) = {(None, [b, c])}" by (simp add: next_records_def)
  obtain r4 m4 where 4: "ring_exec H D B Pull (r3, m3) = Some ([b], r4, m4)" "rep r4 m4 None [b, c]" "kept r3 r4"
    using exec_pull [OF 3(2) u3(1)] unfolding nr by auto
  obtain s5 where "ring_exec H D B Pull (r4, m4) = Some ([b], s5)"
    using exec_pull [OF 4(2) usable_kept [OF u3(1) 4(3)]] by auto
  then show ?thesis using 1(1) 2(1) 3(1) 4(1) by simp
qed

end
