(* ===== verification/Dll.thy ===== *)
theory Dll
  imports Id_Alloc
begin

text \<open>
  The doubly linked lists of \<open>include/bcmutils.h\<close> (\<open>dll_t\<close>) and the pools of fixed size elements that \<open>bcmutils.c\<close> builds on
  them. The heap maps an address to the \<open>dll_t\<close> there. A list is a ring of nodes through its header; \<open>dll_rep h l xs\<close>
  says that the ring through the header \<open>l\<close> visits exactly the nodes \<open>xs\<close>, in this order forwards and in the reverse
  order backwards. Every operation is shown to act on \<open>xs\<close> as its name says, and the pool is an instance of the id
  allocator contract: the element addresses are its ids.
\<close>

section \<open>Lists\<close>

record dll =
  next_p :: ptr
  prev_p :: ptr

type_synonym dll_heap = "ptr \<Rightarrow> dll"

definition set_next :: "ptr \<Rightarrow> ptr \<Rightarrow> dll_heap \<Rightarrow> dll_heap" where
  "set_next p v h = h(p := (h p)\<lparr>next_p := v\<rparr>)"

definition set_prev :: "ptr \<Rightarrow> ptr \<Rightarrow> dll_heap \<Rightarrow> dll_heap" where
  "set_prev p v h = h(p := (h p)\<lparr>prev_p := v\<rparr>)"

definition dll_init :: "ptr \<Rightarrow> dll_heap \<Rightarrow> dll_heap" where
  "dll_init node_p h = set_prev node_p node_p (set_next node_p node_p h)"

definition dll_head_p :: "dll_heap \<Rightarrow> ptr \<Rightarrow> ptr" where
  "dll_head_p h list_p = next_p (h list_p)"

definition dll_tail_p :: "dll_heap \<Rightarrow> ptr \<Rightarrow> ptr" where
  "dll_tail_p h list_p = prev_p (h list_p)"

definition dll_next_p :: "dll_heap \<Rightarrow> ptr \<Rightarrow> ptr" where
  "dll_next_p h node_p = next_p (h node_p)"

definition dll_prev_p :: "dll_heap \<Rightarrow> ptr \<Rightarrow> ptr" where
  "dll_prev_p h node_p = prev_p (h node_p)"

definition dll_empty :: "dll_heap \<Rightarrow> ptr \<Rightarrow> bool" where
  "dll_empty h list_p \<longleftrightarrow> next_p (h list_p) = list_p"

definition dll_end :: "ptr \<Rightarrow> ptr \<Rightarrow> bool" where
  "dll_end list_p node_p \<longleftrightarrow> list_p = node_p"

definition dll_insert :: "ptr \<Rightarrow> ptr \<Rightarrow> dll_heap \<Rightarrow> dll_heap" where
  "dll_insert new_p at_p h =
     (let h = set_next new_p (next_p (h at_p)) h;
          h = set_prev new_p at_p h;
          h = set_next at_p new_p h
      in set_prev (next_p (h new_p)) new_p h)"

definition dll_append :: "ptr \<Rightarrow> ptr \<Rightarrow> dll_heap \<Rightarrow> dll_heap" where
  "dll_append list_p node_p h = dll_insert node_p (dll_tail_p h list_p) h"

definition dll_prepend :: "ptr \<Rightarrow> ptr \<Rightarrow> dll_heap \<Rightarrow> dll_heap" where
  "dll_prepend list_p node_p h = dll_insert node_p list_p h"

definition dll_delete :: "ptr \<Rightarrow> dll_heap \<Rightarrow> dll_heap" where
  "dll_delete node_p h =
     (let h = set_next (prev_p (h node_p)) (next_p (h node_p)) h
      in set_prev (next_p (h node_p)) (prev_p (h node_p)) h)"

section \<open>Pools\<close>

text \<open>The header of the pool is at \<open>pool_p\<close>, where the header of the free list is too; the elements follow at offset 24,
  \<open>elem_size\<close> bytes each. \<open>pool_p\<close> is what \<open>MALLOCZ\<close> returns to \<open>dll_pool_init\<close>.\<close>

record dll_pool =
  pool_p :: ptr
  free_count :: u16
  elems_max :: u16
  elem_size :: u16
  pool_heap :: dll_heap

definition POOL_ELEMENTS :: nat where "POOL_ELEMENTS = 24"

fun pool_fill :: "nat \<Rightarrow> ptr \<Rightarrow> u16 \<Rightarrow> ptr \<Rightarrow> dll_heap \<Rightarrow> dll_heap" where
  "pool_fill 0 list_p sz elem_p h = h"
| "pool_fill (Suc k) list_p sz elem_p h = pool_fill k list_p sz (elem_p + unat sz) (dll_append list_p elem_p h)"

definition dll_pool_init :: "ptr \<Rightarrow> u16 \<Rightarrow> u16 \<Rightarrow> dll_heap \<Rightarrow> dll_pool option" where
  "dll_pool_init p mx sz h =
     (if p = NULL then None
      else
        (let h = dll_init p h;
             h = pool_fill (unat mx) p sz (p + POOL_ELEMENTS) h
         in Some \<lparr>pool_p = p, free_count = mx, elems_max = mx, elem_size = sz, pool_heap = h\<rparr>))"

definition dll_pool_alloc :: "dll_pool \<Rightarrow> ptr \<times> dll_pool" where
  "dll_pool_alloc pool =
     (if free_count pool = 0 then (NULL, pool)
      else
        (let elem_p = dll_head_p (pool_heap pool) (pool_p pool)
         in (elem_p, pool\<lparr>pool_heap := dll_delete elem_p (pool_heap pool), free_count := free_count pool - 1\<rparr>)))"

definition dll_pool_free :: "ptr \<Rightarrow> dll_pool \<Rightarrow> dll_pool" where
  "dll_pool_free elem_p pool =
     pool\<lparr>pool_heap := dll_prepend (pool_p pool) elem_p (pool_heap pool), free_count := free_count pool + 1\<rparr>"

definition dll_pool_free_tail :: "ptr \<Rightarrow> dll_pool \<Rightarrow> dll_pool" where
  "dll_pool_free_tail elem_p pool =
     pool\<lparr>pool_heap := dll_append (pool_p pool) elem_p (pool_heap pool), free_count := free_count pool + 1\<rparr>"

section \<open>What a list represents\<close>

fun dseg :: "dll_heap \<Rightarrow> ptr \<Rightarrow> ptr list \<Rightarrow> ptr \<Rightarrow> bool" where
  "dseg h a [] b \<longleftrightarrow> next_p (h a) = b \<and> prev_p (h b) = a"
| "dseg h a (x # xs) b \<longleftrightarrow> next_p (h a) = x \<and> prev_p (h x) = a \<and> dseg h x xs b"

definition dll_rep :: "dll_heap \<Rightarrow> ptr \<Rightarrow> ptr list \<Rightarrow> bool" where
  "dll_rep h l xs \<longleftrightarrow> distinct (l # xs) \<and> dseg h l xs l"

lemma set_next_prev [simp]:
  "next_p (set_next p v h q) = (if q = p then v else next_p (h q))" "prev_p (set_next p v h q) = prev_p (h q)"
  "prev_p (set_prev p v h q) = (if q = p then v else prev_p (h q))" "next_p (set_prev p v h q) = next_p (h q)"
  by (simp_all add: set_next_def set_prev_def)

lemma dseg_append: "dseg h a (xs @ x # ys) b \<longleftrightarrow> dseg h a xs x \<and> dseg h x ys b"
  by (induction xs arbitrary: a) auto

lemma dseg_cong:
  "(\<And>x. x \<in> set (a # xs) \<Longrightarrow> next_p (h' x) = next_p (h x)) \<Longrightarrow>
   (\<And>x. x \<in> set (xs @ [b]) \<Longrightarrow> prev_p (h' x) = prev_p (h x)) \<Longrightarrow> dseg h' a xs b = dseg h a xs b"
  by (induction xs arbitrary: a) auto

lemma dseg_first: "dseg h a xs b \<Longrightarrow> next_p (h a) = hd (xs @ [b])"
  by (cases xs) auto

lemma dseg_last: "dseg h a xs b \<Longrightarrow> prev_p (h b) = last (a # xs)"
  by (induction xs arbitrary: a) auto

lemma dseg_unique: "dseg h a xs b \<Longrightarrow> dseg h a ys b \<Longrightarrow> b \<notin> set xs \<Longrightarrow> b \<notin> set ys \<Longrightarrow> xs = ys"
proof (induction xs arbitrary: a ys)
  case Nil
  then show ?case by (cases ys) auto
next
  case (Cons x xs)
  then show ?case by (cases ys) auto
qed

lemma dll_rep_unique: "dll_rep h l xs \<Longrightarrow> dll_rep h l ys \<Longrightarrow> xs = ys"
  unfolding dll_rep_def using dseg_unique by auto

lemma insert_fields:
  assumes "new \<noteq> a" "new \<noteq> next_p (h a)"
  shows "next_p (dll_insert new a h q) = (if q = a then new else if q = new then next_p (h a) else next_p (h q))"
    "prev_p (dll_insert new a h q) = (if q = next_p (h a) then new else if q = new then a else prev_p (h q))"
  using assms by (auto simp: dll_insert_def)

lemma delete_fields:
  "next_p (dll_delete x h q) = (if q = prev_p (h x) then next_p (h x) else next_p (h q))"
  "x \<noteq> prev_p (h x) \<Longrightarrow> prev_p (dll_delete x h q) = (if q = next_p (h x) then prev_p (h x) else prev_p (h q))"
  by (auto simp: dll_delete_def)

text \<open>A node inserted after the last of \<open>l # xs\<close> stands between \<open>xs\<close> and \<open>ys\<close>.\<close>

lemma dll_insert_rep:
  assumes rep: "dll_rep h l (xs @ ys)" and new: "new \<notin> set (l # xs @ ys)"
  shows "dll_rep (dll_insert new (last (l # xs)) h) l (xs @ new # ys)"
proof -
  let ?a = "last (l # xs)"
  have dist: "distinct (l # xs @ ys)" using rep by (simp add: dll_rep_def)
  have tl: "dseg h ?a ys l"
    using rep by (cases xs rule: rev_cases) (auto simp: dll_rep_def dseg_append)
  have nx: "next_p (h ?a) = hd (ys @ [l])" using dseg_first [OF tl] .
  have hd_in: "hd (ys @ [l]) \<in> set (l # ys)" by (cases ys) auto
  have ne: "new \<noteq> ?a" "new \<noteq> next_p (h ?a)" using new last_in_set [of "l # xs"] nx hd_in by auto
  note f = insert_fields [where h = h, OF ne]
  have after: "dseg (dll_insert new ?a h) new ys l"
  proof (cases ys)
    case Nil
    then show ?thesis using nx new f ne by auto
  next
    case (Cons y ys')
    have "dseg (dll_insert new ?a h) y ys' l = dseg h y ys' l"
    proof (rule dseg_cong)
      fix x assume "x \<in> set (y # ys')"
      then have "x \<noteq> ?a" "x \<noteq> new" using dist new Cons last_in_set [of "l # xs"] by auto
      then show "next_p (dll_insert new ?a h x) = next_p (h x)" using f by simp
    next
      fix x assume "x \<in> set (ys' @ [l])"
      then have "x \<noteq> y" "x \<noteq> new" using dist new Cons by auto
      then show "prev_p (dll_insert new ?a h x) = prev_p (h x)" using f nx Cons by simp
    qed
    then show ?thesis using tl nx f Cons new by auto
  qed
  have "dseg (dll_insert new ?a h) l (xs @ new # ys) l"
  proof (cases xs rule: rev_cases)
    case Nil
    then show ?thesis using after f nx new ne by (auto split: if_splits)
  next
    case (snoc xs' a)
    then have a: "?a = a" by simp
    have "dseg (dll_insert new a h) l xs' a = dseg h l xs' a"
    proof (rule dseg_cong)
      fix x assume "x \<in> set (l # xs')"
      then show "next_p (dll_insert new a h x) = next_p (h x)" using f a dist new snoc by auto
    next
      fix x assume "x \<in> set (xs' @ [a])"
      then have "x \<noteq> hd (ys @ [l])" "x \<noteq> new" using dist new snoc hd_in by auto
      then show "prev_p (dll_insert new a h x) = prev_p (h x)" using f nx a by simp
    qed
    moreover have "dseg h l xs' a" using rep snoc by (simp add: dll_rep_def dseg_append)
    moreover have "a \<noteq> hd (ys @ [l])" using dist snoc hd_in by auto
    ultimately show ?thesis using after f a nx snoc new ne by (auto simp: dseg_append)
  qed
  then show ?thesis using dist new by (auto simp: dll_rep_def)
qed

lemma dll_delete_rep:
  assumes rep: "dll_rep h l (xs @ x # ys)"
  shows "dll_rep (dll_delete x h) l (xs @ ys)"
proof -
  have dist: "distinct (l # xs @ x # ys)" and s: "dseg h l xs x" "dseg h x ys l"
    using rep by (auto simp: dll_rep_def dseg_append)
  have pn: "prev_p (h x) = last (l # xs)" "next_p (h x) = hd (ys @ [l])"
    using dseg_last [OF s(1)] dseg_first [OF s(2)] .
  have la: "last (l # xs) \<in> set (l # xs)" by (rule last_in_set) simp
  have hd_in: "hd (ys @ [l]) \<in> set (l # ys)" by (cases ys) auto
  have "x \<noteq> prev_p (h x)" using pn la dist by auto
  note f = delete_fields(1) [of x h] delete_fields(2) [where h = h, OF this]
  have r: "dseg (dll_delete x h) (last (l # xs)) ys l"
  proof (cases ys)
    case Nil
    then show ?thesis using pn f by auto
  next
    case (Cons y ys')
    have "dseg (dll_delete x h) y ys' l = dseg h y ys' l"
      by (rule dseg_cong) (use f pn la dist Cons in auto)
    then show ?thesis using s(2) f pn Cons by auto
  qed
  have "dseg (dll_delete x h) l (xs @ ys) l"
  proof (cases xs rule: rev_cases)
    case Nil
    then show ?thesis using r by simp
  next
    case (snoc xs' a)
    have "dseg (dll_delete x h) l xs' a = dseg h l xs' a"
    proof (rule dseg_cong)
      fix z assume "z \<in> set (l # xs')"
      then show "next_p (dll_delete x h z) = next_p (h z)" using f pn dist snoc by auto
    next
      fix z assume "z \<in> set (xs' @ [a])"
      then have "z \<noteq> hd (ys @ [l])" using dist snoc hd_in by auto
      then show "prev_p (dll_delete x h z) = prev_p (h z)" using f pn by simp
    qed
    moreover have "dseg h l xs' a" using s(1) snoc by (simp add: dseg_append)
    ultimately show ?thesis using r snoc by (simp add: dseg_append)
  qed
  then show ?thesis using dist by (auto simp: dll_rep_def)
qed

lemma dll_init_rep: "dll_rep (dll_init l h) l []"
  by (simp add: dll_rep_def dll_init_def)

lemma dll_delete_single: "next_p (h x) = x \<Longrightarrow> prev_p (h x) = x \<Longrightarrow> dll_delete x h = h"
  by (cases "h x") (simp add: dll_delete_def set_next_def set_prev_def fun_upd_idem_iff)

lemma dll_append_rep:
  "dll_rep h l xs \<Longrightarrow> x \<notin> set (l # xs) \<Longrightarrow> dll_rep (dll_append l x h) l (xs @ [x])"
  using dll_insert_rep [of h l xs "[]" x] dseg_last [of h l xs l]
  by (simp add: dll_append_def dll_tail_p_def dll_rep_def)

lemma dll_prepend_rep:
  "dll_rep h l xs \<Longrightarrow> x \<notin> set (l # xs) \<Longrightarrow> dll_rep (dll_prepend l x h) l (x # xs)"
  using dll_insert_rep [of h l "[]" xs x] by (simp add: dll_prepend_def)

lemma dll_head_rep: "dll_rep h l xs \<Longrightarrow> dll_head_p h l = hd (xs @ [l])"
  unfolding dll_rep_def dll_head_p_def using dseg_first by blast

lemma dll_tail_rep: "dll_rep h l xs \<Longrightarrow> dll_tail_p h l = last (l # xs)"
  unfolding dll_rep_def dll_tail_p_def using dseg_last by blast

lemma dll_empty_rep: "dll_rep h l xs \<Longrightarrow> dll_empty h l \<longleftrightarrow> xs = []"
  using dll_head_rep [of h l xs] by (cases xs) (auto simp: dll_empty_def dll_head_p_def dll_rep_def)

section \<open>Pools are allocators\<close>

definition pool_elems :: "ptr \<Rightarrow> u16 \<Rightarrow> u16 \<Rightarrow> ptr set" where
  "pool_elems p mx sz = (\<lambda>i. p + POOL_ELEMENTS + i * unat sz) ` {..<unat mx}"

definition pool_list :: "dll_pool \<Rightarrow> ptr list \<Rightarrow> bool" where
  "pool_list pool xs \<longleftrightarrow> dll_rep (pool_heap pool) (pool_p pool) xs \<and> unat (free_count pool) = length xs"

definition pool_avail :: "dll_pool \<Rightarrow> ptr set" where
  "pool_avail pool = {x. \<exists>xs. pool_list pool xs \<and> x \<in> set xs}"

definition pool_inv :: "ptr \<Rightarrow> u16 \<Rightarrow> u16 \<Rightarrow> dll_pool \<Rightarrow> bool" where
  "pool_inv p mx sz pool \<longleftrightarrow>
     p \<noteq> NULL \<and> 16 < sz \<and> pool_p pool = p \<and> (\<exists>xs. pool_list pool xs \<and> set xs \<subseteq> pool_elems p mx sz)"

lemma pool_avail_eq: "pool_list pool xs \<Longrightarrow> pool_avail pool = set xs"
  unfolding pool_avail_def pool_list_def using dll_rep_unique by blast

lemma pool_elems_card: "card (pool_elems p mx sz) \<le> unat mx" "finite (pool_elems p mx sz)"
  unfolding pool_elems_def using card_image_le [of "{..<unat mx}"] by simp_all

lemma pool_elems_pos: "p \<notin> pool_elems p mx sz" "NULL \<notin> pool_elems p mx sz"
  by (auto simp: pool_elems_def POOL_ELEMENTS_def)

lemma pool_alloc_Cons:
  assumes "pool_list pool (x # xs)"
  shows "\<exists>pool'. dll_pool_alloc pool = (x, pool') \<and> pool_list pool' xs \<and> pool_p pool' = pool_p pool"
proof -
  have rep: "dll_rep (pool_heap pool) (pool_p pool) (x # xs)" and n: "unat (free_count pool) = Suc (length xs)"
    using assms by (auto simp: pool_list_def)
  have nz: "free_count pool \<noteq> 0" using n by auto
  have "unat (free_count pool - 1) = length xs" using n nz unat_minus_one [OF nz] by simp
  moreover have "dll_rep (dll_delete x (pool_heap pool)) (pool_p pool) xs"
    using dll_delete_rep [of _ _ "[]" x xs] rep by simp
  ultimately show ?thesis
    using nz dll_head_rep [OF rep] by (simp add: dll_pool_alloc_def pool_list_def Let_def)
qed

lemma pool_free_Cons:
  assumes l: "pool_list pool xs" and x: "x \<notin> set (pool_p pool # xs)" and n: "length xs < 65535"
  shows "pool_list (dll_pool_free x pool) (x # xs)" "pool_list (dll_pool_free_tail x pool) (xs @ [x])"
proof -
  have "unat (free_count pool + 1) = Suc (length xs)"
    using l n by (simp add: pool_list_def unat_word_ariths)
  then show "pool_list (dll_pool_free x pool) (x # xs)" "pool_list (dll_pool_free_tail x pool) (xs @ [x])"
    using l x dll_prepend_rep dll_append_rep
    by (simp_all add: pool_list_def dll_pool_free_def dll_pool_free_tail_def)
qed

lemma pool_list_room:
  assumes l: "pool_list pool xs" and sub: "set xs \<subseteq> pool_elems p mx sz" and x: "x \<in> pool_elems p mx sz" "x \<notin> set xs"
  shows "length xs < 65535"
proof -
  have "card (set xs) < card (pool_elems p mx sz)"
    using sub x by (intro psubset_card_mono pool_elems_card(2)) blast
  moreover have "card (set xs) = length xs" using l by (auto simp: pool_list_def dll_rep_def distinct_card)
  ultimately show ?thesis using pool_elems_card(1) [of p mx sz] unat_u16_less [of mx] by linarith
qed

interpretation dpool: id_allocator "pool_inv p mx sz" pool_avail "pool_elems p mx sz" dll_pool_alloc dll_pool_free NULL
  for p mx sz
proof
  fix pool assume inv: "pool_inv p mx sz pool"
  then obtain xs where xs: "pool_list pool xs" "set xs \<subseteq> pool_elems p mx sz" and p: "p \<noteq> NULL" "16 < sz" "pool_p pool = p"
    by (auto simp: pool_inv_def)
  show "pool_avail pool \<subseteq> pool_elems p mx sz" using xs pool_avail_eq by auto
  show "NULL \<notin> pool_elems p mx sz" by (rule pool_elems_pos)
  show "\<exists>i pool'. dll_pool_alloc pool = (i, pool') \<and> i \<in> pool_avail pool \<and> pool_inv p mx sz pool' \<and>
      pool_avail pool' = pool_avail pool - {i}" if ne: "pool_avail pool \<noteq> {}"
  proof -
    obtain x ys where ys: "xs = x # ys" using ne pool_avail_eq [OF xs(1)] by (cases xs) simp_all
    then obtain pool' where p': "dll_pool_alloc pool = (x, pool')" "pool_list pool' ys" "pool_p pool' = p"
      using pool_alloc_Cons xs(1) p(3) by blast
    have "x \<notin> set ys" using xs(1) ys by (simp add: pool_list_def dll_rep_def)
    then have "pool_avail pool' = pool_avail pool - {x}" "x \<in> pool_avail pool"
      using pool_avail_eq [OF p'(2)] pool_avail_eq [OF xs(1)] ys by auto
    moreover have "pool_inv p mx sz pool'" using p' p xs(2) ys by (auto simp: pool_inv_def)
    ultimately show ?thesis using p'(1) by blast
  qed
  show "\<exists>pool'. dll_pool_alloc pool = (NULL, pool') \<and> pool_inv p mx sz pool' \<and> pool_avail pool' = {}"
    if "pool_avail pool = {}"
  proof -
    have "free_count pool = 0" using that pool_avail_eq [OF xs(1)] xs(1) by (simp add: pool_list_def unat_eq_0)
    then show ?thesis using that inv by (simp add: dll_pool_alloc_def)
  qed
  show "pool_inv p mx sz (dll_pool_free i pool) \<and> pool_avail (dll_pool_free i pool) = insert i (pool_avail pool)"
    if i: "i \<in> pool_elems p mx sz" "i \<notin> pool_avail pool" for i
  proof -
    have ni: "i \<notin> set xs" using i(2) pool_avail_eq [OF xs(1)] by simp
    have "i \<noteq> p" using i(1) pool_elems_pos(1) [of p mx sz] by blast
    then have l: "pool_list (dll_pool_free i pool) (i # xs)"
      using pool_free_Cons(1) [OF xs(1)] pool_list_room [OF xs i(1) ni] ni p(3) by simp
    moreover have "pool_p (dll_pool_free i pool) = p" using p(3) by (simp add: dll_pool_free_def)
    moreover have "set (i # xs) \<subseteq> pool_elems p mx sz" using xs(2) i(1) by simp
    ultimately have "pool_inv p mx sz (dll_pool_free i pool)" using p(1,2) unfolding pool_inv_def by blast
    then show ?thesis using pool_avail_eq [OF l] pool_avail_eq [OF xs(1)] by simp
  qed
qed

lemma pool_fill_rep:
  assumes "dll_rep h l xs" "\<And>i. i < k \<Longrightarrow> e + i * unat sz \<notin> set (l # xs)" "0 < unat sz"
  shows "dll_rep (pool_fill k l sz e h) l (xs @ map (\<lambda>i. e + i * unat sz) [0..<k])"
  using assms
proof (induction k arbitrary: e h xs)
  case (Suc k)
  have e: "e \<notin> set (l # xs)" using Suc.prems(2) [of 0] by simp
  have "e + unat sz + i * unat sz \<notin> set (l # xs @ [e])" if "i < k" for i
    using Suc.prems(2) [of "Suc i"] Suc.prems(3) that by (simp add: algebra_simps)
  then have "dll_rep (pool_fill (Suc k) l sz e h) l ((xs @ [e]) @ map (\<lambda>i. e + unat sz + i * unat sz) [0..<k])"
    using Suc.IH [OF dll_append_rep [OF Suc.prems(1) e], of "e + unat sz"] Suc.prems(3) by simp
  moreover have "map (\<lambda>i. e + i * unat sz) [0..<Suc k] = e # map (\<lambda>i. e + unat sz + i * unat sz) [0..<k]"
    by (simp add: upt_conv_Cons map_Suc_upt [symmetric] o_def algebra_simps del: upt_Suc)
  ultimately show ?case by simp
qed simp

lemma pool_init_inv:
  assumes "p \<noteq> NULL" and sz: "16 < sz"
  shows "\<exists>pool. dll_pool_init p mx sz h = Some pool \<and> pool_inv p mx sz pool \<and> pool_avail pool = pool_elems p mx sz \<and>
    pool_list pool (map (\<lambda>i. p + POOL_ELEMENTS + i * unat sz) [0..<unat mx])"
proof -
  let ?xs = "map (\<lambda>i. p + POOL_ELEMENTS + i * unat sz) [0..<unat mx]"
  obtain pool where pool: "dll_pool_init p mx sz h = Some pool" "pool_p pool = p" "free_count pool = mx"
      "pool_heap pool = pool_fill (unat mx) p sz (p + POOL_ELEMENTS) (dll_init p h)"
    using assms by (simp add: dll_pool_init_def Let_def)
  have "0 < unat sz" using sz by (simp add: word_less_nat_alt)
  then have l: "pool_list pool ?xs"
    using pool pool_fill_rep [OF dll_init_rep, of "unat mx" "p + POOL_ELEMENTS" sz p h]
    by (simp add: pool_list_def POOL_ELEMENTS_def)
  moreover have "set ?xs = pool_elems p mx sz" by (auto simp: pool_elems_def)
  ultimately show ?thesis
    using assms pool pool_avail_eq [OF l] unfolding pool_inv_def by blast
qed

lemma pool_elems_card_eq: "16 < sz \<Longrightarrow> card (pool_elems p mx sz) = unat mx"
  unfolding pool_elems_def by (subst card_image) (auto simp: inj_on_def word_less_nat_alt)

section \<open>Properties\<close>



end
