(* ===== verification/Flow_Queue.thy ===== *)
theory Flow_Queue
  imports Pktq_Rep
begin

text \<open>
  The backup queues of \<open>dhd_flowring.c\<close>: a bounded queue of packets in front of every flow ring. The build leaves
  \<open>BCM_ROUTER_DHD\<close> undefined, so the throttle is the length against the maximum and the cumulative counters are compiled
  out. \<open>fq_rep L queue xs\<close> relates a queue to the list of its packets through the queues of \<open>Pktq\<close>, whose lemmas carry
  the proofs.
\<close>

section \<open>Backup queues\<close>

record flow_queue =
  fq_head :: ptr
  fq_tail :: ptr
  fq_len :: u16
  fq_max :: u16
  fq_threshold :: u32
  fq_clen_ptr :: ptr
  fq_failures :: u32
  fq_cb :: "ptr \<Rightarrow> bcme"
  fq_l2threshold :: u32
  fq_l2clen_ptr :: ptr

definition DHD_FLOW_QUEUE_FULL :: "flow_queue \<Rightarrow> bool" where
  "DHD_FLOW_QUEUE_FULL queue \<longleftrightarrow> fq_len queue \<ge> fq_max queue"

definition DHD_FLOW_QUEUE_SET_MAX :: "int \<Rightarrow> flow_queue \<Rightarrow> flow_queue" where
  "DHD_FLOW_QUEUE_SET_MAX budget queue = queue\<lparr>fq_max := of_int (budget - 1)\<rparr>"

definition DHD_FLOW_QUEUE_SET_THRESHOLD :: "int \<Rightarrow> flow_queue \<Rightarrow> flow_queue" where
  "DHD_FLOW_QUEUE_SET_THRESHOLD cumm queue = queue\<lparr>fq_threshold := of_int (cumm - 1)\<rparr>"

definition DHD_FLOW_QUEUE_SET_L2THRESHOLD :: "int \<Rightarrow> flow_queue \<Rightarrow> flow_queue" where
  "DHD_FLOW_QUEUE_SET_L2THRESHOLD l2cumm queue = queue\<lparr>fq_l2threshold := of_int (l2cumm - 1)\<rparr>"

definition dhd_flow_queue_throttle :: "flow_queue \<Rightarrow> bool" where
  "dhd_flow_queue_throttle queue = DHD_FLOW_QUEUE_FULL queue"

definition dhd_flow_queue_overflow :: "ptr \<Rightarrow> bcme" where
  "dhd_flow_queue_overflow pkt = BCME_NORESOURCE"

text \<open>\<open>ctr\<close> and \<open>l2ctr\<close> are the addresses of the two counters in \<open>dhd_pub\<close>. \<open>dhd_flow_queue_init\<close> differs by
  initialising the list node of the queue, which nothing uses.\<close>

definition dhd_flow_queue_reinit :: "ptr \<Rightarrow> ptr \<Rightarrow> int \<Rightarrow> flow_queue \<Rightarrow> flow_queue" where
  "dhd_flow_queue_reinit ctr l2ctr mx queue =
     (let queue = queue\<lparr>fq_head := NULL, fq_tail := NULL, fq_len := 0\<rparr>;
          queue = DHD_FLOW_QUEUE_SET_MAX mx queue;
          queue = DHD_FLOW_QUEUE_SET_THRESHOLD mx queue;
          queue = queue\<lparr>fq_clen_ptr := ctr, fq_l2clen_ptr := l2ctr\<rparr>
      in queue\<lparr>fq_failures := 0, fq_cb := dhd_flow_queue_overflow\<rparr>)"

definition dhd_flow_queue_init :: "ptr \<Rightarrow> ptr \<Rightarrow> int \<Rightarrow> flow_queue \<Rightarrow> flow_queue" where
  "dhd_flow_queue_init ctr l2ctr mx queue = dhd_flow_queue_reinit ctr l2ctr mx queue"

definition dhd_flow_queue_register :: "(ptr \<Rightarrow> bcme) \<Rightarrow> flow_queue \<Rightarrow> flow_queue" where
  "dhd_flow_queue_register cb queue = queue\<lparr>fq_cb := cb\<rparr>"

definition dhd_flow_queue_enqueue :: "ptr \<Rightarrow> links \<Rightarrow> flow_queue \<Rightarrow> bcme \<times> links \<times> flow_queue" where
  "dhd_flow_queue_enqueue pkt L queue =
     (if dhd_flow_queue_throttle queue then (fq_cb queue pkt, L, queue\<lparr>fq_failures := fq_failures queue + 1\<rparr>)
      else
        (let (L, queue) = (if fq_head queue \<noteq> NULL then (PKTSETLINK (fq_tail queue) pkt L, queue)
                           else (L, queue\<lparr>fq_head := pkt\<rparr>));
             L = PKTSETLINK pkt NULL L;
             queue = queue\<lparr>fq_tail := pkt\<rparr>
         in (BCME_OK, L, queue\<lparr>fq_len := fq_len queue + 1\<rparr>)))"

definition dhd_flow_queue_enqueue_head :: "ptr \<Rightarrow> links \<Rightarrow> flow_queue \<Rightarrow> bcme \<times> links \<times> flow_queue" where
  "dhd_flow_queue_enqueue_head pkt L queue =
     (if dhd_flow_queue_throttle queue then (fq_cb queue pkt, L, queue\<lparr>fq_failures := fq_failures queue + 1\<rparr>)
      else
        (let (L, queue) = (if fq_head queue \<noteq> NULL then (PKTSETLINK pkt (fq_head queue) L, queue\<lparr>fq_head := pkt\<rparr>)
                           else (PKTSETLINK pkt NULL L, queue\<lparr>fq_head := pkt, fq_tail := pkt\<rparr>))
         in (BCME_OK, L, queue\<lparr>fq_len := fq_len queue + 1\<rparr>)))"

definition dhd_flow_queue_dequeue :: "links \<Rightarrow> flow_queue \<Rightarrow> ptr \<times> links \<times> flow_queue" where
  "dhd_flow_queue_dequeue L queue =
     (let pkt = fq_head queue
      in if pkt = NULL then (pkt, L, queue)
         else
           (let queue = queue\<lparr>fq_head := PKTLINK L pkt\<rparr>;
                queue = (if fq_head queue = NULL then queue\<lparr>fq_tail := NULL\<rparr> else queue);
                queue = queue\<lparr>fq_len := fq_len queue - 1\<rparr>
            in (pkt, PKTSETLINK pkt NULL L, queue)))"

definition dhd_flow_queue_reinsert :: "ptr \<Rightarrow> links \<Rightarrow> flow_queue \<Rightarrow> links \<times> flow_queue" where
  "dhd_flow_queue_reinsert pkt L queue =
     (let queue = (if fq_head queue = NULL then queue\<lparr>fq_tail := pkt\<rparr> else queue);
          L = PKTSETLINK pkt (fq_head queue) L;
          queue = queue\<lparr>fq_head := pkt\<rparr>
      in (L, queue\<lparr>fq_len := fq_len queue + 1\<rparr>))"

text \<open>\<open>while ((pkt = dhd_flow_queue_dequeue(..)) != NULL) PKTFREE(pkt)\<close>, with the packets freed so far.\<close>

partial_function (option) flush_queue :: "links \<Rightarrow> flow_queue \<Rightarrow> ptr list \<Rightarrow> (links \<times> flow_queue \<times> ptr list) option" where
  "flush_queue L queue freed =
     (case dhd_flow_queue_dequeue L queue of
        (pkt, L, queue) \<Rightarrow> if pkt \<noteq> NULL then flush_queue L queue (freed @ [pkt]) else Some (L, queue, freed))"

declare flush_queue.simps [code]

section \<open>What a backup queue represents\<close>

definition as_prec :: "flow_queue \<Rightarrow> pktq_prec" where
  "as_prec queue = \<lparr>head = fq_head queue, tail = fq_tail queue, n_pkts = fq_len queue, max_pkts = fq_max queue,
     stall_count = 0, dequeue_count = 0\<rparr>"

definition fq_rep :: "links \<Rightarrow> flow_queue \<Rightarrow> ptr list \<Rightarrow> bool" where
  "fq_rep L queue xs \<longleftrightarrow> q_rep L (as_prec queue) xs"

text \<open>The parts of a queue that no queue operation but the initialisation changes.\<close>

definition same_setup :: "flow_queue \<Rightarrow> flow_queue \<Rightarrow> bool" where
  "same_setup q q' \<longleftrightarrow> fq_max q' = fq_max q \<and> fq_cb q' = fq_cb q"

lemma same_setup_refl [simp]: "same_setup q q"
  by (simp add: same_setup_def)

lemma same_setup_trans: "same_setup q q' \<Longrightarrow> same_setup q' q'' \<Longrightarrow> same_setup q q''"
  by (simp add: same_setup_def)

lemma fq_rep_cong: "(\<And>x. x \<in> set xs \<Longrightarrow> L' x = L x) \<Longrightarrow> fq_rep L' q xs = fq_rep L q xs"
  unfolding fq_rep_def by (rule q_rep_cong)

lemma fq_rep_distinct: "fq_rep L q xs \<Longrightarrow> distinct xs"
  unfolding fq_rep_def by (rule q_rep_distinct)

lemma fq_rep_not_NULL: "fq_rep L q xs \<Longrightarrow> NULL \<notin> set xs"
  unfolding fq_rep_def by (rule q_rep_not_NULL)

lemma fq_rep_len: "fq_rep L q xs \<Longrightarrow> unat (fq_len q) = length xs"
  unfolding fq_rep_def using q_rep_n_pkts [of L "as_prec q" xs] by (simp add: as_prec_def)

lemma fq_rep_len_0: "fq_rep L q xs \<Longrightarrow> fq_len q = 0 \<longleftrightarrow> xs = []"
  unfolding fq_rep_def using q_rep_n_pkts_0 [of L "as_prec q" xs] by (simp add: as_prec_def)

lemma fq_full_iff: "fq_rep L q xs \<Longrightarrow> dhd_flow_queue_throttle q \<longleftrightarrow> unat (fq_max q) \<le> length xs"
  using fq_rep_len [of L q xs] by (simp add: dhd_flow_queue_throttle_def DHD_FLOW_QUEUE_FULL_def word_le_nat_alt)

lemma fq_reinit_rep [simp]: "fq_rep L (dhd_flow_queue_reinit ctr l2ctr mx q) []"
  by (simp add: fq_rep_def q_rep_def as_prec_def dhd_flow_queue_reinit_def DHD_FLOW_QUEUE_SET_MAX_def
      DHD_FLOW_QUEUE_SET_THRESHOLD_def Let_def)

lemma fq_reinit_setup [simp]:
  "fq_max (dhd_flow_queue_reinit ctr l2ctr mx q) = of_int (mx - 1)"
  "fq_cb (dhd_flow_queue_reinit ctr l2ctr mx q) = dhd_flow_queue_overflow"
  by (simp_all add: dhd_flow_queue_reinit_def DHD_FLOW_QUEUE_SET_MAX_def DHD_FLOW_QUEUE_SET_THRESHOLD_def Let_def)

lemma fq_refused:
  assumes "fq_rep L q xs" "unat (fq_max q) \<le> length xs"
  shows "dhd_flow_queue_enqueue pkt L q = (fq_cb q pkt, L, q\<lparr>fq_failures := fq_failures q + 1\<rparr>)"
    "dhd_flow_queue_enqueue_head pkt L q = (fq_cb q pkt, L, q\<lparr>fq_failures := fq_failures q + 1\<rparr>)"
  using assms fq_full_iff by (auto simp: dhd_flow_queue_enqueue_def dhd_flow_queue_enqueue_head_def)

lemma fq_rep_failures [simp]: "fq_rep L (q\<lparr>fq_failures := n\<rparr>) xs = fq_rep L q xs"
  by (simp add: fq_rep_def as_prec_def)

lemma fq_room: "length xs < unat (fq_max q) \<Longrightarrow> length xs < 65535"
  using unat_u16_less [of "fq_max q"] by linarith

lemma fq_enqueue_rep:
  assumes rep: "fq_rep L q xs" and room: "length xs < unat (fq_max q)" and pkt: "pkt \<noteq> NULL" "pkt \<notin> set xs"
  obtains L' q' where "dhd_flow_queue_enqueue pkt L q = (BCME_OK, L', q')" "fq_rep L' q' (xs @ [pkt])"
    "\<And>y. y \<notin> set (pkt # xs) \<Longrightarrow> L' y = L y" "same_setup q q'"
proof -
  let ?L = "L(pkt := NULL)"
  have "q_rep ?L (as_prec q) xs" using rep pkt(2) by (subst q_rep_cong [of xs _ L]) (auto simp: fq_rep_def)
  then obtain L' p' where e: "q_enq_tail pkt ?L (as_prec q) = (L', p')" "q_rep L' p' (xs @ [pkt])"
      "\<And>y. y \<notin> set xs \<Longrightarrow> L' y = ?L y"
    by (rule q_enq_tail_rep [of ?L "as_prec q" xs pkt]) (use fq_room [OF room] pkt in auto)
  have tail: "fq_head q \<noteq> NULL \<Longrightarrow> fq_tail q \<noteq> pkt"
    using q_rep_tail [of L "as_prec q" xs] q_rep_head_NULL [of L "as_prec q" xs] rep pkt(2)
    by (auto simp: fq_rep_def as_prec_def)
  have nf: "\<not> dhd_flow_queue_throttle q" using fq_full_iff [OF rep] room by simp
  obtain q' where q': "dhd_flow_queue_enqueue pkt L q = (BCME_OK, L', q')" "as_prec q' = p'" "same_setup q q'"
    using nf e(1) tail
    by (auto simp: dhd_flow_queue_enqueue_def q_enq_tail_def as_prec_def PKTSETLINK_def fun_upd_twist same_setup_def
        split: if_splits)
  then show ?thesis using e that [OF q'(1)] by (auto simp: fq_rep_def)
qed

lemma fq_enqueue_head_rep:
  assumes rep: "fq_rep L q xs" and room: "length xs < unat (fq_max q)" and pkt: "pkt \<noteq> NULL" "pkt \<notin> set xs"
  obtains L' q' where "dhd_flow_queue_enqueue_head pkt L q = (BCME_OK, L', q')" "fq_rep L' q' (pkt # xs)"
    "\<And>y. y \<notin> set (pkt # xs) \<Longrightarrow> L' y = L y" "same_setup q q'"
proof -
  obtain L' p' where e: "q_enq_head pkt L (as_prec q) = (L', p')" "q_rep L' p' (pkt # xs)" "\<And>y. y \<noteq> pkt \<Longrightarrow> L' y = L y"
    by (rule q_enq_head_rep [of L "as_prec q" xs pkt]) (use fq_room [OF room] rep pkt in \<open>auto simp: fq_rep_def\<close>)
  have nf: "\<not> dhd_flow_queue_throttle q" using fq_full_iff [OF rep] room by simp
  obtain q' where q': "dhd_flow_queue_enqueue_head pkt L q = (BCME_OK, L', q')" "as_prec q' = p'" "same_setup q q'"
    using nf e(1)
    by (auto simp: dhd_flow_queue_enqueue_head_def q_enq_head_def as_prec_def PKTSETLINK_def same_setup_def
        split: if_splits)
  then show ?thesis using e that [OF q'(1)] by (auto simp: fq_rep_def)
qed

lemma fq_reinsert_rep:
  assumes rep: "fq_rep L q xs" and room: "length xs < 65535" and pkt: "pkt \<noteq> NULL" "pkt \<notin> set xs"
  obtains L' q' where "dhd_flow_queue_reinsert pkt L q = (L', q')" "fq_rep L' q' (pkt # xs)"
    "\<And>y. y \<notin> set (pkt # xs) \<Longrightarrow> L' y = L y" "same_setup q q'"
proof -
  obtain L' p' where e: "q_enq_head pkt L (as_prec q) = (L', p')" "q_rep L' p' (pkt # xs)" "\<And>y. y \<noteq> pkt \<Longrightarrow> L' y = L y"
    by (rule q_enq_head_rep [of L "as_prec q" xs pkt]) (use room rep pkt in \<open>auto simp: fq_rep_def\<close>)
  obtain q' where q': "dhd_flow_queue_reinsert pkt L q = (L', q')" "as_prec q' = p'" "same_setup q q'"
    using e(1)
    by (auto simp: dhd_flow_queue_reinsert_def q_enq_head_def as_prec_def PKTSETLINK_def same_setup_def Let_def
        split: if_splits)
  then show ?thesis using e that [OF q'(1)] by (auto simp: fq_rep_def)
qed

lemma fq_dequeue_Nil: "fq_rep L q [] \<Longrightarrow> dhd_flow_queue_dequeue L q = (NULL, L, q)"
  by (simp add: fq_rep_def q_rep_def as_prec_def dhd_flow_queue_dequeue_def)

lemma fq_dequeue_Cons:
  assumes rep: "fq_rep L q (x # xs)"
  obtains q' where "dhd_flow_queue_dequeue L q = (x, L(x := NULL), q')" "fq_rep (L(x := NULL)) q' xs" "same_setup q q'"
    "x \<noteq> NULL" "x \<notin> set xs"
proof -
  obtain p' where d: "q_deq_head L (as_prec q) = (x, L(x := NULL), p')" "q_rep (L(x := NULL)) p' xs"
    by (rule q_deq_head_Cons [of L "as_prec q" x xs]) (use rep in \<open>auto simp: fq_rep_def\<close>)
  have x: "x \<noteq> NULL" "x \<notin> set xs" using fq_rep_not_NULL [OF rep] fq_rep_distinct [OF rep] by auto
  obtain q' where q': "dhd_flow_queue_dequeue L q = (x, L(x := NULL), q')" "as_prec q' = p'" "same_setup q q'"
    using d(1) x(1)
    by (auto simp: dhd_flow_queue_dequeue_def q_deq_head_def as_prec_def same_setup_def Let_def split: if_splits)
  then show ?thesis using d(2) x that [OF q'(1)] by (auto simp: fq_rep_def)
qed

text \<open>The flush loop ends; it frees the packets in queue order.\<close>

lemma flush_queue_all:
  "fq_rep L q xs \<Longrightarrow> \<exists>L' q'. flush_queue L q freed = Some (L', q', freed @ xs) \<and> fq_rep L' q' [] \<and>
    (\<forall>y. y \<notin> set xs \<longrightarrow> L' y = L y) \<and> same_setup q q'"
proof (induction xs arbitrary: L q freed)
  case Nil
  then show ?case by (subst flush_queue.simps) (simp add: fq_dequeue_Nil)
next
  case (Cons x xs)
  obtain q1 where q1: "dhd_flow_queue_dequeue L q = (x, L(x := NULL), q1)" "fq_rep (L(x := NULL)) q1 xs" "same_setup q q1"
    "x \<noteq> NULL" "x \<notin> set xs"
    using fq_dequeue_Cons [OF Cons.prems] by metis
  from Cons.IH [OF q1(2), of "freed @ [x]"] obtain L' q' where IH:
    "flush_queue (L(x := NULL)) q1 (freed @ [x]) = Some (L', q', freed @ x # xs)" "fq_rep L' q' []"
    "\<forall>y. y \<notin> set xs \<longrightarrow> L' y = (L(x := NULL)) y" "same_setup q1 q'"
    by (auto simp del: fun_upd_apply)
  have "flush_queue L q freed = Some (L', q', freed @ x # xs)"
    using q1 IH(1) by (subst flush_queue.simps) simp
  then show ?case using IH(2-4) same_setup_trans [OF q1(3)] by auto
qed

end
