(* ===== verification/Flowring.thy ===== *)
theory Flowring
  imports Dll Flow_Queue
begin

text \<open>
  The flow rings of \<open>dhd_flowring.c\<close>. A flow ring carries the packets of one flow to the device: \<open>dhd_flowid_lookup\<close> finds
  the ring of a packet by interface, priority and destination, and creates it when there is none. Every ring has a backup
  queue (\<open>Flow_Queue\<close>). Flow ids come from the \<open>id16\<close> allocators of \<open>Id_Alloc\<close>; the rings the device has opened are on a
  list of \<open>Dll\<close>; the chains of the lookup table are lists. The options of the build are \<open>WLTDLS\<close>, \<open>PCIE_FULL_DONGLE\<close> and
  \<open>DHD_LOSSLESS_ROAMING\<close>; \<open>dhd_add_flowid\<close> and \<open>dhd_del_flowid\<close> are compiled out. Locks are not modelled: every function
  is one step. An interface role, index or a number of rings is a \<open>nat\<close>.
\<close>

unbundle bit_operations_syntax

section \<open>Rings and the lookup table\<close>

datatype flow_status =
    FLOW_RING_STATUS_OPEN | FLOW_RING_STATUS_CREATE_PENDING | FLOW_RING_STATUS_CLOSED
  | FLOW_RING_STATUS_DELETE_PENDING | FLOW_RING_STATUS_FLUSH_PENDING | FLOW_RING_STATUS_STA_FREEING

record flow_info =
  fi_tid :: u8
  fi_ifindex :: nat
  fi_sa :: "u8 list"
  fi_da :: "u8 list"

record flow_ring_node =
  fr_queue :: flow_queue
  active :: bool
  status :: flow_status
  node_flowid :: u16
  node_info :: flow_info
  prot_info :: bool

record flow_hash_info =
  hash_flowid :: u16
  hash_info :: flow_info

record if_flow_lkup =
  if_status :: bool
  role :: nat
  fl_hash :: "flow_hash_info list list"

text \<open>The part of \<open>dhd_pub\<close> and \<open>dhd_bus\<close> the flow rings use. A \<open>None\<close> is a \<open>NULL\<close> pointer, and so is an empty
  \<open>if_lkup\<close>. \<open>prot_info\<close> above is whether the ring has a message ring. \<open>dll_mem\<close> holds the active list: its header is at
  \<open>ACTIVE_LIST\<close>, the node of a ring at \<open>ring_list\<close>. \<open>pkt_flowid\<close> is the tag of a packet, \<open>sent_pkts\<close> are the packets the
  message rings have accepted, \<open>freed_pkts\<close> those given back, in order.\<close>

record dhd_flow =
  flow_rings_inited :: bool
  flowid_allocator :: "id16_map option"
  htput_flowid_allocator :: "id16_map option"
  htput_support :: bool
  htput_flow_ring_start :: u16
  htput_client_flow_rings :: u16
  max_tx_flowrings :: u16
  pcie_shared_v6 :: bool
  max_submission_rings :: nat
  max_tx_flowid :: u32
  num_h2d_rings :: nat
  flow_ring_table :: "flow_ring_node list option"
  if_lkup :: "if_flow_lkup list"
  flow_prio_map_type :: u8
  flow_prio_map :: "u8 list"
  dequeue_prec_map :: u8
  max_multi_client_flow_rings :: u8
  multi_client_flow_rings :: int
  tdls_peers :: "u8 list list"
  flow_ring_queue_threshold :: int
  cumm_ctr :: ptr
  l2cumm_ctr :: ptr
  dll_mem :: dll_heap
  pkt_links :: links
  pkt_flowid :: "ptr \<Rightarrow> u16"
  sent_pkts :: "(u16 \<times> ptr) list"
  freed_pkts :: "ptr list"

definition ACTIVE_LIST :: ptr where "ACTIVE_LIST = 1"
definition ring_list :: "u16 \<Rightarrow> ptr" where "ring_list flowid = 2 + unat flowid"

definition FLOWID_INVALID :: u16 where "FLOWID_INVALID = ID16_INVALID"
definition FLOWID_RESERVED :: u16 where "FLOWID_RESERVED = 2"
definition DHD_MAX_IFS :: nat where "DHD_MAX_IFS = 16"
definition DHD_FLOWRING_HASH_SIZE :: nat where "DHD_FLOWRING_HASH_SIZE = 256"
definition NUMPRIO :: nat where "NUMPRIO = 8"
definition HTPUT_FLOW_RING_PRIO :: u8 where "HTPUT_FLOW_RING_PRIO = 0"
definition HTPUT_NUM_STA_FLOW_RINGS :: u16 where "HTPUT_NUM_STA_FLOW_RINGS = 1"
definition HTPUT_NUM_CLIENT_FLOW_RINGS :: u16 where "HTPUT_NUM_CLIENT_FLOW_RINGS = 3"
definition HTPUT_TOTAL_FLOW_RINGS :: u16 where
  "HTPUT_TOTAL_FLOW_RINGS = HTPUT_NUM_STA_FLOW_RINGS + HTPUT_NUM_CLIENT_FLOW_RINGS"

definition WLC_E_IF_ROLE_STA :: nat where "WLC_E_IF_ROLE_STA = 0"
definition WLC_E_IF_ROLE_AP :: nat where "WLC_E_IF_ROLE_AP = 1"
definition WLC_E_IF_ROLE_WDS :: nat where "WLC_E_IF_ROLE_WDS = 2"
definition WLC_E_IF_ROLE_P2P_GO :: nat where "WLC_E_IF_ROLE_P2P_GO = 3"
definition WLC_E_IF_ROLE_P2P_CLIENT :: nat where "WLC_E_IF_ROLE_P2P_CLIENT = 4"
definition WLC_E_IF_ROLE_NAN :: nat where "WLC_E_IF_ROLE_NAN = 9"
definition WLC_E_IF_ADD :: nat where "WLC_E_IF_ADD = 1"
definition WLC_E_IF_DEL :: nat where "WLC_E_IF_DEL = 2"
definition WLC_E_IF_CHANGE :: nat where "WLC_E_IF_CHANGE = 3"

definition prio2ac :: "u8 list" where "prio2ac = [0, 1, 1, 0, 2, 2, 3, 3]"
definition prio2tid :: "u8 list" where "prio2tid = [0, 1, 2, 3, 4, 5, 6, 7]"

definition ETHER_ISMULTI :: "u8 list \<Rightarrow> bool" where
  "ETHER_ISMULTI ea \<longleftrightarrow> (ea ! 0) AND 1 \<noteq> 0"

definition DHD_FLOWRING_HASHINDEX :: "u8 list \<Rightarrow> u8 \<Rightarrow> nat" where
  "DHD_FLOWRING_HASHINDEX ea prio = unat ((ea ! 3) XOR (ea ! 4) XOR (ea ! 5) XOR prio) mod DHD_FLOWRING_HASH_SIZE"

definition DHD_IF_ROLE :: "dhd_flow \<Rightarrow> nat \<Rightarrow> nat" where
  "DHD_IF_ROLE d idx = role (if_lkup d ! idx)"

definition DHD_IF_ROLE_GENERIC_STA :: "dhd_flow \<Rightarrow> nat \<Rightarrow> bool" where
  "DHD_IF_ROLE_GENERIC_STA d idx \<longleftrightarrow>
     DHD_IF_ROLE d idx = WLC_E_IF_ROLE_STA \<or> DHD_IF_ROLE d idx = WLC_E_IF_ROLE_P2P_CLIENT \<or>
     DHD_IF_ROLE d idx = WLC_E_IF_ROLE_WDS"

definition DHD_IF_ROLE_MULTI_CLIENT :: "dhd_flow \<Rightarrow> nat \<Rightarrow> bool" where
  "DHD_IF_ROLE_MULTI_CLIENT d idx \<longleftrightarrow>
     DHD_IF_ROLE d idx = WLC_E_IF_ROLE_AP \<or> DHD_IF_ROLE d idx = WLC_E_IF_ROLE_P2P_GO \<or>
     DHD_IF_ROLE d idx = WLC_E_IF_ROLE_NAN"

definition DHD_IS_FLOWID_HTPUT :: "dhd_flow \<Rightarrow> u16 \<Rightarrow> bool" where
  "DHD_IS_FLOWID_HTPUT d flowid \<longleftrightarrow>
     htput_support d \<and> unat flowid \<ge> unat (htput_flow_ring_start d) \<and>
     unat flowid < unat (htput_flow_ring_start d) + unat HTPUT_TOTAL_FLOW_RINGS"

section \<open>Flow ids\<close>

text \<open>The chain of a bucket, and the replacement of one.\<close>

definition bucket :: "dhd_flow \<Rightarrow> nat \<Rightarrow> nat \<Rightarrow> flow_hash_info list" where
  "bucket d ifindex hash = fl_hash (if_lkup d ! ifindex) ! hash"

definition set_bucket :: "nat \<Rightarrow> nat \<Rightarrow> flow_hash_info list \<Rightarrow> dhd_flow \<Rightarrow> dhd_flow" where
  "set_bucket ifindex hash ns d =
     (let lk = if_lkup d ! ifindex
      in d\<lparr>if_lkup := (if_lkup d)[ifindex := lk\<lparr>fl_hash := (fl_hash lk)[hash := ns]\<rparr>]\<rparr>)"

text \<open>\<open>tdls_peer_count\<close> is the length of the list of peers.\<close>

definition is_tdls_destination :: "dhd_flow \<Rightarrow> u8 list \<Rightarrow> bool" where
  "is_tdls_destination d da \<longleftrightarrow> tdls_peers d \<noteq> [] \<and> \<not> ETHER_ISMULTI da \<and> list_ex (\<lambda>a. da = a) (tdls_peers d)"

text \<open>The walk along a chain to the first node with a property.\<close>

fun chain_find :: "(flow_hash_info \<Rightarrow> bool) \<Rightarrow> flow_hash_info list \<Rightarrow> u16" where
  "chain_find P [] = FLOWID_INVALID"
| "chain_find P (cur # ns) = (if P cur then hash_flowid cur else chain_find P ns)"

definition dhd_flowid_find :: "dhd_flow \<Rightarrow> nat \<Rightarrow> u8 \<Rightarrow> u8 list \<Rightarrow> u16" where
  "dhd_flowid_find d ifindex prio da =
     (if ifindex \<ge> DHD_MAX_IFS then FLOWID_INVALID
      else if DHD_IF_ROLE_GENERIC_STA d ifindex then
        (if is_tdls_destination d da then
           chain_find (\<lambda>cur. fi_da (hash_info cur) = da) (bucket d ifindex (DHD_FLOWRING_HASHINDEX da prio))
         else (case bucket d ifindex (unat prio) of [] \<Rightarrow> FLOWID_INVALID | cur # _ \<Rightarrow> hash_flowid cur))
      else
        (let ismcast = ETHER_ISMULTI da;
             hash = (if ismcast then 0 else DHD_FLOWRING_HASHINDEX da prio)
         in chain_find (\<lambda>cur. ismcast \<and> ETHER_ISMULTI (fi_da (hash_info cur)) \<or>
                fi_da (hash_info cur) = da \<and> fi_tid (hash_info cur) = prio) (bucket d ifindex hash)))"

text \<open>What the functions below ask the rest of the driver: the station table, memory, the message rings
  (\<open>dhd_prot_flow_ring_create\<close>, and \<open>dhd_prot_txdata\<close> after the packets sent so far), the packet classification
  \<open>dhd_match_pkt_type\<close>, the Ethernet header of a packet and the firmware's answer to the priority map.\<close>

record flow_env =
  dhd_is_sta_htput :: "nat \<Rightarrow> u8 list \<Rightarrow> bool"
  dhd_sta_associated :: "nat \<Rightarrow> u8 list \<Rightarrow> bool"
  malloc_ok :: bool
  dhd_prot_flow_ring_create :: "u16 \<Rightarrow> bcme"
  dhd_prot_txdata :: "(u16 \<times> ptr) list \<Rightarrow> ptr \<Rightarrow> bcme"
  dhd_match_pkt_type :: "ptr \<Rightarrow> bool"
  ether_shost :: "ptr \<Rightarrow> u8 list"
  ether_dhost :: "ptr \<Rightarrow> u8 list"
  prio_map_ioctl :: bcme

definition alloc_normal :: "dhd_flow \<Rightarrow> u16 \<times> dhd_flow" where
  "alloc_normal d =
     (case id16_map_alloc (the (flowid_allocator d)) of (i, a) \<Rightarrow> (i, d\<lparr>flowid_allocator := Some a\<rparr>))"

definition alloc_htput :: "dhd_flow \<Rightarrow> u16 \<times> dhd_flow" where
  "alloc_htput d =
     (case id16_map_alloc (the (htput_flowid_allocator d)) of (i, a) \<Rightarrow> (i, d\<lparr>htput_flowid_allocator := Some a\<rparr>))"

text \<open>The attempt to use a high throughput ring.\<close>

definition htput_try :: "flow_env \<Rightarrow> nat \<Rightarrow> u8 \<Rightarrow> u8 list \<Rightarrow> dhd_flow \<Rightarrow> u16 \<times> dhd_flow" where
  "htput_try env ifindex prio da d =
     (if htput_flowid_allocator d \<noteq> None \<and> prio = HTPUT_FLOW_RING_PRIO then
        (if DHD_IF_ROLE_GENERIC_STA d ifindex then alloc_htput d
         else if DHD_IF_ROLE_MULTI_CLIENT d ifindex \<and> \<not> ETHER_ISMULTI da \<and> dhd_is_sta_htput env ifindex da \<and>
           htput_client_flow_rings d < HTPUT_NUM_CLIENT_FLOW_RINGS then
           (case alloc_htput d of
              (flowid, d) \<Rightarrow>
                (flowid, if flowid \<noteq> FLOWID_INVALID
                         then d\<lparr>htput_client_flow_rings := htput_client_flow_rings d + 1\<rparr> else d))
         else (FLOWID_INVALID, d))
      else (FLOWID_INVALID, d))"

definition dhd_flowid_map_alloc :: "flow_env \<Rightarrow> nat \<Rightarrow> u8 \<Rightarrow> u8 list \<Rightarrow> dhd_flow \<Rightarrow> u16 \<times> dhd_flow" where
  "dhd_flowid_map_alloc env ifindex prio da d =
     (if DHD_IF_ROLE d ifindex = WLC_E_IF_ROLE_P2P_CLIENT \<or> DHD_IF_ROLE d ifindex = WLC_E_IF_ROLE_P2P_GO
      then alloc_normal d
      else
        (case htput_try env ifindex prio da d of
           (flowid, d) \<Rightarrow> if flowid = FLOWID_INVALID then alloc_normal d else (flowid, d)))"

definition dhd_flowid_alloc :: "flow_env \<Rightarrow> nat \<Rightarrow> u8 \<Rightarrow> u8 list \<Rightarrow> dhd_flow \<Rightarrow> u16 \<times> dhd_flow" where
  "dhd_flowid_alloc env ifindex prio da d =
     (if \<not> malloc_ok env then (FLOWID_INVALID, d)
      else
        (case dhd_flowid_map_alloc env ifindex prio da d of
           (flowid, d) \<Rightarrow>
             if flowid = FLOWID_INVALID then (FLOWID_INVALID, d)
             else
               (let node = \<lparr>hash_flowid = flowid,
                      hash_info = \<lparr>fi_tid = prio, fi_ifindex = ifindex, fi_sa = replicate 6 0, fi_da = da\<rparr>\<rparr>;
                    d = (if DHD_IF_ROLE_GENERIC_STA d ifindex then
                           (if is_tdls_destination d da then
                              (let hash = DHD_FLOWRING_HASHINDEX da prio
                               in set_bucket ifindex hash (bucket d ifindex hash @ [node]) d)
                            else set_bucket ifindex (unat prio) [node] d)
                         else
                           (let hash = (if ETHER_ISMULTI da then 0 else DHD_FLOWRING_HASHINDEX da prio)
                            in set_bucket ifindex hash (bucket d ifindex hash @ [node]) d))
                in if ucast flowid > max_tx_flowid d then (FLOWID_INVALID, d) else (flowid, d))))"

definition update_node :: "u16 \<Rightarrow> (flow_ring_node \<Rightarrow> flow_ring_node) \<Rightarrow> dhd_flow \<Rightarrow> dhd_flow" where
  "update_node flowid f d = d\<lparr>flow_ring_table := map_option (\<lambda>t. t[unat flowid := f (t ! unat flowid)]) (flow_ring_table d)\<rparr>"

definition node_of :: "dhd_flow \<Rightarrow> u16 \<Rightarrow> flow_ring_node" where
  "node_of d flowid = the (flow_ring_table d) ! unat flowid"

definition dhd_bus_flow_ring_create_request :: "flow_env \<Rightarrow> u16 \<Rightarrow> dhd_flow \<Rightarrow> bcme \<times> dhd_flow" where
  "dhd_bus_flow_ring_create_request env flowid d =
     (if dhd_prot_flow_ring_create env flowid \<noteq> BCME_OK then (BCME_NOMEM, d)
      else (BCME_OK, update_node flowid (\<lambda>n. n\<lparr>prot_info := True\<rparr>) d))"

text \<open>The part of the lookup that creates a ring.\<close>

definition create_flow :: "flow_env \<Rightarrow> nat \<Rightarrow> u8 \<Rightarrow> u8 list \<Rightarrow> u8 list \<Rightarrow> dhd_flow \<Rightarrow> bcme \<times> u16 \<times> dhd_flow" where
  "create_flow env ifindex prio sa da d =
     (if \<not> if_status (if_lkup d ! ifindex) then (BCME_ERROR, FLOWID_INVALID, d)
      else if DHD_IF_ROLE_MULTI_CLIENT d ifindex \<and> \<not> ETHER_ISMULTI da \<and> \<not> dhd_sta_associated env ifindex da
      then (BCME_ERROR, FLOWID_INVALID, d)
      else
        (case dhd_flowid_alloc env ifindex prio da d of
           (i, d) \<Rightarrow>
             if i = FLOWID_INVALID then (BCME_ERROR, FLOWID_INVALID, d)
             else
               (let d = (if DHD_IF_ROLE_MULTI_CLIENT d ifindex
                         then d\<lparr>multi_client_flow_rings := multi_client_flow_rings d + 1\<rparr> else d);
                    d = update_node i (\<lambda>n. n\<lparr>
                          node_info := \<lparr>fi_tid = prio, fi_ifindex = ifindex, fi_sa = sa, fi_da = da\<rparr>,
                          active := True, status := FLOW_RING_STATUS_CREATE_PENDING\<rparr>) d
                in case dhd_bus_flow_ring_create_request env i d of
                     (ret, d) \<Rightarrow>
                       if ret \<noteq> BCME_OK then
                         (BCME_ERROR, FLOWID_INVALID,
                          update_node i (\<lambda>n. n\<lparr>status := FLOW_RING_STATUS_CLOSED, active := False\<rparr>) d)
                       else (BCME_OK, i, d))))"

text \<open>The out parameter \<open>flowid\<close> is part of the result; where the code leaves it alone it is \<open>FLOWID_INVALID\<close>.\<close>

definition dhd_flowid_lookup :: "flow_env \<Rightarrow> nat \<Rightarrow> u8 \<Rightarrow> u8 list \<Rightarrow> u8 list \<Rightarrow> dhd_flow \<Rightarrow> bcme \<times> u16 \<times> dhd_flow" where
  "dhd_flowid_lookup env ifindex prio sa da d =
     (if flow_ring_table d = None then (BCME_ERROR, FLOWID_INVALID, d)
      else if ifindex \<ge> DHD_MAX_IFS then (BCME_BADARG, FLOWID_INVALID, d)
      else
        (let i = dhd_flowid_find d ifindex prio da
         in if i = FLOWID_INVALID \<or> ucast i > max_tx_flowid d then create_flow env ifindex prio sa da d
            else if status (node_of d i) = FLOW_RING_STATUS_DELETE_PENDING \<or> status (node_of d i) = FLOW_RING_STATUS_CLOSED
            then (BCME_ERROR, FLOWID_INVALID, d)
            else (BCME_OK, i, d)))"

definition dhd_flowid_update :: "flow_env \<Rightarrow> nat \<Rightarrow> u8 \<Rightarrow> ptr \<Rightarrow> dhd_flow \<Rightarrow> bcme \<times> dhd_flow" where
  "dhd_flowid_update env ifindex prio pktbuf d =
     (if ifindex \<ge> DHD_MAX_IFS then (BCME_BADARG, d)
      else if flowid_allocator d = None then (BCME_ERROR, d)
      else
        (case dhd_flowid_lookup env ifindex prio (ether_shost env pktbuf) (ether_dhost env pktbuf) d of
           (ret, flowid, d) \<Rightarrow>
             if ret \<noteq> BCME_OK then (BCME_ERROR, d)
             else (BCME_OK, d\<lparr>pkt_flowid := (pkt_flowid d)(pktbuf := flowid)\<rparr>)))"

definition dhd_flowid_find_by_ifidx :: "dhd_flow \<Rightarrow> nat \<Rightarrow> u16 \<Rightarrow> bcme" where
  "dhd_flowid_find_by_ifidx d ifindex flowid =
     (if flow_ring_table d = None then BCME_ERROR
      else if list_ex (\<lambda>h. list_ex (\<lambda>cur. hash_flowid cur = flowid) (bucket d ifindex h)) [0..<DHD_FLOWRING_HASH_SIZE]
      then BCME_OK else BCME_ERROR)"

definition dhd_flowid_map_free :: "nat \<Rightarrow> u16 \<Rightarrow> dhd_flow \<Rightarrow> dhd_flow" where
  "dhd_flowid_map_free ifindex flowid d =
     (if htput_flowid_allocator d \<noteq> None \<and> DHD_IS_FLOWID_HTPUT d flowid then
        (let d = d\<lparr>htput_flowid_allocator := map_option (id16_map_free flowid) (htput_flowid_allocator d)\<rparr>
         in if DHD_IF_ROLE_MULTI_CLIENT d ifindex
            then d\<lparr>htput_client_flow_rings := htput_client_flow_rings d - 1\<rparr> else d)
      else d\<lparr>flowid_allocator := map_option (id16_map_free flowid) (flowid_allocator d)\<rparr>)"

text \<open>\<open>remove1_id\<close> unlinks the first node with the id; \<open>free_scan\<close> is the loop over the buckets, from \<open>hashix\<close> on.\<close>

fun remove1_id :: "u16 \<Rightarrow> flow_hash_info list \<Rightarrow> flow_hash_info list" where
  "remove1_id flowid [] = []"
| "remove1_id flowid (cur # ns) = (if hash_flowid cur = flowid then ns else cur # remove1_id flowid ns)"

fun free_scan :: "nat \<Rightarrow> u16 \<Rightarrow> nat list \<Rightarrow> dhd_flow \<Rightarrow> dhd_flow" where
  "free_scan ifindex flowid [] d = d"
| "free_scan ifindex flowid (hashix # hs) d =
     (if list_ex (\<lambda>cur. hash_flowid cur = flowid) (bucket d ifindex hashix) then
        (let d = set_bucket ifindex hashix (remove1_id flowid (bucket d ifindex hashix)) d;
             d = (if DHD_IF_ROLE_MULTI_CLIENT d ifindex \<and> multi_client_flow_rings d \<noteq> 0
                  then d\<lparr>multi_client_flow_rings := multi_client_flow_rings d - 1\<rparr> else d)
         in dhd_flowid_map_free ifindex flowid d)
      else free_scan ifindex flowid hs d)"

definition dhd_flowid_free :: "nat \<Rightarrow> u16 \<Rightarrow> dhd_flow \<Rightarrow> dhd_flow" where
  "dhd_flowid_free ifindex flowid d =
     (if ifindex \<ge> DHD_MAX_IFS then d else free_scan ifindex flowid [0..<DHD_FLOWRING_HASH_SIZE] d)"

end
