(* ===== verification/Flow_Bus.thy ===== *)
theory Flow_Bus
  imports Flowring
begin

text \<open>
  The operations on flow rings that involve their backup queues and the device: initialisation, the life cycle of a ring
  (requests to the device and its responses, \<open>dhd_pcie.c\<close>), the transmit path from \<open>dhd_bus_txdata\<close> through the backup
  queue to the message ring, and the handlers of interface events (\<open>dhd_flowring.c\<close>). An operation with a loop over a
  packet queue or the active list returns an option: \<open>None\<close> is a loop that does not end or an access outside the ring
  table. What the message rings do with an accepted packet, the TCP ACK table and the door bells are not modelled.
\<close>

unbundle bit_operations_syntax

section \<open>Configuration\<close>

definition dhd_flow_ring_node :: "dhd_flow \<Rightarrow> u16 \<Rightarrow> flow_ring_node option" where
  "dhd_flow_ring_node d flowid = (if ucast flowid > max_tx_flowid d then None else Some (node_of d flowid))"

definition dhd_flow_queue :: "dhd_flow \<Rightarrow> u16 \<Rightarrow> flow_queue option" where
  "dhd_flow_queue d flowid = (case dhd_flow_ring_node d flowid of Some n \<Rightarrow> Some (fr_queue n) | None \<Rightarrow> None)"

definition set_queue :: "u16 \<Rightarrow> flow_queue \<Rightarrow> dhd_flow \<Rightarrow> dhd_flow" where
  "set_queue flowid queue d = update_node flowid (\<lambda>n. n\<lparr>fr_queue := queue\<rparr>) d"

definition dhd_flow_ring_config_thresholds :: "u16 \<Rightarrow> int \<Rightarrow> int \<Rightarrow> ptr \<Rightarrow> int \<Rightarrow> ptr \<Rightarrow> dhd_flow \<Rightarrow> dhd_flow" where
  "dhd_flow_ring_config_thresholds flowid queue_budget cumm_threshold ctr l2cumm_threshold l2ctr d =
     (case dhd_flow_queue d flowid of
        None \<Rightarrow> d
      | Some queue \<Rightarrow>
          (let queue = DHD_FLOW_QUEUE_SET_MAX queue_budget queue;
               queue = DHD_FLOW_QUEUE_SET_THRESHOLD cumm_threshold queue;
               queue = queue\<lparr>fq_clen_ptr := ctr\<rparr>;
               queue = DHD_FLOW_QUEUE_SET_L2THRESHOLD l2cumm_threshold queue;
               queue = queue\<lparr>fq_l2clen_ptr := l2ctr\<rparr>
           in set_queue flowid queue d))"

definition dhd_num_prio_supported_per_flow_ring :: "dhd_flow \<Rightarrow> u8" where
  "dhd_num_prio_supported_per_flow_ring d =
     of_nat (length (filter (\<lambda>i. \<not> list_ex (\<lambda>j. flow_prio_map d ! i = flow_prio_map d ! j) [0..<i]) [0..<NUMPRIO]))"

definition dhd_get_max_flow_rings :: "dhd_flow \<Rightarrow> u16" where
  "dhd_get_max_flow_rings d = (if pcie_shared_v6 d then max_tx_flowrings d else max_tx_flowrings d - FLOWID_RESERVED)"

definition dhd_get_max_multi_client_flow_rings :: "dhd_flow \<Rightarrow> u8" where
  "dhd_get_max_multi_client_flow_rings d =
     (let reserved_infra_sta_flow_rings = dhd_num_prio_supported_per_flow_ring d;
          total_tx_flow_rings = ucast (dhd_get_max_flow_rings d)
      in total_tx_flow_rings - reserved_infra_sta_flow_rings)"

section \<open>Initialisation\<close>

text \<open>Which of the allocations succeed.\<close>

record init_env =
  id_map_ok :: bool
  htput_map_ok :: bool
  table_ok :: bool
  ring_locks_ok :: bool
  lkup_ok :: bool
  flowid_lock_ok :: bool
  list_lock_ok :: bool

definition dhd_flowid_map_init :: "init_env \<Rightarrow> u16 \<Rightarrow> dhd_flow \<Rightarrow> bcme \<times> dhd_flow" where
  "dhd_flowid_map_init e max_tx_flow_rings d =
     (let max_normal_tx_flow_rings =
            (if htput_support d then max_tx_flow_rings - HTPUT_TOTAL_FLOW_RINGS else max_tx_flow_rings);
          d = d\<lparr>flowid_allocator := id16_map_init (id_map_ok e) max_normal_tx_flow_rings FLOWID_RESERVED\<rparr>
      in if flowid_allocator d = None then (BCME_NOMEM, d)
         else
           (let d = d\<lparr>htput_flowid_allocator := None\<rparr>
            in if htput_support d \<and> HTPUT_TOTAL_FLOW_RINGS > 0 then
                 (let d = d\<lparr>htput_flow_ring_start := max_normal_tx_flow_rings + FLOWID_RESERVED\<rparr>;
                      d = d\<lparr>htput_flowid_allocator :=
                             id16_map_init (htput_map_ok e) HTPUT_TOTAL_FLOW_RINGS (htput_flow_ring_start d)\<rparr>
                  in if htput_flowid_allocator d = None then (BCME_NOMEM, d)
                     else (BCME_OK, d\<lparr>htput_client_flow_rings := 0\<rparr>))
               else (BCME_OK, d)))"

definition dhd_flowid_map_deinit :: "dhd_flow \<Rightarrow> dhd_flow" where
  "dhd_flowid_map_deinit d = d\<lparr>flowid_allocator := None, htput_flowid_allocator := None, htput_client_flow_rings := 0\<rparr>"

definition zero_queue :: flow_queue where
  "zero_queue = \<lparr>fq_head = NULL, fq_tail = NULL, fq_len = 0, fq_max = 0, fq_threshold = 0, fq_clen_ptr = NULL,
     fq_failures = 0, fq_cb = dhd_flow_queue_overflow, fq_l2threshold = 0, fq_l2clen_ptr = NULL\<rparr>"

definition init_node :: "dhd_flow \<Rightarrow> nat \<Rightarrow> flow_ring_node" where
  "init_node d idx =
     \<lparr>fr_queue = dhd_flow_queue_init (cumm_ctr d) (l2cumm_ctr d) (flow_ring_queue_threshold d) zero_queue,
      active = False, status = FLOW_RING_STATUS_CLOSED, node_flowid = of_nat idx,
      node_info = \<lparr>fi_tid = 0, fi_ifindex = 0, fi_sa = replicate 6 0, fi_da = replicate 6 0\<rparr>, prot_info = False\<rparr>"

definition init_lkup :: if_flow_lkup where
  "init_lkup = \<lparr>if_status = False, role = 0, fl_hash = replicate DHD_FLOWRING_HASH_SIZE []\<rparr>"

definition dhd_flow_rings_init :: "init_env \<Rightarrow> nat \<Rightarrow> dhd_flow \<Rightarrow> bcme \<times> dhd_flow" where
  "dhd_flow_rings_init e n d =
     (let max_tx_flow_rings = dhd_get_max_flow_rings d
      in case dhd_flowid_map_init e max_tx_flow_rings d of
           (ret, d) \<Rightarrow>
             if ret \<noteq> BCME_OK then (BCME_NOMEM, dhd_flowid_map_deinit d)
             else
               (let d = d\<lparr>max_tx_flowid := ucast max_tx_flow_rings + ucast FLOWID_RESERVED - 1\<rparr>
                in if \<not> (table_ok e \<and> ring_locks_ok e \<and> lkup_ok e \<and> flowid_lock_ok e \<and> list_lock_ok e)
                   then (BCME_NOMEM, dhd_flowid_map_deinit d)
                   else
                     (let d = d\<lparr>dll_mem := fold (\<lambda>idx. dll_init (ring_list (of_nat idx))) [0..<n] (dll_mem d)\<rparr>;
                          d = d\<lparr>flow_prio_map_type := 0, flow_prio_map := prio2ac\<rparr>;
                          d = d\<lparr>max_multi_client_flow_rings := dhd_get_max_multi_client_flow_rings d\<rparr>;
                          d = d\<lparr>multi_client_flow_rings := 0, dequeue_prec_map := - 1\<rparr>
                      in (BCME_OK,
                          d\<lparr>num_h2d_rings := n, flow_ring_table := Some (map (init_node d) [0..<n]),
                            if_lkup := replicate DHD_MAX_IFS init_lkup, flow_rings_inited := True\<rparr>))))"

section \<open>Flushing, closing and deleting rings\<close>

definition flush_ring :: "u16 \<Rightarrow> dhd_flow \<Rightarrow> dhd_flow option" where
  "flush_ring flowid d =
     do {
       (L, queue, freed) \<leftarrow> flush_queue (pkt_links d) (fr_queue (node_of d flowid)) (freed_pkts d);
       Some (set_queue flowid queue (d\<lparr>pkt_links := L, freed_pkts := freed\<rparr>))
     }"

definition dhd_bus_clean_flow_ring :: "u16 \<Rightarrow> dhd_flow \<Rightarrow> dhd_flow option" where
  "dhd_bus_clean_flow_ring flowid d =
     do {
       d \<leftarrow> flush_ring flowid d;
       let d = set_queue flowid (dhd_flow_queue_reinit (cumm_ctr d) (l2cumm_ctr d) (flow_ring_queue_threshold d)
                                   (fr_queue (node_of d flowid))) d;
       let d = update_node flowid (\<lambda>n. n\<lparr>status := FLOW_RING_STATUS_CLOSED, active := False\<rparr>) d;
       let d = d\<lparr>dll_mem := dll_init (ring_list flowid) (dll_delete (ring_list flowid) (dll_mem d))\<rparr>;
       Some (dhd_flowid_free (fi_ifindex (node_info (node_of d flowid))) (node_flowid (node_of d flowid)) d)
     }"

definition dhd_bus_flow_ring_delete_request :: "u16 \<Rightarrow> dhd_flow \<Rightarrow> (bcme \<times> dhd_flow) option" where
  "dhd_bus_flow_ring_delete_request flowid d =
     (if status (node_of d flowid) = FLOW_RING_STATUS_DELETE_PENDING then Some (BCME_ERROR, d)
      else
        do {
          let d = update_node flowid (\<lambda>n. n\<lparr>status := FLOW_RING_STATUS_DELETE_PENDING\<rparr>) d;
          d \<leftarrow> flush_ring flowid d;
          Some (BCME_OK, d)
        })"

definition dhd_bus_flow_ring_flush_request :: "u16 \<Rightarrow> dhd_flow \<Rightarrow> (bcme \<times> dhd_flow) option" where
  "dhd_bus_flow_ring_flush_request flowid d =
     do {
       let d = update_node flowid (\<lambda>n. n\<lparr>status := FLOW_RING_STATUS_FLUSH_PENDING\<rparr>) d;
       d \<leftarrow> flush_ring flowid d;
       Some (BCME_OK, d)
     }"

text \<open>The checks of a response: a flow id in range, of its own node.\<close>

definition bad_response :: "u16 \<Rightarrow> dhd_flow \<Rightarrow> bool" where
  "bad_response flowid d \<longleftrightarrow> ucast flowid > max_tx_flowid d \<or> node_flowid (node_of d flowid) \<noteq> flowid"

definition dhd_bus_flow_ring_delete_response :: "u16 \<Rightarrow> int \<Rightarrow> dhd_flow \<Rightarrow> dhd_flow option" where
  "dhd_bus_flow_ring_delete_response flowid st d =
     (if bad_response flowid d then Some d
      else if st \<noteq> bcme_code BCME_OK then Some d
      else dhd_bus_clean_flow_ring flowid d)"

definition dhd_bus_flow_ring_flush_response :: "u16 \<Rightarrow> int \<Rightarrow> dhd_flow \<Rightarrow> dhd_flow" where
  "dhd_bus_flow_ring_flush_response flowid st d =
     (if st \<noteq> bcme_code BCME_OK then d
      else if bad_response flowid d then d
      else update_node flowid (\<lambda>n. n\<lparr>status := FLOW_RING_STATUS_OPEN\<rparr>) d)"

section \<open>Transmission\<close>

text \<open>The loop of \<open>dhd_bus_schedule_queue\<close>, with the number of packets handled, the result so far and the packets sent.
  The flag in the result is whether a packet was put back.\<close>

partial_function (option) schedule_loop ::
    "flow_env \<Rightarrow> u16 \<Rightarrow> u32 \<Rightarrow> u32 \<Rightarrow> bcme \<Rightarrow> links \<Rightarrow> flow_queue \<Rightarrow> (u16 \<times> ptr) list \<Rightarrow>
     (bool \<times> bcme \<times> links \<times> flow_queue \<times> (u16 \<times> ptr) list) option" where
  "schedule_loop env flow_id bnd cnt ret L queue sent =
     (case dhd_flow_queue_dequeue L queue of
        (txp, L, queue) \<Rightarrow>
          if txp = NULL then Some (False, ret, L, queue, sent)
          else
            (let cnt = cnt + 1;
                 ret = dhd_prot_txdata env sent txp
             in if ret \<noteq> BCME_OK then
                  (case dhd_flow_queue_reinsert txp L queue of (L, queue) \<Rightarrow> Some (True, ret, L, queue, sent))
                else if bnd \<noteq> 0 \<and> cnt \<ge> bnd then Some (False, ret, L, queue, sent @ [(flow_id, txp)])
                else schedule_loop env flow_id bnd cnt ret L queue (sent @ [(flow_id, txp)])))"

declare schedule_loop.simps [code]

text \<open>The last component of the result is what is written to \<open>*is_qempty\<close>, if anything.\<close>

definition dhd_bus_schedule_queue :: "flow_env \<Rightarrow> u16 \<Rightarrow> u32 \<Rightarrow> dhd_flow \<Rightarrow> (bcme \<times> dhd_flow \<times> bool option) option" where
  "dhd_bus_schedule_queue env flow_id bnd d =
     (if unat flow_id \<ge> max_submission_rings d then Some (BCME_OK, d, None)
      else if \<not> prot_info (node_of d flow_id) then Some (BCME_NOTREADY, d, None)
      else if \<not> bit (dequeue_prec_map d) (unat (fi_tid (node_info (node_of d flow_id)))) then Some (BCME_OK, d, None)
      else if status (node_of d flow_id) \<noteq> FLOW_RING_STATUS_OPEN then Some (BCME_NOTREADY, d, None)
      else if fq_len (fr_queue (node_of d flow_id)) = 0 then Some (BCME_NOTREADY, d, None)
      else
        do {
          (back, ret, L, queue, sent) \<leftarrow>
            schedule_loop env flow_id bnd 0 BCME_OK (pkt_links d) (fr_queue (node_of d flow_id)) (sent_pkts d);
          let d = set_queue flow_id queue (d\<lparr>pkt_links := L, sent_pkts := sent\<rparr>);
          Some (if back then (BCME_OK, d, Some False) else (ret, d, Some (\<not> fq_len queue > 0)))
        })"

definition enqueue_pkt :: "flow_env \<Rightarrow> u16 \<Rightarrow> ptr \<Rightarrow> dhd_flow \<Rightarrow> bcme \<times> dhd_flow" where
  "enqueue_pkt env flowid txp d =
     (let queue = fr_queue (node_of d flowid)
      in case (if dhd_match_pkt_type env txp then dhd_flow_queue_enqueue_head txp (pkt_links d) queue
               else dhd_flow_queue_enqueue txp (pkt_links d) queue) of
           (ret, L, queue) \<Rightarrow> (ret, set_queue flowid queue (d\<lparr>pkt_links := L\<rparr>)))"

definition toss :: "ptr \<Rightarrow> bcme \<Rightarrow> dhd_flow \<Rightarrow> (bcme \<times> dhd_flow) option" where
  "toss txp ret d = Some (ret, d\<lparr>freed_pkts := freed_pkts d @ [txp]\<rparr>)"

definition dhd_bus_txdata :: "flow_env \<Rightarrow> ptr \<Rightarrow> dhd_flow \<Rightarrow> (bcme \<times> dhd_flow) option" where
  "dhd_bus_txdata env txp d =
     (if flowid_allocator d = None then toss txp BCME_OK d
      else
        (let flowid = pkt_flowid d txp
         in if unat flowid \<ge> length (the (flow_ring_table d)) then None
            else if ucast flowid > max_tx_flowid d \<or> \<not> active (node_of d flowid) \<or>
              status (node_of d flowid) = FLOW_RING_STATUS_DELETE_PENDING \<or>
              status (node_of d flowid) = FLOW_RING_STATUS_STA_FREEING
            then toss txp BCME_ERROR d
            else
              (case enqueue_pkt env flowid txp d of
                 (ret, d) \<Rightarrow>
                   if status (node_of d flowid) \<noteq> FLOW_RING_STATUS_OPEN then
                     (if ret \<noteq> BCME_OK then toss txp ret d else Some (BCME_OK, d))
                   else
                     do {
                       (ret', d, _) \<leftarrow> dhd_bus_schedule_queue env flowid 0 d;
                       if ret \<noteq> BCME_OK then
                         (case enqueue_pkt env flowid txp d of
                            (ret, d) \<Rightarrow> if ret \<noteq> BCME_OK then toss txp ret d else Some (ret, d))
                       else Some (ret', d)
                     })))"

text \<open>The end of \<open>__dhd_sendpkt\<close>: the ring of the packet by its priority, then the bus.\<close>

definition MAXPRIO :: nat where "MAXPRIO = 7"

definition dhd_sendpkt_flow :: "flow_env \<Rightarrow> nat \<Rightarrow> nat \<Rightarrow> ptr \<Rightarrow> dhd_flow \<Rightarrow> (bcme \<times> dhd_flow) option" where
  "dhd_sendpkt_flow env ifidx pktprio pktbuf d =
     (if pktprio > MAXPRIO then toss pktbuf BCME_ERROR d
      else
        (let pkt_flow_prio = flow_prio_map d ! pktprio
         in case dhd_flowid_update env ifidx pkt_flow_prio pktbuf d of
              (ret, d) \<Rightarrow> if ret \<noteq> BCME_OK then toss pktbuf ret d else dhd_bus_txdata env pktbuf d))"

definition dhd_bus_flow_ring_create_response :: "flow_env \<Rightarrow> u16 \<Rightarrow> int \<Rightarrow> dhd_flow \<Rightarrow> dhd_flow option" where
  "dhd_bus_flow_ring_create_response env flowid st d =
     (if bad_response flowid d then Some d
      else if st \<noteq> bcme_code BCME_OK then dhd_bus_clean_flow_ring flowid d
      else
        do {
          let d = update_node flowid (\<lambda>n. n\<lparr>status := FLOW_RING_STATUS_OPEN\<rparr>) d;
          let d = d\<lparr>dll_mem := dll_prepend ACTIVE_LIST (ring_list flowid) (dll_mem d)\<rparr>;
          (_, d, _) \<leftarrow> dhd_bus_schedule_queue env flowid 0 d;
          Some d
        })"

section \<open>All rings of an interface\<close>

text \<open>The loop over the ring table: \<open>f\<close> is applied to the rings that satisfy \<open>P\<close> when their turn comes.\<close>

fun for_rings :: "(flow_ring_node \<Rightarrow> bool) \<Rightarrow> (u16 \<Rightarrow> dhd_flow \<Rightarrow> dhd_flow option) \<Rightarrow> nat list \<Rightarrow> dhd_flow \<Rightarrow> dhd_flow option" where
  "for_rings P f [] d = Some d"
| "for_rings P f (i # ids) d =
     (if P (node_of d (of_nat i)) then (case f (of_nat i) d of Some d \<Rightarrow> for_rings P f ids d | None \<Rightarrow> None)
      else for_rings P f ids d)"

definition open_on :: "nat \<Rightarrow> flow_ring_node \<Rightarrow> bool" where
  "open_on ifindex n \<longleftrightarrow> active n \<and> fi_ifindex (node_info n) = ifindex \<and> status n = FLOW_RING_STATUS_OPEN"

definition dhd_flow_rings_delete :: "nat \<Rightarrow> dhd_flow \<Rightarrow> dhd_flow option" where
  "dhd_flow_rings_delete ifindex d =
     (if ifindex \<ge> DHD_MAX_IFS then Some d
      else if flow_ring_table d = None then Some d
      else for_rings (open_on ifindex) (\<lambda>i d. map_option snd (dhd_bus_flow_ring_delete_request i d)) [0..<num_h2d_rings d] d)"

definition dhd_flow_rings_flush :: "nat \<Rightarrow> dhd_flow \<Rightarrow> dhd_flow option" where
  "dhd_flow_rings_flush ifindex d =
     (if ifindex \<ge> DHD_MAX_IFS then Some d
      else if flow_ring_table d = None then Some d
      else for_rings (open_on ifindex) (\<lambda>i d. map_option snd (dhd_bus_flow_ring_flush_request i d)) [0..<num_h2d_rings d] d)"

definition dhd_flow_rings_delete_for_peer :: "nat \<Rightarrow> u8 list \<Rightarrow> dhd_flow \<Rightarrow> dhd_flow option" where
  "dhd_flow_rings_delete_for_peer ifindex addr d =
     (if ifindex \<ge> DHD_MAX_IFS then Some d
      else if flow_ring_table d = None then Some d
      else for_rings (\<lambda>n. active n \<and> fi_ifindex (node_info n) = ifindex \<and> fi_da (node_info n) = addr \<and>
               (status n = FLOW_RING_STATUS_OPEN \<or> status n = FLOW_RING_STATUS_CREATE_PENDING))
             (\<lambda>i d. map_option snd (dhd_bus_flow_ring_delete_request i d)) [0..<num_h2d_rings d] d)"

definition dhd_update_multicilent_flow_rings :: "nat \<Rightarrow> bool \<Rightarrow> dhd_flow \<Rightarrow> dhd_flow" where
  "dhd_update_multicilent_flow_rings ifindex increment d =
     (if ifindex \<ge> DHD_MAX_IFS then d
      else if flow_ring_table d = None then d
      else fold (\<lambda>i d. if open_on ifindex (node_of d (of_nat i)) then
                  (if increment then
                     (if multi_client_flow_rings d < int (unat (max_multi_client_flow_rings d))
                      then d\<lparr>multi_client_flow_rings := multi_client_flow_rings d + 1\<rparr> else d)
                   else if multi_client_flow_rings d \<noteq> 0
                   then d\<lparr>multi_client_flow_rings := multi_client_flow_rings d - 1\<rparr> else d)
                else d) [0..<num_h2d_rings d] d)"

section \<open>Interfaces\<close>

definition set_if :: "nat \<Rightarrow> (if_flow_lkup \<Rightarrow> if_flow_lkup) \<Rightarrow> dhd_flow \<Rightarrow> dhd_flow" where
  "set_if ifindex f d = d\<lparr>if_lkup := (if_lkup d)[ifindex := f (if_lkup d ! ifindex)]\<rparr>"

definition dhd_flow_rings_ifindex2role :: "dhd_flow \<Rightarrow> nat \<Rightarrow> nat" where
  "dhd_flow_rings_ifindex2role d ifindex = role (if_lkup d ! ifindex)"

definition dhd_update_interface_flow_info :: "nat \<Rightarrow> nat \<Rightarrow> nat \<Rightarrow> dhd_flow \<Rightarrow> dhd_flow" where
  "dhd_update_interface_flow_info ifindex op r d =
     (if ifindex \<ge> DHD_MAX_IFS then d
      else if flowid_allocator d = None then d
      else if op = WLC_E_IF_ADD \<or> op = WLC_E_IF_CHANGE then
        (let d = set_if ifindex (\<lambda>lk. lk\<lparr>role := r\<rparr>) d;
             d = (if op = WLC_E_IF_CHANGE
                  then dhd_update_multicilent_flow_rings ifindex (DHD_IF_ROLE_MULTI_CLIENT d ifindex) d else d)
         in if r = WLC_E_IF_ROLE_WDS then set_if ifindex (\<lambda>lk. lk\<lparr>if_status := True\<rparr>) d else d)
      else if op = WLC_E_IF_DEL \<and> r = WLC_E_IF_ROLE_WDS then set_if ifindex (\<lambda>lk. lk\<lparr>if_status := False\<rparr>) d
      else d)"

definition dhd_update_interface_link_status :: "nat \<Rightarrow> u8 \<Rightarrow> dhd_flow \<Rightarrow> bcme \<times> dhd_flow" where
  "dhd_update_interface_link_status ifindex st d =
     (if ifindex \<ge> DHD_MAX_IFS then (BCME_BADARG, d)
      else (BCME_OK, set_if ifindex (\<lambda>lk. lk\<lparr>if_status := (st \<noteq> 0)\<rparr>) d))"

definition dhd_update_flow_prio_map :: "flow_env \<Rightarrow> u8 \<Rightarrow> dhd_flow \<Rightarrow> bcme \<times> dhd_flow" where
  "dhd_update_flow_prio_map env mp d =
     (if mp > 2 then (BCME_BADOPTION, d)
      else if mp = flow_prio_map_type d then (BCME_OK, d)
      else if list_ex (\<lambda>i. active (node_of d (of_nat i))) [0..<num_h2d_rings d] then (BCME_EPERM, d)
      else if prio_map_ioctl env \<noteq> BCME_OK then (BCME_ERROR, d)
      else
        (let d = d\<lparr>flow_prio_map_type := mp\<rparr>;
             d = d\<lparr>flow_prio_map := (if flow_prio_map_type d = 1 then prio2tid else prio2ac)\<rparr>
         in (BCME_OK, d\<lparr>max_multi_client_flow_rings := dhd_get_max_multi_client_flow_rings d\<rparr>)))"

text \<open>The walk along the active list, from its tail backwards.\<close>

partial_function (option) bkpq_walk :: "dhd_flow \<Rightarrow> ptr \<Rightarrow> u32 \<Rightarrow> u32 option" where
  "bkpq_walk d item qlen =
     (if dll_end ACTIVE_LIST item then Some qlen
      else
        (let prev = dll_prev_p (dll_mem d) item;
             n = node_of d (of_nat (item - 2))
         in bkpq_walk d prev (if active n then qlen + ucast (fq_len (fr_queue n)) else qlen)))"

declare bkpq_walk.simps [code]

definition dhd_active_tx_flowring_bkpq_len :: "dhd_flow \<Rightarrow> u32 option" where
  "dhd_active_tx_flowring_bkpq_len d = bkpq_walk d (dll_tail_p (dll_mem d) ACTIVE_LIST) 0"

section \<open>Shutdown\<close>

definition dhd_flow_rings_deinit :: "dhd_flow \<Rightarrow> dhd_flow option" where
  "dhd_flow_rings_deinit d =
     (if \<not> flow_rings_inited d then Some d
      else
        do {
          d \<leftarrow> (if flow_ring_table d \<noteq> None then for_rings active dhd_bus_clean_flow_ring [0..<num_h2d_rings d] d
                else Some d);
          let d = dhd_flowid_map_deinit (d\<lparr>flow_ring_table := None, if_lkup := []\<rparr>);
          Some (d\<lparr>num_h2d_rings := 0, flow_prio_map := replicate NUMPRIO 0, max_multi_client_flow_rings := 0,
                  multi_client_flow_rings := 0, flow_rings_inited := False\<rparr>)
        })"

end
