(* ===== verification/Flow_Ids.thy ===== *)
theory Flow_Ids
  imports Flow_Bus "HOL-Library.Multiset"
begin

text \<open>
  The accounting of flow ids: the ids in the chains of the lookup table are pairwise distinct and exactly the ids the two
  allocators have handed out, and every chained id belongs to a ring whose flow is the chained one. \<open>flow_inv\<close> says this;
  it depends on \<open>ids_view\<close> alone, so an operation that leaves the view alone keeps it. The operations that change the view
  are the lookup, when it creates a ring, and \<open>dhd_flowid_free\<close>.
\<close>

section \<open>The invariant\<close>

definition chain_nodes :: "dhd_flow \<Rightarrow> flow_hash_info list" where
  "chain_nodes d = concat (concat (map fl_hash (if_lkup d)))"

definition chain_ids :: "dhd_flow \<Rightarrow> u16 list" where
  "chain_ids d = map hash_flowid (chain_nodes d)"

definition flow_avail :: "dhd_flow \<Rightarrow> u16 set" where
  "flow_avail d = id16_avail (the (flowid_allocator d)) \<union>
     (case htput_flowid_allocator d of None \<Rightarrow> {} | Some b \<Rightarrow> id16_avail b)"

definition htput_ids :: "u16 \<Rightarrow> dhd_flow \<Rightarrow> u16 set" where
  "htput_ids N d = (if htput_support d then id16_ids HTPUT_TOTAL_FLOW_RINGS (N + FLOWID_RESERVED) else {})"

definition flow_ids :: "u16 \<Rightarrow> dhd_flow \<Rightarrow> u16 set" where
  "flow_ids N d = id16_ids N FLOWID_RESERVED \<union> htput_ids N d"

definition alloc_inv :: "u16 \<Rightarrow> dhd_flow \<Rightarrow> bool" where
  "alloc_inv N d \<longleftrightarrow>
     unat N + 6 < 65535 \<and>
     (\<exists>a. flowid_allocator d = Some a \<and> id16_inv N FLOWID_RESERVED a) \<and>
     (if htput_support d then
        htput_flow_ring_start d = N + FLOWID_RESERVED \<and>
        (\<exists>b. htput_flowid_allocator d = Some b \<and> id16_inv HTPUT_TOTAL_FLOW_RINGS (N + FLOWID_RESERVED) b)
      else htput_flowid_allocator d = None)"

definition lkup_inv :: "dhd_flow \<Rightarrow> bool" where
  "lkup_inv d \<longleftrightarrow> length (if_lkup d) = DHD_MAX_IFS \<and>
     (\<forall>ifx < DHD_MAX_IFS. length (fl_hash (if_lkup d ! ifx)) = DHD_FLOWRING_HASH_SIZE)"

definition chained :: "dhd_flow \<Rightarrow> nat \<Rightarrow> flow_hash_info \<Rightarrow> bool" where
  "chained d ifx cur \<longleftrightarrow>
     (let n = node_info (node_of d (hash_flowid cur))
      in fi_ifindex n = ifx \<and> fi_tid n = fi_tid (hash_info cur) \<and> fi_da n = fi_da (hash_info cur))"

definition table_inv :: "u16 \<Rightarrow> dhd_flow \<Rightarrow> bool" where
  "table_inv N d \<longleftrightarrow>
     unat (max_tx_flowid d) = unat N + (if htput_support d then 5 else 1) \<and>
     (\<exists>t. flow_ring_table d = Some t \<and> length t = num_h2d_rings d \<and> unat (max_tx_flowid d) < length t \<and> length t \<le> 65536 \<and>
        max_submission_rings d \<le> length t \<and> (\<forall>i < length t. node_flowid (t ! i) = of_nat i))"

definition flow_inv :: "u16 \<Rightarrow> dhd_flow \<Rightarrow> bool" where
  "flow_inv N d \<longleftrightarrow> alloc_inv N d \<and> lkup_inv d \<and> table_inv N d \<and>
     distinct (chain_ids d) \<and> set (chain_ids d) \<union> flow_avail d = flow_ids N d \<and> set (chain_ids d) \<inter> flow_avail d = {} \<and>
     (\<forall>ifx < DHD_MAX_IFS. \<forall>h < DHD_FLOWRING_HASH_SIZE. \<forall>cur \<in> set (bucket d ifx h). chained d ifx cur)"

section \<open>Chains\<close>

lemma mset_concat_update:
  assumes "i < length xs"
  shows "mset (concat (xs[i := y])) + mset (xs ! i) = mset (concat xs) + mset y"
proof -
  have "concat xs = concat (take i xs) @ xs ! i @ concat (drop (Suc i) xs)"
    using assms by (metis concat.simps(2) concat_append id_take_nth_drop)
  then show ?thesis using assms by (simp add: upd_conv_take_nth_drop)
qed

lemma add_exchange: "(A :: 'a multiset) + B = C + D \<Longrightarrow> D + E = B + F \<Longrightarrow> A + E = C + F"
proof -
  assume h: "A + B = C + D" "D + E = B + F"
  have "A + E + B = C + (D + E)" using h(1) by (metis add.assoc add.commute)
  then show ?thesis unfolding h(2) by (metis add.assoc add.commute add_right_cancel)
qed

lemma set_bucket_lkup [simp]:
  "length (if_lkup (set_bucket ifx h ns d)) = length (if_lkup d)"
  by (simp add: set_bucket_def Let_def)

lemma chain_nodes_set_bucket:
  assumes "ifx < length (if_lkup d)" and "h < length (fl_hash (if_lkup d ! ifx))"
  shows "mset (chain_nodes (set_bucket ifx h ns d)) + mset (bucket d ifx h) = mset (chain_nodes d) + mset ns"
proof -
  let ?F = "map fl_hash (if_lkup d)" and ?bs = "fl_hash (if_lkup d ! ifx)"
  have F: "map fl_hash (if_lkup (set_bucket ifx h ns d)) = ?F[ifx := ?bs[h := ns]]"
    by (simp add: set_bucket_def Let_def map_update)
  have "mset (concat (concat (?F[ifx := ?bs[h := ns]]))) + mset (concat ?bs) = mset (concat (concat ?F)) + mset (concat (?bs[h := ns]))"
  proof -
    have "concat (concat xss) = concat (map concat xss)" for xss :: "flow_hash_info list list list" by (induction xss) auto
    then show ?thesis
      using mset_concat_update [of ifx "map concat ?F" "concat (?bs[h := ns])"] assms(1) by (simp add: map_update)
  qed
  moreover have "mset (concat (?bs[h := ns])) + mset (?bs ! h) = mset (concat ?bs) + mset ns"
    by (rule mset_concat_update) (rule assms(2))
  ultimately have "mset (chain_nodes (set_bucket ifx h ns d)) + mset (?bs ! h) = mset (chain_nodes d) + mset ns"
    unfolding chain_nodes_def F by (rule add_exchange)
  then show ?thesis by (simp add: bucket_def)
qed

lemma chain_nodes_iff:
  "lkup_inv d \<Longrightarrow> x \<in> set (chain_nodes d) \<longleftrightarrow>
     (\<exists>ifx < DHD_MAX_IFS. \<exists>h < DHD_FLOWRING_HASH_SIZE. x \<in> set (bucket d ifx h))"
  unfolding chain_nodes_def bucket_def lkup_inv_def
  by (auto simp: in_set_conv_nth [of _ "if_lkup d"] in_set_conv_nth [of _ "fl_hash _"] Bex_def) metis+

lemma bucket_set_bucket:
  assumes "lkup_inv d" "ifx < DHD_MAX_IFS" "h < DHD_FLOWRING_HASH_SIZE"
  shows "bucket (set_bucket ifx h ns d) ifx' h' = (if ifx' = ifx \<and> h' = h then ns else bucket d ifx' h')"
  using assms by (auto simp: bucket_def set_bucket_def lkup_inv_def Let_def nth_list_update)

lemma lkup_inv_set_bucket: "lkup_inv d \<Longrightarrow> lkup_inv (set_bucket ifx h ns d)"
  by (cases "ifx < DHD_MAX_IFS") (auto simp: lkup_inv_def set_bucket_def Let_def nth_list_update)

lemma chain_ids_append:
  assumes l: "lkup_inv d" and i: "ifx < DHD_MAX_IFS" "h < DHD_FLOWRING_HASH_SIZE"
  shows "mset (chain_ids (set_bucket ifx h (bucket d ifx h @ [n]) d)) = mset (chain_ids d) + {#hash_flowid n#}"
proof -
  have "mset (chain_nodes (set_bucket ifx h (bucket d ifx h @ [n]) d)) + mset (bucket d ifx h) =
      mset (chain_nodes d) + {#n#} + mset (bucket d ifx h)"
    using chain_nodes_set_bucket [of ifx d h] assms by (simp add: lkup_inv_def)
  then have "mset (chain_nodes (set_bucket ifx h (bucket d ifx h @ [n]) d)) = mset (chain_nodes d) + {#n#}" by simp
  then show ?thesis unfolding chain_ids_def by simp
qed

lemma remove1_id_split:
  "list_ex (\<lambda>cur. hash_flowid cur = i) ns \<Longrightarrow>
     \<exists>xs cur ys. ns = xs @ cur # ys \<and> hash_flowid cur = i \<and> remove1_id i ns = xs @ ys"
proof (induction ns)
  case (Cons a ns)
  show ?case
  proof (cases "hash_flowid a = i")
    case True
    then show ?thesis by (intro exI [of _ "[]"]) auto
  next
    case False
    then obtain xs cur ys where "ns = xs @ cur # ys" "hash_flowid cur = i" "remove1_id i ns = xs @ ys" using Cons by auto
    then show ?thesis using False by (intro exI [of _ "a # xs"]) auto
  qed
qed simp

lemma chain_ids_remove:
  assumes l: "lkup_inv d" and ix: "ifx < DHD_MAX_IFS" "h < DHD_FLOWRING_HASH_SIZE"
    and ex: "list_ex (\<lambda>cur. hash_flowid cur = i) (bucket d ifx h)"
  shows "mset (chain_ids d) = mset (chain_ids (set_bucket ifx h (remove1_id i (bucket d ifx h)) d)) + {#i#}"
proof -
  obtain xs cur ys where b: "bucket d ifx h = xs @ cur # ys" "hash_flowid cur = i"
      "remove1_id i (bucket d ifx h) = xs @ ys" using remove1_id_split [OF ex] by blast
  have "mset (chain_nodes (set_bucket ifx h (xs @ ys) d)) + {#cur#} + mset (xs @ ys) = mset (chain_nodes d) + mset (xs @ ys)"
    using chain_nodes_set_bucket [of ifx d h "xs @ ys"] l ix b(1) by (simp add: lkup_inv_def)
  then have "mset (chain_nodes d) = mset (chain_nodes (set_bucket ifx h (xs @ ys) d)) + {#cur#}" by simp
  then show ?thesis unfolding chain_ids_def b(3) using b(2) by simp
qed

section \<open>The two allocators\<close>

lemma start_vals [simp]: "unat FLOWID_RESERVED = 2" "unat HTPUT_TOTAL_FLOW_RINGS = 4"
  by (simp_all add: FLOWID_RESERVED_def HTPUT_TOTAL_FLOW_RINGS_def HTPUT_NUM_STA_FLOW_RINGS_def HTPUT_NUM_CLIENT_FLOW_RINGS_def)

lemma htput_start: "unat N + 6 < 65535 \<Longrightarrow> unat (N + FLOWID_RESERVED) = unat N + 2"
  by (simp add: FLOWID_RESERVED_def unat_word_ariths)

lemma normal_range: "unat N + 6 < 65535 \<Longrightarrow> i \<in> id16_ids N FLOWID_RESERVED \<Longrightarrow> 2 \<le> unat i \<and> unat i < unat N + 2"
  using id16_range [of FLOWID_RESERVED N i] by simp

lemma htput_range:
  "unat N + 6 < 65535 \<Longrightarrow> i \<in> htput_ids N d \<Longrightarrow> htput_support d \<and> unat N + 2 \<le> unat i \<and> unat i < unat N + 6"
  using id16_range [of "N + FLOWID_RESERVED" HTPUT_TOTAL_FLOW_RINGS i] htput_start [of N]
  by (auto simp: htput_ids_def split: if_splits)

lemma flow_ids_range:
  assumes "unat N + 6 < 65535" "i \<in> flow_ids N d"
  shows "2 \<le> unat i" "unat i \<le> unat N + (if htput_support d then 5 else 1)" "i \<noteq> FLOWID_INVALID"
proof -
  show "2 \<le> unat i" "unat i \<le> unat N + (if htput_support d then 5 else 1)"
    using assms normal_range [of N i] htput_range [of N i d] by (auto simp: flow_ids_def)
  then have "unat i < 65535" using assms(1) by (auto split: if_splits)
  then show "i \<noteq> FLOWID_INVALID" by (auto simp: FLOWID_INVALID_def ID16_INVALID_def)
qed

lemma htput_iff:
  assumes "alloc_inv N d" "i \<in> flow_ids N d"
  shows "htput_flowid_allocator d \<noteq> None \<and> DHD_IS_FLOWID_HTPUT d i \<longleftrightarrow> i \<in> htput_ids N d"
    "i \<notin> htput_ids N d \<longleftrightarrow> i \<in> id16_ids N FLOWID_RESERVED"
  using assms normal_range [of N i] htput_range [of N i d] htput_start [of N]
  by (auto simp: alloc_inv_def flow_ids_def DHD_IS_FLOWID_HTPUT_def split: if_splits)

text \<open>What the allocator functions leave alone.\<close>

definition alloc_frame :: "dhd_flow \<Rightarrow> dhd_flow \<Rightarrow> bool" where
  "alloc_frame d d' \<longleftrightarrow>
     (\<exists>a b c. d' = d\<lparr>flowid_allocator := a, htput_flowid_allocator := b, htput_client_flow_rings := c\<rparr>)"

lemma alloc_frameI [intro, simp]:
  "alloc_frame d d" "alloc_frame d (d\<lparr>flowid_allocator := a\<rparr>)" "alloc_frame d (d\<lparr>htput_flowid_allocator := b\<rparr>)"
  "alloc_frame d (d\<lparr>htput_client_flow_rings := c\<rparr>)"
  by (cases d; simp add: alloc_frame_def)+

definition took :: "u16 \<Rightarrow> dhd_flow \<Rightarrow> u16 \<Rightarrow> dhd_flow \<Rightarrow> bool" where
  "took N d i d' \<longleftrightarrow> alloc_inv N d' \<and> alloc_frame d d' \<and>
     (if i = FLOWID_INVALID then flow_avail d' = flow_avail d
      else i \<in> flow_avail d \<and> flow_avail d' = flow_avail d - {i})"

lemma alloc_frame_fields:
  assumes "alloc_frame d d'"
  shows "if_lkup d' = if_lkup d" "flow_ring_table d' = flow_ring_table d" "htput_support d' = htput_support d"
    "max_tx_flowid d' = max_tx_flowid d" "num_h2d_rings d' = num_h2d_rings d" "tdls_peers d' = tdls_peers d"
    "htput_flow_ring_start d' = htput_flow_ring_start d" "max_submission_rings d' = max_submission_rings d"
    "flow_prio_map d' = flow_prio_map d"
  using assms by (auto simp: alloc_frame_def)

lemma id16_alloc_cases:
  assumes inv: "id16_inv tot start a"
  obtains (none) a' where "id16_map_alloc a = (FLOWID_INVALID, a')" "id16_inv tot start a'" "id16_avail a' = {}" "id16_avail a = {}"
  | (some) i a' where "id16_map_alloc a = (i, a')" "i \<in> id16_avail a" "i \<in> id16_ids tot start" "id16_inv tot start a'"
      "id16_avail a' = id16_avail a - {i}" "i \<noteq> FLOWID_INVALID"
proof (cases "id16_avail a = {}")
  case True
  then show thesis using i16.alloc_empty [OF inv] none by (auto simp: FLOWID_INVALID_def)
next
  case False
  then show thesis
    using i16.alloc_some [OF inv] some i16.avail_sub [OF inv] i16.bad [OF inv] unfolding FLOWID_INVALID_def by blast
qed

lemma alloc_normal_took:
  assumes inv: "alloc_inv N d"
  obtains i d' where "alloc_normal d = (i, d')" "took N d i d'"
proof -
  obtain a where a: "flowid_allocator d = Some a" "id16_inv N FLOWID_RESERVED a" using inv by (auto simp: alloc_inv_def)
  have lim: "unat N + 6 < 65535" using inv by (simp add: alloc_inv_def)
  have h: "id16_avail b \<subseteq> htput_ids N d" if "htput_flowid_allocator d = Some b" for b
    using inv that i16.avail_sub by (auto simp: alloc_inv_def htput_ids_def split: if_splits)
  from a(2) show thesis
  proof (cases rule: id16_alloc_cases)
    case (none a')
    then show ?thesis
      using that [of FLOWID_INVALID "d\<lparr>flowid_allocator := Some a'\<rparr>"] a inv
      by (auto simp: alloc_normal_def took_def alloc_inv_def flow_avail_def)
  next
    case (some i a')
    let ?d = "d\<lparr>flowid_allocator := Some a'\<rparr>"
    have "i \<notin> htput_ids N d" using normal_range [OF lim some(3)] htput_range [OF lim, of i d] by auto
    then have "flow_avail ?d = flow_avail d - {i}" "i \<in> flow_avail d"
      using a(1) some h by (cases "htput_flowid_allocator d"; force simp: flow_avail_def)+
    moreover have "alloc_inv N ?d" using inv some(4) by (simp add: alloc_inv_def split: if_splits)
    moreover have "alloc_normal d = (i, ?d)" using a(1) some(1) by (simp add: alloc_normal_def)
    ultimately show ?thesis using that some(6) by (simp add: took_def)
  qed
qed

lemma alloc_htput_took:
  assumes inv: "alloc_inv N d" and ne: "htput_flowid_allocator d \<noteq> None"
  obtains i d' where "alloc_htput d = (i, d')" "took N d i d'"
proof -
  obtain b where b: "htput_support d" "htput_flowid_allocator d = Some b"
      "id16_inv HTPUT_TOTAL_FLOW_RINGS (N + FLOWID_RESERVED) b"
    using inv ne by (auto simp: alloc_inv_def split: if_splits)
  obtain a where a: "flowid_allocator d = Some a" "id16_inv N FLOWID_RESERVED a" using inv by (auto simp: alloc_inv_def)
  have lim: "unat N + 6 < 65535" using inv by (simp add: alloc_inv_def)
  from b(3) show thesis
  proof (cases rule: id16_alloc_cases)
    case (none b')
    then show ?thesis
      using that [of FLOWID_INVALID "d\<lparr>htput_flowid_allocator := Some b'\<rparr>"] b inv
      by (auto simp: alloc_htput_def took_def alloc_inv_def flow_avail_def)
  next
    case (some i b')
    have "i \<in> htput_ids N d" using some(3) b(1) by (simp add: htput_ids_def)
    then have "i \<notin> id16_avail a"
      using normal_range [OF lim, of i] htput_range [OF lim, of i d] i16.avail_sub [OF a(2)] by fastforce
    then show ?thesis
      using that [of i "d\<lparr>htput_flowid_allocator := Some b'\<rparr>"] a b inv some
      by (auto simp: alloc_htput_def took_def alloc_inv_def flow_avail_def)
  qed
qed

lemma alloc_frame_trans: "alloc_frame d d1 \<Longrightarrow> alloc_frame d1 d2 \<Longrightarrow> alloc_frame d d2"
  by (cases d) (auto simp: alloc_frame_def)

lemma took_trans_none: "took N d FLOWID_INVALID d1 \<Longrightarrow> took N d1 i d2 \<Longrightarrow> took N d i d2"
  using alloc_frame_trans by (auto simp: took_def)

lemma alloc_counter [simp]:
  "alloc_inv N (d\<lparr>htput_client_flow_rings := c\<rparr>) = alloc_inv N d" "flow_avail (d\<lparr>htput_client_flow_rings := c\<rparr>) = flow_avail d"
  by (simp_all add: alloc_inv_def flow_avail_def)

lemma took_counter: "took N d i d' \<Longrightarrow> took N d i (d'\<lparr>htput_client_flow_rings := c\<rparr>)"
  using alloc_frame_trans [of d d' "d'\<lparr>htput_client_flow_rings := c\<rparr>"] by (simp add: took_def)

lemma htput_try_took:
  assumes inv: "alloc_inv N d"
  obtains j e where "htput_try env ifx prio da d = (j, e)" "took N d j e"
proof (cases "htput_flowid_allocator d = None")
  case True
  then show thesis using that inv by (simp add: htput_try_def took_def)
next
  case False
  then obtain j e where h: "alloc_htput d = (j, e)" "took N d j e" using alloc_htput_took [OF inv] by metis
  have c: "took N d j (e\<lparr>htput_client_flow_rings := c\<rparr>)" for c using took_counter [OF h(2)] .
  have none: "took N d FLOWID_INVALID d" using inv by (simp add: took_def)
  have "\<exists>j e. htput_try env ifx prio da d = (j, e) \<and> took N d j e"
    unfolding htput_try_def h(1) using h(2) c none by (auto split: if_split)
  then show thesis using that by blast
qed

lemma map_alloc_took:
  assumes inv: "alloc_inv N d"
  obtains i d' where "dhd_flowid_map_alloc env ifx prio da d = (i, d')" "took N d i d'"
proof -
  obtain i1 d1 where n1: "alloc_normal d = (i1, d1)" "took N d i1 d1" using alloc_normal_took [OF inv] by metis
  obtain j e where h: "htput_try env ifx prio da d = (j, e)" "took N d j e" using htput_try_took [OF inv] by metis
  have "alloc_inv N e" using h(2) by (simp add: took_def)
  then obtain i2 d2 where n2: "alloc_normal e = (i2, d2)" "took N e i2 d2" using alloc_normal_took by metis
  have t: "took N d i2 d2" if "j = FLOWID_INVALID" using took_trans_none h(2) n2(2) that by blast
  have "\<exists>i d'. dhd_flowid_map_alloc env ifx prio da d = (i, d') \<and> took N d i d'"
    unfolding dhd_flowid_map_alloc_def h(1) n1(1) using n1(2) n2 h(2) t by (simp split: if_split)
  then show thesis using that by blast
qed

lemma map_free_gives:
  assumes inv: "alloc_inv N d" and i: "i \<in> flow_ids N d" "i \<notin> flow_avail d"
  shows "alloc_inv N (dhd_flowid_map_free ifx i d) \<and> alloc_frame d (dhd_flowid_map_free ifx i d) \<and>
    flow_avail (dhd_flowid_map_free ifx i d) = insert i (flow_avail d)"
proof -
  obtain a where a: "flowid_allocator d = Some a" "id16_inv N FLOWID_RESERVED a" using inv by (auto simp: alloc_inv_def)
  show ?thesis
  proof (cases "i \<in> htput_ids N d")
    case True
    then have sup: "htput_support d" by (simp add: htput_ids_def split: if_splits)
    then obtain b where b: "htput_flowid_allocator d = Some b" "id16_inv HTPUT_TOTAL_FLOW_RINGS (N + FLOWID_RESERVED) b"
      using inv by (auto simp: alloc_inv_def)
    have "i \<notin> id16_avail b" "i \<in> id16_ids HTPUT_TOTAL_FLOW_RINGS (N + FLOWID_RESERVED)"
      using i(2) b(1) True sup by (auto simp: flow_avail_def htput_ids_def)
    note r = i16.release [OF b(2) this(2,1)]
    let ?e = "d\<lparr>htput_flowid_allocator := Some (id16_map_free i b)\<rparr>"
    have e: "alloc_inv N (?e\<lparr>htput_client_flow_rings := c\<rparr>)" "flow_avail (?e\<lparr>htput_client_flow_rings := c\<rparr>) = insert i (flow_avail d)"
        "alloc_inv N ?e" "flow_avail ?e = insert i (flow_avail d)" for c
      using inv r sup b(1) by (auto simp: alloc_inv_def flow_avail_def)
    have "alloc_frame d (?e\<lparr>htput_client_flow_rings := c\<rparr>)" for c
      by (rule alloc_frame_trans [of _ ?e]) simp_all
    then show ?thesis using htput_iff(1) [OF inv i(1)] True b(1) e by (auto simp: dhd_flowid_map_free_def Let_def)
  next
    case False
    then have n: "i \<in> id16_ids N FLOWID_RESERVED" using htput_iff(2) [OF inv i(1)] by simp
    have "i \<notin> id16_avail a" using i(2) a(1) by (auto simp: flow_avail_def)
    note r = i16.release [OF a(2) n this]
    have c: "\<not> (htput_flowid_allocator d \<noteq> None \<and> DHD_IS_FLOWID_HTPUT d i)" using htput_iff(1) [OF inv i(1)] False by blast
    have e: "dhd_flowid_map_free ifx i d = d\<lparr>flowid_allocator := Some (id16_map_free i a)\<rparr>"
      unfolding dhd_flowid_map_free_def if_not_P [OF c] using a(1) by simp
    show ?thesis unfolding e using inv r a by (auto simp: alloc_inv_def flow_avail_def)
  qed
qed

section \<open>What the invariant depends on\<close>

definition ids_view :: "dhd_flow \<Rightarrow> id16_map option \<times> id16_map option \<times> bool \<times> u16 \<times> u32 \<times> nat \<times> nat \<times>
    flow_hash_info list list list \<times> (u16 \<times> flow_info) list option" where
  "ids_view d = (flowid_allocator d, htput_flowid_allocator d, htput_support d, htput_flow_ring_start d, max_tx_flowid d,
     num_h2d_rings d, max_submission_rings d, map fl_hash (if_lkup d), map_option (map (\<lambda>n. (node_flowid n, node_info n))) (flow_ring_table d))"

lemma chain_id_in_table:
  assumes "flow_inv N d" "i \<in> set (chain_ids d)" "flow_ring_table d = Some t"
  shows "unat i < length t" "unat i \<le> unat (max_tx_flowid d)" "i \<noteq> FLOWID_INVALID"
proof -
  have "i \<in> flow_ids N d" "unat N + 6 < 65535" "table_inv N d" using assms by (auto simp: flow_inv_def alloc_inv_def)
  then show "unat i < length t" "unat i \<le> unat (max_tx_flowid d)" "i \<noteq> FLOWID_INVALID"
    using flow_ids_range [of N i d] assms(3) by (auto simp: table_inv_def)
qed

lemma chained_cong:
  assumes "node_info (node_of d' (hash_flowid cur)) = node_info (node_of d (hash_flowid cur))"
  shows "chained d' ifx cur = chained d ifx cur"
  using assms by (simp add: chained_def)

lemma bucket_in_chain:
  "lkup_inv d \<Longrightarrow> ifx < DHD_MAX_IFS \<Longrightarrow> h < DHD_FLOWRING_HASH_SIZE \<Longrightarrow> cur \<in> set (bucket d ifx h) \<Longrightarrow>
     hash_flowid cur \<in> set (chain_ids d)"
  using chain_nodes_iff [of d cur] by (auto simp: chain_ids_def)

lemma flow_inv_view:
  assumes inv: "flow_inv N d" and v: "ids_view d' = ids_view d"
  shows "flow_inv N d'"
proof -
  obtain t where t: "flow_ring_table d = Some t" using inv by (auto simp: flow_inv_def table_inv_def)
  then obtain t' where t': "flow_ring_table d' = Some t'"
      "map (\<lambda>n. (node_flowid n, node_info n)) t' = map (\<lambda>n. (node_flowid n, node_info n)) t"
    using v by (auto simp: ids_view_def)
  have len: "length t' = length t" using map_eq_imp_length_eq [OF t'(2)] .
  have nth: "node_flowid (t' ! i) = node_flowid (t ! i)" "node_info (t' ! i) = node_info (t ! i)" if "i < length t" for i
    using arg_cong [OF t'(2), of "\<lambda>l. l ! i"] that len by simp_all
  have lk: "map fl_hash (if_lkup d') = map fl_hash (if_lkup d)" using v by (simp add: ids_view_def)
  have ll: "length (if_lkup d') = length (if_lkup d)" using map_eq_imp_length_eq [OF lk] .
  have fh: "fl_hash (if_lkup d' ! ifx) = fl_hash (if_lkup d ! ifx)" if "ifx < length (if_lkup d)" for ifx
    using arg_cong [OF lk, of "\<lambda>l. l ! ifx"] that ll by simp
  have chain: "chain_ids d' = chain_ids d" using lk by (simp add: chain_ids_def chain_nodes_def)
  have lkd: "lkup_inv d" "length (if_lkup d) = DHD_MAX_IFS" using inv by (auto simp: flow_inv_def lkup_inv_def)
  have buckets: "bucket d' ifx h = bucket d ifx h" if "ifx < DHD_MAX_IFS" for ifx h
    using fh that lkd(2) by (simp add: bucket_def)
  have "chained d' ifx cur" if ix: "ifx < DHD_MAX_IFS" "h < DHD_FLOWRING_HASH_SIZE" "cur \<in> set (bucket d' ifx h)" for ifx h cur
  proof -
    have c: "cur \<in> set (bucket d ifx h)" using ix buckets by simp
    have "unat (hash_flowid cur) < length t"
      using chain_id_in_table(1) [OF inv bucket_in_chain [OF lkd(1) ix(1,2) c] t] .
    then have "chained d' ifx cur = chained d ifx cur"
      using nth(2) t t'(1) by (intro chained_cong) (simp add: node_of_def)
    then show ?thesis using inv ix c by (auto simp: flow_inv_def)
  qed
  moreover have "alloc_inv N d'" "flow_avail d' = flow_avail d" "flow_ids N d' = flow_ids N d"
    using inv v by (auto simp: flow_inv_def alloc_inv_def ids_view_def flow_avail_def flow_ids_def htput_ids_def)
  moreover have "lkup_inv d'" using inv ll fh by (auto simp: flow_inv_def lkup_inv_def)
  moreover have "table_inv N d'" using inv v t t'(1) len nth(1) by (auto simp: flow_inv_def table_inv_def ids_view_def)
  ultimately show ?thesis using inv chain by (auto simp: flow_inv_def)
qed

lemma ids_view_update_node:
  assumes "\<And>n. node_flowid (f n) = node_flowid n" "\<And>n. node_info (f n) = node_info n"
  shows "ids_view (update_node i f d) = ids_view d"
proof (cases "flow_ring_table d")
  case (Some t)
  have "map (\<lambda>n. (node_flowid n, node_info n)) (t[unat i := f (t ! unat i)]) = map (\<lambda>n. (node_flowid n, node_info n)) t"
    by (cases "unat i < length t") (auto intro!: nth_equalityI simp: nth_list_update assms)
  then show ?thesis using Some by (simp add: ids_view_def update_node_def)
qed (simp add: ids_view_def update_node_def)

lemma ids_view_set_queue [simp]: "ids_view (set_queue i q d) = ids_view d"
  unfolding set_queue_def by (rule ids_view_update_node) simp_all

end
