(* ===== verification/Flow_Lookup.thy ===== *)
theory Flow_Lookup
  imports Flow_Ids
begin

text \<open>
  The lookup of a flow ring, its creation and its release keep the accounting of \<open>Flow_Ids\<close>. A flow has one slot of the
  lookup table, \<open>flow_slot\<close>, and a test \<open>flow_match\<close> on the nodes chained there; \<open>dhd_flowid_find\<close> returns the id of the
  first match and \<open>dhd_flowid_alloc\<close> appends a node to the same slot.
\<close>

unbundle bit_operations_syntax

lemma unat_ucast_u32 [word_conv]: "unat (ucast (i :: u16) :: u32) = unat i"
  by (simp add: unsigned_ucast_eq take_bit_nat_eq_self_iff order.strict_trans [OF unat_u16_less])

section \<open>Slots\<close>

definition flow_slot :: "dhd_flow \<Rightarrow> nat \<Rightarrow> u8 \<Rightarrow> u8 list \<Rightarrow> nat" where
  "flow_slot d ifx prio da =
     (if DHD_IF_ROLE_GENERIC_STA d ifx then (if is_tdls_destination d da then DHD_FLOWRING_HASHINDEX da prio else unat prio)
      else if ETHER_ISMULTI da then 0 else DHD_FLOWRING_HASHINDEX da prio)"

definition flow_match :: "dhd_flow \<Rightarrow> nat \<Rightarrow> u8 \<Rightarrow> u8 list \<Rightarrow> flow_hash_info \<Rightarrow> bool" where
  "flow_match d ifx prio da cur \<longleftrightarrow>
     (if DHD_IF_ROLE_GENERIC_STA d ifx then is_tdls_destination d da \<longrightarrow> fi_da (hash_info cur) = da
      else ETHER_ISMULTI da \<and> ETHER_ISMULTI (fi_da (hash_info cur)) \<or>
        fi_da (hash_info cur) = da \<and> fi_tid (hash_info cur) = prio)"

lemma flow_slot_less: "flow_slot d ifx prio da < DHD_FLOWRING_HASH_SIZE"
  using unat_u8_less [of prio] by (auto simp: flow_slot_def DHD_FLOWRING_HASHINDEX_def DHD_FLOWRING_HASH_SIZE_def)

lemma find_eq:
  "dhd_flowid_find d ifx prio da =
     (if ifx \<ge> DHD_MAX_IFS then FLOWID_INVALID
      else chain_find (flow_match d ifx prio da) (bucket d ifx (flow_slot d ifx prio da)))"
  by (auto simp: dhd_flowid_find_def flow_slot_def flow_match_def [abs_def] Let_def split: list.split)

lemma chain_find_eq:
  "chain_find P ns = (case find P ns of None \<Rightarrow> FLOWID_INVALID | Some cur \<Rightarrow> hash_flowid cur)"
  by (induction ns) auto

lemma chain_find_cases:
  assumes "\<And>cur. cur \<in> set ns \<Longrightarrow> hash_flowid cur \<noteq> FLOWID_INVALID"
  shows "chain_find P ns = FLOWID_INVALID \<longleftrightarrow> (\<forall>cur \<in> set ns. \<not> P cur)"
    "chain_find P ns \<noteq> FLOWID_INVALID \<Longrightarrow> \<exists>cur \<in> set ns. P cur \<and> hash_flowid cur = chain_find P ns"
    "chain_find P (ns @ ms) = (if chain_find P ns = FLOWID_INVALID then chain_find P ms else chain_find P ns)"
  using assms by (induction ns) auto

lemma bucket_ids_valid:
  assumes inv: "flow_inv N d" and ix: "ifx < DHD_MAX_IFS" "h < DHD_FLOWRING_HASH_SIZE" and c: "cur \<in> set (bucket d ifx h)"
  shows "hash_flowid cur \<noteq> FLOWID_INVALID"
proof -
  have "lkup_inv d" and "\<exists>t. flow_ring_table d = Some t" using inv by (auto simp: flow_inv_def table_inv_def)
  then show ?thesis using chain_id_in_table(3) [OF inv bucket_in_chain [OF _ ix c]] by auto
qed

lemma find_cases:
  assumes inv: "flow_inv N d" and ix: "ifx < DHD_MAX_IFS" and f: "dhd_flowid_find d ifx prio da \<noteq> FLOWID_INVALID"
  obtains cur where "cur \<in> set (bucket d ifx (flow_slot d ifx prio da))" "flow_match d ifx prio da cur"
    "hash_flowid cur = dhd_flowid_find d ifx prio da" "dhd_flowid_find d ifx prio da \<in> set (chain_ids d)"
    "chained d ifx cur"
proof -
  let ?b = "bucket d ifx (flow_slot d ifx prio da)"
  have lk: "lkup_inv d" using inv by (simp add: flow_inv_def)
  have e: "dhd_flowid_find d ifx prio da = chain_find (flow_match d ifx prio da) ?b" using find_eq ix by simp
  have "\<exists>cur \<in> set ?b. flow_match d ifx prio da cur \<and> hash_flowid cur = chain_find (flow_match d ifx prio da) ?b"
    using chain_find_cases(2) [of ?b "flow_match d ifx prio da"] bucket_ids_valid [OF inv ix flow_slot_less] f e by simp
  then obtain cur where c: "cur \<in> set ?b" "flow_match d ifx prio da cur" "hash_flowid cur = dhd_flowid_find d ifx prio da"
    using e by auto
  moreover have "hash_flowid cur \<in> set (chain_ids d)" using bucket_in_chain [OF lk ix flow_slot_less c(1)] .
  moreover have "chained d ifx cur" using inv ix flow_slot_less [of d ifx prio da] c(1) unfolding flow_inv_def by blast
  ultimately show thesis using that by simp
qed

section \<open>Creation\<close>

definition flow_node :: "u16 \<Rightarrow> nat \<Rightarrow> u8 \<Rightarrow> u8 list \<Rightarrow> flow_hash_info" where
  "flow_node i ifx prio da =
     \<lparr>hash_flowid = i, hash_info = \<lparr>fi_tid = prio, fi_ifindex = ifx, fi_sa = replicate 6 0, fi_da = da\<rparr>\<rparr>"

lemma flow_match_own: "flow_match d ifx prio da (flow_node i ifx prio da)"
  by (simp add: flow_match_def flow_node_def)

text \<open>Roles and peers decide slot and match; the allocators and chains do not.\<close>

definition same_roles :: "dhd_flow \<Rightarrow> dhd_flow \<Rightarrow> bool" where
  "same_roles d d' \<longleftrightarrow> map role (if_lkup d') = map role (if_lkup d) \<and> tdls_peers d' = tdls_peers d"

lemma same_roles_slot:
  assumes "same_roles d d'" "ifx < length (if_lkup d)"
  shows "DHD_IF_ROLE d' ifx = DHD_IF_ROLE d ifx" "flow_slot d' ifx prio da = flow_slot d ifx prio da"
    "flow_match d' ifx prio da = flow_match d ifx prio da"
proof -
  have l: "length (if_lkup d') = length (if_lkup d)"
    using assms(1) map_eq_imp_length_eq unfolding same_roles_def by metis
  show r: "DHD_IF_ROLE d' ifx = DHD_IF_ROLE d ifx"
    using assms l arg_cong [of _ _ "\<lambda>xs. xs ! ifx"] unfolding same_roles_def DHD_IF_ROLE_def by (metis nth_map)
  have p: "is_tdls_destination d' = is_tdls_destination d"
    using assms(1) by (simp add: same_roles_def is_tdls_destination_def [abs_def])
  show "flow_slot d' ifx prio da = flow_slot d ifx prio da" "flow_match d' ifx prio da = flow_match d ifx prio da"
    using r p by (simp_all add: flow_slot_def flow_match_def [abs_def] DHD_IF_ROLE_GENERIC_STA_def)
qed

lemma same_roles_set_bucket: "same_roles d (set_bucket ifx h ns d)"
proof -
  have "map role ((if_lkup d)[ifx := (if_lkup d ! ifx)\<lparr>fl_hash := bs\<rparr>]) = map role (if_lkup d)" for bs
    by (cases "ifx < length (if_lkup d)") (auto intro!: nth_equalityI simp: nth_list_update)
  then show ?thesis by (simp add: same_roles_def set_bucket_def Let_def)
qed

text \<open>\<open>dhd_flowid_alloc\<close> for a flow that has no ring.\<close>

lemma flowid_alloc_cases:
  assumes inv: "flow_inv N d" and ix: "ifx < DHD_MAX_IFS" and nf: "dhd_flowid_find d ifx prio da = FLOWID_INVALID"
  obtains (none) e where "dhd_flowid_alloc env ifx prio da d = (FLOWID_INVALID, e)" "took N d FLOWID_INVALID e"
  | (some) i e where "i \<noteq> FLOWID_INVALID" "took N d i e"
      "dhd_flowid_alloc env ifx prio da d =
        (i, set_bucket ifx (flow_slot d ifx prio da) (bucket d ifx (flow_slot d ifx prio da) @ [flow_node i ifx prio da]) e)"
proof (cases "malloc_ok env")
  case False
  then show thesis using none inv by (simp add: dhd_flowid_alloc_def took_def flow_inv_def)
next
  case True
  let ?s = "flow_slot d ifx prio da"
  have al: "alloc_inv N d" and lk: "length (if_lkup d) = DHD_MAX_IFS" using inv by (auto simp: flow_inv_def lkup_inv_def)
  obtain i e where a: "dhd_flowid_map_alloc env ifx prio da d = (i, e)" "took N d i e" using map_alloc_took [OF al] by metis
  show thesis
  proof (cases "i = FLOWID_INVALID")
    case True
    then show ?thesis using none a \<open>malloc_ok env\<close> by (simp add: dhd_flowid_alloc_def)
  next
    case i: False
    have fr: "if_lkup e = if_lkup d" "tdls_peers e = tdls_peers d" "max_tx_flowid e = max_tx_flowid d"
      using a(2) alloc_frame_fields by (auto simp: took_def)
    then have eqs: "bucket e = bucket d" "DHD_IF_ROLE_GENERIC_STA e ifx = DHD_IF_ROLE_GENERIC_STA d ifx"
        "is_tdls_destination e da = is_tdls_destination d da"
      by (simp_all add: bucket_def [abs_def] DHD_IF_ROLE_GENERIC_STA_def DHD_IF_ROLE_def is_tdls_destination_def)
    have "i \<in> flow_ids N d" using a(2) i inv by (auto simp: took_def flow_inv_def)
    then have "unat i \<le> unat (max_tx_flowid d)"
      using flow_ids_range [of N i d] inv by (auto simp: flow_inv_def alloc_inv_def table_inv_def)
    then have range: "\<not> ucast i > max_tx_flowid d" by (simp add: word_less_nat_alt unat_ucast_u32)
    have empty: "bucket d ifx (unat prio) = []" if "DHD_IF_ROLE_GENERIC_STA d ifx" "\<not> is_tdls_destination d da"
    proof -
      have "bucket d ifx ?s = []"
        using nf ix chain_find_cases(1) [of "bucket d ifx ?s" "flow_match d ifx prio da"] bucket_ids_valid [OF inv ix flow_slot_less]
          that by (auto simp: find_eq flow_match_def)
      then show ?thesis using that by (simp add: flow_slot_def)
    qed
    have mx: "max_tx_flowid (set_bucket ifx h ns e) = max_tx_flowid d" for h ns
      using fr(3) by (simp add: set_bucket_def Let_def)
    have "dhd_flowid_alloc env ifx prio da d = (i, set_bucket ifx ?s (bucket d ifx ?s @ [flow_node i ifx prio da]) e)"
      using a(1) i True eqs empty range mx
      by (auto simp: dhd_flowid_alloc_def flow_node_def flow_slot_def Let_def)
    then show ?thesis using some i a(2) by blast
  qed
qed

lemma mset_distinct_add:
  assumes "mset ys = mset xs + {#i#}" "i \<notin> set xs" "distinct xs"
  shows "distinct ys" "set ys = insert i (set xs)"
proof -
  have "mset ys = mset (i # xs)" using assms(1) by simp
  then show "distinct ys" "set ys = insert i (set xs)"
    using assms(2,3) mset_eq_imp_distinct_iff [of ys "i # xs"] mset_eq_setD [of ys "i # xs"] by auto
qed

text \<open>A new node in the slot of its flow, for an id taken from the allocators, with the flow in the ring's node.\<close>

lemma flow_inv_create:
  assumes inv: "flow_inv N d" and ix: "ifx < DHD_MAX_IFS" and h: "h < DHD_FLOWRING_HASH_SIZE"
    and i: "i \<noteq> FLOWID_INVALID" "took N d i e"
    and f: "\<And>n. node_flowid (f n) = node_flowid n" "\<And>n. node_info (f n) = \<lparr>fi_tid = prio, fi_ifindex = ifx, fi_sa = sa, fi_da = da\<rparr>"
  shows "flow_inv N (update_node i f (set_bucket ifx h (bucket d ifx h @ [flow_node i ifx prio da]) e))"
proof -
  let ?b = "bucket d ifx h @ [flow_node i ifx prio da]"
  let ?s = "set_bucket ifx h ?b e"
  let ?d = "update_node i f ?s"
  have fr: "if_lkup e = if_lkup d" "flow_ring_table e = flow_ring_table d" "htput_support e = htput_support d"
      "max_tx_flowid e = max_tx_flowid d" "num_h2d_rings e = num_h2d_rings d"
      "max_submission_rings e = max_submission_rings d"
      "htput_flow_ring_start e = htput_flow_ring_start d"
    using i(2) alloc_frame_fields by (auto simp: took_def)
  have be: "bucket e = bucket d" using fr(1) by (simp add: bucket_def [abs_def])
  have lk: "lkup_inv d" "lkup_inv e" using inv fr(1) by (auto simp: flow_inv_def lkup_inv_def)
  obtain t where t: "flow_ring_table d = Some t" "length t = num_h2d_rings d" "unat (max_tx_flowid d) < length t"
      "length t \<le> 65536" "\<forall>i < length t. node_flowid (t ! i) = of_nat i"
    using inv by (auto simp: flow_inv_def table_inv_def)
  have av: "i \<in> flow_avail d" "flow_avail e = flow_avail d - {i}" using i by (auto simp: took_def)
  then have ids: "i \<in> flow_ids N d" "i \<notin> set (chain_ids d)" using inv by (auto simp: flow_inv_def)
  then have it: "unat i < length t"
    using flow_ids_range(2) [of N i d] inv t(3) by (auto simp: flow_inv_def alloc_inv_def table_inv_def)
  have lku: "if_lkup ?d = if_lkup ?s" by (simp add: update_node_def)
  have c1: "mset (chain_ids ?s) = mset (chain_ids d) + {#i#}"
    using chain_ids_append [OF lk(2) ix h, of "flow_node i ifx prio da"] fr(1) be
    by (simp add: flow_node_def chain_ids_def chain_nodes_def)
  have c: "chain_ids ?d = chain_ids ?s" using lku by (simp add: chain_ids_def chain_nodes_def)
  have "distinct (chain_ids d)" using inv by (simp add: flow_inv_def)
  then have dist: "distinct (chain_ids ?d)" "set (chain_ids ?d) = insert i (set (chain_ids d))"
    unfolding c using mset_distinct_add [OF c1 ids(2)] by simp_all
  have al: "alloc_inv N ?d" "flow_avail ?d = flow_avail d - {i}" "flow_ids N ?d = flow_ids N d"
    using i(2) av fr(3) by (auto simp: took_def alloc_inv_def flow_avail_def flow_ids_def htput_ids_def update_node_def
        set_bucket_def Let_def)
  have "lkup_inv ?d" using lkup_inv_set_bucket [OF lk(2), of ifx h ?b] lku by (simp add: lkup_inv_def)
  moreover have "table_inv N ?d"
    using inv t fr it f(1)
    by (auto simp: flow_inv_def table_inv_def update_node_def set_bucket_def Let_def nth_list_update)
  moreover have "chained ?d ifx' cur"
    if q: "ifx' < DHD_MAX_IFS" "h' < DHD_FLOWRING_HASH_SIZE" "cur \<in> set (bucket ?d ifx' h')" for ifx' h' cur
  proof -
    have "bucket ?d ifx' h' = (if ifx' = ifx \<and> h' = h then ?b else bucket d ifx' h')"
      using bucket_set_bucket [OF lk(2) ix h, of ?b ifx' h'] be lku by (simp add: bucket_def)
    then consider (new) "ifx' = ifx" "cur = flow_node i ifx prio da" | (old) "cur \<in> set (bucket d ifx' h')"
      using q(3) by (auto split: if_splits)
    then show ?thesis
    proof cases
      case new
      then show ?thesis using f(2) it t(1) fr(2)
        by (simp add: chained_def node_of_def update_node_def set_bucket_def flow_node_def Let_def)
    next
      case old
      then have "hash_flowid cur \<in> set (chain_ids d)" using bucket_in_chain [OF lk(1) q(1,2)] by simp
      then have "unat (hash_flowid cur) \<noteq> unat i" using ids(2) by (metis word_unat_eq_iff)
      then have "chained ?d ifx' cur = chained d ifx' cur"
        using t(1) fr(2) by (intro chained_cong) (simp add: node_of_def update_node_def set_bucket_def Let_def)
      moreover have "chained d ifx' cur" using inv q old unfolding flow_inv_def by blast
      ultimately show ?thesis by simp
    qed
  qed
  moreover have "set (chain_ids ?d) \<union> flow_avail ?d = flow_ids N ?d" "set (chain_ids ?d) \<inter> flow_avail ?d = {}"
    using dist(2) al(2,3) inv av(1) by (auto simp: flow_inv_def)
  ultimately show ?thesis using al(1) dist(1) unfolding flow_inv_def by blast
qed

lemma update_node_twice: "update_node i g (update_node i f d) = update_node i (\<lambda>n. g (f n)) d"
proof (cases "flow_ring_table d")
  case (Some t)
  then show ?thesis by (cases "unat i < length t") (simp_all add: update_node_def list_update_beyond)
qed (simp add: update_node_def)

lemma create_flow_cases:
  assumes inv: "flow_inv N d" and ix: "ifx < DHD_MAX_IFS" and nf: "dhd_flowid_find d ifx prio da = FLOWID_INVALID"
    and r: "create_flow env ifx prio sa da d = (ret, j, d')"
  obtains (refused) e where "ret = BCME_ERROR" "j = FLOWID_INVALID" "took N d FLOWID_INVALID e" "d' = e"
  | (made) i e c f where "i \<noteq> FLOWID_INVALID" "took N d i e"
      "d' = update_node i f (set_bucket ifx (flow_slot d ifx prio da)
          (bucket d ifx (flow_slot d ifx prio da) @ [flow_node i ifx prio da]) e\<lparr>multi_client_flow_rings := c\<rparr>)"
      "\<And>n. node_flowid (f n) = node_flowid n" "\<And>n. fr_queue (f n) = fr_queue n"
      "\<And>n. node_info (f n) = \<lparr>fi_tid = prio, fi_ifindex = ifx, fi_sa = sa, fi_da = da\<rparr>"
      "ret = BCME_OK \<and> j = i \<and> (\<forall>n. active (f n) \<and> status (f n) = FLOW_RING_STATUS_CREATE_PENDING) \<or>
       ret = BCME_ERROR \<and> j = FLOWID_INVALID \<and> (\<forall>n. \<not> active (f n) \<and> status (f n) = FLOW_RING_STATUS_CLOSED)"
proof (cases "\<not> if_status (if_lkup d ! ifx) \<or>
    DHD_IF_ROLE_MULTI_CLIENT d ifx \<and> \<not> ETHER_ISMULTI da \<and> \<not> dhd_sta_associated env ifx da")
  case True
  then have "create_flow env ifx prio sa da d = (BCME_ERROR, FLOWID_INVALID, d)" by (auto simp: create_flow_def)
  then have "ret = BCME_ERROR" "j = FLOWID_INVALID" "d' = d" using r by simp_all
  then show thesis using refused [of d] inv by (simp add: took_def flow_inv_def)
next
  case guards: False
  from inv ix nf show thesis
  proof (cases rule: flowid_alloc_cases [where env = env])
    case (none e)
    then have "create_flow env ifx prio sa da d = (BCME_ERROR, FLOWID_INVALID, e)"
      using guards by (auto simp: create_flow_def)
    then have "ret = BCME_ERROR" "j = FLOWID_INVALID" "d' = e" using r by simp_all
    then show ?thesis using refused none by simp
  next
    case (some i e)
    let ?s = "set_bucket ifx (flow_slot d ifx prio da)
      (bucket d ifx (flow_slot d ifx prio da) @ [flow_node i ifx prio da]) e"
    let ?c = "if DHD_IF_ROLE_MULTI_CLIENT ?s ifx then multi_client_flow_rings ?s + 1 else multi_client_flow_rings ?s"
    let ?f = "\<lambda>n. n\<lparr>node_info := \<lparr>fi_tid = prio, fi_ifindex = ifx, fi_sa = sa, fi_da = da\<rparr>,
                    active := True, status := FLOW_RING_STATUS_CREATE_PENDING\<rparr>"
    let ?ok = "dhd_prot_flow_ring_create env i = BCME_OK"
    let ?g = "\<lambda>n. if ?ok then (?f n)\<lparr>prot_info := True\<rparr> else (?f n)\<lparr>status := FLOW_RING_STATUS_CLOSED, active := False\<rparr>"
    have "(if DHD_IF_ROLE_MULTI_CLIENT ?s ifx then ?s\<lparr>multi_client_flow_rings := multi_client_flow_rings ?s + 1\<rparr> else ?s) =
        ?s\<lparr>multi_client_flow_rings := ?c\<rparr>" by simp
    then have "create_flow env ifx prio sa da d = (if ?ok then (BCME_OK, i, update_node i ?g (?s\<lparr>multi_client_flow_rings := ?c\<rparr>))
        else (BCME_ERROR, FLOWID_INVALID, update_node i ?g (?s\<lparr>multi_client_flow_rings := ?c\<rparr>)))"
      using guards some(1,3)
      by (auto simp: create_flow_def dhd_bus_flow_ring_create_request_def update_node_twice Let_def)
    note this [unfolded r]
    then show ?thesis
      using made [OF some(1,2), where f = ?g and c = ?c] by (auto split: if_splits)
  qed
qed

section \<open>Lookup\<close>

definition q_view :: "dhd_flow \<Rightarrow> flow_queue list option \<times> links \<times> (u16 \<times> ptr) list \<times> ptr list" where
  "q_view d = (map_option (map fr_queue) (flow_ring_table d), pkt_links d, sent_pkts d, freed_pkts d)"

lemma q_view_update_node:
  assumes "\<And>n. fr_queue (f n) = fr_queue n"
  shows "q_view (update_node i f d) = q_view d"
proof (cases "flow_ring_table d")
  case (Some t)
  have "map fr_queue (t[unat i := f (t ! unat i)]) = map fr_queue t"
    by (cases "unat i < length t") (auto intro!: nth_equalityI simp: nth_list_update assms)
  then show ?thesis using Some by (simp add: q_view_def update_node_def)
qed (simp add: q_view_def update_node_def)

lemma q_view_frame [simp]:
  "alloc_frame d e \<Longrightarrow> q_view e = q_view d" "q_view (set_bucket ifx h ns d) = q_view d"
  "q_view (d\<lparr>multi_client_flow_rings := c\<rparr>) = q_view d" "q_view (d\<lparr>dll_mem := m\<rparr>) = q_view d"
  "q_view (d\<lparr>pkt_flowid := tg\<rparr>) = q_view d"
  by (auto simp: q_view_def set_bucket_def alloc_frame_def Let_def)

lemma ids_view_frame [simp]:
  "ids_view (d\<lparr>multi_client_flow_rings := c\<rparr>) = ids_view d" "ids_view (d\<lparr>dll_mem := m\<rparr>) = ids_view d"
  "ids_view (d\<lparr>pkt_flowid := tg\<rparr>) = ids_view d" "ids_view (d\<lparr>pkt_links := L\<rparr>) = ids_view d"
  "ids_view (d\<lparr>sent_pkts := sp\<rparr>) = ids_view d" "ids_view (d\<lparr>freed_pkts := fp\<rparr>) = ids_view d"
  by (simp_all add: ids_view_def)

text \<open>An id that was not taken leaves the invariant alone.\<close>

lemma flow_inv_took_none:
  assumes "flow_inv N d" "took N d FLOWID_INVALID e"
  shows "flow_inv N e"
proof -
  have f: "if_lkup e = if_lkup d" "flow_ring_table e = flow_ring_table d" "htput_support e = htput_support d"
      "max_tx_flowid e = max_tx_flowid d" "num_h2d_rings e = num_h2d_rings d"
      "max_submission_rings e = max_submission_rings d"
    using assms(2) alloc_frame_fields by (auto simp: took_def)
  have "chain_ids e = chain_ids d" "lkup_inv e = lkup_inv d" "bucket e = bucket d" "chained e = chained d"
      "table_inv N e = table_inv N d" "flow_ids N e = flow_ids N d"
    using f by (simp_all add: chain_ids_def chain_nodes_def lkup_inv_def bucket_def [abs_def] chained_def [abs_def] node_of_def
        table_inv_def flow_ids_def htput_ids_def)
  then show ?thesis using assms by (simp add: flow_inv_def took_def)
qed

text \<open>What one lookup does: find the ring, or create it.\<close>

lemma lookup_cases:
  assumes inv: "flow_inv N d" and r: "dhd_flowid_lookup env ifx prio sa da d = (ret, j, d')"
  obtains (bad) "DHD_MAX_IFS \<le> ifx" "ret = BCME_BADARG" "j = FLOWID_INVALID" "d' = d"
  | (found) i where "ifx < DHD_MAX_IFS" "i = dhd_flowid_find d ifx prio da" "i \<noteq> FLOWID_INVALID" "d' = d"
      "if status (node_of d i) = FLOW_RING_STATUS_DELETE_PENDING \<or> status (node_of d i) = FLOW_RING_STATUS_CLOSED
       then ret = BCME_ERROR \<and> j = FLOWID_INVALID else ret = BCME_OK \<and> j = i"
  | (create) "ifx < DHD_MAX_IFS" "dhd_flowid_find d ifx prio da = FLOWID_INVALID"
      "create_flow env ifx prio sa da d = (ret, j, d')"
proof -
  have t: "flow_ring_table d \<noteq> None" using inv by (auto simp: flow_inv_def table_inv_def)
  let ?i = "dhd_flowid_find d ifx prio da"
  show thesis
  proof (cases "DHD_MAX_IFS \<le> ifx")
    case True
    then show ?thesis using bad r t by (simp add: dhd_flowid_lookup_def)
  next
    case ix: False
    show ?thesis
    proof (cases "?i = FLOWID_INVALID")
      case True
      then show ?thesis using create r t ix by (simp add: dhd_flowid_lookup_def Let_def)
    next
      case i: False
      then obtain cur where "?i \<in> set (chain_ids d)" using find_cases [OF inv _ i] ix by (metis not_less)
      then have "unat ?i \<le> unat (max_tx_flowid d)" using chain_id_in_table(2) [OF inv] t by auto
      then have "\<not> ucast ?i > max_tx_flowid d" by (simp add: word_less_nat_alt unat_ucast_u32)
      then show ?thesis
        using found [of ?i] r t ix i by (auto simp: dhd_flowid_lookup_def Let_def split: if_splits)
    qed
  qed
qed

lemma created_inv:
  assumes inv: "flow_inv N d" and ix: "ifx < DHD_MAX_IFS" and i: "i \<noteq> FLOWID_INVALID" "took N d i e"
    and f: "\<And>n. node_flowid (f n) = node_flowid n" "\<And>n. node_info (f n) = \<lparr>fi_tid = prio, fi_ifindex = ifx, fi_sa = sa, fi_da = da\<rparr>"
  shows "flow_inv N (update_node i f (set_bucket ifx (flow_slot d ifx prio da)
      (bucket d ifx (flow_slot d ifx prio da) @ [flow_node i ifx prio da]) e\<lparr>multi_client_flow_rings := c\<rparr>))"
proof (rule flow_inv_view [OF flow_inv_create [OF inv ix flow_slot_less i f]])
qed (simp_all add: ids_view_def update_node_def)

lemma lookup_keeps:
  assumes inv: "flow_inv N d" and r: "dhd_flowid_lookup env ifx prio sa da d = (ret, j, d')"
  shows "flow_inv N d' \<and> q_view d' = q_view d"
  using inv r
proof (cases rule: lookup_cases)
  case create
  from inv create(1,2,3) show ?thesis
  proof (cases rule: create_flow_cases)
    case (refused e)
    then show ?thesis using flow_inv_took_none [OF inv] by (auto simp: took_def)
  next
    case (made i e c f)
    then show ?thesis
      using created_inv [OF inv create(1) made(1,2), of f, OF made(4,6)] by (simp add: q_view_update_node took_def)
  qed
qed (use inv in simp_all)

section \<open>Release\<close>

lemma free_scan_cases:
  "free_scan ifx i hs d = d \<and> (\<forall>h \<in> set hs. \<not> list_ex (\<lambda>cur. hash_flowid cur = i) (bucket d ifx h)) \<or>
   (\<exists>h \<in> set hs. \<exists>c. list_ex (\<lambda>cur. hash_flowid cur = i) (bucket d ifx h) \<and>
     free_scan ifx i hs d =
       dhd_flowid_map_free ifx i (set_bucket ifx h (remove1_id i (bucket d ifx h)) d\<lparr>multi_client_flow_rings := c\<rparr>))"
proof (induction hs)
  case (Cons h hs)
  show ?case
  proof (cases "list_ex (\<lambda>cur. hash_flowid cur = i) (bucket d ifx h)")
    case True
    let ?s = "set_bucket ifx h (remove1_id i (bucket d ifx h)) d"
    let ?c = "if DHD_IF_ROLE_MULTI_CLIENT ?s ifx \<and> multi_client_flow_rings ?s \<noteq> 0
      then multi_client_flow_rings ?s - 1 else multi_client_flow_rings ?s"
    have "free_scan ifx i (h # hs) d = dhd_flowid_map_free ifx i (?s\<lparr>multi_client_flow_rings := ?c\<rparr>)"
      using True by (simp add: Let_def)
    then show ?thesis using True by (intro disjI2 bexI [of _ h] exI [of _ ?c]) simp_all
  next
    case False
    then show ?thesis using Cons.IH by auto
  qed
qed simp

lemma flow_inv_remove:
  assumes inv: "flow_inv N d" and ix: "ifx < DHD_MAX_IFS" and h: "h < DHD_FLOWRING_HASH_SIZE"
    and ex: "list_ex (\<lambda>cur. hash_flowid cur = i) (bucket d ifx h)"
    and e: "e = set_bucket ifx h (remove1_id i (bucket d ifx h)) d\<lparr>multi_client_flow_rings := c\<rparr>"
  shows "flow_inv N (dhd_flowid_map_free ifx i e) \<and> i \<in> flow_avail (dhd_flowid_map_free ifx i e) \<and>
    q_view (dhd_flowid_map_free ifx i e) = q_view d \<and>
    set (chain_ids (dhd_flowid_map_free ifx i e)) = set (chain_ids d) - {i}"
proof -
  let ?d = "dhd_flowid_map_free ifx i e"
  have lk: "lkup_inv d" and dist: "distinct (chain_ids d)" using inv by (auto simp: flow_inv_def)
  have chain_e: "chain_ids e = chain_ids (set_bucket ifx h (remove1_id i (bucket d ifx h)) d)"
    unfolding e by (simp add: chain_ids_def chain_nodes_def)
  have ms: "mset (chain_ids d) = mset (chain_ids e) + {#i#}" unfolding chain_e by (rule chain_ids_remove [OF lk ix h ex])
  then have "mset (chain_ids d) = mset (i # chain_ids e)" by simp
  then have ce: "distinct (i # chain_ids e)" "set (chain_ids d) = insert i (set (chain_ids e))"
    using dist mset_eq_imp_distinct_iff [of "chain_ids d" "i # chain_ids e"] mset_eq_setD [of "chain_ids d" "i # chain_ids e"]
    by simp_all
  have av: "flow_avail e = flow_avail d" "flow_ids N e = flow_ids N d" "alloc_inv N e"
    using inv unfolding e by (auto simp: flow_inv_def flow_avail_def flow_ids_def htput_ids_def alloc_inv_def set_bucket_def Let_def)
  have "i \<in> flow_ids N e" "i \<notin> flow_avail e" using inv ce(2) av by (auto simp: flow_inv_def)
  from map_free_gives [OF av(3) this, of ifx]
  have g: "alloc_inv N ?d" "alloc_frame e ?d" "flow_avail ?d = insert i (flow_avail e)" by auto
  note fr = alloc_frame_fields [OF g(2)]
  have lke: "lkup_inv e" using lkup_inv_set_bucket [OF lk] unfolding e by (simp add: lkup_inv_def)
  have same: "lkup_inv ?d" "chain_ids ?d = chain_ids e" "bucket ?d = bucket e" "flow_ids N ?d = flow_ids N d"
    using lke fr av(2) by (simp_all add: lkup_inv_def chain_ids_def chain_nodes_def bucket_def [abs_def] flow_ids_def htput_ids_def)
  have "table_inv N e" using inv unfolding e by (auto simp: flow_inv_def table_inv_def set_bucket_def Let_def)
  then have tab: "table_inv N ?d" unfolding table_inv_def fr .
  have nodes: "chained ?d = chained d"
    using fr(2) unfolding e by (simp add: chained_def [abs_def] node_of_def set_bucket_def Let_def)
  have sub: "set (bucket e ifx' h') \<subseteq> set (bucket d ifx' h')" for ifx' h'
  proof -
    have "bucket e ifx' h' = (if ifx' = ifx \<and> h' = h then remove1_id i (bucket d ifx h) else bucket d ifx' h')"
      using bucket_set_bucket [OF lk ix h] unfolding e by (simp add: bucket_def)
    then show ?thesis using remove1_id_split [OF ex] by auto
  qed
  have "chained ?d ifx' cur"
    if "ifx' < DHD_MAX_IFS" "h' < DHD_FLOWRING_HASH_SIZE" "cur \<in> set (bucket ?d ifx' h')" for ifx' h' cur
  proof -
    have "cur \<in> set (bucket d ifx' h')" using that(3) sub same(3) by auto
    then show ?thesis using inv that(1,2) nodes unfolding flow_inv_def by metis
  qed
  moreover have "set (chain_ids ?d) \<union> flow_avail ?d = flow_ids N ?d" "set (chain_ids ?d) \<inter> flow_avail ?d = {}"
    using same g(3) av(1) ce inv by (auto simp: flow_inv_def)
  ultimately have "flow_inv N ?d" using g(1) same tab ce(1) unfolding flow_inv_def by auto
  moreover have "q_view ?d = q_view d" using g(2) unfolding e by simp
  ultimately show ?thesis using g(3) same(2) ce by auto
qed

lemma flowid_free_keeps:
  assumes inv: "flow_inv N d"
  shows "flow_inv N (dhd_flowid_free ifx i d)" "q_view (dhd_flowid_free ifx i d) = q_view d"
    "i \<in> set (map hash_flowid (concat (fl_hash (if_lkup d ! ifx)))) \<Longrightarrow> ifx < DHD_MAX_IFS \<Longrightarrow>
      i \<in> flow_avail (dhd_flowid_free ifx i d) \<and> set (chain_ids (dhd_flowid_free ifx i d)) = set (chain_ids d) - {i}"
proof -
  have "flow_inv N (dhd_flowid_free ifx i d) \<and> q_view (dhd_flowid_free ifx i d) = q_view d \<and>
    (i \<in> set (map hash_flowid (concat (fl_hash (if_lkup d ! ifx)))) \<longrightarrow> ifx < DHD_MAX_IFS \<longrightarrow>
      i \<in> flow_avail (dhd_flowid_free ifx i d) \<and> set (chain_ids (dhd_flowid_free ifx i d)) = set (chain_ids d) - {i})"
  proof (cases "ifx < DHD_MAX_IFS")
    case ix: True
    from free_scan_cases [of ifx i "[0..<DHD_FLOWRING_HASH_SIZE]" d] show ?thesis
    proof (elim disjE conjE bexE exE)
      assume n: "free_scan ifx i [0..<DHD_FLOWRING_HASH_SIZE] d = d"
        "\<forall>h \<in> set [0..<DHD_FLOWRING_HASH_SIZE]. \<not> list_ex (\<lambda>cur. hash_flowid cur = i) (bucket d ifx h)"
      have "length (fl_hash (if_lkup d ! ifx)) = DHD_FLOWRING_HASH_SIZE" using inv ix by (simp add: flow_inv_def lkup_inv_def)
      then have "i \<notin> set (map hash_flowid (concat (fl_hash (if_lkup d ! ifx))))"
        using n(2) by (fastforce simp: bucket_def list_ex_iff in_set_conv_nth [of _ "fl_hash _"])
      then show ?thesis using n(1) ix inv by (auto simp: dhd_flowid_free_def)
    next
      fix h c
      assume h: "h \<in> set [0..<DHD_FLOWRING_HASH_SIZE]" "list_ex (\<lambda>cur. hash_flowid cur = i) (bucket d ifx h)"
        and e: "free_scan ifx i [0..<DHD_FLOWRING_HASH_SIZE] d =
          dhd_flowid_map_free ifx i (set_bucket ifx h (remove1_id i (bucket d ifx h)) d\<lparr>multi_client_flow_rings := c\<rparr>)"
      have "dhd_flowid_free ifx i d = free_scan ifx i [0..<DHD_FLOWRING_HASH_SIZE] d" using ix by (simp add: dhd_flowid_free_def)
      then show ?thesis using flow_inv_remove [OF inv ix _ h(2) refl, of c] h(1) e by auto
    qed
  qed (use inv in \<open>simp add: dhd_flowid_free_def\<close>)
  then show "flow_inv N (dhd_flowid_free ifx i d)" "q_view (dhd_flowid_free ifx i d) = q_view d"
    "i \<in> set (map hash_flowid (concat (fl_hash (if_lkup d ! ifx)))) \<Longrightarrow> ifx < DHD_MAX_IFS \<Longrightarrow>
      i \<in> flow_avail (dhd_flowid_free ifx i d) \<and> set (chain_ids (dhd_flowid_free ifx i d)) = set (chain_ids d) - {i}"
    by blast+
qed

end
