(* ===== verification/Flow_Tx.thy ===== *)
theory Flow_Tx
  imports Flow_Lookup "HOL-Library.Sublist"
begin

text \<open>
  The packets of the transmit path. \<open>queues d qs\<close> says that the backup queue of ring \<open>i\<close> holds the packets \<open>qs ! i\<close> and
  that no packet is queued twice; it depends on \<open>q_view\<close> alone. \<open>moves\<close> is what every operation that takes no new packet
  does: a packet leaves its queue only for the message ring or to be freed, and the packets of a ring, sent then queued, keep
  their order.
\<close>

section \<open>Representation\<close>

definition rings_rep :: "flow_queue list \<Rightarrow> links \<Rightarrow> ptr list list \<Rightarrow> bool" where
  "rings_rep ql L qs \<longleftrightarrow> length qs = length ql \<and> distinct (concat qs) \<and>
     (\<forall>i < length ql. fq_rep L (ql ! i) (qs ! i) \<and> fq_cb (ql ! i) = dhd_flow_queue_overflow)"

definition queues :: "dhd_flow \<Rightarrow> ptr list list \<Rightarrow> bool" where
  "queues d qs \<longleftrightarrow> (\<exists>t. flow_ring_table d = Some t \<and> rings_rep (map fr_queue t) (pkt_links d) qs)"

lemma queues_view: "q_view d' = q_view d \<Longrightarrow> queues d' qs = queues d qs"
  by (cases "flow_ring_table d"; cases "flow_ring_table d'") (auto simp: q_view_def queues_def)

lemma distinct_concat_update:
  assumes "distinct (concat qs)" "i < length qs" "distinct xs" "\<And>x. x \<in> set xs \<Longrightarrow> x \<in> set (qs ! i) \<or> x \<notin> set (concat qs)"
  shows "distinct (concat (qs[i := xs]))"
proof -
  have q: "qs = take i qs @ qs ! i # drop (Suc i) qs" using assms(2) by (simp add: id_take_nth_drop)
  have "distinct (concat (take i qs) @ qs ! i @ concat (drop (Suc i) qs))"
    using assms(1) q by (metis concat.simps(2) concat_append)
  moreover have "set (concat qs) = set (concat (take i qs)) \<union> set (qs ! i) \<union> set (concat (drop (Suc i) qs))"
    using arg_cong [OF q, of "\<lambda>l. set (concat l)"] by (simp add: Un_assoc)
  ultimately have "distinct (concat (take i qs) @ xs @ concat (drop (Suc i) qs))" using assms(3,4) by fastforce
  then show ?thesis using assms(2) by (simp add: upd_conv_take_nth_drop)
qed

lemma nth_disjoint:
  assumes "distinct (concat qs)" "i < length qs" "j < length qs" "i \<noteq> j"
  shows "set (qs ! i) \<inter> set (qs ! j) = {}"
  using assms by (induction qs arbitrary: i j) (fastforce simp: nth_Cons split: nat.splits)+

lemma rings_rep_update:
  assumes r: "rings_rep ql L qs" and i: "i < length qs" and q: "fq_rep L' q' xs" "fq_cb q' = dhd_flow_queue_overflow"
    and x: "\<And>x. x \<in> set xs \<Longrightarrow> x \<in> set (qs ! i) \<or> x \<notin> set (concat qs)"
    and L: "\<And>y. y \<notin> set (qs ! i) \<Longrightarrow> y \<notin> set xs \<Longrightarrow> L' y = L y"
  shows "rings_rep (ql[i := q']) L' (qs[i := xs])"
proof -
  have d: "distinct (concat qs)" "length qs = length ql" using r by (auto simp: rings_rep_def)
  have "fq_rep L' (ql ! j) (qs ! j)" if j: "j < length ql" "j \<noteq> i" for j
  proof -
    have "set (qs ! i) \<inter> set (qs ! j) = {}" using nth_disjoint [OF d(1) i] j d(2) by auto
    moreover have "set (qs ! j) \<subseteq> set (concat qs)" using j(1) d(2) by (auto intro!: bexI [of _ "qs ! j"])
    ultimately have "L' y = L y" if "y \<in> set (qs ! j)" for y using L x that by blast
    then have "fq_rep L' (ql ! j) (qs ! j) = fq_rep L (ql ! j) (qs ! j)" by (rule fq_rep_cong)
    then show ?thesis using r j(1) by (simp add: rings_rep_def)
  qed
  moreover have "distinct (concat (qs[i := xs]))"
    using distinct_concat_update [OF d(1) i fq_rep_distinct [OF q(1)] x] .
  ultimately show ?thesis using r q i d(2) by (auto simp: rings_rep_def nth_list_update)
qed

lemma queues_ring:
  assumes "queues d qs" "unat i < length qs"
  shows "fq_rep (pkt_links d) (fr_queue (node_of d i)) (qs ! unat i)" "fq_cb (fr_queue (node_of d i)) = dhd_flow_queue_overflow"
  using assms by (auto simp: queues_def rings_rep_def node_of_def)

lemma queues_set:
  assumes Q: "queues d qs" and i: "unat i < length qs" and q: "fq_rep L' q' xs" "same_setup (fr_queue (node_of d i)) q'"
    and x: "\<And>x. x \<in> set xs \<Longrightarrow> x \<in> set (qs ! unat i) \<or> x \<notin> set (concat qs)"
    and L: "\<And>y. y \<notin> set (qs ! unat i) \<Longrightarrow> y \<notin> set xs \<Longrightarrow> L' y = pkt_links d y"
    and e: "flow_ring_table e = flow_ring_table d" "pkt_links e = L'"
  shows "queues (set_queue i q' e) (qs[unat i := xs])"
proof -
  obtain t where t: "flow_ring_table d = Some t" "rings_rep (map fr_queue t) (pkt_links d) qs" using Q by (auto simp: queues_def)
  have cb: "fq_cb q' = dhd_flow_queue_overflow" using q(2) queues_ring(2) [OF Q i] by (simp add: same_setup_def)
  have "rings_rep ((map fr_queue t)[unat i := q']) L' (qs[unat i := xs])"
    by (rule rings_rep_update [OF t(2) i q(1) cb x L])
  then show ?thesis using t(1) e by (simp add: queues_def set_queue_def update_node_def map_update)
qed

lemma update_node_fields [simp]:
  "sent_pkts (update_node i f d) = sent_pkts d" "freed_pkts (update_node i f d) = freed_pkts d"
  "pkt_links (update_node i f d) = pkt_links d" "pkt_flowid (update_node i f d) = pkt_flowid d"
  "num_h2d_rings (update_node i f d) = num_h2d_rings d" "max_tx_flowid (update_node i f d) = max_tx_flowid d"
  by (simp_all add: update_node_def)

lemma set_queue_fields [simp]:
  "sent_pkts (set_queue i q d) = sent_pkts d" "freed_pkts (set_queue i q d) = freed_pkts d"
  "pkt_links (set_queue i q d) = pkt_links d" "pkt_flowid (set_queue i q d) = pkt_flowid d"
  by (simp_all add: set_queue_def)

lemma in_set_concatI: "x \<in> set xs \<Longrightarrow> xs \<in> set xss \<Longrightarrow> x \<in> set (concat xss)"
  by auto

section \<open>Moves\<close>

definition acct :: "dhd_flow \<Rightarrow> ptr list list \<Rightarrow> ptr multiset" where
  "acct d qs = mset (map snd (sent_pkts d)) + mset (freed_pkts d) + mset (concat qs)"

definition sent_on :: "u16 \<Rightarrow> (u16 \<times> ptr) list \<Rightarrow> ptr list" where
  "sent_on i s = map snd (filter (\<lambda>x. fst x = i) s)"

definition stream :: "u16 \<Rightarrow> dhd_flow \<Rightarrow> ptr list list \<Rightarrow> ptr list" where
  "stream i d qs = sent_on i (sent_pkts d) @ (if unat i < length qs then qs ! unat i else [])"

definition moves :: "dhd_flow \<Rightarrow> ptr list list \<Rightarrow> dhd_flow \<Rightarrow> ptr list list \<Rightarrow> bool" where
  "moves d qs d' qs' \<longleftrightarrow> queues d' qs' \<and> length qs' = length qs \<and> acct d' qs' = acct d qs \<and>
     (\<forall>i. subseq (stream i d' qs') (stream i d qs))"

lemma moves_refl: "queues d qs \<Longrightarrow> moves d qs d qs"
  by (simp add: moves_def)

lemma moves_trans: "moves d qs d1 qs1 \<Longrightarrow> moves d1 qs1 d2 qs2 \<Longrightarrow> moves d qs d2 qs2"
  unfolding moves_def by (metis subseq_order.trans)

lemma moves_view: "queues d qs \<Longrightarrow> q_view d' = q_view d \<Longrightarrow> moves d qs d' qs"
  using queues_view [of d' d qs] by (simp add: moves_def acct_def stream_def q_view_def)

lemma sent_on_append: "sent_on i (s @ map (Pair j) xs) = sent_on i s @ (if i = j then xs else [])"
  by (induction xs) (auto simp: sent_on_def)

lemma mset_concat_upd: "i < length qs \<Longrightarrow> mset (concat (qs[i := xs])) + mset (qs ! i) = mset (concat qs) + mset xs"
  by (rule mset_concat_update)

text \<open>A prefix of one queue is sent and another freed.\<close>

lemma moves_one:
  assumes Q: "queues d' (qs[unat i := zs])" and i: "unat i < length qs" and s: "qs ! unat i = xs @ ys @ zs"
    and d: "sent_pkts d' = sent_pkts d @ map (Pair i) xs" "freed_pkts d' = freed_pkts d @ ys"
  shows "moves d qs d' (qs[unat i := zs])"
proof -
  have "mset (concat (qs[unat i := zs])) + mset (xs @ ys @ zs) = mset (concat qs) + mset zs"
    using mset_concat_upd [OF i, of zs] s by simp
  then have "mset (concat (qs[unat i := zs])) + mset xs + mset ys = mset (concat qs)" by (simp add: add.assoc)
  then have "acct d' (qs[unat i := zs]) = acct d qs"
    using d by (simp add: acct_def o_def ac_simps flip: mset_map)
  moreover have "subseq (stream j d' (qs[unat i := zs])) (stream j d qs)" for j
  proof (cases "j = i")
    case True
    then show ?thesis using i s d by (simp add: stream_def sent_on_append subseq_append' subseq_drop_many del: subseq_append)
  next
    case False
    then have "unat j \<noteq> unat i" by (metis word_unat_eq_iff)
    then show ?thesis using False d by (simp add: stream_def sent_on_append)
  qed
  ultimately show ?thesis using Q by (simp add: moves_def)
qed

section \<open>Operations\<close>

lemma flush_ring_moves:
  assumes Q: "queues d qs" and i: "unat i < length qs"
  obtains d' where "flush_ring i d = Some d'" "moves d qs d' (qs[unat i := []])" "ids_view d' = ids_view d"
proof -
  obtain L' q' where f: "flush_queue (pkt_links d) (fr_queue (node_of d i)) (freed_pkts d) = Some (L', q', freed_pkts d @ qs ! unat i)"
      "fq_rep L' q' []" "\<forall>y. y \<notin> set (qs ! unat i) \<longrightarrow> L' y = pkt_links d y" "same_setup (fr_queue (node_of d i)) q'"
    using flush_queue_all [OF queues_ring(1) [OF Q i]] by blast
  let ?e = "d\<lparr>pkt_links := L', freed_pkts := freed_pkts d @ qs ! unat i\<rparr>"
  have "queues (set_queue i q' ?e) (qs[unat i := []])"
    by (rule queues_set [OF Q i f(2,4)]) (use f(3) in simp_all)
  then have "moves d qs (set_queue i q' ?e) (qs[unat i := []])"
    by (rule moves_one [where xs = "[]"]) (use i in simp_all)
  moreover have "flush_ring i d = Some (set_queue i q' ?e)" using f(1) by (simp add: flush_ring_def)
  ultimately show thesis using that by simp
qed

lemma schedule_loop_sends:
  "fq_rep L q xs \<Longrightarrow> \<exists>bk r L' q' k.
     schedule_loop env i bnd cnt ret L q sent = Some (bk, r, L', q', sent @ map (Pair i) (take k xs)) \<and>
     k \<le> length xs \<and> fq_rep L' q' (drop k xs) \<and> (\<forall>y. y \<notin> set xs \<longrightarrow> L' y = L y) \<and> same_setup q q' \<and>
     (ret = BCME_OK \<longrightarrow> (bk \<longleftrightarrow> r \<noteq> BCME_OK)) \<and> (bnd = 0 \<and> \<not> bk \<longrightarrow> k = length xs)"
proof (induction xs arbitrary: L q cnt ret sent)
  case Nil
  have "schedule_loop env i bnd cnt ret L q sent = Some (False, ret, L, q, sent)"
    using Nil by (subst schedule_loop.simps) (simp add: fq_dequeue_Nil)
  then show ?case using Nil by auto
next
  case (Cons x xs)
  obtain q1 L1 where q1: "dhd_flow_queue_dequeue L q = (x, L1, q1)" "fq_rep L1 q1 xs" "same_setup q q1"
    "x \<noteq> NULL" "x \<notin> set xs" and L1: "\<And>y. y \<noteq> x \<Longrightarrow> L1 y = L y"
    using fq_dequeue_Cons [OF Cons.prems] by (metis fun_upd_other)
  let ?r = "dhd_prot_txdata env sent x"
  show ?case
  proof (cases "?r = BCME_OK")
    case False
    have "length xs < 65535"
      using fq_rep_len [OF Cons.prems] unat_u16_less [of "fq_len q"] by (simp del: unat_u16_less)
    then obtain L' q' where r: "dhd_flow_queue_reinsert x L1 q1 = (L', q')" "fq_rep L' q' (x # xs)"
        "\<And>y. y \<notin> set (x # xs) \<Longrightarrow> L' y = L1 y" "same_setup q1 q'"
      using fq_reinsert_rep [OF q1(2) _ q1(4,5)] by metis
    have "schedule_loop env i bnd cnt ret L q sent = Some (True, ?r, L', q', sent @ map (Pair i) (take 0 (x # xs)))"
      using q1(1,4) False r(1) by (subst schedule_loop.simps) (simp add: Let_def)
    then show ?thesis
      using r(2,3) L1 same_setup_trans [OF q1(3) r(4)] False
      by (intro exI [of _ True] exI [of _ ?r] exI [of _ L'] exI [of _ q'] exI [of _ 0]) auto
  next
    case ok: True
    show ?thesis
    proof (cases "bnd \<noteq> 0 \<and> cnt + 1 \<ge> bnd")
      case True
      have "schedule_loop env i bnd cnt ret L q sent =
          Some (False, BCME_OK, L1, q1, sent @ map (Pair i) (take 1 (x # xs)))"
        using q1(1,4) ok True by (subst schedule_loop.simps) (simp add: Let_def)
      then show ?thesis
        using q1(2,3) L1 True
        by (intro exI [of _ False] exI [of _ BCME_OK] exI [of _ L1] exI [of _ q1] exI [of _ 1]) auto
    next
      case False
      obtain bk r L' q' k where IH:
        "schedule_loop env i bnd (cnt + 1) BCME_OK L1 q1 (sent @ [(i, x)]) =
           Some (bk, r, L', q', (sent @ [(i, x)]) @ map (Pair i) (take k xs))"
        "k \<le> length xs" "fq_rep L' q' (drop k xs)" "\<forall>y. y \<notin> set xs \<longrightarrow> L' y = L1 y" "same_setup q1 q'"
        "bk \<longleftrightarrow> r \<noteq> BCME_OK" "bnd = 0 \<and> \<not> bk \<longrightarrow> k = length xs"
        using Cons.IH [OF q1(2), of "cnt + 1" BCME_OK "sent @ [(i, x)]"] by blast
      have "schedule_loop env i bnd cnt ret L q sent = Some (bk, r, L', q', sent @ map (Pair i) (take (Suc k) (x # xs)))"
        using q1(1,4) ok False IH(1) by (subst schedule_loop.simps) (auto simp: Let_def)
      then show ?thesis
        using IH(2-7) L1 same_setup_trans [OF q1(3) IH(5)]
        by (intro exI [of _ bk] exI [of _ r] exI [of _ L'] exI [of _ q'] exI [of _ "Suc k"]) auto
    qed
  qed
qed

lemma schedule_queue_moves:
  assumes Q: "queues d qs" and i: "unat i < length qs"
  obtains r d' e k where "dhd_bus_schedule_queue env i bnd d = Some (r, d', e)"
    "moves d qs d' (qs[unat i := drop k (qs ! unat i)])" "ids_view d' = ids_view d" "freed_pkts d' = freed_pkts d"
    "sent_pkts d' = sent_pkts d @ map (Pair i) (take k (qs ! unat i))"
proof (cases "unat i \<ge> max_submission_rings d \<or> \<not> prot_info (node_of d i) \<or>
    \<not> bit (dequeue_prec_map d) (unat (fi_tid (node_info (node_of d i)))) \<or> status (node_of d i) \<noteq> FLOW_RING_STATUS_OPEN \<or>
    fq_len (fr_queue (node_of d i)) = 0")
  case True
  then have "\<exists>r. dhd_bus_schedule_queue env i bnd d = Some (r, d, None)" by (auto simp: dhd_bus_schedule_queue_def)
  then show thesis using that [of _ d None 0] moves_refl [OF Q] by auto
next
  case False
  obtain bk r L' q' k where s:
    "schedule_loop env i bnd 0 BCME_OK (pkt_links d) (fr_queue (node_of d i)) (sent_pkts d) =
       Some (bk, r, L', q', sent_pkts d @ map (Pair i) (take k (qs ! unat i)))"
    "fq_rep L' q' (drop k (qs ! unat i))" "\<forall>y. y \<notin> set (qs ! unat i) \<longrightarrow> L' y = pkt_links d y"
    "same_setup (fr_queue (node_of d i)) q'"
    using schedule_loop_sends [OF queues_ring(1) [OF Q i]] by metis
  let ?e = "d\<lparr>pkt_links := L', sent_pkts := sent_pkts d @ map (Pair i) (take k (qs ! unat i))\<rparr>"
  have "queues (set_queue i q' ?e) (qs[unat i := drop k (qs ! unat i)])"
    by (rule queues_set [OF Q i s(2,4)]) (use s(3) in \<open>auto dest: in_set_dropD\<close>)
  then have m: "moves d qs (set_queue i q' ?e) (qs[unat i := drop k (qs ! unat i)])"
    by (rule moves_one [where xs = "take k (qs ! unat i)" and ys = "[]"])
      (use i in simp_all)
  have "\<exists>r e. dhd_bus_schedule_queue env i bnd d = Some (r, set_queue i q' ?e, e)"
    using False s(1) by (auto simp: dhd_bus_schedule_queue_def Let_def)
  then obtain r' e where "dhd_bus_schedule_queue env i bnd d = Some (r', set_queue i q' ?e, e)" by blast
  from that [OF this m] show thesis by simp
qed

text \<open>A packet put on a queue, or refused.\<close>

lemma enqueue_pkt_cases:
  assumes Q: "queues d qs" and i: "unat i < length qs" and p: "p \<noteq> NULL" "p \<notin> set (concat qs)"
  obtains (ok) d' xs where "enqueue_pkt env i p d = (BCME_OK, d')" "queues d' (qs[unat i := xs])"
      "xs = (if dhd_match_pkt_type env p then p # qs ! unat i else qs ! unat i @ [p])"
      "sent_pkts d' = sent_pkts d" "freed_pkts d' = freed_pkts d" "ids_view d' = ids_view d"
  | (full) d' where "enqueue_pkt env i p d = (BCME_NORESOURCE, d')" "queues d' qs" "sent_pkts d' = sent_pkts d"
      "freed_pkts d' = freed_pkts d" "ids_view d' = ids_view d"
proof (cases "length (qs ! unat i) < unat (fq_max (fr_queue (node_of d i)))")
  case True
  note R = queues_ring [OF Q i]
  let ?q = "fr_queue (node_of d i)"
  have "qs ! unat i \<in> set qs" using i by simp
  then have pi: "p \<notin> set (qs ! unat i)" using p(2) by auto
  define xs where "xs = (if dhd_match_pkt_type env p then p # qs ! unat i else qs ! unat i @ [p])"
  obtain L' q' where e: "(if dhd_match_pkt_type env p then dhd_flow_queue_enqueue_head p (pkt_links d) ?q
        else dhd_flow_queue_enqueue p (pkt_links d) ?q) = (BCME_OK, L', q')" "fq_rep L' q' xs"
      "\<And>y. y \<notin> set (p # qs ! unat i) \<Longrightarrow> L' y = pkt_links d y" "same_setup ?q q'"
  proof (cases "dhd_match_pkt_type env p")
    case m: True
    then show thesis using fq_enqueue_head_rep [OF R(1) True p(1) pi] that by (metis xs_def)
  next
    case m: False
    then show thesis using fq_enqueue_rep [OF R(1) True p(1) pi] that by (metis xs_def)
  qed
  let ?d = "set_queue i q' (d\<lparr>pkt_links := L'\<rparr>)"
  have "queues ?d (qs[unat i := xs])"
    by (rule queues_set [OF Q i e(2,4)]) (use e(3) p(2) in \<open>auto simp: xs_def split: if_splits\<close>)
  moreover have "enqueue_pkt env i p d = (BCME_OK, ?d)"
    unfolding enqueue_pkt_def Let_def e(1) by simp
  ultimately show thesis using ok [of ?d xs] by (simp add: xs_def)
next
  case False
  note R = queues_ring [OF Q i]
  let ?q = "(fr_queue (node_of d i))\<lparr>fq_failures := fq_failures (fr_queue (node_of d i)) + 1\<rparr>"
  let ?d = "set_queue i ?q (d\<lparr>pkt_links := pkt_links d\<rparr>)"
  have "queues ?d (qs[unat i := qs ! unat i])"
    by (rule queues_set [OF Q i]) (use R in \<open>auto simp: same_setup_def\<close>)
  then have "queues ?d qs" by simp
  moreover have "enqueue_pkt env i p d = (BCME_NORESOURCE, ?d)"
    using fq_refused [OF R(1)] False R(2) by (simp add: enqueue_pkt_def dhd_flow_queue_overflow_def Let_def)
  ultimately show thesis using full by simp
qed

text \<open>A new packet for ring \<open>i\<close> is taken over: from now on it is queued, sent or freed.\<close>

definition takes :: "bool \<Rightarrow> u16 \<Rightarrow> ptr \<Rightarrow> dhd_flow \<Rightarrow> ptr list list \<Rightarrow> dhd_flow \<Rightarrow> ptr list list \<Rightarrow> bool" where
  "takes m i p d qs d' qs' \<longleftrightarrow> queues d' qs' \<and> length qs' = length qs \<and> acct d' qs' = acct d qs + {#p#} \<and>
     (\<not> m \<longrightarrow> (\<forall>j. subseq (stream j d' qs') (stream j d qs @ (if j = i then [p] else []))))"

lemma takes_moves: "takes m i p d qs d1 qs1 \<Longrightarrow> moves d1 qs1 d2 qs2 \<Longrightarrow> takes m i p d qs d2 qs2"
  unfolding takes_def moves_def by (metis subseq_order.trans)

lemma moves_takes:
  assumes m: "moves d qs d1 qs1" and t: "takes b i p d1 qs1 d2 qs2"
  shows "takes b i p d qs d2 qs2"
proof -
  have "subseq (stream j d2 qs2) (stream j d qs @ (if j = i then [p] else []))" if "\<not> b" for j
  proof -
    have "subseq (stream j d1 qs1 @ (if j = i then [p] else [])) (stream j d qs @ (if j = i then [p] else []))"
      using m by (intro list_emb_append_mono) (auto simp: moves_def)
    then show ?thesis using t that unfolding takes_def by (metis subseq_order.trans)
  qed
  then show ?thesis using m t by (auto simp: takes_def moves_def)
qed

lemma takes_toss:
  assumes "queues d qs"
  obtains d' where "toss p r d = Some (r, d')" "takes m i p d qs d' qs" "ids_view d' = ids_view d"
proof -
  let ?d = "d\<lparr>freed_pkts := freed_pkts d @ [p]\<rparr>"
  have "queues ?d qs" using assms by (simp add: queues_def)
  moreover have "stream j ?d qs = stream j d qs" for j by (simp add: stream_def)
  moreover have "acct ?d qs = acct d qs + {#p#}" by (simp add: acct_def)
  ultimately have "takes m i p d qs ?d qs" by (auto simp: takes_def intro: list_emb_prefix)
  then show thesis using that by (simp add: toss_def)
qed

lemma takes_enqueue:
  assumes i: "unat i < length qs" and x: "xs = (if m then p # qs ! unat i else qs ! unat i @ [p])"
    and Q: "queues d' (qs[unat i := xs])" and s: "sent_pkts d' = sent_pkts d" "freed_pkts d' = freed_pkts d"
  shows "takes m i p d qs d' (qs[unat i := xs])"
proof -
  have "mset (concat (qs[unat i := xs])) + mset (qs ! unat i) = mset (concat qs) + mset xs" by (rule mset_concat_upd [OF i])
  then have "mset (concat (qs[unat i := xs])) + mset (qs ! unat i) = (mset (concat qs) + {#p#}) + mset (qs ! unat i)"
    using x by (simp split: if_splits)
  then have "mset (concat (qs[unat i := xs])) = mset (concat qs) + {#p#}" by (rule add_right_imp_eq)
  moreover have "stream j d' (qs[unat i := xs]) = stream j d qs @ (if j = i then [p] else [])" if "\<not> m" for j
    using x that s i by (auto simp: stream_def nth_list_update word_unat_eq_iff)
  ultimately show ?thesis using Q s by (auto simp: takes_def acct_def)
qed

text \<open>\<open>dhd_bus_txdata\<close> ends and takes the packet over, whatever the state of its ring.\<close>

lemma txdata_takes:
  assumes al: "flowid_allocator d \<noteq> None" and Q: "queues d qs" and i: "unat (pkt_flowid d p) < length qs"
    and p: "p \<noteq> NULL" "p \<notin> set (concat qs)"
  obtains r d' qs' where "dhd_bus_txdata env p d = Some (r, d')" "ids_view d' = ids_view d"
    "takes (dhd_match_pkt_type env p) (pkt_flowid d p) p d qs d' qs'"
proof -
  let ?i = "pkt_flowid d p" and ?m = "dhd_match_pkt_type env p"
  obtain a where al1: "flowid_allocator d = Some a" using al by auto
  have len: "\<not> unat ?i \<ge> length (the (flow_ring_table d))" using Q i by (auto simp: queues_def rings_rep_def)
  let ?dead = "ucast ?i > max_tx_flowid d \<or> \<not> active (node_of d ?i) \<or> status (node_of d ?i) = FLOW_RING_STATUS_DELETE_PENDING \<or>
    status (node_of d ?i) = FLOW_RING_STATUS_STA_FREEING"
  have "\<exists>r d' qs'. dhd_bus_txdata env p d = Some (r, d') \<and> ids_view d' = ids_view d \<and> takes ?m ?i p d qs d' qs'"
  proof (cases ?dead)
    case True
    then have "dhd_bus_txdata env p d = toss p BCME_ERROR d" using al1 len by (auto simp: dhd_bus_txdata_def Let_def)
    then show ?thesis using takes_toss [OF Q] by metis
  next
    case False
    from Q i p show ?thesis
    proof (cases rule: enqueue_pkt_cases [where env = env])
      case (ok d1 xs)
      note t1 = takes_enqueue [OF i ok(3,2,4,5)]
      show ?thesis
      proof (cases "status (node_of d1 ?i) = FLOW_RING_STATUS_OPEN")
        case st: False
        then have "dhd_bus_txdata env p d = Some (BCME_OK, d1)"
          using al1 len False ok(1) by (simp add: dhd_bus_txdata_def Let_def)
        then show ?thesis using t1 ok(6) by blast
      next
        case st: True
        obtain r d2 e k where s: "dhd_bus_schedule_queue env ?i 0 d1 = Some (r, d2, e)"
          "moves d1 (qs[unat ?i := xs]) d2 ((qs[unat ?i := xs])[unat ?i := drop k ((qs[unat ?i := xs]) ! unat ?i)])"
          "ids_view d2 = ids_view d1"
          using schedule_queue_moves [OF ok(2)] i by (metis length_list_update)
        have "dhd_bus_txdata env p d = Some (r, d2)"
          using al1 len False ok(1) st s(1) by (simp add: dhd_bus_txdata_def Let_def)
        then show ?thesis using takes_moves [OF t1 s(2)] s(3) ok(6) by metis
      qed
    next
      case (full d1)
      have m1: "moves d qs d1 qs" using full by (simp add: moves_def acct_def stream_def)
      show ?thesis
      proof (cases "status (node_of d1 ?i) = FLOW_RING_STATUS_OPEN")
        case st: False
        then have "dhd_bus_txdata env p d = toss p BCME_NORESOURCE d1"
          using al1 len False full(1) by (simp add: dhd_bus_txdata_def Let_def)
        then show ?thesis using takes_toss [OF full(2)] moves_takes [OF m1] full(5) by metis
      next
        case st: True
        obtain r d2 e k where s: "dhd_bus_schedule_queue env ?i 0 d1 = Some (r, d2, e)"
          "moves d1 qs d2 (qs[unat ?i := drop k (qs ! unat ?i)])" "ids_view d2 = ids_view d1"
          using schedule_queue_moves [OF full(2) i] by metis
        let ?qs = "qs[unat ?i := drop k (qs ! unat ?i)]"
        note m2 = moves_trans [OF m1 s(2)]
        have Q2: "queues d2 ?qs" "unat ?i < length ?qs" using m2 i by (auto simp: moves_def)
        have "set (drop k (qs ! unat ?i)) \<subseteq> set (concat qs)" using i by (meson in_set_dropD nth_mem subsetI in_set_concatI)
        then have p2: "p \<notin> set (concat ?qs)" using p(2) set_update_subset_insert [of qs] by fastforce
        from Q2 p(1) p2 show ?thesis
        proof (cases rule: enqueue_pkt_cases [where env = env])
          case (ok d3 xs)
          then have "dhd_bus_txdata env p d = Some (BCME_OK, d3)"
            using al1 len False full(1) st s(1) by (simp add: dhd_bus_txdata_def Let_def)
          then show ?thesis
            using moves_takes [OF m2 takes_enqueue [OF Q2(2) ok(3,2,4,5)]] ok(6) s(3) full(5) by metis
        next
          case again: (full d3)
          then have "dhd_bus_txdata env p d = toss p BCME_NORESOURCE d3"
            using al1 len False full(1) st s(1) by (simp add: dhd_bus_txdata_def Let_def)
          moreover have "moves d2 ?qs d3 ?qs" using again by (simp add: moves_def acct_def stream_def)
          ultimately show ?thesis
            using takes_toss [OF again(2)] moves_takes [OF moves_trans [OF m2]] again(5) s(3) full(5) by metis
        qed
      qed
    qed
  qed
  then show thesis using that by blast
qed

end
