(* ===== verification/Flow_Machine.thy ===== *)
theory Flow_Machine
  imports Flow_Tx
begin

text \<open>
  The flow rings as a machine: events from the network stack, the device and the interface handlers in any order.
  \<open>flow_reach\<close> are the states reached from a start state, with the packets handed over so far and the flow id each was
  tagged with. Every event ends, and keeps \<open>flow_inv\<close> and the accounting of packets.
\<close>

section \<open>Handlers\<close>

lemma queues_length:
  assumes "flow_inv N d" "queues d qs"
  shows "length qs = num_h2d_rings d" "length qs \<le> 65536" "unat (max_tx_flowid d) < length qs" "max_submission_rings d \<le> length qs"
  using assms by (auto simp: flow_inv_def table_inv_def queues_def rings_rep_def)

text \<open>A new configuration of one queue with the same packets.\<close>

lemma moves_reconfigure:
  assumes Q: "queues d qs" and i: "unat i < length qs" and r: "fq_rep (pkt_links d) q' (qs ! unat i)"
    and cb: "fq_cb q' = dhd_flow_queue_overflow"
  shows "moves d qs (set_queue i q' d) qs"
proof -
  obtain t where t: "flow_ring_table d = Some t" "rings_rep (map fr_queue t) (pkt_links d) qs" using Q by (auto simp: queues_def)
  have "rings_rep ((map fr_queue t)[unat i := q']) (pkt_links d) (qs[unat i := qs ! unat i])"
    by (rule rings_rep_update [OF t(2) i r cb]) auto
  then have "queues (set_queue i q' d) qs"
    using t(1) by (simp add: queues_def set_queue_def update_node_def map_update)
  then show ?thesis by (simp add: moves_def acct_def stream_def)
qed

text \<open>\<open>step_ok\<close>: the operation ends in a state that keeps the invariant and moves packets only.\<close>

definition step_ok :: "u16 \<Rightarrow> dhd_flow \<Rightarrow> ptr list list \<Rightarrow> dhd_flow option \<Rightarrow> bool" where
  "step_ok N d qs res \<longleftrightarrow> (\<exists>d' qs'. res = Some d' \<and> flow_inv N d' \<and> moves d qs d' qs')"

lemma step_okI: "flow_inv N d' \<Longrightarrow> moves d qs d' qs' \<Longrightarrow> step_ok N d qs (Some d')"
  by (auto simp: step_ok_def)

lemma step_ok_view:
  "flow_inv N d \<Longrightarrow> queues d qs \<Longrightarrow> ids_view d' = ids_view d \<Longrightarrow> q_view d' = q_view d \<Longrightarrow> step_ok N d qs (Some d')"
  using flow_inv_view moves_view by (intro step_okI) blast+

lemma step_ok_same: "flow_inv N d \<Longrightarrow> queues d qs \<Longrightarrow> step_ok N d qs (Some d)"
  by (rule step_ok_view) simp_all

lemma flush_step:
  assumes "flow_inv N d" "queues d qs" "unat i < length qs"
  shows "step_ok N d qs (flush_ring i d)"
  using flush_ring_moves [OF assms(2,3)] flow_inv_view [OF assms(1)] by (metis step_ok_def)

lemma step_ok_after_view:
  assumes "ids_view e = ids_view d" "q_view e = q_view d" "flow_inv N d" "queues d qs" "step_ok N e qs res"
  shows "step_ok N d qs res"
  using assms moves_trans moves_view [OF assms(4,2)] unfolding step_ok_def by blast

lemma delete_request_step:
  assumes inv: "flow_inv N d" and Q: "queues d qs" and i: "unat i < length qs"
  shows "step_ok N d qs (map_option snd (dhd_bus_flow_ring_delete_request i d))"
proof (cases "status (node_of d i) = FLOW_RING_STATUS_DELETE_PENDING")
  case True
  then show ?thesis using step_ok_same [OF inv Q] by (simp add: dhd_bus_flow_ring_delete_request_def)
next
  case False
  let ?e = "update_node i (\<lambda>n. n\<lparr>status := FLOW_RING_STATUS_DELETE_PENDING\<rparr>) d"
  have v: "ids_view ?e = ids_view d" "q_view ?e = q_view d" by (simp_all add: ids_view_update_node q_view_update_node)
  have "step_ok N ?e qs (flush_ring i ?e)"
    using flow_inv_view [OF inv v(1)] queues_view [OF v(2)] Q i by (intro flush_step) simp_all
  then have "step_ok N d qs (flush_ring i ?e)" by (rule step_ok_after_view [OF v inv Q])
  moreover have "map_option snd (dhd_bus_flow_ring_delete_request i d) = flush_ring i ?e"
    using False by (cases "flush_ring i ?e") (simp_all add: dhd_bus_flow_ring_delete_request_def)
  ultimately show ?thesis by simp
qed

lemma flush_request_step:
  assumes inv: "flow_inv N d" and Q: "queues d qs" and i: "unat i < length qs"
  shows "step_ok N d qs (map_option snd (dhd_bus_flow_ring_flush_request i d))"
proof -
  let ?e = "update_node i (\<lambda>n. n\<lparr>status := FLOW_RING_STATUS_FLUSH_PENDING\<rparr>) d"
  have v: "ids_view ?e = ids_view d" "q_view ?e = q_view d" by (simp_all add: ids_view_update_node q_view_update_node)
  have "step_ok N ?e qs (flush_ring i ?e)"
    using flow_inv_view [OF inv v(1)] queues_view [OF v(2)] Q i by (intro flush_step) simp_all
  then have "step_ok N d qs (flush_ring i ?e)" by (rule step_ok_after_view [OF v inv Q])
  moreover have "map_option snd (dhd_bus_flow_ring_flush_request i d) = flush_ring i ?e"
    by (cases "flush_ring i ?e") (simp_all add: dhd_bus_flow_ring_flush_request_def)
  ultimately show ?thesis by simp
qed

lemma clean_step:
  assumes inv: "flow_inv N d" and Q: "queues d qs" and i: "unat i < length qs"
  shows "step_ok N d qs (dhd_bus_clean_flow_ring i d)"
proof -
  obtain d1 where d1: "flush_ring i d = Some d1" "moves d qs d1 (qs[unat i := []])" "ids_view d1 = ids_view d"
    by (rule flush_ring_moves [OF Q i])
  let ?qs = "qs[unat i := []]"
  have Q1: "queues d1 ?qs" "unat i < length ?qs" using d1(2) i by (auto simp: moves_def)
  let ?q = "dhd_flow_queue_reinit (cumm_ctr d1) (l2cumm_ctr d1) (flow_ring_queue_threshold d1) (fr_queue (node_of d1 i))"
  define d2 where "d2 = set_queue i ?q d1"
  have m2: "moves d1 ?qs d2 ?qs" unfolding d2_def by (rule moves_reconfigure [OF Q1]) (use i in simp_all)
  define d3 where "d3 = update_node i (\<lambda>n. n\<lparr>status := FLOW_RING_STATUS_CLOSED, active := False\<rparr>) d2"
  define d4 where "d4 = d3\<lparr>dll_mem := dll_init (ring_list i) (dll_delete (ring_list i) (dll_mem d3))\<rparr>"
  have v: "ids_view d4 = ids_view d" "q_view d4 = q_view d2"
    using d1(3) unfolding d4_def d3_def d2_def by (simp_all add: ids_view_update_node q_view_update_node)
  note inv4 = flow_inv_view [OF inv v(1)]
  let ?d = "dhd_flowid_free (fi_ifindex (node_info (node_of d4 i))) (node_flowid (node_of d4 i)) d4"
  have "queues d2 ?qs" using m2 by (simp add: moves_def)
  then have "moves d2 ?qs ?d ?qs" by (rule moves_view) (simp add: flowid_free_keeps(2) [OF inv4] v(2))
  then have "moves d qs ?d ?qs" using moves_trans [OF moves_trans [OF d1(2) m2]] by blast
  moreover have "dhd_bus_clean_flow_ring i d = Some ?d"
    unfolding dhd_bus_clean_flow_ring_def d1(1) d4_def d3_def d2_def Let_def by simp
  ultimately show ?thesis using flowid_free_keeps(1) [OF inv4] step_okI by metis
qed

lemma step_ok_trans:
  assumes "flow_inv N d1" "moves d qs d1 qs1" "step_ok N d1 qs1 res"
  shows "step_ok N d qs res"
  using assms moves_trans unfolding step_ok_def by blast

lemma for_rings_step:
  assumes f: "\<And>i d qs. flow_inv N d \<Longrightarrow> queues d qs \<Longrightarrow> unat i < length qs \<Longrightarrow> step_ok N d qs (f i d)"
  shows "flow_inv N d \<Longrightarrow> queues d qs \<Longrightarrow> (\<And>i. i \<in> set ids \<Longrightarrow> i < length qs) \<Longrightarrow> step_ok N d qs (for_rings P f ids d)"
proof (induction ids arbitrary: d qs)
  case Nil
  then show ?case using step_ok_same by simp
next
  case (Cons i ids)
  show ?case
  proof (cases "P (node_of d (of_nat i))")
    case True
    have "unat (of_nat i :: u16) \<le> i" by (simp add: unat_of_nat)
    then have "unat (of_nat i :: u16) < length qs" using Cons.prems(3) [of i] by simp
    then have "step_ok N d qs (f (of_nat i) d)" using f Cons.prems(1,2) by blast
    then obtain d1 qs1 where d1: "f (of_nat i) d = Some d1" "flow_inv N d1" "moves d qs d1 qs1" by (auto simp: step_ok_def)
    have "queues d1 qs1" "length qs1 = length qs" using d1(3) by (auto simp: moves_def)
    then have "step_ok N d1 qs1 (for_rings P f ids d1)" using Cons.IH [OF d1(2)] Cons.prems(3) by auto
    then have "step_ok N d qs (for_rings P f ids d1)" by (rule step_ok_trans [OF d1(2,3)])
    then show ?thesis using True d1(1) by simp
  next
    case False
    then show ?thesis using Cons by simp
  qed
qed

section \<open>The machine\<close>

datatype flow_event =
    Send flow_env nat nat ptr
  | Schedule flow_env u16 u32
  | Create_response flow_env u16 int
  | Delete_response u16 int
  | Flush_response u16 int
  | Delete_rings nat
  | Flush_rings nat
  | Delete_peer nat "u8 list"
  | Thresholds u16 int int ptr int ptr
  | Interface_event nat nat nat
  | Link_event nat u8
  | Prio_map flow_env u8
  | Tdls_table "u8 list list"
  | Roam_map u8

fun flow_step :: "flow_event \<Rightarrow> dhd_flow \<Rightarrow> dhd_flow option" where
  "flow_step (Send env ifidx prio p) d = map_option snd (dhd_sendpkt_flow env ifidx prio p d)"
| "flow_step (Schedule env i bnd) d = map_option (\<lambda>r. fst (snd r)) (dhd_bus_schedule_queue env i bnd d)"
| "flow_step (Create_response env i st) d = dhd_bus_flow_ring_create_response env i st d"
| "flow_step (Delete_response i st) d = dhd_bus_flow_ring_delete_response i st d"
| "flow_step (Flush_response i st) d = Some (dhd_bus_flow_ring_flush_response i st d)"
| "flow_step (Delete_rings ifx) d = dhd_flow_rings_delete ifx d"
| "flow_step (Flush_rings ifx) d = dhd_flow_rings_flush ifx d"
| "flow_step (Delete_peer ifx addr) d = dhd_flow_rings_delete_for_peer ifx addr d"
| "flow_step (Thresholds i b c ctr l2 l2ctr) d = Some (dhd_flow_ring_config_thresholds i b c ctr l2 l2ctr d)"
| "flow_step (Interface_event ifx op r) d = Some (dhd_update_interface_flow_info ifx op r d)"
| "flow_step (Link_event ifx st) d = Some (snd (dhd_update_interface_link_status ifx st d))"
| "flow_step (Prio_map env mp) d = Some (snd (dhd_update_flow_prio_map env mp d))"
| "flow_step (Tdls_table peers) d = Some (d\<lparr>tdls_peers := peers\<rparr>)"
| "flow_step (Roam_map mp) d = Some (d\<lparr>dequeue_prec_map := mp\<rparr>)"

text \<open>The packets an event hands over, with the flow id of the packet afterwards.\<close>

fun handed :: "flow_event \<Rightarrow> dhd_flow \<Rightarrow> (u16 \<times> ptr) list" where
  "handed (Send env ifidx prio p) d = [(pkt_flowid d p, p)]"
| "handed _ d = []"

text \<open>The contract: a packet handed over is not \<open>NULL\<close> and not one the driver still has; \<open>front\<close> allows the packets that
  \<open>dhd_match_pkt_type\<close> puts at the head of the queue.\<close>

fun event_ok :: "bool \<Rightarrow> dhd_flow \<Rightarrow> (u16 \<times> ptr) list \<Rightarrow> flow_event \<Rightarrow> bool" where
  "event_ok front d given (Send env ifidx prio p) \<longleftrightarrow>
     p \<noteq> NULL \<and> count_list (map snd given) p = count_list (map snd (sent_pkts d)) p + count_list (freed_pkts d) p \<and>
     (front \<or> \<not> dhd_match_pkt_type env p)"
| "event_ok front d given _ \<longleftrightarrow> True"

inductive flow_reach :: "bool \<Rightarrow> dhd_flow \<Rightarrow> dhd_flow \<times> (u16 \<times> ptr) list \<Rightarrow> bool" for front d0 where
  start: "flow_reach front d0 (d0, [])"
| event: "flow_reach front d0 (d, given) \<Longrightarrow> event_ok front d given ev \<Longrightarrow> flow_step ev d = Some d' \<Longrightarrow>
    flow_reach front d0 (d', given @ handed ev d')"

text \<open>A run of events, \<open>None\<close> when one breaks the contract or does not end.\<close>

fun flow_run :: "bool \<Rightarrow> flow_event list \<Rightarrow> dhd_flow \<Rightarrow> (u16 \<times> ptr) list \<Rightarrow> (dhd_flow \<times> (u16 \<times> ptr) list) option" where
  "flow_run front [] d given = Some (d, given)"
| "flow_run front (ev # evs) d given =
     (if event_ok front d given ev
      then (case flow_step ev d of None \<Rightarrow> None | Some d' \<Rightarrow> flow_run front evs d' (given @ handed ev d')) else None)"

lemma flow_run_reach: "flow_run front evs d given = Some r \<Longrightarrow> flow_reach front d0 (d, given) \<Longrightarrow> flow_reach front d0 r"
  by (induction front evs d given rule: flow_run.induct) (auto split: if_splits option.splits intro: flow_reach.event)

text \<open>What holds between events: the invariant of the ids, and that every packet handed over is in a queue, sent or freed;
  without packets at the front, each ring's packets are sent in the order they were handed over.\<close>

definition machine_inv :: "bool \<Rightarrow> u16 \<Rightarrow> dhd_flow \<Rightarrow> (u16 \<times> ptr) list \<Rightarrow> bool" where
  "machine_inv front N d given \<longleftrightarrow> flow_inv N d \<and>
     (\<exists>qs. queues d qs \<and> mset (map snd given) = acct d qs \<and>
       (\<not> front \<longrightarrow> (\<forall>i. subseq (stream i d qs) (sent_on i given))))"

lemma machine_moves:
  assumes "queues d qs" "mset (map snd given) = acct d qs" "\<not> front \<longrightarrow> (\<forall>i. subseq (stream i d qs) (sent_on i given))"
    and "step_ok N d qs (Some d')"
  shows "machine_inv front N d' given"
proof -
  obtain qs' where "flow_inv N d'" "moves d qs d' qs'" using assms(4) by (auto simp: step_ok_def)
  then show ?thesis
    using assms(2,3) unfolding machine_inv_def moves_def by (metis subseq_order.trans)
qed

lemma machine_takes:
  assumes "queues d qs" "mset (map snd given) = acct d qs" "\<not> front \<longrightarrow> (\<forall>i. subseq (stream i d qs) (sent_on i given))"
    and inv: "flow_inv N d'" and t: "takes m i p d qs d' qs'" "front \<or> \<not> m"
  shows "machine_inv front N d' (given @ [(i, p)])"
proof -
  have "subseq (stream j d' qs') (sent_on j (given @ [(i, p)]))" if "\<not> front" for j
  proof -
    have "subseq (stream j d qs @ (if j = i then [p] else [])) (sent_on j given @ (if j = i then [p] else []))"
      using assms(3) that by (intro list_emb_append_mono) auto
    moreover have "sent_on j (given @ [(i, p)]) = sent_on j given @ (if j = i then [p] else [])" by (simp add: sent_on_def)
    ultimately show ?thesis using t that unfolding takes_def by (metis subseq_order.trans)
  qed
  then show ?thesis using inv t(1) assms(2) by (auto simp: machine_inv_def takes_def)
qed

section \<open>Every event keeps the invariant\<close>

lemma schedule_step:
  assumes inv: "flow_inv N d" and Q: "queues d qs"
  shows "step_ok N d qs (map_option (\<lambda>r. fst (snd r)) (dhd_bus_schedule_queue env i bnd d))"
proof (cases "unat i < length qs")
  case True
  obtain r d' e k where "dhd_bus_schedule_queue env i bnd d = Some (r, d', e)"
      "moves d qs d' (qs[unat i := drop k (qs ! unat i)])" "ids_view d' = ids_view d"
    using schedule_queue_moves [OF Q True] by metis
  then show ?thesis using flow_inv_view [OF inv] step_okI by simp
next
  case False
  then have "unat i \<ge> max_submission_rings d" using queues_length(4) [OF inv Q] by simp
  then show ?thesis using step_ok_same [OF inv Q] by (simp add: dhd_bus_schedule_queue_def)
qed

lemma response_in_range:
  assumes inv: "flow_inv N d" and Q: "queues d qs" and ok: "\<not> bad_response i d"
  shows "unat i < length qs"
  using ok queues_length(3) [OF inv Q] by (auto simp: bad_response_def word_less_nat_alt unat_ucast_u32)

lemma create_response_step:
  assumes inv: "flow_inv N d" and Q: "queues d qs"
  shows "step_ok N d qs (dhd_bus_flow_ring_create_response env i st d)"
proof (cases "bad_response i d \<or> st \<noteq> bcme_code BCME_OK")
  case True
  then show ?thesis
    using step_ok_same [OF inv Q] clean_step [OF inv Q response_in_range [OF inv Q]]
    by (cases "bad_response i d") (simp_all add: dhd_bus_flow_ring_create_response_def)
next
  case False
  let ?e = "update_node i (\<lambda>n. n\<lparr>status := FLOW_RING_STATUS_OPEN\<rparr>) d"
  let ?f = "?e\<lparr>dll_mem := dll_prepend ACTIVE_LIST (ring_list i) (dll_mem ?e)\<rparr>"
  have v: "ids_view ?f = ids_view d" "q_view ?f = q_view d" by (simp_all add: ids_view_update_node q_view_update_node)
  have "step_ok N ?f qs (map_option (\<lambda>r. fst (snd r)) (dhd_bus_schedule_queue env i 0 ?f))"
    using flow_inv_view [OF inv v(1)] queues_view [OF v(2)] Q by (intro schedule_step) simp_all
  then have "step_ok N d qs (map_option (\<lambda>r. fst (snd r)) (dhd_bus_schedule_queue env i 0 ?f))"
    by (rule step_ok_after_view [OF v inv Q])
  moreover have "dhd_bus_flow_ring_create_response env i st d =
      map_option (\<lambda>r. fst (snd r)) (dhd_bus_schedule_queue env i 0 ?f)"
    using False by (cases "dhd_bus_schedule_queue env i 0 ?f")
      (auto simp: dhd_bus_flow_ring_create_response_def Let_def split: prod.splits)
  ultimately show ?thesis by simp
qed

lemma delete_response_step:
  assumes inv: "flow_inv N d" and Q: "queues d qs"
  shows "step_ok N d qs (dhd_bus_flow_ring_delete_response i st d)"
  using step_ok_same [OF inv Q] clean_step [OF inv Q response_in_range [OF inv Q]]
  by (cases "bad_response i d") (simp_all add: dhd_bus_flow_ring_delete_response_def)

lemma flush_response_step:
  assumes inv: "flow_inv N d" and Q: "queues d qs"
  shows "step_ok N d qs (Some (dhd_bus_flow_ring_flush_response i st d))"
  by (rule step_ok_view [OF inv Q]) (simp_all add: dhd_bus_flow_ring_flush_response_def ids_view_update_node q_view_update_node)

lemma rings_step:
  assumes inv: "flow_inv N d" and Q: "queues d qs"
  shows "step_ok N d qs (dhd_flow_rings_delete ifx d)" "step_ok N d qs (dhd_flow_rings_flush ifx d)"
    "step_ok N d qs (dhd_flow_rings_delete_for_peer ifx addr d)"
proof -
  have ids: "\<And>i. i \<in> set [0..<num_h2d_rings d] \<Longrightarrow> i < length qs" using queues_length(1) [OF inv Q] by simp
  have del: "step_ok N d qs (for_rings P (\<lambda>i d. map_option snd (dhd_bus_flow_ring_delete_request i d)) [0..<num_h2d_rings d] d)"
    for P by (rule for_rings_step [OF _ inv Q ids]) (rule delete_request_step)
  have flu: "step_ok N d qs (for_rings P (\<lambda>i d. map_option snd (dhd_bus_flow_ring_flush_request i d)) [0..<num_h2d_rings d] d)"
    for P by (rule for_rings_step [OF _ inv Q ids]) (rule flush_request_step)
  show "step_ok N d qs (dhd_flow_rings_delete ifx d)" "step_ok N d qs (dhd_flow_rings_flush ifx d)"
    "step_ok N d qs (dhd_flow_rings_delete_for_peer ifx addr d)"
    using step_ok_same [OF inv Q] del flu
    unfolding dhd_flow_rings_delete_def dhd_flow_rings_flush_def dhd_flow_rings_delete_for_peer_def by auto
qed

lemma thresholds_step:
  assumes inv: "flow_inv N d" and Q: "queues d qs"
  shows "step_ok N d qs (Some (dhd_flow_ring_config_thresholds i b c ctr l2 l2ctr d))"
proof (cases "ucast i > max_tx_flowid d")
  case True
  then show ?thesis
    using step_ok_same [OF inv Q] by (simp add: dhd_flow_ring_config_thresholds_def dhd_flow_queue_def dhd_flow_ring_node_def)
next
  case False
  then have i: "unat i < length qs" using queues_length(3) [OF inv Q] by (simp add: word_less_nat_alt unat_ucast_u32)
  note R = queues_ring [OF Q i]
  obtain q' where q': "dhd_flow_ring_config_thresholds i b c ctr l2 l2ctr d = set_queue i q' d"
      "as_prec q' = (as_prec (fr_queue (node_of d i)))\<lparr>max_pkts := of_int (b - 1)\<rparr>" "fq_cb q' = fq_cb (fr_queue (node_of d i))"
    using False
    by (simp add: dhd_flow_ring_config_thresholds_def dhd_flow_queue_def dhd_flow_ring_node_def DHD_FLOW_QUEUE_SET_MAX_def
        DHD_FLOW_QUEUE_SET_THRESHOLD_def DHD_FLOW_QUEUE_SET_L2THRESHOLD_def as_prec_def Let_def)
  have "fq_rep (pkt_links d) q' (qs ! unat i)" using R(1) unfolding fq_rep_def q'(2) by simp
  then have "moves d qs (set_queue i q' d) qs" using q'(3) R(2) by (intro moves_reconfigure [OF Q i]) simp_all
  then show ?thesis using q'(1) flow_inv_view [OF inv] step_okI by simp
qed

lemma fold_view: "(\<And>x d. v (f x d) = v d) \<Longrightarrow> v (fold f xs d) = v d"
  by (induction xs arbitrary: d) simp_all

lemma set_if_view:
  assumes "\<And>lk. fl_hash (f lk) = fl_hash lk"
  shows "ids_view (set_if ifx f d) = ids_view d" "q_view (set_if ifx f d) = q_view d"
proof -
  have "map fl_hash ((if_lkup d)[ifx := f (if_lkup d ! ifx)]) = map fl_hash (if_lkup d)"
    by (cases "ifx < length (if_lkup d)") (auto intro!: nth_equalityI simp: nth_list_update assms)
  then show "ids_view (set_if ifx f d) = ids_view d" by (simp add: ids_view_def set_if_def)
qed (simp add: q_view_def set_if_def)

lemma multicilent_view:
  "ids_view (dhd_update_multicilent_flow_rings ifx inc d) = ids_view d"
  "q_view (dhd_update_multicilent_flow_rings ifx inc d) = q_view d"
  unfolding dhd_update_multicilent_flow_rings_def by (auto intro!: fold_view)

lemma interface_step:
  assumes inv: "flow_inv N d" and Q: "queues d qs"
  shows "step_ok N d qs (Some (dhd_update_interface_flow_info ifx op r d))"
    "step_ok N d qs (Some (snd (dhd_update_interface_link_status ifx st d)))"
    "step_ok N d qs (Some (snd (dhd_update_flow_prio_map env mp d)))"
    "step_ok N d qs (Some (d\<lparr>tdls_peers := peers\<rparr>))" "step_ok N d qs (Some (d\<lparr>dequeue_prec_map := rm\<rparr>))"
proof -
  show "step_ok N d qs (Some (dhd_update_interface_flow_info ifx op r d))"
    by (rule step_ok_view [OF inv Q])
      (simp_all add: dhd_update_interface_flow_info_def set_if_view multicilent_view Let_def)
  show "step_ok N d qs (Some (snd (dhd_update_interface_link_status ifx st d)))"
    by (rule step_ok_view [OF inv Q]) (simp_all add: dhd_update_interface_link_status_def set_if_view)
  show "step_ok N d qs (Some (snd (dhd_update_flow_prio_map env mp d)))"
    by (rule step_ok_view [OF inv Q]) (simp_all add: dhd_update_flow_prio_map_def ids_view_def q_view_def Let_def)
  show "step_ok N d qs (Some (d\<lparr>tdls_peers := peers\<rparr>))" "step_ok N d qs (Some (d\<lparr>dequeue_prec_map := rm\<rparr>))"
    by (rule step_ok_view [OF inv Q]; simp add: ids_view_def q_view_def)+
qed

lemma enqueue_pkt_tags: "enqueue_pkt env i p d = (r, d') \<Longrightarrow> pkt_flowid d' = pkt_flowid d"
  by (auto simp: enqueue_pkt_def Let_def split: prod.splits)

lemma schedule_queue_tags: "dhd_bus_schedule_queue env i bnd d = Some (r, d', e) \<Longrightarrow> pkt_flowid d' = pkt_flowid d"
  by (auto simp: dhd_bus_schedule_queue_def Let_def bind_eq_Some_conv split: if_splits)

lemma txdata_tags: "dhd_bus_txdata env p d = Some (r, d') \<Longrightarrow> pkt_flowid d' = pkt_flowid d"
  by (auto simp: dhd_bus_txdata_def toss_def Let_def bind_eq_Some_conv split: if_splits prod.splits
      dest!: enqueue_pkt_tags schedule_queue_tags)

text \<open>A flow id a lookup returns is that of a ring.\<close>

lemma lookup_id:
  assumes inv: "flow_inv N d" and r: "dhd_flowid_lookup env ifx prio sa da d = (BCME_OK, j, d')"
  shows "j \<in> set (chain_ids d')"
  using inv r
proof (cases rule: lookup_cases)
  case (found i)
  then show ?thesis using find_cases [OF inv found(1), of prio da] by (auto split: if_splits)
next
  case create
  from inv create(1,2,3) show ?thesis
  proof (cases rule: create_flow_cases)
    case (made i e c f)
    let ?s = "flow_slot d ifx prio da"
    have fr: "if_lkup e = if_lkup d" using made(2) alloc_frame_fields by (auto simp: took_def)
    then have be: "bucket e = bucket d" "lkup_inv e" using inv by (auto simp: bucket_def [abs_def] flow_inv_def lkup_inv_def)
    have "chain_ids d' = chain_ids (set_bucket ifx ?s (bucket e ifx ?s @ [flow_node i ifx prio da]) e)"
      using made(3) be(1) by (simp add: chain_ids_def chain_nodes_def update_node_def)
    then have "mset (chain_ids d') = mset (chain_ids e) + {#i#}"
      using chain_ids_append [OF be(2) create(1) flow_slot_less] by (simp add: flow_node_def)
    then have "i \<in> set (chain_ids d')" by (metis add_mset_add_single set_mset_mset union_single_eq_member)
    then show ?thesis using made(7) by auto
  qed simp
qed simp

lemma send_step:
  assumes inv: "flow_inv N d" and Q: "queues d qs" and p: "p \<noteq> NULL" "p \<notin> set (concat qs)"
  obtains d' qs' i where "flow_step (Send env ifidx prio p) d = Some d'" "flow_inv N d'" "i = pkt_flowid d' p"
    "takes (dhd_match_pkt_type env p) i p d qs d' qs'"
proof (cases "prio > MAXPRIO")
  case True
  obtain d' where d': "toss p BCME_ERROR d = Some (BCME_ERROR, d')"
      "takes (dhd_match_pkt_type env p) (pkt_flowid d p) p d qs d' qs" "ids_view d' = ids_view d"
    by (rule takes_toss [OF Q])
  have "pkt_flowid d' = pkt_flowid d" using d'(1) by (auto simp: toss_def)
  then show thesis using that [of d' "pkt_flowid d p" qs] True d' flow_inv_view [OF inv d'(3)]
    by (simp add: dhd_sendpkt_flow_def)
next
  case prio: False
  let ?u = "dhd_flowid_update env ifidx (flow_prio_map d ! prio) p d"
  obtain r j d1 where l: "dhd_flowid_lookup env ifidx (flow_prio_map d ! prio) (ether_shost env p) (ether_dhost env p) d = (r, j, d1)"
    by (cases "dhd_flowid_lookup env ifidx (flow_prio_map d ! prio) (ether_shost env p) (ether_dhost env p) d") auto
  have k: "flow_inv N d1" "q_view d1 = q_view d" using lookup_keeps [OF inv l] by auto
  have al: "flowid_allocator d \<noteq> None" "flowid_allocator d1 \<noteq> None"
    using inv k(1) by (auto simp: flow_inv_def alloc_inv_def)
  show thesis
  proof (cases "ifidx < DHD_MAX_IFS \<and> r = BCME_OK")
    case True
    let ?d = "d1\<lparr>pkt_flowid := (pkt_flowid d1)(p := j)\<rparr>"
    have v: "ids_view ?d = ids_view d1" "q_view ?d = q_view d" using k(2) by simp_all
    have Q1: "queues ?d qs" using queues_view [OF v(2)] Q by simp
    have u: "?u = (BCME_OK, ?d)" using True al(1) l by (auto simp: dhd_flowid_update_def)
    have "j \<in> set (chain_ids d1)" using lookup_id [OF inv] l True by blast
    moreover obtain t where t: "flow_ring_table d1 = Some t" "rings_rep (map fr_queue t) (pkt_links d1) qs"
      using Q queues_view [OF k(2)] by (auto simp: queues_def)
    ultimately have "unat j < length qs" using chain_id_in_table(1) [OF k(1)] by (simp add: rings_rep_def)
    then obtain r' d' qs' where t: "dhd_bus_txdata env p ?d = Some (r', d')" "ids_view d' = ids_view ?d"
        "takes (dhd_match_pkt_type env p) (pkt_flowid ?d p) p ?d qs d' qs'"
      using txdata_takes [OF _ Q1 _ p, of env] al(2) by auto
    have "moves d qs ?d qs" by (rule moves_view [OF Q v(2)])
    from moves_takes [OF this t(3)] have t3: "takes (dhd_match_pkt_type env p) j p d qs d' qs'" by simp
    have "flow_inv N d'" using flow_inv_view [OF k(1)] t(2) v(1) by simp
    moreover have "flow_step (Send env ifidx prio p) d = Some d'" using prio u t(1) by (simp add: dhd_sendpkt_flow_def)
    moreover have "pkt_flowid d' p = j" using txdata_tags [OF t(1)] by simp
    ultimately show ?thesis using that t3 by simp
  next
    case False
    have "\<exists>r2 e. ?u = (r2, e) \<and> r2 \<noteq> BCME_OK \<and> flow_inv N e \<and> q_view e = q_view d"
      unfolding dhd_flowid_update_def l using False al(1) k inv by auto
    then obtain r2 e where u: "?u = (r2, e)" "r2 \<noteq> BCME_OK" "flow_inv N e" "q_view e = q_view d" by blast
    have Qe: "queues e qs" using queues_view [OF u(4)] Q by simp
    obtain d' where d': "toss p r2 e = Some (r2, d')" "takes (dhd_match_pkt_type env p) (pkt_flowid e p) p e qs d' qs"
        "ids_view d' = ids_view e"
      by (rule takes_toss [OF Qe])
    have "takes (dhd_match_pkt_type env p) (pkt_flowid e p) p d qs d' qs"
      by (rule moves_takes [OF moves_view [OF Q u(4)] d'(2)])
    moreover have "pkt_flowid d' = pkt_flowid e" using d'(1) by (auto simp: toss_def)
    moreover have "flow_step (Send env ifidx prio p) d = Some d'" using prio u(1,2) d'(1) by (simp add: dhd_sendpkt_flow_def)
    ultimately show ?thesis using that [of d' "pkt_flowid e p" qs] flow_inv_view [OF u(3) d'(3)] by simp
  qed
qed

lemma other_step:
  assumes "flow_inv N d" "queues d qs" "\<nexists>env ifidx prio p. ev = Send env ifidx prio p"
  shows "step_ok N d qs (flow_step ev d) \<and> (\<forall>d'. handed ev d' = [])"
  using assms(3) schedule_step [OF assms(1,2)] create_response_step [OF assms(1,2)] delete_response_step [OF assms(1,2)]
    flush_response_step [OF assms(1,2)] rings_step [OF assms(1,2)] thresholds_step [OF assms(1,2)]
    interface_step [OF assms(1,2)]
  by (cases ev) auto

lemma machine_step:
  assumes inv: "machine_inv front N d given" and ok: "event_ok front d given ev"
  shows "\<exists>d'. flow_step ev d = Some d' \<and> machine_inv front N d' (given @ handed ev d')"
proof -
  obtain qs where f: "flow_inv N d" and Q: "queues d qs" and a: "mset (map snd given) = acct d qs"
      and s: "\<not> front \<longrightarrow> (\<forall>i. subseq (stream i d qs) (sent_on i given))"
    using inv by (auto simp: machine_inv_def)
  have mv: "\<exists>d'. res = Some d' \<and> machine_inv front N d' given" if "step_ok N d qs res" for res
    using machine_moves [OF Q a s] that by (auto simp: step_ok_def)
  show ?thesis
  proof (cases "\<exists>env ifidx prio p. ev = Send env ifidx prio p")
    case True
    then obtain env ifidx prio p where Send: "ev = Send env ifidx prio p" by blast
    have "count_list (map snd given) p = count (acct d qs) p" using a by (metis count_mset)
    then have pq: "p \<noteq> NULL" "p \<notin> set (concat qs)"
      using ok Send by (simp_all add: acct_def count_mset count_list_0_iff flip: mset_map)
    obtain d' qs' i where "flow_step (Send env ifidx prio p) d = Some d'" "flow_inv N d'" "i = pkt_flowid d' p"
        "takes (dhd_match_pkt_type env p) i p d qs d' qs'"
      by (rule send_step [OF f Q pq])
    then show ?thesis using machine_takes [OF Q a s] ok Send by auto
  next
    case False
    then show ?thesis using other_step [OF f Q False] mv by auto
  qed
qed

lemma machine_reach:
  assumes "flow_reach front d0 (d, given)" "machine_inv front N d0 []"
  shows "machine_inv front N d given"
  using assms
proof (induction "(d, given)" arbitrary: d given rule: flow_reach.induct)
  case (event d given ev d')
  then show ?case using machine_step [of front N d given ev] by auto
qed

end
