(* ===== verification/Flow_Correct.thy ===== *)
theory Flow_Correct
  imports Flow_Machine
begin

text \<open>
  The properties of the flow rings, for the states reached after \<open>dhd_flow_rings_init\<close> by any sequence of events.
\<close>

section \<open>The start\<close>

text \<open>What the initialisation relies on: the device's numbers of rings fit, and no packet has been sent yet.\<close>

definition flow_setup :: "nat \<Rightarrow> dhd_flow \<Rightarrow> bool" where
  "flow_setup n d \<longleftrightarrow>
     unat (dhd_get_max_flow_rings d) + 2 \<le> n \<and> n \<le> 65536 \<and> max_submission_rings d \<le> n \<and>
     unat (dhd_get_max_flow_rings d) + 6 < 65535 \<and> (htput_support d \<longrightarrow> 4 \<le> unat (dhd_get_max_flow_rings d)) \<and>
     sent_pkts d = [] \<and> freed_pkts d = []"

definition normal_rings :: "dhd_flow \<Rightarrow> u16" where
  "normal_rings d = (if htput_support d then dhd_get_max_flow_rings d - HTPUT_TOTAL_FLOW_RINGS else dhd_get_max_flow_rings d)"

lemma normal_rings_unat:
  "flow_setup n d \<Longrightarrow> unat (normal_rings d) = unat (dhd_get_max_flow_rings d) - (if htput_support d then 4 else 0)"
proof -
  assume s: "flow_setup n d"
  have "unat (dhd_get_max_flow_rings d - HTPUT_TOTAL_FLOW_RINGS) = unat (dhd_get_max_flow_rings d) - 4" if "htput_support d"
    using s that by (subst unat_sub) (auto simp: flow_setup_def word_le_nat_alt)
  then show ?thesis by (simp add: normal_rings_def)
qed

lemma map_init_inv:
  assumes s: "flow_setup n d" and i: "dhd_flowid_map_init e (dhd_get_max_flow_rings d) d = (BCME_OK, d')"
  shows "alloc_inv (normal_rings d) d'" "flow_avail d' = flow_ids (normal_rings d) d'"
    "\<exists>a b st c. d' = d\<lparr>flowid_allocator := a, htput_flowid_allocator := b, htput_flow_ring_start := st, htput_client_flow_rings := c\<rparr>"
proof -
  let ?N = "normal_rings d"
  have N: "unat ?N + 6 < 65535" using s normal_rings_unat [OF s] by (simp add: flow_setup_def)
  obtain a where a: "id16_map_init True ?N FLOWID_RESERVED = Some a" "id16_inv ?N FLOWID_RESERVED a"
      "id16_avail a = id16_ids ?N FLOWID_RESERVED"
    using id16_init_inv [of FLOWID_RESERVED ?N] N by auto
  obtain b where b: "id16_map_init True HTPUT_TOTAL_FLOW_RINGS (?N + FLOWID_RESERVED) = Some b"
      "id16_inv HTPUT_TOTAL_FLOW_RINGS (?N + FLOWID_RESERVED) b"
      "id16_avail b = id16_ids HTPUT_TOTAL_FLOW_RINGS (?N + FLOWID_RESERVED)"
    using id16_init_inv [of "?N + FLOWID_RESERVED" HTPUT_TOTAL_FLOW_RINGS] N htput_start [OF N] by auto
  have ok: "id_map_ok e" "htput_support d \<Longrightarrow> htput_map_ok e"
    using i by (auto simp: dhd_flowid_map_init_def id16_map_init_def Let_def HTPUT_TOTAL_FLOW_RINGS_def
        HTPUT_NUM_STA_FLOW_RINGS_def HTPUT_NUM_CLIENT_FLOW_RINGS_def split: if_splits)
  have pos: "(0 :: u16) < HTPUT_TOTAL_FLOW_RINGS"
    by (simp add: HTPUT_TOTAL_FLOW_RINGS_def HTPUT_NUM_STA_FLOW_RINGS_def HTPUT_NUM_CLIENT_FLOW_RINGS_def)
  have d': "d' = (if htput_support d
      then d\<lparr>flowid_allocator := Some a, htput_flowid_allocator := Some b, htput_flow_ring_start := ?N + FLOWID_RESERVED,
             htput_client_flow_rings := 0\<rparr>
      else d\<lparr>flowid_allocator := Some a, htput_flowid_allocator := None\<rparr>)"
    using i a(1) b(1) ok pos by (auto simp: dhd_flowid_map_init_def normal_rings_def Let_def split: if_splits)
  show "alloc_inv ?N d'" "flow_avail d' = flow_ids ?N d'"
    using d' a b N by (auto simp: alloc_inv_def flow_avail_def flow_ids_def htput_ids_def)
  show "\<exists>a b st c. d' = d\<lparr>flowid_allocator := a, htput_flowid_allocator := b, htput_flow_ring_start := st, htput_client_flow_rings := c\<rparr>"
    unfolding d' by (cases d) (auto split: if_splits)
qed

lemma rings_init_fields:
  assumes s: "flow_setup n d" and i: "dhd_flow_rings_init e n d = (BCME_OK, d0)"
  obtains d1 where "alloc_inv (normal_rings d) d0" "flow_avail d0 = flow_ids (normal_rings d) d0"
    "max_tx_flowid d0 = ucast (dhd_get_max_flow_rings d) + 1" "htput_support d0 = htput_support d" "num_h2d_rings d0 = n"
    "max_submission_rings d0 = max_submission_rings d"
    "flow_ring_table d0 = Some (map (init_node d1) [0..<n])" "if_lkup d0 = replicate DHD_MAX_IFS init_lkup"
    "sent_pkts d0 = []" "freed_pkts d0 = []"
proof -
  obtain d' where m: "dhd_flowid_map_init e (dhd_get_max_flow_rings d) d = (BCME_OK, d')"
    using i by (auto simp: dhd_flow_rings_init_def Let_def split: prod.splits if_splits)
  note a = map_init_inv [OF s m]
  obtain x b st c where d': "d' = d\<lparr>flowid_allocator := x, htput_flowid_allocator := b, htput_flow_ring_start := st,
      htput_client_flow_rings := c\<rparr>" using a(3) by blast
  obtain d1 where d0: "flow_ring_table d0 = Some (map (init_node d1) [0..<n])" "if_lkup d0 = replicate DHD_MAX_IFS init_lkup"
      "flowid_allocator d0 = flowid_allocator d'" "htput_flowid_allocator d0 = htput_flowid_allocator d'"
      "htput_flow_ring_start d0 = htput_flow_ring_start d'" "htput_support d0 = htput_support d'"
      "max_tx_flowid d0 = ucast (dhd_get_max_flow_rings d) + 1" "num_h2d_rings d0 = n"
      "max_submission_rings d0 = max_submission_rings d'" "sent_pkts d0 = sent_pkts d'" "freed_pkts d0 = freed_pkts d'"
    using i m by (auto simp: dhd_flow_rings_init_def FLOWID_RESERVED_def Let_def simp del: map_eq_conv split: if_splits)
  have "alloc_inv (normal_rings d) d0" "flow_avail d0 = flow_ids (normal_rings d) d0"
    using a(1,2) d0(3-6) by (simp_all add: alloc_inv_def flow_avail_def flow_ids_def htput_ids_def)
  then show thesis using that [of d1] d0 d' s by (simp add: flow_setup_def)
qed

lemma rings_init_inv:
  assumes s: "flow_setup n d" and i: "dhd_flow_rings_init e n d = (BCME_OK, d0)"
  shows "machine_inv front (normal_rings d) d0 []"
proof -
  let ?N = "normal_rings d"
  obtain d1 where d0: "alloc_inv ?N d0" "flow_avail d0 = flow_ids ?N d0"
    "max_tx_flowid d0 = ucast (dhd_get_max_flow_rings d) + 1" "htput_support d0 = htput_support d" "num_h2d_rings d0 = n"
    "max_submission_rings d0 = max_submission_rings d"
    "flow_ring_table d0 = Some (map (init_node d1) [0..<n])" "if_lkup d0 = replicate DHD_MAX_IFS init_lkup"
    "sent_pkts d0 = []" "freed_pkts d0 = []"
    using rings_init_fields [OF s i] by metis
  have lk: "lkup_inv d0" using d0(8) by (simp add: lkup_inv_def init_lkup_def)
  have b: "bucket d0 ifx h = []" if "ifx < DHD_MAX_IFS" "h < DHD_FLOWRING_HASH_SIZE" for ifx h
    using that d0(8) by (simp add: bucket_def init_lkup_def)
  then have "chain_nodes d0 = []" using chain_nodes_iff [OF lk] by (metis empty_iff empty_set list.set_cases list.set_intros(1) neq_Nil_conv)
  then have ch: "chain_ids d0 = []" by (simp add: chain_ids_def)
  have "unat (max_tx_flowid d0) = unat (dhd_get_max_flow_rings d) + 1"
    using d0(3) by (simp add: unat_word_ariths unat_ucast_u32 order.strict_trans [OF unat_u16_less])
  then have "table_inv ?N d0"
    using s d0(4-7) normal_rings_unat [OF s] by (auto simp: table_inv_def flow_setup_def init_node_def)
  then have f: "flow_inv ?N d0" using d0(1,2) lk ch b by (simp add: flow_inv_def)
  have "queues d0 (replicate n [])"
    using d0(7) by (auto simp: queues_def rings_rep_def init_node_def dhd_flow_queue_init_def)
  moreover have "stream i d0 (replicate n []) = []" for i using d0(9) by (simp add: stream_def sent_on_def)
  ultimately show ?thesis
    using f d0(9,10) by (auto simp: machine_inv_def acct_def intro!: exI [of _ "replicate n []"])
qed

lemma id16_ids_iff:
  assumes "unat start + unat tot < 65535"
  shows "j \<in> id16_ids tot start \<longleftrightarrow> unat start \<le> unat j \<and> unat j < unat start + unat tot"
proof
  assume h: "unat start \<le> unat j \<and> unat j < unat start + unat tot"
  then have "j = start + of_nat (unat j - unat start)" by (simp add: of_nat_diff)
  moreover have "unat j - unat start < unat tot" using h by linarith
  ultimately show "j \<in> id16_ids tot start" unfolding id16_ids_def by blast
qed (use id16_range [OF assms] in blast)

lemma flow_ids_iff:
  assumes "flow_inv N d"
  shows "j \<in> flow_ids N d \<longleftrightarrow> 2 \<le> unat j \<and> unat j \<le> unat (max_tx_flowid d)"
proof -
  have lim: "unat N + 6 < 65535" and mx: "unat (max_tx_flowid d) = unat N + (if htput_support d then 5 else 1)"
    using assms by (auto simp: flow_inv_def alloc_inv_def table_inv_def)
  show ?thesis
    using id16_ids_iff [of FLOWID_RESERVED N j] id16_ids_iff [of "N + FLOWID_RESERVED" HTPUT_TOTAL_FLOW_RINGS j]
      htput_start [OF lim] lim mx by (auto simp: flow_ids_def htput_ids_def)
qed

section \<open>Lookups\<close>

text \<open>The table after a ring was created for a flow.\<close>

lemma created_table:
  assumes inv: "flow_inv N d" and ix: "ifx < DHD_MAX_IFS" and t: "took N d i e"
    and d': "d' = update_node i f (set_bucket ifx (flow_slot d ifx prio da)
      (bucket d ifx (flow_slot d ifx prio da) @ [flow_node i ifx prio da]) e\<lparr>multi_client_flow_rings := c\<rparr>)"
  shows "same_roles d d'"
    "bucket d' ifx2 h = (if ifx2 = ifx \<and> h = flow_slot d ifx prio da
       then bucket d ifx h @ [flow_node i ifx prio da] else bucket d ifx2 h)"
proof -
  let ?s = "flow_slot d ifx prio da"
  let ?e = "set_bucket ifx ?s (bucket d ifx ?s @ [flow_node i ifx prio da]) e"
  have fr: "if_lkup e = if_lkup d" "tdls_peers e = tdls_peers d" using t alloc_frame_fields by (auto simp: took_def)
  have lk: "lkup_inv e" using inv fr(1) by (simp add: flow_inv_def lkup_inv_def)
  have f2: "if_lkup d' = if_lkup ?e" "tdls_peers d' = tdls_peers ?e" unfolding d' by (simp_all add: update_node_def)
  show "same_roles d d'"
    using same_roles_set_bucket [of e ifx ?s "bucket d ifx ?s @ [flow_node i ifx prio da]"] f2 fr by (simp add: same_roles_def)
  show "bucket d' ifx2 h = (if ifx2 = ifx \<and> h = ?s then bucket d ifx h @ [flow_node i ifx prio da] else bucket d ifx2 h)"
    using bucket_set_bucket [OF lk ix flow_slot_less [of d ifx prio da]] f2(1) fr(1) by (simp add: bucket_def)
qed

lemma created_find:
  assumes inv: "flow_inv N d" and ix: "ifx < DHD_MAX_IFS" and t: "took N d i e" and i: "i \<noteq> FLOWID_INVALID"
    and nf: "dhd_flowid_find d ifx prio da = FLOWID_INVALID"
    and d': "d' = update_node i f (set_bucket ifx (flow_slot d ifx prio da)
      (bucket d ifx (flow_slot d ifx prio da) @ [flow_node i ifx prio da]) e\<lparr>multi_client_flow_rings := c\<rparr>)"
  shows "dhd_flowid_find d' ifx prio da = i"
    "dhd_flowid_find d ifx2 prio2 da2 \<noteq> FLOWID_INVALID \<Longrightarrow> dhd_flowid_find d' ifx2 prio2 da2 = dhd_flowid_find d ifx2 prio2 da2"
proof -
  note tab = created_table [OF inv ix t d']
  have len: "length (if_lkup d) = DHD_MAX_IFS" using inv by (simp add: flow_inv_def lkup_inv_def)
  have valid: "hash_flowid cur \<noteq> FLOWID_INVALID"
    if "cur \<in> set (bucket d k (flow_slot d k pr a))" "k < DHD_MAX_IFS" for cur k pr a
    using bucket_ids_valid [OF inv that(2) flow_slot_less that(1)] .
  have eq: "dhd_flowid_find d' k pr a =
      (let b = bucket d k (flow_slot d k pr a)
       in if chain_find (flow_match d k pr a) b = FLOWID_INVALID
          then (if k = ifx \<and> flow_slot d k pr a = flow_slot d ifx prio da
                then chain_find (flow_match d k pr a) [flow_node i ifx prio da] else FLOWID_INVALID)
          else chain_find (flow_match d k pr a) b)" if k: "k < DHD_MAX_IFS" for k pr a
    using k len same_roles_slot(2,3) [OF tab(1), of k] tab(2) chain_find_cases(3) valid
    by (auto simp: find_eq Let_def)
  show "dhd_flowid_find d' ifx prio da = i"
    using eq [OF ix] nf ix flow_match_own [of d ifx prio da i] by (simp add: find_eq flow_node_def)
  show "dhd_flowid_find d' ifx2 prio2 da2 = dhd_flowid_find d ifx2 prio2 da2"
    if f: "dhd_flowid_find d ifx2 prio2 da2 \<noteq> FLOWID_INVALID"
  proof -
    have k: "ifx2 < DHD_MAX_IFS" using f by (auto simp: find_eq split: if_splits)
    show ?thesis using eq [OF k, of prio2 da2] f k by (simp add: find_eq)
  qed
qed

lemma lookup_result:
  assumes inv: "flow_inv N d" and l: "dhd_flowid_lookup env ifx prio sa da d = (ret, j, d')"
  shows "ret = BCME_OK \<Longrightarrow> j \<noteq> FLOWID_INVALID \<and> dhd_flowid_find d' ifx prio da = j \<and>
      (if dhd_flowid_find d ifx prio da = j then d' = d
       else j \<notin> set (chain_ids d) \<and> active (node_of d' j) \<and> status (node_of d' j) = FLOW_RING_STATUS_CREATE_PENDING \<and>
         node_info (node_of d' j) = \<lparr>fi_tid = prio, fi_ifindex = ifx, fi_sa = sa, fi_da = da\<rparr>)"
    "ret \<noteq> BCME_OK \<Longrightarrow> j = FLOWID_INVALID"
    "dhd_flowid_find d ifx2 prio2 da2 \<noteq> FLOWID_INVALID \<Longrightarrow> dhd_flowid_find d' ifx2 prio2 da2 = dhd_flowid_find d ifx2 prio2 da2"
proof -
  have "(ret = BCME_OK \<longrightarrow> j \<noteq> FLOWID_INVALID \<and> dhd_flowid_find d' ifx prio da = j \<and>
      (if dhd_flowid_find d ifx prio da = j then d' = d
       else j \<notin> set (chain_ids d) \<and> active (node_of d' j) \<and> status (node_of d' j) = FLOW_RING_STATUS_CREATE_PENDING \<and>
         node_info (node_of d' j) = \<lparr>fi_tid = prio, fi_ifindex = ifx, fi_sa = sa, fi_da = da\<rparr>)) \<and>
    (ret \<noteq> BCME_OK \<longrightarrow> j = FLOWID_INVALID) \<and>
    (dhd_flowid_find d ifx2 prio2 da2 \<noteq> FLOWID_INVALID \<longrightarrow> dhd_flowid_find d' ifx2 prio2 da2 = dhd_flowid_find d ifx2 prio2 da2)"
    using inv l
  proof (cases rule: lookup_cases)
    case (found i)
    then show ?thesis
      by (cases "status (node_of d i) = FLOW_RING_STATUS_DELETE_PENDING \<or> status (node_of d i) = FLOW_RING_STATUS_CLOSED")
        simp_all
  next
    case create
    from inv create show ?thesis
    proof (cases rule: create_flow_cases)
      case (refused e)
      have "if_lkup e = if_lkup d" "tdls_peers e = tdls_peers d" using refused(3) alloc_frame_fields by (auto simp: took_def)
      then have "dhd_flowid_find e = dhd_flowid_find d"
        by (intro ext) (simp add: dhd_flowid_find_def DHD_IF_ROLE_GENERIC_STA_def DHD_IF_ROLE_def is_tdls_destination_def bucket_def)
      then show ?thesis using refused by simp
    next
      case (made i e c f)
      note fnd = created_find [OF inv create(1) made(2,1) create(2) made(3)]
      have ti: "i \<in> flow_avail d" using made(1,2) by (simp add: took_def)
      then have ni: "i \<notin> set (chain_ids d)" using inv by (auto simp: flow_inv_def)
      obtain t where t: "flow_ring_table d = Some t" "unat (max_tx_flowid d) < length t"
        using inv by (auto simp: flow_inv_def table_inv_def)
      have "unat i < length t" using flow_ids_iff [OF inv, of i] ti inv t(2) by (auto simp: flow_inv_def)
      moreover have "flow_ring_table e = Some t" using made(2) alloc_frame_fields(2) t(1) by (auto simp: took_def)
      ultimately have n: "node_of d' i = f (t ! unat i)"
        unfolding made(3) by (simp add: node_of_def update_node_def set_bucket_def Let_def)
      show ?thesis using made(1,6,7) n ni fnd create(2) by auto
    qed
  qed simp
  then show "ret = BCME_OK \<Longrightarrow> j \<noteq> FLOWID_INVALID \<and> dhd_flowid_find d' ifx prio da = j \<and>
      (if dhd_flowid_find d ifx prio da = j then d' = d
       else j \<notin> set (chain_ids d) \<and> active (node_of d' j) \<and> status (node_of d' j) = FLOW_RING_STATUS_CREATE_PENDING \<and>
         node_info (node_of d' j) = \<lparr>fi_tid = prio, fi_ifindex = ifx, fi_sa = sa, fi_da = da\<rparr>)"
    "ret \<noteq> BCME_OK \<Longrightarrow> j = FLOWID_INVALID"
    "dhd_flowid_find d ifx2 prio2 da2 \<noteq> FLOWID_INVALID \<Longrightarrow> dhd_flowid_find d' ifx2 prio2 da2 = dhd_flowid_find d ifx2 prio2 da2"
    by blast+
qed

lemma flows_apart:
  assumes inv: "flow_inv N d" and role: "\<not> DHD_IF_ROLE_GENERIC_STA d ifx" and u: "\<not> ETHER_ISMULTI da" "\<not> ETHER_ISMULTI da2"
    and f: "dhd_flowid_find d ifx prio da \<noteq> FLOWID_INVALID" "dhd_flowid_find d ifx prio2 da2 = dhd_flowid_find d ifx prio da"
  shows "prio2 = prio \<and> da2 = da"
proof -
  have ix: "ifx < DHD_MAX_IFS" using f(1) by (auto simp: find_eq split: if_splits)
  obtain c where c: "flow_match d ifx prio da c" "hash_flowid c = dhd_flowid_find d ifx prio da" "chained d ifx c"
    using find_cases [OF inv ix f(1)] by metis
  obtain c2 where c2: "flow_match d ifx prio2 da2 c2" "hash_flowid c2 = dhd_flowid_find d ifx prio2 da2" "chained d ifx c2"
    using find_cases [OF inv ix, of prio2 da2] f by metis
  have "hash_flowid c2 = hash_flowid c" using c(2) c2(2) f(2) by simp
  then have "fi_da (hash_info c2) = fi_da (hash_info c)" "fi_tid (hash_info c2) = fi_tid (hash_info c)"
    using c(3) c2(3) by (simp_all add: chained_def Let_def)
  then show ?thesis using c(1) c2(1) role u by (auto simp: flow_match_def)
qed

section \<open>The active list\<close>

text \<open>The walk along a proper list ends and adds up the queue lengths of the active rings.\<close>

definition active_qlen :: "dhd_flow \<Rightarrow> ptr \<Rightarrow> u32" where
  "active_qlen d item =
     (let n = node_of d (of_nat (item - 2)) in if active n then ucast (fq_len (fr_queue n)) else 0)"

lemma bkpq_walk_sum:
  "dseg (dll_mem d) ACTIVE_LIST xs e \<Longrightarrow> ACTIVE_LIST \<notin> set xs \<Longrightarrow>
     bkpq_walk d (last (ACTIVE_LIST # xs)) q = Some (q + sum_list (map (active_qlen d) xs))"
proof (induction xs arbitrary: q e rule: rev_induct)
  case Nil
  then show ?case by (subst bkpq_walk.simps) (simp add: dll_end_def)
next
  case (snoc x xs)
  have s: "dseg (dll_mem d) ACTIVE_LIST xs x" using snoc.prems(1) by (simp add: dseg_append)
  have "dll_prev_p (dll_mem d) x = last (ACTIVE_LIST # xs)" using dseg_last [OF s] by (simp add: dll_prev_p_def)
  then have "bkpq_walk d x q = bkpq_walk d (last (ACTIVE_LIST # xs)) (q + active_qlen d x)"
    using snoc.prems(2) by (subst bkpq_walk.simps) (simp add: dll_end_def active_qlen_def Let_def)
  then show ?case using snoc.IH [OF s] snoc.prems(2) by (simp add: ac_simps)
qed

lemma bkpq_len_sum:
  assumes "dll_rep (dll_mem d) ACTIVE_LIST xs"
  shows "dhd_active_tx_flowring_bkpq_len d = Some (sum_list (map (active_qlen d) xs))"
  using assms bkpq_walk_sum [of d xs ACTIVE_LIST 0] dll_tail_rep [OF assms]
  by (simp add: dll_rep_def dhd_active_tx_flowring_bkpq_len_def)

text \<open>A second successful create response for the only ring on the list links its node to itself, and the walk does not
  end.\<close>

lemma bkpq_walk_stuck:
  assumes "dll_prev_p (dll_mem d) x = x" "x \<noteq> ACTIVE_LIST"
  shows "bkpq_walk d x q = None"
proof -
  have "dll_prev_p (dll_mem d) y = y \<longrightarrow> y = ACTIVE_LIST" if "bkpq_walk d y q' = Some r" for y q' r
  proof (rule bkpq_walk.raw_induct [where P = "\<lambda>d y q r. dll_prev_p (dll_mem d) y = y \<longrightarrow> y = ACTIVE_LIST", OF _ that])
    fix walk d item qlen and r :: u32
    assume ih: "\<And>d' y q r. walk d' y q = Some r \<Longrightarrow> dll_prev_p (dll_mem d') y = y \<longrightarrow> y = ACTIVE_LIST"
      and eq: "(if dll_end ACTIVE_LIST item then Some qlen
                else (let prev = dll_prev_p (dll_mem d) item; n = node_of d (of_nat (item - 2))
                      in walk d prev (if active n then qlen + ucast (fq_len (fr_queue n)) else qlen))) = Some r"
    then show "dll_prev_p (dll_mem d) item = item \<longrightarrow> item = ACTIVE_LIST"
      by (cases "item = ACTIVE_LIST") (auto simp: dll_end_def Let_def dest: ih)
  qed
  then show ?thesis using assms by (cases "bkpq_walk d x q") auto
qed

lemma create_response_twice_hangs:
  assumes rep: "dll_rep (dll_mem d) ACTIVE_LIST [x]" and m: "dll_mem d' = dll_prepend ACTIVE_LIST x (dll_mem d)"
  shows "dhd_active_tx_flowring_bkpq_len d' = None"
proof -
  have x: "x \<noteq> ACTIVE_LIST" "next_p (dll_mem d ACTIVE_LIST) = x" "prev_p (dll_mem d ACTIVE_LIST) = x"
    using rep by (auto simp: dll_rep_def)
  then have "dll_tail_p (dll_mem d') ACTIVE_LIST = x" "dll_prev_p (dll_mem d') x = x"
    unfolding m by (simp_all add: dll_tail_p_def dll_prev_p_def dll_prepend_def dll_insert_def Let_def)
  then show ?thesis using bkpq_walk_stuck x(1) by (simp add: dhd_active_tx_flowring_bkpq_len_def)
qed

section \<open>A small device\<close>

text \<open>Four rings besides the common ones, everything succeeds; used by the concrete runs below.\<close>

definition demo_flow :: dhd_flow where
  "demo_flow = \<lparr>flow_rings_inited = False, flowid_allocator = None, htput_flowid_allocator = None, htput_support = False,
     htput_flow_ring_start = 0, htput_client_flow_rings = 0, max_tx_flowrings = 4, pcie_shared_v6 = True,
     max_submission_rings = 6, max_tx_flowid = 0, num_h2d_rings = 0, flow_ring_table = None, if_lkup = [],
     flow_prio_map_type = 0, flow_prio_map = [], dequeue_prec_map = 0, max_multi_client_flow_rings = 0,
     multi_client_flow_rings = 0, tdls_peers = [], flow_ring_queue_threshold = 2048, cumm_ctr = 0, l2cumm_ctr = 0,
     dll_mem = (\<lambda>p. \<lparr>next_p = p, prev_p = p\<rparr>), pkt_links = (\<lambda>p. 0), pkt_flowid = (\<lambda>p. 0), sent_pkts = [],
     freed_pkts = []\<rparr>"

definition demo_init :: init_env where
  "demo_init = \<lparr>id_map_ok = True, htput_map_ok = True, table_ok = True, ring_locks_ok = True, lkup_ok = True,
     flowid_lock_ok = True, list_lock_ok = True\<rparr>"

definition demo_env :: flow_env where
  "demo_env = \<lparr>dhd_is_sta_htput = (\<lambda>_ _. False), dhd_sta_associated = (\<lambda>_ _. True), malloc_ok = True,
     dhd_prot_flow_ring_create = (\<lambda>_. BCME_OK), dhd_prot_txdata = (\<lambda>_ _. BCME_OK), dhd_match_pkt_type = (\<lambda>_. False),
     ether_shost = (\<lambda>_. [2, 0, 0, 0, 0, 1]), ether_dhost = (\<lambda>_. [2, 0, 0, 0, 0, 7]), prio_map_ioctl = BCME_OK\<rparr>"

definition demo_start :: dhd_flow where
  "demo_start = snd (dhd_flow_rings_init demo_init 6 demo_flow)"

text \<open>The link comes up, a packet waits for its ring, which is opened and takes it.\<close>

definition demo_events :: "flow_event list" where
  "demo_events = [Link_event 0 1, Send demo_env 0 0 100, Create_response demo_env 5 0]"

lemma demo_setup: "flow_setup 6 demo_flow"
  by (simp add: flow_setup_def demo_flow_def dhd_get_max_flow_rings_def)

lemma demo_init_ok: "dhd_flow_rings_init demo_init 6 demo_flow = (BCME_OK, demo_start)"
proof -
  have "fst (dhd_flow_rings_init demo_init 6 demo_flow) = BCME_OK" by code_simp
  then show ?thesis unfolding demo_start_def by (metis prod.collapse)
qed

lemma demo_run:
  "map_option (\<lambda>(d, given). (chain_ids d, sent_pkts d, freed_pkts d, given)) (flow_run False demo_events demo_start []) =
     Some ([5], [(5, 100)], [], [(5, 100)])"
  by code_simp

lemma demo_reach:
  obtains d where "flow_run False demo_events demo_start [] = Some (d, [(5, 100)])" "chain_ids d = [5]"
    "sent_pkts d = [(5, 100)]" "freed_pkts d = []" "flow_reach False demo_start (d, [(5, 100)])"
proof -
  obtain d given where r: "flow_run False demo_events demo_start [] = Some (d, given)"
    using demo_run by (cases "flow_run False demo_events demo_start []") auto
  then have "chain_ids d = [5]" "sent_pkts d = [(5, 100)]" "freed_pkts d = []" "given = [(5, 100)]"
    using demo_run by auto
  then show thesis using that r flow_run_reach [OF r flow_reach.start] by simp
qed

text \<open>When the request to the device fails, the flow keeps its entry with a closed ring: its next packets are dropped
  although the device would now accept the request.\<close>

lemma create_failure_blocks_flow:
  "map_option (\<lambda>(d, given). (chain_ids d, sent_pkts d, freed_pkts d))
     (flow_run False [Link_event 0 1, Send (demo_env\<lparr>dhd_prot_flow_ring_create := (\<lambda>_. BCME_NOMEM)\<rparr>) 0 0 100,
        Send demo_env 0 0 101, Send demo_env 0 0 102] demo_start []) =
     Some ([5], [], [100, 101, 102])"
  by code_simp

text \<open>A station's high throughput ring, freed after the interface has become an access point, takes the counter of client
  rings below zero: no client gets such a ring any more.\<close>

lemma htput_counter_underflow:
  assumes "htput_flowid_allocator d \<noteq> None" "DHD_IS_FLOWID_HTPUT d i" "DHD_IF_ROLE d ifx = WLC_E_IF_ROLE_AP"
    and "htput_client_flow_rings d = 0"
  shows "htput_client_flow_rings (dhd_flowid_map_free ifx i d) = 65535"
proof -
  have "DHD_IF_ROLE_MULTI_CLIENT (d\<lparr>htput_flowid_allocator := b\<rparr>) ifx" for b
    using assms(3) by (simp add: DHD_IF_ROLE_MULTI_CLIENT_def DHD_IF_ROLE_def)
  then show ?thesis using assms by (simp add: dhd_flowid_map_free_def Let_def)
qed

section \<open>Properties\<close>

text \<open>C26: after any sequence of events every flow id from 2 to \<open>max_tx_flowid\<close> is either available or chained in the
  lookup table, never both, and chained at most once; a chained id is that of a ring whose flow is the chained one. The
  responses of the device may come in any order and number.\<close>

theorem flow_ids_partition:
  assumes s: "flow_setup n d00" and i: "dhd_flow_rings_init e n d00 = (BCME_OK, d0)"
    and r: "flow_reach front d0 (d, given)"
  shows "distinct (chain_ids d) \<and> set (chain_ids d) \<inter> flow_avail d = {} \<and>
    set (chain_ids d) \<union> flow_avail d = {i. 2 \<le> unat i \<and> unat i \<le> unat (max_tx_flowid d)} \<and>
    (\<forall>ifx < DHD_MAX_IFS. \<forall>h < DHD_FLOWRING_HASH_SIZE. \<forall>cur \<in> set (bucket d ifx h).
       fi_ifindex (node_info (node_of d (hash_flowid cur))) = ifx \<and>
       fi_tid (node_info (node_of d (hash_flowid cur))) = fi_tid (hash_info cur) \<and>
       fi_da (node_info (node_of d (hash_flowid cur))) = fi_da (hash_info cur) \<and>
       node_flowid (node_of d (hash_flowid cur)) = hash_flowid cur)"
proof -
  have inv: "flow_inv (normal_rings d00) d"
    using machine_reach [OF r rings_init_inv [OF s i]] by (simp add: machine_inv_def)
  have "set (chain_ids d) \<union> flow_avail d = {i. 2 \<le> unat i \<and> unat i \<le> unat (max_tx_flowid d)}"
    using inv flow_ids_iff [OF inv] by (auto simp: flow_inv_def)
  moreover have "node_flowid (node_of d (hash_flowid cur)) = hash_flowid cur"
    if "ifx < DHD_MAX_IFS" "h < DHD_FLOWRING_HASH_SIZE" "cur \<in> set (bucket d ifx h)" for ifx h cur
  proof -
    have "lkup_inv d" using inv by (simp add: flow_inv_def)
    then have c: "hash_flowid cur \<in> set (chain_ids d)" using bucket_in_chain that by blast
    obtain t where t: "flow_ring_table d = Some t" "\<forall>i < length t. node_flowid (t ! i) = of_nat i"
      using inv by (auto simp: flow_inv_def table_inv_def)
    then show ?thesis using chain_id_in_table(1) [OF inv c t(1)] by (simp add: node_of_def)
  qed
  ultimately show ?thesis using inv by (simp add: flow_inv_def chained_def Let_def)
qed

theorem flow_ids_partition_witness:
  "\<exists>d. flow_run False demo_events demo_start [] = Some (d, [(5, 100)]) \<and> chain_ids d = [5] \<and> 5 \<notin> flow_avail d \<and>
    insert 5 (flow_avail d) = {i. 2 \<le> unat i \<and> unat i \<le> unat (max_tx_flowid d)}"
proof -
  obtain d where d: "flow_run False demo_events demo_start [] = Some (d, [(5, 100)])" "chain_ids d = [5]"
    "flow_reach False demo_start (d, [(5, 100)])" using demo_reach by metis
  from flow_ids_partition [OF demo_setup demo_init_ok d(3)] d(1,2) show ?thesis by auto
qed

text \<open>C27: a successful lookup of a flow returns an id that the next lookup finds again: the one it found, with nothing
  changed, or a new one, of a ring opened for exactly this flow. No lookup moves a flow that has a ring. On an interface
  with clients, two unicast flows with different destination or priority never share a ring.\<close>

theorem flow_lookup_stable:
  assumes s: "flow_setup n d00" and i: "dhd_flow_rings_init e n d00 = (BCME_OK, d0)"
    and r: "flow_reach front d0 (d, given)"
    and l: "dhd_flowid_lookup env ifx prio sa da d = (ret, j, d')"
  shows "(ret = BCME_OK \<longrightarrow> j \<noteq> FLOWID_INVALID \<and> dhd_flowid_find d' ifx prio da = j \<and>
      (if dhd_flowid_find d ifx prio da = j then d' = d
       else j \<notin> set (chain_ids d) \<and> active (node_of d' j) \<and> status (node_of d' j) = FLOW_RING_STATUS_CREATE_PENDING \<and>
         node_info (node_of d' j) = \<lparr>fi_tid = prio, fi_ifindex = ifx, fi_sa = sa, fi_da = da\<rparr>)) \<and>
    (ret \<noteq> BCME_OK \<longrightarrow> j = FLOWID_INVALID) \<and>
    (\<forall>ifx2 prio2 da2. dhd_flowid_find d ifx2 prio2 da2 \<noteq> FLOWID_INVALID \<longrightarrow>
       dhd_flowid_find d' ifx2 prio2 da2 = dhd_flowid_find d ifx2 prio2 da2) \<and>
    (\<forall>prio2 da2. \<not> DHD_IF_ROLE_GENERIC_STA d ifx \<and> \<not> ETHER_ISMULTI da \<and> \<not> ETHER_ISMULTI da2 \<and>
       dhd_flowid_find d ifx prio da \<noteq> FLOWID_INVALID \<and> dhd_flowid_find d ifx prio2 da2 = dhd_flowid_find d ifx prio da
       \<longrightarrow> prio2 = prio \<and> da2 = da)"
proof -
  have inv: "flow_inv (normal_rings d00) d"
    using machine_reach [OF r rings_init_inv [OF s i]] by (simp add: machine_inv_def)
  show ?thesis
    by (rule conjI [OF _ conjI [OF _ conjI]], rule impI, erule lookup_result(1) [OF inv l], rule impI,
        erule lookup_result(2) [OF inv l], intro allI impI, erule lookup_result(3) [OF inv l], intro allI impI, elim conjE,
        rule flows_apart [OF inv], assumption+)
qed

theorem flow_lookup_stable_witness:
  "\<exists>d d'. flow_run False demo_events demo_start [] = Some (d, [(5, 100)]) \<and>
    dhd_flowid_lookup demo_env 0 1 [2, 0, 0, 0, 0, 1] [2, 0, 0, 0, 0, 7] d = (BCME_OK, 4, d') \<and>
    dhd_flowid_find d' 0 1 [2, 0, 0, 0, 0, 7] = 4 \<and> status (node_of d' 4) = FLOW_RING_STATUS_CREATE_PENDING"
proof -
  let ?l = "\<lambda>d. dhd_flowid_lookup demo_env 0 1 [2, 0, 0, 0, 0, 1] [2, 0, 0, 0, 0, 7] d"
  have c: "map_option (\<lambda>(d, given). (fst (?l d), fst (snd (?l d)), dhd_flowid_find d 0 1 [2, 0, 0, 0, 0, 7]))
      (flow_run False demo_events demo_start []) = Some (BCME_OK, 4, FLOWID_INVALID)"
    by code_simp
  obtain d where d: "flow_run False demo_events demo_start [] = Some (d, [(5, 100)])"
    "flow_reach False demo_start (d, [(5, 100)])" using demo_reach by metis
  then have "fst (?l d) = BCME_OK" "fst (snd (?l d)) = 4" and nf: "dhd_flowid_find d 0 1 [2, 0, 0, 0, 0, 7] = FLOWID_INVALID"
    using c by auto
  then obtain d' where l: "?l d = (BCME_OK, 4, d')" by (metis prod.collapse)
  have "FLOWID_INVALID \<noteq> 4" by (simp add: FLOWID_INVALID_def ID16_INVALID_def)
  then show ?thesis using flow_lookup_stable [OF demo_setup demo_init_ok d(2) l] d(1) l nf by auto
qed



end
