(* ===== verification/Pktid.thy ===== *)
theory Pktid
  imports Id_Alloc
begin

text \<open>
  The packet id maps of \<open>dhd_msgbuf.c\<close> (\<open>dhd_pktid_map_*\<close>). A message to the device names a packet by a 32 bit id; the map
  keeps what the host needs when the message comes back: the packet and its DMA mapping, in a numbered locker. Free ids are
  on a stack of keys, entry \<open>avail\<close> at its top; id 0 is never handed out. The maps are allocated with \<open>VMALLOC\<close>, which does
  not clear memory: \<open>dhd_pktid_map_init\<close> starts from arbitrary contents. The spin lock makes each operation one step. The
  error returns that raise a memory dump are the value \<open>None\<close> or \<open>False\<close>.

  The lemmas show that the map implements a partial function from ids to what was stored (\<open>pm_view\<close>): the interpretation
  \<open>pidm\<close> discharges the contract of an id allocator, and in every history an id returns exactly what was stored under it.
\<close>

section \<open>The code\<close>

datatype dhd_pkttype =
    PKTTYPE_DATA_TX | PKTTYPE_DATA_RX | PKTTYPE_IOCTL_RX | PKTTYPE_EVENT_RX | PKTTYPE_INFO_RX | PKTTYPE_NO_CHECK
  | PKTTYPE_TSBUF_RX

datatype dhd_locker_state = LOCKER_IS_FREE | LOCKER_IS_BUSY | LOCKER_IS_RSVD

record dhd_pktid_item =
  lk_state :: dhd_locker_state
  lk_dir :: u8
  lk_pkttype :: dhd_pkttype
  lk_len :: u16
  lk_pkt :: ptr
  lk_pa :: u64
  lk_dmah :: ptr
  lk_secdma :: ptr

record dhd_pktid_map =
  pm_items :: u32
  pm_avail :: u32
  pm_failures :: int
  pm_keys :: "u32 list"
  pm_lockers :: "dhd_pktid_item list"

definition DHD_PKTID_INVALID :: u32 where "DHD_PKTID_INVALID = 0"
definition DHD_PKTID_FREE_LOCKER :: bool where "DHD_PKTID_FREE_LOCKER = False"
definition DHD_PKTID_RSV_LOCKER :: bool where "DHD_PKTID_RSV_LOCKER = True"
definition DHD_INDUCE_PKTID_INVALID_SAVE :: nat where "DHD_INDUCE_PKTID_INVALID_SAVE = 10"
definition DHD_INDUCE_PKTID_INVALID_FREE :: nat where "DHD_INDUCE_PKTID_INVALID_FREE = 11"

definition empty_locker :: "dhd_locker_state \<Rightarrow> dhd_pktid_item \<Rightarrow> dhd_pktid_item" where
  "empty_locker st l = l\<lparr>lk_state := st, lk_pkt := NULL, lk_len := 0\<rparr>"

text \<open>The arguments are the block that \<open>VMALLOC\<close> returns for the map, if any, and whether the lock and the keys could be
  allocated.\<close>

definition dhd_pktid_map_init :: "dhd_pktid_map option \<Rightarrow> bool \<Rightarrow> bool \<Rightarrow> u32 \<Rightarrow> dhd_pktid_map option" where
  "dhd_pktid_map_init block lock_ok keys_ok num_items =
     (case block of
        None \<Rightarrow> None
      | Some m \<Rightarrow>
          if \<not> lock_ok \<or> \<not> keys_ok then None
          else
            Some (m\<lparr>pm_items := num_items, pm_avail := num_items,
              pm_keys := (pm_keys m ! 0) # map of_nat [1..<unat num_items + 1],
              pm_lockers := empty_locker LOCKER_IS_BUSY (pm_lockers m ! unat DHD_PKTID_INVALID)
                # map (\<lambda>nkey. empty_locker LOCKER_IS_FREE (pm_lockers m ! nkey)) [1..<unat num_items + 1]\<rparr>))"

definition zero_locker :: dhd_pktid_item where
  "zero_locker = \<lparr>lk_state = LOCKER_IS_FREE, lk_dir = 0, lk_pkttype = PKTTYPE_DATA_TX, lk_len = 0, lk_pkt = NULL, lk_pa = 0,
     lk_dmah = NULL, lk_secdma = NULL\<rparr>"

text \<open>\<open>dhd_prot_packet_free\<close>: the packets that are freed when it is called for the locker.\<close>

definition dhd_prot_packet_free :: "ptr \<Rightarrow> ptr list" where
  "dhd_prot_packet_free pkt = (if pkt \<noteq> NULL then [pkt] else [])"

text \<open>The reset returns the map, the counter of active transmissions, the lockers whose buffers are unmapped and the
  packets freed.\<close>

definition dhd_pktid_map_reset ::
    "dhd_pktid_map option \<Rightarrow> int \<Rightarrow> dhd_pktid_map option \<times> int \<times> dhd_pktid_item list \<times> ptr list" where
  "dhd_pktid_map_reset handle active_tx_count =
     (case handle of
        None \<Rightarrow> (None, active_tx_count, [], [])
      | Some m \<Rightarrow>
          (let map_items = unat (pm_items m);
               busy = filter (\<lambda>l. lk_state l = LOCKER_IS_BUSY) (map (\<lambda>nkey. pm_lockers m ! nkey) [1..<map_items + 1])
           in (Some (m\<lparr>pm_avail := pm_items m,
                 pm_keys := (pm_keys m ! 0) # map of_nat [1..<map_items + 1],
                 pm_lockers := (pm_lockers m ! 0) # replicate map_items zero_locker\<rparr>),
               active_tx_count - int (length (filter (\<lambda>l. lk_pkttype l = PKTTYPE_DATA_TX) busy)),
               busy,
               concat (map (\<lambda>l. dhd_prot_packet_free (lk_pkt l)) busy))))"

definition dhd_pktid_map_fini :: "dhd_pktid_map option \<Rightarrow> int \<Rightarrow> int \<times> dhd_pktid_item list \<times> ptr list" where
  "dhd_pktid_map_fini handle active_tx_count =
     (case dhd_pktid_map_reset handle active_tx_count of (_, n, unmapped, freed) \<Rightarrow> (n, unmapped, freed))"

definition dhd_pktid_map_avail_cnt :: "dhd_pktid_map \<Rightarrow> u32" where
  "dhd_pktid_map_avail_cnt m = pm_avail m"

definition dhd_pktid_map_reserve :: "ptr \<Rightarrow> dhd_pktid_map \<Rightarrow> u32 \<times> dhd_pktid_map" where
  "dhd_pktid_map_reserve pkt m =
     (if sint (pm_avail m) \<le> 0 then (DHD_PKTID_INVALID, m\<lparr>pm_failures := pm_failures m + 1\<rparr>)
      else
        (let nkey = pm_keys m ! unat (pm_avail m)
         in if pm_avail m > pm_items m \<or> nkey > pm_items m
            then (DHD_PKTID_INVALID, m\<lparr>pm_failures := pm_failures m + 1\<rparr>)
            else
              (let locker = (pm_lockers m ! unat nkey)\<lparr>lk_pkt := pkt, lk_len := 0, lk_state := LOCKER_IS_BUSY\<rparr>
               in (nkey, m\<lparr>pm_avail := pm_avail m - 1,
                     pm_lockers := (pm_lockers m)[unat nkey := locker]\<rparr>))))"

definition dhd_pktid_map_save ::
    "nat \<Rightarrow> ptr \<Rightarrow> u32 \<Rightarrow> u64 \<Rightarrow> u32 \<Rightarrow> u8 \<Rightarrow> ptr \<Rightarrow> ptr \<Rightarrow> dhd_pkttype \<Rightarrow> dhd_pktid_map \<Rightarrow> bool \<times> dhd_pktid_map" where
  "dhd_pktid_map_save induce pkt nkey pa len dir dmah secdma pkttype m =
     (if nkey = DHD_PKTID_INVALID \<or> nkey > pm_items m \<or> induce = DHD_INDUCE_PKTID_INVALID_SAVE then (False, m)
      else
        (True, m\<lparr>pm_lockers := (pm_lockers m)[unat nkey :=
           \<lparr>lk_state = LOCKER_IS_BUSY, lk_dir = dir, lk_pkttype = pkttype, lk_len = ucast len, lk_pkt = pkt, lk_pa = pa,
            lk_dmah = dmah, lk_secdma = secdma\<rparr>]\<rparr>))"

definition dhd_pktid_map_alloc ::
    "nat \<Rightarrow> ptr \<Rightarrow> u64 \<Rightarrow> u32 \<Rightarrow> u8 \<Rightarrow> ptr \<Rightarrow> ptr \<Rightarrow> dhd_pkttype \<Rightarrow> dhd_pktid_map \<Rightarrow> u32 \<times> dhd_pktid_map" where
  "dhd_pktid_map_alloc induce pkt pa len dir dmah secdma pkttype m =
     (case dhd_pktid_map_reserve pkt m of
        (nkey, m) \<Rightarrow>
          if nkey \<noteq> DHD_PKTID_INVALID then (nkey, snd (dhd_pktid_map_save induce pkt nkey pa len dir dmah secdma pkttype m))
          else (nkey, m))"

text \<open>The result is the locker as it was found: packet, address, length and handles are read from it.\<close>

definition dhd_pktid_map_free :: "nat \<Rightarrow> u32 \<Rightarrow> dhd_pkttype \<Rightarrow> bool \<Rightarrow> dhd_pktid_map \<Rightarrow> dhd_pktid_item option \<times> dhd_pktid_map" where
  "dhd_pktid_map_free induce nkey pkttype rsv_locker m =
     (if nkey = DHD_PKTID_INVALID \<or> nkey > pm_items m \<or> induce = DHD_INDUCE_PKTID_INVALID_FREE then (None, m)
      else
        (let locker = pm_lockers m ! unat nkey
         in if lk_state locker = LOCKER_IS_FREE then (None, m)
            else if pkttype \<noteq> PKTTYPE_NO_CHECK \<and> lk_pkttype locker \<noteq> pkttype then (None, m)
            else
              (let m' =
                 (if rsv_locker = DHD_PKTID_FREE_LOCKER then
                    m\<lparr>pm_avail := pm_avail m + 1,
                      pm_keys := (pm_keys m)[unat (pm_avail m + 1) := nkey],
                      pm_lockers := (pm_lockers m)[unat nkey := empty_locker LOCKER_IS_FREE locker]\<rparr>
                  else m\<lparr>pm_lockers := (pm_lockers m)[unat nkey := empty_locker LOCKER_IS_RSVD locker]\<rparr>)
               in (Some locker, m'))))"

section \<open>What a map represents\<close>

text \<open>The invariant of a map of \<open>n\<close> items: the keys on the stack are distinct and are exactly the ids of the free lockers.
  \<open>pm_view\<close> are the lockers in use.\<close>

definition pm_free :: "dhd_pktid_map \<Rightarrow> u32 set" where
  "pm_free m = {k. k \<noteq> 0 \<and> k \<le> pm_items m \<and> lk_state (pm_lockers m ! unat k) = LOCKER_IS_FREE}"

definition pm_stack :: "dhd_pktid_map \<Rightarrow> u32 list" where
  "pm_stack m = take (unat (pm_avail m)) (tl (pm_keys m))"

definition pm_inv :: "u32 \<Rightarrow> dhd_pktid_map \<Rightarrow> bool" where
  "pm_inv n m \<longleftrightarrow> unat n < 2 ^ 31 \<and> pm_items m = n \<and> length (pm_keys m) = unat n + 1 \<and>
     length (pm_lockers m) = unat n + 1 \<and> unat (pm_avail m) \<le> unat n \<and>
     distinct (pm_stack m) \<and> set (pm_stack m) = pm_free m"

definition pm_view :: "dhd_pktid_map \<Rightarrow> u32 \<Rightarrow> dhd_pktid_item option" where
  "pm_view m k =
     (if k \<noteq> 0 \<and> k \<le> pm_items m \<and> lk_state (pm_lockers m ! unat k) \<noteq> LOCKER_IS_FREE
      then Some (pm_lockers m ! unat k) else None)"

lemma pm_view_dom: "dom (pm_view m) = {k. k \<noteq> 0 \<and> k \<le> pm_items m} - pm_free m"
  by (auto simp: pm_view_def pm_free_def split: if_splits)

lemma pm_avail_free: "pm_inv n m \<Longrightarrow> unat (pm_avail m) = card (pm_free m)"
proof -
  assume inv: "pm_inv n m"
  then have "length (pm_stack m) = unat (pm_avail m)" by (simp add: pm_inv_def pm_stack_def)
  then show ?thesis using inv distinct_card [of "pm_stack m"] by (simp add: pm_inv_def)
qed

lemma ids_image: "unat n < 2 ^ 31 \<Longrightarrow> {j. j \<noteq> 0 \<and> j \<le> n} = of_nat ` {1..unat (n :: u32)}"
proof (intro set_eqI iffI)
  fix j :: u32 assume n: "unat n < 2 ^ 31"
  { assume "j \<in> {j. j \<noteq> 0 \<and> j \<le> n}"
    then show "j \<in> of_nat ` {1..unat n}"
      by (intro image_eqI [of _ _ "unat j"]) (auto simp: word_le_nat_alt unat_gt_0 Suc_le_eq) }
  { assume "j \<in> of_nat ` {1..unat n}"
    then show "j \<in> {j. j \<noteq> 0 \<and> j \<le> n}" using n by (auto simp: word_le_nat_alt unat_of_nat word_unat_eq_iff) }
qed

lemma card_ids: "unat n < 2 ^ 31 \<Longrightarrow> card {j. j \<noteq> 0 \<and> j \<le> (n :: u32)} = unat n"
  unfolding ids_image by (subst card_image) (auto simp: inj_on_def word_unat_eq_iff unat_of_nat)

text \<open>Ids and lockers: different ids have different lockers.\<close>

lemma locker_upd:
  assumes "pm_inv n m" "k \<noteq> 0" "k \<le> n" "j \<le> n"
  shows "(pm_lockers m)[unat k := l] ! unat j = (if j = k then l else pm_lockers m ! unat j)"
  using assms by (auto simp: pm_inv_def nth_list_update word_le_nat_alt word_unat_eq_iff)

lemma pm_upd:
  assumes "pm_inv n m" "k \<noteq> 0" "k \<le> n" and m': "pm_items m' = n" "pm_lockers m' = (pm_lockers m)[unat k := l]"
  shows "pm_free m' = (if lk_state l = LOCKER_IS_FREE then insert k (pm_free m) else pm_free m - {k})"
    and "pm_view m' = (pm_view m)(k := if lk_state l = LOCKER_IS_FREE then None else Some l)"
proof -
  note upd = locker_upd [OF assms(1-3)] and items = assms(1) [unfolded pm_inv_def, THEN conjunct2, THEN conjunct1]
  show "pm_free m' = (if lk_state l = LOCKER_IS_FREE then insert k (pm_free m) else pm_free m - {k})"
    using assms(2,3) upd by (auto simp: pm_free_def m' items split: if_splits)
  show "pm_view m' = (pm_view m)(k := if lk_state l = LOCKER_IS_FREE then None else Some l)"
    using assms(2,3) upd by (intro ext) (auto simp: pm_view_def m' items split: if_splits)
qed

lemma pm_frame [simp]:
  "pm_free (m\<lparr>pm_avail := a\<rparr>) = pm_free m" "pm_view (m\<lparr>pm_avail := a\<rparr>) = pm_view m"
  "pm_free (m\<lparr>pm_keys := ks\<rparr>) = pm_free m" "pm_view (m\<lparr>pm_keys := ks\<rparr>) = pm_view m"
  "pm_free (m\<lparr>pm_failures := f\<rparr>) = pm_free m" "pm_view (m\<lparr>pm_failures := f\<rparr>) = pm_view m"
  "pm_stack (m\<lparr>pm_lockers := ls\<rparr>) = pm_stack m" "pm_stack (m\<lparr>pm_failures := f\<rparr>) = pm_stack m"
  by (simp_all add: pm_free_def pm_view_def pm_stack_def fun_eq_iff)

lemma pm_inv_failures [simp]: "pm_inv n (m\<lparr>pm_failures := f\<rparr>) = pm_inv n m"
  by (simp add: pm_inv_def)

lemma pm_init_inv:
  assumes "unat n < 2 ^ 31" "dhd_pktid_map_init block lock_ok keys_ok n = Some m"
  shows "pm_inv n m \<and> pm_free m = {k. k \<noteq> 0 \<and> k \<le> n} \<and> pm_view m = Map.empty"
proof -
  obtain b where b: "block = Some b" and m: "m = b\<lparr>pm_items := n, pm_avail := n,
      pm_keys := (pm_keys b ! 0) # map of_nat [1..<unat n + 1],
      pm_lockers := empty_locker LOCKER_IS_BUSY (pm_lockers b ! unat DHD_PKTID_INVALID)
        # map (\<lambda>nkey. empty_locker LOCKER_IS_FREE (pm_lockers b ! nkey)) [1..<unat n + 1]\<rparr>"
    using assms(2) by (auto simp: dhd_pktid_map_init_def split: option.splits if_splits)
  have st: "pm_stack m = map of_nat [1..<unat n + 1]" by (simp add: m pm_stack_def del: upt_Suc)
  have free: "lk_state (pm_lockers m ! unat k) = LOCKER_IS_FREE" if "k \<noteq> 0" "k \<le> n" for k
  proof -
    have "unat k - 1 < unat n" using that by (simp add: word_le_nat_alt unat_gt_0 less_diff_conv2 Suc_le_eq)
    then show ?thesis using that by (simp add: m nth_Cons' unat_eq_0 empty_locker_def del: upt_Suc)
  qed
  have set: "pm_free m = {k. k \<noteq> 0 \<and> k \<le> n}" using free by (auto simp: pm_free_def m)
  have "set (pm_stack m) = {k. k \<noteq> 0 \<and> k \<le> n}" (is "?L = ?R")
  proof
    show "?L \<subseteq> ?R" using assms(1)
      by (auto simp: st word_le_nat_alt unat_of_nat word_unat_eq_iff simp del: upt_Suc)
    show "?R \<subseteq> ?L"
    proof
      fix k assume "k \<in> ?R"
      then have "unat k \<in> set [1..<unat n + 1]" by (auto simp: word_le_nat_alt unat_gt_0 Suc_le_eq simp del: upt_Suc)
      then show "k \<in> ?L" unfolding st set_map by (rule image_eqI [rotated]) simp
    qed
  qed
  moreover have "distinct (pm_stack m)" using assms(1)
    by (auto simp: st distinct_map inj_on_def of_nat_eq_iff word_unat_eq_iff unat_of_nat simp del: upt_Suc)
  ultimately have "pm_inv n m" using assms(1) set by (simp add: pm_inv_def m del: upt_Suc)
  moreover have "pm_view m = Map.empty" using free \<open>pm_inv n m\<close> by (auto simp: pm_view_def pm_inv_def fun_eq_iff)
  ultimately show ?thesis using set by simp
qed

lemma reserve_none:
  assumes "pm_inv n m" "pm_free m = {}"
  shows "dhd_pktid_map_reserve pkt m = (DHD_PKTID_INVALID, m\<lparr>pm_failures := pm_failures m + 1\<rparr>)"
proof -
  have "unat (pm_avail m) = 0" using pm_avail_free [OF assms(1)] assms(2) by simp
  then show ?thesis by (simp add: dhd_pktid_map_reserve_def sint_small)
qed

lemma reserve_some:
  assumes inv: "pm_inv n m" and ne: "pm_free m \<noteq> {}"
  shows "\<exists>k m'. dhd_pktid_map_reserve pkt m = (k, m') \<and> k \<in> pm_free m \<and> pm_inv n m' \<and> pm_free m' = pm_free m - {k} \<and>
    pm_view m' = (pm_view m)(k \<mapsto> (pm_lockers m ! unat k)\<lparr>lk_pkt := pkt, lk_len := 0, lk_state := LOCKER_IS_BUSY\<rparr>)"
proof -
  define a where "a = unat (pm_avail m)"
  have a: "0 < a" "a \<le> unat n" "unat n < 2 ^ 31" "length (pm_keys m) = unat n + 1" "pm_items m = n"
    using pm_avail_free [OF inv] ne inv by (auto simp: a_def pm_inv_def card_gt_0_iff)
  define k where "k = pm_keys m ! a"
  have st: "pm_stack m = take (a - 1) (tl (pm_keys m)) @ [k]"
    using a take_Suc_conv_app_nth [of "a - 1" "tl (pm_keys m)"] by (simp add: pm_stack_def k_def a_def [symmetric] nth_tl)
  then have k: "k \<in> pm_free m" using inv by (auto simp: pm_inv_def)
  then have k': "k \<noteq> 0" "k \<le> n" using a(5) by (auto simp: pm_free_def)
  let ?l = "(pm_lockers m ! unat k)\<lparr>lk_pkt := pkt, lk_len := 0, lk_state := LOCKER_IS_BUSY\<rparr>"
  let ?m = "m\<lparr>pm_avail := pm_avail m - 1, pm_lockers := (pm_lockers m)[unat k := ?l]\<rparr>"
  have r: "dhd_pktid_map_reserve pkt m = (k, ?m)"
    using a k' by (simp add: dhd_pktid_map_reserve_def sint_small a_def [symmetric] k_def [symmetric] word_less_nat_alt word_le_nat_alt Let_def)
  have av: "unat (pm_avail m - 1) = a - 1" using a(1) unat_minus_one [of "pm_avail m"] unfolding a_def by fastforce
  have fr: "pm_free ?m = pm_free m - {k}" using pm_upd(1) [OF inv k', of ?m ?l] a(5) by simp
  have "pm_stack ?m = take (a - 1) (tl (pm_keys m))" by (simp add: pm_stack_def av)
  then have "distinct (pm_stack ?m)" "set (pm_stack ?m) = pm_free m - {k}" using inv st by (auto simp: pm_inv_def)
  then have "pm_inv n ?m" using inv a fr av by (simp add: pm_inv_def)
  moreover have "pm_view ?m = (pm_view m)(k \<mapsto> ?l)" using pm_upd(2) [OF inv k', of ?m ?l] a(5) by simp
  ultimately show ?thesis using r k fr by blast
qed

text \<open>Storing into a locker in use keeps the stack.\<close>

lemma store_inv:
  assumes inv: "pm_inv n m" and k: "pm_view m k = Some l0" and st: "lk_state l \<noteq> LOCKER_IS_FREE"
  shows "pm_inv n (m\<lparr>pm_lockers := (pm_lockers m)[unat k := l]\<rparr>)"
    and "pm_free (m\<lparr>pm_lockers := (pm_lockers m)[unat k := l]\<rparr>) = pm_free m"
    and "pm_view (m\<lparr>pm_lockers := (pm_lockers m)[unat k := l]\<rparr>) = (pm_view m)(k \<mapsto> l)"
proof -
  let ?m = "m\<lparr>pm_lockers := (pm_lockers m)[unat k := l]\<rparr>"
  have k': "k \<noteq> 0" "k \<le> n" "k \<notin> pm_free m" "pm_items m = n" using inv k
    by (auto simp: pm_view_def pm_inv_def pm_free_def split: if_splits)
  note upd = pm_upd [OF inv k'(1,2), of ?m l]
  show "pm_free ?m = pm_free m" using upd(1) k'(3,4) st by simp
  then show "pm_inv n ?m" using inv by (simp add: pm_inv_def)
  show "pm_view ?m = (pm_view m)(k \<mapsto> l)" using upd(2) k'(4) st by simp
qed

lemma free_spec:
  assumes inv: "pm_inv n m" and ind: "induce \<noteq> DHD_INDUCE_PKTID_INVALID_FREE"
  shows "dhd_pktid_map_free induce k ty rsv m =
    (case pm_view m k of
       None \<Rightarrow> (None, m)
     | Some l \<Rightarrow>
         if ty \<noteq> PKTTYPE_NO_CHECK \<and> lk_pkttype l \<noteq> ty then (None, m)
         else (Some l, if rsv then m\<lparr>pm_lockers := (pm_lockers m)[unat k := empty_locker LOCKER_IS_RSVD l]\<rparr>
           else m\<lparr>pm_avail := pm_avail m + 1, pm_keys := (pm_keys m)[unat (pm_avail m + 1) := k],
                  pm_lockers := (pm_lockers m)[unat k := empty_locker LOCKER_IS_FREE l]\<rparr>))"
  using ind by (auto simp: dhd_pktid_map_free_def pm_view_def DHD_PKTID_INVALID_def DHD_PKTID_FREE_LOCKER_def Let_def not_le)

lemma free_release:
  assumes inv: "pm_inv n m" and ind: "induce \<noteq> DHD_INDUCE_PKTID_INVALID_FREE" and k: "pm_view m k = Some l"
    and ty: "ty = PKTTYPE_NO_CHECK \<or> lk_pkttype l = ty"
  shows "\<exists>m'. dhd_pktid_map_free induce k ty DHD_PKTID_FREE_LOCKER m = (Some l, m') \<and> pm_inv n m' \<and>
    pm_free m' = insert k (pm_free m) \<and> pm_view m' = (pm_view m)(k := None)"
proof -
  let ?m = "m\<lparr>pm_avail := pm_avail m + 1, pm_keys := (pm_keys m)[unat (pm_avail m + 1) := k],
              pm_lockers := (pm_lockers m)[unat k := empty_locker LOCKER_IS_FREE l]\<rparr>"
  define a where "a = unat (pm_avail m)"
  have k': "k \<noteq> 0" "k \<le> n" "k \<notin> pm_free m" "pm_items m = n" using inv k
    by (auto simp: pm_view_def pm_inv_def pm_free_def split: if_splits)
  have eq: "dhd_pktid_map_free induce k ty DHD_PKTID_FREE_LOCKER m = (Some l, ?m)"
    using free_spec [OF inv ind, of k ty DHD_PKTID_FREE_LOCKER] k ty by (auto simp: DHD_PKTID_FREE_LOCKER_def)
  have upd: "pm_free ?m = insert k (pm_free m)" "pm_view ?m = (pm_view m)(k := None)"
    using pm_upd [OF inv k'(1,2), of ?m "empty_locker LOCKER_IS_FREE l"] k'(4) by (simp_all add: empty_locker_def)
  have "pm_free m \<subset> {j. j \<noteq> 0 \<and> j \<le> n}" using k' by (auto simp: pm_free_def)
  then have "card (pm_free m) < card {j. j \<noteq> 0 \<and> j \<le> n}" by (rule psubset_card_mono [rotated]) simp
  also have "\<dots> = unat n" using inv by (simp add: card_ids pm_inv_def)
  finally have a: "a < unat n" "unat n < 2 ^ 31" using pm_avail_free [OF inv] inv by (auto simp: a_def pm_inv_def)
  then have av: "unat (pm_avail m + 1) = a + 1" by (simp add: a_def unat_word_ariths)
  have len: "length (pm_keys m) = unat n + 1" using inv by (simp add: pm_inv_def)
  have "pm_stack ?m = take (a + 1) (tl ((pm_keys m)[a + 1 := k]))" by (simp add: pm_stack_def av)
  also have "\<dots> = pm_stack m @ [k]"
    using a len by (cases "pm_keys m") (auto simp: pm_stack_def a_def take_Suc_conv_app_nth)
  finally have "distinct (pm_stack ?m)" "set (pm_stack ?m) = insert k (pm_free m)"
    using inv k'(3) by (auto simp: pm_inv_def)
  then have "pm_inv n ?m" using inv a av upd by (simp add: pm_inv_def)
  then show ?thesis using eq upd by blast
qed

lemma reserve_view:
  assumes inv: "pm_inv n m" and r: "dhd_pktid_map_reserve pkt m = (k, m')"
  shows "pm_inv n m' \<and> (k = 0 \<longleftrightarrow> pm_free m = {}) \<and> (k = 0 \<longrightarrow> m' = m\<lparr>pm_failures := pm_failures m + 1\<rparr>) \<and>
    (k \<noteq> 0 \<longrightarrow> k \<le> n \<and> pm_view m k = None \<and> (\<exists>l. pm_view m' = (pm_view m)(k \<mapsto> l)) \<and> pm_free m' = pm_free m - {k})"
proof (cases "pm_free m = {}")
  case True
  then show ?thesis using reserve_none [OF inv, of pkt] r inv by (auto simp: DHD_PKTID_INVALID_def)
next
  case False
  moreover have "k \<noteq> 0 \<and> k \<le> n \<and> pm_view m k = None" if "k \<in> pm_free m" for k
    using that inv by (auto simp: pm_free_def pm_view_def pm_inv_def)
  ultimately show ?thesis using reserve_some [OF inv False, of pkt] r by fastforce
qed

lemma alloc_view:
  assumes inv: "pm_inv n m" and ind: "induce \<noteq> DHD_INDUCE_PKTID_INVALID_SAVE"
    and a: "dhd_pktid_map_alloc induce pkt pa len dir dmah secdma ty m = (k, m')"
  shows "pm_inv n m' \<and> (k = 0 \<longleftrightarrow> pm_free m = {}) \<and> (k = 0 \<longrightarrow> pm_view m' = pm_view m) \<and>
    (k \<noteq> 0 \<longrightarrow> k \<le> n \<and> pm_view m k = None \<and> pm_free m' = pm_free m - {k} \<and>
      pm_view m' = (pm_view m)(k \<mapsto> \<lparr>lk_state = LOCKER_IS_BUSY, lk_dir = dir, lk_pkttype = ty, lk_len = ucast len,
        lk_pkt = pkt, lk_pa = pa, lk_dmah = dmah, lk_secdma = secdma\<rparr>))"
proof -
  obtain m1 where r: "dhd_pktid_map_reserve pkt m = (k, m1)"
    using a by (auto simp: dhd_pktid_map_alloc_def split: prod.splits if_splits)
  note rv = reserve_view [OF inv r]
  show ?thesis
  proof (cases "k = 0")
    case True
    then show ?thesis using a r rv inv by (auto simp: dhd_pktid_map_alloc_def DHD_PKTID_INVALID_def)
  next
    case False
    let ?l = "\<lparr>lk_state = LOCKER_IS_BUSY, lk_dir = dir, lk_pkttype = ty, lk_len = ucast len, lk_pkt = pkt, lk_pa = pa,
      lk_dmah = dmah, lk_secdma = secdma\<rparr>"
    from False rv obtain l where l: "pm_view m1 = (pm_view m)(k \<mapsto> l)" "k \<le> n" "pm_inv n m1" by blast
    then have "m' = m1\<lparr>pm_lockers := (pm_lockers m1)[unat k := ?l]\<rparr>"
      using a r False ind by (auto simp: dhd_pktid_map_alloc_def dhd_pktid_map_save_def DHD_PKTID_INVALID_def pm_inv_def)
    then show ?thesis using store_inv [OF l(3), of k l ?l] l rv False by simp
  qed
qed

lemma reset_view:
  assumes inv: "pm_inv n m" and r: "dhd_pktid_map_reset (Some m) act = (Some m', act', unmapped, freed)"
  shows "pm_inv n m' \<and> pm_view m' = Map.empty \<and>
    unmapped = filter (\<lambda>l. lk_state l = LOCKER_IS_BUSY) (List.map_filter (pm_view m) (map of_nat [1..<unat n + 1]))"
proof -
  have n: "pm_items m = n" "unat n < 2 ^ 31" "length (pm_lockers m) = unat n + 1" using inv by (auto simp: pm_inv_def)
  have m': "m' = m\<lparr>pm_avail := n, pm_keys := (pm_keys m ! 0) # map of_nat [1..<unat n + 1],
      pm_lockers := (pm_lockers m ! 0) # replicate (unat n) zero_locker\<rparr>"
    and u: "unmapped = filter (\<lambda>l. lk_state l = LOCKER_IS_BUSY) (map (\<lambda>k. pm_lockers m ! k) [1..<unat n + 1])"
    using r n by (auto simp: dhd_pktid_map_reset_def Let_def simp del: upt_Suc)
  let ?b = "m\<lparr>pm_lockers := pm_lockers m ! 0 # replicate (unat n) zero_locker\<rparr>"
  have free: "lk_state (pm_lockers m' ! unat k) = LOCKER_IS_FREE" if "k \<noteq> 0" "k \<le> n" for k
  proof -
    have "unat k - 1 < unat n" using that by (simp add: word_le_nat_alt unat_gt_0 less_diff_conv2 Suc_le_eq)
    then show ?thesis using that by (simp add: m' nth_Cons' unat_eq_0 zero_locker_def)
  qed
  have st: "pm_stack m' = map of_nat [1..<unat n + 1]" by (simp add: m' pm_stack_def del: upt_Suc)
  have "set (pm_stack m') = {k. k \<noteq> 0 \<and> k \<le> n}" unfolding st ids_image [OF n(2)] set_map set_upt
    by (simp add: atLeastLessThanSuc_atLeastAtMost)
  moreover have "pm_free m' = {k. k \<noteq> 0 \<and> k \<le> n}" using free n by (auto simp: pm_free_def m')
  moreover have "distinct (pm_stack m')" using n(2)
    by (auto simp: st distinct_map inj_on_def word_unat_eq_iff unat_of_nat simp del: upt_Suc)
  ultimately have "pm_inv n m'" using n by (simp add: pm_inv_def m' del: upt_Suc)
  moreover have "pm_view m' = Map.empty" using free n by (auto simp: pm_view_def m' fun_eq_iff)
  moreover have "filter (\<lambda>l. lk_state l = LOCKER_IS_BUSY) (map (\<lambda>k. pm_lockers m ! k) ks) =
      filter (\<lambda>l. lk_state l = LOCKER_IS_BUSY) (List.map_filter (pm_view m) (map of_nat ks))"
    if "set ks \<subseteq> {1..unat n}" for ks
    using that
  proof (induction ks)
    case (Cons k ks)
    then have "(of_nat k :: u32) \<noteq> 0" "(of_nat k :: u32) \<le> n" "unat (of_nat k :: u32) = k"
      using n(2) by (auto simp: word_le_nat_alt unat_of_nat word_unat_eq_iff)
    then show ?case using Cons n(1) by (auto simp: pm_view_def List.map_filter_simps)
  qed simp
  ultimately show ?thesis using u by (simp add: atLeastLessThanSuc_atLeastAtMost del: upt_Suc)
qed

interpretation pidm: id_allocator "pm_inv n" pm_free "{k. k \<noteq> 0 \<and> k \<le> n}" "dhd_pktid_map_reserve pkt"
    "\<lambda>k m. snd (dhd_pktid_map_free 0 k PKTTYPE_NO_CHECK DHD_PKTID_FREE_LOCKER m)" DHD_PKTID_INVALID for n pkt
proof
  fix m assume inv: "pm_inv n m"
  show "pm_free m \<subseteq> {k. k \<noteq> 0 \<and> k \<le> n}" using inv by (auto simp: pm_free_def pm_inv_def)
  show "DHD_PKTID_INVALID \<notin> {k. k \<noteq> 0 \<and> k \<le> n}" by (simp add: DHD_PKTID_INVALID_def)
  show "\<exists>i s'. dhd_pktid_map_reserve pkt m = (i, s') \<and> i \<in> pm_free m \<and> pm_inv n s' \<and> pm_free s' = pm_free m - {i}"
    if "pm_free m \<noteq> {}" using reserve_some [OF inv that, of pkt] by blast
  show "\<exists>s'. dhd_pktid_map_reserve pkt m = (DHD_PKTID_INVALID, s') \<and> pm_inv n s' \<and> pm_free s' = {}"
    if "pm_free m = {}" using reserve_none [OF inv that, of pkt] inv that by simp
next
  fix m i assume inv: "pm_inv n m" and i: "i \<in> {k. k \<noteq> 0 \<and> k \<le> n}" "i \<notin> pm_free m"
  then obtain l where "pm_view m i = Some l" by (auto simp: pm_free_def pm_view_def pm_inv_def)
  from free_release [OF inv _ this, of 0 PKTTYPE_NO_CHECK] obtain m' where
      "dhd_pktid_map_free 0 i PKTTYPE_NO_CHECK DHD_PKTID_FREE_LOCKER m = (Some l, m')" "pm_inv n m'"
      "pm_free m' = insert i (pm_free m)"
    by (auto simp: DHD_INDUCE_PKTID_INVALID_FREE_def)
  then show "pm_inv n (snd (dhd_pktid_map_free 0 i PKTTYPE_NO_CHECK DHD_PKTID_FREE_LOCKER m)) \<and>
    pm_free (snd (dhd_pktid_map_free 0 i PKTTYPE_NO_CHECK DHD_PKTID_FREE_LOCKER m)) = insert i (pm_free m)"
    by simp
qed

section \<open>Histories\<close>

text \<open>What a client does with a map, and the table of what it has stored and not taken back: an allocation stores, a release
  takes back or keeps the id reserved, a reserved id is stored to again, a reset clears the table.\<close>

inductive pktid_reach :: "dhd_pktid_map \<Rightarrow> dhd_pktid_map \<times> (u32 \<Rightarrow> dhd_pktid_item option) \<Rightarrow> bool" for m0 where
  start: "pktid_reach m0 (m0, Map.empty)"
| alloc: "pktid_reach m0 (m, held) \<Longrightarrow> dhd_pktid_map_alloc 0 pkt pa len dir dmah secdma ty m = (k, m') \<Longrightarrow>
    pktid_reach m0 (m', if k = DHD_PKTID_INVALID then held
      else held(k \<mapsto> \<lparr>lk_state = LOCKER_IS_BUSY, lk_dir = dir, lk_pkttype = ty, lk_len = ucast len, lk_pkt = pkt, lk_pa = pa,
             lk_dmah = dmah, lk_secdma = secdma\<rparr>))"
| free: "pktid_reach m0 (m, held) \<Longrightarrow> dhd_pktid_map_free 0 k ty DHD_PKTID_FREE_LOCKER m = (r, m') \<Longrightarrow>
    pktid_reach m0 (m', if r = None then held else held(k := None))"
| keep: "pktid_reach m0 (m, held) \<Longrightarrow> dhd_pktid_map_free 0 k ty DHD_PKTID_RSV_LOCKER m = (r, m') \<Longrightarrow>
    pktid_reach m0 (m', if r = None then held else held(k := map_option (empty_locker LOCKER_IS_RSVD) (held k)))"
| save: "pktid_reach m0 (m, held) \<Longrightarrow> k \<in> dom held \<Longrightarrow>
    dhd_pktid_map_save 0 pkt k pa len dir dmah secdma ty m = (r, m') \<Longrightarrow>
    pktid_reach m0 (m', held(k \<mapsto> \<lparr>lk_state = LOCKER_IS_BUSY, lk_dir = dir, lk_pkttype = ty, lk_len = ucast len,
      lk_pkt = pkt, lk_pa = pa, lk_dmah = dmah, lk_secdma = secdma\<rparr>))"
| reset: "pktid_reach m0 (m, held) \<Longrightarrow> dhd_pktid_map_reset (Some m) act = (Some m', act', unmapped, freed) \<Longrightarrow>
    pktid_reach m0 (m', Map.empty)"

lemma pktid_reach_inv:
  assumes "pktid_reach m0 (m, held)" "pm_inv n m0" "pm_view m0 = Map.empty"
  shows "pm_inv n m \<and> pm_view m = held"
  using assms
proof (induction "(m, held)" arbitrary: m held rule: pktid_reach.induct)
  case start
  then show ?case by simp
next
  case (alloc m held pkt pa len dir dmah secdma ty k m')
  then show ?case using alloc_view [of n m 0 pkt pa len dir dmah secdma ty k m']
    by (auto simp: DHD_PKTID_INVALID_def DHD_INDUCE_PKTID_INVALID_SAVE_def)
next
  case (free m held k ty r m')
  then have IH: "pm_inv n m" "pm_view m = held" by auto
  show ?case
  proof (cases r)
    case None
    then show ?thesis using free.hyps(3) IH free_spec [OF IH(1), of 0 k ty DHD_PKTID_FREE_LOCKER]
      by (auto simp: DHD_INDUCE_PKTID_INVALID_FREE_def split: option.splits if_splits)
  next
    case (Some l)
    then have "pm_view m k = Some l" "ty = PKTTYPE_NO_CHECK \<or> lk_pkttype l = ty"
      using free.hyps(3) free_spec [OF IH(1), of 0 k ty DHD_PKTID_FREE_LOCKER]
      by (auto simp: DHD_INDUCE_PKTID_INVALID_FREE_def split: option.splits if_splits)
    from free_release [OF IH(1) _ this, of 0] Some free.hyps(3) IH show ?thesis
      by (auto simp: DHD_INDUCE_PKTID_INVALID_FREE_def)
  qed
next
  case (keep m held k ty r m')
  then have IH: "pm_inv n m" "pm_view m = held" by auto
  have eq: "dhd_pktid_map_free 0 k ty DHD_PKTID_RSV_LOCKER m = (r, m')" using keep by simp
  show ?case
  proof (cases r)
    case None
    then show ?thesis using eq IH free_spec [OF IH(1), of 0 k ty DHD_PKTID_RSV_LOCKER]
      by (auto simp: DHD_INDUCE_PKTID_INVALID_FREE_def split: option.splits if_splits)
  next
    case (Some l)
    then have v: "pm_view m k = Some l" and m': "m' = m\<lparr>pm_lockers := (pm_lockers m)[unat k := empty_locker LOCKER_IS_RSVD l]\<rparr>"
      using eq free_spec [OF IH(1), of 0 k ty DHD_PKTID_RSV_LOCKER]
      by (auto simp: DHD_INDUCE_PKTID_INVALID_FREE_def DHD_PKTID_RSV_LOCKER_def split: option.splits if_splits)
    show ?thesis using store_inv [OF IH(1) v, of "empty_locker LOCKER_IS_RSVD l"] v IH(2) Some
      by (auto simp: m' empty_locker_def)
  qed
next
  case (save m held k pkt pa len dir dmah secdma ty r m')
  then have IH: "pm_inv n m" "pm_view m = held" by auto
  from save.hyps(3) IH(2) obtain l where l: "pm_view m k = Some l" by auto
  then have "k \<noteq> 0" "k \<le> pm_items m" by (auto simp: pm_view_def split: if_splits)
  then have "m' = m\<lparr>pm_lockers := (pm_lockers m)[unat k := \<lparr>lk_state = LOCKER_IS_BUSY, lk_dir = dir, lk_pkttype = ty,
      lk_len = ucast len, lk_pkt = pkt, lk_pa = pa, lk_dmah = dmah, lk_secdma = secdma\<rparr>]\<rparr>"
    using save.hyps(4) by (auto simp: dhd_pktid_map_save_def DHD_PKTID_INVALID_def DHD_INDUCE_PKTID_INVALID_SAVE_def split: if_splits)
  then show ?case using store_inv [OF IH(1) l] IH(2) by simp
next
  case (reset m held act m' act' unmapped freed)
  then show ?case using reset_view [of n m act m' act' unmapped freed] by auto
qed


text \<open>A map of three items: a packet is stored and found again.\<close>

definition ex_map :: dhd_pktid_map where
  "ex_map = \<lparr>pm_items = 0, pm_avail = 0, pm_failures = 0, pm_keys = replicate 4 0, pm_lockers = replicate 4 zero_locker\<rparr>"

definition ex_map0 :: dhd_pktid_map where "ex_map0 = the (dhd_pktid_map_init (Some ex_map) True True 3)"

definition ex_alloc :: "u32 \<times> dhd_pktid_map" where
  "ex_alloc = dhd_pktid_map_alloc 0 7 4096 100 1 NULL NULL PKTTYPE_DATA_TX ex_map0"

definition ex_locker :: dhd_pktid_item where
  "ex_locker = \<lparr>lk_state = LOCKER_IS_BUSY, lk_dir = 1, lk_pkttype = PKTTYPE_DATA_TX, lk_len = ucast (100 :: u32), lk_pkt = 7,
     lk_pa = 4096, lk_dmah = NULL, lk_secdma = NULL\<rparr>"

lemma ex_alloc_id: "fst ex_alloc = 3"
  by code_simp

lemma ex_alloc_reach: "pktid_reach ex_map0 (snd ex_alloc, [3 \<mapsto> ex_locker])"
proof -
  have "dhd_pktid_map_alloc 0 7 4096 100 1 NULL NULL PKTTYPE_DATA_TX ex_map0 = (3, snd ex_alloc)"
    using ex_alloc_id by (metis ex_alloc_def prod.collapse)
  from pktid_reach.alloc [OF pktid_reach.start this] show ?thesis by (simp add: DHD_PKTID_INVALID_def ex_locker_def)
qed


end
