(* ===== verification/Prot_Tx.thy ===== *)
theory Prot_Tx
  imports Pktid Msg_Ring
begin

text \<open>
  The data path to the device of \<open>dhd_msgbuf.c\<close>: \<open>dhd_prot_txdata\<close> gives a packet an id, a slot of the message ring of its
  flow and a DMA mapping, and fills the descriptor; \<open>dhd_prot_txdata_write_flush\<close> publishes the descriptors;
  \<open>dhd_prot_txstatus_process\<close> takes the id of a completed packet back, unmaps and frees it.

  The packet buffers are three functions: start of the buffer, data pointer and length. \<open>dma_maps\<close> are the mappings made and
  not undone, \<open>freed\<close> the packets freed by completions. The network queue is a flag. Fault injection (\<open>dhd_induce_error\<close>) is
  off. Time stamps, packet logging and wake locks are left out.
\<close>

record host_txbuf_post =
  tp_msg_type :: u8
  tp_if_id :: u8
  tp_cmn_flags :: u8
  tp_request_id :: u32
  tp_txhdr :: "u8 list"
  tp_flags :: u8
  tp_seg_cnt :: u8
  tp_metadata_buf_addr :: u64
  tp_data_buf_addr :: u64
  tp_metadata_buf_len :: u16
  tp_data_len :: u16
  tp_ext_flags :: u8

record dhd_prot =
  pktid_tx_map :: dhd_pktid_map
  h2d_flowrings_pool :: "host_txbuf_post msgbuf_ring list"
  active_tx_count :: int
  txp_threshold :: u16
  pktid_depleted_cnt :: u32
  pktid_txq_stop_cnt :: u8
  tx_metadata_offset :: u16
  no_tx_resource :: bool
  tx_h2d_db_cnt :: u64
  txq_stopped :: bool
  pkt_head :: "ptr \<Rightarrow> nat"
  pkt_data :: "ptr \<Rightarrow> nat"
  pkt_len :: "ptr \<Rightarrow> nat"
  dma_maps :: "(u64 \<times> nat) list"
  freed :: "ptr list"

text \<open>What the path asks of the rest of the driver and of the system: the bytes of packet buffers, the tags of a packet, the
  mapping function (0 when it fails) and the capabilities.\<close>

record tx_env =
  have_flow_ring_table :: bool
  te_max_tx_flowrings :: u16
  fr_phase_nibble :: bool
  host_sfhllc_supported :: bool
  PKTBYTE :: "nat \<Rightarrow> u8"
  PKT_FLOWID :: "ptr \<Rightarrow> u16"
  PKTPRIO :: "ptr \<Rightarrow> u8"
  pkt_is_igmp :: "ptr \<Rightarrow> bool"
  DMA_MAP :: "nat \<Rightarrow> nat \<Rightarrow> u8 \<Rightarrow> u64"

definition MSG_TYPE_TX_POST :: u8 where "MSG_TYPE_TX_POST = 0xF"
definition BCMPCIE_PKT_FLAGS_FRAME_802_3 :: u8 where "BCMPCIE_PKT_FLAGS_FRAME_802_3 = 0x01"
definition BCMPCIE_PKT_FLAGS_IGMP :: u8 where "BCMPCIE_PKT_FLAGS_IGMP = 0x10"
definition BCMPCIE_PKT_FLAGS_PRIO_SHIFT :: nat where "BCMPCIE_PKT_FLAGS_PRIO_SHIFT = 5"
definition ETHER_HDR_LEN :: nat where "ETHER_HDR_LEN = 14"
definition DMA_TX :: u8 where "DMA_TX = 1"
definition DMA_RX :: u8 where "DMA_RX = 2"
definition DHD_PKTID_MIN_AVAIL_COUNT :: u32 where "DHD_PKTID_MIN_AVAIL_COUNT = 512"
definition DHD_PKTID_DEPLETED_MAX_COUNT :: u32 where "DHD_PKTID_DEPLETED_MAX_COUNT = DHD_PKTID_MIN_AVAIL_COUNT * 2"

definition DHD_FLOWRINGS_POOL_OFFSET :: "u16 \<Rightarrow> nat" where
  "DHD_FLOWRINGS_POOL_OFFSET flowid = unat flowid - 2"

definition PKTPULL :: "ptr \<Rightarrow> nat \<Rightarrow> dhd_prot \<Rightarrow> dhd_prot" where
  "PKTPULL p n prot =
     prot\<lparr>pkt_data := (pkt_data prot)(p := pkt_data prot p + n), pkt_len := (pkt_len prot)(p := pkt_len prot p - n)\<rparr>"

definition PKTPUSH :: "ptr \<Rightarrow> nat \<Rightarrow> dhd_prot \<Rightarrow> dhd_prot" where
  "PKTPUSH p n prot =
     prot\<lparr>pkt_data := (pkt_data prot)(p := pkt_data prot p - n), pkt_len := (pkt_len prot)(p := pkt_len prot p + n)\<rparr>"

definition PKTHEADROOM :: "ptr \<Rightarrow> dhd_prot \<Rightarrow> nat" where
  "PKTHEADROOM p prot = pkt_data prot p - pkt_head prot p"

definition dhd_bus_stop_queue :: "dhd_prot \<Rightarrow> dhd_prot" where
  "dhd_bus_stop_queue prot = prot\<lparr>txq_stopped := True\<rparr>"

definition dhd_prot_check_tx_resource :: "dhd_prot \<Rightarrow> bool" where
  "dhd_prot_check_tx_resource prot = no_tx_resource prot"

definition dhd_bus_start_queue :: "dhd_prot \<Rightarrow> dhd_prot" where
  "dhd_bus_start_queue prot = (if dhd_prot_check_tx_resource prot then prot else prot\<lparr>txq_stopped := False\<rparr>)"

definition set_ring :: "nat \<Rightarrow> host_txbuf_post msgbuf_ring \<Rightarrow> dhd_prot \<Rightarrow> dhd_prot" where
  "set_ring ix ring prot = prot\<lparr>h2d_flowrings_pool := (h2d_flowrings_pool prot)[ix := ring]\<rparr>"

definition write_flush_ring :: "host_txbuf_post msgbuf_ring \<Rightarrow> host_txbuf_post msgbuf_ring" where
  "write_flush_ring ring =
     (dhd_prot_ring_write_complete (mr_start_addr ring) (mr_pend_items_count ring) ring)
       \<lparr>mr_pend_items_count := 0, mr_start_addr := NULL\<rparr>"

definition dhd_prot_txdata_write_flush :: "tx_env \<Rightarrow> u16 \<Rightarrow> dhd_prot \<Rightarrow> dhd_prot" where
  "dhd_prot_txdata_write_flush env flowid prot =
     (if \<not> have_flow_ring_table env then prot
      else
        (let ix = DHD_FLOWRINGS_POOL_OFFSET flowid; ring = h2d_flowrings_pool prot ! ix
         in if mr_pend_items_count ring \<noteq> 0
            then (set_ring ix (write_flush_ring ring) prot)\<lparr>tx_h2d_db_cnt := tx_h2d_db_cnt prot + 1\<rparr>
            else prot))"

text \<open>The error exit \<open>err_rollback_idx\<close>, and the one below it that gives the id back.\<close>

definition rollback_idx :: "'a msgbuf_ring \<Rightarrow> 'a msgbuf_ring" where
  "rollback_idx ring =
     (if mr_wr ring = 0 then ring\<lparr>mr_wr := mr_max_items ring - 1\<rparr>
      else
        (let ring = ring\<lparr>mr_wr := mr_wr ring - 1\<rparr>
         in if mr_wr ring = 0
            then ring\<lparr>mr_current_phase := if mr_current_phase ring \<noteq> 0 then 0 else BCMPCIE_CMNHDR_PHASE_BIT_INIT\<rparr>
            else ring))"

definition err_free_pktid :: "u32 \<Rightarrow> dhd_prot \<Rightarrow> bcme \<times> dhd_prot" where
  "err_free_pktid pktid prot =
     (BCME_NORESOURCE,
      prot\<lparr>pktid_tx_map := snd (dhd_pktid_map_free 0 pktid PKTTYPE_NO_CHECK DHD_PKTID_FREE_LOCKER (pktid_tx_map prot))\<rparr>)"

text \<open>The descriptor as far as it is filled in when the data buffer is mapped, and the rest.\<close>

definition desc_header :: "tx_env \<Rightarrow> nat \<Rightarrow> host_txbuf_post \<Rightarrow> host_txbuf_post" where
  "desc_header env data txdesc =
     txdesc\<lparr>tp_flags := 0, tp_txhdr := map (PKTBYTE env) [data..<data + ETHER_HDR_LEN]\<rparr>"

definition desc_body :: "tx_env \<Rightarrow> ptr \<Rightarrow> u8 \<Rightarrow> u8 \<Rightarrow> u64 \<Rightarrow> u32 \<Rightarrow> host_txbuf_post \<Rightarrow> host_txbuf_post" where
  "desc_body env pktbuf ifidx phase pa pktlen txdesc =
     txdesc\<lparr>tp_msg_type := MSG_TYPE_TX_POST, tp_if_id := ifidx, tp_cmn_flags := phase,
       tp_flags := tp_flags txdesc OR BCMPCIE_PKT_FLAGS_FRAME_802_3
                     OR push_bit BCMPCIE_PKT_FLAGS_PRIO_SHIFT (PKTPRIO env pktbuf AND 0x7),
       tp_seg_cnt := 1, tp_data_len := ucast pktlen, tp_data_buf_addr := pa,
       tp_ext_flags := (if pkt_is_igmp env pktbuf then BCMPCIE_PKT_FLAGS_IGMP else 0)\<rparr>"

text \<open>The slot of the packet is written, the ring's count of unpublished items goes up, and the ring is flushed when the
  count reaches the threshold or the slot is the last one.\<close>

definition post_item :: "u16 \<Rightarrow> ptr \<Rightarrow> host_txbuf_post \<Rightarrow> host_txbuf_post msgbuf_ring \<Rightarrow> bool \<times> host_txbuf_post msgbuf_ring" where
  "post_item threshold txdesc item ring =
     (let ring = put_item txdesc item ring
      in if mr_pend_items_count ring = threshold \<or> txdesc = DHD_RING_END_VA ring
         then (if mr_pend_items_count ring \<noteq> 0 then (True, write_flush_ring ring) else (False, ring))
         else (False, ring))"

definition count_pending :: "ptr \<Rightarrow> 'a msgbuf_ring \<Rightarrow> 'a msgbuf_ring" where
  "count_pending txdesc ring =
     (let ring = (if mr_pend_items_count ring = 0 then ring\<lparr>mr_start_addr := txdesc\<rparr> else ring)
      in ring\<lparr>mr_pend_items_count := mr_pend_items_count ring + 1\<rparr>)"

definition txdata_post :: "tx_env \<Rightarrow> ptr \<Rightarrow> u8 \<Rightarrow> nat \<Rightarrow> u32 \<Rightarrow> ptr \<Rightarrow> u64 \<Rightarrow> u32 \<Rightarrow> host_txbuf_post msgbuf_ring \<Rightarrow> dhd_prot \<Rightarrow> bcme \<times> dhd_prot" where
  "txdata_post env pktbuf ifidx ix pktid txdesc pa pktlen ring prot =
     (let prot = prot\<lparr>dma_maps := (pa, unat pktlen) # dma_maps prot,
            pktid_tx_map := snd (dhd_pktid_map_save 0 pktbuf pktid pa pktlen DMA_TX NULL NULL PKTTYPE_DATA_TX (pktid_tx_map prot))\<rparr>;
          ring = count_pending txdesc ring;
          item = desc_body env pktbuf ifidx (mr_current_phase ring) pa pktlen (mr_items ring ! slot_of ring txdesc);
          prot = (if \<not> host_sfhllc_supported env then PKTPUSH pktbuf ETHER_HDR_LEN prot else prot);
          headroom = (of_nat (PKTHEADROOM pktbuf prot) :: u16);
          offset = tx_metadata_offset prot
      in if offset \<noteq> 0 \<and> headroom \<ge> offset then
           (let prot = PKTPUSH pktbuf (unat offset) prot;
                meta_pa = DMA_MAP env (pkt_data prot pktbuf) (unat offset) DMA_RX
            in if meta_pa = 0 then
                 (let prot = prot\<lparr>dma_maps := remove1 (pa, unat pktlen) (dma_maps prot)\<rparr>;
                      ring = (put_item txdesc item ring)\<lparr>mr_pend_items_count := mr_pend_items_count ring - 1\<rparr>
                  in err_free_pktid pktid (set_ring ix (rollback_idx ring) prot))
               else
                 (let prot = (PKTPULL pktbuf (unat offset) prot)\<lparr>dma_maps := (meta_pa, unat offset) # dma_maps prot\<rparr>;
                      item = item\<lparr>tp_metadata_buf_len := offset, tp_metadata_buf_addr := meta_pa, tp_request_id := pktid\<rparr>
                  in case post_item (txp_threshold prot) txdesc item ring of
                       (flushed, ring) \<Rightarrow>
                         (BCME_OK, (set_ring ix ring prot)\<lparr>active_tx_count := active_tx_count prot + 1,
                            tx_h2d_db_cnt := tx_h2d_db_cnt prot + (if flushed then 1 else 0)\<rparr>)))
         else
           (let item = item\<lparr>tp_metadata_buf_len := 0, tp_metadata_buf_addr := 0, tp_request_id := pktid\<rparr>
            in case post_item (txp_threshold prot) txdesc item ring of
                 (flushed, ring) \<Rightarrow>
                   (BCME_OK, (set_ring ix ring prot)\<lparr>active_tx_count := active_tx_count prot + 1,
                      tx_h2d_db_cnt := tx_h2d_db_cnt prot + (if flushed then 1 else 0)\<rparr>)))"

definition dhd_prot_txdata :: "tx_env \<Rightarrow> u16 \<Rightarrow> ptr \<Rightarrow> u8 \<Rightarrow> dhd_prot \<Rightarrow> bcme \<times> dhd_prot" where
  "dhd_prot_txdata env dev_rd pktbuf ifidx prot =
     (if \<not> have_flow_ring_table env then (BCME_NORESOURCE, prot)
      else if dhd_pktid_map_avail_cnt (pktid_tx_map prot) = 0 then
        (let prot = (if pktid_depleted_cnt prot = DHD_PKTID_DEPLETED_MAX_COUNT
                     then (dhd_bus_stop_queue (prot\<lparr>pktid_txq_stop_cnt := pktid_txq_stop_cnt prot + 1\<rparr>))\<lparr>no_tx_resource := True\<rparr>
                     else prot)
         in (BCME_NORESOURCE, prot\<lparr>pktid_depleted_cnt := pktid_depleted_cnt prot + 1\<rparr>))
      else
        (let prot = prot\<lparr>pktid_depleted_cnt := 0\<rparr>;
             ix = DHD_FLOWRINGS_POOL_OFFSET (PKT_FLOWID env pktbuf);
             ring = h2d_flowrings_pool prot ! ix
         in case dhd_pktid_map_reserve pktbuf (pktid_tx_map prot) of
              (pktid, m) \<Rightarrow>
                (let prot = prot\<lparr>pktid_tx_map := m\<rparr>
                 in if pktid = DHD_PKTID_INVALID then (BCME_NORESOURCE, prot)
                    else
                      (case dhd_prot_alloc_ring_space (te_max_tx_flowrings env) (fr_phase_nibble env) dev_rd 1 0 False ring of
                         (txdesc, _, ring) \<Rightarrow>
                           if txdesc = NULL then err_free_pktid pktid (set_ring ix ring prot)
                           else
                             (let ring = put_item txdesc
                                    (desc_header env (pkt_data prot pktbuf) (mr_items ring ! slot_of ring txdesc)) ring;
                                  pktlen = of_nat (pkt_len prot pktbuf) - of_nat ETHER_HDR_LEN;
                                  prot = PKTPULL pktbuf ETHER_HDR_LEN prot;
                                  pa = DMA_MAP env (pkt_data prot pktbuf) (unat pktlen) DMA_TX
                              in if pa = 0 then err_free_pktid pktid (set_ring ix (rollback_idx ring) prot)
                                 else txdata_post env pktbuf ifidx ix pktid txdesc pa pktlen ring prot)))))"

text \<open>A completion message of the device for the id \<open>pktid\<close>.\<close>

definition dhd_prot_txstatus_process :: "u32 \<Rightarrow> dhd_prot \<Rightarrow> dhd_prot" where
  "dhd_prot_txstatus_process pktid prot =
     (let prot = prot\<lparr>active_tx_count := active_tx_count prot - 1\<rparr>
      in case dhd_pktid_map_free 0 pktid PKTTYPE_DATA_TX DHD_PKTID_FREE_LOCKER (pktid_tx_map prot) of
           (None, m) \<Rightarrow> prot\<lparr>pktid_tx_map := m\<rparr>
         | (Some locker, m) \<Rightarrow>
             (let prot = prot\<lparr>pktid_tx_map := m\<rparr>
              in if lk_pkt locker = NULL then prot
                 else
                   (let prot = (if dhd_pktid_map_avail_cnt m = DHD_PKTID_MIN_AVAIL_COUNT
                                then dhd_bus_start_queue (prot\<lparr>pktid_txq_stop_cnt := pktid_txq_stop_cnt prot - 1,
                                       no_tx_resource := False\<rparr>)
                                else prot)
                    in prot\<lparr>dma_maps := remove1 (lk_pa locker, unat (lk_len locker)) (dma_maps prot),
                         freed := freed prot @ [lk_pkt locker]\<rparr>)))"

definition dhd_prot_txp_threshold :: "bool \<Rightarrow> u32 \<Rightarrow> dhd_prot \<Rightarrow> u32 \<times> dhd_prot" where
  "dhd_prot_txp_threshold is_set val prot =
     (let prot = (if is_set then prot\<lparr>txp_threshold := ucast val\<rparr> else prot) in (ucast (txp_threshold prot), prot))"

end
