(* ===== verification/Msg_Ring_Rep.thy ===== *)
theory Msg_Ring_Rep
  imports Msg_Ring
begin

text \<open>
  The 16 bit indices of a message ring to the device against counters that do not wrap: how many items were put into the ring,
  published, taken by the device, and seen to be taken by the host. An allocation of one item gives the next slot, never one
  that the device has not taken, and fails only when the ring is full; the phase flips at the start of each lap.
\<close>

section \<open>Index arithmetic\<close>

lemma index_gap:
  fixes R :: nat
  assumes "R \<le> P" "P < R + d"
  shows "P - R = (if R mod d \<le> P mod d then P mod d - R mod d else d + P mod d - R mod d)"
proof -
  obtain k where k: "P = R + k" "k < d" using assms by (metis le_add_diff_inverse nat_add_left_cancel_less)
  have r: "R mod d < d" using k by simp
  have p: "P mod d = (R mod d + k) mod d" by (simp add: k mod_add_left_eq)
  show ?thesis
  proof (cases "R mod d + k < d")
    case True
    then show ?thesis using p k by simp
  next
    case False
    then have "(R mod d + k) mod d = (R mod d + k - d) mod d" by (simp add: le_mod_geq)
    also have "\<dots> = R mod d + k - d" using False r k by (intro mod_less) linarith
    finally have "P mod d = R mod d + k - d" using p by simp
    then show ?thesis using False r k by (simp split: if_split) linarith
  qed
qed

lemma space_val:
  assumes "0 \<le> x" "x < 65536"
  shows "unat (ucast (word_of_int x :: u32) :: u16) = nat x"
  using assms by (simp add: unsigned_ucast_eq unat_eq_nat_uint uint_word_of_int take_bit_int_eq_self nat_less_iff)

lemma write_space:
  assumes d: "unat d = D" "2 \<le> D" and w: "unat w = P mod D" and r: "unat r = R mod D" and PR: "R \<le> P" "P < R + D"
  shows "unat (ucast (CHECK_WRITE_SPACE r w d) :: u16) \<le> R + D - 1 - P"
    and "P mod D + unat (ucast (CHECK_WRITE_SPACE r w d) :: u16) \<le> D"
    and "(ucast (CHECK_WRITE_SPACE r w d) :: u16) = 0 \<longleftrightarrow> P = R + D - 1"
proof -
  have D: "D < 65536" using d by auto
  have m: "P mod D < D" "R mod D < D" using d by simp_all
  note gap = index_gap [OF PR]
  have i: "uint r = int (R mod D)" "uint w = int (P mod D)" "uint d = int D"
    using d w r by (metis of_nat_unat)+
  have v: "unat (ucast (CHECK_WRITE_SPACE r w d) :: u16) =
      (if P mod D < R mod D then R mod D - P mod D - 1
       else if R mod D = 0 \<or> P mod D = 0 then D - P mod D - 1 else D - P mod D)"
  proof -
    consider "P mod D < R mod D" | "\<not> P mod D < R mod D" "R mod D = 0 \<or> P mod D = 0"
      | "\<not> P mod D < R mod D" "\<not> (R mod D = 0 \<or> P mod D = 0)" by metis
    then show ?thesis
    proof cases
      case 1
      then have "r > w" using w r by (simp add: word_less_nat_alt)
      moreover have "unat (ucast (word_of_int (uint r - uint w - 1) :: u32) :: u16) = nat (int (R mod D) - int (P mod D) - 1)"
        unfolding i by (rule space_val) (use 1 m D in linarith)+
      ultimately show ?thesis using 1 by (simp add: CHECK_WRITE_SPACE_def nat_diff_distrib')
    next
      case 2
      then have "\<not> r > w" "r = 0 \<or> w = 0" using w r by (auto simp: word_less_nat_alt word_unat_eq_iff)
      moreover have "unat (ucast (word_of_int (uint d - uint w - 1) :: u32) :: u16) = nat (int D - int (P mod D) - 1)"
        unfolding i by (rule space_val) (use 2 m D in linarith)+
      ultimately show ?thesis using 2 by (auto simp: CHECK_WRITE_SPACE_def)
    next
      case 3
      then have "\<not> r > w" "\<not> (r = 0 \<or> w = 0)" using w r by (auto simp: word_less_nat_alt word_unat_eq_iff)
      moreover have "unat (ucast (word_of_int (uint d - uint w) :: u32) :: u16) = nat (int D - int (P mod D))"
        unfolding i by (rule space_val) (use 3 m D in linarith)+
      ultimately show ?thesis using 3 by (auto simp: CHECK_WRITE_SPACE_def)
    qed
  qed
  define a b where "a = P mod D" and "b = R mod D"
  note [folded a_def b_def] = v gap m
  note ab = this
  show "unat (ucast (CHECK_WRITE_SPACE r w d) :: u16) \<le> R + D - 1 - P" unfolding ab(1) using ab(2-) PR by (auto split: if_splits)
  show "P mod D + unat (ucast (CHECK_WRITE_SPACE r w d) :: u16) \<le> D"
    unfolding ab(1) a_def [symmetric] using ab(3,4) by auto
  have "(ucast (CHECK_WRITE_SPACE r w d) :: u16) = 0 \<longleftrightarrow> unat (ucast (CHECK_WRITE_SPACE r w d) :: u16) = 0"
    by (simp add: unat_eq_0)
  then show "(ucast (CHECK_WRITE_SPACE r w d) :: u16) = 0 \<longleftrightarrow> P = R + D - 1"
    unfolding ab(1) using ab(2-) PR d by (auto split: if_splits)
qed

section \<open>Counters\<close>

text \<open>\<open>h2d_rep ring posted S V R\<close>: the items \<open>posted\<close> have been put into a ring to the device since it was fetched; of these
  the first \<open>S\<close> are published, the device has taken the first \<open>V\<close> and the host knows of \<open>R\<close>. The indices of the ring are
  these counters modulo its size; the items that the device has not taken are in their slots; those published are flushed;
  the unpublished ones are consecutive slots from \<open>start_addr\<close> on, before the end of the buffer.\<close>

definition phase_at :: "nat \<Rightarrow> nat \<Rightarrow> u8" where
  "phase_at d P = (if P = 0 \<or> odd ((P - 1) div d) then 0 else BCMPCIE_CMNHDR_PHASE_BIT_INIT)"

definition h2d_rep :: "'a msgbuf_ring \<Rightarrow> 'a list \<Rightarrow> nat \<Rightarrow> nat \<Rightarrow> nat \<Rightarrow> bool" where
  "h2d_rep ring posted S V R \<longleftrightarrow>
     (let d = unat (mr_max_items ring); P = length posted
      in 2 \<le> d \<and> length (mr_items ring) = d \<and> mr_va ring \<noteq> NULL \<and> 0 < unat (mr_item_len ring) \<and>
         R \<le> V \<and> V \<le> S \<and> S \<le> P \<and> P < R + d \<and>
         unat (mr_wr ring) = P mod d \<and> unat (mr_rd ring) = R mod d \<and> unat (mr_shared_wr ring) = S mod d \<and>
         (\<forall>i. V \<le> i \<and> i < P \<longrightarrow> mr_items ring ! (i mod d) = posted ! i) \<and>
         (\<forall>i. V \<le> i \<and> i < S \<longrightarrow> i mod d \<notin> set (mr_dirty ring)) \<and>
         unat (mr_pend_items_count ring) = P - S \<and>
         (S < P \<longrightarrow> S mod d + (P - S) < d \<and> mr_start_addr ring = mr_va ring + S mod d * unat (mr_item_len ring)) \<and>
         mr_current_phase ring = phase_at d P)"

lemma mod_distinct:
  fixes i :: nat
  assumes "i mod d = j mod d" "i < j + d" "j < i + d"
  shows "i = j"
proof (cases "i \<le> j")
  case True
  then show ?thesis using index_gap [of i j d] assms by auto
next
  case False
  then show ?thesis using index_gap [of j i d] assms by auto
qed

lemma slot_of_index [simp]:
  "0 < unat (mr_item_len ring) \<Longrightarrow> slot_of ring (mr_va ring + i * unat (mr_item_len ring)) = i"
  by (simp add: slot_of_def)

lemma phase_step:
  assumes "2 \<le> d"
  shows "(if P mod d = 0 then flip_phase False (phase_at d P) else phase_at d P) = phase_at d (P + 1)"
proof (cases "P = 0")
  case True
  then show ?thesis by (simp add: phase_at_def flip_phase_def)
next
  case False
  then obtain p where p: "P = Suc p" by (cases P) auto
  have "Suc p div d = (if Suc p mod d = 0 then Suc (p div d) else p div d)" by (simp add: div_Suc)
  then show ?thesis using False p by (auto simp: phase_at_def flip_phase_def BCMPCIE_CMNHDR_PHASE_BIT_INIT_def)
qed

lemma mod_step:
  assumes "2 \<le> (d :: nat)"
  shows "(P + 1) mod d = (if P mod d + 1 = d then 0 else P mod d + 1)"
  using assms mod_Suc [of P d] by simp

text \<open>One item is allocated.\<close>

lemma get_space_one:
  assumes d: "unat (mr_max_items ring) = d" "2 \<le> d" and w: "unat (mr_wr ring) = P mod d" and r: "unat (mr_rd ring) = R mod d"
    and PR: "R \<le> P" "P < R + d" and va: "mr_va ring \<noteq> NULL"
  shows "dhd_prot_get_ring_space 1 al False ring =
    (if P = R + d - 1 then (NULL, al, ring)
     else (mr_va ring + P mod d * unat (mr_item_len ring), 1, ring\<lparr>mr_wr := of_nat ((P + 1) mod d)\<rparr>))"
proof -
  note sp = write_space [OF d w r PR]
  let ?a = "ucast (CHECK_WRITE_SPACE (mr_rd ring) (mr_wr ring) (mr_max_items ring)) :: u16"
  show ?thesis
  proof (cases "P = R + d - 1")
    case True
    then show ?thesis using sp(3) by (simp add: dhd_prot_get_ring_space_def)
  next
    case False
    then have a: "?a \<noteq> 0" using sp(3) by simp
    then have one: "min 1 ?a = 1" by (simp add: min_def word_le_nat_alt unat_gt_0 Suc_le_eq)
    have le: "P mod d + 1 \<le> d" using d by (simp add: Suc_le_eq)
    have "of_nat (P mod d + 1) = mr_wr ring + 1" using w by (simp add: of_nat_unat flip: w)
    then show ?thesis using False a one le w d(1) mod_step [OF d(2), of P]
      by (auto simp: dhd_prot_get_ring_space_def Let_def)
  qed
qed

definition allocated :: "'a msgbuf_ring \<Rightarrow> nat \<Rightarrow> nat \<Rightarrow> u16 \<Rightarrow> 'a msgbuf_ring" where
  "allocated ring d P r =
     ring\<lparr>mr_rd := r, mr_wr := of_nat ((P + 1) mod d), mr_current_phase := phase_at d (P + 1)\<rparr>"

lemma alloc_one:
  assumes rep: "h2d_rep ring posted S V R" and drd: "unat dev_rd = V mod unat (mr_max_items ring)"
    and a: "dhd_prot_alloc_ring_space maxfr False dev_rd 1 al False ring = (p, al', ring')"
  shows "if length posted + 1 = V + unat (mr_max_items ring)
    then p = NULL \<and> ring' = ring\<lparr>mr_rd := dev_rd\<rparr>
    else \<exists>r R'. p = mr_va ring + length posted mod unat (mr_max_items ring) * unat (mr_item_len ring) \<and>
      ring' = allocated ring (unat (mr_max_items ring)) (length posted) r \<and> (R' = R \<or> R' = V) \<and>
      unat r = R' mod unat (mr_max_items ring) \<and> length posted + 1 < R' + unat (mr_max_items ring)"
proof -
  define d P where "d = unat (mr_max_items ring)" and "P = length posted"
  have h: "2 \<le> d" "mr_va ring \<noteq> NULL" "0 < unat (mr_item_len ring)" "R \<le> V" "V \<le> P" "P < R + d"
      "unat (mr_wr ring) = P mod d" "unat (mr_rd ring) = R mod d" "mr_current_phase ring = phase_at d P"
    using rep by (auto simp: h2d_rep_def Let_def d_def P_def)
  have g1: "dhd_prot_get_ring_space 1 al False ring =
      (if P = R + d - 1 then (NULL, al, ring)
       else (mr_va ring + P mod d * unat (mr_item_len ring), 1, ring\<lparr>mr_wr := of_nat ((P + 1) mod d)\<rparr>))"
    using get_space_one [of ring d P R al] h d_def by simp
  have g2: "dhd_prot_get_ring_space 1 al False (ring\<lparr>mr_rd := dev_rd\<rparr>) =
      (if P = V + d - 1 then (NULL, al, ring\<lparr>mr_rd := dev_rd\<rparr>)
       else (mr_va ring + P mod d * unat (mr_item_len ring), 1, ring\<lparr>mr_rd := dev_rd, mr_wr := of_nat ((P + 1) mod d)\<rparr>))"
    using get_space_one [of "ring\<lparr>mr_rd := dev_rd\<rparr>" d P V al] h drd d_def by simp
  have base: "mr_va ring + P mod d * unat (mr_item_len ring) = mr_va ring \<longleftrightarrow> P mod d = 0" using h(3) by simp
  note ph = phase_step [OF h(1), of P]
  show ?thesis unfolding d_def [symmetric] P_def [symmetric]
  proof (cases "P = R + d - 1")
    case True
    show "if P + 1 = V + d then p = NULL \<and> ring' = ring\<lparr>mr_rd := dev_rd\<rparr>
      else \<exists>r R'. p = mr_va ring + P mod d * unat (mr_item_len ring) \<and> ring' = allocated ring d P r \<and>
        (R' = R \<or> R' = V) \<and> unat r = R' mod d \<and> P + 1 < R' + d"
    proof (cases "P + 1 = V + d")
      case True
      then show ?thesis using a g1 g2 \<open>P = R + d - 1\<close> h by (auto simp: dhd_prot_alloc_ring_space_def split: if_splits)
    next
      case False
      then have "p = mr_va ring + P mod d * unat (mr_item_len ring) \<and> ring' = allocated ring d P dev_rd \<and> P + 1 < V + d"
        using a g1 g2 \<open>P = R + d - 1\<close> h base ph
        by (auto simp: dhd_prot_alloc_ring_space_def allocated_def split: if_splits)
      then show ?thesis using False drd d_def by auto
    qed
  next
    case False
    then have "P + 1 \<noteq> V + d" "P + 1 < R + d" using h by auto
    moreover have "p = mr_va ring + P mod d * unat (mr_item_len ring) \<and> ring' = allocated ring d P (mr_rd ring)"
      using a g1 False h base ph by (auto simp: dhd_prot_alloc_ring_space_def allocated_def split: if_splits)
    ultimately show "if P + 1 = V + d then p = NULL \<and> ring' = ring\<lparr>mr_rd := dev_rd\<rparr>
      else \<exists>r R'. p = mr_va ring + P mod d * unat (mr_item_len ring) \<and> ring' = allocated ring d P r \<and>
        (R' = R \<or> R' = V) \<and> unat r = R' mod d \<and> P + 1 < R' + d" using h(8) by auto
  qed
qed

lemma run_mod: "(S :: nat) \<le> i \<Longrightarrow> S mod d + (i - S) < d \<Longrightarrow> i mod d = S mod d + (i - S)"
  by (metis le_add_diff_inverse mod_add_left_eq mod_less)

lemma repD:
  assumes "h2d_rep ring posted S V R"
  defines "d \<equiv> unat (mr_max_items ring)"
  shows "2 \<le> d" "length (mr_items ring) = d" "mr_va ring \<noteq> NULL" "0 < unat (mr_item_len ring)"
    "R \<le> V" "V \<le> S" "S \<le> length posted" "length posted < R + d"
    "unat (mr_wr ring) = length posted mod d" "unat (mr_rd ring) = R mod d" "unat (mr_shared_wr ring) = S mod d"
    "\<And>i. V \<le> i \<Longrightarrow> i < length posted \<Longrightarrow> mr_items ring ! (i mod d) = posted ! i"
    "\<And>i. V \<le> i \<Longrightarrow> i < S \<Longrightarrow> i mod d \<notin> set (mr_dirty ring)"
    "unat (mr_pend_items_count ring) = length posted - S"
    "S < length posted \<Longrightarrow> S mod d + (length posted - S) < d"
    "S < length posted \<Longrightarrow> mr_start_addr ring = mr_va ring + S mod d * unat (mr_item_len ring)"
    "mr_current_phase ring = phase_at d (length posted)"
  using assms(1) unfolding h2d_rep_def Let_def d_def by blast+

lemma repI:
  assumes "unat (mr_max_items ring) = d" "length posted = P"
    "2 \<le> d" "length (mr_items ring) = d" "mr_va ring \<noteq> NULL" "0 < unat (mr_item_len ring)"
    "R \<le> V" "V \<le> S" "S \<le> P" "P < R + d"
    "unat (mr_wr ring) = P mod d" "unat (mr_rd ring) = R mod d" "unat (mr_shared_wr ring) = S mod d"
    "\<And>i. V \<le> i \<Longrightarrow> i < P \<Longrightarrow> mr_items ring ! (i mod d) = posted ! i"
    "\<And>i. V \<le> i \<Longrightarrow> i < S \<Longrightarrow> i mod d \<notin> set (mr_dirty ring)"
    "unat (mr_pend_items_count ring) = P - S"
    "S < P \<Longrightarrow> S mod d + (P - S) < d"
    "S < P \<Longrightarrow> mr_start_addr ring = mr_va ring + S mod d * unat (mr_item_len ring)"
    "mr_current_phase ring = phase_at d P"
  shows "h2d_rep ring posted S V R"
  unfolding h2d_rep_def Let_def assms(1,2) using assms(3-) by blast

end
