(* ===== verification/Prot_Tx_Rep.thy ===== *)
theory Prot_Tx_Rep
  imports Prot_Tx Msg_Ring_Rep
begin

text \<open>
  What one operation of the data path does to the counters of its ring and to the map of packet ids: publishing, posting an
  item, taking an allocation back, a fetch by the device; and one call of \<open>dhd_prot_txdata\<close> as a whole (\<open>txdata_step\<close>), its
  three error exits included.
\<close>

section \<open>Rings\<close>

lemma flush_fields [simp]:
  "mr_max_items (write_flush_ring ring) = mr_max_items ring" "mr_items (write_flush_ring ring) = mr_items ring"
  "mr_va (write_flush_ring ring) = mr_va ring" "mr_item_len (write_flush_ring ring) = mr_item_len ring"
  "mr_wr (write_flush_ring ring) = mr_wr ring" "mr_rd (write_flush_ring ring) = mr_rd ring"
  "mr_shared_wr (write_flush_ring ring) = mr_wr ring" "mr_pend_items_count (write_flush_ring ring) = 0"
  "mr_current_phase (write_flush_ring ring) = mr_current_phase ring"
  "set (mr_dirty (write_flush_ring ring)) = set (mr_dirty ring) -
     {slot_of ring (mr_start_addr ring)..<slot_of ring (mr_start_addr ring) + unat (mr_pend_items_count ring)}"
  by (auto simp: write_flush_ring_def dhd_prot_ring_write_complete_def)

lemma pending_slots:
  assumes rep: "h2d_rep ring posted S V R" and i: "S \<le> i" "i < length posted"
  shows "i mod unat (mr_max_items ring) = S mod unat (mr_max_items ring) + (i - S)"
  using repD(15) [OF rep] i by (intro run_mod) linarith+

text \<open>Publishing.\<close>

lemma write_flush_rep:
  assumes rep: "h2d_rep ring posted S V R" and pend: "mr_pend_items_count ring \<noteq> 0"
  shows "h2d_rep (write_flush_ring ring) posted (length posted) V R"
proof -
  define d P where "d = unat (mr_max_items ring)" and "P = length posted"
  note h = repD [OF rep, folded d_def P_def]
  have SP: "S < P" using pend h(7,14) unat_eq_0 [of "mr_pend_items_count ring"] by linarith
  have slot: "slot_of ring (mr_start_addr ring) = S mod d" unfolding h(16) [OF SP] using h(4) by simp
  have "i mod d \<notin> set (mr_dirty (write_flush_ring ring))" if "V \<le> i" "i < P" for i
  proof (cases "i < S")
    case True
    then show ?thesis using h(13) that by simp
  next
    case False
    then have "i mod d = S mod d + (i - S)" using that by (intro pending_slots [OF rep, folded d_def P_def]) simp_all
    then show ?thesis using slot h(14) False that by simp linarith
  qed
  then show ?thesis unfolding P_def [symmetric] using h(1-12,17) by (intro repI [of _ d _ P]) (simp_all add: d_def P_def)
qed

text \<open>A new item: the slot after the last one holds none that the device has not taken.\<close>

lemma next_slot_free:
  assumes rep: "h2d_rep ring posted S V R" and R': "R' \<le> V" and sp: "length posted + 1 < R' + unat (mr_max_items ring)"
    and i: "V \<le> i" "i < length posted"
  shows "i mod unat (mr_max_items ring) \<noteq> length posted mod unat (mr_max_items ring)"
  using mod_distinct [of i "unat (mr_max_items ring)" "length posted"] assms by auto

lemma pending_count:
  assumes rep: "h2d_rep ring posted S V R"
  shows "unat (mr_pend_items_count ring + 1) = length posted + 1 - S"
    and "S mod unat (mr_max_items ring) + (length posted - S) = length posted mod unat (mr_max_items ring)"
proof -
  note h = repD [OF rep]
  have "length posted - S < unat (mr_max_items ring)" using h(15) h(7) h(1) by (cases "S < length posted") auto
  then have "length posted - S + 1 < 65536" using unat_u16_less [of "mr_max_items ring"] by linarith
  then show "unat (mr_pend_items_count ring + 1) = length posted + 1 - S" using h(14) h(7) by (simp add: unat_word_ariths)
  show "S mod unat (mr_max_items ring) + (length posted - S) = length posted mod unat (mr_max_items ring)"
    using h(15) h(7) run_mod [of S "length posted" "unat (mr_max_items ring)"] by (cases "S < length posted") auto
qed

text \<open>The item is in its slot and counted, not yet published.\<close>

lemma posted_ring:
  fixes hdr item :: host_txbuf_post
  assumes rep: "h2d_rep ring posted S V R" and R': "R \<le> R'" "R' \<le> V"
    and r: "unat r = R' mod unat (mr_max_items ring)" and sp: "length posted + 1 < R' + unat (mr_max_items ring)"
    and p: "p = mr_va ring + length posted mod unat (mr_max_items ring) * unat (mr_item_len ring)"
  defines "d \<equiv> unat (mr_max_items ring)" and "P \<equiv> length posted"
  defines "ring1 \<equiv> put_item p item (count_pending p (put_item p hdr (allocated ring d P r)))"
  shows "mr_max_items ring1 = mr_max_items ring" "length (mr_items ring1) = d" "mr_va ring1 = mr_va ring"
    "mr_item_len ring1 = mr_item_len ring" "mr_current_phase ring1 = phase_at d (P + 1)"
    "unat (mr_wr ring1) = (P + 1) mod d" "unat (mr_rd ring1) = R' mod d" "unat (mr_shared_wr ring1) = S mod d"
    "\<And>i. V \<le> i \<Longrightarrow> i < P + 1 \<Longrightarrow> mr_items ring1 ! (i mod d) = (posted @ [item]) ! i"
    "\<And>i. V \<le> i \<Longrightarrow> i < S \<Longrightarrow> i mod d \<notin> set (mr_dirty ring1)"
    "unat (mr_pend_items_count ring1) = P + 1 - S" "mr_start_addr ring1 = mr_va ring + S mod d * unat (mr_item_len ring)"
    "p = DHD_RING_END_VA ring1 \<longleftrightarrow> P mod d = d - 1"
proof -
  note h = repD [OF rep, folded d_def P_def] and ne = next_slot_free [OF rep R'(2) sp, folded d_def P_def]
  have slot: "slot_of x p = P mod d" if "mr_va x = mr_va ring" "mr_item_len x = mr_item_len ring" for x :: "host_txbuf_post msgbuf_ring"
    using p h(4) that by (simp add: slot_of_def d_def P_def)
  have slot': "P mod d < d" using h(1) by simp
  have f: "mr_items ring1 = (mr_items ring)[P mod d := item]" "set (mr_dirty ring1) = insert (P mod d) (set (mr_dirty ring))"
      "mr_wr ring1 = of_nat ((P + 1) mod d)" "mr_pend_items_count ring1 = mr_pend_items_count ring + 1"
      "mr_start_addr ring1 = (if mr_pend_items_count ring = 0 then p else mr_start_addr ring)"
    by (simp_all add: ring1_def put_item_def count_pending_def allocated_def slot Let_def)
  show g: "mr_max_items ring1 = mr_max_items ring" "length (mr_items ring1) = d" "mr_va ring1 = mr_va ring"
      "mr_item_len ring1 = mr_item_len ring" "mr_current_phase ring1 = phase_at d (P + 1)"
      "unat (mr_rd ring1) = R' mod d" "unat (mr_shared_wr ring1) = S mod d"
    using h(2,11) r by (simp_all add: ring1_def put_item_def count_pending_def allocated_def Let_def d_def P_def)
  show "unat (mr_wr ring1) = (P + 1) mod d" unfolding f
    by (rule unat_of_nat_u16) (rule less_trans [OF mod_less_divisor unat_u16_less [of "mr_max_items ring", folded d_def]], use h(1) in simp)
  show "mr_items ring1 ! (i mod d) = (posted @ [item]) ! i" if "V \<le> i" "i < P + 1" for i
    using that ne [of i] h(2,12) slot' by (cases "i = P") (auto simp: f nth_append P_def)
  show "i mod d \<notin> set (mr_dirty ring1)" if "V \<le> i" "i < S" for i using that ne [of i] h(7,13) by (auto simp: f)
  show "unat (mr_pend_items_count ring1) = P + 1 - S" unfolding f using pending_count(1) [OF rep] by (simp add: P_def)
  show "mr_start_addr ring1 = mr_va ring + S mod d * unat (mr_item_len ring)"
    using h(14,16) h(7) p by (cases "S = P") (auto simp: f unat_eq_0 [symmetric] d_def P_def)
  show "p = DHD_RING_END_VA ring1 \<longleftrightarrow> P mod d = d - 1" using p h(4) by (simp add: DHD_RING_END_VA_def g d_def P_def)
qed

lemma post_rep:
  assumes rep: "h2d_rep ring posted S V R" and R': "R \<le> R'" "R' \<le> V"
    and r: "unat r = R' mod unat (mr_max_items ring)" and sp: "length posted + 1 < R' + unat (mr_max_items ring)"
    and p: "p = mr_va ring + length posted mod unat (mr_max_items ring) * unat (mr_item_len ring)"
    and q: "post_item th p item (count_pending p (put_item p hdr (allocated ring (unat (mr_max_items ring)) (length posted) r)))
      = (fl, ring')"
  shows "h2d_rep ring' (posted @ [item]) (if fl then length posted + 1 else S) V R'"
proof -
  define d P where "d = unat (mr_max_items ring)" and "P = length posted"
  define ring1 where "ring1 = put_item p item (count_pending p (put_item p hdr (allocated ring d P r)))"
  note h = repD [OF rep, folded d_def P_def]
  note g = posted_ring [OF rep R' r sp p, where item = item and hdr = hdr, folded d_def P_def, folded ring1_def]
  have run: "S mod d + (P - S) = P mod d" using pending_count(2) [OF rep] by (simp add: d_def P_def)
  have slot': "P mod d < d" using h(1) by simp
  have sp': "P + 1 < R' + d" using sp by (simp add: d_def P_def)
  have mx: "unat (mr_max_items ring1) = d" "length (posted @ [item]) = P + 1" using g(1) by (simp_all add: d_def P_def)
  have pnz: "mr_pend_items_count ring1 \<noteq> 0" using g(11) h(7) by (auto simp: unat_eq_0 [symmetric])
  have q': "(fl, ring') = (if mr_pend_items_count ring1 = th \<or> P mod d = d - 1 then (True, write_flush_ring ring1) else (False, ring1))"
    using q pnz unfolding post_item_def Let_def ring1_def [unfolded d_def P_def, symmetric] g(13) [symmetric] by auto
  show ?thesis
  proof (cases "fl")
    case False
    then have r': "ring' = ring1" and nend: "P mod d \<noteq> d - 1" using q' by (auto split: if_splits)
    have len: "S mod d + (P + 1 - S) < d" using run nend slot' h(7) by linarith
    have "h2d_rep ring1 (posted @ [item]) S V R'"
    proof (rule repI [of _ d _ "P + 1"])
      show "mr_start_addr ring1 = mr_va ring1 + S mod d * unat (mr_item_len ring1)" unfolding g(3,4,12) ..
      show "mr_va ring1 \<noteq> NULL" "0 < unat (mr_item_len ring1)" "S \<le> P + 1" "V \<le> S" "2 \<le> d" "R' \<le> V"
        using h(1,3,4,6,7) R'(2) by (simp_all add: g(3,4))
    qed (fact mx sp' g | rule len)+
    then show ?thesis using False r' by simp
  next
    case True
    then have r': "ring' = write_flush_ring ring1" using q' by (auto split: if_splits)
    have slot1: "slot_of ring1 (mr_start_addr ring1) = S mod d" unfolding g(12) using h(4) by (simp add: slot_of_def g(3,4))
    have clean: "i mod d \<notin> set (mr_dirty ring')" if "V \<le> i" "i < P + 1" for i
    proof (cases "i < S")
      case True
      then show ?thesis using g(10) that by (simp add: r')
    next
      case False
      then have "i mod d = S mod d + (i - S)" using run slot' that by (intro run_mod) linarith+
      then show ?thesis using slot1 g(11) False that by (simp add: r') linarith
    qed
    have "h2d_rep ring' (posted @ [item]) (P + 1) V R'"
    proof (rule repI [of _ d _ "P + 1"])
      show "i mod d \<notin> set (mr_dirty ring')" if "V \<le> i" "i < P + 1" for i using clean that .
      show "mr_items ring' ! (i mod d) = (posted @ [item]) ! i" if "V \<le> i" "i < P + 1" for i using g(9) that by (simp add: r')
      show "mr_va ring' \<noteq> NULL" "0 < unat (mr_item_len ring')" "V \<le> P + 1" "2 \<le> d" "R' \<le> V"
        using h(1,3,4,6,7) R'(2) by (simp_all add: r' g(3,4))
      show "unat (mr_shared_wr ring') = (P + 1) mod d" "unat (mr_pend_items_count ring') = P + 1 - (P + 1)"
        using g(6) by (simp_all add: r')
    qed (use mx sp' g(1-8) in \<open>simp_all add: r'\<close>)
    then show ?thesis using True by (simp add: P_def)
  qed
qed

text \<open>An allocation that is taken back: the write index and the phase are those before it.\<close>

lemma rollback_eq:
  assumes d: "2 \<le> d" "unat (mr_max_items ring) = d"
  shows "rollback_idx (put_item p hdr (allocated ring d P r)) =
    (put_item p hdr (allocated ring d P r))\<lparr>mr_wr := of_nat (P mod d), mr_current_phase := phase_at d P\<rparr>"
proof -
  define ring1 where "ring1 = put_item p hdr (allocated ring d P r)"
  have dlim: "d < 65536" using d by auto
  have slot': "P mod d < d" using d by simp
  have f1: "mr_max_items ring1 = mr_max_items ring" "mr_wr ring1 = of_nat ((P + 1) mod d)" "mr_current_phase ring1 = phase_at d (P + 1)"
    by (simp_all add: ring1_def put_item_def allocated_def)
  have flip: "(if phase_at d (P + 1) \<noteq> 0 then 0 else BCMPCIE_CMNHDR_PHASE_BIT_INIT) = phase_at d P" if "P mod d = 0"
    using phase_step [OF d(1), of P] that
    by (auto simp: flip_phase_def phase_at_def BCMPCIE_CMNHDR_PHASE_BIT_INIT_def split: if_splits)
  have same: "phase_at d (P + 1) = phase_at d P" if "P mod d \<noteq> 0" using phase_step [OF d(1), of P] that by simp
  have step: "(P + 1) mod d = (if P mod d + 1 = d then 0 else P mod d + 1)" by (rule mod_step [OF d(1)])
  show ?thesis unfolding ring1_def [symmetric]
  proof (cases "P mod d + 1 = d")
    case True
    then have "P mod d \<noteq> 0" using d by auto
    moreover have "mr_max_items ring - 1 = of_nat (P mod d)" using True
      by (metis add_diff_cancel_right' d(2) of_nat_1 of_nat_add of_nat_unat ucast_id)
    ultimately show "rollback_idx ring1 = ring1\<lparr>mr_wr := of_nat (P mod d), mr_current_phase := phase_at d P\<rparr>"
      using True step same by (simp add: rollback_idx_def f1)
  next
    case False
    then have w: "mr_wr ring1 = of_nat (P mod d) + 1" using step by (simp add: f1)
    have "P mod d + 1 < d" using False slot' by simp
    then have "unat (mr_wr ring1) = P mod d + 1" using dlim False step by (simp only: f1 if_False) (rule unat_of_nat_u16, simp)
    then have nz: "mr_wr ring1 \<noteq> 0" by (auto simp: unat_eq_0 [symmetric])
    have z: "of_nat (P mod d) = (0 :: u16) \<longleftrightarrow> P mod d = 0"
      using slot' dlim by (auto simp: word_unat_eq_iff unat_of_nat)
    show "rollback_idx ring1 = ring1\<lparr>mr_wr := of_nat (P mod d), mr_current_phase := phase_at d P\<rparr>"
      using nz w z flip same by (cases "P mod d = 0") (auto simp: rollback_idx_def f1 Let_def)
  qed
qed

lemma rollback_rep:
  assumes rep: "h2d_rep ring posted S V R" and R': "R \<le> R'" "R' \<le> V"
    and r: "unat r = R' mod unat (mr_max_items ring)" and sp: "length posted + 1 < R' + unat (mr_max_items ring)"
    and p: "p = mr_va ring + length posted mod unat (mr_max_items ring) * unat (mr_item_len ring)"
  shows "h2d_rep (rollback_idx (put_item p hdr (allocated ring (unat (mr_max_items ring)) (length posted) r))) posted S V R'"
proof -
  define d P where "d = unat (mr_max_items ring)" and "P = length posted"
  note h = repD [OF rep, folded d_def P_def] and ne = next_slot_free [OF rep R'(2) sp, folded d_def P_def]
  have slot: "slot_of ring p = P mod d" using p h(4) by (simp add: d_def P_def)
  let ?ring = "(put_item p hdr (allocated ring d P r))\<lparr>mr_wr := of_nat (P mod d), mr_current_phase := phase_at d P\<rparr>"
  have f: "mr_items ?ring = (mr_items ring)[P mod d := hdr]" "set (mr_dirty ?ring) = insert (P mod d) (set (mr_dirty ring))"
    using slot by (simp_all add: put_item_def allocated_def slot_of_def)
  have "P mod d < 65536" by (rule less_trans [OF mod_less_divisor unat_u16_less [of "mr_max_items ring", folded d_def]]) (use h(1) in simp)
  then have wr: "unat (of_nat (P mod d) :: u16) = P mod d" by (rule unat_of_nat_u16)
  have "h2d_rep ?ring posted S V R'"
  proof (rule repI [of _ d _ P])
    show "P < R' + d" using sp by (simp add: d_def P_def)
    show "i mod d \<notin> set (mr_dirty ?ring)" if "V \<le> i" "i < S" for i unfolding f using h(7,13) ne that by auto
    show "mr_items ?ring ! (i mod d) = posted ! i" if "V \<le> i" "i < P" for i
      unfolding f using h(12) [OF that] not_sym [OF ne [OF that]] by simp
  qed (use h R' r wr in \<open>simp_all add: put_item_def allocated_def d_def P_def\<close>)
  then show ?thesis using rollback_eq [OF h(1) d_def [symmetric]] by (simp add: d_def P_def)
qed

text \<open>The device takes the next item.\<close>

lemma fetch_rep:
  assumes rep: "h2d_rep ring posted S V R" and V: "V < S"
  shows "h2d_rep ring posted S (V + 1) R" "mr_items ring ! (V mod unat (mr_max_items ring)) = posted ! V"
    "V mod unat (mr_max_items ring) \<notin> set (mr_dirty ring)"
  using repD [OF rep] V by (auto simp: h2d_rep_def Let_def)

section \<open>One call of dhd_prot_txdata\<close>

text \<open>The descriptor of a packet.\<close>

definition tx_desc :: "tx_env \<Rightarrow> ptr \<Rightarrow> u8 \<Rightarrow> nat \<Rightarrow> u32 \<Rightarrow> u64 \<Rightarrow> u32 \<Rightarrow> u8 \<Rightarrow> host_txbuf_post" where
  "tx_desc env pkt ifidx data len pa k phase =
     \<lparr>tp_msg_type = MSG_TYPE_TX_POST, tp_if_id = ifidx, tp_cmn_flags = phase, tp_request_id = k,
      tp_txhdr = map (PKTBYTE env) [data..<data + ETHER_HDR_LEN],
      tp_flags = BCMPCIE_PKT_FLAGS_FRAME_802_3 OR push_bit BCMPCIE_PKT_FLAGS_PRIO_SHIFT (PKTPRIO env pkt AND 0x7),
      tp_seg_cnt = 1, tp_metadata_buf_addr = 0, tp_data_buf_addr = pa, tp_metadata_buf_len = 0, tp_data_len = ucast len,
      tp_ext_flags = (if pkt_is_igmp env pkt then BCMPCIE_PKT_FLAGS_IGMP else 0)\<rparr>"

definition tx_locker :: "ptr \<Rightarrow> u64 \<Rightarrow> u32 \<Rightarrow> dhd_pktid_item" where
  "tx_locker pkt pa len = \<lparr>lk_state = LOCKER_IS_BUSY, lk_dir = DMA_TX, lk_pkttype = PKTTYPE_DATA_TX, lk_len = ucast len,
     lk_pkt = pkt, lk_pa = pa, lk_dmah = NULL, lk_secdma = NULL\<rparr>"

text \<open>What all operations on the accounts of the path depend on.\<close>

definition tx_view :: "dhd_prot \<Rightarrow> _" where
  "tx_view prot = (pktid_tx_map prot, h2d_flowrings_pool prot, active_tx_count prot, tx_metadata_offset prot, dma_maps prot, freed prot)"

lemma tx_view_simps [simp]:
  "tx_view (prot\<lparr>pktid_depleted_cnt := c\<rparr>) = tx_view prot" "tx_view (PKTPULL p n prot) = tx_view prot"
  "tx_view (PKTPUSH p n prot) = tx_view prot" "tx_view (prot\<lparr>tx_h2d_db_cnt := x\<rparr>) = tx_view prot"
  by (simp_all add: tx_view_def PKTPULL_def PKTPUSH_def)

lemma pull_fields [simp]:
  "pktid_tx_map (PKTPULL p n prot) = pktid_tx_map prot" "h2d_flowrings_pool (PKTPULL p n prot) = h2d_flowrings_pool prot"
  "tx_metadata_offset (PKTPULL p n prot) = tx_metadata_offset prot" "pkt_data (PKTPULL p n prot) p = pkt_data prot p + n"
  "dma_maps (PKTPULL p n prot) = dma_maps prot" "freed (PKTPULL p n prot) = freed prot"
  "active_tx_count (PKTPULL p n prot) = active_tx_count prot"
  "pktid_tx_map (PKTPUSH p n prot) = pktid_tx_map prot" "h2d_flowrings_pool (PKTPUSH p n prot) = h2d_flowrings_pool prot"
  "tx_metadata_offset (PKTPUSH p n prot) = tx_metadata_offset prot" "dma_maps (PKTPUSH p n prot) = dma_maps prot"
  "freed (PKTPUSH p n prot) = freed prot" "active_tx_count (PKTPUSH p n prot) = active_tx_count prot"
  by (simp_all add: PKTPULL_def PKTPUSH_def)

lemma set_ring_fields [simp]:
  "pktid_tx_map (set_ring ix r prot) = pktid_tx_map prot" "tx_metadata_offset (set_ring ix r prot) = tx_metadata_offset prot"
  "dma_maps (set_ring ix r prot) = dma_maps prot" "freed (set_ring ix r prot) = freed prot"
  "active_tx_count (set_ring ix r prot) = active_tx_count prot"
  "h2d_flowrings_pool (set_ring ix r prot) = (h2d_flowrings_pool prot)[ix := r]"
  by (simp_all add: set_ring_def)

text \<open>Without metadata the last part of \<open>dhd_prot_txdata\<close> always posts.\<close>

lemma txdata_post_eq:
  assumes off: "tx_metadata_offset prot = 0"
    and hdr: "mr_items ring ! slot_of ring p = desc_header env data old"
    and q: "post_item (txp_threshold prot) p (tx_desc env pkt ifidx data len pa k (mr_current_phase ring)) (count_pending p ring) = (fl, ring')"
    and t: "txdata_post env pkt ifidx ix k p pa len ring prot = (ret, prot')"
  shows "ret = BCME_OK \<and> tx_view prot' =
    (snd (dhd_pktid_map_save 0 pkt k pa len DMA_TX NULL NULL PKTTYPE_DATA_TX (pktid_tx_map prot)),
     (h2d_flowrings_pool prot)[ix := ring'], active_tx_count prot + 1, 0, (pa, unat len) # dma_maps prot, freed prot)"
proof -
  have c: "mr_items (count_pending p ring) = mr_items ring" "mr_current_phase (count_pending p ring) = mr_current_phase ring"
      "slot_of (count_pending p ring) p = slot_of ring p"
    by (simp_all add: count_pending_def slot_of_def Let_def)
  have item: "(desc_body env pkt ifidx (mr_current_phase ring) pa len (mr_items ring ! slot_of ring p))
      \<lparr>tp_metadata_buf_len := 0, tp_metadata_buf_addr := 0, tp_request_id := k\<rparr> = tx_desc env pkt ifidx data len pa k (mr_current_phase ring)"
    unfolding hdr by (cases old) (simp add: desc_body_def desc_header_def tx_desc_def)
  show ?thesis using t q off
    by (auto simp: txdata_post_def c item Let_def tx_view_def PKTPUSH_def set_ring_def split: prod.splits if_splits)
qed

lemma err_free_view:
  assumes inv: "pm_inv N m" and r: "dhd_pktid_map_reserve pkt m = (k, m')" and k: "k \<noteq> 0"
    and e: "err_free_pktid k prot = (ret, prot')" and m': "pktid_tx_map prot = m'"
  shows "ret = BCME_NORESOURCE \<and> pm_inv N (pktid_tx_map prot') \<and> pm_view (pktid_tx_map prot') = pm_view m \<and>
    tx_view prot' = (pktid_tx_map prot', snd (tx_view prot))"
proof -
  from reserve_view [OF inv r] k obtain l where l: "pm_inv N m'" "pm_view m k = None" "pm_view m' = (pm_view m)(k \<mapsto> l)" by auto
  then have "pm_view m' k = Some l" by simp
  from free_release [OF l(1) _ this, of 0 PKTTYPE_NO_CHECK] obtain m1 where
      m1: "dhd_pktid_map_free 0 k PKTTYPE_NO_CHECK DHD_PKTID_FREE_LOCKER m' = (Some l, m1)" "pm_inv N m1"
        "pm_view m1 = (pm_view m')(k := None)"
    by (auto simp: DHD_INDUCE_PKTID_INVALID_FREE_def)
  have "(pm_view m')(k := None) = pm_view m" using l by (auto simp: fun_eq_iff)
  then show ?thesis using e m1 m' by (auto simp: err_free_pktid_def tx_view_def)
qed

text \<open>One call of \<open>dhd_prot_txdata\<close>: when it succeeds and what it does.\<close>

definition tx_accepts :: "tx_env \<Rightarrow> ptr \<Rightarrow> dhd_prot \<Rightarrow> nat \<Rightarrow> nat \<Rightarrow> nat \<Rightarrow> bool" where
  "tx_accepts env pkt prot P V d \<longleftrightarrow> pm_free (pktid_tx_map prot) \<noteq> {} \<and> P + 1 < V + d \<and>
     DMA_MAP env (pkt_data prot pkt + ETHER_HDR_LEN) (unat (of_nat (pkt_len prot pkt) - of_nat ETHER_HDR_LEN :: u32)) DMA_TX \<noteq> 0"

text \<open>A reserved id is stored to.\<close>

lemma reserve_save_view:
  assumes inv: "pm_inv N m" and r: "dhd_pktid_map_reserve pkt m = (k, m1)" and k: "k \<noteq> 0"
  shows "pm_inv N (snd (dhd_pktid_map_save 0 pkt k pa len DMA_TX NULL NULL PKTTYPE_DATA_TX m1)) \<and>
    pm_view (snd (dhd_pktid_map_save 0 pkt k pa len DMA_TX NULL NULL PKTTYPE_DATA_TX m1)) = (pm_view m)(k \<mapsto> tx_locker pkt pa len)"
proof -
  from reserve_view [OF inv r] k obtain l where l: "k \<le> N" "pm_inv N m1" "pm_view m1 = (pm_view m)(k \<mapsto> l)" by auto
  have "snd (dhd_pktid_map_save 0 pkt k pa len DMA_TX NULL NULL PKTTYPE_DATA_TX m1) =
      m1\<lparr>pm_lockers := (pm_lockers m1)[unat k := tx_locker pkt pa len]\<rparr>"
    using k l by (auto simp: dhd_pktid_map_save_def DHD_PKTID_INVALID_def DHD_INDUCE_PKTID_INVALID_SAVE_def tx_locker_def pm_inv_def)
  then show ?thesis using store_inv [OF l(2), of k l "tx_locker pkt pa len"] l(3) by (auto simp: tx_locker_def)
qed

lemma avail_free: "pm_inv N m \<Longrightarrow> dhd_pktid_map_avail_cnt m = 0 \<longleftrightarrow> pm_free m = {}"
  using pm_avail_free [of N m] by (metis card_0_eq dhd_pktid_map_avail_cnt_def finite unat_eq_0)

text \<open>\<open>dhd_prot_txdata\<close> once an id is reserved and the ring asked for a slot.\<close>

lemma txdata_body:
  fixes prot env pkt
  defines "ix \<equiv> DHD_FLOWRINGS_POOL_OFFSET (PKT_FLOWID env pkt)"
    and "len \<equiv> (of_nat (pkt_len prot pkt) - of_nat ETHER_HDR_LEN :: u32)" and "data \<equiv> pkt_data prot pkt"
  defines "pa \<equiv> DMA_MAP env (data + ETHER_HDR_LEN) (unat len) DMA_TX"
  assumes env: "have_flow_ring_table env" "\<not> fr_phase_nibble env" and av: "dhd_pktid_map_avail_cnt (pktid_tx_map prot) \<noteq> 0"
    and r: "dhd_pktid_map_reserve pkt (pktid_tx_map prot) = (k, m1)" and k: "k \<noteq> 0"
    and a: "dhd_prot_alloc_ring_space (te_max_tx_flowrings env) False drd 1 0 False (h2d_flowrings_pool prot ! ix) = (p, al, ring1)"
  shows "dhd_prot_txdata env drd pkt ifidx prot =
    (let prot1 = prot\<lparr>pktid_depleted_cnt := 0, pktid_tx_map := m1\<rparr>
     in if p = NULL then err_free_pktid k (set_ring ix ring1 prot1)
        else
          (let ring2 = put_item p (desc_header env data (mr_items ring1 ! slot_of ring1 p)) ring1;
               prot2 = PKTPULL pkt ETHER_HDR_LEN prot1
           in if pa = 0 then err_free_pktid k (set_ring ix (rollback_idx ring2) prot2)
              else txdata_post env pkt ifidx ix k p pa len ring2 prot2))"
  unfolding dhd_prot_txdata_def Let_def using env av r k a
  by (simp add: ix_def [symmetric] DHD_PKTID_INVALID_def data_def len_def pa_def)

lemma txdata_step:
  fixes prot env pkt
  defines "m \<equiv> pktid_tx_map prot" and "ix \<equiv> DHD_FLOWRINGS_POOL_OFFSET (PKT_FLOWID env pkt)"
    and "len \<equiv> (of_nat (pkt_len prot pkt) - of_nat ETHER_HDR_LEN :: u32)" and "data \<equiv> pkt_data prot pkt"
  defines "ring \<equiv> h2d_flowrings_pool prot ! ix" and "pa \<equiv> DMA_MAP env (data + ETHER_HDR_LEN) (unat len) DMA_TX"
  assumes env: "have_flow_ring_table env" "\<not> fr_phase_nibble env" and off: "tx_metadata_offset prot = 0"
    and inv: "pm_inv N m" and rep: "h2d_rep ring posted S V R" and drd: "unat drd = V mod unat (mr_max_items ring)"
    and t: "dhd_prot_txdata env drd pkt ifidx prot = (ret, prot')"
  shows "if tx_accepts env pkt prot (length posted) V (unat (mr_max_items ring))
    then ret = BCME_OK \<and> (\<exists>k m' ring' S' R'. k \<noteq> 0 \<and> k \<le> N \<and> pm_view m k = None \<and>
        pm_inv N m' \<and> pm_view m' = (pm_view m)(k \<mapsto> tx_locker pkt pa len) \<and>
        h2d_rep ring' (posted @ [tx_desc env pkt ifidx data len pa k (phase_at (unat (mr_max_items ring)) (length posted + 1))]) S' V R' \<and>
        mr_max_items ring' = mr_max_items ring \<and>
        tx_view prot' = (m', (h2d_flowrings_pool prot)[ix := ring'], active_tx_count prot + 1, 0, (pa, unat len) # dma_maps prot, freed prot))
    else ret = BCME_NORESOURCE \<and> (\<exists>m' ring' R'. pm_inv N m' \<and> pm_view m' = pm_view m \<and> h2d_rep ring' posted S V R' \<and>
        mr_max_items ring' = mr_max_items ring \<and>
        tx_view prot' = (m', (h2d_flowrings_pool prot)[ix := ring'], active_tx_count prot, 0, dma_maps prot, freed prot))"
proof -
  define d P where "d = unat (mr_max_items ring)" and "P = length posted"
  note h = repD [OF rep, folded d_def P_def]
  have same: "(h2d_flowrings_pool prot)[ix := ring] = h2d_flowrings_pool prot" by (simp add: ring_def)
  note av = avail_free [OF inv]
  show ?thesis
  proof (cases "pm_free m = {}")
    case True
    then have "ret = BCME_NORESOURCE \<and> tx_view prot' = tx_view prot"
      using t env av by (auto simp: dhd_prot_txdata_def m_def tx_view_def dhd_bus_stop_queue_def Let_def)
    then show ?thesis using True inv rep off same
      by (auto simp: tx_accepts_def m_def tx_view_def intro!: exI [of _ ring])
  next
    case False
    let ?p0 = "prot\<lparr>pktid_depleted_cnt := 0\<rparr>"
    obtain k m1 where r: "dhd_pktid_map_reserve pkt m = (k, m1)" by fastforce
    note rv = reserve_view [OF inv r]
    then have k: "k \<noteq> 0" "k \<le> N" "pm_view m k = None" "pm_inv N m1" using False by auto
    obtain p al ring1 where a: "dhd_prot_alloc_ring_space (te_max_tx_flowrings env) False drd 1 0 False ring = (p, al, ring1)"
      by (rule prod_cases3)
    note alloc = alloc_one [OF rep drd a, folded d_def P_def]
    let ?p1 = "prot\<lparr>pktid_depleted_cnt := 0, pktid_tx_map := m1\<rparr>"
    have nz: "dhd_pktid_map_avail_cnt (pktid_tx_map prot) \<noteq> 0" using av False by (simp add: m_def)
    note body = t [unfolded txdata_body [OF env nz r [unfolded m_def] k(1) a [unfolded ring_def ix_def]] Let_def,
      folded ix_def data_def len_def, folded pa_def]
    show ?thesis
    proof (cases "P + 1 = V + d")
      case True
      then have "p = NULL" "ring1 = ring\<lparr>mr_rd := drd\<rparr>" using alloc by auto
      then have e: "err_free_pktid k (set_ring ix ring1 ?p1) = (ret, prot')" using body by simp
      have "h2d_rep ring1 posted S V V" unfolding \<open>ring1 = ring\<lparr>mr_rd := drd\<rparr>\<close>
        using h drd True by (intro repI [of _ d _ P]) (simp_all add: d_def P_def)
      then show ?thesis using err_free_view [OF inv r k(1) e] True off \<open>ring1 = ring\<lparr>mr_rd := drd\<rparr>\<close>
        by (auto simp: tx_accepts_def tx_view_def d_def P_def intro!: exI [of _ ring1])
    next
      case no: False
      then obtain rr R' where p: "p = mr_va ring + P mod d * unat (mr_item_len ring)" and ring1: "ring1 = allocated ring d P rr"
          and R': "R' = R \<or> R' = V" "unat rr = R' mod d" "P + 1 < R' + d"
        using alloc by auto
      have R2: "R \<le> R'" "R' \<le> V" using R'(1) h(5) by auto
      have pn: "p \<noteq> NULL" using p h(3) by simp
      have acc: "tx_accepts env pkt prot P V d \<longleftrightarrow> pa \<noteq> 0"
        using False no R'(3) R2 by (auto simp: tx_accepts_def m_def data_def len_def pa_def)
      let ?hdr = "desc_header env data (mr_items ring1 ! slot_of ring1 p)"
      let ?ring2 = "put_item p ?hdr ring1"
      have slot: "slot_of ring1 p = P mod d" using p h(4) by (simp add: ring1 allocated_def slot_of_def)
      show ?thesis
      proof (cases "pa = 0")
        case True
        then have e: "err_free_pktid k (set_ring ix (rollback_idx ?ring2) (PKTPULL pkt ETHER_HDR_LEN ?p1)) = (ret, prot')"
          using body pn by simp
        have "h2d_rep (rollback_idx ?ring2) posted S V R'"
          using rollback_rep [OF rep R2, of rr p ?hdr] R' p unfolding ring1 d_def P_def by simp
        moreover have "mr_max_items (rollback_idx ?ring2) = mr_max_items ring"
          by (simp add: rollback_idx_def put_item_def ring1 allocated_def Let_def)
        ultimately show ?thesis using err_free_view [OF inv r k(1) e] acc True off
          by (auto simp: tx_view_def d_def P_def intro!: exI [of _ "rollback_idx ?ring2"])
      next
        case paz: False
        let ?item = "tx_desc env pkt ifidx data len pa k (phase_at d (P + 1))"
        obtain fl ring3 where q: "post_item (txp_threshold prot) p ?item (count_pending p ?ring2) = (fl, ring3)" by fastforce
        have ph: "mr_current_phase ?ring2 = phase_at d (P + 1)" by (simp add: put_item_def ring1 allocated_def)
        have hdr: "mr_items ?ring2 ! slot_of ?ring2 p = ?hdr"
          using slot h(2) h(1) by (simp add: put_item_def slot_of_def ring1 allocated_def)
        have tp: "txdata_post env pkt ifidx ix k p pa len ?ring2 (PKTPULL pkt ETHER_HDR_LEN ?p1) = (ret, prot')"
          using body pn paz by simp
        have thr: "txp_threshold (PKTPULL pkt ETHER_HDR_LEN ?p1) = txp_threshold prot" by (simp add: PKTPULL_def)
        have post: "ret = BCME_OK \<and> tx_view prot' =
            (snd (dhd_pktid_map_save 0 pkt k pa len DMA_TX NULL NULL PKTTYPE_DATA_TX m1),
             (h2d_flowrings_pool prot)[ix := ring3], active_tx_count prot + 1, 0, (pa, unat len) # dma_maps prot, freed prot)"
          using txdata_post_eq [OF _ hdr _ tp, of fl ring3] off q ph thr by simp
        have "h2d_rep ring3 (posted @ [?item]) (if fl then P + 1 else S) V R'"
          using post_rep [OF rep R2, of rr p "txp_threshold prot" ?item ?hdr fl ring3] R' p q unfolding ring1 d_def P_def by simp
        moreover have "mr_max_items ring3 = mr_max_items ring"
          using q by (auto simp: post_item_def count_pending_def put_item_def ring1 allocated_def Let_def split: if_splits)
        ultimately have "\<exists>k m' ring' S' R'. k \<noteq> 0 \<and> k \<le> N \<and> pm_view m k = None \<and> pm_inv N m' \<and>
            pm_view m' = (pm_view m)(k \<mapsto> tx_locker pkt pa len) \<and>
            h2d_rep ring' (posted @ [tx_desc env pkt ifidx data len pa k (phase_at d (P + 1))]) S' V R' \<and>
            mr_max_items ring' = mr_max_items ring \<and>
            tx_view prot' = (m', (h2d_flowrings_pool prot)[ix := ring'], active_tx_count prot + 1, 0, (pa, unat len) # dma_maps prot, freed prot)"
          using post k(1-3) reserve_save_view [OF inv r k(1), of pa len] by blast
        then show ?thesis using post acc paz unfolding d_def P_def by simp
      qed
    qed
  qed
qed

end
