(* ===== verification/Tx_Machine.thy ===== *)
theory Tx_Machine
  imports Prot_Tx_Rep "HOL-Library.Multiset"
begin

text \<open>
  Host and device as one system: the host sends packets of many flows, publishes and handles completions, the device fetches
  published descriptors and completes them in any order. The invariant says what every ring, the map of packet ids, the DMA
  mappings and the counter of active transmissions hold, and every step keeps it.
\<close>

section \<open>Host and device\<close>

text \<open>A request is a packet with what the descriptor is made of: the environment, the interface, the data pointer and the
  length without the header.\<close>

type_synonym tx_req = "tx_env \<times> ptr \<times> u8 \<times> nat \<times> u32"

definition req_of :: "tx_env \<Rightarrow> ptr \<Rightarrow> u8 \<Rightarrow> dhd_prot \<Rightarrow> tx_req" where
  "req_of env pkt ifidx prot = (env, pkt, ifidx, pkt_data prot pkt, of_nat (pkt_len prot pkt) - of_nat ETHER_HDR_LEN)"

fun req_pkt :: "tx_req \<Rightarrow> ptr" where "req_pkt (env, pkt, ifidx, data, len) = pkt"

fun req_map :: "tx_req \<Rightarrow> u64 \<times> nat" where
  "req_map (env, pkt, ifidx, data, len) = (DMA_MAP env (data + ETHER_HDR_LEN) (unat len) DMA_TX, unat len)"

fun req_locker :: "tx_req \<Rightarrow> dhd_pktid_item" where
  "req_locker (env, pkt, ifidx, data, len) = tx_locker pkt (DMA_MAP env (data + ETHER_HDR_LEN) (unat len) DMA_TX) len"

fun desc_for :: "tx_req \<Rightarrow> host_txbuf_post \<Rightarrow> bool" where
  "desc_for (env, pkt, ifidx, data, len) desc \<longleftrightarrow>
     desc = tx_desc env pkt ifidx data len (DMA_MAP env (data + ETHER_HDR_LEN) (unat len) DMA_TX) (tp_request_id desc) (tp_cmn_flags desc)"

fun req_ok :: "tx_req \<Rightarrow> bool" where
  "req_ok (env, pkt, ifidx, data, len) \<longleftrightarrow> pkt \<noteq> NULL \<and> unat len < 65536"

text \<open>The driver, the read indices of the device, the requests accepted and the descriptors fetched per ring, and the
  descriptors that the device has fetched and not completed, each with its request.\<close>

record tx_sys =
  sys_prot :: dhd_prot
  sys_rd :: "u16 list"
  sys_accepted :: "tx_req list list"
  sys_fetched :: "host_txbuf_post list list"
  sys_owned :: "(host_txbuf_post \<times> tx_req) list"

definition next_idx :: "'a msgbuf_ring \<Rightarrow> u16 \<Rightarrow> u16" where
  "next_idx ring rd = (if unat rd + 1 = unat (mr_max_items ring) then 0 else rd + 1)"

text \<open>The device fetches the next published descriptor of a ring, and completes a descriptor it has fetched, once, in any
  order. The host sends and publishes.\<close>

inductive tx_reach :: "tx_sys \<Rightarrow> tx_sys \<Rightarrow> bool" for s0 where
  start: "tx_reach s0 s0"
| send: "tx_reach s0 s \<Longrightarrow> have_flow_ring_table env \<Longrightarrow> \<not> fr_phase_nibble env \<Longrightarrow>
    ix = DHD_FLOWRINGS_POOL_OFFSET (PKT_FLOWID env pkt) \<Longrightarrow> ix < length (h2d_flowrings_pool (sys_prot s)) \<Longrightarrow>
    rq = req_of env pkt ifidx (sys_prot s) \<Longrightarrow> req_ok rq \<Longrightarrow>
    dhd_prot_txdata env (sys_rd s ! ix) pkt ifidx (sys_prot s) = (ret, prot') \<Longrightarrow>
    tx_reach s0 (s\<lparr>sys_prot := prot',
      sys_accepted := (if ret = BCME_OK then (sys_accepted s)[ix := sys_accepted s ! ix @ [rq]] else sys_accepted s)\<rparr>)"
| publish: "tx_reach s0 s \<Longrightarrow> DHD_FLOWRINGS_POOL_OFFSET flowid < length (h2d_flowrings_pool (sys_prot s)) \<Longrightarrow>
    tx_reach s0 (s\<lparr>sys_prot := dhd_prot_txdata_write_flush env flowid (sys_prot s)\<rparr>)"
| fetch: "tx_reach s0 s \<Longrightarrow> ix < length (h2d_flowrings_pool (sys_prot s)) \<Longrightarrow>
    ring = h2d_flowrings_pool (sys_prot s) ! ix \<Longrightarrow> sys_rd s ! ix \<noteq> mr_shared_wr ring \<Longrightarrow>
    desc = mr_items ring ! unat (sys_rd s ! ix) \<Longrightarrow>
    tx_reach s0 (s\<lparr>sys_rd := (sys_rd s)[ix := next_idx ring (sys_rd s ! ix)],
      sys_fetched := (sys_fetched s)[ix := sys_fetched s ! ix @ [desc]],
      sys_owned := sys_owned s @ [(desc, sys_accepted s ! ix ! length (sys_fetched s ! ix))]\<rparr>)"
| complete: "tx_reach s0 s \<Longrightarrow> x \<in> set (sys_owned s) \<Longrightarrow>
    tx_reach s0 (s\<lparr>sys_prot := dhd_prot_txstatus_process (tp_request_id (fst x)) (sys_prot s),
      sys_owned := remove1 x (sys_owned s)\<rparr>)"

section \<open>Accounts\<close>

abbreviation tx_id :: "host_txbuf_post \<times> tx_req \<Rightarrow> u32" where "tx_id x \<equiv> tp_request_id (fst x)"

text \<open>\<open>M\<close> are the descriptors accepted and not completed: their ids are those in use, each with the packet and the mapping of
  its request.\<close>

definition accounts :: "u32 \<Rightarrow> dhd_prot \<Rightarrow> (host_txbuf_post \<times> tx_req) multiset \<Rightarrow> bool" where
  "accounts N prot M \<longleftrightarrow> pm_inv N (pktid_tx_map prot) \<and> tx_metadata_offset prot = 0 \<and>
     image_mset tx_id M = mset_set (dom (pm_view (pktid_tx_map prot))) \<and>
     (\<forall>x \<in># M. pm_view (pktid_tx_map prot) (tx_id x) = Some (req_locker (snd x)) \<and> req_ok (snd x)) \<and>
     mset (dma_maps prot) = image_mset (\<lambda>x. req_map (snd x)) M \<and> active_tx_count prot = int (size M)"

lemma accounts_view: "tx_view prot' = tx_view prot \<Longrightarrow> accounts N prot' M = accounts N prot M"
  by (simp add: accounts_def tx_view_def)

lemma accounts_same:
  assumes "accounts N prot M" "pm_inv N m'" "pm_view m' = pm_view (pktid_tx_map prot)"
    "tx_view prot' = (m', pool, active_tx_count prot, 0, dma_maps prot, freed prot)"
  shows "accounts N prot' M"
  using assms by (auto simp: accounts_def tx_view_def)

lemma accounts_add:
  assumes acc: "accounts N prot M" and k: "pm_view (pktid_tx_map prot) k = None" and inv: "pm_inv N m'"
    and m': "pm_view m' = (pm_view (pktid_tx_map prot))(k \<mapsto> req_locker rq)" and x: "tp_request_id desc = k" "req_ok rq"
    and v: "tx_view prot' = (m', pool, active_tx_count prot + 1, 0, req_map rq # dma_maps prot, freed prot)"
  shows "accounts N prot' (add_mset (desc, rq) M)"
proof -
  have f: "pktid_tx_map prot' = m'" "tx_metadata_offset prot' = 0" "active_tx_count prot' = active_tx_count prot + 1"
      "dma_maps prot' = req_map rq # dma_maps prot"
    using v by (auto simp: tx_view_def)
  have "dom (pm_view m') = insert k (dom (pm_view (pktid_tx_map prot)))" "k \<notin> dom (pm_view (pktid_tx_map prot))"
    using k by (auto simp: m')
  then have ids: "image_mset tx_id (add_mset (desc, rq) M) = mset_set (dom (pm_view m'))" using acc x by (simp add: accounts_def)
  have "tx_id x \<noteq> k" if "x \<in># M" for x
  proof -
    have "pm_view (pktid_tx_map prot) (tx_id x) \<noteq> None" using acc that by (auto simp: accounts_def)
    then show ?thesis using k by auto
  qed
  then have "\<forall>x \<in># add_mset (desc, rq) M. pm_view m' (tx_id x) = Some (req_locker (snd x)) \<and> req_ok (snd x)"
    using acc x by (auto simp: accounts_def m')
  then show ?thesis using acc inv ids unfolding accounts_def f by (simp add: accounts_def)
qed

lemma accounts_remove:
  assumes acc: "accounts N prot M" and x: "x \<in># M"
  shows "accounts N (dhd_prot_txstatus_process (tx_id x) prot) (M - {#x#})"
    and "freed (dhd_prot_txstatus_process (tx_id x) prot) = freed prot @ [req_pkt (snd x)]"
    and "dma_maps (dhd_prot_txstatus_process (tx_id x) prot) = remove1 (req_map (snd x)) (dma_maps prot)"
    and "h2d_flowrings_pool (dhd_prot_txstatus_process (tx_id x) prot) = h2d_flowrings_pool prot"
proof -
  let ?k = "tx_id x" and ?m = "pktid_tx_map prot" and ?p = "dhd_prot_txstatus_process (tx_id x) prot"
  obtain env pkt ifidx data len where rq: "snd x = (env, pkt, ifidx, data, len)" by (cases "snd x") auto
  let ?pa = "DMA_MAP env (data + ETHER_HDR_LEN) (unat len) DMA_TX"
  have inv: "pm_inv N ?m" and l: "pm_view ?m ?k = Some (tx_locker pkt ?pa len)" and ok: "pkt \<noteq> NULL" "unat len < 65536"
    using acc x rq by (fastforce simp: accounts_def)+
  from free_release [OF inv _ l, of 0 PKTTYPE_DATA_TX] obtain m' where
      m': "dhd_pktid_map_free 0 ?k PKTTYPE_DATA_TX DHD_PKTID_FREE_LOCKER ?m = (Some (tx_locker pkt ?pa len), m')" "pm_inv N m'"
        "pm_view m' = (pm_view ?m)(?k := None)"
    by (auto simp: DHD_INDUCE_PKTID_INVALID_FREE_def tx_locker_def)
  have len: "unat (ucast len :: u16) = unat len" using ok(2) by (simp add: unsigned_ucast_eq take_bit_nat_eq_self)
  have v: "tx_view ?p = (m', h2d_flowrings_pool prot, active_tx_count prot - 1, tx_metadata_offset prot,
      remove1 (?pa, unat len) (dma_maps prot), freed prot @ [pkt])"
    using m'(1) ok len by (auto simp: dhd_prot_txstatus_process_def Let_def tx_locker_def tx_view_def dhd_bus_start_queue_def)
  then show "freed ?p = freed prot @ [req_pkt (snd x)]" "dma_maps ?p = remove1 (req_map (snd x)) (dma_maps prot)"
      "h2d_flowrings_pool ?p = h2d_flowrings_pool prot"
    by (auto simp: tx_view_def rq)
  have f: "pktid_tx_map ?p = m'" "tx_metadata_offset ?p = tx_metadata_offset prot" "active_tx_count ?p = active_tx_count prot - 1"
      "mset (dma_maps ?p) = mset (dma_maps prot) - {#req_map (snd x)#}"
    using v by (auto simp: tx_view_def rq)
  have cnt: "count (image_mset tx_id M) ?k \<le> 1" using acc by (simp add: accounts_def count_mset_set')
  have M: "M = add_mset x (M - {#x#})" using x by simp
  have ids: "image_mset tx_id (M - {#x#}) = mset_set (dom (pm_view m'))"
  proof -
    have "image_mset tx_id M = add_mset ?k (image_mset tx_id (M - {#x#}))" by (subst M) simp
    moreover have "image_mset tx_id M = mset_set (dom (pm_view ?m))" using acc unfolding accounts_def by blast
    ultimately have "image_mset tx_id (M - {#x#}) = mset_set (dom (pm_view ?m)) - {#?k#}" by (metis add_mset_remove_trivial)
    also have "\<dots> = mset_set (dom (pm_view ?m) - {?k})" using l by (subst mset_set_Diff) auto
    finally show ?thesis by (simp add: m'(3))
  qed
  have "tx_id y \<noteq> ?k" if "y \<in># M - {#x#}" for y
  proof
    assume "tx_id y = ?k"
    then have "?k \<in># image_mset tx_id (M - {#x#})" unfolding set_image_mset by (intro image_eqI [OF _ that]) simp
    then show False unfolding ids by (simp add: m'(3))
  qed
  moreover have "pm_view ?m (tx_id y) = Some (req_locker (snd y)) \<and> req_ok (snd y)" if "y \<in># M - {#x#}" for y
    using acc in_diffD [OF that] unfolding accounts_def by blast
  ultimately have "\<forall>y \<in># M - {#x#}. pm_view m' (tx_id y) = Some (req_locker (snd y)) \<and> req_ok (snd y)"
    unfolding m'(3) by simp
  moreover have "int (size M) = int (size (M - {#x#})) + 1" by (subst M) simp
  moreover have "image_mset (\<lambda>x. req_map (snd x)) M = add_mset (req_map (snd x)) (image_mset (\<lambda>x. req_map (snd x)) (M - {#x#}))"
    by (subst M) simp
  ultimately show "accounts N ?p (M - {#x#})" using acc m'(2) ids unfolding accounts_def f by (simp add: accounts_def)
qed

section \<open>The invariant of host and device\<close>

definition ring_ok :: "host_txbuf_post msgbuf_ring \<Rightarrow> u16 \<Rightarrow> tx_req list \<Rightarrow> host_txbuf_post list \<Rightarrow>
    host_txbuf_post list \<Rightarrow> nat \<Rightarrow> nat \<Rightarrow> bool" where
  "ring_ok ring rd acc fet posted S R \<longleftrightarrow> h2d_rep ring posted S (length fet) R \<and>
     unat rd = length fet mod unat (mr_max_items ring) \<and> fet = take (length fet) posted \<and> list_all2 desc_for acc posted \<and>
     (\<forall>i < length posted. tp_cmn_flags (posted ! i) = phase_at (unat (mr_max_items ring)) (i + 1))"

text \<open>What is in the ring and not fetched, each descriptor with its request, and all that is outstanding.\<close>

definition in_ring :: "host_txbuf_post list \<Rightarrow> host_txbuf_post list \<Rightarrow> tx_req list \<Rightarrow> (host_txbuf_post \<times> tx_req) multiset" where
  "in_ring fet posted acc = mset (drop (length fet) (zip posted acc))"

definition outstanding :: "tx_sys \<Rightarrow> (nat \<Rightarrow> host_txbuf_post list) \<Rightarrow> (host_txbuf_post \<times> tx_req) multiset" where
  "outstanding s posted = mset (sys_owned s) +
     (\<Sum>ix < length (sys_accepted s). in_ring (sys_fetched s ! ix) (posted ix) (sys_accepted s ! ix))"

definition tx_inv :: "u32 \<Rightarrow> tx_sys \<Rightarrow> (nat \<Rightarrow> host_txbuf_post list) \<Rightarrow> (nat \<Rightarrow> nat) \<Rightarrow> (nat \<Rightarrow> nat) \<Rightarrow> bool" where
  "tx_inv N s posted S R \<longleftrightarrow>
     (let n = length (h2d_flowrings_pool (sys_prot s))
      in length (sys_rd s) = n \<and> length (sys_accepted s) = n \<and> length (sys_fetched s) = n \<and>
         (\<forall>ix < n. ring_ok (h2d_flowrings_pool (sys_prot s) ! ix) (sys_rd s ! ix) (sys_accepted s ! ix) (sys_fetched s ! ix)
            (posted ix) (S ix) (R ix)) \<and>
         accounts N (sys_prot s) (outstanding s posted) \<and>
         mset (map req_pkt (concat (sys_accepted s))) =
           mset (freed (sys_prot s)) + image_mset (\<lambda>x. req_pkt (snd x)) (outstanding s posted))"

lemma sum_one:
  fixes f g :: "nat \<Rightarrow> 'a :: comm_monoid_add"
  assumes "ix < n" "\<And>i. i < n \<Longrightarrow> i \<noteq> ix \<Longrightarrow> g i = f i"
  shows "(\<Sum>i<n. g i) = g ix + (\<Sum>i\<in>{..<n} - {ix}. f i)" "(\<Sum>i<n. f i) = f ix + (\<Sum>i\<in>{..<n} - {ix}. f i)"
  using assms sum.remove [of "{..<n}" ix g] sum.remove [of "{..<n}" ix f] sum.cong [of "{..<n} - {ix}" "{..<n} - {ix}" g f] by auto

lemma mset_concat_snoc: "ix < length xss \<Longrightarrow> mset (concat (xss[ix := xss ! ix @ [x]])) = add_mset x (mset (concat xss))"
  by (induction xss arbitrary: ix) (auto split: nat.splits)

lemma ring_ok_ring:
  "ring_ok ring rd acc fet posted S R \<Longrightarrow> h2d_rep ring' posted S' (length fet) R' \<Longrightarrow> mr_max_items ring' = mr_max_items ring \<Longrightarrow>
   ring_ok ring' rd acc fet posted S' R'"
  by (simp add: ring_ok_def)

lemma ring_ok_post:
  assumes ok: "ring_ok ring rd acc fet posted S R" and rep: "h2d_rep ring' (posted @ [desc]) S' (length fet) R'"
    and m: "mr_max_items ring' = mr_max_items ring" and d: "desc_for rq desc"
    and ph: "tp_cmn_flags desc = phase_at (unat (mr_max_items ring)) (length posted + 1)"
  shows "ring_ok ring' rd (acc @ [rq]) fet (posted @ [desc]) S' R'"
    and "in_ring fet (posted @ [desc]) (acc @ [rq]) = add_mset (desc, rq) (in_ring fet posted acc)"
proof -
  have len: "length fet \<le> length posted" "length acc = length posted" "fet = take (length fet) posted"
    using ok by (auto simp: ring_ok_def h2d_rep_def Let_def list_all2_lengthD)
  show "ring_ok ring' rd (acc @ [rq]) fet (posted @ [desc]) S' R'"
    using ok rep d ph len m by (auto simp: ring_ok_def nth_append less_Suc_eq list_all2_append)
  show "in_ring fet (posted @ [desc]) (acc @ [rq]) = add_mset (desc, rq) (in_ring fet posted acc)"
    using len by (simp add: in_ring_def)
qed

lemma ring_ok_fetch:
  assumes ok: "ring_ok ring rd acc fet posted S R" and ne: "rd \<noteq> mr_shared_wr ring"
  defines "desc \<equiv> mr_items ring ! unat rd"
  shows "length fet < S" "length fet < length acc" "unat rd < length (mr_items ring)" "unat rd \<notin> set (mr_dirty ring)"
    "desc = posted ! length fet" "desc_for (acc ! length fet) desc"
    "ring_ok ring (next_idx ring rd) acc (fet @ [desc]) posted S R"
    "in_ring fet posted acc = add_mset (desc, acc ! length fet) (in_ring (fet @ [desc]) posted acc)"
proof -
  let ?V = "length fet" and ?d = "unat (mr_max_items ring)"
  have rep: "h2d_rep ring posted S ?V R" and rd: "unat rd = ?V mod ?d" and fet: "fet = take ?V posted"
      and l: "list_all2 desc_for acc posted"
    using ok by (auto simp: ring_ok_def)
  note h = repD [OF rep]
  have len: "length acc = length posted" using l by (rule list_all2_lengthD)
  show VS: "?V < S"
  proof (rule ccontr)
    assume "\<not> ?V < S"
    then have "unat rd = unat (mr_shared_wr ring)" using h(6,11) rd by simp
    then show False using ne by (simp add: word_unat_eq_iff)
  qed
  note f = fetch_rep [OF rep VS]
  show acc: "?V < length acc" using VS h(7) len by simp
  show rdl: "unat rd < length (mr_items ring)" using rd h(1,2) by simp
  show "unat rd \<notin> set (mr_dirty ring)" using f(3) rd by simp
  show desc: "desc = posted ! ?V" using f(2) rd by (simp add: desc_def)
  show "desc_for (acc ! ?V) desc" unfolding desc using l acc by (rule list_all2_nthD)
  have nx: "unat (next_idx ring rd) = Suc ?V mod ?d"
  proof (cases "unat rd + 1 = ?d")
    case True
    then show ?thesis using mod_step [OF h(1), of ?V] rd by (simp add: next_idx_def)
  next
    case False
    then have "unat rd + 1 < ?d" using rdl h(2) by simp
    then have "unat rd + 1 < 65536" using unat_u16_less [of "mr_max_items ring"] by linarith
    then have "unat (rd + 1) = unat rd + 1" by (simp add: unat_word_ariths)
    then show ?thesis using False mod_step [OF h(1), of ?V] rd by (simp add: next_idx_def)
  qed
  have "fet @ [desc] = take (Suc ?V) posted" unfolding desc using VS h(7) fet by (simp add: take_Suc_conv_app_nth)
  then show "ring_ok ring (next_idx ring rd) acc (fet @ [desc]) posted S R" using ok f(1) nx VS h(7)
    by (simp add: ring_ok_def min_absorb2)
  show "in_ring fet posted acc = add_mset (desc, acc ! ?V) (in_ring (fet @ [desc]) posted acc)"
    using acc len by (simp add: in_ring_def desc Cons_nth_drop_Suc [symmetric])
qed

lemma ring_ok_flush:
  assumes ok: "ring_ok ring rd acc fet posted S R" and pend: "mr_pend_items_count ring \<noteq> 0"
  shows "ring_ok (write_flush_ring ring) rd acc fet posted (length posted) R"
  using write_flush_rep [OF _ pend, of posted S "length fet" R] ok by (simp add: ring_ok_def)


text \<open>Steps on one ring: what changes in the accounts.\<close>

lemma tx_invI:
  assumes "length (sys_rd s) = n" "length (sys_accepted s) = n" "length (sys_fetched s) = n"
    "length (h2d_flowrings_pool (sys_prot s)) = n"
    "\<And>ix. ix < n \<Longrightarrow> ring_ok (h2d_flowrings_pool (sys_prot s) ! ix) (sys_rd s ! ix) (sys_accepted s ! ix) (sys_fetched s ! ix)
       (posted ix) (S ix) (R ix)"
    "accounts N (sys_prot s) (outstanding s posted)"
    "mset (map req_pkt (concat (sys_accepted s))) =
       mset (freed (sys_prot s)) + image_mset (\<lambda>x. req_pkt (snd x)) (outstanding s posted)"
  shows "tx_inv N s posted S R"
  using assms by (simp add: tx_inv_def Let_def)

lemma tx_invD:
  assumes "tx_inv N s posted S R"
  shows "length (sys_rd s) = length (h2d_flowrings_pool (sys_prot s))" "length (sys_accepted s) = length (h2d_flowrings_pool (sys_prot s))"
    "length (sys_fetched s) = length (h2d_flowrings_pool (sys_prot s))"
    "\<And>ix. ix < length (h2d_flowrings_pool (sys_prot s)) \<Longrightarrow> ring_ok (h2d_flowrings_pool (sys_prot s) ! ix) (sys_rd s ! ix)
       (sys_accepted s ! ix) (sys_fetched s ! ix) (posted ix) (S ix) (R ix)"
    "accounts N (sys_prot s) (outstanding s posted)"
    "mset (map req_pkt (concat (sys_accepted s))) =
       mset (freed (sys_prot s)) + image_mset (\<lambda>x. req_pkt (snd x)) (outstanding s posted)"
  using assms by (simp_all add: tx_inv_def Let_def)

lemma outstanding_prot [simp]: "outstanding (s\<lparr>sys_prot := p\<rparr>) posted = outstanding s posted"
  by (simp add: outstanding_def)

lemma tx_viewD:
  assumes "tx_view prot = (m, pool, act, off, maps, fr)"
  shows "pktid_tx_map prot = m" "h2d_flowrings_pool prot = pool" "active_tx_count prot = act" "tx_metadata_offset prot = off"
    "dma_maps prot = maps" "freed prot = fr"
  using assms by (auto simp: tx_view_def)

lemma inv_ring:
  assumes inv: "tx_inv N s posted S R" and ix: "ix < length (h2d_flowrings_pool (sys_prot s))"
    and rep: "h2d_rep ring' (posted ix) S' (length (sys_fetched s ! ix)) R'"
    and m: "mr_max_items ring' = mr_max_items (h2d_flowrings_pool (sys_prot s) ! ix)"
    and p: "h2d_flowrings_pool prot' = (h2d_flowrings_pool (sys_prot s))[ix := ring']" "freed prot' = freed (sys_prot s)"
    and acc: "accounts N prot' (outstanding s posted)"
  shows "tx_inv N (s\<lparr>sys_prot := prot'\<rparr>) posted (S(ix := S')) (R(ix := R'))"
proof -
  note i = tx_invD [OF inv]
  show ?thesis
  proof (rule tx_invI [where n = "length (h2d_flowrings_pool (sys_prot s))"])
    show "ring_ok (h2d_flowrings_pool (sys_prot (s\<lparr>sys_prot := prot'\<rparr>)) ! j) (sys_rd (s\<lparr>sys_prot := prot'\<rparr>) ! j)
      (sys_accepted (s\<lparr>sys_prot := prot'\<rparr>) ! j) (sys_fetched (s\<lparr>sys_prot := prot'\<rparr>) ! j) (posted j) ((S(ix := S')) j) ((R(ix := R')) j)"
      if "j < length (h2d_flowrings_pool (sys_prot s))" for j
      using i(4) [OF that] ring_ok_ring [OF i(4) [OF ix] rep m] that by (simp add: p)
  qed (use i(1-3,6) acc in \<open>simp_all add: p\<close>)
qed

lemma inv_post:
  assumes inv: "tx_inv N s posted S R" and ix: "ix < length (h2d_flowrings_pool (sys_prot s))"
    and rep: "h2d_rep ring' (posted ix @ [desc]) S' (length (sys_fetched s ! ix)) R'"
    and m: "mr_max_items ring' = mr_max_items (h2d_flowrings_pool (sys_prot s) ! ix)"
    and d: "desc_for rq desc" "tp_cmn_flags desc = phase_at (unat (mr_max_items (h2d_flowrings_pool (sys_prot s) ! ix))) (length (posted ix) + 1)"
    and p: "h2d_flowrings_pool prot' = (h2d_flowrings_pool (sys_prot s))[ix := ring']" "freed prot' = freed (sys_prot s)"
    and acc: "accounts N prot' (add_mset (desc, rq) (outstanding s posted))"
  shows "tx_inv N (s\<lparr>sys_prot := prot', sys_accepted := (sys_accepted s)[ix := sys_accepted s ! ix @ [rq]]\<rparr>)
    (posted(ix := posted ix @ [desc])) (S(ix := S')) (R(ix := R'))" (is "tx_inv N ?s ?posted _ _")
proof -
  note i = tx_invD [OF inv]
  note ok = ring_ok_post [OF i(4) [OF ix] rep m d]
  let ?n = "length (h2d_flowrings_pool (sys_prot s))"
  let ?f = "\<lambda>j. in_ring (sys_fetched s ! j) (posted j) (sys_accepted s ! j)"
  let ?g = "\<lambda>j. in_ring (sys_fetched s ! j) (?posted j) (sys_accepted ?s ! j)"
  have out: "outstanding ?s ?posted = add_mset (desc, rq) (outstanding s posted)"
    using sum_one [OF ix, of ?g ?f] ok(2) i(2) ix by (simp add: outstanding_def)
  show ?thesis
  proof (rule tx_invI [where n = ?n])
    show "ring_ok (h2d_flowrings_pool (sys_prot ?s) ! j) (sys_rd ?s ! j) (sys_accepted ?s ! j) (sys_fetched ?s ! j) (?posted j)
        ((S(ix := S')) j) ((R(ix := R')) j)" if "j < ?n" for j
      using i(4) [OF that] ok(1) that i(2) by (simp add: p)
    show "mset (map req_pkt (concat (sys_accepted ?s))) =
        mset (freed (sys_prot ?s)) + image_mset (\<lambda>x. req_pkt (snd x)) (outstanding ?s ?posted)"
      unfolding out mset_map using i(6) ix i(2) by (simp add: p mset_concat_snoc)
    show "accounts N (sys_prot ?s) (outstanding ?s ?posted)" unfolding out using acc by simp
  qed (use i(1-3) in \<open>simp_all add: p\<close>)
qed

lemma inv_fetch:
  assumes inv: "tx_inv N s posted S R" and ix: "ix < length (h2d_flowrings_pool (sys_prot s))"
    and ring: "ring = h2d_flowrings_pool (sys_prot s) ! ix" and ne: "sys_rd s ! ix \<noteq> mr_shared_wr ring"
    and desc: "desc = mr_items ring ! unat (sys_rd s ! ix)"
  shows "tx_inv N (s\<lparr>sys_rd := (sys_rd s)[ix := next_idx ring (sys_rd s ! ix)],
      sys_fetched := (sys_fetched s)[ix := sys_fetched s ! ix @ [desc]],
      sys_owned := sys_owned s @ [(desc, sys_accepted s ! ix ! length (sys_fetched s ! ix))]\<rparr>) posted S R" (is "tx_inv N ?s _ _ _")
proof -
  note i = tx_invD [OF inv]
  note ok = ring_ok_fetch [OF i(4) [OF ix] ne [unfolded ring], folded ring, folded desc]
  let ?n = "length (h2d_flowrings_pool (sys_prot s))"
  let ?f = "\<lambda>j. in_ring (sys_fetched s ! j) (posted j) (sys_accepted s ! j)"
  let ?g = "\<lambda>j. in_ring (sys_fetched ?s ! j) (posted j) (sys_accepted s ! j)"
  have out: "outstanding ?s posted = outstanding s posted"
    using sum_one [OF ix, of ?g ?f] ok(8) i(2,3) ix by (simp add: outstanding_def)
  show ?thesis
  proof (rule tx_invI [where n = ?n])
    show "ring_ok (h2d_flowrings_pool (sys_prot ?s) ! j) (sys_rd ?s ! j) (sys_accepted ?s ! j) (sys_fetched ?s ! j) (posted j) (S j) (R j)"
      if "j < ?n" for j
      using i(4) [OF that] ok(7) that i(1,3) ring by (cases "j = ix") simp_all
  qed (use i in \<open>simp_all add: out\<close>)
qed

lemma inv_complete:
  assumes inv: "tx_inv N s posted S R" and x: "x \<in> set (sys_owned s)"
  shows "tx_inv N (s\<lparr>sys_prot := dhd_prot_txstatus_process (tx_id x) (sys_prot s), sys_owned := remove1 x (sys_owned s)\<rparr>) posted S R"
    (is "tx_inv N ?s _ _ _")
proof -
  note i = tx_invD [OF inv]
  have xM: "x \<in># outstanding s posted" using x by (simp add: outstanding_def)
  note a = accounts_remove [OF i(5) xM]
  have out: "outstanding ?s posted = outstanding s posted - {#x#}" using x by (simp add: outstanding_def)
  obtain M where M: "outstanding s posted = add_mset x M" using xM by (blast dest: multi_member_split)
  show ?thesis
  proof (rule tx_invI [where n = "length (h2d_flowrings_pool (sys_prot s))"])
    show "ring_ok (h2d_flowrings_pool (sys_prot ?s) ! j) (sys_rd ?s ! j) (sys_accepted ?s ! j) (sys_fetched ?s ! j) (posted j) (S j) (R j)"
      if "j < length (h2d_flowrings_pool (sys_prot s))" for j using i(4) [OF that] a(4) by simp
    show "mset (map req_pkt (concat (sys_accepted ?s))) =
        mset (freed (sys_prot ?s)) + image_mset (\<lambda>x. req_pkt (snd x)) (outstanding ?s posted)"
      unfolding out using i(6) a(2) by (simp add: M)
  qed (use i(1-3) a in \<open>simp_all add: out\<close>)
qed

end
