(* ===== verification/Tx_Correct.thy ===== *)
theory Tx_Correct
  imports Tx_Machine
begin

text \<open>
  The correctness of the data path to the device: what the device fetches is what was sent, in order; every packet, mapping
  and id is accounted for; a packet is refused exactly when a resource is missing. The last section is a history on which the
  theorems are applied.
\<close>

section \<open>Start and steps\<close>

definition ring_attached :: "'a msgbuf_ring \<Rightarrow> bool" where
  "ring_attached ring \<longleftrightarrow> 2 \<le> unat (mr_max_items ring) \<and> length (mr_items ring) = unat (mr_max_items ring) \<and>
     mr_va ring \<noteq> NULL \<and> mr_item_len ring \<noteq> 0 \<and> mr_pend_items_count ring = 0"

definition tx_start :: "u32 \<Rightarrow> dhd_pktid_map \<Rightarrow> host_txbuf_post msgbuf_ring list \<Rightarrow> tx_sys \<Rightarrow> bool" where
  "tx_start N block rings s \<longleftrightarrow> unat N < 2 ^ 31 \<and> list_all ring_attached rings \<and>
     dhd_pktid_map_init (Some block) True True N = Some (pktid_tx_map (sys_prot s)) \<and>
     h2d_flowrings_pool (sys_prot s) = map (\<lambda>r. (dhd_prot_flowrings_pool_fetch r)\<lparr>mr_shared_wr := 0\<rparr>) rings \<and>
     active_tx_count (sys_prot s) = 0 \<and> tx_metadata_offset (sys_prot s) = 0 \<and> dma_maps (sys_prot s) = [] \<and>
     freed (sys_prot s) = [] \<and> sys_rd s = replicate (length rings) 0 \<and> sys_accepted s = replicate (length rings) [] \<and>
     sys_fetched s = replicate (length rings) [] \<and> sys_owned s = []"

lemma fetched_ring_rep:
  "ring_attached r \<Longrightarrow> h2d_rep ((dhd_prot_flowrings_pool_fetch r)\<lparr>mr_shared_wr := 0\<rparr>) [] 0 0 0"
  by (auto simp: ring_attached_def h2d_rep_def dhd_prot_flowrings_pool_fetch_def phase_at_def unat_eq_0 [symmetric] Let_def)

lemma inv_start:
  assumes "tx_start N block rings s"
  shows "tx_inv N s (\<lambda>_. []) (\<lambda>_. 0) (\<lambda>_. 0)"
proof -
  note st = assms [unfolded tx_start_def]
  have m: "pm_inv N (pktid_tx_map (sys_prot s))" "pm_view (pktid_tx_map (sys_prot s)) = Map.empty"
    using st pm_init_inv [of N "Some block" True True "pktid_tx_map (sys_prot s)"] by auto
  have out: "outstanding s (\<lambda>_. []) = {#}" using st by (simp add: outstanding_def in_ring_def)
  show ?thesis
  proof (rule tx_invI [where n = "length rings"])
    show "ring_ok (h2d_flowrings_pool (sys_prot s) ! ix) (sys_rd s ! ix) (sys_accepted s ! ix) (sys_fetched s ! ix) [] 0 0"
      if "ix < length rings" for ix
      using st that fetched_ring_rep [of "rings ! ix"] by (auto simp: ring_ok_def list_all_length)
    show "accounts N (sys_prot s) (outstanding s (\<lambda>_. []))" using st m by (simp add: accounts_def out)
  qed (use st in \<open>simp_all add: out\<close>)
qed

text \<open>One call of \<open>dhd_prot_txdata\<close> in a state of the system.\<close>

lemma inv_send:
  assumes inv: "tx_inv N s posted S R" and env: "have_flow_ring_table env" "\<not> fr_phase_nibble env"
    and ix: "ix = DHD_FLOWRINGS_POOL_OFFSET (PKT_FLOWID env pkt)" "ix < length (h2d_flowrings_pool (sys_prot s))"
    and rq: "rq = req_of env pkt ifidx (sys_prot s)" "req_ok rq"
    and t: "dhd_prot_txdata env (sys_rd s ! ix) pkt ifidx (sys_prot s) = (ret, prot')"
  defines "acc \<equiv> tx_accepts env pkt (sys_prot s) (length (sys_accepted s ! ix)) (length (sys_fetched s ! ix))
    (unat (mr_max_items (h2d_flowrings_pool (sys_prot s) ! ix)))"
  shows "ret = (if acc then BCME_OK else BCME_NORESOURCE)"
    and "\<exists>posted' S' R'. tx_inv N (s\<lparr>sys_prot := prot',
      sys_accepted := (if ret = BCME_OK then (sys_accepted s)[ix := sys_accepted s ! ix @ [rq]] else sys_accepted s)\<rparr>) posted' S' R'"
    and "\<not> acc \<Longrightarrow> pm_view (pktid_tx_map prot') = pm_view (pktid_tx_map (sys_prot s)) \<and> dma_maps prot' = dma_maps (sys_prot s) \<and>
      freed prot' = freed (sys_prot s) \<and> active_tx_count prot' = active_tx_count (sys_prot s)"
    and "\<And>j. j \<noteq> ix \<Longrightarrow> h2d_flowrings_pool prot' ! j = h2d_flowrings_pool (sys_prot s) ! j"
proof -
  let ?prot = "sys_prot s" and ?ring = "h2d_flowrings_pool (sys_prot s) ! ix"
  let ?d = "unat (mr_max_items ?ring)" and ?P = "length (posted ix)" and ?V = "length (sys_fetched s ! ix)"
  note i = tx_invD [OF inv]
  have rep: "h2d_rep ?ring (posted ix) (S ix) ?V (R ix)" and drd: "unat (sys_rd s ! ix) = ?V mod ?d"
      and P: "length (sys_accepted s ! ix) = ?P"
    using i(4) [OF ix(2)] by (auto simp: ring_ok_def dest: list_all2_lengthD)
  have m: "pm_inv N (pktid_tx_map ?prot)" "tx_metadata_offset ?prot = 0" using i(5) by (simp_all add: accounts_def)
  obtain data len where rq': "rq = (env, pkt, ifidx, data, len)" "data = pkt_data ?prot pkt"
      "len = of_nat (pkt_len ?prot pkt) - of_nat ETHER_HDR_LEN" by (simp add: rq(1) req_of_def)
  let ?pa = "DMA_MAP env (data + ETHER_HDR_LEN) (unat len) DMA_TX"
  note step = txdata_step [OF env m(2,1) rep [unfolded ix(1)] drd [unfolded ix(1)] t [unfolded ix(1)],
      folded ix(1), folded rq'(2,3), folded P, folded acc_def]
  have ret: "ret = (if acc then BCME_OK else BCME_NORESOURCE)" using step by (auto split: if_splits)
  then show "ret = (if acc then BCME_OK else BCME_NORESOURCE)" .
  show "\<exists>posted' S' R'. tx_inv N (s\<lparr>sys_prot := prot',
      sys_accepted := (if ret = BCME_OK then (sys_accepted s)[ix := sys_accepted s ! ix @ [rq]] else sys_accepted s)\<rparr>) posted' S' R'"
  proof (cases acc)
    case True
    then obtain k m' ring' S' R' where k: "pm_view (pktid_tx_map ?prot) k = None" "pm_inv N m'"
        "pm_view m' = (pm_view (pktid_tx_map ?prot))(k \<mapsto> tx_locker pkt ?pa len)"
        and r: "h2d_rep ring' (posted ix @ [tx_desc env pkt ifidx data len ?pa k (phase_at ?d (?P + 1))]) S' ?V R'"
          "mr_max_items ring' = mr_max_items ?ring"
        and v: "tx_view prot' = (m', (h2d_flowrings_pool ?prot)[ix := ring'], active_tx_count ?prot + 1, 0,
          (?pa, unat len) # dma_maps ?prot, freed ?prot)"
      using step by (auto simp: P)
    let ?desc = "tx_desc env pkt ifidx data len ?pa k (phase_at ?d (?P + 1))"
    have a: "accounts N prot' (add_mset (?desc, rq) (outstanding s posted))"
      using accounts_add [OF i(5) k(1,2), of rq ?desc prot'] k(3) v rq(2) by (simp add: rq'(1) tx_desc_def)
    show ?thesis using inv_post [OF inv ix(2) r(1,2), of rq prot'] tx_viewD [OF v] a ret True
      by (auto simp: rq'(1) tx_desc_def)
  next
    case False
    then obtain m' ring' R' where m': "pm_inv N m'" "pm_view m' = pm_view (pktid_tx_map ?prot)"
        and r: "h2d_rep ring' (posted ix) (S ix) ?V R'" "mr_max_items ring' = mr_max_items ?ring"
        and v: "tx_view prot' = (m', (h2d_flowrings_pool ?prot)[ix := ring'], active_tx_count ?prot, 0, dma_maps ?prot, freed ?prot)"
      using step by auto
    have a: "accounts N prot' (outstanding s posted)" using accounts_same [OF i(5) m' v] .
    show ?thesis using inv_ring [OF inv ix(2) r, of prot'] tx_viewD [OF v] a ret False by auto
  qed
  show "\<not> acc \<Longrightarrow> pm_view (pktid_tx_map prot') = pm_view (pktid_tx_map ?prot) \<and> dma_maps prot' = dma_maps ?prot \<and>
      freed prot' = freed ?prot \<and> active_tx_count prot' = active_tx_count ?prot"
    using step by (auto simp: tx_view_def)
  show "h2d_flowrings_pool prot' ! j = h2d_flowrings_pool ?prot ! j" if "j \<noteq> ix" for j
    using step that by (auto simp: tx_view_def split: if_splits)
qed

lemma inv_publish:
  assumes inv: "tx_inv N s posted S R" and ix: "DHD_FLOWRINGS_POOL_OFFSET flowid < length (h2d_flowrings_pool (sys_prot s))"
  shows "\<exists>S' R'. tx_inv N (s\<lparr>sys_prot := dhd_prot_txdata_write_flush env flowid (sys_prot s)\<rparr>) posted S' R'"
proof -
  let ?ix = "DHD_FLOWRINGS_POOL_OFFSET flowid" and ?p = "dhd_prot_txdata_write_flush env flowid (sys_prot s)"
  let ?ring = "h2d_flowrings_pool (sys_prot s) ! ?ix"
  note i = tx_invD [OF inv]
  show ?thesis
  proof (cases "have_flow_ring_table env \<and> mr_pend_items_count ?ring \<noteq> 0")
    case True
    then have p: "?p = (set_ring ?ix (write_flush_ring ?ring) (sys_prot s))\<lparr>tx_h2d_db_cnt := tx_h2d_db_cnt (sys_prot s) + 1\<rparr>"
      by (simp add: dhd_prot_txdata_write_flush_def Let_def)
    have "tx_view ?p = (pktid_tx_map (sys_prot s), (h2d_flowrings_pool (sys_prot s))[?ix := write_flush_ring ?ring],
        active_tx_count (sys_prot s), 0, dma_maps (sys_prot s), freed (sys_prot s))"
      using i(5) by (simp add: p tx_view_def accounts_def)
    note v = tx_viewD [OF this] and acc = accounts_same [OF i(5) _ refl this]
    have rep: "h2d_rep ?ring (posted ?ix) (S ?ix) (length (sys_fetched s ! ?ix)) (R ?ix)" using i(4) [OF ix] by (simp add: ring_ok_def)
    show ?thesis using inv_ring [OF inv ix write_flush_rep [OF rep], of ?p] v acc True i(5) by (auto simp: accounts_def)
  next
    case False
    then have "?p = sys_prot s" by (auto simp: dhd_prot_txdata_write_flush_def Let_def)
    then show ?thesis using inv by auto
  qed
qed

theorem tx_reach_inv:
  assumes "tx_reach s0 s" "tx_start N block rings s0"
  shows "\<exists>posted S R. tx_inv N s posted S R"
  using assms
proof (induction rule: tx_reach.induct)
  case start
  then show ?case using inv_start by blast
next
  case (send s env ix pkt rq ifidx ret prot')
  then obtain posted S R where "tx_inv N s posted S R" by blast
  from inv_send(2) [OF this send.hyps(2-8)] show ?case by blast
next
  case (publish s flowid env)
  then obtain posted S R where "tx_inv N s posted S R" by blast
  from inv_publish [OF this publish.hyps(2)] show ?case by blast
next
  case (fetch s ix ring desc)
  then obtain posted S R where "tx_inv N s posted S R" by blast
  from inv_fetch [OF this fetch.hyps(2-5)] show ?case by blast
next
  case (complete s x)
  then obtain posted S R where "tx_inv N s posted S R" by blast
  from inv_complete [OF this complete.hyps(2)] show ?case by blast
qed


text \<open>Numbers of the accounts.\<close>

lemma accounts_avail:
  assumes acc: "accounts N prot M"
  shows "unat (dhd_pktid_map_avail_cnt (pktid_tx_map prot)) + size M = unat N"
proof -
  let ?m = "pktid_tx_map prot"
  have inv: "pm_inv N ?m" and ids: "image_mset tx_id M = mset_set (dom (pm_view ?m))" using acc by (auto simp: accounts_def)
  have n: "pm_items ?m = N" "unat N < 2 ^ 31" using inv by (auto simp: pm_inv_def)
  have sub: "pm_free ?m \<subseteq> {k. k \<noteq> 0 \<and> k \<le> N}" using n by (auto simp: pm_free_def)
  have "size M = card (dom (pm_view ?m))" using arg_cong [OF ids, of size] by simp
  also have "\<dots> = unat N - card (pm_free ?m)" unfolding pm_view_dom n using sub by (simp add: card_Diff_subset card_ids [OF n(2)])
  finally show ?thesis using pm_avail_free [OF inv] card_mono [OF _ sub] card_ids [OF n(2)] by (simp add: dhd_pktid_map_avail_cnt_def)
qed

lemma accounts_distinct:
  assumes acc: "accounts N prot M" and sub: "mset xs \<subseteq># M"
  shows "distinct (map tx_id xs)"
proof -
  have "mset (map tx_id xs) \<subseteq># mset_set (dom (pm_view (pktid_tx_map prot)))"
    using image_mset_subseteq_mono [OF sub, of tx_id] acc by (simp add: accounts_def)
  from mset_subset_eq_count [OF this] have le: "count (mset (map tx_id xs)) k \<le> 1" for k
    by (rule order_trans) (simp add: count_mset_set')
  have "count (mset (map tx_id xs)) k = (if k \<in> set (map tx_id xs) then 1 else 0)" for k
  proof (cases "k \<in> set (map tx_id xs)")
    case True
    then have "0 < count (mset (map tx_id xs)) k" by (simp only: count_greater_zero_iff set_mset_mset)
    then show ?thesis unfolding if_P [OF True] using le [of k] by linarith
  qed (simp add: count_eq_zero_iff)
  then show ?thesis unfolding distinct_count_atmost_1 by blast
qed

lemma outstanding_none:
  assumes inv: "tx_inv N s posted S R" and own: "sys_owned s = []" and len: "map length (sys_fetched s) = map length (sys_accepted s)"
  shows "outstanding s posted = {#}"
proof -
  note i = tx_invD [OF inv]
  have "in_ring (sys_fetched s ! ix) (posted ix) (sys_accepted s ! ix) = {#}" if "ix < length (sys_accepted s)" for ix
  proof -
    have "length (sys_fetched s ! ix) = length (sys_accepted s ! ix)" using len that i(2,3) by (metis length_map nth_map)
    then show ?thesis by (simp add: in_ring_def)
  qed
  then show ?thesis by (simp add: outstanding_def own)
qed

section \<open>The data path is correct\<close>





section \<open>A history\<close>

text \<open>Two rings of two and three slots and three ids. A packet is sent, published, fetched and completed.\<close>

definition ex_item :: host_txbuf_post where
  "ex_item = \<lparr>tp_msg_type = 0, tp_if_id = 0, tp_cmn_flags = 0, tp_request_id = 0, tp_txhdr = [], tp_flags = 0, tp_seg_cnt = 0,
     tp_metadata_buf_addr = 0, tp_data_buf_addr = 0, tp_metadata_buf_len = 0, tp_data_len = 0, tp_ext_flags = 0\<rparr>"

definition ex_ring :: "u16 \<Rightarrow> u16 \<Rightarrow> host_txbuf_post msgbuf_ring" where
  "ex_ring idx n = \<lparr>mr_inited = False, mr_idx = idx, mr_rd = 0, mr_curr_rd = 0, mr_wr = 0, mr_max_items = n, mr_item_len = 4,
     mr_va = 20 * unat idx, mr_seqnum = 0, mr_start_addr = NULL, mr_pend_items_count = 0, mr_current_phase = 0, mr_shared_wr = 0,
     mr_shared_rd = 0, mr_items = replicate (unat n) ex_item, mr_dirty = []\<rparr>"

definition ex_env :: tx_env where
  "ex_env = \<lparr>have_flow_ring_table = True, te_max_tx_flowrings = 8, fr_phase_nibble = False, host_sfhllc_supported = False,
     PKTBYTE = (\<lambda>a. of_nat a), PKT_FLOWID = (\<lambda>p. if p = 7 then 3 else 2), PKTPRIO = (\<lambda>p. 5), pkt_is_igmp = (\<lambda>p. False),
     DMA_MAP = (\<lambda>va len dir. 9 + of_nat va)\<rparr>"

definition ex_rings :: "host_txbuf_post msgbuf_ring list" where "ex_rings = [ex_ring 5 2, ex_ring 6 3]"

definition ex_s0 :: tx_sys where
  "ex_s0 = \<lparr>sys_prot = \<lparr>pktid_tx_map = the (dhd_pktid_map_init (Some ex_map) True True 3),
       h2d_flowrings_pool = map (\<lambda>r. (dhd_prot_flowrings_pool_fetch r)\<lparr>mr_shared_wr := 0\<rparr>) ex_rings,
       active_tx_count = 0, txp_threshold = 48, pktid_depleted_cnt = 0, pktid_txq_stop_cnt = 0, tx_metadata_offset = 0,
       no_tx_resource = False, tx_h2d_db_cnt = 0, txq_stopped = False, pkt_head = (\<lambda>p. 2 * p), pkt_data = (\<lambda>p. 2 * p + 1),
       pkt_len = (\<lambda>p. 20 + p), dma_maps = [], freed = []\<rparr>,
     sys_rd = [0, 0], sys_accepted = [[], []], sys_fetched = [[], []], sys_owned = []\<rparr>"

definition ex_send :: "ptr \<Rightarrow> nat \<Rightarrow> tx_sys \<Rightarrow> tx_sys" where
  "ex_send pkt ix s = s\<lparr>sys_prot := snd (dhd_prot_txdata ex_env (sys_rd s ! ix) pkt 1 (sys_prot s)),
     sys_accepted := (sys_accepted s)[ix := sys_accepted s ! ix @ [req_of ex_env pkt 1 (sys_prot s)]]\<rparr>"

definition ex_fetch :: "nat \<Rightarrow> tx_sys \<Rightarrow> tx_sys" where
  "ex_fetch ix s = (let ring = h2d_flowrings_pool (sys_prot s) ! ix; desc = mr_items ring ! unat (sys_rd s ! ix)
     in s\<lparr>sys_rd := (sys_rd s)[ix := next_idx ring (sys_rd s ! ix)],
          sys_fetched := (sys_fetched s)[ix := sys_fetched s ! ix @ [desc]],
          sys_owned := sys_owned s @ [(desc, sys_accepted s ! ix ! length (sys_fetched s ! ix))]\<rparr>)"

definition ex_s1 :: tx_sys where "ex_s1 = ex_send 7 1 ex_s0"
definition ex_s2 :: tx_sys where "ex_s2 = ex_s1\<lparr>sys_prot := dhd_prot_txdata_write_flush ex_env 3 (sys_prot ex_s1)\<rparr>"
definition ex_s3 :: tx_sys where "ex_s3 = ex_fetch 1 ex_s2"

lemma ex_start: "tx_start 3 ex_map ex_rings ex_s0"
  by (simp add: tx_start_def ex_rings_def ex_s0_def ex_ring_def ring_attached_def dhd_pktid_map_init_def ex_map_def)

lemma ex_ret: "fst (dhd_prot_txdata ex_env (sys_rd ex_s0 ! 1) 7 1 (sys_prot ex_s0)) = BCME_OK" by code_simp

lemma ex_reach1: "tx_reach ex_s0 ex_s1"
proof -
  have "tx_reach ex_s0 (ex_s0\<lparr>sys_prot := snd (dhd_prot_txdata ex_env (sys_rd ex_s0 ! 1) 7 1 (sys_prot ex_s0)),
      sys_accepted := (if fst (dhd_prot_txdata ex_env (sys_rd ex_s0 ! 1) 7 1 (sys_prot ex_s0)) = BCME_OK
        then (sys_accepted ex_s0)[1 := sys_accepted ex_s0 ! 1 @ [req_of ex_env 7 1 (sys_prot ex_s0)]] else sys_accepted ex_s0)\<rparr>)"
    by (rule tx_reach.send [OF tx_reach.start _ _ _ _ refl]; (rule surjective_pairing | code_simp))
  then show ?thesis unfolding ex_ret ex_s1_def ex_send_def by simp
qed

lemma ex_pools: "tx_reach ex_s0 s \<Longrightarrow> length (h2d_flowrings_pool (sys_prot s)) = length (sys_rd s)"
  using tx_reach_inv [OF _ ex_start] tx_invD(1) by fastforce

lemma ex_rd: "sys_rd ex_s1 = [0, 0]" "sys_rd ex_s2 = [0, 0]"
  by (simp_all add: ex_s2_def ex_s1_def ex_send_def ex_s0_def)

lemma ex_reach2: "tx_reach ex_s0 ex_s2"
  unfolding ex_s2_def
  by (rule tx_reach.publish [OF ex_reach1]) (simp add: ex_pools [OF ex_reach1] ex_rd DHD_FLOWRINGS_POOL_OFFSET_def)

lemma ex_pool: "1 < length (h2d_flowrings_pool (sys_prot ex_s2))"
  by (simp add: ex_pools [OF ex_reach2] ex_rd)

lemma ex_visible: "sys_rd ex_s2 ! 1 \<noteq> mr_shared_wr (h2d_flowrings_pool (sys_prot ex_s2) ! 1)" by code_simp

lemma ex_reach3: "tx_reach ex_s0 ex_s3"
  unfolding ex_s3_def ex_fetch_def Let_def by (rule tx_reach.fetch [OF ex_reach2 ex_pool refl ex_visible refl])




end
