(* ===== verification/D2h.thy ===== *)
theory D2h
  imports Prot_Tx
begin

text \<open>
  The path from the device of \<open>dhd_msgbuf.c\<close>: waiting until a message has arrived in memory (\<open>dhd_prot_d2h_sync_*\<close>), the
  dispatch of a batch of messages by their type (\<open>dhd_prot_process_msgtype\<close>) and the loop that empties the ring of transmit
  completions (\<open>dhd_prot_process_msgbuf_txcpl\<close>).

  A message is a list of 32 bit words, little endian. The device moves it to memory while the host looks at it:
  \<open>snap k t\<close> is what the host sees in the slot of message number \<open>k\<close> at its read number \<open>t\<close>. Messages are numbered from the
  start of the ring; the number also is the time at which the flags of the bus and the write index of the device are read.
\<close>

section \<open>Messages\<close>

type_synonym msg = "u32 list"

definition msg_type :: "msg \<Rightarrow> u8" where "msg_type m = ucast (m ! 0)"
definition msg_epoch :: "msg \<Rightarrow> u8" where "msg_epoch m = ucast (drop_bit 24 (m ! 0))"
definition request_id :: "msg \<Rightarrow> u32" where "request_id m = m ! 1"

definition MSG_TYPE_INVALID :: u8 where "MSG_TYPE_INVALID = 0"
definition MSG_TYPE_TX_STATUS :: u8 where "MSG_TYPE_TX_STATUS = 0x10"
definition MSG_TYPE_INFO_BUF_CMPLT :: u8 where "MSG_TYPE_INFO_BUF_CMPLT = 0x1A"
definition DHD_PROT_FUNCS :: nat where "DHD_PROT_FUNCS = 43"
definition D2H_EPOCH_MODULO :: u32 where "D2H_EPOCH_MODULO = 253"
definition D2H_EPOCH_INIT_VAL :: u32 where "D2H_EPOCH_INIT_VAL = D2H_EPOCH_MODULO + 1"
definition PCIE_D2H_SYNC_WAIT_TRIES :: nat where "PCIE_D2H_SYNC_WAIT_TRIES = 512"
definition PCIE_D2H_SYNC_NUM_OF_STEPS :: nat where "PCIE_D2H_SYNC_NUM_OF_STEPS = 5"
definition PCIE_SHARED_D2H_SYNC_SEQNUM :: u32 where "PCIE_SHARED_D2H_SYNC_SEQNUM = 0x20000"
definition PCIE_SHARED_D2H_SYNC_XORCSUM :: u32 where "PCIE_SHARED_D2H_SYNC_XORCSUM = 0x40000"

definition bcm_compute_xor32 :: "msg \<Rightarrow> nat \<Rightarrow> u32" where
  "bcm_compute_xor32 u32_val num_u32 = foldl (\<lambda>xor32 idx. xor32 XOR u32_val ! idx) 0 [0..<num_u32]"

section \<open>Waiting for a message\<close>

record d2h_stats =
  d2h_sync_wait_max :: u64
  d2h_sync_wait_tot :: u64
  livelock_occured :: bool
  reset_scheduled :: bool

text \<open>The two nested loops of both modes; \<open>ready t\<close> is their test at read \<open>t\<close>, \<open>induced\<close> the fault injection. The result is
  the number of tries of the step and the read that succeeded, if any.\<close>

function sync_loop ::
    "(nat \<Rightarrow> bool) \<Rightarrow> bool \<Rightarrow> nat \<Rightarrow> nat \<Rightarrow> 'a msgbuf_ring \<Rightarrow> d2h_stats \<Rightarrow> (nat \<times> nat) option \<times> 'a msgbuf_ring \<times> d2h_stats" where
  "sync_loop ready induced step tries ring st =
     (if step > PCIE_D2H_SYNC_NUM_OF_STEPS then (None, ring, st)
      else if tries \<ge> PCIE_D2H_SYNC_WAIT_TRIES then sync_loop ready induced (step + 1) 0 ring st
      else
        (let total_tries = (step - 1) * PCIE_D2H_SYNC_WAIT_TRIES + tries;
             ring = (if ready total_tries then ring\<lparr>mr_seqnum := mr_seqnum ring + 1\<rparr> else ring)
         in if ready total_tries \<and> \<not> induced then (Some (tries, total_tries), ring, st)
            else sync_loop ready induced step (tries + 1) ring
                   (if of_nat total_tries > d2h_sync_wait_max st then st\<lparr>d2h_sync_wait_max := of_nat total_tries\<rparr> else st)))"
  by pat_completeness auto
termination
  by (relation "measures [\<lambda>(ready, induced, step, tries, ring, st). Suc PCIE_D2H_SYNC_NUM_OF_STEPS - step,
      \<lambda>(ready, induced, step, tries, ring, st). PCIE_D2H_SYNC_WAIT_TRIES - tries]") auto

declare sync_loop.simps [simp del]

definition dhd_prot_d2h_sync_livelock :: "bool \<Rightarrow> d2h_stats \<Rightarrow> d2h_stats" where
  "dhd_prot_d2h_sync_livelock bus_errors st =
     (if bus_errors then st else st\<lparr>livelock_occured := True, reset_scheduled := True\<rparr>)"

text \<open>What both modes do after the loops: the message type, the read it is taken from, the ring and the statistics.\<close>

definition sync_done :: "bool \<Rightarrow> (nat \<Rightarrow> msg) \<Rightarrow> (nat \<times> nat) option \<times> 'a msgbuf_ring \<times> d2h_stats \<Rightarrow>
    u8 \<times> nat \<times> 'a msgbuf_ring \<times> d2h_stats" where
  "sync_done bus_errors mem r =
     (case r of
        (None, ring, st) \<Rightarrow>
          (MSG_TYPE_INVALID, 0, ring\<lparr>mr_seqnum := mr_seqnum ring + 1\<rparr>, dhd_prot_d2h_sync_livelock bus_errors st)
      | (Some (tries, t), ring, st) \<Rightarrow>
          (msg_type (mem t), t, ring, st\<lparr>d2h_sync_wait_tot := d2h_sync_wait_tot st + of_nat tries\<rparr>))"

definition dhd_prot_d2h_sync_seqnum ::
    "bool \<Rightarrow> bool \<Rightarrow> (nat \<Rightarrow> msg) \<Rightarrow> nat \<Rightarrow> 'a msgbuf_ring \<Rightarrow> d2h_stats \<Rightarrow> u8 \<times> nat \<times> 'a msgbuf_ring \<times> d2h_stats" where
  "dhd_prot_d2h_sync_seqnum induced bus_errors mem msglen ring st =
     (let ring_seqnum = mr_seqnum ring mod D2H_EPOCH_MODULO;
          num_words = msglen div 4
      in sync_done bus_errors mem (sync_loop (\<lambda>t. mem t ! (num_words - 1) = ring_seqnum) induced 1 0 ring st))"

definition dhd_prot_d2h_sync_xorcsum ::
    "bool \<Rightarrow> bool \<Rightarrow> (nat \<Rightarrow> msg) \<Rightarrow> nat \<Rightarrow> 'a msgbuf_ring \<Rightarrow> d2h_stats \<Rightarrow> u8 \<times> nat \<times> 'a msgbuf_ring \<times> d2h_stats" where
  "dhd_prot_d2h_sync_xorcsum induced bus_errors mem msglen ring st =
     (let ring_seqnum = (ucast (mr_seqnum ring mod D2H_EPOCH_MODULO) :: u8);
          num_words = msglen div 4
      in sync_done bus_errors mem
           (sync_loop (\<lambda>t. msg_epoch (mem t) = ring_seqnum \<and> bcm_compute_xor32 (mem t) num_words = 0) induced 1 0 ring st))"

definition dhd_prot_d2h_sync_none ::
    "bool \<Rightarrow> bool \<Rightarrow> (nat \<Rightarrow> msg) \<Rightarrow> nat \<Rightarrow> 'a msgbuf_ring \<Rightarrow> d2h_stats \<Rightarrow> u8 \<times> nat \<times> 'a msgbuf_ring \<times> d2h_stats" where
  "dhd_prot_d2h_sync_none induced bus_errors mem msglen ring st =
     (if induced then (MSG_TYPE_INVALID, 0, ring, st) else (msg_type (mem 0), 0, ring, st))"

text \<open>The set up of a ring, and the mode that is chosen.\<close>

definition dhd_prot_d2h_sync_init :: "'a msgbuf_ring \<Rightarrow> d2h_stats \<Rightarrow> 'a msgbuf_ring \<times> d2h_stats" where
  "dhd_prot_d2h_sync_init ring st =
     (ring\<lparr>mr_seqnum := D2H_EPOCH_INIT_VAL, mr_current_phase := BCMPCIE_CMNHDR_PHASE_BIT_INIT\<rparr>,
      st\<lparr>d2h_sync_wait_max := 0, d2h_sync_wait_tot := 0\<rparr>)"

definition d2h_sync_cb ::
    "u32 \<Rightarrow> bool \<Rightarrow> bool \<Rightarrow> (nat \<Rightarrow> msg) \<Rightarrow> nat \<Rightarrow> 'a msgbuf_ring \<Rightarrow> d2h_stats \<Rightarrow> u8 \<times> nat \<times> 'a msgbuf_ring \<times> d2h_stats" where
  "d2h_sync_cb d2h_sync_mode =
     (if d2h_sync_mode AND PCIE_SHARED_D2H_SYNC_SEQNUM \<noteq> 0 then dhd_prot_d2h_sync_seqnum
      else if d2h_sync_mode AND PCIE_SHARED_D2H_SYNC_XORCSUM \<noteq> 0 then dhd_prot_d2h_sync_xorcsum
      else dhd_prot_d2h_sync_none)"

section \<open>Processing a batch\<close>

text \<open>What is read from outside: the flags of the driver and of the bus, the write index of the device, the memory, the
  handlers by message type. \<open>'p\<close> is the state that the handlers change.\<close>

record 'p d2h_env =
  d2h_sync_mode :: u32
  induce_livelock :: bool
  tx_cpl_bound :: nat
  is_device_removed :: "nat \<Rightarrow> bool"
  query_bus_erros :: "nat \<Rightarrow> bool"
  hang_was_sent :: "nat \<Rightarrow> bool"
  smmu_fault_occurred :: "nat \<Rightarrow> bool"
  dev_wr :: "nat \<Rightarrow> u16"
  snap :: "nat \<Rightarrow> nat \<Rightarrow> msg"
  table_lookup :: "u8 \<Rightarrow> (msg \<Rightarrow> 'p \<Rightarrow> 'p) option"

definition next_curr_rd :: "'a msgbuf_ring \<Rightarrow> 'a msgbuf_ring" where
  "next_curr_rd ring =
     (if unat (mr_curr_rd ring) + 1 \<ge> unat (mr_max_items ring) then ring\<lparr>mr_curr_rd := 0\<rparr>
      else ring\<lparr>mr_curr_rd := mr_curr_rd ring + 1\<rparr>)"

text \<open>The handler of a message on the ring of transmit completions, which is not the ring of info buffers.\<close>

definition dispatch :: "'p d2h_env \<Rightarrow> u8 \<Rightarrow> msg \<Rightarrow> 'p \<Rightarrow> 'p" where
  "dispatch env ty m p =
     (if ty = MSG_TYPE_INFO_BUF_CMPLT then p else case table_lookup env ty of None \<Rightarrow> p | Some f \<Rightarrow> f m p)"

partial_function (option) msgtype_loop ::
    "'p d2h_env \<Rightarrow> nat \<Rightarrow> nat \<Rightarrow> 'a msgbuf_ring \<Rightarrow> d2h_stats \<Rightarrow> 'p \<Rightarrow> (bcme \<times> 'a msgbuf_ring \<times> d2h_stats \<times> 'p) option" where
  "msgtype_loop env k buf_len ring st p =
     (if buf_len = 0 then Some (BCME_OK, ring, st, p)
      else if hang_was_sent env k \<or> smmu_fault_occurred env k then Some (BCME_ERROR, ring, st, p)
      else
        (case d2h_sync_cb (d2h_sync_mode env) (induce_livelock env) (query_bus_erros env k) (snap env k)
                (unat (mr_item_len ring)) ring st of
           (ty, t, ring, st) \<Rightarrow>
             (let ring = next_curr_rd ring
              in if unat ty \<ge> DHD_PROT_FUNCS then Some (BCME_ERROR, ring, st, p)
                 else
                   (let p = dispatch env ty (snap env k t) p
                    in if buf_len < unat (mr_item_len ring) then Some (BCME_ERROR, ring, st, p)
                       else msgtype_loop env (k + 1) (buf_len - unat (mr_item_len ring)) ring st p))))"

definition dhd_prot_process_msgtype ::
    "'p d2h_env \<Rightarrow> nat \<Rightarrow> u32 \<Rightarrow> 'a msgbuf_ring \<Rightarrow> d2h_stats \<Rightarrow> 'p \<Rightarrow> (bcme \<times> 'a msgbuf_ring \<times> d2h_stats \<times> 'p) option" where
  "dhd_prot_process_msgtype env k len ring st p =
     (if mr_item_len ring = 0 then Some (BCME_ERROR, ring, st, p) else msgtype_loop env k (unat len) ring st p)"

text \<open>The loop over batches. The result says whether there may be more, and how many messages were consumed.\<close>

partial_function (option) txcpl_loop ::
    "'p d2h_env \<Rightarrow> nat \<Rightarrow> nat \<Rightarrow> 'a msgbuf_ring \<Rightarrow> d2h_stats \<Rightarrow> 'p \<Rightarrow> (bool \<times> nat \<times> 'a msgbuf_ring \<times> d2h_stats \<times> 'p) option" where
  "txcpl_loop env n k ring st p =
     (if is_device_removed env k then Some (True, n, ring, st, p)
      else if query_bus_erros env k \<or> hang_was_sent env k \<or> smmu_fault_occurred env k then Some (False, n, ring, st, p)
      else
        (case dhd_prot_get_read_addr (dev_wr env k) (of_nat (tx_cpl_bound env - n)) ring of
           (msg_addr, msg_len, reset, ring) \<Rightarrow>
             (let st = (if reset then st\<lparr>reset_scheduled := True\<rparr> else st)
              in if msg_addr = NULL then Some (False, n, ring, st, p)
                 else
                   (case dhd_prot_process_msgtype env k (the msg_len) ring st p of
                      None \<Rightarrow> None
                    | Some (ret, ring, st, p) \<Rightarrow>
                        (let items = unat (the msg_len) div unat (mr_item_len ring);
                             ring = dhd_prot_upd_read_idx ring;
                             n = n + items
                         in if n \<ge> tx_cpl_bound env then Some (True, n, ring, st, p)
                            else txcpl_loop env n (k + items) ring st p)))))"

definition dhd_prot_process_msgbuf_txcpl ::
    "'p d2h_env \<Rightarrow> nat \<Rightarrow> 'a msgbuf_ring \<Rightarrow> d2h_stats \<Rightarrow> 'p \<Rightarrow> (bool \<times> nat \<times> 'a msgbuf_ring \<times> d2h_stats \<times> 'p) option" where
  "dhd_prot_process_msgbuf_txcpl env k ring st p = txcpl_loop env 0 k ring st p"

text \<open>The entry of the table for transmit completions; the other entries are a parameter.\<close>

definition tx_table :: "(u8 \<Rightarrow> (msg \<Rightarrow> dhd_prot \<Rightarrow> dhd_prot) option) \<Rightarrow> u8 \<Rightarrow> (msg \<Rightarrow> dhd_prot \<Rightarrow> dhd_prot) option" where
  "tx_table other ty =
     (if ty = MSG_TYPE_INVALID then Some (\<lambda>m p. p)
      else if ty = MSG_TYPE_TX_STATUS then Some (\<lambda>m. dhd_prot_txstatus_process (request_id m))
      else other ty)"

end
