(* ===== verification/D2h_Rep.thy ===== *)
theory D2h_Rep
  imports D2h Msg_Ring_Rep
begin

text \<open>
  The loops of the path from the device on a device that numbers its messages and whose writes arrive in order: a wait ends
  with the message itself, never with what its slot held before, or with a skipped message and a report; a batch is read from
  inside the buffer and handled in order; the loop over batches ends and stops exactly at its bound or at the write index.
\<close>


section \<open>Waiting\<close>

abbreviation sync_tries :: nat where "sync_tries \<equiv> PCIE_D2H_SYNC_NUM_OF_STEPS * PCIE_D2H_SYNC_WAIT_TRIES"

text \<open>Without fault injection the loops find a read that passes the test if there is one among the reads left.\<close>

lemma sync_loop_result:
  assumes "sync_loop ready induced step tries ring st = (r, ring', st')" "\<not> induced" "1 \<le> step" "tries \<le> PCIE_D2H_SYNC_WAIT_TRIES"
  shows "case r of
      None \<Rightarrow> ring' = ring \<and> (\<forall>t. (step - 1) * PCIE_D2H_SYNC_WAIT_TRIES + tries \<le> t \<and> t < sync_tries \<longrightarrow> \<not> ready t)
    | Some (tr, t) \<Rightarrow> ring' = ring\<lparr>mr_seqnum := mr_seqnum ring + 1\<rparr> \<and> ready t \<and> t < sync_tries"
  using assms
proof (induction ready induced step tries ring st rule: sync_loop.induct)
  case (1 ready induced step tries ring st)
  let ?t = "(step - 1) * PCIE_D2H_SYNC_WAIT_TRIES + tries"
  consider "step > PCIE_D2H_SYNC_NUM_OF_STEPS" | "step \<le> PCIE_D2H_SYNC_NUM_OF_STEPS" "tries = PCIE_D2H_SYNC_WAIT_TRIES"
    | "step \<le> PCIE_D2H_SYNC_NUM_OF_STEPS" "tries < PCIE_D2H_SYNC_WAIT_TRIES" using 1(6) by linarith
  then show ?case
  proof cases
    case 1
    then have "sync_tries \<le> (step - 1) * PCIE_D2H_SYNC_WAIT_TRIES" by (intro mult_right_mono) auto
    then have "\<not> t < sync_tries" if "?t \<le> t" for t using that by linarith
    moreover have "r = None \<and> ring' = ring" using 1 "1.prems"(1) by (subst (asm) sync_loop.simps) simp
    ultimately show ?thesis by auto
  next
    case 2
    then have "sync_loop ready induced (step + 1) 0 ring st = (r, ring', st')"
      using "1.prems"(1) by (subst (asm) sync_loop.simps) simp
    moreover have "(step + 1 - 1) * PCIE_D2H_SYNC_WAIT_TRIES + 0 = ?t" using 2 "1.prems"(3) by (cases step) auto
    ultimately show ?thesis using "1.IH"(1) 2 "1.prems"(2) by (cases r) auto
  next
    case 3
    have lt: "?t < sync_tries"
    proof -
      have "?t < (step - 1) * PCIE_D2H_SYNC_WAIT_TRIES + PCIE_D2H_SYNC_WAIT_TRIES" using 3 by simp
      also have "\<dots> = step * PCIE_D2H_SYNC_WAIT_TRIES" using "1.prems"(3) by (cases step) auto
      also have "\<dots> \<le> sync_tries" using 3 by simp
      finally show ?thesis .
    qed
    show ?thesis
    proof (cases "ready ?t")
      case True
      then have "r = Some (tries, ?t) \<and> ring' = ring\<lparr>mr_seqnum := mr_seqnum ring + 1\<rparr>"
        using "1.prems"(1,2) 3 by (subst (asm) sync_loop.simps) (simp add: Let_def)
      then show ?thesis using True lt by simp
    next
      case False
      let ?st = "if of_nat ?t > d2h_sync_wait_max st then st\<lparr>d2h_sync_wait_max := of_nat ?t\<rparr> else st"
      have e: "sync_loop ready induced step (tries + 1) ring ?st = (r, ring', st')"
        using "1.prems"(1) 3 False by (subst (asm) sync_loop.simps) (simp add: Let_def del: One_nat_def of_nat_add of_nat_mult split del: if_split)
      have "\<not> step > PCIE_D2H_SYNC_NUM_OF_STEPS" "\<not> tries \<ge> PCIE_D2H_SYNC_WAIT_TRIES" using 3 by auto
      note IH = "1.IH"(2) [OF this refl refl _ , of ] 
      have "case r of
          None \<Rightarrow> ring' = ring \<and> (\<forall>t. (step - 1) * PCIE_D2H_SYNC_WAIT_TRIES + (tries + 1) \<le> t \<and> t < sync_tries \<longrightarrow> \<not> ready t)
        | Some (tr, t) \<Rightarrow> ring' = ring\<lparr>mr_seqnum := mr_seqnum ring + 1\<rparr> \<and> ready t \<and> t < sync_tries"
        using IH e False 3 "1.prems"(2,3) by (simp del: One_nat_def add_Suc_right of_nat_add of_nat_mult cong: option.case_cong)
      moreover have "t = ?t \<or> ?t + 1 \<le> t" if "?t \<le> t" for t using that by linarith
      ultimately show ?thesis using False by (auto split: option.splits)
    qed
  qed
qed

text \<open>Both modes: the message is taken from a read that passed the test, or, when none does, it is skipped and a livelock is
  reported; the ring expects the next sequence number in any case.\<close>

lemma sync_done_result:
  assumes "sync_done be mem (sync_loop ready False 1 0 ring st) = (ty, t, ring', st')"
  shows "ring' = ring\<lparr>mr_seqnum := mr_seqnum ring + 1\<rparr> \<and>
    (if \<exists>t < sync_tries. ready t then ready t \<and> t < sync_tries \<and> ty = msg_type (mem t)
     else ty = MSG_TYPE_INVALID \<and> (\<not> be \<longrightarrow> livelock_occured st'))"
proof -
  obtain r ring1 st1 where l: "sync_loop ready False 1 0 ring st = (r, ring1, st1)" by (rule prod_cases3)
  from sync_loop_result [OF l] show ?thesis
    using assms unfolding l sync_done_def
    by (cases r) (auto simp: dhd_prot_d2h_sync_livelock_def split: if_splits prod.splits)
qed

section \<open>The device\<close>

text \<open>Message \<open>k\<close> has sequence number \<open>254 + k\<close>, modulo 253, in its last word; the words of a message arrive in order, over
  what its slot held before: zeros on the first lap of a ring of \<open>d\<close> items, the message \<open>d\<close> before it later.\<close>

definition slot_before :: "(nat \<Rightarrow> msg) \<Rightarrow> nat \<Rightarrow> nat \<Rightarrow> nat \<Rightarrow> msg" where
  "slot_before msgs d L k = (if k < d then replicate L 0 else msgs (k - d))"

definition ordered_dma :: "(nat \<Rightarrow> msg) \<Rightarrow> nat \<Rightarrow> nat \<Rightarrow> (nat \<Rightarrow> nat \<Rightarrow> msg) \<Rightarrow> bool" where
  "ordered_dma msgs d L snp \<longleftrightarrow> 0 < L \<and>
     (\<forall>k. length (msgs k) = L \<and> msgs k ! (L - 1) = of_nat ((254 + k) mod 253)) \<and>
     (\<forall>k t. \<exists>c \<le> L. snp k t = take c (msgs k) @ drop c (slot_before msgs d L k))"

lemma of_nat_u32_eq: "a < 2 ^ 32 \<Longrightarrow> b < 2 ^ 32 \<Longrightarrow> (of_nat a :: u32) = of_nat b \<longleftrightarrow> a = b"
  by (auto simp: word_unat_eq_iff unat_of_nat)

lemma epoch_differs:
  assumes "(d :: nat) mod 253 \<noteq> 0" "d \<le> k"
  shows "(254 + (k - d)) mod 253 \<noteq> (254 + k) mod 253"
proof
  assume "(254 + (k - d)) mod 253 = (254 + k) mod 253"
  then have "253 dvd (254 + k) - (254 + (k - d))" by (intro mod_eq_dvd_iff_nat [THEN iffD1]) auto
  then show False using assms by (simp add: dvd_eq_mod_eq_0)
qed

lemma fresh_iff:
  assumes dma: "ordered_dma msgs d L snp" and d: "d mod 253 \<noteq> 0" and k: "k < d \<Longrightarrow> (k + 1) mod 253 \<noteq> 0"
  shows "snp k t ! (L - 1) = of_nat ((254 + k) mod 253) \<longleftrightarrow> snp k t = msgs k"
proof
  have L: "0 < L" "\<And>k. length (msgs k) = L" "\<And>k. msgs k ! (L - 1) = of_nat ((254 + k) mod 253)"
    using dma by (auto simp: ordered_dma_def)
  obtain c where c: "c \<le> L" "snp k t = take c (msgs k) @ drop c (slot_before msgs d L k)"
    using dma unfolding ordered_dma_def by blast
  have len: "length (slot_before msgs d L k) = L" using L by (simp add: slot_before_def)
  assume eq: "snp k t ! (L - 1) = of_nat ((254 + k) mod 253)"
  show "snp k t = msgs k"
  proof (cases "c = L")
    case True
    then show ?thesis using c len L by simp
  next
    case False
    then have "\<not> L - 1 < c" using c(1) by linarith
    then have old: "snp k t ! (L - 1) = slot_before msgs d L k ! (L - 1)" using c len L(1,2) by (simp add: nth_append)
    have small: "j mod 253 < 2 ^ 32" for j :: nat by (rule less_trans [of _ 253]) simp_all
    have "slot_before msgs d L k ! (L - 1) \<noteq> of_nat ((254 + k) mod 253)"
    proof (cases "k < d")
      case True
      have "254 + k = k + 1 + 253" by simp
      then have "(254 + k) mod 253 = (k + 1) mod 253" by (simp only: mod_add_self2)
      then have "(254 + k) mod 253 \<noteq> 0" using True k by simp
      then have "(of_nat 0 :: u32) \<noteq> of_nat ((254 + k) mod 253)" using of_nat_u32_eq [OF _ small, of 0 "254 + k"] by simp
      then show ?thesis using True L(1) by (simp add: slot_before_def)
    next
      case False
      then show ?thesis using epoch_differs [OF d, of k] L(3) by (simp add: slot_before_def of_nat_u32_eq small)
    qed
    then show ?thesis using eq old by simp
  qed
qed (use dma in \<open>auto simp: ordered_dma_def\<close>)

definition arrived :: "(nat \<Rightarrow> msg) \<Rightarrow> (nat \<Rightarrow> nat \<Rightarrow> msg) \<Rightarrow> nat \<Rightarrow> bool" where
  "arrived msgs snp k \<longleftrightarrow> (\<exists>t < sync_tries. snp k t = msgs k)"

lemma sync_seqnum_step:
  assumes dma: "ordered_dma msgs d L snp" "d mod 253 \<noteq> 0" "k < d \<Longrightarrow> (k + 1) mod 253 \<noteq> 0"
    and ring: "mr_seqnum ring = of_nat (254 + k)" "254 + k < 2 ^ 32"
    and s: "dhd_prot_d2h_sync_seqnum False be (snp k) (4 * L) ring st = (ty, t, ring', st')"
  shows "ring' = ring\<lparr>mr_seqnum := of_nat (254 + Suc k)\<rparr>"
    and "if arrived msgs snp k then snp k t = msgs k \<and> ty = msg_type (msgs k) else ty = MSG_TYPE_INVALID \<and> (\<not> be \<longrightarrow> livelock_occured st')"
proof -
  have seq: "mr_seqnum ring mod D2H_EPOCH_MODULO = of_nat ((254 + k) mod 253)"
  proof -
    have "unat (mr_seqnum ring mod D2H_EPOCH_MODULO) = (254 + k) mod 253"
      using ring by (simp add: unat_mod_distrib D2H_EPOCH_MODULO_def unat_of_nat del: of_nat_add)
    then show ?thesis by (metis of_nat_unat ucast_id)
  qed
  have ready: "(\<lambda>t. snp k t ! (4 * L div 4 - 1) = mr_seqnum ring mod D2H_EPOCH_MODULO) = (\<lambda>t. snp k t = msgs k)"
    unfolding seq using fresh_iff [OF dma] by (simp add: fun_eq_iff)
  note r = sync_done_result [OF s [unfolded dhd_prot_d2h_sync_seqnum_def Let_def ready]]
  show "ring' = ring\<lparr>mr_seqnum := of_nat (254 + Suc k)\<rparr>" using r ring by simp
  show "if arrived msgs snp k then snp k t = msgs k \<and> ty = msg_type (msgs k) else ty = MSG_TYPE_INVALID \<and> (\<not> be \<longrightarrow> livelock_occured st')"
    using r by (auto simp: arrived_def split: if_splits)
qed


section \<open>Batches\<close>

text \<open>What a message does: its handler is called with it when it arrives in time, and with a message of type 0 otherwise.\<close>

definition handle_msg :: "'p d2h_env \<Rightarrow> (nat \<Rightarrow> msg) \<Rightarrow> nat \<Rightarrow> 'p \<Rightarrow> 'p" where
  "handle_msg env msgs k p = (if arrived msgs (snap env) k then dispatch env (msg_type (msgs k)) (msgs k) p else p)"

text \<open>The conditions under which the loops are run: no fault is reported, the sequence number mode is used, the handler for
  type 0 does nothing, and all messages have a type in the table.\<close>

definition d2h_quiet :: "'p d2h_env \<Rightarrow> (nat \<Rightarrow> msg) \<Rightarrow> bool" where
  "d2h_quiet env msgs \<longleftrightarrow> d2h_sync_mode env AND PCIE_SHARED_D2H_SYNC_SEQNUM \<noteq> 0 \<and> \<not> induce_livelock env \<and>
     table_lookup env MSG_TYPE_INVALID = Some (\<lambda>m p. p) \<and>
     (\<forall>k. \<not> is_device_removed env k \<and> \<not> query_bus_erros env k \<and> \<not> hang_was_sent env k \<and> \<not> smmu_fault_occurred env k \<and>
        unat (msg_type (msgs k)) < DHD_PROT_FUNCS)"

text \<open>Slot 252 of a ring with more slots is excluded on the first lap: see \<open>d2h_blank_slot_accepted\<close>.\<close>

definition seq_clear :: "nat \<Rightarrow> nat \<Rightarrow> nat \<Rightarrow> bool" where
  "seq_clear d k k' \<longleftrightarrow> d mod 253 \<noteq> 0 \<and> 254 + k' < 2 ^ 32 \<and> (\<forall>j. k \<le> j \<and> j < k' \<and> j < d \<longrightarrow> (j + 1) mod 253 \<noteq> 0)"

lemma next_curr_rd_eq: "\<exists>cr. next_curr_rd ring = ring\<lparr>mr_curr_rd := cr\<rparr>"
  by (auto simp: next_curr_rd_def)

lemma msgtype_loop_ok:
  assumes dma: "ordered_dma msgs d L (snap env)" and q: "d2h_quiet env msgs" and clear: "seq_clear d k (k + m)"
    and ring: "mr_seqnum ring = of_nat (254 + k)" "unat (mr_item_len ring) = 4 * L"
  shows "\<exists>cr st'. msgtype_loop env k (m * (4 * L)) ring st p =
    Some (BCME_OK, ring\<lparr>mr_curr_rd := cr, mr_seqnum := of_nat (254 + (k + m))\<rparr>, st', fold (handle_msg env msgs) [k..<k + m] p)"
  using clear ring
proof (induction m arbitrary: k ring st p)
  case 0
  then have e: "ring\<lparr>mr_curr_rd := mr_curr_rd ring, mr_seqnum := of_nat (254 + (k + 0))\<rparr> = ring" by simp
  have "msgtype_loop env k (0 * (4 * L)) ring st p = Some (BCME_OK, ring, st, p)" by (subst msgtype_loop.simps) simp
  then show ?case using e by (intro exI [of _ "mr_curr_rd ring"] exI [of _ st]) simp
next
  case (Suc m)
  have L: "0 < L" using dma by (simp add: ordered_dma_def)
  obtain ty t ring1 st1 where s: "dhd_prot_d2h_sync_seqnum False False (snap env k) (4 * L) ring st = (ty, t, ring1, st1)"
    by (metis prod_cases4)
  have c: "d mod 253 \<noteq> 0" "k < d \<Longrightarrow> (k + 1) mod 253 \<noteq> 0" "254 + k < 2 ^ 32" "seq_clear d (k + 1) (k + 1 + m)"
    using Suc.prems(1) by (auto simp: seq_clear_def)
  note step = sync_seqnum_step [OF dma c(1,2) Suc.prems(2) c(3) s]
  have zero: "unat MSG_TYPE_INVALID < DHD_PROT_FUNCS" "MSG_TYPE_INVALID \<noteq> MSG_TYPE_INFO_BUF_CMPLT"
    by (simp_all add: MSG_TYPE_INVALID_def DHD_PROT_FUNCS_def MSG_TYPE_INFO_BUF_CMPLT_def)
  have ty: "\<not> unat ty \<ge> DHD_PROT_FUNCS" using step(2) q zero by (auto simp: d2h_quiet_def not_le split: if_splits)
  have h: "dispatch env ty (snap env k t) p = handle_msg env msgs k p"
  proof (cases "arrived msgs (snap env) k")
    case True
    then show ?thesis using step(2) by (simp add: handle_msg_def)
  next
    case False
    then show ?thesis using step(2) q zero by (simp add: d2h_quiet_def handle_msg_def dispatch_def)
  qed
  obtain cr where cr: "next_curr_rd ring1 = ring1\<lparr>mr_curr_rd := cr\<rparr>" using next_curr_rd_eq by blast
  let ?ring = "ring\<lparr>mr_seqnum := of_nat (254 + (k + 1)), mr_curr_rd := cr\<rparr>"
  have "msgtype_loop env k (Suc m * (4 * L)) ring st p = msgtype_loop env (k + 1) (m * (4 * L)) ?ring st1 (handle_msg env msgs k p)"
    using s ty h q L cr step(1) Suc.prems(3)
    by (subst msgtype_loop.simps) (simp add: d2h_quiet_def d2h_sync_cb_def Let_def not_le)
  moreover from Suc.IH [of "k + 1" ?ring st1 "handle_msg env msgs k p"] c(4) Suc.prems(3)
  obtain cr' st' where "msgtype_loop env (k + 1) (m * (4 * L)) ?ring st1 (handle_msg env msgs k p) =
      Some (BCME_OK, ?ring\<lparr>mr_curr_rd := cr', mr_seqnum := of_nat (254 + (k + 1 + m))\<rparr>, st',
        fold (handle_msg env msgs) [k + 1..<k + 1 + m] (handle_msg env msgs k p))" by auto
  moreover have "[k..<k + Suc m] = k # [k + 1..<k + 1 + m]" by (simp add: upt_conv_Cons)
  ultimately show ?case by (intro exI [of _ cr'] exI [of _ st']) simp
qed


section \<open>The loop over batches\<close>

text \<open>A batch is what the device has written and the host not read, up to the end of the buffer and up to the bound.\<close>

lemma read_batch:
  assumes d: "unat (mr_max_items ring) = d" "2 \<le> d" and rd: "unat (mr_rd ring) = k mod d" and va: "mr_va ring \<noteq> NULL"
    and w: "dw = of_nat (W mod d)" "k \<le> W" "W < k + d" and bnd: "0 < b" "b < 2 ^ 32"
    and g: "dhd_prot_get_read_addr dw (of_nat b) ring = (addr, len, reset, ring')"
  shows "if W = k then addr = NULL \<and> \<not> reset \<and> ring' = ring\<lparr>mr_curr_rd := mr_rd ring, mr_wr := dw\<rparr>
    else \<exists>m. 0 < m \<and> m \<le> b \<and> k + m \<le> W \<and> k mod d + m \<le> d \<and> \<not> reset \<and>
      addr = mr_va ring + k mod d * unat (mr_item_len ring) \<and> addr \<noteq> NULL \<and>
      len = Some (of_nat (m * unat (mr_item_len ring))) \<and>
      ring' = ring\<lparr>mr_curr_rd := mr_rd ring, mr_wr := dw, mr_rd := of_nat ((k + m) mod d)\<rparr>"
proof -
  have dl: "d < 65536" using d by auto
  have m: "W mod d < d" "k mod d < d" using d by simp_all
  have dw: "unat dw = W mod d" unfolding w(1) by (rule unat_of_nat_u16) (use m(1) dl in linarith)
  note gap = index_gap [OF w(2,3)]
  define q where "q = (if k mod d \<le> W mod d then W mod d - k mod d else d - k mod d)"
  have q3: "q \<le> W - k" "k mod d + q \<le> d" "q = 0 \<longleftrightarrow> W = k" using gap m w(2) by (auto simp: q_def split: if_splits)
  moreover have "q < 65536" using q3(2) dl by linarith
  ultimately have q: "q \<le> W - k" "k mod d + q \<le> d" "q = 0 \<longleftrightarrow> W = k" "q < 65536" by blast+
  have i: "uint (mr_rd ring) = int (k mod d)" "uint dw = int (W mod d)" "uint (mr_max_items ring) = int d"
    using d rd dw by (metis of_nat_unat)+
  have items: "unat (ucast (READ_AVAIL_SPACE dw (mr_rd ring) (mr_max_items ring)) :: u16) = q"
  proof (cases "k mod d \<le> W mod d")
    case True
    then have "dw \<ge> mr_rd ring" using dw rd by (simp add: word_le_nat_alt)
    moreover have "unat (ucast (word_of_int (uint dw - uint (mr_rd ring)) :: u32) :: u16) = nat (int (W mod d) - int (k mod d))"
      unfolding i by (rule space_val) (use True m dl in linarith)+
    ultimately show ?thesis using True by (simp add: READ_AVAIL_SPACE_def q_def nat_diff_distrib')
  next
    case False
    then have "\<not> dw \<ge> mr_rd ring" using dw rd by (simp add: word_le_nat_alt)
    moreover have "unat (ucast (word_of_int (uint (mr_max_items ring) - uint (mr_rd ring)) :: u32) :: u16) = nat (int d - int (k mod d))"
      unfolding i by (rule space_val) (use m dl in linarith)+
    ultimately show ?thesis using False by (simp add: READ_AVAIL_SPACE_def q_def nat_diff_distrib')
  qed
  define it where "it = (ucast (READ_AVAIL_SPACE dw (mr_rd ring) (mr_max_items ring)) :: u16)"
  have it: "unat it = q" using items by (simp add: it_def)
  show ?thesis
  proof (cases "W = k")
    case True
    then have "it = 0" using it q(3) by (simp add: unat_eq_0 [symmetric])
    then show ?thesis using g True by (auto simp: dhd_prot_get_read_addr_def Let_def it_def)
  next
    case False
    then have nz: "it \<noteq> 0" using it q(3) by (auto simp: unat_eq_0 [symmetric])
    have le: "\<not> it > mr_max_items ring" using it q(2) d by (simp add: word_less_nat_alt)
    let ?mn = "ucast (min (ucast it) (of_nat b :: u32)) :: u16"
    define mm where "mm = min q b"
    have mm: "unat ?mn = mm"
    proof -
      have "unat (min (ucast it) (of_nat b :: u32)) = mm"
        using it bnd q(4) by (simp add: mm_def min_def word_le_nat_alt unat_of_nat unsigned_ucast_eq take_bit_nat_eq_self)
      then show ?thesis using q(4) by (simp add: unsigned_ucast_eq take_bit_nat_eq_self mm_def)
    qed
    have bz: "(of_nat b :: u32) \<noteq> 0" using bnd by (auto simp: word_unat_eq_iff unat_of_nat)
    have m1: "0 < mm" "mm \<le> b" "k + mm \<le> W" "k mod d + mm \<le> d"
      using q False bnd w(2) by (auto simp: mm_def)
    have rd': "(if unat (mr_rd ring) + unat ?mn \<ge> unat (mr_max_items ring) then ring\<lparr>mr_curr_rd := mr_rd ring, mr_wr := dw, mr_rd := 0\<rparr>
        else ring\<lparr>mr_curr_rd := mr_rd ring, mr_wr := dw, mr_rd := mr_rd ring + ?mn\<rparr>) =
        ring\<lparr>mr_curr_rd := mr_rd ring, mr_wr := dw, mr_rd := of_nat ((k + mm) mod d)\<rparr>"
    proof (cases "k mod d + mm = d")
      case True
      then have "(k + mm) mod d = 0" by (metis mod_add_left_eq mod_self)
      then show ?thesis using True rd mm d by simp
    next
      case False
      then have lt: "k mod d + mm < d" using m1(4) by simp
      then have "(k + mm) mod d = k mod d + mm" by (metis mod_add_left_eq mod_less)
      moreover have "mr_rd ring + ?mn = of_nat (k mod d + mm)" using rd mm by (metis of_nat_add of_nat_unat ucast_id)
      ultimately show ?thesis using lt rd mm d by simp
    qed
    have "addr = mr_va ring + k mod d * unat (mr_item_len ring) \<and> \<not> reset \<and> len = Some (of_nat (mm * unat (mr_item_len ring))) \<and>
        ring' = ring\<lparr>mr_curr_rd := mr_rd ring, mr_wr := dw, mr_rd := of_nat ((k + mm) mod d)\<rparr>"
      using g nz le bz mm rd' rd unfolding dhd_prot_get_read_addr_def Let_def
      by (simp add: it_def [symmetric] split: if_splits)
    then show ?thesis using False m1 va by (auto intro!: exI [of _ mm])
  qed
qed


definition d2h_at :: "'a msgbuf_ring \<Rightarrow> nat \<Rightarrow> nat \<Rightarrow> nat \<Rightarrow> bool" where
  "d2h_at ring d L k \<longleftrightarrow> unat (mr_max_items ring) = d \<and> 2 \<le> d \<and> mr_va ring \<noteq> NULL \<and> unat (mr_item_len ring) = 4 * L \<and>
     unat (mr_rd ring) = k mod d \<and> mr_seqnum ring = of_nat (254 + k)"

text \<open>The device writes \<open>M\<close> messages, ahead of the host and never over what the host has not read: \<open>W j\<close> are written when the
  host has read \<open>j\<close>.\<close>

definition dev_writes :: "'p d2h_env \<Rightarrow> nat \<Rightarrow> (nat \<Rightarrow> nat) \<Rightarrow> nat \<Rightarrow> bool" where
  "dev_writes env d W M \<longleftrightarrow> (\<forall>j \<le> M. dev_wr env j = of_nat (W j mod d) \<and> j \<le> W j \<and> W j \<le> M \<and> W j < j + d)"

lemma batch_len:
  assumes "m \<le> d" "unat (x :: u16) = d"
  shows "unat (of_nat (m * unat (y :: u16)) :: u32) = m * unat y"
proof -
  have "m * unat y \<le> 65535 * 65535" using assms unat_u16_less [of x] unat_u16_less [of y] by (intro mult_le_mono) linarith+
  then show ?thesis by (intro unat_of_nat_u32) simp
qed

lemma seq_clear_mono: "seq_clear d k k' \<Longrightarrow> k \<le> j \<Longrightarrow> j' \<le> k' \<Longrightarrow> seq_clear d j j'"
  by (auto simp: seq_clear_def)

lemma txcpl_step:
  assumes dma: "ordered_dma msgs d L (snap env)" and q: "d2h_quiet env msgs" and w: "dev_writes env d W M" "k \<le> M"
    and at: "d2h_at ring d L k" and n: "n < tx_cpl_bound env" "tx_cpl_bound env < 2 ^ 32"
    and clear: "seq_clear d k (k + (tx_cpl_bound env - n))"
  shows "if W k = k then \<exists>ring'. txcpl_loop env n k ring st p = Some (False, n, ring', st, p) \<and> d2h_at ring' d L k \<and>
      (mr_shared_rd ring = mr_rd ring \<longrightarrow> mr_shared_rd ring' = mr_rd ring')
    else \<exists>m ring' st'. 0 < m \<and> n + m \<le> tx_cpl_bound env \<and> k + m \<le> W k \<and> d2h_at ring' d L (k + m) \<and>
      mr_shared_rd ring' = mr_rd ring' \<and>
      txcpl_loop env n k ring st p =
        (if n + m = tx_cpl_bound env then Some (True, n + m, ring', st', fold (handle_msg env msgs) [k..<k + m] p)
         else txcpl_loop env (n + m) (k + m) ring' st' (fold (handle_msg env msgs) [k..<k + m] p))"
proof -
  have L: "0 < L" using dma by (simp add: ordered_dma_def)
  have a: "unat (mr_max_items ring) = d" "2 \<le> d" "unat (mr_rd ring) = k mod d" "mr_va ring \<noteq> NULL"
      "unat (mr_item_len ring) = 4 * L" "mr_seqnum ring = of_nat (254 + k)"
    using at by (auto simp: d2h_at_def)
  have wk: "dev_wr env k = of_nat (W k mod d)" "k \<le> W k" "W k < k + d" using w unfolding dev_writes_def by blast+
  have ok: "\<not> is_device_removed env k" "\<not> (query_bus_erros env k \<or> hang_was_sent env k \<or> smmu_fault_occurred env k)"
    using q by (auto simp: d2h_quiet_def)
  obtain addr len reset ring1 where g: "dhd_prot_get_read_addr (dev_wr env k) (of_nat (tx_cpl_bound env - n)) ring = (addr, len, reset, ring1)"
    by (metis prod_cases4)
  have b: "0 < tx_cpl_bound env - n" "tx_cpl_bound env - n < 2 ^ 32" using n by auto
  note r = read_batch [OF a(1-4) wk b g]
  show ?thesis
  proof (cases "W k = k")
    case True
    then have r1: "addr = NULL" "\<not> reset" "ring1 = ring\<lparr>mr_curr_rd := mr_rd ring, mr_wr := dev_wr env k\<rparr>" using r by auto
    then have "txcpl_loop env n k ring st p = Some (False, n, ring1, st, p)" using ok g by (subst txcpl_loop.simps) simp
    moreover have "d2h_at ring1 d L k" "mr_shared_rd ring = mr_rd ring \<longrightarrow> mr_shared_rd ring1 = mr_rd ring1"
      using at by (simp_all add: d2h_at_def r1(3))
    ultimately show ?thesis using True by auto
  next
    case False
    then obtain m where m: "0 < m" "m \<le> tx_cpl_bound env - n" "k + m \<le> W k" "k mod d + m \<le> d" "\<not> reset" "addr \<noteq> NULL"
        "len = Some (of_nat (m * unat (mr_item_len ring)))"
        "ring1 = ring\<lparr>mr_curr_rd := mr_rd ring, mr_wr := dev_wr env k, mr_rd := of_nat ((k + m) mod d)\<rparr>"
      using r by auto
    have len: "unat (the len) = m * (4 * L)" using batch_len [of m d "mr_max_items ring" "mr_item_len ring"] m(4,7) a(1,5) by simp
    have r1: "mr_seqnum ring1 = of_nat (254 + k)" "unat (mr_item_len ring1) = 4 * L" using a by (simp_all add: m(8))
    have cl: "seq_clear d k (k + m)" using clear by (rule seq_clear_mono) (use m(2) in simp_all)
    from msgtype_loop_ok [OF dma q cl r1, of st p] obtain cr st' where
        l: "msgtype_loop env k (m * (4 * L)) ring1 st p = Some (BCME_OK, ring1\<lparr>mr_curr_rd := cr, mr_seqnum := of_nat (254 + (k + m))\<rparr>, st',
          fold (handle_msg env msgs) [k..<k + m] p)" by blast
    let ?ring = "dhd_prot_upd_read_idx (ring1\<lparr>mr_curr_rd := cr, mr_seqnum := of_nat (254 + (k + m))\<rparr>)"
    have il: "mr_item_len ring1 \<noteq> 0" using r1(2) L by auto
    have pm: "dhd_prot_process_msgtype env k (the len) ring1 st p =
        Some (BCME_OK, ring1\<lparr>mr_curr_rd := cr, mr_seqnum := of_nat (254 + (k + m))\<rparr>, st', fold (handle_msg env msgs) [k..<k + m] p)"
      using l il by (simp add: dhd_prot_process_msgtype_def len)
    have "txcpl_loop env n k ring st p =
        (if n + m = tx_cpl_bound env then Some (True, n + m, ?ring, st', fold (handle_msg env msgs) [k..<k + m] p)
         else txcpl_loop env (n + m) (k + m) ?ring st' (fold (handle_msg env msgs) [k..<k + m] p))"
    proof -
      have "tx_cpl_bound env \<le> n + m \<longleftrightarrow> n + m = tx_cpl_bound env" using m(2) n by linarith
      then show ?thesis using ok g m(5,6) pm len r1(2) L by (subst txcpl_loop.simps) (simp add: Let_def)
    qed
    moreover have "d2h_at ?ring d L (k + m)" "mr_shared_rd ?ring = mr_rd ?ring"
      using a m(8) unat_u16_less [of "mr_max_items ring"]
      by (simp_all add: d2h_at_def dhd_prot_upd_read_idx_def unat_of_nat_u16 less_trans [OF mod_less_divisor])
    ultimately show ?thesis using False m(1-3) n by (intro if_not_P [THEN iffD2]) (auto intro!: exI [of _ m])
  qed
qed


lemma txcpl_loop_ok:
  assumes dma: "ordered_dma msgs d L (snap env)" and q: "d2h_quiet env msgs" and w: "dev_writes env d W M"
    and b: "tx_cpl_bound env < 2 ^ 32"
  shows "d2h_at ring d L k \<Longrightarrow> k \<le> M \<Longrightarrow> n < tx_cpl_bound env \<Longrightarrow> seq_clear d k (k + (tx_cpl_bound env - n)) \<Longrightarrow>
    \<exists>m more ring' st'. txcpl_loop env n k ring st p = Some (more, n + m, ring', st', fold (handle_msg env msgs) [k..<k + m] p) \<and>
      n + m \<le> tx_cpl_bound env \<and> k + m \<le> M \<and> d2h_at ring' d L (k + m) \<and> (mr_shared_rd ring = mr_rd ring \<longrightarrow> mr_shared_rd ring' = mr_rd ring') \<and>
      (if more then n + m = tx_cpl_bound env else W (k + m) = k + m)"
proof (induction "tx_cpl_bound env - n" arbitrary: n k ring st p rule: less_induct)
  case less
  note step = txcpl_step [OF dma q w less.prems(2,1,3) b less.prems(4), of st p]
  show ?case
  proof (cases "W k = k")
    case True
    then obtain ring' where "txcpl_loop env n k ring st p = Some (False, n, ring', st, p)" "d2h_at ring' d L k"
        "mr_shared_rd ring = mr_rd ring \<longrightarrow> mr_shared_rd ring' = mr_rd ring'"
      using step by auto
    then show ?thesis using True less.prems(2,3) by (intro exI [of _ "0 :: nat"] exI [of _ False] exI [of _ ring'] exI [of _ st]) simp
  next
    case False
    then obtain m1 ring1 st1 where m1: "0 < m1" "n + m1 \<le> tx_cpl_bound env" "k + m1 \<le> W k" "d2h_at ring1 d L (k + m1)"
        "mr_shared_rd ring1 = mr_rd ring1"
        "txcpl_loop env n k ring st p =
          (if n + m1 = tx_cpl_bound env then Some (True, n + m1, ring1, st1, fold (handle_msg env msgs) [k..<k + m1] p)
           else txcpl_loop env (n + m1) (k + m1) ring1 st1 (fold (handle_msg env msgs) [k..<k + m1] p))"
      using step by auto
    have "W k \<le> M" using w less.prems(2) unfolding dev_writes_def by blast
    then have kM: "k + m1 \<le> M" using m1(3) by linarith
    show ?thesis
    proof (cases "n + m1 = tx_cpl_bound env")
      case True
      then show ?thesis using m1 kM by (intro exI [of _ m1] exI [of _ True] exI [of _ ring1] exI [of _ st1]) auto
    next
      case no: False
      then have lt: "n + m1 < tx_cpl_bound env" using m1(2) by simp
      have cl: "seq_clear d (k + m1) (k + m1 + (tx_cpl_bound env - (n + m1)))" using less.prems(4) by (rule seq_clear_mono) (use lt in simp_all)
      have dec: "tx_cpl_bound env - (n + m1) < tx_cpl_bound env - n" using lt m1(1) by simp
      from less.hyps [OF dec m1(4) kM lt cl, of st1 "fold (handle_msg env msgs) [k..<k + m1] p"]
      obtain m more ring' st' where r: "txcpl_loop env (n + m1) (k + m1) ring1 st1 (fold (handle_msg env msgs) [k..<k + m1] p) =
            Some (more, n + m1 + m, ring', st', fold (handle_msg env msgs) [k + m1..<k + m1 + m] (fold (handle_msg env msgs) [k..<k + m1] p))"
          "n + m1 + m \<le> tx_cpl_bound env" "k + m1 + m \<le> M" "d2h_at ring' d L (k + m1 + m)" "mr_shared_rd ring1 = mr_rd ring1 \<longrightarrow> mr_shared_rd ring' = mr_rd ring'"
          "if more then n + m1 + m = tx_cpl_bound env else W (k + m1 + m) = k + m1 + m"
        by (elim exE conjE) (rule that; assumption)
      have "[k..<k + (m1 + m)] = [k..<k + m1] @ [k + m1..<k + m1 + m]" by (metis add.assoc le_add1 upt_add_eq_append)
      then have f: "fold (handle_msg env msgs) [k + m1..<k + m1 + m] (fold (handle_msg env msgs) [k..<k + m1] p) =
          fold (handle_msg env msgs) [k..<k + (m1 + m)] p" by simp
      have e: "n + m1 + m = n + (m1 + m)" "k + m1 + m = k + (m1 + m)" by simp_all
      show ?thesis
        using m1(5,6) no r unfolding f unfolding e
        by (intro exI [of _ "m1 + m"] exI [of _ more] exI [of _ ring'] exI [of _ st']) simp
    qed
  qed
qed


lemma txcpl_ok:
  assumes "ordered_dma msgs d L (snap env)" "d2h_quiet env msgs" "dev_writes env d W M" "tx_cpl_bound env < 2 ^ 32"
    "d2h_at ring d L k" "k \<le> M" "0 < tx_cpl_bound env" "seq_clear d k (k + tx_cpl_bound env)"
  shows "\<exists>m more ring' st'.
    dhd_prot_process_msgbuf_txcpl env k ring st p = Some (more, m, ring', st', fold (handle_msg env msgs) [k..<k + m] p) \<and>
      m \<le> tx_cpl_bound env \<and> k + m \<le> M \<and> d2h_at ring' d L (k + m) \<and>
      (mr_shared_rd ring = mr_rd ring \<longrightarrow> mr_shared_rd ring' = mr_rd ring') \<and>
      (if more then m = tx_cpl_bound env else W (k + m) = k + m)"
proof -
  have "seq_clear d k (k + (tx_cpl_bound env - 0))" using assms(8) by simp
  from txcpl_loop_ok [OF assms(1-7) this, of st p] show ?thesis unfolding dhd_prot_process_msgbuf_txcpl_def add_0 .
qed

end
