(* ===== verification/D2h_Correct.thy ===== *)
theory D2h_Correct
  imports D2h_Rep Tx_Correct
begin

text \<open>
  The properties of the path from the device: what a wait returns, and the way of a transmit completion from the device to the
  packet that it frees, through the ring, the wait, the dispatch and the packet id map.
\<close>

section \<open>Completions\<close>

text \<open>A list of completions, one for each of some descriptors that the device holds, handled in order.\<close>

lemma completions_reach:
  assumes st: "tx_start N block rings s0" and r: "tx_reach s0 s" and sub: "mset cs \<subseteq># mset (sys_owned s)"
  shows "tx_reach s0 (s\<lparr>sys_prot := fold (\<lambda>x. dhd_prot_txstatus_process (tx_id x)) cs (sys_prot s), sys_owned := fold remove1 cs (sys_owned s)\<rparr>) \<and>
    freed (fold (\<lambda>x. dhd_prot_txstatus_process (tx_id x)) cs (sys_prot s)) = freed (sys_prot s) @ map (\<lambda>x. req_pkt (snd x)) cs"
  using r sub
proof (induction cs arbitrary: s)
  case Nil
  then show ?case by simp
next
  case (Cons x cs)
  let ?s = "s\<lparr>sys_prot := dhd_prot_txstatus_process (tx_id x) (sys_prot s), sys_owned := remove1 x (sys_owned s)\<rparr>"
  have x: "x \<in> set (sys_owned s)" using Cons.prems(2) by (metis insert_subset_eq_iff mset.simps(2) set_mset_mset)
  from tx_reach_inv [OF Cons.prems(1) st] obtain posted S R where inv: "tx_inv N s posted S R" by blast
  have xM: "x \<in># outstanding s posted" using x by (simp add: outstanding_def)
  have f: "freed (dhd_prot_txstatus_process (tx_id x) (sys_prot s)) = freed (sys_prot s) @ [req_pkt (snd x)]"
    using accounts_remove(2) [OF tx_invD(5) [OF inv] xM] .
  have "tx_reach s0 ?s" using Cons.prems(1) x by (rule tx_reach.complete)
  moreover have "mset cs \<subseteq># mset (sys_owned ?s)" using Cons.prems(2) by (simp add: insert_subset_eq_iff)
  ultimately show ?case using Cons.IH [of ?s] f by simp
qed

lemma handle_completions:
  assumes t: "table_lookup env = tx_table other"
    and m: "\<And>j. j < length cs \<Longrightarrow> arrived msgs (snap env) (k + j) \<and> msg_type (msgs (k + j)) = MSG_TYPE_TX_STATUS \<and>
      request_id (msgs (k + j)) = tx_id (cs ! j)"
    and n: "n \<le> length cs"
  shows "fold (handle_msg env msgs) [k..<k + n] prot = fold (\<lambda>x. dhd_prot_txstatus_process (tx_id x)) (take n cs) prot"
  using n
proof (induction n)
  case (Suc n)
  have "handle_msg env msgs (k + n) = dhd_prot_txstatus_process (tx_id (cs ! n))"
    using m [of n] Suc.prems t
    by (simp add: fun_eq_iff handle_msg_def dispatch_def tx_table_def MSG_TYPE_TX_STATUS_def MSG_TYPE_INFO_BUF_CMPLT_def MSG_TYPE_INVALID_def)
  then show ?case using Suc by (simp add: take_Suc_conv_app_nth)
qed simp

section \<open>Findings\<close>

text \<open>The sequence numbers start at 254 so that the first message does not look like the zeros of a new ring; but the 253rd
  message has number 0 modulo 253. On a ring with more than 252 slots its slot still holds zeros: the wait succeeds at
  once although nothing has arrived, the message is taken for one of type 0, and its completion is lost without a report.\<close>

lemma d2h_blank_slot_accepted:
  assumes "0 < L" "snp 252 0 = replicate L 0" "mr_seqnum ring = of_nat (254 + 252)"
  shows "dhd_prot_d2h_sync_seqnum False be (snp 252) (4 * L) ring st = (MSG_TYPE_INVALID, 0, ring\<lparr>mr_seqnum := mr_seqnum ring + 1\<rparr>, st)"
proof -
  have "sync_loop (\<lambda>t. snp 252 t ! (L - 1) = 0) False 1 0 ring st = (Some (0, 0), ring\<lparr>mr_seqnum := mr_seqnum ring + 1\<rparr>, st)"
    using assms by (subst sync_loop.simps) (simp add: PCIE_D2H_SYNC_NUM_OF_STEPS_def PCIE_D2H_SYNC_WAIT_TRIES_def Let_def)
  moreover have "mr_seqnum ring mod D2H_EPOCH_MODULO = 0" using assms(3) by (simp add: D2H_EPOCH_MODULO_def)
  ultimately show ?thesis using assms(1,2)
    by (simp add: dhd_prot_d2h_sync_seqnum_def sync_done_def msg_type_def MSG_TYPE_INVALID_def)
qed

text \<open>A message whose type is not in the table ends the batch. The read index already is behind the batch, the sequence number
  expected next is that of the message after the bad one: every message of the next batch is waited for in vain.\<close>

lemma unknown_type_desyncs:
  assumes dma: "ordered_dma msgs d L (snap env)" "d mod 253 \<noteq> 0" "k < d \<Longrightarrow> (k + 1) mod 253 \<noteq> 0" "254 + k < 2 ^ 32"
    and env: "d2h_sync_mode env AND PCIE_SHARED_D2H_SYNC_SEQNUM \<noteq> 0" "\<not> induce_livelock env"
      "\<not> hang_was_sent env k" "\<not> smmu_fault_occurred env k"
    and ring: "mr_seqnum ring = of_nat (254 + k)" "unat (mr_item_len ring) = 4 * L" and m: "0 < m"
    and bad: "arrived msgs (snap env) k" "DHD_PROT_FUNCS \<le> unat (msg_type (msgs k))"
  shows "\<exists>cr st'. msgtype_loop env k (m * (4 * L)) ring st p =
    Some (BCME_ERROR, ring\<lparr>mr_curr_rd := cr, mr_seqnum := of_nat (254 + Suc k)\<rparr>, st', p)"
proof -
  have L: "0 < L" using dma by (simp add: ordered_dma_def)
  obtain ty t ring1 st1 where s: "dhd_prot_d2h_sync_seqnum False (query_bus_erros env k) (snap env k) (4 * L) ring st = (ty, t, ring1, st1)"
    by (metis prod_cases4)
  note step = sync_seqnum_step [OF dma(1-3) ring(1) dma(4) s]
  obtain cr where cr: "next_curr_rd ring1 = ring1\<lparr>mr_curr_rd := cr\<rparr>" using next_curr_rd_eq by blast
  have "msgtype_loop env k (m * (4 * L)) ring st p = Some (BCME_ERROR, ring1\<lparr>mr_curr_rd := cr\<rparr>, st1, p)"
    using s step(2) bad env L m cr ring(2) by (subst msgtype_loop.simps) (simp add: d2h_sync_cb_def Let_def)
  then show ?thesis by (auto simp: step(1) intro!: exI [of _ cr])
qed

section \<open>Properties\<close>

text \<open>C33: a device that numbers its messages and whose writes arrive in order, on a ring whose size is not a multiple of 253.
  When the host waits for message \<open>k\<close> it gets exactly that message if it arrives within the tries, whatever part of it had
  arrived at each look and whatever message its slot held before; otherwise it skips it and reports a livelock. In both cases
  it waits for number \<open>k + 1\<close> next. (On the first lap the message number must not be a multiple of 253.)\<close>

theorem d2h_sync_fresh:
  assumes dma: "ordered_dma msgs d L snp" "d mod 253 \<noteq> 0" "k < d \<Longrightarrow> (k + 1) mod 253 \<noteq> 0"
    and ring: "mr_seqnum ring = D2H_EPOCH_INIT_VAL + of_nat k" "254 + k < 2 ^ 32"
    and s: "dhd_prot_d2h_sync_seqnum False be (snp k) (4 * L) ring st = (ty, t, ring', st')"
  shows "ring' = ring\<lparr>mr_seqnum := D2H_EPOCH_INIT_VAL + of_nat (k + 1)\<rparr> \<and>
    (if \<exists>t < PCIE_D2H_SYNC_NUM_OF_STEPS * PCIE_D2H_SYNC_WAIT_TRIES. snp k t = msgs k
     then snp k t = msgs k \<and> ty = msg_type (msgs k)
     else ty = MSG_TYPE_INVALID \<and> (\<not> be \<longrightarrow> livelock_occured st'))"
proof -
  have "mr_seqnum ring = of_nat (254 + k)" using ring(1) by (simp add: D2H_EPOCH_INIT_VAL_def D2H_EPOCH_MODULO_def)
  from sync_seqnum_step [OF dma this ring(2) s] show ?thesis
    by (simp add: arrived_def D2H_EPOCH_INIT_VAL_def D2H_EPOCH_MODULO_def)
qed

text \<open>C34: the device holds descriptors of packets and completes some of them, in an order of its own, with messages on the ring
  of completions that it writes ahead of the host. \<open>dhd_prot_process_msgbuf_txcpl\<close> ends; it consumes a number of the messages,
  at most its bound, and stops before the bound only when there are no more; the packets of exactly the first descriptors
  completed are freed, in the order of the messages, and the system is in a state that the theorems on the path to the device
  speak of, with these descriptors gone; the ring is ready for the next message and the device is told so. When all messages
  are there and the bound allows, all are consumed.\<close>

theorem txcpl_completes:
  assumes st: "tx_start N block rings s0" and r: "tx_reach s0 s" and sub: "mset cs \<subseteq># mset (sys_owned s)"
    and dma: "ordered_dma msgs d L (snap env)" and q: "d2h_quiet env msgs" and w: "dev_writes env d W (k + length cs)"
    and b: "0 < tx_cpl_bound env" "tx_cpl_bound env < 2 ^ 32" and at: "d2h_at ring d L k"
    and clear: "seq_clear d k (k + tx_cpl_bound env)" and t: "table_lookup env = tx_table other"
    and m: "\<And>j. j < length cs \<Longrightarrow> arrived msgs (snap env) (k + j) \<and> msg_type (msgs (k + j)) = MSG_TYPE_TX_STATUS \<and>
      request_id (msgs (k + j)) = tx_id (cs ! j)"
  shows "\<exists>more n ring' st' prot'. dhd_prot_process_msgbuf_txcpl env k ring st (sys_prot s) = Some (more, n, ring', st', prot') \<and>
    n \<le> length cs \<and> n \<le> tx_cpl_bound env \<and> (if more then n = tx_cpl_bound env else W (k + n) = k + n) \<and>
    freed prot' = freed (sys_prot s) @ map (\<lambda>x. req_pkt (snd x)) (take n cs) \<and>
    tx_reach s0 (s\<lparr>sys_prot := prot', sys_owned := fold remove1 (take n cs) (sys_owned s)\<rparr>) \<and>
    d2h_at ring' d L (k + n) \<and> (mr_shared_rd ring = mr_rd ring \<longrightarrow> mr_shared_rd ring' = mr_rd ring') \<and>
    ((\<forall>j \<le> k + length cs. W j = k + length cs) \<and> length cs \<le> tx_cpl_bound env \<longrightarrow> n = length cs)"
proof -
  have kM: "k \<le> k + length cs" by simp
  from txcpl_ok [OF dma q w b(2) at kM b(1) clear, of st "sys_prot s"] obtain n more ring' st' where
      l: "dhd_prot_process_msgbuf_txcpl env k ring st (sys_prot s) = Some (more, n, ring', st', fold (handle_msg env msgs) [k..<k + n] (sys_prot s))"
      and n: "n \<le> tx_cpl_bound env" "k + n \<le> k + length cs" and at': "d2h_at ring' d L (k + n)"
        "mr_shared_rd ring = mr_rd ring \<longrightarrow> mr_shared_rd ring' = mr_rd ring'" "if more then n = tx_cpl_bound env else W (k + n) = k + n"
    by (elim exE conjE) (rule that; assumption)
  let ?p = "fold (\<lambda>x. dhd_prot_txstatus_process (tx_id x)) (take n cs) (sys_prot s)"
  have p: "fold (handle_msg env msgs) [k..<k + n] (sys_prot s) = ?p" using handle_completions [OF t m] n(2) by simp
  have "mset (take n cs) \<subseteq># mset cs" by (metis append_take_drop_id mset_append mset_subset_eq_add_left)
  then have "mset (take n cs) \<subseteq># mset (sys_owned s)" using sub by (rule subset_mset.order_trans)
  note c = completions_reach [OF st r this]
  have all: "n = length cs" if "\<forall>j \<le> k + length cs. W j = k + length cs" "length cs \<le> tx_cpl_bound env"
    using that at'(3) n by (auto split: if_splits)
  show ?thesis using l n at' c all unfolding p
    by (intro exI [of _ more] exI [of _ n] exI [of _ ring'] exI [of _ st'] exI [of _ ?p]) auto
qed


section \<open>A history\<close>

text \<open>Messages of three words on a ring of four slots: at the first look the host sees what the slot held before. The messages
  complete the descriptor that the device holds after the history of the path to the device.\<close>

definition ex_msgs :: "nat \<Rightarrow> msg" where
  "ex_msgs k = [0x10, tx_id (hd (sys_owned ex_s3)), of_nat ((254 + k) mod 253)]"

definition ex_snap :: "nat \<Rightarrow> nat \<Rightarrow> msg" where
  "ex_snap k t = (if t = 0 then slot_before ex_msgs 4 3 k else ex_msgs k)"

definition ex_cpl_ring :: "unit msgbuf_ring" where
  "ex_cpl_ring = \<lparr>mr_inited = True, mr_idx = 3, mr_rd = 0, mr_curr_rd = 0, mr_wr = 0, mr_max_items = 4, mr_item_len = 12,
     mr_va = 64, mr_seqnum = D2H_EPOCH_INIT_VAL, mr_start_addr = NULL, mr_pend_items_count = 0, mr_current_phase = 0,
     mr_shared_wr = 0, mr_shared_rd = 0, mr_items = [], mr_dirty = []\<rparr>"

definition ex_stats :: d2h_stats where
  "ex_stats = \<lparr>d2h_sync_wait_max = 0, d2h_sync_wait_tot = 0, livelock_occured = False, reset_scheduled = False\<rparr>"

definition ex_denv :: "dhd_prot d2h_env" where
  "ex_denv = \<lparr>d2h_sync_mode = PCIE_SHARED_D2H_SYNC_SEQNUM, induce_livelock = False, tx_cpl_bound = 8,
     is_device_removed = (\<lambda>k. False), query_bus_erros = (\<lambda>k. False), hang_was_sent = (\<lambda>k. False),
     smmu_fault_occurred = (\<lambda>k. False), dev_wr = (\<lambda>k. 1), snap = ex_snap, table_lookup = tx_table (\<lambda>ty. None)\<rparr>"

lemma ex_dma: "ordered_dma ex_msgs 4 3 ex_snap"
proof -
  have "\<exists>c \<le> 3. ex_snap k t = take c (ex_msgs k) @ drop c (slot_before ex_msgs 4 3 k)" for k t
  proof (cases "t = 0")
    case True
    then show ?thesis by (intro exI [of _ "0 :: nat"]) (simp add: ex_snap_def)
  next
    case False
    then show ?thesis by (intro exI [of _ "3 :: nat"]) (simp add: ex_snap_def ex_msgs_def slot_before_def)
  qed
  then show ?thesis by (simp add: ordered_dma_def ex_msgs_def)
qed

lemma ex_arrived: "arrived ex_msgs ex_snap k"
  unfolding arrived_def
  by (rule exI [of _ 1]) (simp add: ex_snap_def PCIE_D2H_SYNC_NUM_OF_STEPS_def PCIE_D2H_SYNC_WAIT_TRIES_def)

lemma ex_at: "d2h_at ex_cpl_ring 4 3 0"
  by (simp add: d2h_at_def ex_cpl_ring_def D2H_EPOCH_INIT_VAL_def D2H_EPOCH_MODULO_def)

lemma ex_type: "msg_type (ex_msgs k) = MSG_TYPE_TX_STATUS"
  by (simp add: msg_type_def ex_msgs_def MSG_TYPE_TX_STATUS_def)

theorem d2h_sync_fresh_witness:
  "ordered_dma ex_msgs 4 3 ex_snap \<and> ex_snap 0 0 \<noteq> ex_msgs 0 \<and>
   fst (dhd_prot_d2h_sync_seqnum False False (ex_snap 0) (4 * 3) ex_cpl_ring ex_stats) = MSG_TYPE_TX_STATUS"
proof -
  obtain ty t ring' st' where s: "dhd_prot_d2h_sync_seqnum False False (ex_snap 0) (4 * 3) ex_cpl_ring ex_stats = (ty, t, ring', st')"
    by (metis prod_cases4)
  have seq: "mr_seqnum ex_cpl_ring = D2H_EPOCH_INIT_VAL + of_nat 0" by (simp add: ex_cpl_ring_def)
  have "ex_snap 0 0 \<noteq> ex_msgs 0" by (simp add: ex_snap_def slot_before_def ex_msgs_def numeral_3_eq_3)
  moreover have "ty = msg_type (ex_msgs 0)"
    using d2h_sync_fresh [OF ex_dma _ _ seq _ s] ex_arrived [of 0, unfolded arrived_def] by simp
  ultimately show ?thesis using ex_dma s ex_type by simp
qed

theorem txcpl_completes_witness:
  "tx_reach ex_s0 ex_s3 \<and>
   (\<exists>more ring' st' prot'. dhd_prot_process_msgbuf_txcpl ex_denv 0 ex_cpl_ring ex_stats (sys_prot ex_s3) = Some (more, 1, ring', st', prot') \<and>
      freed prot' = freed (sys_prot ex_s3) @ [req_pkt (snd (hd (sys_owned ex_s3)))])"
proof -
  have l: "length (sys_owned ex_s3) = 1" by (simp add: ex_s3_def ex_fetch_def ex_s2_def ex_s1_def ex_send_def ex_s0_def Let_def)
  then obtain x where x: "sys_owned ex_s3 = [x]" by (auto simp: length_Suc_conv)
  have dma: "ordered_dma ex_msgs 4 3 (snap ex_denv)" using ex_dma by (simp add: ex_denv_def)
  have q: "d2h_quiet ex_denv ex_msgs"
    by (simp add: d2h_quiet_def ex_denv_def tx_table_def ex_type MSG_TYPE_TX_STATUS_def DHD_PROT_FUNCS_def PCIE_SHARED_D2H_SYNC_SEQNUM_def)
  have w: "dev_writes ex_denv 4 (\<lambda>_. 1) (0 + length (sys_owned ex_s3))" using l by (auto simp: dev_writes_def ex_denv_def)
  have b: "0 < tx_cpl_bound ex_denv" "tx_cpl_bound ex_denv < 2 ^ 32" by (simp_all add: ex_denv_def)
  have clear: "seq_clear 4 0 (0 + tx_cpl_bound ex_denv)" by (simp add: seq_clear_def ex_denv_def)
  have t: "table_lookup ex_denv = tx_table (\<lambda>ty. None)" by (simp add: ex_denv_def)
  have m: "arrived ex_msgs (snap ex_denv) (0 + j) \<and> msg_type (ex_msgs (0 + j)) = MSG_TYPE_TX_STATUS \<and>
      request_id (ex_msgs (0 + j)) = tx_id (sys_owned ex_s3 ! j)" if "j < length (sys_owned ex_s3)" for j
    using that ex_arrived [of j] ex_type [of j] x by (simp add: ex_denv_def request_id_def ex_msgs_def)
  from txcpl_completes [OF ex_start ex_reach3 subset_mset.order_refl dma q w b ex_at clear t m, of ex_stats]
  show ?thesis using ex_reach3 x l b by (fastforce simp: ex_denv_def)
qed

end
