(* ===== verification/Chanspec.thy ===== *)
theory Chanspec
  imports Prelude
begin

text \<open>
  Channel specifications, \<open>bcmwifi_channels.c\<close> with the field macros of \<open>include/bcmwifi_channels.h\<close>: a 16 bit word
  that packs band, bandwidth, position of the primary 20 MHz channel and centre channel. \<open>uint\<close> is 32 bits wide and its
  sums wrap; a function that returns \<open>-1\<close> on error returns an \<open>int\<close> here. The board builds the file with the 6 GHz band
  and without \<open>WL11BE\<close>, \<open>WFC_NON_CONT_CHAN\<close> and \<open>CHANSPEC_NEW_40MHZ_FORMAT\<close>, so \<open>WFC_BW_EQ\<close>, \<open>WFC_NCBW_EQ\<close> and the
  tests for 240, 320, 80+80 and 160+160 MHz are constantly false and their branches are dead; the functions that create
  such specifications are compiled and modelled. \<open>ASSERT\<close> is empty.
\<close>

section \<open>Fields\<close>

type_synonym chanspec_t = u16
type_synonym chanspec_band_t = u16
type_synonym chanspec_bw_t = u16

abbreviation WL_CHANSPEC_CTL_SB_L :: u16 where "WL_CHANSPEC_CTL_SB_L \<equiv> 0x0000"
abbreviation WL_CHANSPEC_CTL_SB_U :: u16 where "WL_CHANSPEC_CTL_SB_U \<equiv> 0x0100"
abbreviation WL_CHANSPEC_CTL_SB_UL :: u16 where "WL_CHANSPEC_CTL_SB_UL \<equiv> 0x0200"
abbreviation WL_CHANSPEC_CTL_SB_UU :: u16 where "WL_CHANSPEC_CTL_SB_UU \<equiv> 0x0300"
abbreviation WL_CHANSPEC_CTL_SB_ULL :: u16 where "WL_CHANSPEC_CTL_SB_ULL \<equiv> 0x0400"
abbreviation WL_CHANSPEC_BW_320 :: u16 where "WL_CHANSPEC_BW_320 \<equiv> 0x0000"
abbreviation WL_CHANSPEC_BW_160160 :: u16 where "WL_CHANSPEC_BW_160160 \<equiv> 0x0800"
abbreviation WL_CHANSPEC_BW_20 :: u16 where "WL_CHANSPEC_BW_20 \<equiv> 0x1000"
abbreviation WL_CHANSPEC_BW_40 :: u16 where "WL_CHANSPEC_BW_40 \<equiv> 0x1800"
abbreviation WL_CHANSPEC_BW_80 :: u16 where "WL_CHANSPEC_BW_80 \<equiv> 0x2000"
abbreviation WL_CHANSPEC_BW_160 :: u16 where "WL_CHANSPEC_BW_160 \<equiv> 0x2800"
abbreviation WL_CHANSPEC_BW_8080 :: u16 where "WL_CHANSPEC_BW_8080 \<equiv> 0x3000"
abbreviation WL_CHANSPEC_BW_240 :: u16 where "WL_CHANSPEC_BW_240 \<equiv> 0x3800"
abbreviation WL_CHANSPEC_BAND_2G :: u16 where "WL_CHANSPEC_BAND_2G \<equiv> 0x0000"
abbreviation WL_CHANSPEC_BAND_6G :: u16 where "WL_CHANSPEC_BAND_6G \<equiv> 0x4000"
abbreviation WL_CHANSPEC_BAND_5G :: u16 where "WL_CHANSPEC_BAND_5G \<equiv> 0xc000"
abbreviation INVCHANSPEC :: u16 where "INVCHANSPEC \<equiv> 255"
abbreviation INVCHANNEL :: u8 where "INVCHANNEL \<equiv> 255"

definition CHSPEC_CHANNEL :: "chanspec_t \<Rightarrow> u8" where
  "CHSPEC_CHANNEL c = ucast (c AND 0x00ff)"

definition CHSPEC_CTL_SB :: "chanspec_t \<Rightarrow> u16" where
  "CHSPEC_CTL_SB c = c AND 0x0700"

definition CHSPEC_BW :: "chanspec_t \<Rightarrow> u16" where
  "CHSPEC_BW c = c AND 0x3800"

definition CHSPEC_BAND :: "chanspec_t \<Rightarrow> u16" where
  "CHSPEC_BAND c = c AND 0xc000"

abbreviation CHSPEC_IS20 :: "chanspec_t \<Rightarrow> bool" where "CHSPEC_IS20 c \<equiv> CHSPEC_BW c = WL_CHANSPEC_BW_20"
abbreviation CHSPEC_IS40 :: "chanspec_t \<Rightarrow> bool" where "CHSPEC_IS40 c \<equiv> CHSPEC_BW c = WL_CHANSPEC_BW_40"
abbreviation CHSPEC_IS80 :: "chanspec_t \<Rightarrow> bool" where "CHSPEC_IS80 c \<equiv> CHSPEC_BW c = WL_CHANSPEC_BW_80"
abbreviation CHSPEC_IS160 :: "chanspec_t \<Rightarrow> bool" where "CHSPEC_IS160 c \<equiv> CHSPEC_BW c = WL_CHANSPEC_BW_160"
abbreviation CHSPEC_IS2G :: "chanspec_t \<Rightarrow> bool" where "CHSPEC_IS2G c \<equiv> CHSPEC_BAND c = WL_CHANSPEC_BAND_2G"
abbreviation CHSPEC_IS5G :: "chanspec_t \<Rightarrow> bool" where "CHSPEC_IS5G c \<equiv> CHSPEC_BAND c = WL_CHANSPEC_BAND_5G"
abbreviation CHSPEC_IS6G :: "chanspec_t \<Rightarrow> bool" where "CHSPEC_IS6G c \<equiv> CHSPEC_BAND c = WL_CHANSPEC_BAND_6G"

definition CHSPEC_SB_UPPER :: "chanspec_t \<Rightarrow> bool" where
  "CHSPEC_SB_UPPER c \<longleftrightarrow> CHSPEC_CTL_SB c = WL_CHANSPEC_CTL_SB_U \<and> CHSPEC_IS40 c"

definition CHSPEC_SB_LOWER :: "chanspec_t \<Rightarrow> bool" where
  "CHSPEC_SB_LOWER c \<longleftrightarrow> CHSPEC_CTL_SB c = WL_CHANSPEC_CTL_SB_L \<and> CHSPEC_IS40 c"

text \<open>Sub-bands of a centre channel; the macros compute in \<open>uint\<close> on an 8 bit channel.\<close>

definition LOWER_20_SB :: "u8 \<Rightarrow> u32" where
  "LOWER_20_SB ch = (if ch > 2 then ucast ch - 2 else 0)"

definition UPPER_20_SB :: "u8 \<Rightarrow> u32" where
  "UPPER_20_SB ch = (if ch < 252 then ucast ch + 2 else 0)"

definition LL_20_SB :: "u8 \<Rightarrow> u32" where
  "LL_20_SB ch = (if ch > 6 then ucast ch - 6 else 0)"

definition UU_20_SB :: "u8 \<Rightarrow> u32" where
  "UU_20_SB ch = (if ch < 248 then ucast ch + 6 else 0)"

section \<open>Tables and channel arithmetic\<close>

definition wf_chspec_bw_str :: "string list" where
  "wf_chspec_bw_str = [''320'', ''160+160'', ''20'', ''40'', ''80'', ''160'', ''80+80'', ''240'']"

definition wf_chspec_bw_mhz :: "u32 list" where
  "wf_chspec_bw_mhz = [320, 320, 20, 40, 80, 160, 160, 240]"

definition wf_2g_40m_chans :: "u8 list" where
  "wf_2g_40m_chans = [3, 4, 5, 6, 7, 8, 9, 10, 11]"

definition wf_5g_40m_chans :: "u8 list" where
  "wf_5g_40m_chans = [38, 46, 54, 62, 102, 110, 118, 126, 134, 142, 151, 159, 167, 175]"

definition wf_5g_80m_chans :: "u8 list" where
  "wf_5g_80m_chans = [42, 58, 106, 122, 138, 155, 171]"

definition wf_5g_160m_chans :: "u8 list" where
  "wf_5g_160m_chans = [50, 114, 163]"

definition wf_bw_chspec_to_mhz :: "chanspec_t \<Rightarrow> u32" where
  "wf_bw_chspec_to_mhz c =
     (let bw = unat (drop_bit 11 (c AND 0x3800))
      in if bw \<ge> length wf_chspec_bw_mhz then 0 else wf_chspec_bw_mhz ! bw)"

definition center_chan_to_edge :: "chanspec_bw_t \<Rightarrow> u32" where
  "center_chan_to_edge bw =
     (if bw = WL_CHANSPEC_BW_40 then 2
      else if bw = WL_CHANSPEC_BW_80 then 6
      else if bw = WL_CHANSPEC_BW_160 then 14
      else 0)"

definition channel_low_edge :: "u32 \<Rightarrow> chanspec_bw_t \<Rightarrow> u32" where
  "channel_low_edge center_ch bw = center_ch - center_chan_to_edge bw"

definition channel_to_sb :: "u32 \<Rightarrow> u32 \<Rightarrow> chanspec_bw_t \<Rightarrow> int" where
  "channel_to_sb center_ch primary_ch bw =
     (let lowest = channel_low_edge center_ch bw
      in if primary_ch < lowest \<or> (primary_ch - lowest) mod 4 \<noteq> 0 then - 1
      else let sb = (primary_ch - lowest) div 4
      in if (bw = WL_CHANSPEC_BW_20 \<and> sb \<ge> 1) \<or> (bw = WL_CHANSPEC_BW_40 \<and> sb \<ge> 2)
            \<or> (bw = WL_CHANSPEC_BW_80 \<and> sb \<ge> 4) \<or> (bw = WL_CHANSPEC_BW_160 \<and> sb \<ge> 8)
      then - 1
      else uint sb)"

definition channel_to_primary20_chan :: "u32 \<Rightarrow> chanspec_bw_t \<Rightarrow> u32 \<Rightarrow> u32" where
  "channel_to_primary20_chan center_ch bw sb = channel_low_edge center_ch bw + sb * 4"

text \<open>The search of a channel in a table, starting with index \<open>i\<close>.\<close>

fun table_id :: "u8 list \<Rightarrow> u32 \<Rightarrow> int \<Rightarrow> int" where
  "table_id [] ch i = - 1"
| "table_id (x # xs) ch i = (if ch = ucast x then i else table_id xs ch (i + 1))"

definition channel_80mhz_to_id :: "u32 \<Rightarrow> int" where
  "channel_80mhz_to_id ch = table_id wf_5g_80m_chans ch 0"

definition channel_6g_80mhz_to_id :: "u32 \<Rightarrow> int" where
  "channel_6g_80mhz_to_id ch = (if ch \<ge> 7 \<and> ch \<le> 215 \<and> (ch - 7) mod 16 = 0 then uint ((ch - 7) div 16) else - 1)"

definition channel_5g_160mhz_to_id :: "u32 \<Rightarrow> int" where
  "channel_5g_160mhz_to_id ch = table_id wf_5g_160m_chans ch 0"

definition channel_6g_160mhz_to_id :: "u32 \<Rightarrow> int" where
  "channel_6g_160mhz_to_id ch = (if ch \<ge> 15 \<and> ch \<le> 207 \<and> (ch - 15) mod 32 = 0 then uint ((ch - 15) div 32) else - 1)"

definition channel_6g_240mhz_to_id :: "u32 \<Rightarrow> int" where
  "channel_6g_240mhz_to_id ch = (if ch \<ge> 23 \<and> ch \<le> 167 \<and> (ch - 23) mod 48 = 0 then uint ((ch - 23) div 48) else - 1)"

definition channel_6g_320mhz_to_id :: "u32 \<Rightarrow> int" where
  "channel_6g_320mhz_to_id ch = (if ch \<ge> 31 \<and> ch \<le> 199 \<and> (ch - 31) mod 64 = 0 then uint ((ch - 31) div 64) else - 1)"

definition wf_chspec_5G_id80_to_ch :: "u8 \<Rightarrow> u8" where
  "wf_chspec_5G_id80_to_ch chan_id = (if unat chan_id < length wf_5g_80m_chans then wf_5g_80m_chans ! unat chan_id else 0)"

definition wf_chspec_6G_id80_to_ch :: "u8 \<Rightarrow> u8" where
  "wf_chspec_6G_id80_to_ch chan_id = (if chan_id < 14 then 7 + chan_id * 16 else 0)"

definition wf_chspec_5G_id160_to_ch :: "u8 \<Rightarrow> u8" where
  "wf_chspec_5G_id160_to_ch chan_id = (if unat chan_id < length wf_5g_160m_chans then wf_5g_160m_chans ! unat chan_id else 0)"

definition wf_chspec_6G_id160_to_ch :: "u8 \<Rightarrow> u8" where
  "wf_chspec_6G_id160_to_ch chan_id = (if chan_id < 7 then 15 + chan_id * 32 else 0)"

definition wf_chspec_6G_id240_to_ch :: "u8 \<Rightarrow> u8" where
  "wf_chspec_6G_id240_to_ch chan_id = (if chan_id < 4 then 23 + chan_id * 48 else 0)"

definition wf_chspec_240_id2cch :: "chanspec_t \<Rightarrow> u8" where
  "wf_chspec_240_id2cch c =
     (if CHSPEC_BAND c = WL_CHANSPEC_BAND_6G \<and> CHSPEC_BW c = WL_CHANSPEC_BW_240
      then wf_chspec_6G_id240_to_ch (ucast (c AND 0x0003)) else 0)"

definition wf_chspec_6G_id320_to_ch :: "u8 \<Rightarrow> u8" where
  "wf_chspec_6G_id320_to_ch chan_id = (if chan_id < 3 then 31 + chan_id * 64 else 0)"

definition wf_chspec_320_id2cch :: "chanspec_t \<Rightarrow> u8" where
  "wf_chspec_320_id2cch c =
     (if CHSPEC_BAND c = WL_CHANSPEC_BAND_6G \<and> CHSPEC_BW c = WL_CHANSPEC_BW_320
      then wf_chspec_6G_id320_to_ch (ucast (c AND 0x0003)) else 0)"

section \<open>Well-formed and valid specifications\<close>

definition wf_chspec_malformed :: "chanspec_t \<Rightarrow> bool" where
  "wf_chspec_malformed c =
     (let chspec_bw = CHSPEC_BW c; chspec_sb = CHSPEC_CTL_SB c
      in (if CHSPEC_IS2G c
          then \<not> (chspec_bw = WL_CHANSPEC_BW_20 \<or> chspec_bw = WL_CHANSPEC_BW_40) \<or> CHSPEC_CHANNEL c = INVCHANNEL
          else if CHSPEC_IS5G c \<or> CHSPEC_IS6G c
          then if chspec_bw = WL_CHANSPEC_BW_20 \<or> chspec_bw = WL_CHANSPEC_BW_40
                  \<or> chspec_bw = WL_CHANSPEC_BW_80 \<or> chspec_bw = WL_CHANSPEC_BW_160
               then CHSPEC_CHANNEL c = INVCHANNEL
               else True
          else True)
         \<or> (if chspec_bw = WL_CHANSPEC_BW_20 then chspec_sb \<noteq> WL_CHANSPEC_CTL_SB_L
            else if chspec_bw = WL_CHANSPEC_BW_40 then chspec_sb > WL_CHANSPEC_CTL_SB_U
            else if chspec_bw = WL_CHANSPEC_BW_80 then chspec_sb > WL_CHANSPEC_CTL_SB_UU
            else False))"

text \<open>The 5 GHz test runs over the 40 MHz table and then looks at the channels that are on neither side.\<close>

definition wf_valid_20MHz_chan :: "u32 \<Rightarrow> chanspec_band_t \<Rightarrow> bool" where
  "wf_valid_20MHz_chan channel band =
     (if band = WL_CHANSPEC_BAND_2G then channel \<ge> 1 \<and> channel \<le> 14
      else if band = WL_CHANSPEC_BAND_5G
      then list_ex (\<lambda>ch. channel = LOWER_20_SB ch \<or> channel = UPPER_20_SB ch) wf_5g_40m_chans
           \<or> channel = 165 \<or> channel = 34 \<or> channel = 38 \<or> channel = 42 \<or> channel = 46
      else if band = WL_CHANSPEC_BAND_6G
      then (channel \<ge> 1 \<and> channel \<le> 253) \<and> ((channel - 1) mod 4 = 0 \<or> channel = 2)
      else False)"

definition wf_valid_40MHz_center_chan :: "u32 \<Rightarrow> chanspec_band_t \<Rightarrow> bool" where
  "wf_valid_40MHz_center_chan center_channel band =
     (if band = WL_CHANSPEC_BAND_2G then center_channel \<ge> 3 \<and> center_channel \<le> 11
      else if band = WL_CHANSPEC_BAND_5G then list_ex (\<lambda>ch. center_channel = ucast ch) wf_5g_40m_chans
      else if band = WL_CHANSPEC_BAND_6G
      then (center_channel \<ge> 3 \<and> center_channel \<le> 227) \<and> (center_channel - 3) mod 8 = 0
      else False)"

definition wf_valid_80MHz_center_chan :: "u32 \<Rightarrow> chanspec_band_t \<Rightarrow> bool" where
  "wf_valid_80MHz_center_chan center_channel band =
     (if band = WL_CHANSPEC_BAND_5G then channel_80mhz_to_id center_channel \<ge> 0
      else if band = WL_CHANSPEC_BAND_6G then channel_6g_80mhz_to_id center_channel \<ge> 0
      else False)"

definition wf_valid_160MHz_center_chan :: "u32 \<Rightarrow> chanspec_band_t \<Rightarrow> bool" where
  "wf_valid_160MHz_center_chan center_channel band =
     (if band = WL_CHANSPEC_BAND_5G then list_ex (\<lambda>ch. center_channel = ucast ch) wf_5g_160m_chans
      else if band = WL_CHANSPEC_BAND_6G
      then (center_channel \<ge> 15 \<and> center_channel \<le> 207) \<and> (center_channel - 15) mod 32 = 0
      else False)"

definition wf_valid_240MHz_center_chan :: "u32 \<Rightarrow> chanspec_band_t \<Rightarrow> bool" where
  "wf_valid_240MHz_center_chan center_channel band \<longleftrightarrow>
     band = WL_CHANSPEC_BAND_6G \<and> (center_channel \<ge> 23 \<and> center_channel \<le> 167) \<and> (center_channel - 23) mod 48 = 0"

definition wf_valid_320MHz_center_chan :: "u32 \<Rightarrow> chanspec_band_t \<Rightarrow> bool" where
  "wf_valid_320MHz_center_chan center_channel band \<longleftrightarrow>
     band = WL_CHANSPEC_BAND_6G \<and> (center_channel \<ge> 31 \<and> center_channel \<le> 199) \<and> (center_channel - 31) mod 64 = 0"

definition wf_chspec_valid :: "chanspec_t \<Rightarrow> bool" where
  "wf_chspec_valid c =
     (let chspec_band = CHSPEC_BAND c; chspec_bw = CHSPEC_BW c; chspec_ch = ucast (CHSPEC_CHANNEL c)
      in if wf_chspec_malformed c then False
      else if chspec_bw = WL_CHANSPEC_BW_20 then wf_valid_20MHz_chan chspec_ch chspec_band
      else if chspec_bw = WL_CHANSPEC_BW_40 then wf_valid_40MHz_center_chan chspec_ch chspec_band
      else if chspec_bw = WL_CHANSPEC_BW_80 then wf_valid_80MHz_center_chan chspec_ch chspec_band
      else if chspec_bw = WL_CHANSPEC_BW_160 then wf_valid_160MHz_center_chan chspec_ch chspec_band
      else False)"

section \<open>Creating specifications\<close>

definition wf_create_20MHz_chspec :: "u32 \<Rightarrow> chanspec_band_t \<Rightarrow> chanspec_t" where
  "wf_create_20MHz_chspec channel band =
     (if channel \<le> 0x00ff
         \<and> (band = WL_CHANSPEC_BAND_2G \<or> band = WL_CHANSPEC_BAND_5G \<or> band = WL_CHANSPEC_BAND_6G)
      then let chspec = ucast (ucast band OR 0x1000 OR 0x0000 OR channel)
           in if \<not> wf_chspec_valid chspec then INVCHANSPEC else chspec
      else INVCHANSPEC)"

definition wf_create_40MHz_chspec :: "u32 \<Rightarrow> u32 \<Rightarrow> chanspec_band_t \<Rightarrow> chanspec_t" where
  "wf_create_40MHz_chspec primary_channel center_channel band =
     (let sb = channel_to_sb center_channel primary_channel WL_CHANSPEC_BW_40
      in if sb < 0 \<or> \<not> wf_valid_40MHz_center_chan center_channel band then INVCHANSPEC
      else ucast (center_channel OR 0x1800 OR ucast band OR push_bit 8 (word_of_int sb)))"

definition wf_create_40MHz_chspec_primary_sb :: "u32 \<Rightarrow> u16 \<Rightarrow> chanspec_band_t \<Rightarrow> chanspec_t" where
  "wf_create_40MHz_chspec_primary_sb primary_channel primary_subband band =
     (if primary_subband = WL_CHANSPEC_CTL_SB_L then wf_create_40MHz_chspec primary_channel (primary_channel + 2) band
      else if primary_subband = WL_CHANSPEC_CTL_SB_U then wf_create_40MHz_chspec primary_channel (primary_channel - 2) band
      else INVCHANSPEC)"

definition wf_create_80MHz_chspec :: "u32 \<Rightarrow> u32 \<Rightarrow> chanspec_band_t \<Rightarrow> chanspec_t" where
  "wf_create_80MHz_chspec primary_channel center_channel band =
     (let sb = channel_to_sb center_channel primary_channel WL_CHANSPEC_BW_80
      in if sb < 0 \<or> \<not> wf_valid_80MHz_center_chan center_channel band then INVCHANSPEC
      else ucast (center_channel OR 0x2000 OR ucast band OR push_bit 8 (word_of_int sb)))"

definition wf_create_160MHz_chspec :: "u32 \<Rightarrow> u32 \<Rightarrow> chanspec_band_t \<Rightarrow> chanspec_t" where
  "wf_create_160MHz_chspec primary_channel center_channel band =
     (let sb = channel_to_sb center_channel primary_channel WL_CHANSPEC_BW_160
      in if sb < 0 \<or> \<not> wf_valid_160MHz_center_chan center_channel band then INVCHANSPEC
      else ucast (center_channel OR 0x2800 OR ucast band OR push_bit 8 (word_of_int sb)))"

text \<open>The segments of an 80+80 or 160+160 MHz specification: the one that holds the primary channel comes first.\<close>

definition assemble_segments :: "int \<Rightarrow> int \<Rightarrow> int \<Rightarrow> u32 \<Rightarrow> chanspec_band_t \<Rightarrow> chanspec_t" where
  "assemble_segments seg0 seg1 sb bw band =
     ucast (word_of_int seg0 OR push_bit 4 (word_of_int seg1) OR push_bit 8 (word_of_int sb) OR bw OR ucast band :: u32)"

definition wf_create_8080MHz_chspec :: "u32 \<Rightarrow> u32 \<Rightarrow> u32 \<Rightarrow> chanspec_band_t \<Rightarrow> chanspec_t" where
  "wf_create_8080MHz_chspec primary_channel chan0 chan1 band =
     (if \<bar>sint (chan0 - chan1)\<bar> \<le> 16 then INVCHANSPEC
      else let chan0_id = (if band = WL_CHANSPEC_BAND_5G then channel_80mhz_to_id chan0
                           else if band = WL_CHANSPEC_BAND_6G then channel_6g_80mhz_to_id chan0 else - 1);
               chan1_id = (if band = WL_CHANSPEC_BAND_5G then channel_80mhz_to_id chan1
                           else if band = WL_CHANSPEC_BAND_6G then channel_6g_80mhz_to_id chan1 else - 1)
      in if chan0_id = - 1 \<or> chan1_id = - 1 then INVCHANSPEC
      else let sb = channel_to_sb chan0 primary_channel WL_CHANSPEC_BW_80
      in if sb \<ge> 0 then assemble_segments chan0_id chan1_id sb 0x3000 band
      else let sb = channel_to_sb chan1 primary_channel WL_CHANSPEC_BW_80
      in if sb < 0 then INVCHANSPEC
      else assemble_segments chan1_id chan0_id sb 0x3000 band)"

definition wf_create_160160MHz_chspec :: "u32 \<Rightarrow> u32 \<Rightarrow> u32 \<Rightarrow> chanspec_band_t \<Rightarrow> chanspec_t" where
  "wf_create_160160MHz_chspec primary_channel chan0 chan1 band =
     (if \<bar>sint (chan0 - chan1)\<bar> \<le> 32 then INVCHANSPEC
      else let chan0_id = (if band = WL_CHANSPEC_BAND_5G then channel_5g_160mhz_to_id chan0
                           else if band = WL_CHANSPEC_BAND_6G then channel_6g_160mhz_to_id chan0 else - 1);
               chan1_id = (if band = WL_CHANSPEC_BAND_5G then channel_5g_160mhz_to_id chan1
                           else if band = WL_CHANSPEC_BAND_6G then channel_6g_160mhz_to_id chan1 else - 1)
      in if chan0_id = - 1 \<or> chan1_id = - 1 then INVCHANSPEC
      else let sb = channel_to_sb chan0 primary_channel WL_CHANSPEC_BW_160
      in if sb \<ge> 0 then assemble_segments chan0_id chan1_id sb 0x0800 band
      else let sb = channel_to_sb chan1 primary_channel WL_CHANSPEC_BW_160
      in if sb < 0 then INVCHANSPEC
      else assemble_segments chan1_id chan0_id sb 0x0800 band)"

definition wf_create_240MHz_chspec :: "u32 \<Rightarrow> u32 \<Rightarrow> chanspec_band_t \<Rightarrow> chanspec_t" where
  "wf_create_240MHz_chspec primary_channel center_channel band =
     (let chan_id = (if band = WL_CHANSPEC_BAND_6G then channel_6g_240mhz_to_id center_channel else - 1)
      in if chan_id = - 1 then INVCHANSPEC
      else let sb = channel_to_sb center_channel primary_channel WL_CHANSPEC_BW_240
      in if sb < 0 \<or> \<not> wf_valid_240MHz_center_chan center_channel band then INVCHANSPEC
      else ucast (word_of_int chan_id OR push_bit 7 (word_of_int sb) OR 0x3800 OR ucast band :: u32))"

definition wf_create_320MHz_chspec :: "u32 \<Rightarrow> u32 \<Rightarrow> chanspec_band_t \<Rightarrow> chanspec_t" where
  "wf_create_320MHz_chspec primary_channel center_channel band =
     (let chan_id = (if band = WL_CHANSPEC_BAND_6G then channel_6g_320mhz_to_id center_channel else - 1)
      in if chan_id = - 1 then INVCHANSPEC
      else let sb = channel_to_sb center_channel primary_channel WL_CHANSPEC_BW_320
      in if sb < 0 \<or> \<not> wf_valid_320MHz_center_chan center_channel band then INVCHANSPEC
      else ucast (word_of_int chan_id OR push_bit 7 (word_of_int sb) OR 0x0000 OR ucast band :: u32))"

definition wf_create_chspec :: "u32 \<Rightarrow> u32 \<Rightarrow> chanspec_bw_t \<Rightarrow> chanspec_band_t \<Rightarrow> chanspec_t" where
  "wf_create_chspec primary_channel center_channel bw band =
     (let sb = (if bw = WL_CHANSPEC_BW_20 \<and> primary_channel = center_channel then 0
                else if bw = WL_CHANSPEC_BW_40 \<or> bw = WL_CHANSPEC_BW_80 \<or> bw = WL_CHANSPEC_BW_160
                then channel_to_sb center_channel primary_channel bw
                else - 1)
      in if sb \<ge> 0
         then let chspec = ucast (center_channel OR ucast band OR ucast bw OR push_bit 8 (word_of_int sb))
              in if \<not> wf_chspec_valid chspec then INVCHANSPEC else chspec
         else INVCHANSPEC)"

text \<open>The loop over a table of centre channels; \<open>chspec\<close> keeps the result of the last call.\<close>

fun from_table :: "u32 \<Rightarrow> chanspec_bw_t \<Rightarrow> chanspec_band_t \<Rightarrow> u8 list \<Rightarrow> chanspec_t \<Rightarrow> chanspec_t" where
  "from_table primary_channel bw band [] chspec = chspec"
| "from_table primary_channel bw band (ch # chs) chspec =
     (let chspec = wf_create_chspec primary_channel (ucast ch) bw band
      in if chspec \<noteq> INVCHANSPEC then chspec else from_table primary_channel bw band chs chspec)"

definition wf_create_chspec_from_primary :: "u32 \<Rightarrow> chanspec_bw_t \<Rightarrow> chanspec_band_t \<Rightarrow> chanspec_t" where
  "wf_create_chspec_from_primary primary_channel bw band =
     (if bw = WL_CHANSPEC_BW_20 then wf_create_20MHz_chspec primary_channel band
      else if band = WL_CHANSPEC_BAND_2G \<or> band = WL_CHANSPEC_BAND_5G
      then from_table primary_channel bw band
             (if band = WL_CHANSPEC_BAND_2G \<and> bw = WL_CHANSPEC_BW_40 then wf_2g_40m_chans
              else if bw = WL_CHANSPEC_BW_40 then wf_5g_40m_chans
              else if bw = WL_CHANSPEC_BW_80 then wf_5g_80m_chans
              else if bw = WL_CHANSPEC_BW_160 then wf_5g_160m_chans
              else []) INVCHANSPEC
      else if band = WL_CHANSPEC_BAND_6G
      then let ch_per_block = (if bw = WL_CHANSPEC_BW_40 then 8
                               else if bw = WL_CHANSPEC_BW_80 then 16
                               else if bw = WL_CHANSPEC_BW_160 then 32 else 0)
           in if ch_per_block \<noteq> 0
              then let mask = NOT (ch_per_block - 1);
                       base = 1 + ((primary_channel - 1) AND mask);
                       center = base + center_chan_to_edge bw
                   in wf_create_chspec primary_channel center bw band
              else INVCHANSPEC
      else INVCHANSPEC)"

definition wf_create_chspec_sb :: "u32 \<Rightarrow> u32 \<Rightarrow> chanspec_bw_t \<Rightarrow> chanspec_band_t \<Rightarrow> chanspec_t" where
  "wf_create_chspec_sb sb center_channel bw band =
     (if sb > 7 then INVCHANSPEC
      else let chspec = ucast (center_channel OR ucast band OR ucast bw OR push_bit 8 sb)
           in if wf_chspec_valid chspec then chspec else INVCHANSPEC)"

definition wf_create_8080MHz_chspec_sb :: "u32 \<Rightarrow> u32 \<Rightarrow> u32 \<Rightarrow> chanspec_band_t \<Rightarrow> chanspec_t" where
  "wf_create_8080MHz_chspec_sb sb chan0 chan1 band =
     (if sb > 7 then INVCHANSPEC
      else let sb = push_bit 8 sb
      in if \<bar>sint (chan0 - chan1)\<bar> \<le> 16 then INVCHANSPEC
      else if band \<noteq> WL_CHANSPEC_BAND_5G \<and> band \<noteq> WL_CHANSPEC_BAND_6G then INVCHANSPEC
      else let chan0_id = (if band = WL_CHANSPEC_BAND_5G then channel_80mhz_to_id chan0 else channel_6g_80mhz_to_id chan0);
               chan1_id = (if band = WL_CHANSPEC_BAND_5G then channel_80mhz_to_id chan1 else channel_6g_80mhz_to_id chan1)
      in if chan0_id = - 1 \<or> chan1_id = - 1 then INVCHANSPEC
      else let (seg0, seg1, sb) = (if sb < 0x0400 then (chan0_id, chan1_id, sb) else (chan1_id, chan0_id, sb - 0x0400));
               chspec = ucast (word_of_int seg0 OR push_bit 4 (word_of_int seg1) OR sb OR 0x3000 OR ucast band)
      in if wf_chspec_valid chspec then chspec else INVCHANSPEC)"

definition wf_create_160160MHz_chspec_sb :: "u32 \<Rightarrow> u32 \<Rightarrow> u32 \<Rightarrow> chanspec_band_t \<Rightarrow> chanspec_t" where
  "wf_create_160160MHz_chspec_sb sb chan0 chan1 band =
     (if sb > 7 then INVCHANSPEC
      else let sb = push_bit 8 sb
      in if \<bar>sint (chan0 - chan1)\<bar> \<le> 32 then INVCHANSPEC
      else if band \<noteq> WL_CHANSPEC_BAND_5G \<and> band \<noteq> WL_CHANSPEC_BAND_6G then INVCHANSPEC
      else let chan0_id = (if band = WL_CHANSPEC_BAND_5G then channel_5g_160mhz_to_id chan0 else channel_6g_160mhz_to_id chan0);
               chan1_id = (if band = WL_CHANSPEC_BAND_5G then channel_5g_160mhz_to_id chan1 else channel_6g_160mhz_to_id chan1)
      in if chan0_id = - 1 \<or> chan1_id = - 1 then INVCHANSPEC
      else let (seg0, seg1, sb) = (if sb < 0x0400 then (chan0_id, chan1_id, sb) else (chan1_id, chan0_id, sb - 0x0400));
               chspec = ucast (word_of_int seg0 OR push_bit 4 (word_of_int seg1) OR sb OR 0x0800 OR ucast band)
      in if wf_chspec_valid chspec then chspec else INVCHANSPEC)"

section \<open>Sub-bands of a specification\<close>

definition wf_chspec_primary20_chan :: "chanspec_t \<Rightarrow> u8" where
  "wf_chspec_primary20_chan c =
     (if CHSPEC_IS20 c then CHSPEC_CHANNEL c
      else let sb = ucast (drop_bit 8 (CHSPEC_CTL_SB c)); bw = CHSPEC_BW c; center_chan = CHSPEC_CHANNEL c
           in ucast (channel_to_primary20_chan (ucast center_chan) bw sb))"

definition wf_chspec_to_bw_str :: "chanspec_t \<Rightarrow> string" where
  "wf_chspec_to_bw_str c = wf_chspec_bw_str ! unat (drop_bit 11 (CHSPEC_BW c))"

definition wf_chspec_coexist :: "chanspec_t \<Rightarrow> chanspec_t \<Rightarrow> bool" where
  "wf_chspec_coexist c1 c2 =
     (let same_primary = (wf_chspec_primary20_chan c1 = wf_chspec_primary20_chan c2)
      in if same_primary \<and> CHSPEC_IS2G c1 \<and> CHSPEC_IS40 c1 \<and> CHSPEC_IS40 c2
         then CHSPEC_CTL_SB c1 = CHSPEC_CTL_SB c2 else same_primary)"

definition wf_chspec_primary20_chspec :: "chanspec_t \<Rightarrow> chanspec_t" where
  "wf_chspec_primary20_chspec c =
     (if \<not> CHSPEC_IS20 c then ucast (wf_chspec_primary20_chan c) OR WL_CHANSPEC_BW_20 OR CHSPEC_BAND c else c)"

text \<open>The search of \<open>wf_channel2chspec\<close> through a table; it returns 0 when no centre fits.\<close>

fun channel2chspec_loop :: "u32 \<Rightarrow> u32 \<Rightarrow> u16 \<Rightarrow> u8 list \<Rightarrow> u16" where
  "channel2chspec_loop pri_ch bw chspec [] = 0"
| "channel2chspec_loop pri_ch bw chspec (ch # chs) =
     (let sb = channel_to_sb (ucast ch) pri_ch (ucast bw)
      in if sb \<ge> 0 then chspec OR ucast ch OR push_bit 8 (word_of_int sb)
      else channel2chspec_loop pri_ch bw chspec chs)"

definition wf_channel2chspec :: "u32 \<Rightarrow> u32 \<Rightarrow> u16" where
  "wf_channel2chspec pri_ch bw =
     (let chspec = (if pri_ch \<le> 14 then WL_CHANSPEC_BAND_2G else WL_CHANSPEC_BAND_5G) OR ucast bw
      in if bw = 0x1800
         then channel2chspec_loop pri_ch bw chspec (if pri_ch \<le> 14 then wf_2g_40m_chans else wf_5g_40m_chans)
      else if bw = 0x2000 then channel2chspec_loop pri_ch bw chspec wf_5g_80m_chans
      else if bw = 0x2800 then channel2chspec_loop pri_ch bw chspec wf_5g_160m_chans
      else if bw = 0x1000 then chspec OR ucast pri_ch
      else 0)"

definition wf_chspec_primary80_chspec :: "chanspec_t \<Rightarrow> chanspec_t" where
  "wf_chspec_primary80_chspec c =
     (if CHSPEC_IS80 c then c
      else if CHSPEC_IS160 c
      then let center_chan = ucast (CHSPEC_CHANNEL c) :: u32; sb = ucast (CHSPEC_CTL_SB c) :: u32;
               (center_chan, sb) = (if sb < 0x0400 then (center_chan - 8, sb) else (center_chan + 8, sb - 0x0400))
           in ucast (ucast (CHSPEC_BAND c) OR 0x2000 OR sb OR center_chan)
      else INVCHANSPEC)"

definition wf_chspec_secondary80_chspec :: "chanspec_t \<Rightarrow> chanspec_t" where
  "wf_chspec_secondary80_chspec c =
     (if CHSPEC_IS160 c
      then let center_chan = ucast (CHSPEC_CHANNEL c) :: u32;
               center_chan = (if CHSPEC_CTL_SB c < WL_CHANSPEC_CTL_SB_ULL then center_chan + 8 else center_chan - 8)
           in ucast (ucast (CHSPEC_BAND c) OR 0x2000 OR 0x0000 OR center_chan)
      else INVCHANSPEC)"

definition wf_chspec_primary40_chspec :: "chanspec_t \<Rightarrow> chanspec_t" where
  "wf_chspec_primary40_chspec chspec =
     (let c = (if CHSPEC_IS160 chspec then wf_chspec_primary80_chspec chspec else chspec)
      in if CHSPEC_IS80 c
         then let center_chan = ucast (CHSPEC_CHANNEL c) :: u32; sb = ucast (CHSPEC_CTL_SB c) :: u32;
                  (center_chan, sb) = (if sb < 0x0200 then (center_chan - 4, sb) else (center_chan + 4, sb - 0x0200))
              in ucast (ucast (CHSPEC_BAND c) OR 0x1800 OR sb OR center_chan)
         else chspec)"

definition wf_chspec_primary80_channel :: "chanspec_t \<Rightarrow> u8" where
  "wf_chspec_primary80_channel c =
     (let p = wf_chspec_primary80_chspec c in if p = INVCHANSPEC then INVCHANNEL else CHSPEC_CHANNEL p)"

definition wf_chspec_secondary80_channel :: "chanspec_t \<Rightarrow> u8" where
  "wf_chspec_secondary80_channel c =
     (let p = wf_chspec_secondary80_chspec c in if p = INVCHANSPEC then INVCHANNEL else CHSPEC_CHANNEL p)"

definition wf_chspec_get_80p80_channels :: "chanspec_t \<Rightarrow> u8 \<times> u8" where
  "wf_chspec_get_80p80_channels c =
     (if CHSPEC_IS160 c then (CHSPEC_CHANNEL c - 8, CHSPEC_CHANNEL c + 8) else (CHSPEC_CHANNEL c, - 1))"

definition wf_chspec_primary160_chspec :: "chanspec_t \<Rightarrow> chanspec_t" where
  "wf_chspec_primary160_chspec c = (if CHSPEC_IS160 c then c else INVCHANSPEC)"

definition wf_chspec_primary160_channel :: "chanspec_t \<Rightarrow> u8" where
  "wf_chspec_primary160_channel c =
     (let p = wf_chspec_primary160_chspec c in if p = INVCHANSPEC then INVCHANNEL else CHSPEC_CHANNEL p)"

definition channel_bw_to_width :: "chanspec_t \<Rightarrow> u8" where
  "channel_bw_to_width c = (if CHSPEC_IS80 c then 1 else if CHSPEC_IS160 c then 2 else 0)"

definition CH80MHZ_CHSPEC :: "u8 \<Rightarrow> u16 \<Rightarrow> chanspec_t" where
  "CH80MHZ_CHSPEC channel ctlsb = ucast channel OR ctlsb OR WL_CHANSPEC_BW_80 OR WL_CHANSPEC_BAND_5G"

text \<open>\<open>sidebands\<close> up to \<open>WF_NUM_SIDEBANDS_80MHZ\<close>, the part \<open>wf_chspec_80\<close> reads.\<close>

definition sidebands_80 :: "u16 list" where
  "sidebands_80 = [0x0000, 0x0100, 0x0200, 0x0300]"

fun chspec_80_loop :: "u8 \<Rightarrow> u8 \<Rightarrow> u16 list \<Rightarrow> chanspec_t" where
  "chspec_80_loop center_channel primary_channel [] = INVCHANSPEC"
| "chspec_80_loop center_channel primary_channel (sb # sbs) =
     (let cur = CH80MHZ_CHSPEC center_channel sb
      in if primary_channel = wf_chspec_primary20_chan cur then cur else chspec_80_loop center_channel primary_channel sbs)"

definition wf_chspec_80 :: "u8 \<Rightarrow> u8 \<Rightarrow> chanspec_t" where
  "wf_chspec_80 center_channel primary_channel = chspec_80_loop center_channel primary_channel sidebands_80"

definition wf_chspec_get8080_chspec :: "u8 \<Rightarrow> u8 \<Rightarrow> u8 \<Rightarrow> chanspec_t" where
  "wf_chspec_get8080_chspec primary_20mhz chan0 chan1 =
     (let chan0_id = channel_80mhz_to_id (ucast chan0); chan1_id = channel_80mhz_to_id (ucast chan1)
      in if chan0_id = - 1 \<or> chan1_id = - 1 then INVCHANSPEC
      else let sb = channel_to_sb (ucast chan0) (ucast primary_20mhz) WL_CHANSPEC_BW_80
      in if sb \<ge> 0 then assemble_segments chan0_id chan1_id sb 0x3000 WL_CHANSPEC_BAND_5G
      else let sb = channel_to_sb (ucast chan1) (ucast primary_20mhz) WL_CHANSPEC_BW_80
      in if sb < 0 then INVCHANSPEC
      else assemble_segments chan1_id chan0_id sb 0x3000 WL_CHANSPEC_BAND_5G)"

section \<open>Iterating over the 20 MHz sub-bands\<close>

definition wf_chspec_first_20_sb :: "chanspec_t \<Rightarrow> u32" where
  "wf_chspec_first_20_sb c =
     (if CHSPEC_IS80 c then LL_20_SB (CHSPEC_CHANNEL c)
      else if CHSPEC_IS40 c then LOWER_20_SB (CHSPEC_CHANNEL c)
      else ucast (CHSPEC_CHANNEL c))"

definition CH_LAST_20_SB :: "chanspec_t \<Rightarrow> u8" where
  "CH_LAST_20_SB c =
     (if CHSPEC_IS80 c then ucast (UU_20_SB (CHSPEC_CHANNEL c))
      else if CHSPEC_IS40 c then ucast (UPPER_20_SB (CHSPEC_CHANNEL c))
      else CHSPEC_CHANNEL c)"

definition CH_NEXT_20_SB :: "chanspec_t \<Rightarrow> u8 \<Rightarrow> u8" where
  "CH_NEXT_20_SB c channel = (if channel + 4 > CH_LAST_20_SB c then 0 else channel + 4)"

text \<open>
  \<open>FOREACH_20_SB\<close> ends when the next channel is 0. \<open>GET_ALL_SB\<close> collects the channels; the two nested loops of
  \<open>wf_chspec_overlap\<close> return as soon as two channels are less than 20 MHz apart. \<open>None\<close> is a loop that does not end.
\<close>

partial_function (option) foreach_20_sb :: "chanspec_t \<Rightarrow> u8 \<Rightarrow> u8 list option" where
  [code]: "foreach_20_sb c channel =
     (if channel = 0 then Some []
      else do { chs \<leftarrow> foreach_20_sb c (CH_NEXT_20_SB c channel); Some (channel # chs) })"

definition GET_ALL_SB :: "chanspec_t \<Rightarrow> u8 list option" where
  "GET_ALL_SB c = foreach_20_sb c (ucast (wf_chspec_first_20_sb c))"

partial_function (option) overlap_inner :: "u8 \<Rightarrow> chanspec_t \<Rightarrow> u8 \<Rightarrow> bool option" where
  [code]: "overlap_inner ch0 c1 ch1 =
     (if ch1 = 0 then Some False
      else if \<bar>uint ch0 - uint ch1\<bar> < 4 then Some True
      else overlap_inner ch0 c1 (CH_NEXT_20_SB c1 ch1))"

partial_function (option) overlap_outer :: "chanspec_t \<Rightarrow> chanspec_t \<Rightarrow> u8 \<Rightarrow> bool option" where
  [code]: "overlap_outer c0 c1 ch0 =
     (if ch0 = 0 then Some False
      else do {
        found \<leftarrow> overlap_inner ch0 c1 (ucast (wf_chspec_first_20_sb c1));
        if found then Some True else overlap_outer c0 c1 (CH_NEXT_20_SB c0 ch0) })"

definition wf_chspec_overlap :: "chanspec_t \<Rightarrow> chanspec_t \<Rightarrow> bool option" where
  "wf_chspec_overlap c0 c1 =
     (if CHSPEC_BAND c0 \<noteq> CHSPEC_BAND c1 then Some False
      else overlap_outer c0 c1 (ucast (wf_chspec_first_20_sb c0)))"

definition wf_get_all_ext :: "chanspec_t \<Rightarrow> ptr \<Rightarrow> mem \<Rightarrow> mem option" where
  "wf_get_all_ext c pext m =
     (let t = (if CHSPEC_IS160 c then wf_chspec_primary80_chspec c else c);
          pri_ch = wf_chspec_primary20_chan t;
          m = m(pext := pri_ch)
      in if CHSPEC_IS20 c then Some m
      else let m = m(pext + 1 := (if t AND WL_CHANSPEC_CTL_SB_U = 0 then pri_ch + 4 else pri_ch - 4))
      in if CHSPEC_IS40 c then Some m
      else let t = wf_channel2chspec (if c AND WL_CHANSPEC_CTL_SB_UL = 0 then ucast pri_ch + 8 else ucast pri_ch - 8) 0x1800
      in do {
        ext40 \<leftarrow> GET_ALL_SB t;
        let m = store_bytes (pext + 2) ext40 m;
        if CHSPEC_IS80 c then Some m
        else do {
          ext80 \<leftarrow> GET_ALL_SB (CH80MHZ_CHSPEC (wf_chspec_secondary80_channel c) WL_CHANSPEC_CTL_SB_L);
          Some (store_bytes (pext + 4) ext80 m) } })"

section \<open>Frequencies\<close>

abbreviation WF_CHAN_FACTOR_2_4_G :: u32 where "WF_CHAN_FACTOR_2_4_G \<equiv> 4814"
abbreviation WF_CHAN_FACTOR_5_G :: u32 where "WF_CHAN_FACTOR_5_G \<equiv> 10000"
abbreviation WF_CHAN_FACTOR_6_G :: u32 where "WF_CHAN_FACTOR_6_G \<equiv> 11900"

definition wf_mhz2chanspec_band :: "u32 \<Rightarrow> chanspec_band_t" where
  "wf_mhz2chanspec_band freq =
     (if freq \<ge> 2400 \<and> freq \<le> 2500 then WL_CHANSPEC_BAND_2G
      else if freq \<ge> 5000 \<and> freq < 5935 then WL_CHANSPEC_BAND_5G
      else if freq \<ge> 5935 \<and> freq \<le> 7205 then WL_CHANSPEC_BAND_6G
      else INVCHANSPEC)"

text \<open>\<open>offset\<close> and \<open>ch\<close> are signed; \<open>offset\<close> is the unsigned difference read as an \<open>int\<close>, and C division truncates.\<close>

definition wf_mhz2channel :: "u32 \<Rightarrow> u32 \<Rightarrow> int" where
  "wf_mhz2channel freq start_factor0 =
     (let start_factor = (if start_factor0 = 0
                          then if freq \<ge> 2400 \<and> freq \<le> 2500 then WF_CHAN_FACTOR_2_4_G
                               else if freq \<ge> 5000 \<and> freq < 5935 then WF_CHAN_FACTOR_5_G
                               else if freq \<ge> 5935 \<and> freq \<le> 7205 then WF_CHAN_FACTOR_6_G
                               else 0
                          else start_factor0)
      in if freq = 2484 \<and> start_factor = WF_CHAN_FACTOR_2_4_G then 14
      else if freq = 5935 \<and> start_factor = WF_CHAN_FACTOR_6_G then 2
      else if freq = 5960 \<and> start_factor = WF_CHAN_FACTOR_6_G then - 1
      else let base = start_factor div 2
      in if freq < base then - 1
      else let offset = sint (freq - base);
               ch = sgn offset * (\<bar>offset\<bar> div 5)
      in if offset \<noteq> ch * 5 then - 1
      else if start_factor = WF_CHAN_FACTOR_2_4_G then (if ch > 13 then - 1 else ch)
      else if start_factor = WF_CHAN_FACTOR_6_G then (if (word_of_int ch :: u32) > 253 then - 1 else ch)
      else if ch > 200 then - 1
      else ch)"

definition wf_channel2mhz :: "u32 \<Rightarrow> u32 \<Rightarrow> int" where
  "wf_channel2mhz ch start_factor =
     (if (start_factor = WF_CHAN_FACTOR_2_4_G \<and> (ch < 1 \<or> ch > 14))
         \<or> (start_factor = WF_CHAN_FACTOR_6_G \<and> (ch < 1 \<or> ch > 253))
         \<or> (start_factor \<noteq> WF_CHAN_FACTOR_6_G \<and> (ch < 1 \<or> ch > 200)) then - 1
      else if start_factor = WF_CHAN_FACTOR_2_4_G \<and> ch = 14 then 2484
      else if start_factor = WF_CHAN_FACTOR_6_G \<and> ch = 2 then 5935
      else sint (ch * 5 + start_factor div 2))"

end
