(* ===== verification/Chanspec_Str.thy ===== *)
theory Chanspec_Str
  imports Chanspec
begin

text \<open>
  Channel specifications as text: \<open>wf_chspec_ntoa\<close>, \<open>wf_chspec_aton\<close> and the number parser \<open>bcm_strtoull\<close> of \<open>bcmutils.c\<close>
  they use. A C string is the list of its characters before the terminating zero; a pointer into it is the rest of the
  list, and reading at its end gives the zero.
\<close>

section \<open>Character classes and numbers\<close>

definition cur :: "string \<Rightarrow> u8" where
  "cur s = (case s of [] \<Rightarrow> 0 | c # _ \<Rightarrow> of_char c)"

text \<open>The classes of \<open>bcm_ctype\<close> that are used, with the Latin 1 half of the table.\<close>

definition bcm_isspace :: "u8 \<Rightarrow> bool" where
  "bcm_isspace c \<longleftrightarrow> (9 \<le> c \<and> c \<le> 13) \<or> c = 32 \<or> c = 160"

definition bcm_isdigit :: "u8 \<Rightarrow> bool" where
  "bcm_isdigit c \<longleftrightarrow> 48 \<le> c \<and> c \<le> 57"

definition bcm_isupper :: "u8 \<Rightarrow> bool" where
  "bcm_isupper c \<longleftrightarrow> (65 \<le> c \<and> c \<le> 90) \<or> (192 \<le> c \<and> c \<le> 222 \<and> c \<noteq> 215)"

definition bcm_islower :: "u8 \<Rightarrow> bool" where
  "bcm_islower c \<longleftrightarrow> (97 \<le> c \<and> c \<le> 122) \<or> (223 \<le> c \<and> c \<noteq> 247)"

definition bcm_isxdigit :: "u8 \<Rightarrow> bool" where
  "bcm_isxdigit c \<longleftrightarrow> bcm_isdigit c \<or> (65 \<le> c \<and> c \<le> 70) \<or> (97 \<le> c \<and> c \<le> 102)"

definition bcm_toupper :: "u8 \<Rightarrow> u8" where
  "bcm_toupper c = (if bcm_islower c then c - 32 else c)"

definition bcm_tolower :: "u8 \<Rightarrow> u8" where
  "bcm_tolower c = (if bcm_isupper c then c + 32 else c)"

definition digit_value :: "u8 \<Rightarrow> u64" where
  "digit_value c = (if bcm_isdigit c then ucast (c - 48) else ucast (bcm_toupper c - 65 + 10))"

fun skip_xdigits :: "string \<Rightarrow> string" where
  "skip_xdigits [] = []"
| "skip_xdigits (c # s) = (if bcm_isxdigit (of_char c) then skip_xdigits s else c # s)"

text \<open>
  The digit loop: the value, the rest of the string and whether it was left by the overflow test. The sign is applied
  afterwards; \<open>ulong\<close> has 64 bits.
\<close>

fun strtoull_loop :: "u64 \<Rightarrow> bool \<Rightarrow> u64 \<Rightarrow> string \<Rightarrow> bool \<times> u64 \<times> string" where
  "strtoull_loop base neg last_result [] = (False, last_result, [])"
| "strtoull_loop base neg last_result (c # s) =
     (let value = digit_value (of_char c)
      in if bcm_isxdigit (of_char c) \<and> value < base
         then let result = last_result * base + value
              in if result < last_result \<and> \<not> neg then (True, - 1, skip_xdigits (c # s))
              else strtoull_loop base neg result s
         else (False, last_result, c # s))"

definition bcm_strtoull :: "string \<Rightarrow> u32 \<Rightarrow> u64 \<times> string" where
  "bcm_strtoull cp base =
     (let cp = dropWhile (\<lambda>c. bcm_isspace (of_char c)) cp;
          neg = (cur cp = of_char CHR ''-'');
          cp = (if cur cp = of_char CHR ''+'' \<or> neg then tl cp else cp);
          hex = (cur cp = of_char CHR ''0'' \<and> (cur (tl cp) = of_char CHR ''x'' \<or> cur (tl cp) = of_char CHR ''X''));
          (base, cp) = (if base = 0
                        then if cur cp = of_char CHR ''0''
                             then if hex then (16, drop 2 cp) else (8, tl cp)
                             else (10, cp)
                        else if base = 16 \<and> hex then (base, drop 2 cp) else (base, cp));
          (overflow, result, rest) = strtoull_loop (ucast base) neg 0 cp
      in (if neg \<and> \<not> overflow then - result else result, rest))"

definition bcm_strtoul :: "string \<Rightarrow> u32 \<Rightarrow> u64 \<times> string" where
  "bcm_strtoul cp base = bcm_strtoull cp base"

definition bcm_atoi :: "string \<Rightarrow> int" where
  "bcm_atoi s = sint (ucast (fst (bcm_strtoul s 10)) :: u32)"

text \<open>A number was read when the end pointer moved, that is, when the rest is shorter.\<close>

definition read_uint :: "string \<Rightarrow> (u32 \<times> string) option" where
  "read_uint p = (let (val, endp) = bcm_strtoul p 10 in if length endp = length p then None else Some (ucast val, endp))"

section \<open>Printing\<close>

text \<open>\<open>%d\<close> of a non-negative number and \<open>%04x\<close>.\<close>

fun dec_digits :: "nat \<Rightarrow> string" where
  "dec_digits n = (if n < 10 then [char_of (48 + n)] else dec_digits (n div 10) @ [char_of (48 + n mod 10)])"

declare dec_digits.simps [simp del]

definition hex_digit :: "nat \<Rightarrow> char" where
  "hex_digit n = char_of (if n < 10 then 48 + n else 87 + n)"

definition hex4 :: "u16 \<Rightarrow> string" where
  "hex4 w = map (\<lambda>i. hex_digit (unat (drop_bit (4 * i) w AND 15))) [3, 2, 1, 0]"

text \<open>\<open>snprintf\<close> into the \<open>CHANSPEC_STR_LEN\<close> (20) bytes of the buffer keeps 19 characters.\<close>

definition wf_chspec_ntoa :: "chanspec_t \<Rightarrow> string option" where
  "wf_chspec_ntoa c =
     (if wf_chspec_malformed c then None
      else let band = (if CHSPEC_IS2G c \<and> CHSPEC_CHANNEL c > 14 then ''2g''
                       else if CHSPEC_IS5G c \<and> CHSPEC_CHANNEL c \<le> 14 then ''5g''
                       else if CHSPEC_IS6G c then ''6g'' else []);
               pri_chan = unat (wf_chspec_primary20_chan c)
      in if CHSPEC_IS20 c then Some (take 19 (band @ dec_digits pri_chan))
      else let bw = wf_chspec_to_bw_str c
      in if CHSPEC_IS40 c \<and> \<not> CHSPEC_IS6G c
         then Some (take 19 (band @ dec_digits pri_chan @ (if CHSPEC_SB_UPPER c then ''u'' else ''l'')))
         else Some (take 19 (band @ dec_digits pri_chan @ ''/'' @ bw)))"

definition wf_chspec_ntoa_ex :: "chanspec_t \<Rightarrow> string" where
  "wf_chspec_ntoa_ex c = (case wf_chspec_ntoa c of None \<Rightarrow> take 19 (''invalid 0x'' @ hex4 c) | Some s \<Rightarrow> s)"

section \<open>Parsing\<close>

text \<open>
  The first part reads band and primary channel, the second bandwidth and side band, the third creates the
  specification. \<open>sb_ul\<close> is 0 or the lower case letter.
\<close>

definition aton_band :: "string \<Rightarrow> (u16 \<times> u32 \<times> string) option" where
  "aton_band a =
     do {
       (num, a) \<leftarrow> read_uint a;
       if bcm_tolower (cur a) = of_char CHR ''g''
       then do {
         band \<leftarrow> (if num = 2 then Some WL_CHANSPEC_BAND_2G
                 else if num = 5 then Some WL_CHANSPEC_BAND_5G
                 else if num = 6 then Some WL_CHANSPEC_BAND_6G
                 else None);
         (pri_ch, a) \<leftarrow> read_uint (tl a);
         Some (band, pri_ch, a) }
       else Some (if num \<le> 14 then WL_CHANSPEC_BAND_2G else WL_CHANSPEC_BAND_5G, num, a) }"

definition aton_bw :: "u16 \<Rightarrow> string \<Rightarrow> (u16 \<times> u8 \<times> string) option" where
  "aton_bw chspec_band a =
     (let c = bcm_tolower (cur a)
      in if c = 0 then Some (WL_CHANSPEC_BW_20, 0, a)
      else if c = of_char CHR ''u'' \<or> c = of_char CHR ''l'' then Some (WL_CHANSPEC_BW_40, c, tl a)
      else if c \<noteq> of_char CHR ''/'' then None
      else do {
        (bw, a) \<leftarrow> read_uint (tl a);
        chspec_bw \<leftarrow> (if bw = 20 then Some WL_CHANSPEC_BW_20
                     else if bw = 40 then Some WL_CHANSPEC_BW_40
                     else if bw = 80 then Some WL_CHANSPEC_BW_80
                     else if bw = 160 then Some WL_CHANSPEC_BW_160
                     else None);
        let c = bcm_tolower (cur a);
        if chspec_band = WL_CHANSPEC_BAND_2G \<and> bw = 40 \<and> (c = of_char CHR ''u'' \<or> c = of_char CHR ''l'')
        then Some (chspec_bw, c, tl a)
        else if c = of_char CHR ''+'' then None
        else Some (chspec_bw, 0, a) })"

definition wf_chspec_aton :: "string \<Rightarrow> chanspec_t" where
  "wf_chspec_aton a =
     (case do {
        (chspec_band, pri_ch, a) \<leftarrow> aton_band a;
        (chspec_bw, sb_ul, a) \<leftarrow> aton_bw chspec_band a;
        if dropWhile (\<lambda>c. c = CHR '' '') a \<noteq> [] then None
        else Some (if sb_ul \<noteq> 0
                   then wf_create_40MHz_chspec_primary_sb pri_ch
                          (if sb_ul = of_char CHR ''l'' then WL_CHANSPEC_CTL_SB_L else WL_CHANSPEC_CTL_SB_U) chspec_band
                   else if chspec_bw = WL_CHANSPEC_BW_20 then wf_create_20MHz_chspec pri_ch chspec_band
                   else wf_create_chspec_from_primary pri_ch chspec_bw chspec_band)
      } of None \<Rightarrow> 0 | Some chspec \<Rightarrow> if wf_chspec_malformed chspec then 0 else chspec)"

end
