(* ===== verification/Chanspec_Valid.thy ===== *)
theory Chanspec_Valid
  imports Chanspec
begin

text \<open>
  The fields of a specification and how they determine it, the shape of every valid specification, and the channel
  arithmetic without wrap-around.
\<close>

section \<open>Fields of an assembled specification\<close>

text \<open>Number of 20 MHz channels of a bandwidth, and the distance of the centre from the lowest of them.\<close>

definition num_sb :: "u16 \<Rightarrow> nat" where
  "num_sb bw = (if bw = WL_CHANSPEC_BW_40 then 2 else if bw = WL_CHANSPEC_BW_80 then 4
                else if bw = WL_CHANSPEC_BW_160 then 8 else 1)"

definition edge :: "u16 \<Rightarrow> nat" where
  "edge bw = (if bw = WL_CHANSPEC_BW_40 then 2 else if bw = WL_CHANSPEC_BW_80 then 6
              else if bw = WL_CHANSPEC_BW_160 then 14 else 0)"

definition chspec_of :: "u16 \<Rightarrow> u16 \<Rightarrow> nat \<Rightarrow> nat \<Rightarrow> u16" where
  "chspec_of band bw k ch = band OR bw OR push_bit 8 (of_nat k) OR of_nat ch"

abbreviation bands :: "u16 set" where "bands \<equiv> {WL_CHANSPEC_BAND_2G, WL_CHANSPEC_BAND_5G, WL_CHANSPEC_BAND_6G}"
abbreviation wides :: "u16 set" where "wides \<equiv> {WL_CHANSPEC_BW_40, WL_CHANSPEC_BW_80, WL_CHANSPEC_BW_160}"
abbreviation bws :: "u16 set" where "bws \<equiv> insert WL_CHANSPEC_BW_20 wides"

lemma and_disjoint_mask: "x AND m = x \<Longrightarrow> m AND m' = 0 \<Longrightarrow> x AND m' = (0 :: u16)"
proof -
  assume x: "x AND m = x" and m: "m AND m' = 0"
  have "x AND m' = (x AND m) AND m'" by (simp only: x)
  then show ?thesis by (simp add: and.assoc m)
qed

lemma small_mask: "n < 256 \<Longrightarrow> (of_nat n :: u16) AND 0xff = of_nat n"
proof -
  assume n: "n < 256"
  have "(of_nat n :: u16) AND 0xff = take_bit 8 (of_nat n)"
    by (simp add: take_bit_eq_mask mask_eq_exp_minus_1)
  also have "\<dots> = of_nat n"
    using n by (simp add: take_bit_of_nat take_bit_nat_eq_self)
  finally show ?thesis .
qed

lemma sb_mask: "k < 8 \<Longrightarrow> push_bit 8 (of_nat k :: u16) AND 0x700 = push_bit 8 (of_nat k)"
proof -
  assume k: "k < 8"
  then have "k \<in> {0, 1, 2, 3, 4, 5, 6, 7}" by auto
  then show ?thesis by auto
qed

lemma band_mask: "band \<in> bands \<Longrightarrow> band AND 0xc000 = band"
  by auto

lemma bw_mask: "bw \<in> bws \<Longrightarrow> bw AND 0x3800 = bw"
  by auto

lemma chspec_fields:
  assumes "band \<in> bands" "bw \<in> bws" "k < 8" "ch < 256"
  shows "CHSPEC_BAND (chspec_of band bw k ch) = band" "CHSPEC_BW (chspec_of band bw k ch) = bw"
    "CHSPEC_CTL_SB (chspec_of band bw k ch) = push_bit 8 (of_nat k)"
    "CHSPEC_CHANNEL (chspec_of band bw k ch) = of_nat ch"
proof -
  note m = band_mask [OF assms(1)] bw_mask [OF assms(2)] sb_mask [OF assms(3)] small_mask [OF assms(4)]
  note d = m [THEN and_disjoint_mask]
  show "CHSPEC_BAND (chspec_of band bw k ch) = band"
    by (simp add: CHSPEC_BAND_def chspec_of_def bit.conj_disj_distrib2 m(1) d)
  show "CHSPEC_BW (chspec_of band bw k ch) = bw"
    by (simp add: CHSPEC_BW_def chspec_of_def bit.conj_disj_distrib2 m(2) d)
  show "CHSPEC_CTL_SB (chspec_of band bw k ch) = push_bit 8 (of_nat k)"
    by (simp add: CHSPEC_CTL_SB_def chspec_of_def bit.conj_disj_distrib2 m(3) d)
  have "chspec_of band bw k ch AND 0xff = of_nat ch"
    by (simp add: chspec_of_def bit.conj_disj_distrib2 m(4) d)
  then show "CHSPEC_CHANNEL (chspec_of band bw k ch) = of_nat ch"
    using assms(4) by (simp add: CHSPEC_CHANNEL_def unsigned_of_nat take_bit_nat_eq_self)
qed

lemma sb_field_cases:
  obtains k where "k < 8" "CHSPEC_CTL_SB c = push_bit 8 (of_nat k)"
proof -
  have m: "(0x700 :: u16) = push_bit 8 (mask 3)"
    by (simp add: mask_eq_exp_minus_1 push_bit_eq_mult)
  have "CHSPEC_CTL_SB c = push_bit 8 (take_bit 3 (drop_bit 8 c))"
    by (rule bit_word_eqI) (auto simp: CHSPEC_CTL_SB_def m bit_simps)
  moreover have "unat (take_bit 3 (drop_bit 8 c)) < 2 ^ 3"
    by (metis take_bit_nat_less_exp unsigned_take_bit_eq)
  ultimately show thesis
    using that [of "unat (take_bit 3 (drop_bit 8 c))"] by simp
qed

lemma chspec_eta:
  assumes "CHSPEC_CTL_SB c = push_bit 8 (of_nat k)"
  shows "c = chspec_of (CHSPEC_BAND c) (CHSPEC_BW c) k (unat (CHSPEC_CHANNEL c))"
proof -
  have all_ones: "c AND 0xffff = c"
  proof -
    have "(0xffff :: u16) = - 1" by simp
    then show ?thesis by (simp only: and.right_neutral)
  qed
  have ff: "(0xff :: u16) = mask 8"
    by (simp add: mask_eq_exp_minus_1)
  have "c = (c AND 0xc000) OR (c AND 0x3800) OR (c AND 0x0700) OR (c AND 0x00ff)"
    using all_ones by (simp add: bit.conj_disj_distrib [symmetric])
  moreover have "ucast (ucast (c AND 0xff) :: u8) = c AND 0x00ff"
    by (rule bit_word_eqI) (auto simp: ff bit_simps)
  ultimately show ?thesis
    using assms by (simp add: chspec_of_def CHSPEC_BAND_def CHSPEC_BW_def CHSPEC_CTL_SB_def CHSPEC_CHANNEL_def)
qed

section \<open>Valid specifications\<close>

lemma unat_of_nat_u8: "n < 256 \<Longrightarrow> unat (of_nat n :: u8) = n"
  by (simp add: unat_of_nat)

lemma sb_field_less: "k < 8 \<Longrightarrow> n < 8 \<Longrightarrow> push_bit 8 (of_nat k :: u16) > push_bit 8 (of_nat n) \<longleftrightarrow> n < k"
proof -
  assume "k < 8" "n < 8"
  then have "k \<in> {0, 1, 2, 3, 4, 5, 6, 7}" "n \<in> {0, 1, 2, 3, 4, 5, 6, 7}" by auto
  then show ?thesis by auto
qed

definition centre_ok :: "u16 \<Rightarrow> u16 \<Rightarrow> u32 \<Rightarrow> bool" where
  "centre_ok band bw x \<longleftrightarrow>
     (if bw = WL_CHANSPEC_BW_20 then wf_valid_20MHz_chan x band
      else if bw = WL_CHANSPEC_BW_40 then wf_valid_40MHz_center_chan x band
      else if bw = WL_CHANSPEC_BW_80 then wf_valid_80MHz_center_chan x band
      else bw = WL_CHANSPEC_BW_160 \<and> wf_valid_160MHz_center_chan x band)"

lemmas centre_defs = centre_ok_def wf_valid_20MHz_chan_def wf_valid_40MHz_center_chan_def
  wf_valid_80MHz_center_chan_def wf_valid_160MHz_center_chan_def channel_80mhz_to_id_def channel_6g_80mhz_to_id_def
  wf_5g_40m_chans_def wf_5g_80m_chans_def wf_5g_160m_chans_def LOWER_20_SB_def UPPER_20_SB_def

lemma centre_fields: "centre_ok band bw x \<Longrightarrow> band \<in> bands \<and> bw \<in> bws"
  by (auto simp: centre_ok_def wf_valid_20MHz_chan_def wf_valid_40MHz_center_chan_def
      wf_valid_80MHz_center_chan_def wf_valid_160MHz_center_chan_def split: if_splits)

lemma valid20_bounds: "wf_valid_20MHz_chan x band \<Longrightarrow> 1 \<le> x \<and> x \<le> 253"
  by (auto simp: centre_defs intro: order_trans [of x 14] split: if_splits)

lemma valid40_bounds: "wf_valid_40MHz_center_chan x band \<Longrightarrow> 3 \<le> x \<and> x \<le> 227"
  by (auto simp: centre_defs intro: order_trans [of x 11] split: if_splits)

lemma valid80_bounds: "wf_valid_80MHz_center_chan x band \<Longrightarrow> 7 \<le> x \<and> x \<le> 215"
  by (auto simp: centre_defs split: if_splits)

lemma valid160_bounds: "wf_valid_160MHz_center_chan x band \<Longrightarrow> 15 \<le> x \<and> x \<le> 207"
  by (auto simp: centre_defs split: if_splits)

lemma centre_bounds:
  assumes "centre_ok band bw x"
  shows "edge bw < unat x" "unat x + edge bw < 254"
proof -
  have le: "a \<le> x \<and> x \<le> b \<Longrightarrow> unat a \<le> unat x \<and> unat x \<le> unat b" for a b :: u32
    by (simp add: word_le_nat_alt)
  have "bw \<in> bws"
    using centre_fields [OF assms] by blast
  then have "edge bw < unat x \<and> unat x + edge bw < 254"
  proof (elim insertE emptyE)
    assume bw: "bw = WL_CHANSPEC_BW_20"
    then have "wf_valid_20MHz_chan x band" using assms by (simp add: centre_ok_def)
    from le [OF valid20_bounds [OF this]] show ?thesis by (simp add: edge_def bw)
  next
    assume bw: "bw = WL_CHANSPEC_BW_40"
    then have "wf_valid_40MHz_center_chan x band" using assms by (simp add: centre_ok_def)
    from le [OF valid40_bounds [OF this]] show ?thesis by (simp add: edge_def bw)
  next
    assume bw: "bw = WL_CHANSPEC_BW_80"
    then have "wf_valid_80MHz_center_chan x band" using assms by (simp add: centre_ok_def)
    from le [OF valid80_bounds [OF this]] show ?thesis by (simp add: edge_def bw)
  next
    assume bw: "bw = WL_CHANSPEC_BW_160"
    then have "wf_valid_160MHz_center_chan x band" using assms by (simp add: centre_ok_def)
    from le [OF valid160_bounds [OF this]] show ?thesis by (simp add: edge_def bw)
  qed
  then show "edge bw < unat x" "unat x + edge bw < 254" by blast+
qed

lemma num_sb_le: "num_sb bw \<le> 8"
  by (simp add: num_sb_def)

lemma num_sb_pos: "0 < num_sb bw"
  by (simp add: num_sb_def)

lemma edge_num_sb: "2 * edge bw = 4 * (num_sb bw - 1)"
  by (simp add: edge_def num_sb_def)

text \<open>A word is a valid specification exactly when it is assembled from a centre that is valid for the band and the
  bandwidth, and a sub-band index in range.\<close>

lemma malformed_chspec_of:
  assumes "band \<in> bands" "bw \<in> bws" "k < 8" "ch < 256"
  shows "wf_chspec_malformed (chspec_of band bw k ch) \<longleftrightarrow>
    ch = 255 \<or> num_sb bw \<le> k \<or> band = WL_CHANSPEC_BAND_2G \<and> (bw = WL_CHANSPEC_BW_80 \<or> bw = WL_CHANSPEC_BW_160)"
proof -
  have i: "(of_nat ch :: u8) = 255 \<longleftrightarrow> ch = 255"
    using unat_of_nat_u8 [OF assms(4)] by (auto simp: word_unat_eq_iff)
  have sb0: "push_bit 8 (of_nat k :: u16) = 0 \<longleftrightarrow> k = 0"
    using sb_field_less [OF assms(3), of 0] by (auto simp: word_gt_0)
  have sb1: "push_bit 8 (of_nat k :: u16) > 0x100 \<longleftrightarrow> 2 \<le> k" and sb3: "push_bit 8 (of_nat k :: u16) > 0x300 \<longleftrightarrow> 4 \<le> k"
    using sb_field_less [OF assms(3), of 1] sb_field_less [OF assms(3), of 3] by auto
  have f: "wf_chspec_malformed (chspec_of band bw k ch) \<longleftrightarrow>
      (if band = WL_CHANSPEC_BAND_2G then bw \<noteq> WL_CHANSPEC_BW_20 \<and> bw \<noteq> WL_CHANSPEC_BW_40 \<or> ch = 255 else ch = 255)
      \<or> (if bw = WL_CHANSPEC_BW_20 then 0 < k else if bw = WL_CHANSPEC_BW_40 then 2 \<le> k
          else if bw = WL_CHANSPEC_BW_80 then 4 \<le> k else False)"
    using assms(1,2)
    by (simp only: wf_chspec_malformed_def chspec_fields [OF assms] i Let_def sb0 sb1 sb3) auto
  from assms(2) have "(if band = WL_CHANSPEC_BAND_2G then bw \<noteq> WL_CHANSPEC_BW_20 \<and> bw \<noteq> WL_CHANSPEC_BW_40 \<or> ch = 255
        else ch = 255)
      \<or> (if bw = WL_CHANSPEC_BW_20 then 0 < k else if bw = WL_CHANSPEC_BW_40 then 2 \<le> k
          else if bw = WL_CHANSPEC_BW_80 then 4 \<le> k else False) \<longleftrightarrow>
      ch = 255 \<or> num_sb bw \<le> k \<or> band = WL_CHANSPEC_BAND_2G \<and> (bw = WL_CHANSPEC_BW_80 \<or> bw = WL_CHANSPEC_BW_160)"
    (is "?L \<longleftrightarrow> ?R")
  proof (elim insertE emptyE)
    assume "bw = WL_CHANSPEC_BW_20" then show ?thesis by (auto simp: num_sb_def)
  next
    assume "bw = WL_CHANSPEC_BW_40" then show ?thesis by (auto simp: num_sb_def)
  next
    assume "bw = WL_CHANSPEC_BW_80" then show ?thesis by (auto simp: num_sb_def)
  next
    assume "bw = WL_CHANSPEC_BW_160" then show ?thesis using assms(3) by (auto simp: num_sb_def)
  qed
  then show ?thesis unfolding f .
qed

lemma valid_chspec_of:
  assumes "band \<in> bands" "bw \<in> bws" "k < 8" "ch < 256"
  shows "wf_chspec_valid (chspec_of band bw k ch) \<longleftrightarrow> k < num_sb bw \<and> centre_ok band bw (of_nat ch)"
proof -
  have u: "ucast (of_nat ch :: u8) = (of_nat ch :: u32)"
    using assms(4) by (simp add: unsigned_of_nat take_bit_nat_eq_self)
  have c: "centre_ok band bw (of_nat ch) \<Longrightarrow> ch \<noteq> 255"
    using centre_bounds(2) [of band bw "of_nat ch"] assms(4) by (auto simp: unat_of_nat_u32)
  have b: "centre_ok WL_CHANSPEC_BAND_2G bw x \<Longrightarrow> bw \<noteq> WL_CHANSPEC_BW_80 \<and> bw \<noteq> WL_CHANSPEC_BW_160" for x
    by (auto simp: centre_ok_def wf_valid_80MHz_center_chan_def wf_valid_160MHz_center_chan_def)
  have "wf_chspec_valid (chspec_of band bw k ch) \<longleftrightarrow>
      \<not> wf_chspec_malformed (chspec_of band bw k ch) \<and> centre_ok band bw (of_nat ch)"
    by (simp add: wf_chspec_valid_def chspec_fields [OF assms] u Let_def centre_ok_def)
  then show ?thesis
    using b c by (auto simp: malformed_chspec_of [OF assms] not_le)
qed

lemma valid_cases:
  assumes "wf_chspec_valid c"
  obtains band bw k ch where "c = chspec_of band bw k ch" "band \<in> bands" "bw \<in> bws" "k < num_sb bw" "k < 8" "ch < 256"
    "centre_ok band bw (of_nat ch)"
proof -
  obtain k where k: "k < 8" "CHSPEC_CTL_SB c = push_bit 8 (of_nat k)" by (rule sb_field_cases)
  have ch: "unat (CHSPEC_CHANNEL c) < 256" by simp
  have f: "CHSPEC_BAND c \<in> bands" "CHSPEC_BW c \<in> bws"
    using assms by (auto simp: wf_chspec_valid_def wf_chspec_malformed_def Let_def split: if_splits)
  note eta = chspec_eta [OF k(2)]
  from assms have "wf_chspec_valid (chspec_of (CHSPEC_BAND c) (CHSPEC_BW c) k (unat (CHSPEC_CHANNEL c)))"
    by (simp only: eta [symmetric])
  from this [unfolded valid_chspec_of [OF f k(1) ch]]
  show thesis
    using that [OF eta f _ k(1) ch] by blast
qed

lemma INVCHANSPEC_not_valid: "\<not> wf_chspec_valid INVCHANSPEC"
  by code_simp

lemma malformed_0: "wf_chspec_malformed 0"
  by code_simp

section \<open>Channel arithmetic\<close>

lemma edge_word: "unat (center_chan_to_edge bw) = edge bw"
  by (simp add: center_chan_to_edge_def edge_def)

lemma low_edge: "edge bw \<le> unat x \<Longrightarrow> unat (channel_low_edge x bw) = unat x - edge bw"
  by (simp add: channel_low_edge_def unat_sub word_le_nat_alt edge_word)

lemma sb_index:
  assumes "edge bw \<le> unat x" "bw \<in> bws" "k < num_sb bw" "unat p = unat x - edge bw + 4 * k"
  shows "channel_to_sb x p bw = int k"
proof -
  let ?l = "channel_low_edge x bw"
  have l: "?l \<le> p"
    using assms by (simp add: word_le_nat_alt low_edge)
  have d: "unat (p - ?l) = 4 * k"
    using l assms by (simp add: unat_sub low_edge)
  have m: "(p - ?l) mod 4 = 0"
    by (simp add: word_unat_eq_iff unat_mod d)
  have q: "unat ((p - ?l) div 4) = k"
    by (simp add: unat_div d)
  then have q': "uint ((p - ?l) div 4) = int k"
    by (simp add: uint_nat)
  have "\<not> ((bw = WL_CHANSPEC_BW_20 \<and> 1 \<le> (p - ?l) div 4) \<or> (bw = WL_CHANSPEC_BW_40 \<and> 2 \<le> (p - ?l) div 4)
      \<or> (bw = WL_CHANSPEC_BW_80 \<and> 4 \<le> (p - ?l) div 4) \<or> (bw = WL_CHANSPEC_BW_160 \<and> 8 \<le> (p - ?l) div 4))"
    using assms(3) by (auto simp: word_le_nat_alt q num_sb_def)
  then show ?thesis
    using l m by (simp add: channel_to_sb_def Let_def q' not_less [symmetric])
qed

lemma sb_range:
  assumes "bw \<in> bws" "0 \<le> channel_to_sb x p bw"
  obtains k where "k < num_sb bw" "channel_to_sb x p bw = int k" "channel_low_edge x bw \<le> p"
    "unat (p - channel_low_edge x bw) = 4 * k"
proof -
  let ?l = "channel_low_edge x bw"
  let ?q = "(p - ?l) div 4"
  have l: "?l \<le> p" and m: "(p - ?l) mod 4 = 0" and s: "channel_to_sb x p bw = uint ?q"
    using assms(2) by (auto simp: channel_to_sb_def Let_def not_less split: if_splits)
  have r: "unat ?q < num_sb bw"
    using assms l m by (auto simp: channel_to_sb_def Let_def num_sb_def word_le_nat_alt not_le split: if_splits)
  have "unat (p - ?l) mod 4 = 0"
    using m by (simp add: word_unat_eq_iff unat_mod)
  then have "unat (p - ?l) = 4 * unat ?q"
    using div_mult_mod_eq [of "unat (p - ?l)" 4] by (simp add: unat_div)
  with l show thesis
    by (intro that [OF r]) (simp_all only: s uint_nat)
qed

lemma sb_index_conv:
  assumes "edge bw \<le> unat x" "bw \<in> bws" "0 \<le> channel_to_sb x p bw"
  obtains k where "k < num_sb bw" "unat p = unat x - edge bw + 4 * k" "channel_to_sb x p bw = int k"
proof -
  from assms(2,3) obtain k where k: "k < num_sb bw" "channel_to_sb x p bw = int k" "channel_low_edge x bw \<le> p"
    "unat (p - channel_low_edge x bw) = 4 * k" by (rule sb_range)
  have "unat p = unat x - edge bw + 4 * k"
    using unat_sub [OF k(3)] k(3) [unfolded word_le_nat_alt] k(4) low_edge [OF assms(1)] by linarith
  then show thesis
    by (rule that [OF k(1) _ k(2)])
qed

end
