(* ===== verification/Chanspec_Create.thy ===== *)
theory Chanspec_Create
  imports Chanspec_Valid
begin

text \<open>What the functions that create specifications return, and that the primary channel determines the rest.\<close>

section \<open>Assembling\<close>

lemma ucast_sb: "k < 8 \<Longrightarrow> ucast (push_bit 8 (of_nat k :: u32)) = (push_bit 8 (of_nat k) :: u16)"
proof -
  assume "k < 8"
  then have "k \<in> {0, 1, 2, 3, 4, 5, 6, 7}" by auto
  then show ?thesis by auto
qed

lemma ucast_field: "ucast (ucast (w :: u16) :: u32) = w"
  by (rule bit_word_eqI) (simp add: bit_simps)

lemma assemble:
  assumes "k < 8"
  shows "ucast ((x :: u32) OR ucast band OR ucast bw OR push_bit 8 (word_of_int (int k))) = chspec_of band bw k (unat x)"
    "ucast ((x :: u32) OR ucast bw OR ucast band OR push_bit 8 (word_of_int (int k))) = chspec_of band bw k (unat x)"
  using ucast_sb [OF assms] by (simp_all add: unsigned_or_eq ucast_field chspec_of_def ac_simps)

lemma primary20_of:
  assumes "band \<in> bands" "bw \<in> bws" "k < num_sb bw" "ch < 256" "edge bw \<le> ch"
  shows "wf_chspec_primary20_chan (chspec_of band bw k ch) = of_nat (ch - edge bw + 4 * k)"
proof -
  have k8: "k < 8" using assms(3) num_sb_le [of bw] by simp
  note f = chspec_fields [OF assms(1,2) k8 assms(4)]
  have d: "drop_bit 8 (push_bit 8 (of_nat k :: u16)) = of_nat k"
  proof -
    from k8 have "k \<in> {0, 1, 2, 3, 4, 5, 6, 7}" by auto
    then show ?thesis by auto
  qed
  have uk: "ucast (of_nat k :: u16) = (of_nat k :: u32)"
    using k8 by (simp add: unsigned_of_nat take_bit_nat_eq_self)
  have uc: "ucast (of_nat ch :: u8) = (of_nat ch :: u32)"
    using assms(4) by (simp add: unsigned_of_nat take_bit_nat_eq_self)
  have e: "center_chan_to_edge bw = of_nat (edge bw)"
    by (simp add: center_chan_to_edge_def edge_def)
  have w: "(of_nat ch - of_nat (edge bw) + of_nat k * 4 :: u32) = of_nat (ch - edge bw + 4 * k)"
    using assms(5) by (simp add: of_nat_diff)
  show ?thesis
  proof (cases "bw = WL_CHANSPEC_BW_20")
    case True
    then show ?thesis using assms(3) f by (simp add: wf_chspec_primary20_chan_def edge_def num_sb_def)
  next
    case False
    then have "wf_chspec_primary20_chan (chspec_of band bw k ch) = ucast (of_nat (ch - edge bw + 4 * k) :: u32)"
      by (simp only: wf_chspec_primary20_chan_def f d uk uc Let_def channel_to_primary20_chan_def channel_low_edge_def e w
          if_False)
    moreover have "ch - edge bw + 4 * k < 4294967296"
      using assms(4) k8 by simp
    ultimately show ?thesis
      by (simp add: unsigned_of_nat take_bit_nat_eq_self del: of_nat_add of_nat_mult)
  qed
qed

lemma create_shape:
  assumes "band \<in> bands" "unat x < 256"
  obtains "wf_create_chspec p x bw band = INVCHANSPEC"
  | k where "wf_create_chspec p x bw band = chspec_of band bw k (unat x)" "bw \<in> bws" "k < num_sb bw"
      "centre_ok band bw x" "unat p = unat x - edge bw + 4 * k"
proof (cases "wf_create_chspec p x bw band = INVCHANSPEC")
  case True
  then show thesis by (rule that(1))
next
  case False
  let ?sb = "if bw = WL_CHANSPEC_BW_20 \<and> p = x then 0 else if bw \<in> wides then channel_to_sb x p bw else - 1"
  let ?c = "ucast (x OR ucast band OR ucast bw OR push_bit 8 (word_of_int ?sb)) :: u16"
  have def: "wf_create_chspec p x bw band = (if 0 \<le> ?sb then if \<not> wf_chspec_valid ?c then INVCHANSPEC else ?c else INVCHANSPEC)"
    unfolding wf_create_chspec_def Let_def by simp
  have sb: "0 \<le> ?sb" and v: "wf_chspec_valid ?c" and c: "wf_create_chspec p x bw band = ?c"
    using False unfolding def by (auto split: if_splits)
  have bw: "bw \<in> bws" using sb by (auto split: if_splits)
  have "\<exists>k < num_sb bw. ?sb = int k"
  proof (cases "bw = WL_CHANSPEC_BW_20")
    case True
    then show ?thesis using sb by (auto simp: num_sb_def split: if_splits)
  next
    case F: False
    then have "?sb = channel_to_sb x p bw" using bw by simp
    with sb have "0 \<le> channel_to_sb x p bw" by (simp only:)
    then obtain k where "k < num_sb bw" "channel_to_sb x p bw = int k" by (rule sb_range [OF bw])
    then show ?thesis using \<open>?sb = _\<close> by (simp only:) blast
  qed
  then obtain k where k: "k < num_sb bw" "?sb = int k" by blast
  have k8: "k < 8" using k(1) num_sb_le [of bw] by simp
  have shape: "wf_create_chspec p x bw band = chspec_of band bw k (unat x)"
    unfolding c k(2) by (rule assemble(1) [OF k8])
  have "wf_chspec_valid (chspec_of band bw k (unat x))"
    using v unfolding c [symmetric] shape .
  then have ok: "centre_ok band bw x"
    using valid_chspec_of [OF assms(1) bw k8 assms(2)] by simp
  have "unat p = unat x - edge bw + 4 * k"
  proof (cases "bw = WL_CHANSPEC_BW_20")
    case True
    then show ?thesis using sb k by (auto simp: edge_def num_sb_def split: if_splits)
  next
    case F: False
    then have e: "?sb = channel_to_sb x p bw" using bw by simp
    with sb have "0 \<le> channel_to_sb x p bw" by (simp only:)
    then obtain j where j: "unat p = unat x - edge bw + 4 * j" "channel_to_sb x p bw = int j"
      by (rule sb_index_conv [OF less_imp_le [OF centre_bounds(1) [OF ok]] bw])
    have "int j = int k" using trans [OF e [symmetric] k(2)] unfolding j(2) .
    then have "j = k" by simp
    then show ?thesis using j(1) by simp
  qed
  then show thesis
    by (rule that(2) [OF shape bw k(1) ok])
qed

lemma create_of:
  assumes "band \<in> bands" "unat x < 256" "bw \<in> bws" "k < num_sb bw" "centre_ok band bw x" "unat p = unat x - edge bw + 4 * k"
  shows "wf_create_chspec p x bw band = chspec_of band bw k (unat x)"
proof -
  have k8: "k < 8" using assms(4) num_sb_le [of bw] by simp
  have e: "edge bw \<le> unat x" using centre_bounds(1) [OF assms(5)] by simp
  have v: "wf_chspec_valid (chspec_of band bw k (unat x))"
    using valid_chspec_of [OF assms(1,3) k8 assms(2)] assms(4,5) by simp
  have sb: "(if bw = WL_CHANSPEC_BW_20 \<and> p = x then 0
      else if bw = WL_CHANSPEC_BW_40 \<or> bw = WL_CHANSPEC_BW_80 \<or> bw = WL_CHANSPEC_BW_160 then channel_to_sb x p bw
      else - 1) = int k"
    using assms(3,4,6) sb_index [OF e assms(3,4,6)] by (auto simp: edge_def num_sb_def word_unat_eq_iff)
  show ?thesis
    unfolding wf_create_chspec_def sb Let_def using v by (simp only: assemble(1) [OF k8]) simp
qed

lemma wide_shape:
  assumes "bw \<in> wides" "0 \<le> channel_to_sb x p bw" "centre_ok band bw x"
  obtains k where "k < num_sb bw" "unat p = unat x - edge bw + 4 * k"
    "ucast (x OR ucast bw OR ucast band OR push_bit 8 (word_of_int (channel_to_sb x p bw))) = chspec_of band bw k (unat x)"
proof -
  have bw: "bw \<in> bws" using assms(1) by blast
  obtain k where k: "k < num_sb bw" "unat p = unat x - edge bw + 4 * k" "channel_to_sb x p bw = int k"
    by (rule sb_index_conv [OF less_imp_le [OF centre_bounds(1) [OF assms(3)]] bw assms(2)])
  have "k < 8" using k(1) num_sb_le [of bw] by simp
  from that [OF k(1,2)] assemble(2) [OF this] show thesis unfolding k(3) by blast
qed

section \<open>Results\<close>

text \<open>What the caller of a creating function may rely on: an error value, or a valid specification with the fields and
  the primary channel that were asked for.\<close>

definition well_created :: "u32 \<Rightarrow> u32 \<Rightarrow> u16 \<Rightarrow> u16 \<Rightarrow> u16 \<Rightarrow> bool" where
  "well_created p x bw band r \<longleftrightarrow>
     r = INVCHANSPEC \<or>
     wf_chspec_valid r \<and> CHSPEC_BAND r = band \<and> CHSPEC_BW r = bw \<and> ucast (CHSPEC_CHANNEL r) = x
       \<and> ucast (wf_chspec_primary20_chan r) = p"

lemma well_created_of:
  assumes "centre_ok band bw x" "k < num_sb bw" "unat p = unat x - edge bw + 4 * k"
  shows "well_created p x bw band (chspec_of band bw k (unat x))"
proof -
  have f: "band \<in> bands" "bw \<in> bws" using centre_fields [OF assms(1)] by blast+
  have k8: "k < 8" using assms(2) num_sb_le [of bw] by simp
  have x: "edge bw \<le> unat x" "unat x < 256" "unat x + edge bw < 254" using centre_bounds [OF assms(1)] by simp_all
  have p: "unat p < 256" using assms(2,3) x edge_num_sb [of bw] by simp
  have "ucast (of_nat (unat p) :: u8) = p" "ucast (of_nat (unat x) :: u8) = x"
    using p x(2) by (simp_all add: word_unat_eq_iff unsigned_ucast_eq unsigned_take_bit_eq take_bit_nat_eq_self)
  then show ?thesis
    using chspec_fields [OF f k8 x(2)] primary20_of [OF f assms(2) x(2,1)] valid_chspec_of [OF f k8 x(2)] assms
    by (simp add: well_created_def)
qed

lemma well_created_INV [simp]: "well_created p x bw band INVCHANSPEC"
  by (simp add: well_created_def)

lemma wide_created:
  assumes "bw \<in> wides" "r = (if channel_to_sb x p bw < 0 \<or> \<not> centre_ok band bw x then INVCHANSPEC
    else ucast (x OR ucast bw OR ucast band OR push_bit 8 (word_of_int (channel_to_sb x p bw))))"
  shows "well_created p x bw band r"
proof (cases "channel_to_sb x p bw < 0 \<or> \<not> centre_ok band bw x")
  case True
  then show ?thesis by (simp add: assms(2))
next
  case False
  then have sb: "0 \<le> channel_to_sb x p bw" and ok: "centre_ok band bw x" by simp_all
  obtain k where k: "k < num_sb bw" "unat p = unat x - edge bw + 4 * k" and
    eq: "ucast (x OR ucast bw OR ucast band OR push_bit 8 (word_of_int (channel_to_sb x p bw))) = chspec_of band bw k (unat x)"
    by (rule wide_shape [OF assms(1) sb ok])
  have "r = chspec_of band bw k (unat x)" unfolding assms(2) eq using False by simp
  then show ?thesis using well_created_of [OF ok k] by simp
qed

lemma create40_created: "well_created p x WL_CHANSPEC_BW_40 band (wf_create_40MHz_chspec p x band)"
  by (rule wide_created) (simp_all add: wf_create_40MHz_chspec_def centre_ok_def Let_def)

lemma create80_created: "well_created p x WL_CHANSPEC_BW_80 band (wf_create_80MHz_chspec p x band)"
  by (rule wide_created) (simp_all add: wf_create_80MHz_chspec_def centre_ok_def Let_def)

lemma create160_created: "well_created p x WL_CHANSPEC_BW_160 band (wf_create_160MHz_chspec p x band)"
  by (rule wide_created) (simp_all add: wf_create_160MHz_chspec_def centre_ok_def Let_def)

lemma create_created:
  assumes "band \<in> bands" "unat x < 256"
  shows "well_created p x bw band (wf_create_chspec p x bw band)"
  by (rule create_shape [OF assms, of p bw]) (simp_all add: well_created_of)

lemma create20_eq:
  assumes "band \<in> bands" "unat p < 256"
  shows "wf_create_20MHz_chspec p band = wf_create_chspec p p WL_CHANSPEC_BW_20 band"
proof -
  have "p \<le> 0xff" using assms(2) by (simp add: word_le_nat_alt)
  moreover have "(ucast band OR 0x1000 OR 0 OR p :: u32) = p OR ucast band OR ucast WL_CHANSPEC_BW_20 OR push_bit 8 (word_of_int 0)"
    using or.commute [of p "ucast band OR 0x1000"] by (simp add: or.assoc)
  ultimately show ?thesis
    using assms(1) by (simp add: wf_create_20MHz_chspec_def wf_create_chspec_def Let_def)
qed

lemma create20_created: "well_created p p WL_CHANSPEC_BW_20 band (wf_create_20MHz_chspec p band)"
proof (cases "band \<in> bands \<and> unat p < 256")
  case True
  then show ?thesis using create_created [of band p p WL_CHANSPEC_BW_20] by (simp only: create20_eq)
next
  case False
  then show ?thesis
    by (auto simp: wf_create_20MHz_chspec_def word_le_nat_alt)
qed

section \<open>The primary channel determines the specification\<close>

lemma chspec_of_not_INV:
  assumes "centre_ok band bw x" "k < num_sb bw"
  shows "chspec_of band bw k (unat x) \<noteq> INVCHANSPEC"
proof -
  have f: "band \<in> bands" "bw \<in> bws" using centre_fields [OF assms(1)] by blast+
  have k8: "k < 8" using assms(2) num_sb_le [of bw] by simp
  have "unat x < 256" using centre_bounds(2) [OF assms(1)] by simp
  from valid_chspec_of [OF f k8 this] assms show ?thesis using INVCHANSPEC_not_valid by auto
qed

lemma unat_ucast_u8_u32 [simp]: "unat (ucast (z :: u8) :: u32) = unat z"
proof -
  have "unat z < 2 ^ 32" by (rule less_trans [OF unat_u8_less]) simp
  then show ?thesis by (simp add: unsigned_ucast_eq take_bit_nat_eq_self)
qed

lemma from_table_of:
  assumes "sorted_wrt (\<lambda>y x. unat y + 2 * edge bw < unat x) chs" "x \<in> set chs" "centre_ok band bw (ucast x)"
    "k < num_sb bw" "unat p = unat x - edge bw + 4 * k"
  shows "from_table p bw band chs r = chspec_of band bw k (unat x)"
  using assms(1,2)
proof (induction chs arbitrary: r)
  case Nil
  then show ?case by simp
next
  case (Cons y chs)
  have f: "band \<in> bands" "bw \<in> bws" using centre_fields [OF assms(3)] by blast+
  have ux: "unat (ucast z :: u32) = unat z" "unat (ucast z :: u32) < 256" for z :: u8
    by simp_all
  show ?case
  proof (cases "y = x")
    case True
    have "wf_create_chspec p (ucast x) bw band = chspec_of band bw k (unat x)"
      using create_of [OF f(1) ux(2) f(2) assms(4,3)] assms(5) by (simp only: ux)
    moreover have "chspec_of band bw k (unat x) \<noteq> INVCHANSPEC"
      using chspec_of_not_INV [OF assms(3,4)] by simp
    ultimately show ?thesis using True by simp
  next
    case False
    then have gap: "unat y + 2 * edge bw < unat x" and x: "x \<in> set chs" using Cons.prems by auto
    have "wf_create_chspec p (ucast y) bw band = INVCHANSPEC"
    proof (rule create_shape [OF f(1) ux(2), of p y bw])
      fix j assume j: "j < num_sb bw" "unat p = unat (ucast y :: u32) - edge bw + 4 * j" and ok: "centre_ok band bw (ucast y)"
      have "4 * j \<le> 2 * edge bw" using j(1) edge_num_sb [of bw] by simp
      moreover have "edge bw < unat y" using centre_bounds(1) [OF ok] by simp
      ultimately have False using gap j(2) assms(5) by (simp only: ux)
      then show ?thesis ..
    qed
    then show ?thesis using Cons.IH [OF _ x] Cons.prems(1) by simp
  qed
qed

lemma table_id_mem: "0 \<le> table_id chs x i \<Longrightarrow> \<exists>y \<in> set chs. x = ucast y"
  by (induction chs arbitrary: i) (auto split: if_splits)

lemma sorted_5g:
  "sorted_wrt (\<lambda>y x. unat y + 2 * edge WL_CHANSPEC_BW_40 < unat x) wf_5g_40m_chans"
  "sorted_wrt (\<lambda>y x. unat y + 2 * edge WL_CHANSPEC_BW_80 < unat x) wf_5g_80m_chans"
  "sorted_wrt (\<lambda>y x. unat y + 2 * edge WL_CHANSPEC_BW_160 < unat x) wf_5g_160m_chans"
  by (simp_all add: wf_5g_40m_chans_def wf_5g_80m_chans_def wf_5g_160m_chans_def edge_def)

lemma centre_5g:
  "wf_valid_40MHz_center_chan x WL_CHANSPEC_BAND_5G \<Longrightarrow> \<exists>y \<in> set wf_5g_40m_chans. x = ucast y"
  "wf_valid_80MHz_center_chan x WL_CHANSPEC_BAND_5G \<Longrightarrow> \<exists>y \<in> set wf_5g_80m_chans. x = ucast y"
  "wf_valid_160MHz_center_chan x WL_CHANSPEC_BAND_5G \<Longrightarrow> \<exists>y \<in> set wf_5g_160m_chans. x = ucast y"
  using table_id_mem by (auto simp: wf_valid_40MHz_center_chan_def wf_valid_80MHz_center_chan_def
      wf_valid_160MHz_center_chan_def channel_80mhz_to_id_def list_ex_iff)

lemma from_primary_5g:
  assumes "bw \<in> wides" "centre_ok WL_CHANSPEC_BAND_5G bw x" "k < num_sb bw" "unat p = unat x - edge bw + 4 * k"
  shows "wf_create_chspec_from_primary p bw WL_CHANSPEC_BAND_5G = chspec_of WL_CHANSPEC_BAND_5G bw k (unat x)"
proof -
  have *: "from_table p bw WL_CHANSPEC_BAND_5G chs INVCHANSPEC = chspec_of WL_CHANSPEC_BAND_5G bw k (unat x)"
    if "sorted_wrt (\<lambda>y x. unat y + 2 * edge bw < unat x) chs" "\<exists>y \<in> set chs. x = ucast y" for chs
    using that from_table_of [of bw chs _ WL_CHANSPEC_BAND_5G k p] assms(2-4) by auto
  from assms(1) show ?thesis
  proof (elim insertE emptyE)
    assume bw: "bw = WL_CHANSPEC_BW_40"
    then show ?thesis using * [of wf_5g_40m_chans] sorted_5g(1) centre_5g(1) [of x] assms(2)
      by (simp add: wf_create_chspec_from_primary_def centre_ok_def)
  next
    assume bw: "bw = WL_CHANSPEC_BW_80"
    then show ?thesis using * [of wf_5g_80m_chans] sorted_5g(2) centre_5g(2) [of x] assms(2)
      by (simp add: wf_create_chspec_from_primary_def centre_ok_def)
  next
    assume bw: "bw = WL_CHANSPEC_BW_160"
    then show ?thesis using * [of wf_5g_160m_chans] sorted_5g(3) centre_5g(3) [of x] assms(2)
      by (simp add: wf_create_chspec_from_primary_def centre_ok_def)
  qed
qed

lemma of_nat_unat_u32: "(w :: u32) = of_nat (unat w)"
  by simp

lemma edge_of_nat: "center_chan_to_edge bw = of_nat (edge bw)"
  by (simp add: center_chan_to_edge_def edge_def)

lemma and_not_block:
  "unat ((x :: u32) AND NOT (2 ^ n - 1)) = unat x div 2 ^ n * 2 ^ n"
proof -
  have "x AND NOT (mask n) = push_bit n (drop_bit n x)"
    by (rule bit_word_eqI) (auto simp: bit_simps)
  moreover have "unat (push_bit n (drop_bit n x)) = unat x div 2 ^ n * 2 ^ n"
  proof -
    have "unat x div 2 ^ n * 2 ^ n \<le> unat x" by simp
    also have "unat x < 2 ^ 32" using unat_u32_less [of x] by simp
    finally have "unat x div 2 ^ n * 2 ^ n < 2 ^ 32" .
    then have s: "take_bit 32 (unat x div 2 ^ n * 2 ^ n) = unat x div 2 ^ n * 2 ^ n"
      by (rule take_bit_nat_eq_self)
    have d: "unat (drop_bit n x) = unat x div 2 ^ n"
      by (rule trans [OF unat_drop_bit_eq drop_bit_eq_div])
    have "unat (push_bit n (drop_bit n x)) = take_bit 32 (push_bit n (unat (drop_bit n x)))"
      by (subst unsigned_push_bit_eq) simp
    then show ?thesis unfolding d push_bit_eq_mult [of n "_ :: nat"] s .
  qed
  ultimately show ?thesis by (simp add: mask_eq_exp_minus_1)
qed

lemma mod_block:
  assumes "(x - a) mod b = (0 :: u32)" "a \<le> x"
  shows "\<exists>m. unat x = unat a + unat b * m"
proof -
  have "unat (x - a) mod unat b = 0" using assms(1) by (metis unat_0 unat_mod)
  moreover have "unat (x - a) = unat x - unat a" by (rule unat_sub [OF assms(2)])
  ultimately obtain m where "unat x - unat a = unat b * m" by auto
  then have "unat x = unat a + unat b * m" using assms(2) by (simp add: word_le_nat_alt)
  then show ?thesis ..
qed

lemma centre_6g:
  assumes "bw \<in> wides" "centre_ok WL_CHANSPEC_BAND_6G bw x"
  obtains m where "unat x = edge bw + 1 + 4 * num_sb bw * m"
proof -
  have "\<exists>a b. a \<le> x \<and> (x - a) mod b = 0 \<and> unat a = edge bw + 1 \<and> unat b = 4 * num_sb bw"
    using assms(1)
  proof (elim insertE emptyE)
    assume "bw = WL_CHANSPEC_BW_40"
    then show ?thesis using assms(2)
      by (intro exI [of _ 3] exI [of _ 8]) (simp add: centre_ok_def wf_valid_40MHz_center_chan_def edge_def num_sb_def)
  next
    assume "bw = WL_CHANSPEC_BW_80"
    then show ?thesis using assms(2)
      by (intro exI [of _ 7] exI [of _ 16])
        (simp add: centre_ok_def wf_valid_80MHz_center_chan_def channel_6g_80mhz_to_id_def edge_def num_sb_def split: if_splits)
  next
    assume "bw = WL_CHANSPEC_BW_160"
    then show ?thesis using assms(2)
      by (intro exI [of _ 15] exI [of _ 32]) (simp add: centre_ok_def wf_valid_160MHz_center_chan_def edge_def num_sb_def)
  qed
  then obtain a b where "a \<le> x" "(x - a) mod b = 0" and ab: "unat a = edge bw + 1" "unat b = 4 * num_sb bw"
    by (elim exE conjE) (rule that; assumption)
  from mod_block [OF this(2,1)] show thesis using that unfolding ab by blast
qed

lemma from_primary_6g:
  assumes "bw \<in> wides" "centre_ok WL_CHANSPEC_BAND_6G bw x" "k < num_sb bw" "unat p = unat x - edge bw + 4 * k"
  shows "wf_create_chspec_from_primary p bw WL_CHANSPEC_BAND_6G = chspec_of WL_CHANSPEC_BAND_6G bw k (unat x)"
proof -
  obtain m where m: "unat x = edge bw + 1 + 4 * num_sb bw * m"
    by (rule centre_6g [OF assms(1,2)])
  obtain n where n: "4 * num_sb bw = 2 ^ n" "n \<in> {3, 4, 5}"
    using assms(1) by (auto simp: num_sb_def intro: that [of 3] that [of 4] that [of 5])
  have p: "unat p = 1 + 4 * num_sb bw * m + 4 * k" using assms(4) m by simp
  have "unat (p - 1) = unat p - 1"
    using p by (intro unat_minus_one) auto
  then have "unat (p - 1) div 2 ^ n * 2 ^ n = 2 ^ n * m"
    using p assms(3) n(1) by (simp add: div_mult_self3 less_mult_imp_div_less)
  then have base: "unat ((p - 1) AND NOT (2 ^ n - 1)) = 2 ^ n * m"
    by (simp only: and_not_block)
  have lt: "unat x < 256" using centre_bounds(2) [OF assms(2)] by simp
  have "1 + ((p - 1) AND NOT (2 ^ n - 1)) + center_chan_to_edge bw = of_nat (1 + 2 ^ n * m + edge bw)"
  proof -
    have "(p - 1) AND NOT (2 ^ n - 1) = of_nat (2 ^ n * m)"
      unfolding base [symmetric] by (rule of_nat_unat_u32)
    then show ?thesis by (simp only: edge_of_nat of_nat_add of_nat_1)
  qed
  also have "1 + 2 ^ n * m + edge bw = unat x" using m n(1) by simp
  finally have c: "1 + ((p - 1) AND NOT (2 ^ n - 1)) + center_chan_to_edge bw = x" by simp
  have "wf_create_chspec_from_primary p bw WL_CHANSPEC_BAND_6G = wf_create_chspec p x bw WL_CHANSPEC_BAND_6G"
    using assms(1) n c by (auto simp: wf_create_chspec_from_primary_def Let_def num_sb_def)
  also have "\<dots> = chspec_of WL_CHANSPEC_BAND_6G bw k (unat x)"
    using create_of [OF _ lt _ assms(3,2,4)] assms(1) by simp
  finally show ?thesis .
qed

text \<open>Every valid specification is what is created from its primary channel, band and width; a 40 MHz channel of the
  2.4 GHz band needs the side as well, because those channels overlap.\<close>

lemma valid_primary:
  assumes "wf_chspec_valid c"
  obtains k x where "c = chspec_of (CHSPEC_BAND c) (CHSPEC_BW c) k (unat x)" "CHSPEC_BAND c \<in> bands" "CHSPEC_BW c \<in> bws"
    "k < num_sb (CHSPEC_BW c)" "CHSPEC_CTL_SB c = push_bit 8 (of_nat k)" "centre_ok (CHSPEC_BAND c) (CHSPEC_BW c) (x :: u32)"
    "unat x < 256" "x = ucast (CHSPEC_CHANNEL c)"
    "unat (wf_chspec_primary20_chan c) = unat x - edge (CHSPEC_BW c) + 4 * k"
proof -
  obtain band bw k ch where c: "c = chspec_of band bw k ch" and f: "band \<in> bands" "bw \<in> bws" "k < num_sb bw" "k < 8" "ch < 256"
    and ok: "centre_ok band bw (of_nat ch)"
    using assms by (rule valid_cases)
  note s = chspec_fields [OF f(1,2,4,5)]
  have x: "unat (of_nat ch :: u32) = ch" using f(5) by (simp add: unat_of_nat_u32)
  have e: "edge bw \<le> ch" "ch + edge bw < 254" using centre_bounds [OF ok] by (simp_all add: x)
  have "ch - edge bw + 4 * k < 256" using f(3) e edge_num_sb [of bw] by simp
  then have p: "unat (wf_chspec_primary20_chan c) = ch - edge bw + 4 * k"
    unfolding c primary20_of [OF f(1-3,5) e(1)] by (rule unat_of_nat_u8)
  have u: "of_nat ch = (ucast (CHSPEC_CHANNEL c) :: u32)"
    unfolding c s using f(5) by (simp add: word_unat_eq_iff x unat_of_nat_u8)
  show thesis
    by (rule that [of k "of_nat ch"]) (use c f ok s p u x in simp_all)
qed

lemma from_primary_of:
  assumes "wf_chspec_valid c" "CHSPEC_BW c = WL_CHANSPEC_BW_20 \<or> CHSPEC_BAND c \<noteq> WL_CHANSPEC_BAND_2G"
  shows "wf_create_chspec_from_primary (ucast (wf_chspec_primary20_chan c)) (CHSPEC_BW c) (CHSPEC_BAND c) = c"
proof -
  obtain k x where c: "c = chspec_of (CHSPEC_BAND c) (CHSPEC_BW c) k (unat x)"
    and f: "CHSPEC_BAND c \<in> bands" "CHSPEC_BW c \<in> bws" "k < num_sb (CHSPEC_BW c)"
    and ok: "centre_ok (CHSPEC_BAND c) (CHSPEC_BW c) x" and x: "unat x < 256"
    and p: "unat (wf_chspec_primary20_chan c) = unat x - edge (CHSPEC_BW c) + 4 * k"
    using assms(1) by (rule valid_primary)
  let ?p = "ucast (wf_chspec_primary20_chan c) :: u32"
  have p': "unat ?p = unat x - edge (CHSPEC_BW c) + 4 * k" using p by simp
  show ?thesis
  proof (cases "CHSPEC_BW c = WL_CHANSPEC_BW_20")
    case True
    then have "unat ?p = unat x" using p' f(3) by (simp add: edge_def num_sb_def)
    then have "?p = x" by (simp only: word_unat_eq_iff)
    have "wf_create_chspec_from_primary ?p (CHSPEC_BW c) (CHSPEC_BAND c) = wf_create_chspec ?p x (CHSPEC_BW c) (CHSPEC_BAND c)"
      unfolding \<open>?p = x\<close> using True create20_eq [OF f(1) x] by (simp add: wf_create_chspec_from_primary_def)
    also have "\<dots> = c" using create_of [OF f(1) x f(2,3) ok p'] c by simp
    finally show ?thesis .
  next
    case False
    then have w: "CHSPEC_BW c \<in> wides" using f(2) by simp
    have "CHSPEC_BAND c = WL_CHANSPEC_BAND_5G \<or> CHSPEC_BAND c = WL_CHANSPEC_BAND_6G" using assms(2) f(1) False by simp
    then show ?thesis
      using from_primary_5g [OF w _ f(3) p'] from_primary_6g [OF w _ f(3) p'] ok c by metis
  qed
qed

lemma primary_sb_of:
  assumes "wf_chspec_valid c" "CHSPEC_BW c = WL_CHANSPEC_BW_40"
  shows "wf_create_40MHz_chspec_primary_sb (ucast (wf_chspec_primary20_chan c)) (CHSPEC_CTL_SB c) (CHSPEC_BAND c) = c"
proof -
  obtain k x where c: "c = chspec_of (CHSPEC_BAND c) (CHSPEC_BW c) k (unat x)" and k: "k < num_sb (CHSPEC_BW c)"
    and sb: "CHSPEC_CTL_SB c = push_bit 8 (of_nat k)" and ok: "centre_ok (CHSPEC_BAND c) (CHSPEC_BW c) x"
    and x: "unat x < 256" and p: "unat (wf_chspec_primary20_chan c) = unat x - edge (CHSPEC_BW c) + 4 * k"
    using assms(1) by (rule valid_primary)
  let ?p = "ucast (wf_chspec_primary20_chan c) :: u32"
  have p': "unat ?p = unat x - 2 + 4 * k" using p by (simp add: assms(2) edge_def)
  have e: "2 < unat x" using centre_bounds(1) [OF ok] by (simp add: assms(2) edge_def)
  have "k = 0 \<or> k = 1" using k by (auto simp: assms(2) num_sb_def)
  then have "wf_create_40MHz_chspec_primary_sb ?p (CHSPEC_CTL_SB c) (CHSPEC_BAND c) = wf_create_40MHz_chspec ?p x (CHSPEC_BAND c)"
  proof
    assume k: "k = 0"
    then have "unat (?p + 2) = unat x" using p' e x by (simp add: unat_word_ariths)
    then have "?p + 2 = x" by (simp only: word_unat_eq_iff)
    then show ?thesis by (simp add: wf_create_40MHz_chspec_primary_sb_def sb k)
  next
    assume k: "k = 1"
    then have "unat (?p - 2) = unat x" using p' e x by (subst unat_sub) (simp_all add: word_le_nat_alt)
    then have "?p - 2 = x" by (simp only: word_unat_eq_iff)
    then show ?thesis by (simp add: wf_create_40MHz_chspec_primary_sb_def sb k)
  qed
  also have "\<dots> = chspec_of (CHSPEC_BAND c) WL_CHANSPEC_BW_40 k (unat x)"
  proof -
    have "channel_to_sb x ?p WL_CHANSPEC_BW_40 = int k"
      using sb_index [of WL_CHANSPEC_BW_40 x k ?p] e k p' by (simp add: assms(2) edge_def)
    moreover have "k < 8" using k num_sb_le [of "CHSPEC_BW c"] by simp
    ultimately show ?thesis
      using ok assemble(2) [of k x WL_CHANSPEC_BW_40 "CHSPEC_BAND c"]
      by (simp add: wf_create_40MHz_chspec_def assms(2) centre_ok_def)
  qed
  also have "\<dots> = c" using c assms(2) by simp
  finally show ?thesis .
qed

section \<open>Bounds of channels, and totality of the results\<close>

lemma centre_cases:
  assumes "centre_ok band bw x"
  obtains "bw = WL_CHANSPEC_BW_20" "wf_valid_20MHz_chan x band"
  | "bw = WL_CHANSPEC_BW_40" "wf_valid_40MHz_center_chan x band"
  | "bw = WL_CHANSPEC_BW_80" "wf_valid_80MHz_center_chan x band"
  | "bw = WL_CHANSPEC_BW_160" "wf_valid_160MHz_center_chan x band"
  using assms unfolding centre_ok_def by metis

lemma centre_2g:
  assumes "centre_ok WL_CHANSPEC_BAND_2G bw x"
  shows "unat x + edge bw \<le> 14"
  using assms
proof (cases rule: centre_cases)
  case 1
  then show ?thesis by (simp add: wf_valid_20MHz_chan_def edge_def word_le_nat_alt)
next
  case 2
  then show ?thesis by (simp add: wf_valid_40MHz_center_chan_def edge_def word_le_nat_alt)
qed (simp_all add: wf_valid_80MHz_center_chan_def wf_valid_160MHz_center_chan_def)

lemma valid_bw_2g:
  assumes "wf_chspec_valid c" "CHSPEC_BAND c = WL_CHANSPEC_BAND_2G"
  shows "CHSPEC_BW c = WL_CHANSPEC_BW_20 \<or> CHSPEC_BW c = WL_CHANSPEC_BW_40"
proof -
  obtain x where "centre_ok (CHSPEC_BAND c) (CHSPEC_BW c) (x :: u32)" using assms(1) by (rule valid_primary)
  then show ?thesis
    unfolding assms(2)
    by (cases rule: centre_cases) (auto simp: wf_valid_80MHz_center_chan_def wf_valid_160MHz_center_chan_def)
qed

lemma centre_5g_low:
  assumes "centre_ok WL_CHANSPEC_BAND_5G bw x"
  shows "34 + edge bw \<le> unat x"
  using assms
proof (cases rule: centre_cases)
  case 1
  then show ?thesis
    by (auto simp: wf_valid_20MHz_chan_def wf_5g_40m_chans_def LOWER_20_SB_def UPPER_20_SB_def edge_def)
next
  case 2
  then show ?thesis by (auto simp: edge_def wf_5g_40m_chans_def dest!: centre_5g)
next
  case 3
  then show ?thesis by (auto simp: edge_def wf_5g_80m_chans_def dest!: centre_5g)
next
  case 4
  then show ?thesis by (auto simp: edge_def wf_5g_160m_chans_def dest!: centre_5g)
qed

lemma primary_bounds:
  assumes "wf_chspec_valid c"
  shows "unat (wf_chspec_primary20_chan c) < 256"
    "CHSPEC_BAND c = WL_CHANSPEC_BAND_2G \<Longrightarrow> unat (wf_chspec_primary20_chan c) \<le> 14 \<and> CHSPEC_CHANNEL c \<le> 14"
    "CHSPEC_BAND c = WL_CHANSPEC_BAND_5G \<Longrightarrow> 14 < unat (wf_chspec_primary20_chan c) \<and> 14 < CHSPEC_CHANNEL c"
proof -
  obtain k x where k: "k < num_sb (CHSPEC_BW c)" and ok: "centre_ok (CHSPEC_BAND c) (CHSPEC_BW c) x"
    and x: "x = ucast (CHSPEC_CHANNEL c)" and p: "unat (wf_chspec_primary20_chan c) = unat x - edge (CHSPEC_BW c) + 4 * k"
    using assms by (rule valid_primary)
  have x': "unat (CHSPEC_CHANNEL c) = unat x" using x by simp
  have k: "4 * k \<le> 2 * edge (CHSPEC_BW c)" using k edge_num_sb [of "CHSPEC_BW c"] by simp
  have e: "edge (CHSPEC_BW c) < unat x" by (rule centre_bounds(1) [OF ok])
  show "unat (wf_chspec_primary20_chan c) < 256" by simp
  show "unat (wf_chspec_primary20_chan c) \<le> 14 \<and> CHSPEC_CHANNEL c \<le> 14" if b: "CHSPEC_BAND c = WL_CHANSPEC_BAND_2G"
    using centre_2g [OF ok [unfolded b]] k e p x' by (simp add: word_le_nat_alt)
  show "14 < unat (wf_chspec_primary20_chan c) \<and> 14 < CHSPEC_CHANNEL c" if b: "CHSPEC_BAND c = WL_CHANSPEC_BAND_5G"
    using centre_5g_low [OF ok [unfolded b]] p x' by (simp add: word_less_nat_alt)
qed

lemma from_primary_20: "wf_create_chspec_from_primary p WL_CHANSPEC_BW_20 band = wf_create_20MHz_chspec p band"
  by (simp add: wf_create_chspec_from_primary_def)

lemma INV_malformed: "wf_chspec_malformed INVCHANSPEC"
  by code_simp

lemma well_created_valid: "well_created p x bw band r \<Longrightarrow> r = INVCHANSPEC \<or> wf_chspec_valid r"
  by (auto simp: well_created_def)

lemma create_valid: "wf_create_chspec p x bw band = INVCHANSPEC \<or> wf_chspec_valid (wf_create_chspec p x bw band)"
  by (simp add: wf_create_chspec_def Let_def)

lemma from_table_valid:
  "r = INVCHANSPEC \<or> wf_chspec_valid r \<Longrightarrow> from_table p bw band chs r = INVCHANSPEC \<or> wf_chspec_valid (from_table p bw band chs r)"
proof (induction chs arbitrary: r)
  case (Cons x chs)
  then show ?case using create_valid [of p "ucast x" bw band] by (auto simp: Let_def)
qed simp

lemma create20_valid: "wf_create_20MHz_chspec p band = INVCHANSPEC \<or> wf_chspec_valid (wf_create_20MHz_chspec p band)"
  by (rule well_created_valid [OF create20_created])

lemma from_primary_valid:
  "wf_create_chspec_from_primary p bw band = INVCHANSPEC \<or> wf_chspec_valid (wf_create_chspec_from_primary p bw band)"
  using create20_valid create_valid from_table_valid [of INVCHANSPEC]
  by (simp add: wf_create_chspec_from_primary_def Let_def)

lemma primary_sb_valid:
  "wf_create_40MHz_chspec_primary_sb p sb band = INVCHANSPEC \<or> wf_chspec_valid (wf_create_40MHz_chspec_primary_sb p sb band)"
  using well_created_valid [OF create40_created] by (simp add: wf_create_40MHz_chspec_primary_sb_def)

end
