(* ===== verification/Chanspec_Text.thy ===== *)
theory Chanspec_Text
  imports Chanspec_Str Chanspec_Create
begin

text \<open>Parsing of printed numbers, and that printing a valid specification and parsing it gives it back.\<close>

section \<open>Numbers\<close>

lemma of_char_char_of: "n < 256 \<Longrightarrow> (of_char (char_of (n :: nat)) :: u8) = of_nat n"
proof -
  assume n: "n < 256"
  have "(of_char (char_of n) :: u8) = of_nat (of_char (char_of n))"
    by (rule of_nat_of_char [symmetric])
  also have "(of_char (char_of n) :: nat) = n" using n by simp
  finally show ?thesis .
qed

lemma digit_char:
  fixes r :: nat
  assumes "r < 10"
  shows "bcm_isxdigit (of_char (char_of (48 + r)))" "bcm_isdigit (of_char (char_of (48 + r)))"
    "digit_value (of_char (char_of (48 + r))) = of_nat r" "\<not> bcm_isspace (of_char (char_of (48 + r)))"
proof -
  have c: "(of_char (char_of (48 + r)) :: u8) = of_nat (48 + r)" using assms by (intro of_char_char_of) simp
  from assms have "r \<in> {0, 1, 2, 3, 4, 5, 6, 7, 8, 9}" by auto
  then show "bcm_isxdigit (of_char (char_of (48 + r)))" "bcm_isdigit (of_char (char_of (48 + r)))"
    "digit_value (of_char (char_of (48 + r))) = of_nat r" "\<not> bcm_isspace (of_char (char_of (48 + r)))"
    unfolding c by (auto simp: bcm_isxdigit_def bcm_isdigit_def bcm_isspace_def digit_value_def)
qed

lemma dec_digits_hd: "\<exists>(r :: nat) s. r < 10 \<and> dec_digits n = char_of (48 + r) # s"
proof (induction n rule: dec_digits.induct)
  case (1 n)
  show ?case
  proof (cases "n < 10")
    case True
    then show ?thesis by (subst dec_digits.simps) auto
  next
    case False
    with 1 obtain r :: nat and s where "r < 10" "dec_digits (n div 10) = char_of (48 + r) # s" by blast
    then show ?thesis using False by (subst dec_digits.simps) auto
  qed
qed

lemma strtoull_loop_digit:
  assumes "r < 10" "10 * m + r < 4294967296"
  shows "strtoull_loop 10 neg (of_nat m) (char_of (48 + r) # rest) = strtoull_loop 10 neg (of_nat (10 * m + r)) rest"
proof -
  have u: "unat (of_nat k :: u64) = k" if "k < 4294967296" for k
    using that by (simp add: unat_of_nat)
  have "(of_nat r :: u64) < 10"
    using assms(1) by (simp add: word_less_nat_alt u)
  moreover have "\<not> (of_nat (10 * m + r) :: u64) < of_nat m"
    using assms(2) by (simp only: word_less_nat_alt u)
  ultimately show ?thesis
    using digit_char [OF assms(1)] by (simp add: Let_def mult.commute)
qed

lemma strtoull_loop_dec:
  "n < 4294967296 \<Longrightarrow> strtoull_loop 10 neg 0 (dec_digits n @ rest) = strtoull_loop 10 neg (of_nat n) rest"
proof (induction n arbitrary: rest rule: dec_digits.induct)
  case (1 n)
  show ?case
  proof (cases "n < 10")
    case True
    then show ?thesis using strtoull_loop_digit [of n 0 neg rest] by (subst dec_digits.simps) simp
  next
    case False
    then have "strtoull_loop 10 neg 0 (dec_digits n @ rest)
        = strtoull_loop 10 neg 0 (dec_digits (n div 10) @ char_of (48 + n mod 10) # rest)"
      by (subst dec_digits.simps) simp
    also have "\<dots> = strtoull_loop 10 neg (of_nat (n div 10)) (char_of (48 + n mod 10) # rest)"
      using 1 False by simp
    also have "\<dots> = strtoull_loop 10 neg (of_nat (10 * (n div 10) + n mod 10)) rest"
      by (rule strtoull_loop_digit) (use 1 in simp_all)
    finally show ?thesis by simp
  qed
qed

definition no_digit :: "string \<Rightarrow> bool" where
  "no_digit s \<longleftrightarrow> s = [] \<or> \<not> (bcm_isxdigit (of_char (hd s)) \<and> digit_value (of_char (hd s)) < 10)"

lemma strtoull_loop_end: "no_digit rest \<Longrightarrow> strtoull_loop 10 neg v rest = (False, v, rest)"
  by (cases rest) (auto simp: no_digit_def Let_def)

lemma read_uint_dec:
  assumes "n < 4294967296" "no_digit rest"
  shows "read_uint (dec_digits n @ rest) = Some (of_nat n, rest)"
proof -
  obtain r :: nat and s where d: "r < 10" "dec_digits n = char_of (48 + r) # s" using dec_digits_hd by blast
  let ?c = "of_char (char_of (48 + r)) :: u8"
  have c: "?c \<noteq> 43" "?c \<noteq> 45"
    using digit_char(2) [OF d(1)] by (auto simp: bcm_isdigit_def)
  have drop: "dropWhile (\<lambda>c. bcm_isspace (of_char c)) (dec_digits n @ rest) = dec_digits n @ rest"
    using digit_char(4) [OF d(1)] by (simp add: d(2))
  have cur: "cur (dec_digits n @ rest) = ?c" by (simp add: cur_def d(2))
  have "bcm_strtoull (dec_digits n @ rest) 10 = (of_nat n, rest)"
    using strtoull_loop_dec [OF assms(1), of False rest] strtoull_loop_end [OF assms(2)] c
    by (simp add: bcm_strtoull_def drop cur Let_def)
  moreover have "(ucast (of_nat n :: u64) :: u32) = of_nat n"
    using assms(1) by (simp add: unsigned_of_nat take_bit_nat_eq_self)
  ultimately show ?thesis
    by (simp add: read_uint_def bcm_strtoul_def d(2))
qed

section \<open>Specifications\<close>

lemma dec_digits_length: "n < 1000 \<Longrightarrow> length (dec_digits n) \<le> 3"
proof -
  have 1: "length (dec_digits m) \<le> 1" if "m < 10" for m using that by (subst dec_digits.simps) simp
  have 2: "length (dec_digits m) \<le> 2" if "m < 100" for m
    using 1 [of "m div 10"] that by (subst dec_digits.simps) (simp add: less_mult_imp_div_less)
  assume "n < 1000"
  then show ?thesis
    using 2 [of "n div 10"] by (subst dec_digits.simps) (simp add: less_mult_imp_div_less)
qed

lemma dec_digits_6: "dec_digits 6 = ''6''"
  by code_simp

lemma aton_band_default:
  assumes "n < 4294967296" "no_digit rest" "bcm_tolower (cur rest) \<noteq> of_char CHR ''g''"
  shows "aton_band (dec_digits n @ rest) =
    Some (if n \<le> 14 then WL_CHANSPEC_BAND_2G else WL_CHANSPEC_BAND_5G, of_nat n, rest)"
proof -
  have "(of_nat n :: u32) \<le> 14 \<longleftrightarrow> n \<le> 14"
    using assms(1) by (simp add: word_le_nat_alt unat_of_nat_u32)
  then show ?thesis
    using assms(3) by (simp add: aton_band_def read_uint_dec [OF assms(1,2)])
qed

lemma aton_band_6g:
  assumes "n < 4294967296" "no_digit rest"
  shows "aton_band (''6g'' @ dec_digits n @ rest) = Some (WL_CHANSPEC_BAND_6G, of_nat n, rest)"
proof -
  have "no_digit (CHR ''g'' # s)" for s
    by (simp add: no_digit_def bcm_isxdigit_def bcm_isdigit_def)
  from read_uint_dec [OF _ this, of 6]
  have "read_uint (''6g'' @ s) = Some (6, CHR ''g'' # s)" for s
    by (simp add: dec_digits_6)
  then show ?thesis
    using read_uint_dec [OF assms] by (simp add: aton_band_def cur_def bcm_tolower_def bcm_isupper_def)
qed

lemma bw_numbers: "read_uint ''40'' = Some (40, [])" "read_uint ''80'' = Some (80, [])" "read_uint ''160'' = Some (160, [])"
  by code_simp+

lemma aton_bw_forms:
  "aton_bw band [] = Some (WL_CHANSPEC_BW_20, 0, [])"
  "aton_bw band ''u'' = Some (WL_CHANSPEC_BW_40, of_char CHR ''u'', [])"
  "aton_bw band ''l'' = Some (WL_CHANSPEC_BW_40, of_char CHR ''l'', [])"
  "aton_bw band (CHR ''/'' # ''40'') = Some (WL_CHANSPEC_BW_40, 0, [])"
  "aton_bw band (CHR ''/'' # ''80'') = Some (WL_CHANSPEC_BW_80, 0, [])"
  "aton_bw band (CHR ''/'' # ''160'') = Some (WL_CHANSPEC_BW_160, 0, [])"
  by (simp_all add: aton_bw_def bw_numbers cur_def bcm_tolower_def bcm_isupper_def)

lemma rest_forms:
  "no_digit []" "no_digit ''u''" "no_digit ''l''" "no_digit (CHR ''/'' # s)"
  "bcm_tolower (cur []) \<noteq> of_char CHR ''g''" "bcm_tolower (cur ''u'') \<noteq> of_char CHR ''g''"
  "bcm_tolower (cur ''l'') \<noteq> of_char CHR ''g''" "bcm_tolower (cur (CHR ''/'' # s)) \<noteq> of_char CHR ''g''"
  by (simp_all add: no_digit_def bcm_isxdigit_def bcm_isdigit_def cur_def bcm_tolower_def bcm_isupper_def)

lemma bw_strings:
  "CHSPEC_BW c = WL_CHANSPEC_BW_40 \<Longrightarrow> wf_chspec_to_bw_str c = ''40''"
  "CHSPEC_BW c = WL_CHANSPEC_BW_80 \<Longrightarrow> wf_chspec_to_bw_str c = ''80''"
  "CHSPEC_BW c = WL_CHANSPEC_BW_160 \<Longrightarrow> wf_chspec_to_bw_str c = ''160''"
  by (simp_all add: wf_chspec_to_bw_str_def wf_chspec_bw_str_def)

lemma aton_parts:
  assumes "aton_band s = Some (band, pri, r)" "aton_bw band r = Some (bw, sb, [])" "wf_chspec_valid c"
    "c = (if sb \<noteq> 0 then wf_create_40MHz_chspec_primary_sb pri
            (if sb = of_char CHR ''l'' then WL_CHANSPEC_CTL_SB_L else WL_CHANSPEC_CTL_SB_U) band
          else if bw = WL_CHANSPEC_BW_20 then wf_create_20MHz_chspec pri band
          else wf_create_chspec_from_primary pri bw band)"
  shows "wf_chspec_aton s = c"
proof -
  have "\<not> wf_chspec_malformed c" using assms(3) by (auto simp: wf_chspec_valid_def Let_def)
  then show ?thesis unfolding wf_chspec_aton_def using assms(1,2,4) by simp
qed

text \<open>The text of a valid specification: a band prefix only in the 6 GHz band, the primary channel, and a suffix.\<close>

definition suffix_of :: "u16 \<Rightarrow> string" where
  "suffix_of c = (if CHSPEC_IS20 c then [] else if CHSPEC_IS40 c \<and> \<not> CHSPEC_IS6G c
     then (if CHSPEC_SB_UPPER c then ''u'' else ''l'') else CHR ''/'' # wf_chspec_to_bw_str c)"

lemma ntoa_valid:
  assumes "wf_chspec_valid c"
  shows "wf_chspec_ntoa c =
    Some ((if CHSPEC_IS6G c then ''6g'' else []) @ dec_digits (unat (wf_chspec_primary20_chan c)) @ suffix_of c)"
proof -
  have m: "\<not> wf_chspec_malformed c" and bw: "CHSPEC_BW c \<in> bws"
    using assms by (auto simp: wf_chspec_valid_def Let_def split: if_splits)
  have b: "\<not> (CHSPEC_IS2G c \<and> 14 < CHSPEC_CHANNEL c)" "\<not> (CHSPEC_IS5G c \<and> CHSPEC_CHANNEL c \<le> 14)"
    using primary_bounds [OF assms] by (auto simp: not_less not_le)
  have s: "length (suffix_of c) \<le> 4"
    using bw bw_strings [of c] by (auto simp: suffix_of_def)
  have l: "length (dec_digits (unat (wf_chspec_primary20_chan c))) \<le> 3"
    by (rule dec_digits_length) (rule less_trans [OF primary_bounds(1) [OF assms]], simp)
  have "take 19 (pre @ dec_digits (unat (wf_chspec_primary20_chan c)) @ suffix_of c)
      = pre @ dec_digits (unat (wf_chspec_primary20_chan c)) @ suffix_of c" if "length pre \<le> 2" for pre
    using that s l by (intro take_all) simp
  moreover have "wf_chspec_ntoa c =
      Some (take 19 ((if CHSPEC_IS6G c then ''6g'' else []) @ dec_digits (unat (wf_chspec_primary20_chan c)) @ suffix_of c))"
  proof -
    have pre: "(if CHSPEC_IS2G c \<and> CHSPEC_CHANNEL c > 14 then ''2g'' else if CHSPEC_IS5G c \<and> CHSPEC_CHANNEL c \<le> 14
        then ''5g'' else if CHSPEC_IS6G c then ''6g'' else []) = (if CHSPEC_IS6G c then ''6g'' else [])"
      using b by simp
    show ?thesis
      unfolding wf_chspec_ntoa_def Let_def pre suffix_of_def using m
      by (cases "CHSPEC_IS20 c"; cases "CHSPEC_IS40 c \<and> \<not> CHSPEC_IS6G c")
        (simp_all only: if_True if_False append_Nil2 append_Cons append_Nil simp_thms)
  qed
  ultimately show ?thesis by simp
qed

lemma aton_band_valid:
  assumes "wf_chspec_valid c"
  shows "aton_band ((if CHSPEC_IS6G c then ''6g'' else []) @ dec_digits (unat (wf_chspec_primary20_chan c)) @ suffix_of c) =
    Some (CHSPEC_BAND c, ucast (wf_chspec_primary20_chan c), suffix_of c)"
proof -
  have band: "CHSPEC_BAND c \<in> bands" using assms by (auto simp: wf_chspec_valid_def wf_chspec_malformed_def Let_def split: if_splits)
  have n: "unat (wf_chspec_primary20_chan c) < 4294967296"
    by (rule less_trans [OF unat_u8_less]) simp
  have nd: "no_digit (suffix_of c)" and ng: "bcm_tolower (cur (suffix_of c)) \<noteq> of_char CHR ''g''"
    using rest_forms by (auto simp: suffix_of_def)
  have u: "(of_nat (unat (wf_chspec_primary20_chan c)) :: u32) = ucast (wf_chspec_primary20_chan c)"
    by simp
  show ?thesis
    using aton_band_6g [OF n nd] aton_band_default [OF n nd ng] band primary_bounds(2,3) [OF assms] unfolding u
    by auto
qed

lemma aton_ntoa:
  assumes "wf_chspec_valid c" "wf_chspec_ntoa c = Some s"
  shows "wf_chspec_aton s = c"
proof -
  have bw: "CHSPEC_BW c \<in> bws" and band: "CHSPEC_BAND c \<in> bands"
    using assms(1) by (auto simp: wf_chspec_valid_def wf_chspec_malformed_def Let_def split: if_splits)
  have s: "s = (if CHSPEC_IS6G c then ''6g'' else []) @ dec_digits (unat (wf_chspec_primary20_chan c)) @ suffix_of c"
    using ntoa_valid [OF assms(1)] assms(2) by simp
  note parts = aton_parts [OF aton_band_valid [OF assms(1)] _ assms(1), folded s]
  show ?thesis
  proof (cases "CHSPEC_IS40 c \<and> \<not> CHSPEC_IS6G c")
    case True
    then have sb: "CHSPEC_CTL_SB c = (if CHSPEC_SB_UPPER c then WL_CHANSPEC_CTL_SB_U else WL_CHANSPEC_CTL_SB_L)"
    proof -
      obtain k where "k < num_sb (CHSPEC_BW c)" "CHSPEC_CTL_SB c = push_bit 8 (of_nat k)"
        using assms(1) by (rule valid_primary)
      then have "CHSPEC_CTL_SB c = 0 \<or> CHSPEC_CTL_SB c = 0x100"
        using True by (auto simp: num_sb_def less_2_cases_iff)
      then show ?thesis using True by (auto simp: CHSPEC_SB_UPPER_def)
    qed
    have "aton_bw (CHSPEC_BAND c) (suffix_of c) =
        Some (WL_CHANSPEC_BW_40, of_char (if CHSPEC_SB_UPPER c then CHR ''u'' else CHR ''l''), [])"
      using True by (simp add: suffix_of_def aton_bw_forms)
    from parts [OF this] show ?thesis
      using primary_sb_of [OF assms(1)] True sb by (cases "CHSPEC_SB_UPPER c") simp_all
  next
    case False
    have "aton_bw (CHSPEC_BAND c) (suffix_of c) = Some (CHSPEC_BW c, 0, [])"
      using False bw bw_strings [of c] by (auto simp: suffix_of_def aton_bw_forms)
    note parts = parts [OF this]
    have "CHSPEC_BW c = WL_CHANSPEC_BW_20 \<or> CHSPEC_BAND c \<noteq> WL_CHANSPEC_BAND_2G"
      using False assms(1) band
      by (auto simp: wf_chspec_valid_def wf_chspec_malformed_def Let_def split: if_splits)
    from from_primary_of [OF assms(1) this]
    have "(if CHSPEC_IS20 c then wf_create_20MHz_chspec (ucast (wf_chspec_primary20_chan c)) (CHSPEC_BAND c)
        else wf_create_chspec_from_primary (ucast (wf_chspec_primary20_chan c)) (CHSPEC_BW c) (CHSPEC_BAND c)) = c"
      by (cases "CHSPEC_IS20 c") (simp_all add: from_primary_20)
    then show ?thesis by (intro parts) simp
  qed
qed

lemma aton_valid: "wf_chspec_aton s \<noteq> 0 \<Longrightarrow> wf_chspec_valid (wf_chspec_aton s)"
proof -
  assume nz: "wf_chspec_aton s \<noteq> 0"
  have v: "wf_chspec_valid r" if "r = INVCHANSPEC \<or> wf_chspec_valid r" "\<not> wf_chspec_malformed r" for r
    using that INV_malformed by auto
  show ?thesis
    using nz unfolding wf_chspec_aton_def
    by (auto split: option.splits if_splits prod.splits bind_splits
        intro!: v from_primary_valid primary_sb_valid create20_valid)
qed

end
