(* ===== verification/Chanspec_Sub.thy ===== *)
theory Chanspec_Sub
  imports Chanspec_Create
begin

text \<open>The narrower channels inside a valid specification, the iteration over its 20 MHz channels, and frequencies.\<close>

section \<open>Centres of the halves\<close>

text \<open>The 20 MHz channels a specification occupies.\<close>

definition sub_bands :: "u16 \<Rightarrow> nat set" where
  "sub_bands c = (\<lambda>i. unat (CHSPEC_CHANNEL c) - edge (CHSPEC_BW c) + 4 * i) ` {..<num_sb (CHSPEC_BW c)}"

lemma ucast_nat_u8: "n < 4294967296 \<Longrightarrow> (ucast (of_nat n :: u32) :: u8) = of_nat n"
  by (simp add: unsigned_of_nat take_bit_nat_eq_self)

lemma u8_unat: "(w :: u8) = of_nat (unat w)"
  by simp

lemma block_mod:
  assumes "unat x = unat a + unat b * m"
  shows "a \<le> (x :: u32) \<and> (x - a) mod b = 0"
proof -
  have le: "a \<le> x" using assms by (simp add: word_le_nat_alt)
  have "unat (x - a) = unat b * m" using unat_sub [OF le] assms by simp
  then have "unat ((x - a) mod b) = 0" by (simp add: unat_mod)
  then show ?thesis using le by (simp add: unat_eq_0)
qed

lemma centre_6g_intro:
  "unat x = 1 + 4 * m \<Longrightarrow> unat x \<le> 253 \<Longrightarrow> centre_ok WL_CHANSPEC_BAND_6G WL_CHANSPEC_BW_20 x"
  "unat x = 3 + 8 * m \<Longrightarrow> unat x \<le> 227 \<Longrightarrow> centre_ok WL_CHANSPEC_BAND_6G WL_CHANSPEC_BW_40 x"
  "unat x = 7 + 16 * m \<Longrightarrow> unat x \<le> 215 \<Longrightarrow> centre_ok WL_CHANSPEC_BAND_6G WL_CHANSPEC_BW_80 x"
  using block_mod [of x 1 4 m] block_mod [of x 3 8 m] block_mod [of x 7 16 m]
  by (simp_all add: centre_ok_def wf_valid_20MHz_chan_def wf_valid_40MHz_center_chan_def wf_valid_80MHz_center_chan_def
      channel_6g_80mhz_to_id_def word_le_nat_alt)

lemma unat_shift: "unat (x :: u32) < 256 \<Longrightarrow> d \<le> unat x \<Longrightarrow> d < 256 \<Longrightarrow> unat (x - of_nat d) = unat x - d \<and> unat (x + of_nat d) = unat x + d"
  using unat_sub [of "of_nat d" x] by (simp add: word_le_nat_alt unat_of_nat_u32 unat_word_ariths)

lemma wide_top:
  assumes "bw \<in> wides" "centre_ok band bw x"
  shows "unat x + edge bw < 252"
  using assms(2)
proof (cases rule: centre_cases)
  case 1
  then show ?thesis using assms(1) by simp
next
  case 2
  from valid40_bounds [OF this(2)] show ?thesis using 2(1) by (simp add: word_le_nat_alt edge_def)
next
  case 3
  from valid80_bounds [OF this(2)] show ?thesis using 3(1) by (simp add: word_le_nat_alt edge_def)
next
  case 4
  from valid160_bounds [OF this(2)] show ?thesis using 4(1) by (simp add: word_le_nat_alt edge_def)
qed

lemma halves_160:
  assumes "centre_ok band WL_CHANSPEC_BW_160 x"
  shows "centre_ok band WL_CHANSPEC_BW_80 (x - 8) \<and> centre_ok band WL_CHANSPEC_BW_80 (x + 8)"
proof -
  have "band \<in> bands" using centre_fields [OF assms] by blast
  then show ?thesis
  proof (elim insertE emptyE)
    assume "band = WL_CHANSPEC_BAND_2G"
    then show ?thesis using assms by (simp add: centre_ok_def wf_valid_160MHz_center_chan_def)
  next
    assume b: "band = WL_CHANSPEC_BAND_5G"
    then have "wf_valid_160MHz_center_chan x WL_CHANSPEC_BAND_5G" using assms by (simp add: centre_ok_def)
    then have "x \<in> {50, 114, 163}" by (auto simp: wf_valid_160MHz_center_chan_def wf_5g_160m_chans_def)
    then show ?thesis
      by (auto simp: b centre_ok_def wf_valid_80MHz_center_chan_def channel_80mhz_to_id_def wf_5g_80m_chans_def)
  next
    assume b: "band = WL_CHANSPEC_BAND_6G"
    have ok: "centre_ok WL_CHANSPEC_BAND_6G WL_CHANSPEC_BW_160 x" using assms b by simp
    obtain m where m: "unat x = 15 + 32 * m"
      using centre_6g [OF _ ok] by (auto simp: edge_def num_sb_def)
    have "wf_valid_160MHz_center_chan x WL_CHANSPEC_BAND_6G" using ok by (simp add: centre_ok_def)
    from valid160_bounds [OF this] have le: "unat x \<le> 207" by (simp add: word_le_nat_alt)
    show ?thesis
      unfolding b using unat_shift [of x 8] m le
      by (intro conjI centre_6g_intro(3) [where m = "2 * m"] centre_6g_intro(3) [where m = "2 * m + 1"]) simp_all
  qed
qed

lemma halves_80:
  assumes "centre_ok band WL_CHANSPEC_BW_80 x"
  shows "centre_ok band WL_CHANSPEC_BW_40 (x - 4) \<and> centre_ok band WL_CHANSPEC_BW_40 (x + 4)"
proof -
  have "band \<in> bands" using centre_fields [OF assms] by blast
  then show ?thesis
  proof (elim insertE emptyE)
    assume "band = WL_CHANSPEC_BAND_2G"
    then show ?thesis using assms by (simp add: centre_ok_def wf_valid_80MHz_center_chan_def)
  next
    assume b: "band = WL_CHANSPEC_BAND_5G"
    then have "wf_valid_80MHz_center_chan x WL_CHANSPEC_BAND_5G" using assms by (simp add: centre_ok_def)
    then have "x \<in> {42, 58, 106, 122, 138, 155, 171}" using centre_5g(2) [of x] by (auto simp: wf_5g_80m_chans_def)
    then show ?thesis
      by (auto simp: b centre_ok_def wf_valid_40MHz_center_chan_def wf_5g_40m_chans_def)
  next
    assume b: "band = WL_CHANSPEC_BAND_6G"
    have ok: "centre_ok WL_CHANSPEC_BAND_6G WL_CHANSPEC_BW_80 x" using assms b by simp
    obtain m where m: "unat x = 7 + 16 * m"
      using centre_6g [OF _ ok] by (auto simp: edge_def num_sb_def)
    have "wf_valid_80MHz_center_chan x WL_CHANSPEC_BAND_6G" using ok by (simp add: centre_ok_def)
    from valid80_bounds [OF this] have le: "unat x \<le> 215" by (simp add: word_le_nat_alt)
    show ?thesis
      unfolding b using unat_shift [of x 4] m le
      by (intro conjI centre_6g_intro(2) [where m = "2 * m"] centre_6g_intro(2) [where m = "2 * m + 1"]) simp_all
  qed
qed

lemma halves_40:
  assumes "centre_ok band WL_CHANSPEC_BW_40 x"
  shows "centre_ok band WL_CHANSPEC_BW_20 (x - 2) \<and> centre_ok band WL_CHANSPEC_BW_20 (x + 2)"
proof -
  have "band \<in> bands" using centre_fields [OF assms] by blast
  then show ?thesis
  proof (elim insertE emptyE)
    assume b: "band = WL_CHANSPEC_BAND_2G"
    then have "3 \<le> unat x" "unat x \<le> 11"
      using assms by (simp_all add: centre_ok_def wf_valid_40MHz_center_chan_def word_le_nat_alt)
    then show ?thesis
      by (auto simp: b centre_ok_def wf_valid_20MHz_chan_def word_le_nat_alt unat_sub unat_word_ariths)
  next
    assume b: "band = WL_CHANSPEC_BAND_5G"
    then have "wf_valid_40MHz_center_chan x WL_CHANSPEC_BAND_5G" using assms by (simp add: centre_ok_def)
    then have "x \<in> {38, 46, 54, 62, 102, 110, 118, 126, 134, 142, 151, 159, 167, 175}"
      using centre_5g(1) [of x] by (auto simp: wf_5g_40m_chans_def)
    then show ?thesis
      by (auto simp: b centre_ok_def wf_valid_20MHz_chan_def wf_5g_40m_chans_def LOWER_20_SB_def UPPER_20_SB_def)
  next
    assume b: "band = WL_CHANSPEC_BAND_6G"
    have ok: "centre_ok WL_CHANSPEC_BAND_6G WL_CHANSPEC_BW_40 x" using assms b by simp
    obtain m where m: "unat x = 3 + 8 * m"
      using centre_6g [OF _ ok] by (auto simp: edge_def num_sb_def)
    have "wf_valid_40MHz_center_chan x WL_CHANSPEC_BAND_6G" using ok by (simp add: centre_ok_def)
    from valid40_bounds [OF this] have le: "unat x \<le> 227" by (simp add: word_le_nat_alt)
    show ?thesis
      unfolding b using unat_shift [of x 2] m le
      by (intro conjI centre_6g_intro(1) [where m = "2 * m"] centre_6g_intro(1) [where m = "2 * m + 1"]) simp_all
  qed
qed

section \<open>Halves of a specification\<close>

lemma sub_bands_of:
  assumes "band \<in> bands" "bw \<in> bws" "k < 8" "ch < 256"
  shows "sub_bands (chspec_of band bw k ch) = (\<lambda>i. ch - edge bw + 4 * i) ` {..<num_sb bw}"
  using chspec_fields [OF assms] unat_of_nat_u8 [OF assms(4)] by (simp add: sub_bands_def)

lemma assemble_parts:
  assumes "k < 8" "ch < 256"
  shows "ucast (ucast band OR ucast bw OR push_bit 8 (of_nat k) OR (of_nat ch :: u32)) = chspec_of band bw k ch"
proof -
  have "ucast (of_nat ch :: u32) = (of_nat ch :: u16)"
    using assms(2) by (simp add: unsigned_of_nat take_bit_nat_eq_self)
  then show ?thesis
    using ucast_sb [OF assms(1)] by (simp add: unsigned_or_eq ucast_field chspec_of_def or.assoc)
qed

lemma ucast_sb_up: "k < 8 \<Longrightarrow> ucast (push_bit 8 (of_nat k :: u16)) = (push_bit 8 (of_nat k) :: u32)"
proof -
  assume "k < 8"
  then have "k \<in> {0, 1, 2, 3, 4, 5, 6, 7}" by auto
  then show ?thesis by auto
qed

lemma sb_split:
  assumes "k < 8"
  shows "push_bit 8 (of_nat k :: u32) < 0x0400 \<longleftrightarrow> k < 4" "push_bit 8 (of_nat k :: u32) < 0x0200 \<longleftrightarrow> k < 2"
    "push_bit 8 (of_nat k :: u16) < 0x0400 \<longleftrightarrow> k < 4"
    "4 \<le> k \<Longrightarrow> push_bit 8 (of_nat k :: u32) - 0x0400 = push_bit 8 (of_nat (k - 4))"
    "2 \<le> k \<Longrightarrow> push_bit 8 (of_nat k :: u32) - 0x0200 = push_bit 8 (of_nat (k - 2))"
proof -
  from assms have "k \<in> {0, 1, 2, 3, 4, 5, 6, 7}" by auto
  then show "push_bit 8 (of_nat k :: u32) < 0x0400 \<longleftrightarrow> k < 4" "push_bit 8 (of_nat k :: u32) < 0x0200 \<longleftrightarrow> k < 2"
    "push_bit 8 (of_nat k :: u16) < 0x0400 \<longleftrightarrow> k < 4"
    "4 \<le> k \<Longrightarrow> push_bit 8 (of_nat k :: u32) - 0x0400 = push_bit 8 (of_nat (k - 4))"
    "2 \<le> k \<Longrightarrow> push_bit 8 (of_nat k :: u32) - 0x0200 = push_bit 8 (of_nat (k - 2))"
    by auto
qed

lemma ucast_u8_of_nat: "ch < 256 \<Longrightarrow> ucast (of_nat ch :: u8) = (of_nat ch :: u32)"
  by (simp add: unsigned_of_nat take_bit_nat_eq_self)

lemma of_nat_shift:
  "d \<le> ch \<Longrightarrow> (of_nat ch - of_nat d :: u32) = of_nat (ch - d)" "(of_nat ch + of_nat d :: u32) = of_nat (ch + d)"
  by (simp_all add: of_nat_diff)

lemma primary80_of:
  assumes "band \<in> bands" "k < 8" "8 \<le> ch" "ch < 248"
  shows "wf_chspec_primary80_chspec (chspec_of band WL_CHANSPEC_BW_160 k ch) =
    chspec_of band WL_CHANSPEC_BW_80 (k mod 4) (if k < 4 then ch - 8 else ch + 8)"
proof -
  have ch: "ch < 256" using assms(4) by simp
  note f = chspec_fields [OF assms(1) _ assms(2) ch, of WL_CHANSPEC_BW_160, simplified]
  have "wf_chspec_primary80_chspec (chspec_of band WL_CHANSPEC_BW_160 k ch) =
      ucast (ucast band OR ucast WL_CHANSPEC_BW_80 OR push_bit 8 (of_nat (k mod 4))
        OR (of_nat (if k < 4 then ch - 8 else ch + 8) :: u32))"
    using sb_split(1,4) [OF assms(2)] of_nat_shift(1) [of 8 ch] assms(2,3)
    by (simp add: wf_chspec_primary80_chspec_def f ucast_sb_up [OF assms(2)] ucast_u8_of_nat [OF ch] mod_if
        del: of_nat_diff)
  also have "\<dots> = chspec_of band WL_CHANSPEC_BW_80 (k mod 4) (if k < 4 then ch - 8 else ch + 8)"
    by (rule assemble_parts) (use assms(3,4) in \<open>auto simp: less_trans [OF mod_less_divisor]\<close>)
  finally show ?thesis .
qed

lemma secondary80_of:
  assumes "band \<in> bands" "k < 8" "8 \<le> ch" "ch < 248"
  shows "wf_chspec_secondary80_chspec (chspec_of band WL_CHANSPEC_BW_160 k ch) =
    chspec_of band WL_CHANSPEC_BW_80 0 (if k < 4 then ch + 8 else ch - 8)"
proof -
  have ch: "ch < 256" using assms(4) by simp
  note f = chspec_fields [OF assms(1) _ assms(2) ch, of WL_CHANSPEC_BW_160, simplified]
  have "wf_chspec_secondary80_chspec (chspec_of band WL_CHANSPEC_BW_160 k ch) =
      ucast (ucast band OR ucast WL_CHANSPEC_BW_80 OR push_bit 8 (of_nat 0)
        OR (of_nat (if k < 4 then ch + 8 else ch - 8) :: u32))"
    using sb_split(3) [OF assms(2)] of_nat_shift(1) [of 8 ch] assms(3)
    by (simp add: wf_chspec_secondary80_chspec_def f ucast_u8_of_nat [OF ch] del: of_nat_diff)
  also have "\<dots> = chspec_of band WL_CHANSPEC_BW_80 0 (if k < 4 then ch + 8 else ch - 8)"
    by (rule assemble_parts) (use assms(3,4) in auto)
  finally show ?thesis .
qed

lemma primary40_of_80:
  assumes "band \<in> bands" "k < 4" "4 \<le> ch" "ch < 252"
  shows "wf_chspec_primary40_chspec (chspec_of band WL_CHANSPEC_BW_80 k ch) =
    chspec_of band WL_CHANSPEC_BW_40 (k mod 2) (if k < 2 then ch - 4 else ch + 4)"
proof -
  have ch: "ch < 256" and k: "k < 8" using assms by simp_all
  note f = chspec_fields [OF assms(1) _ k ch, of WL_CHANSPEC_BW_80, simplified]
  have "wf_chspec_primary40_chspec (chspec_of band WL_CHANSPEC_BW_80 k ch) =
      ucast (ucast band OR ucast WL_CHANSPEC_BW_40 OR push_bit 8 (of_nat (k mod 2))
        OR (of_nat (if k < 2 then ch - 4 else ch + 4) :: u32))"
    using sb_split(2,5) [OF k] of_nat_shift(1) [of 4 ch] assms(2,3)
    by (simp add: wf_chspec_primary40_chspec_def f ucast_sb_up [OF k] ucast_u8_of_nat [OF ch] mod_if
        del: of_nat_diff)
  also have "\<dots> = chspec_of band WL_CHANSPEC_BW_40 (k mod 2) (if k < 2 then ch - 4 else ch + 4)"
    by (rule assemble_parts) (use assms(3,4) in \<open>auto simp: less_trans [OF mod_less_divisor]\<close>)
  finally show ?thesis .
qed

text \<open>A channel with twice the sub-bands is the union of its halves, and a sub-band index of a half gives the channel it
  has in the whole.\<close>

definition contains :: "u16 \<Rightarrow> u16 \<Rightarrow> bool" where
  "contains c d \<longleftrightarrow> wf_chspec_valid d \<and> CHSPEC_BAND d = CHSPEC_BAND c \<and> sub_bands d \<subseteq> sub_bands c"

lemma valid_160:
  assumes "wf_chspec_valid c" "CHSPEC_IS160 c"
  obtains band k ch where "c = chspec_of band WL_CHANSPEC_BW_160 k ch" "band \<in> bands" "k < 8" "14 < ch" "ch < 240"
    "centre_ok band WL_CHANSPEC_BW_160 (of_nat ch)"
    "centre_ok band WL_CHANSPEC_BW_80 (of_nat (ch - 8))" "centre_ok band WL_CHANSPEC_BW_80 (of_nat (ch + 8))"
proof -
  obtain band bw k ch where c: "c = chspec_of band bw k ch" and f: "band \<in> bands" "bw \<in> bws" "k < 8" "ch < 256"
    and ok: "centre_ok band bw (of_nat ch)"
    using assms(1) by (rule valid_cases)
  have bw: "bw = WL_CHANSPEC_BW_160" using assms(2) chspec_fields(2) [OF f] c by simp
  have b: "14 < ch" "ch < 240" using centre_bounds [OF ok] f(4) by (simp_all add: bw edge_def unat_of_nat_u32)
  have "(of_nat (ch - 8) :: u32) = of_nat ch - 8" "(of_nat (ch + 8) :: u32) = of_nat ch + 8"
    using b by (simp_all add: of_nat_diff)
  with halves_160 ok bw show thesis
    by (intro that [of band k ch]) (use c f b in auto)
qed

lemma valid_80:
  assumes "wf_chspec_valid c" "CHSPEC_IS80 c"
  obtains band k ch where "c = chspec_of band WL_CHANSPEC_BW_80 k ch" "band \<in> bands" "k < 4" "6 < ch" "ch < 248"
    "centre_ok band WL_CHANSPEC_BW_80 (of_nat ch)"
    "centre_ok band WL_CHANSPEC_BW_40 (of_nat (ch - 4))" "centre_ok band WL_CHANSPEC_BW_40 (of_nat (ch + 4))"
proof -
  obtain band bw k ch where c: "c = chspec_of band bw k ch" and f: "band \<in> bands" "bw \<in> bws" "k < 8" "ch < 256"
    and ok: "centre_ok band bw (of_nat ch)" and k: "k < num_sb bw"
    using assms(1) by (rule valid_cases)
  have bw: "bw = WL_CHANSPEC_BW_80" using assms(2) chspec_fields(2) [OF f] c by simp
  have b: "6 < ch" "ch < 248" using centre_bounds [OF ok] f(4) by (simp_all add: bw edge_def unat_of_nat_u32)
  have "(of_nat (ch - 4) :: u32) = of_nat ch - 4" "(of_nat (ch + 4) :: u32) = of_nat ch + 4"
    using b by (simp_all add: of_nat_diff)
  with halves_80 ok bw show thesis
    by (intro that [of band k ch]) (use c f b k in \<open>auto simp: num_sb_def\<close>)
qed

lemma halves_sub_bands:
  assumes "e \<le> (ch :: nat)" "2 * e = 4 * (N - 1)" "0 < n" "N = 2 * n" "d = 2 * n" "e' + d = e"
  shows "(\<lambda>i. ch - d - e' + 4 * i) ` {..<n} \<union> (\<lambda>i. ch + d - e' + 4 * i) ` {..<n} = (\<lambda>i. ch - e + 4 * i) ` {..<N} \<and>
    (\<lambda>i. ch - d - e' + 4 * i) ` {..<n} \<inter> (\<lambda>i. ch + d - e' + 4 * i) ` {..<n} = {}"
proof -
  have l: "ch - d - e' = ch - e" "ch + d - e' = ch - e + 4 * n" using assms by auto
  have "{..<N} = {..<n} \<union> (\<lambda>i. n + i) ` {..<n}"
    by (simp add: lessThan_atLeast0 assms(4) mult_2 ivl_disj_un_two)
  then have "(\<lambda>i. ch - d - e' + 4 * i) ` {..<n} \<union> (\<lambda>i. ch + d - e' + 4 * i) ` {..<n} = (\<lambda>i. ch - e + 4 * i) ` {..<N}"
    unfolding l by (simp add: image_Un image_image algebra_simps)
  moreover have "(\<lambda>i. ch - d - e' + 4 * i) ` {..<n} \<inter> (\<lambda>i. ch + d - e' + 4 * i) ` {..<n} = {}"
    unfolding l by auto
  ultimately show ?thesis by (rule conjI)
qed

lemma built:
  assumes "d = chspec_of band bw k ch" "band \<in> bands" "bw \<in> bws" "k < num_sb bw" "ch < 256" "centre_ok band bw (of_nat ch)"
  shows "wf_chspec_valid d" "CHSPEC_BAND d = band" "CHSPEC_BW d = bw"
    "sub_bands d = (\<lambda>i. ch - edge bw + 4 * i) ` {..<num_sb bw}"
    "wf_chspec_primary20_chan d = of_nat (ch - edge bw + 4 * k)"
proof -
  have k8: "k < 8" using assms(4) num_sb_le [of bw] by simp
  have e: "edge bw \<le> ch" using centre_bounds(1) [OF assms(6)] assms(5) by (simp add: unat_of_nat_u32)
  show "wf_chspec_valid d" "CHSPEC_BAND d = band" "CHSPEC_BW d = bw"
    "sub_bands d = (\<lambda>i. ch - edge bw + 4 * i) ` {..<num_sb bw}"
    using valid_chspec_of [OF assms(2,3) k8 assms(5)] chspec_fields [OF assms(2,3) k8 assms(5)]
      sub_bands_of [OF assms(2,3) k8 assms(5)] assms(1,4,6) by simp_all
  show "wf_chspec_primary20_chan d = of_nat (ch - edge bw + 4 * k)"
    unfolding assms(1) by (rule primary20_of [OF assms(2-5) e])
qed

lemma sizes [simp]:
  "edge WL_CHANSPEC_BW_20 = 0" "edge WL_CHANSPEC_BW_40 = 2" "edge WL_CHANSPEC_BW_80 = 6" "edge WL_CHANSPEC_BW_160 = 14"
  "num_sb WL_CHANSPEC_BW_20 = 1" "num_sb WL_CHANSPEC_BW_40 = 2" "num_sb WL_CHANSPEC_BW_80 = 4" "num_sb WL_CHANSPEC_BW_160 = 8"
  by (simp_all add: edge_def num_sb_def)

lemma bws_members: "WL_CHANSPEC_BW_40 \<in> bws" "WL_CHANSPEC_BW_80 \<in> bws" "WL_CHANSPEC_BW_160 \<in> bws" "WL_CHANSPEC_BW_20 \<in> bws"
  by simp_all

lemma primary80_correct:
  assumes "wf_chspec_valid c" "CHSPEC_IS160 c"
  shows "contains c (wf_chspec_primary80_chspec c)" "CHSPEC_IS80 (wf_chspec_primary80_chspec c)"
    "wf_chspec_primary20_chan (wf_chspec_primary80_chspec c) = wf_chspec_primary20_chan c"
    "contains c (wf_chspec_secondary80_chspec c)" "CHSPEC_IS80 (wf_chspec_secondary80_chspec c)"
    "sub_bands (wf_chspec_primary80_chspec c) \<union> sub_bands (wf_chspec_secondary80_chspec c) = sub_bands c"
    "sub_bands (wf_chspec_primary80_chspec c) \<inter> sub_bands (wf_chspec_secondary80_chspec c) = {}"
proof -
  obtain band k ch where c: "c = chspec_of band WL_CHANSPEC_BW_160 k ch" and f: "band \<in> bands" "k < 8" "14 < ch" "ch < 240"
    and ok: "centre_ok band WL_CHANSPEC_BW_160 (of_nat ch)"
    "centre_ok band WL_CHANSPEC_BW_80 (of_nat (ch - 8))" "centre_ok band WL_CHANSPEC_BW_80 (of_nat (ch + 8))"
    using assms by (rule valid_160)
  define p s where "p = (if k < 4 then ch - 8 else ch + 8)" and "s = (if k < 4 then ch + 8 else ch - 8)"
  have eqs: "wf_chspec_primary80_chspec c = chspec_of band WL_CHANSPEC_BW_80 (k mod 4) p"
    "wf_chspec_secondary80_chspec c = chspec_of band WL_CHANSPEC_BW_80 0 s"
    unfolding c p_def s_def using f by (simp_all only: primary80_of secondary80_of)
  have ps: "p < 256" "s < 256" "centre_ok band WL_CHANSPEC_BW_80 (of_nat p)" "centre_ok band WL_CHANSPEC_BW_80 (of_nat s)"
    unfolding p_def s_def using f ok by auto
  have k: "k mod 4 < num_sb WL_CHANSPEC_BW_80" "0 < num_sb WL_CHANSPEC_BW_80" "k < num_sb WL_CHANSPEC_BW_160" "ch < 256"
    using f by simp_all
  note bp = built [OF eqs(1) f(1) bws_members(2) k(1) ps(1,3)] and bs = built [OF eqs(2) f(1) bws_members(2) k(2) ps(2,4)]
    and bc = built [OF c f(1) bws_members(3) k(3,4) ok(1)]
  have u: "sub_bands (wf_chspec_primary80_chspec c) \<union> sub_bands (wf_chspec_secondary80_chspec c) = sub_bands c \<and>
    sub_bands (wf_chspec_primary80_chspec c) \<inter> sub_bands (wf_chspec_secondary80_chspec c) = {}"
  proof -
    have h: "(\<lambda>i. ch - 8 - 6 + 4 * i) ` {..<4} \<union> (\<lambda>i. ch + 8 - 6 + 4 * i) ` {..<4} = (\<lambda>i. ch - 14 + 4 * i) ` {..<8} \<and>
        (\<lambda>i. ch - 8 - 6 + 4 * i) ` {..<4} \<inter> (\<lambda>i. ch + 8 - 6 + 4 * i) ` {..<4} = {}"
      by (rule halves_sub_bands) (use f(3) in simp_all)
    then show ?thesis
      unfolding bp(4) bs(4) bc(4) sizes p_def s_def by (cases "k < 4") (simp_all only: if_True if_False, blast)
  qed
  then show "sub_bands (wf_chspec_primary80_chspec c) \<union> sub_bands (wf_chspec_secondary80_chspec c) = sub_bands c"
    "sub_bands (wf_chspec_primary80_chspec c) \<inter> sub_bands (wf_chspec_secondary80_chspec c) = {}" by blast+
  show "CHSPEC_IS80 (wf_chspec_primary80_chspec c)" "CHSPEC_IS80 (wf_chspec_secondary80_chspec c)"
    by (rule bp(3), rule bs(3))
  show "contains c (wf_chspec_primary80_chspec c)" "contains c (wf_chspec_secondary80_chspec c)"
    using bp(1,2) bs(1,2) bc(2) u by (auto simp: contains_def)
  have m: "k mod 4 = (if k < 4 then k else k - 4)" using f by (auto simp: mod_if)
  have "p - 6 + 4 * (k mod 4) = ch - 14 + 4 * k"
    unfolding p_def m using f(2,3) by (cases "k < 4") auto
  then show "wf_chspec_primary20_chan (wf_chspec_primary80_chspec c) = wf_chspec_primary20_chan c"
    unfolding bp(5) bc(5) sizes by (rule arg_cong)
qed

lemma primary40_correct_80:
  assumes "wf_chspec_valid c" "CHSPEC_IS80 c"
  shows "contains c (wf_chspec_primary40_chspec c)" "CHSPEC_IS40 (wf_chspec_primary40_chspec c)"
    "wf_chspec_primary20_chan (wf_chspec_primary40_chspec c) = wf_chspec_primary20_chan c"
proof -
  obtain band k ch where c: "c = chspec_of band WL_CHANSPEC_BW_80 k ch" and f: "band \<in> bands" "k < 4" "6 < ch" "ch < 248"
    and ok: "centre_ok band WL_CHANSPEC_BW_80 (of_nat ch)"
    "centre_ok band WL_CHANSPEC_BW_40 (of_nat (ch - 4))" "centre_ok band WL_CHANSPEC_BW_40 (of_nat (ch + 4))"
    using assms by (rule valid_80)
  define p where "p = (if k < 2 then ch - 4 else ch + 4)"
  have eq: "wf_chspec_primary40_chspec c = chspec_of band WL_CHANSPEC_BW_40 (k mod 2) p"
    unfolding c p_def by (rule primary40_of_80) (use f in simp_all)
  have p: "p < 256" "centre_ok band WL_CHANSPEC_BW_40 (of_nat p)"
    unfolding p_def using f ok by auto
  have k: "k mod 2 < num_sb WL_CHANSPEC_BW_40" "k < num_sb WL_CHANSPEC_BW_80" "ch < 256"
    using f by simp_all
  note bp = built [OF eq f(1) bws_members(1) k(1) p] and bc = built [OF c f(1) bws_members(2) k(2,3) ok(1)]
  show "CHSPEC_IS40 (wf_chspec_primary40_chspec c)"
    by (rule bp(3))
  have "sub_bands (wf_chspec_primary40_chspec c) \<subseteq> sub_bands c"
  proof -
    have "(\<lambda>i. ch - 4 - 2 + 4 * i) ` {..<2} \<union> (\<lambda>i. ch + 4 - 2 + 4 * i) ` {..<2} = (\<lambda>i. ch - 6 + 4 * i) ` {..<4} \<and>
        (\<lambda>i. ch - 4 - 2 + 4 * i) ` {..<2} \<inter> (\<lambda>i. ch + 4 - 2 + 4 * i) ` {..<2} = {}"
      by (rule halves_sub_bands) (use f(3) in simp_all)
    then show ?thesis
      unfolding bp(4) bc(4) sizes p_def by (cases "k < 2") (simp_all only: if_True if_False, blast+)
  qed
  then show "contains c (wf_chspec_primary40_chspec c)"
    using bp(1,2) bc(2) by (auto simp: contains_def)
  have m: "k mod 2 = (if k < 2 then k else k - 2)" using f by (auto simp: mod_if)
  have "p - 2 + 4 * (k mod 2) = ch - 6 + 4 * k"
    unfolding p_def m using f(2,3) by (cases "k < 2") auto
  then show "wf_chspec_primary20_chan (wf_chspec_primary40_chspec c) = wf_chspec_primary20_chan c"
    unfolding bp(5) bc(5) sizes by (rule arg_cong)
qed

lemma primary40_correct_160:
  assumes "wf_chspec_valid c" "CHSPEC_IS160 c"
  shows "contains c (wf_chspec_primary40_chspec c)" "CHSPEC_IS40 (wf_chspec_primary40_chspec c)"
    "wf_chspec_primary20_chan (wf_chspec_primary40_chspec c) = wf_chspec_primary20_chan c"
proof -
  note p = primary80_correct [OF assms]
  have v: "wf_chspec_valid (wf_chspec_primary80_chspec c)" using p(1) by (simp add: contains_def)
  have "wf_chspec_primary40_chspec c = wf_chspec_primary40_chspec (wf_chspec_primary80_chspec c)"
    using p(2) assms(2) by (simp add: wf_chspec_primary40_chspec_def Let_def)
  note q = primary40_correct_80 [OF v p(2), folded this]
  show "contains c (wf_chspec_primary40_chspec c)" using p(1) q(1) by (auto simp: contains_def)
  show "CHSPEC_IS40 (wf_chspec_primary40_chspec c)" by (rule q(2))
  show "wf_chspec_primary20_chan (wf_chspec_primary40_chspec c) = wf_chspec_primary20_chan c" using p(3) q(3) by simp
qed

lemma primary20_ok_40:
  assumes "wf_chspec_valid c" "CHSPEC_IS40 c"
  shows "centre_ok (CHSPEC_BAND c) WL_CHANSPEC_BW_20 (ucast (wf_chspec_primary20_chan c))"
proof -
  obtain k x where k: "k < num_sb (CHSPEC_BW c)" and ok: "centre_ok (CHSPEC_BAND c) (CHSPEC_BW c) x"
    and x: "unat x < 256" and p: "unat (wf_chspec_primary20_chan c) = unat x - edge (CHSPEC_BW c) + 4 * k"
    using assms(1) by (rule valid_primary)
  have e: "2 < unat x" using centre_bounds(1) [OF ok] assms(2) by simp
  have "unat (ucast (wf_chspec_primary20_chan c) :: u32) = unat (if k = 0 then x - 2 else x + 2)"
    using p k e x unat_shift [of x 2] assms(2) by (auto simp: less_2_cases_iff)
  then have "ucast (wf_chspec_primary20_chan c) = (if k = 0 then x - 2 else x + 2)"
    by (simp only: word_unat_eq_iff)
  then show ?thesis using halves_40 [of "CHSPEC_BAND c" x] ok assms(2) by simp
qed

lemma primary20_ok:
  assumes "wf_chspec_valid c"
  shows "centre_ok (CHSPEC_BAND c) WL_CHANSPEC_BW_20 (ucast (wf_chspec_primary20_chan c))"
proof -
  have *: "centre_ok (CHSPEC_BAND c) WL_CHANSPEC_BW_20 (ucast (wf_chspec_primary20_chan c))"
    if "contains c d" "CHSPEC_IS40 d" "wf_chspec_primary20_chan d = wf_chspec_primary20_chan c" for d
    using primary20_ok_40 [of d] that by (simp add: contains_def)
  have "CHSPEC_BW c \<in> bws"
    using assms by (auto simp: wf_chspec_valid_def Let_def split: if_splits)
  then show ?thesis
  proof (elim insertE emptyE)
    assume bw: "CHSPEC_IS20 c"
    obtain k x where k: "k < num_sb (CHSPEC_BW c)" and ok: "centre_ok (CHSPEC_BAND c) (CHSPEC_BW c) x"
      and p: "unat (wf_chspec_primary20_chan c) = unat x - edge (CHSPEC_BW c) + 4 * k"
      using assms by (rule valid_primary)
    have "unat (ucast (wf_chspec_primary20_chan c) :: u32) = unat x" using p k bw by simp
    then have "ucast (wf_chspec_primary20_chan c) = x" by (simp only: word_unat_eq_iff)
    then show ?thesis using ok bw by simp
  next
    assume "CHSPEC_IS40 c"
    then show ?thesis by (rule primary20_ok_40 [OF assms])
  next
    assume "CHSPEC_IS80 c"
    from primary40_correct_80 [OF assms this] show ?thesis by (rule *)
  next
    assume "CHSPEC_IS160 c"
    from primary40_correct_160 [OF assms this] show ?thesis by (rule *)
  qed
qed

lemma primary20_chspec_correct:
  assumes "wf_chspec_valid c"
  shows "contains c (wf_chspec_primary20_chspec c)" "CHSPEC_IS20 (wf_chspec_primary20_chspec c)"
    "CHSPEC_CHANNEL (wf_chspec_primary20_chspec c) = wf_chspec_primary20_chan c"
proof -
  obtain k x where c: "c = chspec_of (CHSPEC_BAND c) (CHSPEC_BW c) k (unat x)"
    and f: "CHSPEC_BAND c \<in> bands" "CHSPEC_BW c \<in> bws" "k < num_sb (CHSPEC_BW c)" "unat x < 256"
    and x: "(x :: u32) = ucast (CHSPEC_CHANNEL c)"
    and p: "unat (wf_chspec_primary20_chan c) = unat x - edge (CHSPEC_BW c) + 4 * k"
    using assms by (rule valid_primary)
  let ?p = "unat (wf_chspec_primary20_chan c)"
  have d: "wf_chspec_primary20_chspec c = chspec_of (CHSPEC_BAND c) WL_CHANSPEC_BW_20 0 ?p"
  proof (cases "CHSPEC_IS20 c")
    case True
    then have "chspec_of (CHSPEC_BAND c) WL_CHANSPEC_BW_20 0 ?p = c" using p f(3) c by simp
    then show ?thesis using True by (simp add: wf_chspec_primary20_chspec_def)
  next
    case False
    then show ?thesis
      by (simp add: wf_chspec_primary20_chspec_def chspec_of_def or.assoc or.commute or.left_commute)
  qed
  have "of_nat ?p = (ucast (wf_chspec_primary20_chan c) :: u32)" by simp
  with primary20_ok [OF assms] have ok: "centre_ok (CHSPEC_BAND c) WL_CHANSPEC_BW_20 (of_nat ?p)" by simp
  note b = built [OF d f(1) bws_members(4) _ _ ok, simplified]
  show "CHSPEC_IS20 (wf_chspec_primary20_chspec c)" by (rule b(3))
  show "CHSPEC_CHANNEL (wf_chspec_primary20_chspec c) = wf_chspec_primary20_chan c"
    unfolding d using chspec_fields(4) [OF f(1), of WL_CHANSPEC_BW_20 0 ?p] by simp
  have "sub_bands (wf_chspec_primary20_chspec c) = {?p}" using b(4) by (simp add: lessThan_Suc)
  moreover have "?p \<in> sub_bands c" using p f(3) x by (auto simp: sub_bands_def)
  ultimately show "contains c (wf_chspec_primary20_chspec c)" using b(1,2) by (simp add: contains_def)
qed

end
