(* ===== verification/Chanspec_Foreach.thy ===== *)
theory Chanspec_Foreach
  imports Chanspec_Sub
begin

text \<open>
  The loops over the 20 MHz channels of a specification. They visit the sub-bands when the specification is at most 80 MHz
  wide and its channel is small enough for the 8 bit sum of the macro not to wrap.
\<close>

section \<open>The visited channels\<close>

definition upto80 :: "u16 \<Rightarrow> bool" where
  "upto80 c \<longleftrightarrow> wf_chspec_valid c \<and> \<not> CHSPEC_IS160 c \<and> CHSPEC_CHANNEL c < 252"

definition low :: "u16 \<Rightarrow> nat" where
  "low c = unat (CHSPEC_CHANNEL c) - edge (CHSPEC_BW c)"

lemma plain_fields:
  assumes "upto80 c"
  shows "CHSPEC_BW c = WL_CHANSPEC_BW_20 \<or> CHSPEC_BW c = WL_CHANSPEC_BW_40 \<or> CHSPEC_BW c = WL_CHANSPEC_BW_80"
    "edge (CHSPEC_BW c) < unat (CHSPEC_CHANNEL c)" "unat (CHSPEC_CHANNEL c) + edge (CHSPEC_BW c) < 252"
proof -
  have v: "wf_chspec_valid c" using assms by (simp add: upto80_def)
  obtain k x where ok: "centre_ok (CHSPEC_BAND c) (CHSPEC_BW c) x" and x: "x = ucast (CHSPEC_CHANNEL c)"
    and bw: "CHSPEC_BW c \<in> bws"
    using v by (rule valid_primary)
  show 3: "CHSPEC_BW c = WL_CHANSPEC_BW_20 \<or> CHSPEC_BW c = WL_CHANSPEC_BW_40 \<or> CHSPEC_BW c = WL_CHANSPEC_BW_80"
    using bw assms by (auto simp: upto80_def)
  show "edge (CHSPEC_BW c) < unat (CHSPEC_CHANNEL c)"
    using centre_bounds(1) [OF ok] x by simp
  have c: "unat (CHSPEC_CHANNEL c) < 252" using assms by (simp add: upto80_def word_less_nat_alt)
  show "unat (CHSPEC_CHANNEL c) + edge (CHSPEC_BW c) < 252"
  proof (cases "CHSPEC_IS20 c")
    case True
    then show ?thesis using c by simp
  next
    case False
    then show ?thesis using wide_top [OF _ ok] bw x by simp
  qed
qed

lemma low_bound: "upto80 c \<Longrightarrow> low c + 4 * num_sb (CHSPEC_BW c) < 256 \<and> 0 < low c"
  using plain_fields [of c] edge_num_sb [of "CHSPEC_BW c"] by (auto simp: low_def)

lemma sub_bands_low: "sub_bands c = (\<lambda>i. low c + 4 * i) ` {..<num_sb (CHSPEC_BW c)}"
  by (simp add: sub_bands_def low_def)

text \<open>The \<open>i\<close>-th channel, as the loop variable holds it.\<close>

definition sb_chan :: "u16 \<Rightarrow> nat \<Rightarrow> u8" where
  "sb_chan c i = of_nat (low c + 4 * i)"

lemma unat_sb_chan: "upto80 c \<Longrightarrow> i \<le> num_sb (CHSPEC_BW c) \<Longrightarrow> unat (sb_chan c i) = low c + 4 * i"
  unfolding sb_chan_def using low_bound [of c] by (intro unat_of_nat_u8) simp

lemma first_sb: "upto80 c \<Longrightarrow> ucast (wf_chspec_first_20_sb c) = sb_chan c 0"
proof -
  assume p: "upto80 c"
  let ?ch = "unat (CHSPEC_CHANNEL c)"
  have b: "?ch - d < 4294967296" for d using unat_u8_less [of "CHSPEC_CHANNEL c"] by (simp del: unat_u8_less)
  have "wf_chspec_first_20_sb c = of_nat (low c)"
    using plain_fields(1) [OF p]
  proof (elim disjE)
    assume "CHSPEC_IS20 c"
    then show ?thesis by (simp add: wf_chspec_first_20_sb_def low_def)
  next
    assume bw: "CHSPEC_IS40 c"
    then have "2 < ?ch" using plain_fields(2) [OF p] by simp
    then show ?thesis using bw by (simp add: wf_chspec_first_20_sb_def low_def LOWER_20_SB_def word_less_nat_alt of_nat_diff)
  next
    assume bw: "CHSPEC_IS80 c"
    then have "6 < ?ch" using plain_fields(2) [OF p] by simp
    then show ?thesis using bw by (simp add: wf_chspec_first_20_sb_def low_def LL_20_SB_def word_less_nat_alt of_nat_diff)
  qed
  moreover have "low c < 4294967296" using b by (simp add: low_def)
  ultimately show ?thesis by (simp add: ucast_nat_u8 sb_chan_def)
qed

lemma last_sb: "upto80 c \<Longrightarrow> CH_LAST_20_SB c = sb_chan c (num_sb (CHSPEC_BW c) - 1)"
proof -
  assume p: "upto80 c"
  let ?ch = "unat (CHSPEC_CHANNEL c)"
  have "low c + 4 * (num_sb (CHSPEC_BW c) - 1) = ?ch + edge (CHSPEC_BW c)"
    using plain_fields(2) [OF p] edge_num_sb [of "CHSPEC_BW c"] by (simp add: low_def)
  moreover have "CH_LAST_20_SB c = of_nat (?ch + edge (CHSPEC_BW c))"
    using plain_fields(1) [OF p]
  proof (elim disjE)
    assume "CHSPEC_IS20 c"
    then show ?thesis by (simp add: CH_LAST_20_SB_def)
  next
    assume bw: "CHSPEC_IS40 c"
    then have "?ch < 250" using plain_fields(3) [OF p] by simp
    have "CHSPEC_CHANNEL c < 252" using \<open>?ch < 250\<close> plain_fields(3) [OF p] by (simp add: word_less_nat_alt)
    then have "CH_LAST_20_SB c = ucast (ucast (CHSPEC_CHANNEL c) + 2 :: u32)" using bw by (simp add: CH_LAST_20_SB_def UPPER_20_SB_def)
    also have "(ucast (CHSPEC_CHANNEL c) + 2 :: u32) = of_nat (?ch + 2)" by simp
    also have "ucast \<dots> = (of_nat (?ch + 2) :: u8)" by (rule ucast_nat_u8) (use \<open>?ch < 250\<close> in simp)
    finally show ?thesis by (simp only: bw sizes)
  next
    assume bw: "CHSPEC_IS80 c"
    then have "?ch < 246" using plain_fields(3) [OF p] by simp
    have "CHSPEC_CHANNEL c < 248" using \<open>?ch < 246\<close> plain_fields(3) [OF p] by (simp add: word_less_nat_alt)
    then have "CH_LAST_20_SB c = ucast (ucast (CHSPEC_CHANNEL c) + 6 :: u32)" using bw by (simp add: CH_LAST_20_SB_def UU_20_SB_def)
    also have "(ucast (CHSPEC_CHANNEL c) + 6 :: u32) = of_nat (?ch + 6)" by simp
    also have "ucast \<dots> = (of_nat (?ch + 6) :: u8)" by (rule ucast_nat_u8) (use \<open>?ch < 246\<close> in simp)
    finally show ?thesis by (simp only: bw sizes)
  qed
  ultimately show ?thesis by (simp only: sb_chan_def)
qed

lemma next_sb:
  assumes "upto80 c" "i < num_sb (CHSPEC_BW c)"
  shows "CH_NEXT_20_SB c (sb_chan c i) = (if Suc i < num_sb (CHSPEC_BW c) then sb_chan c (Suc i) else 0)"
proof -
  let ?n = "num_sb (CHSPEC_BW c)"
  have "sb_chan c i + 4 = sb_chan c (Suc i)" by (simp add: sb_chan_def)
  moreover have "sb_chan c (?n - 1) < sb_chan c (Suc i) \<longleftrightarrow> \<not> Suc i < ?n"
    using assms(2) unat_sb_chan [OF assms(1), of "?n - 1"] unat_sb_chan [OF assms(1), of "Suc i"]
    by (auto simp: word_less_nat_alt)
  ultimately show ?thesis by (simp add: CH_NEXT_20_SB_def last_sb [OF assms(1)])
qed

lemma sb_nonzero: "upto80 c \<Longrightarrow> i < num_sb (CHSPEC_BW c) \<Longrightarrow> sb_chan c i \<noteq> 0"
  using low_bound [of c] unat_sb_chan [of c i] by auto

lemma ex_from_Suc: "\<not> P i \<Longrightarrow> (\<exists>j. i \<le> j \<and> j < (n :: nat) \<and> P j) \<longleftrightarrow> (\<exists>j. Suc i \<le> j \<and> j < n \<and> P j)"
  by (metis Suc_leD Suc_leI le_neq_implies_less)

text \<open>From the \<open>i\<close>-th channel on the loops see the channels \<open>i\<close>, \<open>i + 1\<close> and so on.\<close>

lemma foreach_from:
  assumes "upto80 c" "i < num_sb (CHSPEC_BW c)"
  shows "foreach_20_sb c (sb_chan c i) = Some (map (sb_chan c) [i..<num_sb (CHSPEC_BW c)])"
  using assms(2)
proof (induction "num_sb (CHSPEC_BW c) - i" arbitrary: i)
  case (Suc d)
  have step: "foreach_20_sb c (sb_chan c i) =
      foreach_20_sb c (CH_NEXT_20_SB c (sb_chan c i)) \<bind> (\<lambda>chs. Some (sb_chan c i # chs))"
    using sb_nonzero [OF assms(1) Suc.prems] by (subst foreach_20_sb.simps) simp
  show ?case
  proof (cases "Suc i < num_sb (CHSPEC_BW c)")
    case True
    with Suc have "foreach_20_sb c (sb_chan c (Suc i)) = Some (map (sb_chan c) [Suc i..<num_sb (CHSPEC_BW c)])" by simp
    then show ?thesis unfolding step next_sb [OF assms(1) Suc.prems] using True by (simp add: upt_conv_Cons)
  next
    case False
    then have "num_sb (CHSPEC_BW c) = Suc i" using Suc.prems by simp
    moreover have "foreach_20_sb c 0 = Some []" by (subst foreach_20_sb.simps) simp
    ultimately show ?thesis unfolding step next_sb [OF assms(1) Suc.prems] by simp
  qed
qed simp

lemma get_all_sb: "upto80 c \<Longrightarrow> GET_ALL_SB c = Some (map (sb_chan c) [0..<num_sb (CHSPEC_BW c)])"
  using foreach_from [of c 0] num_sb_pos [of "CHSPEC_BW c"] first_sb [of c] by (simp add: GET_ALL_SB_def)

definition near :: "u8 \<Rightarrow> u8 \<Rightarrow> bool" where
  "near a b \<longleftrightarrow> \<bar>uint a - uint b\<bar> < 4"

lemma inner_from:
  assumes "upto80 c" "i < num_sb (CHSPEC_BW c)"
  shows "overlap_inner a c (sb_chan c i) = Some (\<exists>j. i \<le> j \<and> j < num_sb (CHSPEC_BW c) \<and> near a (sb_chan c j))"
  using assms(2)
proof (induction "num_sb (CHSPEC_BW c) - i" arbitrary: i)
  case (Suc d)
  have step: "overlap_inner a c (sb_chan c i) =
      (if near a (sb_chan c i) then Some True else overlap_inner a c (CH_NEXT_20_SB c (sb_chan c i)))"
    using sb_nonzero [OF assms(1) Suc.prems] by (subst overlap_inner.simps) (simp add: near_def)
  show ?case
  proof (cases "near a (sb_chan c i)")
    case True
    then show ?thesis unfolding step using Suc.prems by auto
  next
    case nn: False
    note split = ex_from_Suc [of "\<lambda>j. near a (sb_chan c j)", OF nn]
    show ?thesis
    proof (cases "Suc i < num_sb (CHSPEC_BW c)")
      case True
      with Suc have "overlap_inner a c (sb_chan c (Suc i)) =
          Some (\<exists>j. Suc i \<le> j \<and> j < num_sb (CHSPEC_BW c) \<and> near a (sb_chan c j))" by simp
      then show ?thesis unfolding step split next_sb [OF assms(1) Suc.prems] using True nn by simp
    next
      case False
      have "overlap_inner a c 0 = Some False" by (subst overlap_inner.simps) simp
      then show ?thesis unfolding step split next_sb [OF assms(1) Suc.prems] using False nn by auto
    qed
  qed
qed simp

lemma outer_from:
  assumes "upto80 c" "upto80 d" "i < num_sb (CHSPEC_BW c)"
  shows "overlap_outer c d (sb_chan c i) =
    Some (\<exists>j. i \<le> j \<and> j < num_sb (CHSPEC_BW c) \<and> (\<exists>k < num_sb (CHSPEC_BW d). near (sb_chan c j) (sb_chan d k)))"
  using assms(3)
proof (induction "num_sb (CHSPEC_BW c) - i" arbitrary: i)
  case (Suc n)
  let ?hit = "\<lambda>j. \<exists>k < num_sb (CHSPEC_BW d). near (sb_chan c j) (sb_chan d k)"
  have inner: "overlap_inner (sb_chan c i) d (ucast (wf_chspec_first_20_sb d)) = Some (?hit i)"
    using inner_from [OF assms(2) num_sb_pos, of "sb_chan c i"] first_sb [OF assms(2)] by simp
  have step: "overlap_outer c d (sb_chan c i) =
      (if ?hit i then Some True else overlap_outer c d (CH_NEXT_20_SB c (sb_chan c i)))"
    using sb_nonzero [OF assms(1) Suc.prems] by (subst overlap_outer.simps) (simp add: inner)
  show ?case
  proof (cases "?hit i")
    case True
    then show ?thesis unfolding step using Suc.prems by auto
  next
    case nn: False
    note split = ex_from_Suc [of ?hit, OF nn]
    show ?thesis
    proof (cases "Suc i < num_sb (CHSPEC_BW c)")
      case True
      with Suc have "overlap_outer c d (sb_chan c (Suc i)) =
          Some (\<exists>j. Suc i \<le> j \<and> j < num_sb (CHSPEC_BW c) \<and> ?hit j)" by simp
      then show ?thesis unfolding step split next_sb [OF assms(1) Suc.prems] unfolding if_not_P [OF nn] using True by simp
    next
      case False
      have "overlap_outer c d 0 = Some False" by (subst overlap_outer.simps) simp
      then show ?thesis unfolding step split next_sb [OF assms(1) Suc.prems] unfolding if_not_P [OF nn] using False by auto
    qed
  qed
qed simp

lemma overlap_plain:
  assumes "upto80 c" "upto80 d"
  shows "wf_chspec_overlap c d =
    Some (CHSPEC_BAND c = CHSPEC_BAND d \<and> (\<exists>a \<in> sub_bands c. \<exists>b \<in> sub_bands d. \<bar>int a - int b\<bar> < 4))"
proof -
  have "near (sb_chan c j) (sb_chan d k) \<longleftrightarrow> \<bar>int (low c + 4 * j) - int (low d + 4 * k)\<bar> < 4"
    if "j < num_sb (CHSPEC_BW c)" "k < num_sb (CHSPEC_BW d)" for j k
    using unat_sb_chan [OF assms(1), of j] unat_sb_chan [OF assms(2), of k] that
    by (simp only: near_def uint_nat less_imp_le)
  then have "(\<exists>j. 0 \<le> j \<and> j < num_sb (CHSPEC_BW c) \<and> (\<exists>k < num_sb (CHSPEC_BW d). near (sb_chan c j) (sb_chan d k))) \<longleftrightarrow>
      (\<exists>a \<in> sub_bands c. \<exists>b \<in> sub_bands d. \<bar>int a - int b\<bar> < 4)"
    unfolding sub_bands_low by blast
  then show ?thesis
    using outer_from [OF assms num_sb_pos] first_sb [OF assms(1)] by (simp add: wf_chspec_overlap_def)
qed

lemma get_all_sb_sorted:
  assumes "upto80 c"
  shows "\<exists>sbs. GET_ALL_SB c = Some sbs \<and> map unat sbs = sorted_list_of_set (sub_bands c)"
proof -
  let ?n = "num_sb (CHSPEC_BW c)"
  have "map unat (map (sb_chan c) [0..<?n]) = map (\<lambda>i. low c + 4 * i) [0..<?n]"
    using unat_sb_chan [OF assms] by simp
  also have "\<dots> = sorted_list_of_set (set (map (\<lambda>i. low c + 4 * i) [0..<?n]))"
    by (rule sorted_list_of_set.idem_if_sorted_distinct [symmetric])
      (auto simp: distinct_map inj_on_def sorted_iff_nth_mono)
  also have "set (map (\<lambda>i. low c + 4 * i) [0..<?n]) = sub_bands c"
    unfolding sub_bands_low by auto
  finally show ?thesis using get_all_sb [OF assms] by blast
qed

text \<open>The two exceptions: a 160 MHz specification is taken for its centre channel alone, and the loop on the last 6 GHz
  channel wraps round to the channels below 4.\<close>

lemma overlap_160_missed: "wf_chspec_valid 0xe832 \<and> contains 0xe832 0xd024 \<and> wf_chspec_overlap 0xe832 0xd024 = Some False"
  by code_simp

lemma overlap_253_wraps: "wf_chspec_valid 0x50fd \<and> wf_chspec_valid 0x5001 \<and> wf_chspec_overlap 0x50fd 0x5001 = Some True"
  by code_simp

text \<open>On that channel the plain loop, which nothing stops early, does not end.\<close>

lemma next_253:
  assumes "unat ch mod 4 = 1"
  shows "CH_NEXT_20_SB 0x50fd ch = ch + 4 \<and> ch \<noteq> 0 \<and> unat (ch + 4) mod 4 = 1"
proof -
  have last: "CH_LAST_20_SB 0x50fd = 253" by code_simp
  have u: "unat (ch + 4) = (unat ch + 4) mod 256" by (simp add: unat_word_ariths)
  have m: "unat (ch + 4) mod 4 = 1" unfolding u using assms by (simp add: mod_mod_cancel)
  define n where "n = unat (ch + 4)"
  have "n < 256" "n mod 4 = 1" unfolding n_def using m unat_u8_less by auto
  then have "n \<le> 253" by presburger
  then have "\<not> 253 < ch + 4" by (simp add: word_less_nat_alt n_def)
  then show ?thesis using m assms by (auto simp: CH_NEXT_20_SB_def last)
qed

lemma foreach_253:
  assumes "foreach_20_sb c ch = Some chs"
  shows "c = 0x50fd \<longrightarrow> unat ch mod 4 \<noteq> 1"
proof (rule foreach_20_sb.raw_induct [OF _ assms])
  fix foreach c ch chs
  assume ih: "\<And>c ch chs. foreach c ch = Some chs \<Longrightarrow> c = (0x50fd :: u16) \<longrightarrow> unat (ch :: u8) mod 4 \<noteq> 1"
    and eq: "(if ch = 0 then Some [] else do { chs \<leftarrow> foreach c (CH_NEXT_20_SB c ch); Some (ch # chs) }) = Some chs"
  show "c = 0x50fd \<longrightarrow> unat ch mod 4 \<noteq> 1"
  proof (intro impI notI)
    assume c: "c = 0x50fd" and ch: "unat ch mod 4 = 1"
    note n = next_253 [OF ch]
    then obtain chs' where "foreach c (ch + 4) = Some chs'" using eq c by (auto split: bind_splits)
    from ih [OF this] c n show False by simp
  qed
qed

lemma get_all_sb_253: "GET_ALL_SB 0x50fd = None"
proof -
  have "ucast (wf_chspec_first_20_sb 0x50fd) = (253 :: u8)" by code_simp
  then show ?thesis using foreach_253 [of "0x50fd" 253] by (cases "GET_ALL_SB 0x50fd") (auto simp: GET_ALL_SB_def)
qed

end
