(* ===== verification/Chanspec_Freq.thy ===== *)
theory Chanspec_Freq
  imports Chanspec_Sub
begin

text \<open>Channel numbers and frequencies.\<close>

text \<open>Away from the two odd channels a frequency is the base plus five times the channel; the code's checks find it again.\<close>

lemma mhz_of_channel:
  assumes "0 < sf" "unat sf < 4294960000" "1 \<le> n" "n \<le> 253" "sf \<noteq> WF_CHAN_FACTOR_6_G \<Longrightarrow> n \<le> 200"
    "sf = WF_CHAN_FACTOR_2_4_G \<Longrightarrow> n \<le> 13" "sf = WF_CHAN_FACTOR_6_G \<Longrightarrow> n \<noteq> 2"
  shows "wf_mhz2channel (of_nat (n * 5 + unat sf div 2)) sf = int n"
proof -
  define f :: u32 where "f = of_nat (n * 5 + unat sf div 2)"
  have uf: "unat f = n * 5 + unat sf div 2" unfolding f_def using assms(2,4) by (intro unat_of_nat_u32) simp
  have base: "unat (sf div 2) = unat sf div 2" by (simp add: unat_div)
  have le: "sf div 2 \<le> f" by (simp only: word_le_nat_alt uf base)
  have "unat (f - sf div 2) = n * 5" unfolding unat_sub [OF le] uf base by simp
  then have off: "sint (f - sf div 2) = int (n * 5)" using assms(4) by (subst sint_small) simp_all
  have ch: "sgn (int (n * 5)) * (\<bar>int (n * 5)\<bar> div 5) = int n" using assms(3) by (simp add: sgn_if)
  have w: "\<not> (word_of_int (int n) :: u32) > 253"
    using assms(4) by (simp add: word_less_nat_alt unat_of_nat_u32)
  have no14: "\<not> (f = 2484 \<and> sf = WF_CHAN_FACTOR_2_4_G)"
  proof
    assume "f = 2484 \<and> sf = WF_CHAN_FACTOR_2_4_G"
    then have "unat f = 2484" "unat sf = 4814" by simp_all
    then show False unfolding uf by presburger
  qed
  have no2: "\<not> (f = 5935 \<and> sf = WF_CHAN_FACTOR_6_G)" "\<not> (f = 5960 \<and> sf = WF_CHAN_FACTOR_6_G)"
  proof -
    show "\<not> (f = 5935 \<and> sf = WF_CHAN_FACTOR_6_G)"
    proof
      assume "f = 5935 \<and> sf = WF_CHAN_FACTOR_6_G"
      then have "unat f = 5935" "unat sf = 11900" by simp_all
      then show False unfolding uf by presburger
    qed
    show "\<not> (f = 5960 \<and> sf = WF_CHAN_FACTOR_6_G)"
    proof
      assume a: "f = 5960 \<and> sf = WF_CHAN_FACTOR_6_G"
      then have "unat f = 5960" "unat sf = 11900" by simp_all
      then have "n = 2" unfolding uf by presburger
      then show False using assms(7) a by blast
    qed
  qed
  have sf: "(if sf = 0 then x else sf) = sf" for x using assms(1) by auto
  have "wf_mhz2channel f sf = (if sf = WF_CHAN_FACTOR_2_4_G then if 13 < int n then - 1 else int n
      else if sf = WF_CHAN_FACTOR_6_G then int n else if 200 < int n then - 1 else int n)"
    unfolding wf_mhz2channel_def sf Let_def using no14 no2 le w by (simp only: off ch not_less [symmetric]) simp
  moreover have "\<not> (sf = WF_CHAN_FACTOR_2_4_G \<and> 13 < n)" "\<not> (sf \<noteq> WF_CHAN_FACTOR_6_G \<and> 200 < n)"
    using assms(5,6) by (meson not_less)+
  ultimately show ?thesis unfolding f_def [symmetric] by auto
qed

lemma channel_of_mhz:
  assumes "0 < sf" "unat sf < 4294960000" "wf_channel2mhz ch sf \<noteq> - 1"
  shows "wf_mhz2channel (word_of_int (wf_channel2mhz ch sf)) sf = int (unat ch)"
proof -
  have nc: "\<not> ((sf = WF_CHAN_FACTOR_2_4_G \<and> (ch < 1 \<or> ch > 14)) \<or> (sf = WF_CHAN_FACTOR_6_G \<and> (ch < 1 \<or> ch > 253))
      \<or> (sf \<noteq> WF_CHAN_FACTOR_6_G \<and> (ch < 1 \<or> ch > 200)))" (is "\<not> ?bad")
  proof
    assume ?bad
    from assms(3) [unfolded wf_channel2mhz_def, unfolded if_P [OF this]] show False by simp
  qed
  then have r: "ch \<noteq> 0" and r14: "sf = WF_CHAN_FACTOR_2_4_G \<Longrightarrow> ch \<le> 14" and r253: "sf = WF_CHAN_FACTOR_6_G \<Longrightarrow> ch \<le> 253"
    and r200: "sf \<noteq> WF_CHAN_FACTOR_6_G \<Longrightarrow> ch \<le> 200"
    by (auto simp: not_less)
  show ?thesis
  proof (cases "sf = WF_CHAN_FACTOR_2_4_G \<and> ch = 14 \<or> sf = WF_CHAN_FACTOR_6_G \<and> ch = 2")
    case True
    then show ?thesis by (elim disjE) (simp_all add: wf_channel2mhz_def wf_mhz2channel_def)
  next
    case False
    let ?n = "unat ch"
    have n: "1 \<le> ?n" "?n \<le> 253" "sf \<noteq> WF_CHAN_FACTOR_6_G \<Longrightarrow> ?n \<le> 200"
      using r r253 r200 by (cases "sf = WF_CHAN_FACTOR_6_G"; simp add: word_le_nat_alt Suc_le_eq unat_gt_0)+
    have n13: "sf = WF_CHAN_FACTOR_2_4_G \<Longrightarrow> ?n \<le> 13" and n2: "sf = WF_CHAN_FACTOR_6_G \<Longrightarrow> ?n \<noteq> 2"
      using r14 False by (auto simp: word_le_nat_alt word_unat_eq_iff)
    have "unat (ch * 5 + sf div 2) = ?n * 5 + unat sf div 2"
      using n assms(2) by (simp add: unat_word_ariths unat_div)
    then have w: "ch * 5 + sf div 2 = of_nat (?n * 5 + unat sf div 2)"
      by (metis of_nat_unat ucast_id)
    have "wf_channel2mhz ch sf = sint (ch * 5 + sf div 2)"
      unfolding wf_channel2mhz_def if_not_P [OF nc] using False by auto
    then have "(word_of_int (wf_channel2mhz ch sf) :: u32) = of_nat (?n * 5 + unat sf div 2)"
      using w by simp
    then show ?thesis using mhz_of_channel [OF assms(1,2) n n13 n2] by simp
  qed
qed

text \<open>The base frequency of a band, and that band and primary channel are found from the frequency alone.\<close>

definition factor_of :: "u16 \<Rightarrow> u32" where
  "factor_of band = (if band = WL_CHANSPEC_BAND_2G then WF_CHAN_FACTOR_2_4_G
     else if band = WL_CHANSPEC_BAND_5G then WF_CHAN_FACTOR_5_G else WF_CHAN_FACTOR_6_G)"

definition default_factor :: "u32 \<Rightarrow> u32" where
  "default_factor freq = (if freq \<ge> 2400 \<and> freq \<le> 2500 then WF_CHAN_FACTOR_2_4_G
     else if freq \<ge> 5000 \<and> freq < 5935 then WF_CHAN_FACTOR_5_G
     else if freq \<ge> 5935 \<and> freq \<le> 7205 then WF_CHAN_FACTOR_6_G else 0)"

lemma mhz2channel_default: "default_factor f \<noteq> 0 \<Longrightarrow> wf_mhz2channel f 0 = wf_mhz2channel f (default_factor f)"
  unfolding wf_mhz2channel_def default_factor_def [symmetric] by simp

lemma valid20_range:
  assumes "centre_ok band WL_CHANSPEC_BW_20 x"
  shows "band = WL_CHANSPEC_BAND_2G \<and> 1 \<le> x \<and> x \<le> 14 \<or> band = WL_CHANSPEC_BAND_5G \<and> 34 \<le> x \<and> x \<le> 177
    \<or> band = WL_CHANSPEC_BAND_6G \<and> 1 \<le> x \<and> x \<le> 253"
  using assms by (auto simp: centre_ok_def wf_valid_20MHz_chan_def wf_5g_40m_chans_def LOWER_20_SB_def UPPER_20_SB_def
      split: if_splits)

lemma mhz_value:
  assumes "unat sf < 4294960000" "unat x \<le> 253" "1 \<le> unat x" "sf = WF_CHAN_FACTOR_2_4_G \<Longrightarrow> unat x \<le> 14"
    "sf \<noteq> WF_CHAN_FACTOR_6_G \<Longrightarrow> unat x \<le> 200"
  shows "wf_channel2mhz x sf = (if sf = WF_CHAN_FACTOR_2_4_G \<and> x = 14 then 2484 else if sf = WF_CHAN_FACTOR_6_G \<and> x = 2 then 5935
    else int (unat x * 5 + unat sf div 2))"
proof -
  have "unat (x * 5 + sf div 2) = unat x * 5 + unat sf div 2"
    using assms(1,2) by (simp add: unat_word_ariths unat_div)
  then have "sint (x * 5 + sf div 2) = int (unat x * 5 + unat sf div 2)"
    using assms(1,2) by (subst sint_small) simp_all
  moreover have "\<not> x < 1" "x > 14 \<longleftrightarrow> unat x > 14" "x > 253 \<longleftrightarrow> unat x > 253" "x > 200 \<longleftrightarrow> unat x > 200"
    using assms(3) by (simp_all add: word_less_nat_alt del: word_less_1)
  moreover have "\<not> (sf = WF_CHAN_FACTOR_2_4_G \<and> unat x > 14)" "\<not> (sf \<noteq> WF_CHAN_FACTOR_6_G \<and> unat x > 200)"
    using assms(4,5) by (meson not_less)+
  ultimately show ?thesis
    using assms(2) unfolding wf_channel2mhz_def by (simp only:) auto
qed

text \<open>Channel 253 of the 6 GHz band is centred at 7215 MHz, above the 7205 MHz the search accepts.\<close>

lemma channel_253_lost:
  "wf_chspec_valid 0x50fd" "wf_channel2mhz 253 WF_CHAN_FACTOR_6_G = 7215" "wf_mhz2chanspec_band 7215 = INVCHANSPEC"
  "wf_mhz2channel 7215 0 = - 1" "wf_mhz2channel 7215 WF_CHAN_FACTOR_6_G = 253"
  by code_simp+

lemma valid20_frequency:
  assumes "centre_ok band WL_CHANSPEC_BW_20 x" "x \<noteq> 253"
  shows "0 \<le> wf_channel2mhz x (factor_of band)"
    "wf_mhz2chanspec_band (word_of_int (wf_channel2mhz x (factor_of band))) = band"
    "wf_mhz2channel (word_of_int (wf_channel2mhz x (factor_of band))) 0 = int (unat x)"
proof -
  let ?f = "wf_channel2mhz x (factor_of band)"
  have v: "0 \<le> ?f \<and> default_factor (word_of_int ?f) = factor_of band \<and> wf_mhz2chanspec_band (word_of_int ?f) = band"
    using valid20_range [OF assms(1)]
  proof (elim disjE conjE)
    assume b: "band = WL_CHANSPEC_BAND_2G" and "1 \<le> x" "x \<le> 14"
    then have x: "1 \<le> unat x" "unat x \<le> 14" by (simp_all add: word_le_nat_alt)
    have "?f = (if x = 14 then 2484 else int (unat x * 5 + 2407))"
      using mhz_value [of WF_CHAN_FACTOR_2_4_G x] x by (simp add: b factor_of_def)
    then show ?thesis using x
      by (auto simp: b factor_of_def default_factor_def wf_mhz2chanspec_band_def word_le_nat_alt unat_of_nat_u32
          simp del: of_nat_add of_nat_mult)
  next
    assume b: "band = WL_CHANSPEC_BAND_5G" and "34 \<le> x" "x \<le> 177"
    then have x: "34 \<le> unat x" "unat x \<le> 177" by (simp_all add: word_le_nat_alt)
    have "?f = int (unat x * 5 + 5000)"
      using mhz_value [of WF_CHAN_FACTOR_5_G x] x by (simp add: b factor_of_def)
    then show ?thesis using x
      by (auto simp: b factor_of_def default_factor_def wf_mhz2chanspec_band_def word_le_nat_alt word_less_nat_alt unat_of_nat_u32
          simp del: of_nat_add of_nat_mult)
  next
    assume b: "band = WL_CHANSPEC_BAND_6G" and "1 \<le> x" "x \<le> 253"
    then have x: "1 \<le> unat x" "unat x \<le> 253" by (simp_all add: word_le_nat_alt)
    have "wf_valid_20MHz_chan x WL_CHANSPEC_BAND_6G" using assms(1) b by (simp add: centre_ok_def)
    then have "(x - 1) mod 4 = 0 \<or> x = 2" by (simp add: wf_valid_20MHz_chan_def)
    moreover have "\<not> ((252 - 1 :: u32) mod 4 = 0 \<or> (252 :: u32) = 2)" by code_simp
    ultimately have "x \<noteq> 252" by blast
    then have le: "unat x \<le> 251" using x(2) assms(2) by (auto simp: word_unat_eq_iff)
    have "?f = (if x = 2 then 5935 else int (unat x * 5 + 5950))"
      using mhz_value [of WF_CHAN_FACTOR_6_G x] x by (simp add: b factor_of_def)
    then show ?thesis using x le
      by (auto simp: b factor_of_def default_factor_def wf_mhz2chanspec_band_def word_le_nat_alt word_less_nat_alt unat_of_nat_u32
          simp del: of_nat_add of_nat_mult)
  qed
  then show "0 \<le> ?f" "wf_mhz2chanspec_band (word_of_int ?f) = band" by blast+
  have nz: "0 < factor_of band" "unat (factor_of band) < 4294960000" by (simp_all add: factor_of_def)
  then have "wf_mhz2channel (word_of_int ?f) 0 = wf_mhz2channel (word_of_int ?f) (factor_of band)"
    using mhz2channel_default [of "word_of_int ?f"] v by auto
  also have "\<dots> = int (unat x)" by (rule channel_of_mhz [OF nz]) (use v in auto)
  finally show "wf_mhz2channel (word_of_int ?f) 0 = int (unat x)" .
qed

end
