(* ===== verification/Chanspec_Iter.thy ===== *)
theory Chanspec_Iter
  imports Chanspec
begin

text \<open>
  The iterator \<open>wf_chanspec_iter_*\<close> of \<open>bcmwifi_channels.c\<close> over the specifications of a band and a bandwidth, as
  functions on its state record, and the client loop the header file documents.
\<close>

section \<open>State and helpers\<close>

datatype wf_iter_state = WF_ITER_INIT | WF_ITER_RUN | WF_ITER_DONE

record wf_chanspec_iter_t =
  it_state :: wf_iter_state
  it_chanspec :: u16
  it_band :: u16
  it_bw :: u16
  range_start :: u8
  range_end :: u8
  range_id :: u8

abbreviation RANGE_ID_INVAL :: u8 where "RANGE_ID_INVAL \<equiv> 0xFF"

definition wf_5g_iter_ranges :: "(u8 \<times> u8) list" where
  "wf_5g_iter_ranges = [(36, 64), (100, 144), (149, 165)]"

text \<open>\<open>iter\<close> is not \<open>NULL\<close>; the result is the record and the value returned.\<close>

definition wf_chanspec_iter_init :: "u16 \<Rightarrow> u16 \<Rightarrow> wf_chanspec_iter_t \<times> bool" where
  "wf_chanspec_iter_init band bw =
     (let iter = \<lparr>it_state = WF_ITER_DONE, it_chanspec = INVCHANSPEC, it_band = 0, it_bw = 0,
                  range_start = 0, range_end = 0, range_id = 0\<rparr>
      in if band \<noteq> WL_CHANSPEC_BAND_2G \<and> band \<noteq> WL_CHANSPEC_BAND_5G \<and> band \<noteq> WL_CHANSPEC_BAND_6G then (iter, False)
      else if \<not> (bw = INVCHANSPEC \<or> bw = WL_CHANSPEC_BW_20 \<or> bw = WL_CHANSPEC_BW_40
                 \<or> (band \<noteq> WL_CHANSPEC_BAND_2G \<and> (bw = WL_CHANSPEC_BW_80 \<or> bw = WL_CHANSPEC_BW_160)))
      then (iter, False)
      else (iter\<lparr>it_state := WF_ITER_INIT, it_band := band, it_bw := bw, range_id := RANGE_ID_INVAL\<rparr>, True))"

definition wf_iter_next_bw :: "u16 \<Rightarrow> u16" where
  "wf_iter_next_bw bw =
     (if bw = WL_CHANSPEC_BW_20 then WL_CHANSPEC_BW_40
      else if bw = WL_CHANSPEC_BW_40 then WL_CHANSPEC_BW_80
      else if bw = WL_CHANSPEC_BW_80 then WL_CHANSPEC_BW_160
      else INVCHANSPEC)"

definition wf_chanspec_iter_next_5g_range :: "wf_chanspec_iter_t \<Rightarrow> u16 \<Rightarrow> wf_chanspec_iter_t \<times> bool" where
  "wf_chanspec_iter_next_5g_range iter bw =
     (let rid = (if range_id iter = RANGE_ID_INVAL then 0 else range_id iter + 1)
      in if bw = WL_CHANSPEC_BW_20
      then if unat rid < length wf_5g_iter_ranges
           then (iter\<lparr>range_id := rid, range_start := fst (wf_5g_iter_ranges ! unat rid),
                      range_end := snd (wf_5g_iter_ranges ! unat rid)\<rparr>, True)
           else (iter, False)
      else if bw \<noteq> WL_CHANSPEC_BW_40 \<and> bw \<noteq> WL_CHANSPEC_BW_80 \<and> bw \<noteq> WL_CHANSPEC_BW_160 then (iter, False)
      else let channels = (if bw = WL_CHANSPEC_BW_40 then wf_5g_40m_chans
                           else if bw = WL_CHANSPEC_BW_80 then wf_5g_80m_chans
                           else wf_5g_160m_chans)
      in if unat rid < length channels
         then let ch = channels ! unat rid; offset = center_chan_to_edge bw
              in (iter\<lparr>range_id := rid, range_start := ucast (ucast ch - offset), range_end := ucast (ucast ch + offset)\<rparr>, True)
         else (iter, False))"

definition wf_chanspec_iter_6g_range_init :: "wf_chanspec_iter_t \<Rightarrow> u16 \<Rightarrow> wf_chanspec_iter_t" where
  "wf_chanspec_iter_6g_range_init iter bw =
     (if bw = WL_CHANSPEC_BW_20 \<or> bw = WL_CHANSPEC_BW_40 \<or> bw = WL_CHANSPEC_BW_80 \<or> bw = WL_CHANSPEC_BW_160
      then iter\<lparr>range_start := 1, range_end := 253\<rparr> else iter)"

definition wf_chanspec_iter_firstchan :: "wf_chanspec_iter_t \<Rightarrow> wf_chanspec_iter_t" where
  "wf_chanspec_iter_firstchan iter =
     (let band = it_band iter;
          bw = (if it_bw iter = INVCHANSPEC then WL_CHANSPEC_BW_20 else it_bw iter)
      in if band = WL_CHANSPEC_BAND_2G
      then iter\<lparr>it_chanspec := (if bw = WL_CHANSPEC_BW_20 then wf_create_20MHz_chspec 1 band
                               else WL_CHANSPEC_BAND_2G OR bw OR WL_CHANSPEC_CTL_SB_L OR 3)\<rparr>
      else let iter = (if band = WL_CHANSPEC_BAND_5G then fst (wf_chanspec_iter_next_5g_range iter bw)
                       else wf_chanspec_iter_6g_range_init iter bw)
      in iter\<lparr>it_chanspec := wf_create_chspec_from_primary (ucast (range_start iter)) bw band\<rparr>)"

section \<open>The three bands\<close>

definition wf_chanspec_iter_next_2g :: "wf_chanspec_iter_t \<Rightarrow> wf_chanspec_iter_t \<times> bool" where
  "wf_chanspec_iter_next_2g iter =
     (let c = it_chanspec iter; ch = CHSPEC_CHANNEL c;
          (iter, c') =
            (if CHSPEC_IS20 c
             then if ch < 14 then (iter, wf_create_20MHz_chspec (ucast (ch + 1)) WL_CHANSPEC_BAND_2G)
                  else if it_bw iter = INVCHANSPEC
                  then (iter, wf_create_40MHz_chspec (LOWER_20_SB 3) 3 WL_CHANSPEC_BAND_2G)
                  else (iter\<lparr>it_state := WF_ITER_DONE\<rparr>, INVCHANSPEC)
             else if CHSPEC_SB_LOWER c
                  then (iter, wf_create_40MHz_chspec (UPPER_20_SB ch) (ucast ch) WL_CHANSPEC_BAND_2G)
                  else if ch < 11
                  then (iter, wf_create_40MHz_chspec (LOWER_20_SB (ch + 1)) (ucast (ch + 1)) WL_CHANSPEC_BAND_2G)
                  else (iter\<lparr>it_state := WF_ITER_DONE\<rparr>, INVCHANSPEC))
      in (iter\<lparr>it_chanspec := c'\<rparr>, c' \<noteq> INVCHANSPEC))"

text \<open>The end of \<open>next_5g\<close> and \<open>next_6g\<close>: store the new specification, or stop.\<close>

definition iter_store :: "wf_chanspec_iter_t \<Rightarrow> u16 \<Rightarrow> wf_chanspec_iter_t \<times> bool" where
  "iter_store iter c =
     (if c \<noteq> INVCHANSPEC then (iter\<lparr>it_chanspec := c\<rparr>, True)
      else (iter\<lparr>it_chanspec := c, it_state := WF_ITER_DONE\<rparr>, False))"

definition wf_chanspec_iter_next_5g :: "wf_chanspec_iter_t \<Rightarrow> wf_chanspec_iter_t \<times> bool" where
  "wf_chanspec_iter_next_5g iter =
     (let c = it_chanspec iter; bw = CHSPEC_BW c; ch = wf_chspec_primary20_chan c
      in if ch < range_end iter
      then iter_store iter
             (if c = INVCHANSPEC then c
              else wf_create_chspec_from_primary (ucast (ch + 4)) bw WL_CHANSPEC_BAND_5G)
      else case wf_chanspec_iter_next_5g_range iter bw of (iter, more_ranges) \<Rightarrow>
        if more_ranges
        then iter_store iter
               (if c = INVCHANSPEC then c
                else wf_create_chspec_from_primary (ucast (range_start iter)) bw WL_CHANSPEC_BAND_5G)
        else if it_bw iter = INVCHANSPEC \<and> wf_iter_next_bw bw \<noteq> INVCHANSPEC
        then let bw = wf_iter_next_bw bw;
                 iter = fst (wf_chanspec_iter_next_5g_range (iter\<lparr>range_id := RANGE_ID_INVAL\<rparr>) bw)
             in iter_store iter
                  (if c = INVCHANSPEC then c
                   else wf_create_chspec_from_primary (ucast (range_start iter)) bw WL_CHANSPEC_BAND_5G)
        else iter_store iter INVCHANSPEC)"

definition wf_chanspec_iter_next_6g :: "wf_chanspec_iter_t \<Rightarrow> wf_chanspec_iter_t \<times> bool" where
  "wf_chanspec_iter_next_6g iter =
     (let c = it_chanspec iter; bw = CHSPEC_BW c; ch = wf_chspec_primary20_chan c;
          c' = (if ch < range_end iter then wf_create_chspec_from_primary (ucast (ch + 4)) bw WL_CHANSPEC_BAND_6G
                else INVCHANSPEC)
      in iter_store iter
           (if c' = INVCHANSPEC \<and> it_bw iter = INVCHANSPEC \<and> wf_iter_next_bw bw \<noteq> INVCHANSPEC
            then wf_create_chspec_from_primary (ucast (range_start iter)) (wf_iter_next_bw bw) WL_CHANSPEC_BAND_6G
            else c'))"

definition wf_chanspec_iter_current :: "wf_chanspec_iter_t \<Rightarrow> u16" where
  "wf_chanspec_iter_current iter = it_chanspec iter"

definition wf_chanspec_iter_next :: "wf_chanspec_iter_t \<Rightarrow> wf_chanspec_iter_t \<times> u16 \<times> bool" where
  "wf_chanspec_iter_next iter =
     (let (iter', ok) =
            (case it_state iter of
               WF_ITER_INIT \<Rightarrow> (wf_chanspec_iter_firstchan (iter\<lparr>it_state := WF_ITER_RUN\<rparr>), True)
             | WF_ITER_DONE \<Rightarrow> (iter, False)
             | WF_ITER_RUN \<Rightarrow>
                 if it_band iter = WL_CHANSPEC_BAND_2G then wf_chanspec_iter_next_2g iter
                 else if it_band iter = WL_CHANSPEC_BAND_5G then wf_chanspec_iter_next_5g iter
                 else if it_band iter = WL_CHANSPEC_BAND_6G then wf_chanspec_iter_next_6g iter
                 else (iter, False))
      in (iter', it_chanspec iter', ok))"

text \<open>
  The documented use, \<open>while (wf_chanspec_iter_next(&iter, &chanspec)) ...\<close>: the specifications the body sees. \<open>None\<close> is
  a loop that does not end.
\<close>

partial_function (option) iter_visit :: "wf_chanspec_iter_t \<Rightarrow> u16 list option" where
  [code]: "iter_visit iter =
     (case wf_chanspec_iter_next iter of (iter', c, ok) \<Rightarrow>
        if ok then do { cs \<leftarrow> iter_visit iter'; Some (c # cs) } else Some [])"

end
