(* ===== verification/Chanspec_Visit.thy ===== *)
theory Chanspec_Visit
  imports Chanspec_Iter Chanspec_Sub
begin

text \<open>
  What the iterator visits. A specification is determined by its primary channel, band and width, so the iteration is
  described by the list of primary channels it runs through.
\<close>

section \<open>Steps\<close>

lemma visit_step:
  "wf_chanspec_iter_next iter = (iter', c, True) \<Longrightarrow> iter_visit iter = map_option (Cons c) (iter_visit iter')"
  by (subst iter_visit.simps) (cases "iter_visit iter'"; simp)

lemma visit_stop: "wf_chanspec_iter_next iter = (iter', c, False) \<Longrightarrow> iter_visit iter = Some []"
  by (subst iter_visit.simps) simp

definition prim :: "u16 \<Rightarrow> u16 \<Rightarrow> nat \<Rightarrow> u16" where
  "prim band bw p = wf_create_chspec_from_primary (of_nat p) bw band"

definition has_primary :: "u16 \<Rightarrow> u16 \<Rightarrow> nat \<Rightarrow> bool" where
  "has_primary band bw p \<longleftrightarrow> (\<exists>c. wf_chspec_valid c \<and> CHSPEC_BAND c = band \<and> CHSPEC_BW c = bw
     \<and> (bw = WL_CHANSPEC_BW_20 \<or> band \<noteq> WL_CHANSPEC_BAND_2G) \<and> unat (wf_chspec_primary20_chan c) = p)"

lemma good_prim:
  assumes "has_primary band bw p"
  shows "wf_chspec_valid (prim band bw p)" "CHSPEC_BAND (prim band bw p) = band" "CHSPEC_BW (prim band bw p) = bw"
    "wf_chspec_primary20_chan (prim band bw p) = of_nat p" "prim band bw p \<noteq> INVCHANSPEC" "p < 256" "0 < p"
proof -
  obtain c where c: "wf_chspec_valid c" "CHSPEC_BAND c = band" "CHSPEC_BW c = bw"
    "bw = WL_CHANSPEC_BW_20 \<or> band \<noteq> WL_CHANSPEC_BAND_2G" "unat (wf_chspec_primary20_chan c) = p"
    using assms by (auto simp: has_primary_def)
  have "(of_nat p :: u32) = ucast (wf_chspec_primary20_chan c)" unfolding c(5) [symmetric] by simp
  then have pc: "prim band bw p = c"
    unfolding prim_def using from_primary_of [OF c(1)] c(2-4) by simp
  have "0 < unat (wf_chspec_primary20_chan c)"
  proof -
    have "wf_valid_20MHz_chan (ucast (wf_chspec_primary20_chan c)) (CHSPEC_BAND c)"
      using primary20_ok [OF c(1)] by (simp add: centre_ok_def)
    from valid20_bounds [OF this] show ?thesis by (simp add: word_le_nat_alt)
  qed
  then show "0 < p" using c(5) by simp
  show "wf_chspec_valid (prim band bw p)" "CHSPEC_BAND (prim band bw p) = band" "CHSPEC_BW (prim band bw p) = bw"
    "prim band bw p \<noteq> INVCHANSPEC"
    unfolding pc using c INVCHANSPEC_not_valid by auto
  show "wf_chspec_primary20_chan (prim band bw p) = of_nat p" unfolding pc using u8_unat [of "wf_chspec_primary20_chan c"] c(5) by simp
  show "p < 256" unfolding c(5) [symmetric] by simp
qed

lemma good_of:
  assumes "band \<in> bands" "bw \<in> bws" "bw = WL_CHANSPEC_BW_20 \<or> band \<noteq> WL_CHANSPEC_BAND_2G" "ch < 256"
    "centre_ok band bw (of_nat ch)" "k < num_sb bw" "p = ch - edge bw + 4 * k"
  shows "has_primary band bw p"
proof -
  note b = built [OF refl assms(1,2,6,4,5)]
  have "ch + edge bw < 254" "edge bw < ch" using centre_bounds [OF assms(5)] assms(4) by (simp_all add: unat_of_nat_u32)
  then have "ch - edge bw + 4 * k < 256" using assms(6) edge_num_sb [of bw] by simp
  then have "unat (of_nat p :: u8) = p" unfolding assms(7) by (rule unat_of_nat_u8)
  then show ?thesis unfolding has_primary_def using b assms(3,7) by (intro exI [of _ "chspec_of band bw k ch"]) simp
qed

section \<open>The 5 GHz band\<close>

text \<open>The ranges of primary channels of a bandwidth, and the state of the iterator inside one of them.\<close>

definition ranges5 :: "u16 \<Rightarrow> (nat \<times> nat) list" where
  "ranges5 bw = (if bw = WL_CHANSPEC_BW_20 then [(36, 64), (100, 144), (149, 165)]
     else map (\<lambda>ch. (unat ch - edge bw, unat ch + edge bw))
       (if bw = WL_CHANSPEC_BW_40 then wf_5g_40m_chans else if bw = WL_CHANSPEC_BW_80 then wf_5g_80m_chans else wf_5g_160m_chans))"

definition st5 :: "u16 \<Rightarrow> u16 \<Rightarrow> nat \<Rightarrow> nat \<Rightarrow> wf_chanspec_iter_t" where
  "st5 b bw rid p = \<lparr>it_state = WF_ITER_RUN, it_chanspec = prim WL_CHANSPEC_BAND_5G bw p, it_band = WL_CHANSPEC_BAND_5G, it_bw = b,
     range_start = of_nat (fst (ranges5 bw ! rid)), range_end = of_nat (snd (ranges5 bw ! rid)), range_id = of_nat rid\<rparr>"

lemma ranges5_list:
  "ranges5 WL_CHANSPEC_BW_20 = [(36, 64), (100, 144), (149, 165)]"
  "ranges5 WL_CHANSPEC_BW_40 = [(36, 40), (44, 48), (52, 56), (60, 64), (100, 104), (108, 112), (116, 120), (124, 128),
     (132, 136), (140, 144), (149, 153), (157, 161), (165, 169), (173, 177)]"
  "ranges5 WL_CHANSPEC_BW_80 = [(36, 48), (52, 64), (100, 112), (116, 128), (132, 144), (149, 161), (165, 177)]"
  "ranges5 WL_CHANSPEC_BW_160 = [(36, 64), (100, 128), (149, 177)]"
  by (simp_all add: ranges5_def wf_5g_40m_chans_def wf_5g_80m_chans_def wf_5g_160m_chans_def)

lemma edge_channels:
  assumes "ch \<in> set wf_5g_40m_chans \<union> set wf_5g_80m_chans \<union> set wf_5g_160m_chans"
  shows "ucast (ucast ch - center_chan_to_edge bw) = (of_nat (unat ch - edge bw) :: u8)"
    "ucast (ucast ch + center_chan_to_edge bw) = (of_nat (unat ch + edge bw) :: u8)"
proof -
  have e: "edge bw \<le> 14" by (simp add: edge_def)
  have "36 < unat ch" using assms by (auto simp: wf_5g_40m_chans_def wf_5g_80m_chans_def wf_5g_160m_chans_def)
  with e have "(ucast ch - center_chan_to_edge bw :: u32) = of_nat (unat ch - edge bw)"
    "(ucast ch + center_chan_to_edge bw :: u32) = of_nat (unat ch + edge bw)"
    by (simp_all add: edge_of_nat of_nat_diff)
  moreover have "unat ch - edge bw < 4294967296" "unat ch + edge bw < 4294967296"
    using e unat_u8_less [of ch] by (simp_all del: unat_u8_less)
  ultimately show "ucast (ucast ch - center_chan_to_edge bw) = (of_nat (unat ch - edge bw) :: u8)"
    "ucast (ucast ch + center_chan_to_edge bw) = (of_nat (unat ch + edge bw) :: u8)"
    by (simp_all only: ucast_nat_u8)
qed

lemma next_range:
  assumes "bw \<in> bws" "rid = (if range_id it = RANGE_ID_INVAL then 0 else Suc (unat (range_id it)))"
  shows "wf_chanspec_iter_next_5g_range it bw =
    (if rid < length (ranges5 bw)
     then (it\<lparr>range_id := of_nat rid, range_start := of_nat (fst (ranges5 bw ! rid)), range_end := of_nat (snd (ranges5 bw ! rid))\<rparr>, True)
     else (it, False))"
proof -
  define r where "r = (if range_id it = RANGE_ID_INVAL then 0 else range_id it + 1)"
  have r: "unat r = rid"
  proof (cases "range_id it = RANGE_ID_INVAL")
    case False
    then have "unat (range_id it) \<noteq> 255" by (simp add: word_unat_eq_iff)
    then have "unat (range_id it) < 255" using unat_u8_less [of "range_id it"] by (simp del: unat_u8_less)
    then show ?thesis using False assms(2) by (simp add: r_def unat_word_ariths)
  qed (simp add: r_def assms(2))
  then have r': "r = of_nat rid" using u8_unat [of r] by simp
  have wide: "wf_chanspec_iter_next_5g_range it bw =
    (if rid < length (ranges5 bw)
     then (it\<lparr>range_id := of_nat rid, range_start := of_nat (fst (ranges5 bw ! rid)), range_end := of_nat (snd (ranges5 bw ! rid))\<rparr>, True)
     else (it, False))"
    if "bw \<in> wides"
      "chs = (if bw = WL_CHANSPEC_BW_40 then wf_5g_40m_chans else if bw = WL_CHANSPEC_BW_80 then wf_5g_80m_chans else wf_5g_160m_chans)"
    for chs
  proof -
    have ne: "bw \<noteq> WL_CHANSPEC_BW_20" using that(1) by auto
    have len: "length (ranges5 bw) = length chs" and nth: "rid < length chs \<Longrightarrow> ranges5 bw ! rid = (unat (chs ! rid) - edge bw, unat (chs ! rid) + edge bw)"
      unfolding ranges5_def that(2) using ne by simp_all
    have mem: "rid < length chs \<Longrightarrow> chs ! rid \<in> set wf_5g_40m_chans \<union> set wf_5g_80m_chans \<union> set wf_5g_160m_chans"
      unfolding that(2) by (auto split: if_splits)
    have "\<not> (bw \<noteq> WL_CHANSPEC_BW_40 \<and> bw \<noteq> WL_CHANSPEC_BW_80 \<and> bw \<noteq> WL_CHANSPEC_BW_160)" using that(1) by blast
    note unfolded = wf_chanspec_iter_next_5g_range_def [of it bw, unfolded Let_def, folded r_def, folded that(2),
        unfolded r if_not_P [OF ne] if_not_P [OF this], unfolded r']
    show ?thesis
      unfolding unfolded len using nth edge_channels [OF mem, of bw] by (cases "rid < length chs") simp_all
  qed
  show ?thesis
  proof (cases "bw = WL_CHANSPEC_BW_20")
    case True
    have "rid < 3 \<Longrightarrow> wf_5g_iter_ranges ! rid = (of_nat (fst (ranges5 bw ! rid)), of_nat (snd (ranges5 bw ! rid)))"
      unfolding True ranges5_list wf_5g_iter_ranges_def by (auto simp: less_Suc_eq numeral_3_eq_3)
    moreover have "length wf_5g_iter_ranges = 3" "length (ranges5 bw) = 3"
      by (simp_all add: wf_5g_iter_ranges_def True ranges5_list)
    ultimately show ?thesis
      unfolding wf_chanspec_iter_next_5g_range_def [of it bw, unfolded Let_def, folded r_def, unfolded r if_P [OF True], unfolded r']
      by simp
  next
    case False
    then show ?thesis using assms(1) wide [OF _ refl] by blast
  qed
qed

lemma chan_less: "a < 256 \<Longrightarrow> b < 256 \<Longrightarrow> (of_nat a :: u8) < of_nat b \<longleftrightarrow> a < b"
  by (simp add: word_less_nat_alt unat_of_nat_u8)

lemma chan_up: "p < 252 \<Longrightarrow> ucast (of_nat p + 4 :: u8) = (of_nat (p + 4) :: u32)"
proof -
  assume "p < 252"
  moreover have "(of_nat p + 4 :: u8) = of_nat (p + 4)" by simp
  ultimately show ?thesis using ucast_u8_of_nat [of "p + 4"] by (simp only:)
qed

lemma next_5g: "it_state it = WF_ITER_RUN \<Longrightarrow> it_band it = WL_CHANSPEC_BAND_5G \<Longrightarrow>
  wf_chanspec_iter_next it = (case wf_chanspec_iter_next_5g it of (it', ok) \<Rightarrow> (it', it_chanspec it', ok))"
  by (simp add: wf_chanspec_iter_next_def)

lemma step_in_range:
  assumes "has_primary WL_CHANSPEC_BAND_5G bw p" "has_primary WL_CHANSPEC_BAND_5G bw (p + 4)" "p < snd (ranges5 bw ! rid)" "snd (ranges5 bw ! rid) < 252"
  shows "wf_chanspec_iter_next (st5 b bw rid p) = (st5 b bw rid (p + 4), prim WL_CHANSPEC_BAND_5G bw (p + 4), True)"
proof -
  note g = good_prim [OF assms(1)] and g' = good_prim [OF assms(2)]
  have "(of_nat p :: u8) < of_nat (snd (ranges5 bw ! rid))" using chan_less assms(3,4) by simp
  moreover have "wf_create_chspec_from_primary (ucast (of_nat p + 4 :: u8)) bw WL_CHANSPEC_BAND_5G = prim WL_CHANSPEC_BAND_5G bw (p + 4)"
    using chan_up [of p] assms(3,4) by (simp add: prim_def)
  ultimately have "wf_chanspec_iter_next_5g (st5 b bw rid p) = (st5 b bw rid (p + 4), True)"
    using g g' by (simp add: wf_chanspec_iter_next_5g_def st5_def iter_store_def Let_def)
  then show ?thesis by (subst next_5g) (simp_all add: st5_def)
qed

lemma step_next_range:
  assumes "has_primary WL_CHANSPEC_BAND_5G bw p" "bw \<in> bws" "p = snd (ranges5 bw ! rid)" "Suc rid < length (ranges5 bw)" "rid < 200"
    "q = fst (ranges5 bw ! Suc rid)" "has_primary WL_CHANSPEC_BAND_5G bw q"
  shows "wf_chanspec_iter_next (st5 b bw rid p) = (st5 b bw (Suc rid) q, prim WL_CHANSPEC_BAND_5G bw q, True)"
proof -
  note g = good_prim [OF assms(1)] and g' = good_prim [OF assms(7)]
  have rid: "unat (of_nat rid :: u8) = rid" using assms(5) by (simp add: unat_of_nat_u8)
  then have ne: "(of_nat rid :: u8) \<noteq> RANGE_ID_INVAL" using assms(5) by (auto simp: word_unat_eq_iff)
  have rng: "wf_chanspec_iter_next_5g_range (st5 b bw rid p) bw =
      ((st5 b bw rid p)\<lparr>range_id := of_nat (Suc rid), range_start := of_nat (fst (ranges5 bw ! Suc rid)),
        range_end := of_nat (snd (ranges5 bw ! Suc rid))\<rparr>, True)"
    using next_range [OF assms(2), of "Suc rid" "st5 b bw rid p"] ne rid assms(4) by (simp add: st5_def)
  have "wf_create_chspec_from_primary (ucast (of_nat q :: u8)) bw WL_CHANSPEC_BAND_5G = prim WL_CHANSPEC_BAND_5G bw q"
    using ucast_u8_of_nat [OF g'(6)] by (simp add: prim_def)
  then have "wf_chanspec_iter_next_5g (st5 b bw rid p) = (st5 b bw (Suc rid) q, True)"
    using g g' rng assms(3,6) by (simp add: wf_chanspec_iter_next_5g_def st5_def iter_store_def Let_def)
  then show ?thesis by (subst next_5g) (simp_all add: st5_def)
qed

lemma step_last_range:
  assumes "has_primary WL_CHANSPEC_BAND_5G bw p" "bw \<in> bws" "p = snd (ranges5 bw ! rid)" "Suc rid = length (ranges5 bw)" "rid < 200"
  shows "b \<noteq> INVCHANSPEC \<or> wf_iter_next_bw bw = INVCHANSPEC \<Longrightarrow> iter_visit (st5 b bw rid p) = Some []"
    "b = INVCHANSPEC \<Longrightarrow> w = wf_iter_next_bw bw \<Longrightarrow> w \<in> bws \<Longrightarrow> q = fst (ranges5 w ! 0) \<Longrightarrow> has_primary WL_CHANSPEC_BAND_5G w q \<Longrightarrow>
      iter_visit (st5 b bw rid p) = map_option (Cons (prim WL_CHANSPEC_BAND_5G w q)) (iter_visit (st5 b w 0 q))"
proof -
  note g = good_prim [OF assms(1)]
  have rid: "unat (of_nat rid :: u8) = rid" using assms(5) by (simp add: unat_of_nat_u8)
  then have ne: "(of_nat rid :: u8) \<noteq> RANGE_ID_INVAL" using assms(5) by (auto simp: word_unat_eq_iff)
  have rng: "wf_chanspec_iter_next_5g_range (st5 b bw rid p) bw = (st5 b bw rid p, False)"
    using next_range [OF assms(2), of "Suc rid" "st5 b bw rid p"] ne rid assms(4) by (simp add: st5_def)
  show "iter_visit (st5 b bw rid p) = Some []" if "b \<noteq> INVCHANSPEC \<or> wf_iter_next_bw bw = INVCHANSPEC"
  proof -
    have "snd (wf_chanspec_iter_next_5g (st5 b bw rid p)) = False"
      using g rng assms(3) that by (auto simp: wf_chanspec_iter_next_5g_def st5_def iter_store_def Let_def)
    then obtain it' where "wf_chanspec_iter_next_5g (st5 b bw rid p) = (it', False)"
      by (cases "wf_chanspec_iter_next_5g (st5 b bw rid p)") auto
    then have "wf_chanspec_iter_next (st5 b bw rid p) = (it', it_chanspec it', False)"
      by (subst next_5g) (simp_all add: st5_def)
    then show ?thesis by (rule visit_stop)
  qed
  show "iter_visit (st5 b bw rid p) = map_option (Cons (prim WL_CHANSPEC_BAND_5G w q)) (iter_visit (st5 b w 0 q))"
    if b: "b = INVCHANSPEC" and w: "w = wf_iter_next_bw bw" "w \<in> bws" and q: "q = fst (ranges5 w ! 0)" "has_primary WL_CHANSPEC_BAND_5G w q"
  proof -
    note g' = good_prim [OF q(2)]
    have len: "0 < length (ranges5 w)" using w(2) by (auto simp: ranges5_list)
    have wI: "w \<noteq> INVCHANSPEC" using w(2) by auto
    have rng0: "wf_chanspec_iter_next_5g_range (it\<lparr>range_id := RANGE_ID_INVAL\<rparr>) w =
        (it\<lparr>range_id := 0, range_start := of_nat (fst (ranges5 w ! 0)), range_end := of_nat (snd (ranges5 w ! 0))\<rparr>, True)" for it
      using next_range [OF w(2), of 0 "it\<lparr>range_id := RANGE_ID_INVAL\<rparr>"] len by simp
    have c: "wf_create_chspec_from_primary (ucast (of_nat q :: u8)) w WL_CHANSPEC_BAND_5G = prim WL_CHANSPEC_BAND_5G w q"
      using ucast_u8_of_nat [OF g'(6)] by (simp add: prim_def)
    have "wf_chanspec_iter_next_5g (st5 b bw rid p) = (st5 b w 0 q, True)"
      using g g' rng rng0 [of "st5 b bw rid p"] assms(3) wI q(1) c b
      by (simp add: wf_chanspec_iter_next_5g_def st5_def iter_store_def Let_def w(1) [symmetric])
    then have "wf_chanspec_iter_next (st5 b bw rid p) = (st5 b w 0 q, prim WL_CHANSPEC_BAND_5G w q, True)"
      by (subst next_5g) (simp_all add: st5_def)
    then show ?thesis by (rule visit_step)
  qed
qed

definition channels_of :: "nat \<times> nat \<Rightarrow> nat list" where
  "channels_of r = map (\<lambda>i. fst r + 4 * i) [0..<Suc ((snd r - fst r) div 4)]"

definition prims5 :: "u16 \<Rightarrow> nat list" where
  "prims5 bw = concat (map channels_of (ranges5 bw))"

text \<open>One range, from its \<open>j\<close>-th channel to its end.\<close>

lemma visit_range:
  assumes "\<And>i. i \<le> n \<Longrightarrow> has_primary WL_CHANSPEC_BAND_5G bw (s + 4 * i)" "ranges5 bw ! rid = (s, s + 4 * n)" "s + 4 * n < 252" "j \<le> n"
  shows "iter_visit (st5 b bw rid (s + 4 * j)) =
    map_option (append (map (\<lambda>i. prim WL_CHANSPEC_BAND_5G bw (s + 4 * i)) [Suc j..<Suc n])) (iter_visit (st5 b bw rid (s + 4 * n)))"
  using assms(4)
proof (induction "n - j" arbitrary: j)
  case 0
  then have "j = n" by simp
  then show ?case by (cases "iter_visit (st5 b bw rid (s + 4 * n))") simp_all
next
  case (Suc d)
  then have j: "j < n" by simp
  have "wf_chanspec_iter_next (st5 b bw rid (s + 4 * j)) =
      (st5 b bw rid (s + 4 * j + 4), prim WL_CHANSPEC_BAND_5G bw (s + 4 * j + 4), True)"
    by (rule step_in_range) (use assms(1) [of j] assms(1) [of "Suc j"] assms(2,3) j in \<open>simp_all add: ac_simps\<close>)
  from visit_step [OF this]
  have "iter_visit (st5 b bw rid (s + 4 * j)) =
      map_option (Cons (prim WL_CHANSPEC_BAND_5G bw (s + 4 * Suc j))) (iter_visit (st5 b bw rid (s + 4 * Suc j)))"
    by (simp add: ac_simps)
  also have "iter_visit (st5 b bw rid (s + 4 * Suc j)) =
      map_option (append (map (\<lambda>i. prim WL_CHANSPEC_BAND_5G bw (s + 4 * i)) [Suc (Suc j)..<Suc n])) (iter_visit (st5 b bw rid (s + 4 * n)))"
    by (rule Suc.hyps(1)) (use Suc.hyps(2) j in simp_all)
  finally have e: "iter_visit (st5 b bw rid (s + 4 * j)) =
      map_option (Cons (prim WL_CHANSPEC_BAND_5G bw (s + 4 * Suc j))) (map_option (append (map (\<lambda>i. prim WL_CHANSPEC_BAND_5G bw
        (s + 4 * i)) [Suc (Suc j)..<Suc n])) (iter_visit (st5 b bw rid (s + 4 * n))))" .
  have l: "[Suc j..<Suc n] = Suc j # [Suc (Suc j)..<Suc n]" using j by (intro upt_conv_Cons) simp
  show ?case
    unfolding e l by (cases "iter_visit (st5 b bw rid (s + 4 * n))") (simp_all only: option.map list.map append_Cons)
qed

lemma seg_hd: "fst r \<in> set (channels_of r)"
  by (auto simp: channels_of_def intro!: image_eqI [of _ _ 0])

definition range_ok :: "u16 \<Rightarrow> nat \<times> nat \<Rightarrow> bool" where
  "range_ok bw r \<longleftrightarrow> snd r = fst r + 4 * ((snd r - fst r) div 4) \<and> snd r < 252 \<and> (\<forall>p \<in> set (channels_of r). has_primary WL_CHANSPEC_BAND_5G bw p)"

lemma visit_ranges:
  assumes "\<And>r. r \<in> set (ranges5 bw) \<Longrightarrow> range_ok bw r" "bw \<in> bws" "rid < length (ranges5 bw)" "length (ranges5 bw) \<le> 200"
  shows "map_option (Cons (prim WL_CHANSPEC_BAND_5G bw (fst (ranges5 bw ! rid)))) (iter_visit (st5 b bw rid (fst (ranges5 bw ! rid)))) =
    map_option (append (map (prim WL_CHANSPEC_BAND_5G bw) (concat (map channels_of (drop rid (ranges5 bw))))))
      (iter_visit (st5 b bw (length (ranges5 bw) - 1) (snd (last (ranges5 bw)))))"
  using assms(3)
proof (induction "length (ranges5 bw) - rid" arbitrary: rid)
  case (Suc d)
  let ?R = "ranges5 bw" and ?P = "prim WL_CHANSPEC_BAND_5G bw"
  let ?r = "?R ! rid"
  define s n where "s = fst ?r" and "n = (snd ?r - fst ?r) div 4"
  have ok: "range_ok bw ?r" using assms(1) Suc.prems by simp
  have r: "?r = (s, s + 4 * n)" and lt: "s + 4 * n < 252" and g: "\<And>i. i \<le> n \<Longrightarrow> has_primary WL_CHANSPEC_BAND_5G bw (s + 4 * i)"
    using ok by (auto simp: range_ok_def s_def n_def channels_of_def prod_eq_iff)
  have sg: "channels_of ?r = s # map (\<lambda>i. s + 4 * i) [Suc 0..<Suc n]"
    using r by (simp add: channels_of_def upt_conv_Cons del: upt_Suc)
  have here: "map_option (Cons (?P s)) (iter_visit (st5 b bw rid s)) =
      map_option (append (map ?P (channels_of ?r))) (iter_visit (st5 b bw rid (s + 4 * n)))"
    using visit_range [of n bw s rid 0 b, OF g r lt] unfolding sg
    by (cases "iter_visit (st5 b bw rid (s + 4 * n))") (simp_all add: comp_def del: upt_Suc)
  have dr: "drop rid ?R = ?r # drop (Suc rid) ?R" using Suc.prems by (simp add: Cons_nth_drop_Suc)
  show ?case
  proof (cases "Suc rid < length ?R")
    case True
    let ?q = "fst (?R ! Suc rid)"
    have gq: "has_primary WL_CHANSPEC_BAND_5G bw ?q"
      using assms(1) [of "?R ! Suc rid"] True seg_hd by (simp add: range_ok_def)
    have "wf_chanspec_iter_next (st5 b bw rid (s + 4 * n)) = (st5 b bw (Suc rid) ?q, ?P ?q, True)"
      by (rule step_next_range) (use g [of n] r True assms(2,4) gq in simp_all)
    from visit_step [OF this] Suc True
    have "iter_visit (st5 b bw rid (s + 4 * n)) =
        map_option (append (map ?P (concat (map channels_of (drop (Suc rid) ?R))))) (iter_visit (st5 b bw (length ?R - 1) (snd (last ?R))))"
      by simp
    with here show ?thesis unfolding dr s_def [symmetric]
      by (cases "iter_visit (st5 b bw (length ?R - 1) (snd (last ?R)))") simp_all
  next
    case False
    then have e: "rid = length ?R - 1" using Suc.prems by simp
    have ne: "?R \<noteq> []" using Suc.prems by auto
    have "last ?R = ?r" using ne e by (simp add: last_conv_nth)
    moreover have "drop (Suc rid) ?R = []" using False by simp
    ultimately show ?thesis using here r e unfolding dr s_def [symmetric] by simp
  qed
qed simp

lemma segs_20:
  "channels_of (36, 64) = [36, 40, 44, 48, 52, 56, 60, 64]" "channels_of (149, 165) = [149, 153, 157, 161, 165]"
  "channels_of (100, 144) = [100, 104, 108, 112, 116, 120, 124, 128, 132, 136, 140, 144]"
  by code_simp+

lemma ranges5_ok:
  assumes "bw \<in> bws" "r \<in> set (ranges5 bw)"
  shows "range_ok bw r"
proof (cases "bw = WL_CHANSPEC_BW_20")
  case True
  have v: "has_primary WL_CHANSPEC_BAND_5G WL_CHANSPEC_BW_20 p" if "wf_valid_20MHz_chan (of_nat p) WL_CHANSPEC_BAND_5G" "p < 256" for p
    using good_of [of WL_CHANSPEC_BAND_5G WL_CHANSPEC_BW_20 p 0 p] that by (simp add: centre_ok_def)
  have g: "has_primary WL_CHANSPEC_BAND_5G WL_CHANSPEC_BW_20 p"
    if "p \<in> set (channels_of (36, 64)) \<or> p \<in> set (channels_of (100, 144)) \<or> p \<in> set (channels_of (149, 165))" for p
    using that unfolding segs_20
    by (intro v) (auto simp: wf_valid_20MHz_chan_def wf_5g_40m_chans_def LOWER_20_SB_def UPPER_20_SB_def)
  have "r = (36, 64) \<or> r = (100, 144) \<or> r = (149, 165)" using assms(2) unfolding True ranges5_list by simp
  then show ?thesis
  proof (elim disjE)
    assume r: "r = (36, 64)"
    then show ?thesis unfolding range_ok_def True using g by (auto simp del: upt_Suc)
  next
    assume r: "r = (100, 144)"
    then show ?thesis unfolding range_ok_def True using g by (auto simp del: upt_Suc)
  next
    assume r: "r = (149, 165)"
    then show ?thesis unfolding range_ok_def True using g by (auto simp del: upt_Suc)
  qed
next
  case False
  then have w: "bw \<in> wides" using assms(1) by simp
  obtain ch where r: "r = (unat ch - edge bw, unat ch + edge bw)" and ok: "centre_ok WL_CHANSPEC_BAND_5G bw (ucast (ch :: u8))"
  proof -
    have "\<exists>ch \<in> set (if bw = WL_CHANSPEC_BW_40 then wf_5g_40m_chans else if bw = WL_CHANSPEC_BW_80 then wf_5g_80m_chans else wf_5g_160m_chans).
        r = (unat ch - edge bw, unat ch + edge bw)"
      using assms(2) False by (auto simp: ranges5_def split: if_splits)
    then obtain ch where r: "r = (unat ch - edge bw, unat ch + edge bw)" and
      ch: "ch \<in> set (if bw = WL_CHANSPEC_BW_40 then wf_5g_40m_chans else if bw = WL_CHANSPEC_BW_80 then wf_5g_80m_chans else wf_5g_160m_chans)"
      by blast
    have "centre_ok WL_CHANSPEC_BAND_5G bw (ucast ch)"
      using w ch
      by (elim insertE emptyE) (auto simp: centre_ok_def wf_valid_40MHz_center_chan_def wf_valid_80MHz_center_chan_def
          wf_valid_160MHz_center_chan_def channel_80mhz_to_id_def list_ex_iff wf_5g_80m_chans_def)
    with r show thesis by (rule that)
  qed
  have e: "edge bw < unat ch" "unat ch + edge bw < 254" using centre_bounds [OF ok] by simp_all
  have d: "(snd r - fst r) div 4 = num_sb bw - 1" "snd r = fst r + 4 * (num_sb bw - 1)"
    using e edge_num_sb [of bw] unfolding r by auto
  have f: "fst r = unat ch - edge bw" using r by simp
  have "snd r < 252"
    using wide_top [OF w ok] unfolding r by simp
  moreover have "has_primary WL_CHANSPEC_BAND_5G bw p" if p: "p \<in> set (channels_of r)" for p
  proof -
    obtain i where i: "i < num_sb bw" "p = unat ch - edge bw + 4 * i"
      using p num_sb_pos [of bw] unfolding channels_of_def d(1) unfolding f by auto
    have u: "(of_nat (unat ch) :: u32) = ucast ch" by simp
    show ?thesis
      by (rule good_of [of WL_CHANSPEC_BAND_5G bw "unat ch" i]) (use w ok i u in simp_all)
  qed
  ultimately show ?thesis unfolding range_ok_def d(1) using d(2) by blast
qed

text \<open>The iteration over one bandwidth, up to the state at its last channel.\<close>

lemma visit_bw:
  assumes "bw \<in> bws"
  shows "map_option (Cons (prim WL_CHANSPEC_BAND_5G bw (fst (ranges5 bw ! 0)))) (iter_visit (st5 b bw 0 (fst (ranges5 bw ! 0)))) =
    map_option (append (map (prim WL_CHANSPEC_BAND_5G bw) (prims5 bw)))
      (iter_visit (st5 b bw (length (ranges5 bw) - 1) (snd (last (ranges5 bw)))))"
proof -
  have "0 < length (ranges5 bw)" "length (ranges5 bw) \<le> 200" using assms by (auto simp: ranges5_list)
  from visit_ranges [OF ranges5_ok [OF assms] assms this] show ?thesis by (simp add: prims5_def)
qed

lemma last_good:
  assumes "bw \<in> bws"
  shows "has_primary WL_CHANSPEC_BAND_5G bw (snd (last (ranges5 bw)))" "has_primary WL_CHANSPEC_BAND_5G bw (fst (ranges5 bw ! 0))"
    "snd (last (ranges5 bw)) = snd (ranges5 bw ! (length (ranges5 bw) - 1))" "Suc (length (ranges5 bw) - 1) = length (ranges5 bw)"
    "length (ranges5 bw) - 1 < 200"
proof -
  have ne: "ranges5 bw \<noteq> []" "length (ranges5 bw) \<le> 200" using assms by (auto simp: ranges5_list)
  have "range_ok bw (last (ranges5 bw))" "range_ok bw (ranges5 bw ! 0)" using ranges5_ok [OF assms] ne by simp_all
  moreover have "range_ok bw r \<Longrightarrow> snd r \<in> set (channels_of r)" for r
    by (auto simp: range_ok_def channels_of_def simp del: upt_Suc intro!: image_eqI [of _ _ "(snd r - fst r) div 4"])
  ultimately show "has_primary WL_CHANSPEC_BAND_5G bw (snd (last (ranges5 bw)))" "has_primary WL_CHANSPEC_BAND_5G bw (fst (ranges5 bw ! 0))"
    using seg_hd unfolding range_ok_def by blast+
  show "snd (last (ranges5 bw)) = snd (ranges5 bw ! (length (ranges5 bw) - 1))" "Suc (length (ranges5 bw) - 1) = length (ranges5 bw)"
    "length (ranges5 bw) - 1 < 200"
    using ne by (auto simp: last_conv_nth)
qed

lemma visit_init_5g:
  assumes "b = INVCHANSPEC \<or> b \<in> bws" "bw = (if b = INVCHANSPEC then WL_CHANSPEC_BW_20 else b)"
  shows "iter_visit (fst (wf_chanspec_iter_init WL_CHANSPEC_BAND_5G b)) =
    map_option (append (map (prim WL_CHANSPEC_BAND_5G bw) (prims5 bw)))
      (iter_visit (st5 b bw (length (ranges5 bw) - 1) (snd (last (ranges5 bw)))))"
proof -
  have bw: "bw \<in> bws" using assms by auto
  let ?i = "fst (wf_chanspec_iter_init WL_CHANSPEC_BAND_5G b)" and ?q = "fst (ranges5 bw ! 0)"
  have i: "?i = \<lparr>it_state = WF_ITER_INIT, it_chanspec = INVCHANSPEC, it_band = WL_CHANSPEC_BAND_5G, it_bw = b,
      range_start = 0, range_end = 0, range_id = RANGE_ID_INVAL\<rparr>"
    using assms(1) by (auto simp: wf_chanspec_iter_init_def Let_def)
  have len: "0 < length (ranges5 bw)" using bw by (auto simp: ranges5_list)
  note g = good_prim [OF last_good(2) [OF bw]]
  have c: "wf_create_chspec_from_primary (ucast (of_nat ?q :: u8)) bw WL_CHANSPEC_BAND_5G = prim WL_CHANSPEC_BAND_5G bw ?q"
    using ucast_u8_of_nat [OF g(6)] by (simp add: prim_def)
  have "wf_chanspec_iter_next ?i = (st5 b bw 0 ?q, prim WL_CHANSPEC_BAND_5G bw ?q, True)"
  proof -
    let ?r = "\<lparr>it_state = WF_ITER_RUN, it_chanspec = INVCHANSPEC, it_band = WL_CHANSPEC_BAND_5G, it_bw = b,
      range_start = 0, range_end = 0, range_id = RANGE_ID_INVAL\<rparr>"
    have "wf_chanspec_iter_next_5g_range ?r bw = (\<lparr>it_state = WF_ITER_RUN, it_chanspec = INVCHANSPEC,
        it_band = WL_CHANSPEC_BAND_5G, it_bw = b, range_start = of_nat ?q, range_end = of_nat (snd (ranges5 bw ! 0)), range_id = 0\<rparr>, True)"
      using next_range [OF bw, of 0 ?r] len by simp
    then show ?thesis
      unfolding i using c assms(2)
      by (cases "b = INVCHANSPEC") (simp_all add: wf_chanspec_iter_next_def wf_chanspec_iter_firstchan_def Let_def st5_def)
  qed
  from visit_step [OF this] visit_bw [OF bw, of b] show ?thesis by simp
qed

lemma next_bws:
  "wf_iter_next_bw WL_CHANSPEC_BW_20 = WL_CHANSPEC_BW_40" "wf_iter_next_bw WL_CHANSPEC_BW_40 = WL_CHANSPEC_BW_80"
  "wf_iter_next_bw WL_CHANSPEC_BW_80 = WL_CHANSPEC_BW_160" "wf_iter_next_bw WL_CHANSPEC_BW_160 = INVCHANSPEC"
  by (simp_all add: wf_iter_next_bw_def)

lemma visit_5g:
  assumes "bw \<in> bws"
  shows "iter_visit (fst (wf_chanspec_iter_init WL_CHANSPEC_BAND_5G bw)) = Some (map (prim WL_CHANSPEC_BAND_5G bw) (prims5 bw))"
proof -
  have "bw \<noteq> INVCHANSPEC" using assms by auto
  with step_last_range(1) [OF last_good(1) [OF assms] assms last_good(3,4,5) [OF assms], of bw]
    visit_init_5g [of bw bw] assms show ?thesis by simp
qed

lemma visit_5g_all:
  "iter_visit (fst (wf_chanspec_iter_init WL_CHANSPEC_BAND_5G INVCHANSPEC)) =
    Some (concat (map (\<lambda>bw. map (prim WL_CHANSPEC_BAND_5G bw) (prims5 bw))
      [WL_CHANSPEC_BW_20, WL_CHANSPEC_BW_40, WL_CHANSPEC_BW_80, WL_CHANSPEC_BW_160]))"
proof -
  let ?fin = "\<lambda>bw. iter_visit (st5 INVCHANSPEC bw (length (ranges5 bw) - 1) (snd (last (ranges5 bw))))"
  let ?P = "\<lambda>bw. map (prim WL_CHANSPEC_BAND_5G bw) (prims5 bw)"
  have step: "?fin bw = map_option (append (?P w)) (?fin w)" if "bw \<in> bws" "w = wf_iter_next_bw bw" "w \<in> bws" for bw w
    using step_last_range(2) [OF last_good(1) [OF that(1)] that(1) last_good(3,4,5) [OF that(1)] refl that(2,3) refl last_good(2) [OF that(3)]]
      visit_bw [OF that(3), of INVCHANSPEC] by simp
  have "?fin WL_CHANSPEC_BW_160 = Some []"
    by (rule step_last_range(1) [OF last_good(1) [OF bws_members(3)] bws_members(3) last_good(3,4,5) [OF bws_members(3)]])
      (simp add: next_bws)
  then show ?thesis
    using visit_init_5g [of INVCHANSPEC WL_CHANSPEC_BW_20] step [OF bws_members(4) next_bws(1) [symmetric] bws_members(1)]
      step [OF bws_members(1) next_bws(2) [symmetric] bws_members(2)] step [OF bws_members(2) next_bws(3) [symmetric] bws_members(3)]
    by simp
qed

section \<open>The 6 GHz band\<close>

definition num6 :: "u16 \<Rightarrow> nat" where
  "num6 bw = (if bw = WL_CHANSPEC_BW_20 then 64 else if bw = WL_CHANSPEC_BW_40 then 58 else 56)"

definition prims6 :: "u16 \<Rightarrow> nat list" where
  "prims6 bw = map (\<lambda>i. 1 + 4 * i) [0..<num6 bw]"

definition st6 :: "u16 \<Rightarrow> u16 \<Rightarrow> nat \<Rightarrow> wf_chanspec_iter_t" where
  "st6 b bw p = \<lparr>it_state = WF_ITER_RUN, it_chanspec = prim WL_CHANSPEC_BAND_6G bw p, it_band = WL_CHANSPEC_BAND_6G, it_bw = b,
     range_start = 1, range_end = 253, range_id = RANGE_ID_INVAL\<rparr>"

lemma centre_6g_160: "unat x = 15 + 32 * m \<Longrightarrow> unat x \<le> 207 \<Longrightarrow> centre_ok WL_CHANSPEC_BAND_6G WL_CHANSPEC_BW_160 x"
  using block_mod [of x 15 32 m] by (simp add: centre_ok_def wf_valid_160MHz_center_chan_def word_le_nat_alt)

lemma good_6g:
  assumes "bw \<in> bws" "i < num6 bw"
  shows "has_primary WL_CHANSPEC_BAND_6G bw (1 + 4 * i)"
proof -
  define n q k ch where "n = num_sb bw" and "q = i div n" and "k = i mod n" and "ch = 1 + edge bw + 4 * n * q"
  have n: "0 < n" by (simp add: n_def num_sb_pos)
  have k: "k < n" unfolding k_def using n by simp
  have i: "i = n * q + k" by (simp add: q_def k_def)
  have u: "ch < 256 \<Longrightarrow> unat (of_nat ch :: u32) = ch" by (simp add: unat_of_nat_u32)
  have ch: "ch < 256 \<and> centre_ok WL_CHANSPEC_BAND_6G bw (of_nat ch)"
    using assms(1)
  proof (elim insertE emptyE)
    assume bw: "bw = WL_CHANSPEC_BW_20"
    then have c: "ch = 1 + 4 * q" "q < 64" using assms(2) n_def by (simp_all add: ch_def q_def num6_def)
    then have "ch < 256" by simp
    with c centre_6g_intro(1) [of "of_nat ch" q, unfolded u [OF this]] show ?thesis unfolding bw by linarith
  next
    assume bw: "bw = WL_CHANSPEC_BW_40"
    then have c: "ch = 3 + 8 * q" "q < 29" using assms(2) n_def by (auto simp: ch_def q_def num6_def)
    then have "ch < 256" by simp
    with c centre_6g_intro(2) [of "of_nat ch" q, unfolded u [OF this]] show ?thesis unfolding bw by linarith
  next
    assume bw: "bw = WL_CHANSPEC_BW_80"
    then have c: "ch = 7 + 16 * q" "q < 14" using assms(2) n_def by (auto simp: ch_def q_def num6_def)
    then have "ch < 256" by simp
    with c centre_6g_intro(3) [of "of_nat ch" q, unfolded u [OF this]] show ?thesis unfolding bw by linarith
  next
    assume bw: "bw = WL_CHANSPEC_BW_160"
    then have c: "ch = 15 + 32 * q" "q < 7" using assms(2) n_def by (auto simp: ch_def q_def num6_def)
    then have "ch < 256" by simp
    with c centre_6g_160 [of "of_nat ch" q, unfolded u [OF this]] show ?thesis unfolding bw by linarith
  qed
  have p: "1 + 4 * i = ch - edge bw + 4 * k" unfolding ch_def i by (simp add: algebra_simps)
  show ?thesis
    by (rule good_of [OF _ assms(1) _ _ _ _ p]) (use ch k n_def in simp_all)
qed

lemma next_6g: "it_state it = WF_ITER_RUN \<Longrightarrow> it_band it = WL_CHANSPEC_BAND_6G \<Longrightarrow>
  wf_chanspec_iter_next it = (case wf_chanspec_iter_next_6g it of (it', ok) \<Rightarrow> (it', it_chanspec it', ok))"
  by (simp add: wf_chanspec_iter_next_def)

lemma num6_le: "num6 bw \<le> 64"
  by (simp add: num6_def)

lemma step_6g:
  assumes "bw \<in> bws" "Suc i < num6 bw"
  shows "wf_chanspec_iter_next (st6 b bw (1 + 4 * i)) = (st6 b bw (1 + 4 * Suc i), prim WL_CHANSPEC_BAND_6G bw (1 + 4 * Suc i), True)"
proof -
  define p where "p = 1 + 4 * i"
  have p': "1 + 4 * Suc i = p + 4" by (simp add: p_def)
  have "has_primary WL_CHANSPEC_BAND_6G bw p" "has_primary WL_CHANSPEC_BAND_6G bw (p + 4)"
    using good_6g [OF assms(1), of i] good_6g [OF assms(1), of "Suc i"] assms(2) unfolding p' p_def [symmetric] by simp_all
  note g = good_prim [OF this(1)] and g' = good_prim [OF this(2)]
  have lt: "p < 250" using assms(2) num6_le [of bw] by (simp add: p_def)
  have "(of_nat p :: u8) < 253" using chan_less [of p 253] lt by simp
  moreover have "wf_create_chspec_from_primary (ucast (of_nat p + 4 :: u8)) bw WL_CHANSPEC_BAND_6G = prim WL_CHANSPEC_BAND_6G bw (p + 4)"
    using chan_up [of p] lt by (simp add: prim_def)
  ultimately have "wf_chanspec_iter_next_6g (st6 b bw p) = (st6 b bw (p + 4), True)"
    using g g' by (simp add: wf_chanspec_iter_next_6g_def st6_def iter_store_def Let_def)
  then show ?thesis unfolding p' p_def [symmetric] by (subst next_6g) (simp_all add: st6_def)
qed

lemma beyond_6g:
  "wf_create_chspec_from_primary 233 WL_CHANSPEC_BW_40 WL_CHANSPEC_BAND_6G = INVCHANSPEC"
  "wf_create_chspec_from_primary 225 WL_CHANSPEC_BW_80 WL_CHANSPEC_BAND_6G = INVCHANSPEC"
  "wf_create_chspec_from_primary 225 WL_CHANSPEC_BW_160 WL_CHANSPEC_BAND_6G = INVCHANSPEC"
  by code_simp+

text \<open>At the last channel of a bandwidth the next primary channel gives no specification.\<close>

lemma next_6g_last:
  assumes "bw \<in> bws" "p = 1 + 4 * (num6 bw - 1)"
  shows "wf_chanspec_iter_next_6g (st6 b bw p) = iter_store (st6 b bw p)
    (if b = INVCHANSPEC \<and> wf_iter_next_bw bw \<noteq> INVCHANSPEC then prim WL_CHANSPEC_BAND_6G (wf_iter_next_bw bw) 1 else INVCHANSPEC)"
proof -
  have "has_primary WL_CHANSPEC_BAND_6G bw p"
    unfolding assms(2) by (rule good_6g [OF assms(1)]) (simp add: num6_def)
  note g = good_prim [OF this]
  have "(if (of_nat p :: u8) < 253 then wf_create_chspec_from_primary (ucast (of_nat p + 4 :: u8)) bw WL_CHANSPEC_BAND_6G
      else INVCHANSPEC) = INVCHANSPEC"
    using assms(1) by (elim insertE emptyE) (simp_all add: assms(2) num6_def beyond_6g)
  moreover have "wf_create_chspec_from_primary (ucast (1 :: u8)) w WL_CHANSPEC_BAND_6G = prim WL_CHANSPEC_BAND_6G w 1" for w
    by (simp add: prim_def)
  moreover have "range_end (st6 b bw p) = 253" "range_start (st6 b bw p) = 1" "it_bw (st6 b bw p) = b"
    "it_chanspec (st6 b bw p) = prim WL_CHANSPEC_BAND_6G bw p" by (simp_all add: st6_def)
  ultimately show ?thesis
    unfolding wf_chanspec_iter_next_6g_def Let_def using g(3,4) by (simp only: simp_thms if_True)
qed

text \<open>The iteration over one bandwidth, up to the state at its last channel.\<close>

lemma visit_from_6g:
  assumes "bw \<in> bws" "i + m + 1 = num6 bw"
  shows "iter_visit (st6 b bw (1 + 4 * i)) =
    map_option (append (map (\<lambda>j. prim WL_CHANSPEC_BAND_6G bw (1 + 4 * j)) [Suc i..<num6 bw])) (iter_visit (st6 b bw (1 + 4 * (num6 bw - 1))))"
  using assms(2)
proof (induction m arbitrary: i)
  case 0
  then have "num6 bw = Suc i" by simp
  then show ?case by (cases "iter_visit (st6 b bw (1 + 4 * i))") simp_all
next
  case (Suc m)
  have lt: "Suc i < num6 bw" using Suc.prems by simp
  have up: "[Suc i..<num6 bw] = Suc i # [Suc (Suc i)..<num6 bw]" using lt by (simp add: upt_conv_Cons)
  have ih: "iter_visit (st6 b bw (1 + 4 * Suc i)) =
      map_option (append (map (\<lambda>j. prim WL_CHANSPEC_BAND_6G bw (1 + 4 * j)) [Suc (Suc i)..<num6 bw])) (iter_visit (st6 b bw (1 + 4 * (num6 bw - 1))))"
    by (rule Suc.IH) (use Suc.prems in simp)
  show ?case
    unfolding visit_step [OF step_6g [OF assms(1) lt]] ih up
    by (cases "iter_visit (st6 b bw (1 + 4 * (num6 bw - 1)))") simp_all
qed

lemma visit_bw_6g:
  assumes "bw \<in> bws"
  shows "map_option (Cons (prim WL_CHANSPEC_BAND_6G bw 1)) (iter_visit (st6 b bw 1)) =
    map_option (append (map (prim WL_CHANSPEC_BAND_6G bw) (prims6 bw))) (iter_visit (st6 b bw (1 + 4 * (num6 bw - 1))))"
proof -
  have "0 + (num6 bw - 1) + 1 = num6 bw" "[0..<num6 bw] = 0 # [Suc 0..<num6 bw]" by (simp_all add: num6_def upt_conv_Cons)
  from visit_from_6g [OF assms this(1), of b] this(2) show ?thesis
    by (cases "iter_visit (st6 b bw (1 + 4 * (num6 bw - 1)))") (simp_all add: prims6_def comp_def)
qed

lemma visit_end_6g:
  assumes "bw \<in> bws"
  shows "b \<noteq> INVCHANSPEC \<or> wf_iter_next_bw bw = INVCHANSPEC \<Longrightarrow> iter_visit (st6 b bw (1 + 4 * (num6 bw - 1))) = Some []"
    "b = INVCHANSPEC \<Longrightarrow> w = wf_iter_next_bw bw \<Longrightarrow> w \<in> bws \<Longrightarrow> iter_visit (st6 b bw (1 + 4 * (num6 bw - 1))) =
       map_option (append (map (prim WL_CHANSPEC_BAND_6G w) (prims6 w))) (iter_visit (st6 b w (1 + 4 * (num6 w - 1))))"
proof -
  define p where "p = 1 + 4 * (num6 bw - 1)"
  note last = next_6g_last [OF assms p_def, of b]
  have run: "it_state (st6 b bw p) = WF_ITER_RUN" "it_band (st6 b bw p) = WL_CHANSPEC_BAND_6G" by (simp_all add: st6_def)
  show "iter_visit (st6 b bw (1 + 4 * (num6 bw - 1))) = Some []" if "b \<noteq> INVCHANSPEC \<or> wf_iter_next_bw bw = INVCHANSPEC"
  proof -
    have "(if b = INVCHANSPEC \<and> wf_iter_next_bw bw \<noteq> INVCHANSPEC then prim WL_CHANSPEC_BAND_6G (wf_iter_next_bw bw) 1 else INVCHANSPEC) = INVCHANSPEC"
      using that by auto
    from last [unfolded this] obtain it' where "wf_chanspec_iter_next_6g (st6 b bw p) = (it', False)" by (simp add: iter_store_def)
    then have "wf_chanspec_iter_next (st6 b bw p) = (it', it_chanspec it', False)" using next_6g [OF run] by simp
    then show ?thesis unfolding p_def by (rule visit_stop)
  qed
  show "iter_visit (st6 b bw (1 + 4 * (num6 bw - 1))) =
      map_option (append (map (prim WL_CHANSPEC_BAND_6G w) (prims6 w))) (iter_visit (st6 b w (1 + 4 * (num6 w - 1))))"
    if b: "b = INVCHANSPEC" and w: "w = wf_iter_next_bw bw" "w \<in> bws"
  proof -
    have "has_primary WL_CHANSPEC_BAND_6G w 1" using good_6g [OF w(2), of 0] by (simp add: num6_def)
    note g = good_prim [OF this]
    have wI: "w \<noteq> INVCHANSPEC" using w(2) by auto
    have "(if b = INVCHANSPEC \<and> wf_iter_next_bw bw \<noteq> INVCHANSPEC then prim WL_CHANSPEC_BAND_6G (wf_iter_next_bw bw) 1 else INVCHANSPEC)
        = prim WL_CHANSPEC_BAND_6G w 1"
      using b wI w(1) by simp
    from last [unfolded this] have "wf_chanspec_iter_next_6g (st6 b bw p) = (st6 b w 1, True)"
      using g(5) by (simp add: iter_store_def st6_def)
    then have "wf_chanspec_iter_next (st6 b bw p) = (st6 b w 1, prim WL_CHANSPEC_BAND_6G w 1, True)"
      using next_6g [OF run] by (simp add: st6_def)
    from visit_step [OF this] show ?thesis unfolding p_def visit_bw_6g [OF w(2)] .
  qed
qed

lemma visit_init_6g:
  assumes "b = INVCHANSPEC \<or> b \<in> bws" "bw = (if b = INVCHANSPEC then WL_CHANSPEC_BW_20 else b)"
  shows "iter_visit (fst (wf_chanspec_iter_init WL_CHANSPEC_BAND_6G b)) =
    map_option (append (map (prim WL_CHANSPEC_BAND_6G bw) (prims6 bw))) (iter_visit (st6 b bw (1 + 4 * (num6 bw - 1))))"
proof -
  have bw: "bw \<in> bws" using assms by auto
  have "fst (wf_chanspec_iter_init WL_CHANSPEC_BAND_6G b) = \<lparr>it_state = WF_ITER_INIT, it_chanspec = INVCHANSPEC,
      it_band = WL_CHANSPEC_BAND_6G, it_bw = b, range_start = 0, range_end = 0, range_id = RANGE_ID_INVAL\<rparr>"
    using assms(1) by (auto simp: wf_chanspec_iter_init_def Let_def)
  moreover have "wf_create_chspec_from_primary 1 bw WL_CHANSPEC_BAND_6G = prim WL_CHANSPEC_BAND_6G bw 1" by (simp add: prim_def)
  moreover have "bw = WL_CHANSPEC_BW_20 \<or> bw = WL_CHANSPEC_BW_40 \<or> bw = WL_CHANSPEC_BW_80 \<or> bw = WL_CHANSPEC_BW_160" using bw by simp
  ultimately have "wf_chanspec_iter_next (fst (wf_chanspec_iter_init WL_CHANSPEC_BAND_6G b)) =
      (st6 b bw 1, prim WL_CHANSPEC_BAND_6G bw 1, True)"
    using assms(2) by (cases "b = INVCHANSPEC") (simp_all add: wf_chanspec_iter_next_def wf_chanspec_iter_firstchan_def
      wf_chanspec_iter_6g_range_init_def Let_def st6_def)
  from visit_step [OF this] show ?thesis unfolding visit_bw_6g [OF bw] .
qed

lemma visit_6g:
  assumes "bw \<in> bws"
  shows "iter_visit (fst (wf_chanspec_iter_init WL_CHANSPEC_BAND_6G bw)) = Some (map (prim WL_CHANSPEC_BAND_6G bw) (prims6 bw))"
proof -
  have "bw \<noteq> INVCHANSPEC" using assms by auto
  with visit_end_6g(1) [OF assms, of bw] visit_init_6g [of bw bw] assms show ?thesis by simp
qed

lemma visit_6g_all:
  "iter_visit (fst (wf_chanspec_iter_init WL_CHANSPEC_BAND_6G INVCHANSPEC)) =
    Some (concat (map (\<lambda>bw. map (prim WL_CHANSPEC_BAND_6G bw) (prims6 bw))
      [WL_CHANSPEC_BW_20, WL_CHANSPEC_BW_40, WL_CHANSPEC_BW_80, WL_CHANSPEC_BW_160]))"
  using visit_init_6g [of INVCHANSPEC WL_CHANSPEC_BW_20] visit_end_6g(1) [OF bws_members(3), of INVCHANSPEC]
    visit_end_6g(2) [OF bws_members(4) refl next_bws(1) [symmetric] bws_members(1)]
    visit_end_6g(2) [OF bws_members(1) refl next_bws(2) [symmetric] bws_members(2)]
    visit_end_6g(2) [OF bws_members(2) refl next_bws(3) [symmetric] bws_members(3)]
  by (simp add: next_bws)

end
