(* ===== verification/Chanspec_Cover.thy ===== *)
theory Chanspec_Cover
  imports Chanspec_Visit
begin

text \<open>
  The specifications the iterator visits are the valid ones of the band and the bandwidth it was asked for, each once,
  but for a few 20 MHz channels outside its tables.
\<close>

section \<open>The primary channels the iterator runs through\<close>

definition iter_skips :: "u16 \<Rightarrow> bool" where
  "iter_skips c \<longleftrightarrow> CHSPEC_IS20 c \<and>
     ((CHSPEC_BAND c = WL_CHANSPEC_BAND_5G \<and> CHSPEC_CHANNEL c \<in> {34, 38, 42, 46, 169, 173, 177})
      \<or> (CHSPEC_BAND c = WL_CHANSPEC_BAND_6G \<and> CHSPEC_CHANNEL c = 2))"

definition prims :: "u16 \<Rightarrow> u16 \<Rightarrow> nat list" where
  "prims band bw = (if band = WL_CHANSPEC_BAND_5G then prims5 bw else prims6 bw)"

lemma prims5_list:
  "prims5 WL_CHANSPEC_BW_20 = [36, 40, 44, 48, 52, 56, 60, 64, 100, 104, 108, 112, 116, 120, 124, 128, 132, 136, 140, 144,
     149, 153, 157, 161, 165]"
  "bw \<in> wides \<Longrightarrow> prims5 bw = [36, 40, 44, 48, 52, 56, 60, 64, 100, 104, 108, 112, 116, 120, 124, 128]
     @ (if bw = WL_CHANSPEC_BW_160 then [] else [132, 136, 140, 144]) @ [149, 153, 157, 161, 165, 169, 173, 177]"
  by (auto simp: prims5_def ranges5_list channels_of_def upt_conv_Cons)

lemma prims_good:
  assumes "band = WL_CHANSPEC_BAND_5G \<or> band = WL_CHANSPEC_BAND_6G" "bw \<in> bws" "p \<in> set (prims band bw)"
  shows "has_primary band bw p"
  using assms(1)
proof
  assume b: "band = WL_CHANSPEC_BAND_5G"
  then obtain r where "r \<in> set (ranges5 bw)" "p \<in> set (channels_of r)" using assms(3) by (auto simp: prims_def prims5_def)
  with ranges5_ok [OF assms(2)] b show ?thesis by (auto simp: range_ok_def)
next
  assume b: "band = WL_CHANSPEC_BAND_6G"
  then obtain i where "i < num6 bw" "p = 1 + 4 * i" using assms(3) by (auto simp: prims_def prims6_def)
  with good_6g [OF assms(2), of i] b show ?thesis by simp
qed

lemma prims_distinct: "bw \<in> bws \<Longrightarrow> distinct (prims band bw)"
proof -
  assume bw: "bw \<in> bws"
  have "distinct (prims5 bw)"
  proof (cases "bw = WL_CHANSPEC_BW_20")
    case True
    then show ?thesis by (simp add: prims5_list(1))
  next
    case False
    then have "bw \<in> wides" using bw by simp
    then show ?thesis unfolding prims5_list(2) [OF \<open>bw \<in> wides\<close>] by simp
  qed
  moreover have "distinct (prims6 bw)" by (simp add: prims6_def distinct_map inj_on_def)
  ultimately show ?thesis by (simp add: prims_def)
qed

text \<open>Conversely, the primary channel of a valid specification is among them.\<close>

lemma block_inv:
  assumes "a \<le> (x :: u32)" "(x - a) mod b = 0"
  obtains m where "unat x = unat a + unat b * m"
proof -
  have "unat (x - a) mod unat b = 0" using arg_cong [OF assms(2), of unat] by (simp add: unat_mod)
  then obtain m where "unat (x - a) = unat b * m" by (auto simp: mod_eq_0_iff_dvd dvd_def)
  with unat_sub [OF assms(1)] assms(1) show thesis by (intro that [of m]) (simp add: word_le_nat_alt)
qed

lemma table_covered:
  assumes "ch \<in> set (if bw = WL_CHANSPEC_BW_40 then wf_5g_40m_chans else if bw = WL_CHANSPEC_BW_80 then wf_5g_80m_chans else wf_5g_160m_chans)"
    "bw \<in> wides" "k < num_sb bw"
  shows "unat ch - edge bw + 4 * k \<in> set (prims5 bw)"
proof -
  let ?r = "(unat ch - edge bw, unat ch + edge bw)"
  have ne: "bw \<noteq> WL_CHANSPEC_BW_20" using assms(2) by auto
  have r: "?r \<in> set (ranges5 bw)" using assms(1) unfolding ranges5_def if_not_P [OF ne] by (simp only: set_map) (rule imageI)
  have "edge bw \<le> unat ch"
    using assms(1) by (auto simp: edge_def wf_5g_40m_chans_def wf_5g_80m_chans_def wf_5g_160m_chans_def split: if_splits)
  then have "(unat ch + edge bw - (unat ch - edge bw)) div 4 = num_sb bw - 1" using edge_num_sb [of bw] by simp
  then have "unat ch - edge bw + 4 * k \<in> set (channels_of ?r)" using assms(3) by (simp add: channels_of_def del: upt_Suc)
  with r show ?thesis unfolding prims5_def by auto
qed

lemma covered_5g:
  assumes "centre_ok WL_CHANSPEC_BAND_5G bw x" "k < num_sb bw" "bw = WL_CHANSPEC_BW_20 \<Longrightarrow> x \<notin> {34, 38, 42, 46, 169, 173, 177}"
  shows "unat x - edge bw + 4 * k \<in> set (prims5 bw)"
  using assms(1)
proof (cases rule: centre_cases)
  case 1
  then have "unat x \<in> set (prims5 WL_CHANSPEC_BW_20)"
    unfolding prims5_list using assms(3) by (auto simp: centre_defs)
  then show ?thesis using assms(2) 1 by simp
next
  case 2
  then obtain ch where "ch \<in> set wf_5g_40m_chans" "x = ucast ch" by (auto simp: wf_valid_40MHz_center_chan_def list_ex_iff)
  then show ?thesis using table_covered [OF _ _ assms(2)] 2 by simp
next
  case 3
  then obtain ch where "ch \<in> set wf_5g_80m_chans" "x = ucast ch"
    using table_id_mem [of wf_5g_80m_chans x 0] by (auto simp: wf_valid_80MHz_center_chan_def channel_80mhz_to_id_def)
  then show ?thesis using table_covered [OF _ _ assms(2)] 3 by simp
next
  case 4
  then obtain ch where "ch \<in> set wf_5g_160m_chans" "x = ucast ch" by (auto simp: wf_valid_160MHz_center_chan_def list_ex_iff)
  then show ?thesis using table_covered [OF _ _ assms(2)] 4 by simp
qed

lemma prims6_mem: "p = 1 + 4 * i \<Longrightarrow> i < num6 bw \<Longrightarrow> p \<in> set (prims6 bw)"
  by (auto simp: prims6_def)

lemma covered_6g:
  assumes "centre_ok WL_CHANSPEC_BAND_6G bw x" "k < num_sb bw" "bw = WL_CHANSPEC_BW_20 \<Longrightarrow> x \<noteq> 2"
  shows "unat x - edge bw + 4 * k \<in> set (prims6 bw)"
  using assms(1)
proof (cases rule: centre_cases)
  case 1
  then have x: "1 \<le> x" "x \<le> 253" "(x - 1) mod 4 = 0" using assms(3) by (auto simp: wf_valid_20MHz_chan_def)
  then obtain m where m: "unat x = 1 + 4 * m" using block_inv [of 1 x 4] by auto
  have "m < 64" using x(2) m by (simp add: word_le_nat_alt)
  then show ?thesis using 1 assms(2) m by (intro prims6_mem [of _ m]) (simp_all add: num6_def)
next
  case 2
  then have x: "3 \<le> x" "x \<le> 227" "(x - 3) mod 8 = 0" by (auto simp: wf_valid_40MHz_center_chan_def)
  then obtain m where m: "unat x = 3 + 8 * m" using block_inv [of 3 x 8] by auto
  have "m < 29" using x(2) m by (simp add: word_le_nat_alt)
  then show ?thesis using 2 assms(2) m by (intro prims6_mem [of _ "2 * m + k"]) (simp_all add: num6_def)
next
  case 3
  then have x: "7 \<le> x" "x \<le> 215" "(x - 7) mod 16 = 0"
    by (auto simp: wf_valid_80MHz_center_chan_def channel_6g_80mhz_to_id_def split: if_splits)
  then obtain m where m: "unat x = 7 + 16 * m" using block_inv [of 7 x 16] by auto
  have "m < 14" using x(2) m by (simp add: word_le_nat_alt)
  then show ?thesis using 3 assms(2) m by (intro prims6_mem [of _ "4 * m + k"]) (simp_all add: num6_def)
next
  case 4
  then have x: "15 \<le> x" "x \<le> 207" "(x - 15) mod 32 = 0" by (auto simp: wf_valid_160MHz_center_chan_def)
  then obtain m where m: "unat x = 15 + 32 * m" using block_inv [of 15 x 32] by auto
  have "m < 7" using x(2) m by (simp add: word_le_nat_alt)
  then show ?thesis using 4 assms(2) m by (intro prims6_mem [of _ "8 * m + k"]) (simp_all add: num6_def)
qed

section \<open>The specifications visited\<close>

definition visited :: "u16 \<Rightarrow> u16 \<Rightarrow> u16 list" where
  "visited band bw =
     (if band \<noteq> WL_CHANSPEC_BAND_2G then map (prim band bw) (prims band bw)
      else if bw = WL_CHANSPEC_BW_20 then map (chspec_of band bw 0) [1, 2, 3, 4, 5, 6, 7, 8, 9, 10, 11, 12, 13, 14]
      else if bw = WL_CHANSPEC_BW_40 then concat (map (\<lambda>ch. [chspec_of band bw 0 ch, chspec_of band bw 1 ch]) [3, 4, 5, 6, 7, 8, 9, 10, 11])
      else [])"

abbreviation asked :: "u16 \<Rightarrow> u16 \<Rightarrow> u16 set" where
  "asked band bw \<equiv> {c. wf_chspec_valid c \<and> CHSPEC_BAND c = band \<and> CHSPEC_BW c = bw \<and> \<not> iter_skips c}"

lemma prim_of_valid:
  assumes "wf_chspec_valid c" "CHSPEC_BW c = WL_CHANSPEC_BW_20 \<or> CHSPEC_BAND c \<noteq> WL_CHANSPEC_BAND_2G"
  shows "prim (CHSPEC_BAND c) (CHSPEC_BW c) (unat (wf_chspec_primary20_chan c)) = c"
  unfolding prim_def using from_primary_of [OF assms] by simp

lemma primary_chan_20:
  assumes "wf_chspec_valid c" "CHSPEC_IS20 c"
  shows "wf_chspec_primary20_chan c = CHSPEC_CHANNEL c"
proof -
  obtain k x where "k < num_sb (CHSPEC_BW c)" "x = ucast (CHSPEC_CHANNEL c)"
    "unat (wf_chspec_primary20_chan c) = unat (x :: u32) - edge (CHSPEC_BW c) + 4 * k"
    using assms(1) by (rule valid_primary)
  with assms(2) have "unat (wf_chspec_primary20_chan c) = unat (CHSPEC_CHANNEL c)" by simp
  then show ?thesis by (simp add: word_unat_eq_iff)
qed

lemma prim_not_skipped:
  assumes "band = WL_CHANSPEC_BAND_5G \<or> band = WL_CHANSPEC_BAND_6G" "bw \<in> bws" "p \<in> set (prims band bw)"
  shows "\<not> iter_skips (prim band bw p)"
proof
  assume sk: "iter_skips (prim band bw p)"
  note g = good_prim [OF prims_good [OF assms]]
  have bw: "bw = WL_CHANSPEC_BW_20" using sk g(3) by (simp add: iter_skips_def)
  have "CHSPEC_CHANNEL (prim band bw p) = of_nat p" using primary_chan_20 [OF g(1)] g(3,4) bw by simp
  then have c: "unat (CHSPEC_CHANNEL (prim band bw p)) = p" using unat_of_nat_u8 [OF g(6)] by (simp only:)
  from assms(1) show False
  proof
    assume b: "band = WL_CHANSPEC_BAND_5G"
    have "unat (CHSPEC_CHANNEL (prim band bw p)) \<in> {34, 38, 42, 46, 169, 173, 177}" using sk g(2) b by (auto simp: iter_skips_def)
    moreover have "p \<in> set (prims5 WL_CHANSPEC_BW_20)" using assms(3) b bw by (simp add: prims_def)
    ultimately show False unfolding c prims5_list by auto
  next
    assume b: "band = WL_CHANSPEC_BAND_6G"
    have "unat (CHSPEC_CHANNEL (prim band bw p)) = 2" using sk g(2) b by (auto simp: iter_skips_def)
    moreover obtain i where "p = 1 + 4 * i" using assms(3) b by (auto simp: prims_def prims6_def)
    ultimately show False unfolding c by presburger
  qed
qed

lemma valid_in_prims:
  assumes "wf_chspec_valid c" "CHSPEC_BAND c = WL_CHANSPEC_BAND_5G \<or> CHSPEC_BAND c = WL_CHANSPEC_BAND_6G" "\<not> iter_skips c"
  shows "unat (wf_chspec_primary20_chan c) \<in> set (prims (CHSPEC_BAND c) (CHSPEC_BW c))"
proof -
  obtain k x where k: "k < num_sb (CHSPEC_BW c)" and ok: "centre_ok (CHSPEC_BAND c) (CHSPEC_BW c) (x :: u32)"
    and x: "x = ucast (CHSPEC_CHANNEL c)" and p: "unat (wf_chspec_primary20_chan c) = unat x - edge (CHSPEC_BW c) + 4 * k"
    using assms(1) by (rule valid_primary)
  have sk: "CHSPEC_IS20 c \<Longrightarrow> CHSPEC_BAND c = WL_CHANSPEC_BAND_5G \<Longrightarrow> unat (CHSPEC_CHANNEL c) \<notin> {34, 38, 42, 46, 169, 173, 177}"
    "CHSPEC_IS20 c \<Longrightarrow> CHSPEC_BAND c = WL_CHANSPEC_BAND_6G \<Longrightarrow> unat (CHSPEC_CHANNEL c) \<noteq> 2"
    using assms(3) by (auto simp: iter_skips_def word_unat_eq_iff)
  show ?thesis
    using assms(2)
  proof
    assume b: "CHSPEC_BAND c = WL_CHANSPEC_BAND_5G"
    have "CHSPEC_IS20 c \<Longrightarrow> x \<notin> {34, 38, 42, 46, 169, 173, 177}" using sk(1) b unfolding x by (auto simp: word_unat_eq_iff)
    then show ?thesis using covered_5g [OF ok [unfolded b] k] b p by (simp add: prims_def)
  next
    assume b: "CHSPEC_BAND c = WL_CHANSPEC_BAND_6G"
    have "CHSPEC_IS20 c \<Longrightarrow> x \<noteq> 2" using sk(2) b unfolding x by (auto simp: word_unat_eq_iff)
    then show ?thesis using covered_6g [OF ok [unfolded b] k] b p by (simp add: prims_def)
  qed
qed

lemma visited_high:
  assumes "band = WL_CHANSPEC_BAND_5G \<or> band = WL_CHANSPEC_BAND_6G" "bw \<in> bws"
  shows "distinct (visited band bw)" "set (visited band bw) = asked band bw"
proof -
  have v: "visited band bw = map (prim band bw) (prims band bw)" using assms(1) by (auto simp: visited_def)
  note g = good_prim [OF prims_good [OF assms]]
  have "inj_on (prim band bw) (set (prims band bw))"
  proof (rule inj_onI)
    fix p q assume p: "p \<in> set (prims band bw)" and q: "q \<in> set (prims band bw)" and e: "prim band bw p = prim band bw q"
    have "(of_nat p :: u8) = of_nat q" using g(4) [OF p] g(4) [OF q] e by metis
    from arg_cong [OF this, of unat] show "p = q" unfolding unat_of_nat_u8 [OF g(6) [OF p]] unat_of_nat_u8 [OF g(6) [OF q]] .
  qed
  then show "distinct (visited band bw)" unfolding v using prims_distinct [OF assms(2)] by (simp add: distinct_map)
  have "c \<in> set (visited band bw)" if c: "c \<in> asked band bw" for c
  proof -
    have b: "CHSPEC_BAND c = band" "CHSPEC_BW c = bw" "wf_chspec_valid c" "band \<noteq> WL_CHANSPEC_BAND_2G" using c assms(1) by auto
    have "prim band bw (unat (wf_chspec_primary20_chan c)) = c" using prim_of_valid [of c] b by simp
    moreover have "unat (wf_chspec_primary20_chan c) \<in> set (prims band bw)" using valid_in_prims [of c] c assms(1) by simp
    ultimately show ?thesis unfolding v set_map by (rule image_eqI [OF sym])
  qed
  moreover have "c \<in> asked band bw" if c: "c \<in> set (visited band bw)" for c
  proof -
    obtain p where p: "p \<in> set (prims band bw)" "c = prim band bw p" using c unfolding v by auto
    show ?thesis unfolding p(2) using g(1-3) [OF p(1)] prim_not_skipped [OF assms p(1)] by simp
  qed
  ultimately show "set (visited band bw) = asked band bw" by blast
qed

text \<open>In the 2.4 GHz band a primary channel does not determine a 40 MHz specification; there the centres are enumerated.\<close>

lemma centre_2g_cases:
  assumes "centre_ok WL_CHANSPEC_BAND_2G bw (of_nat ch)" "ch < 256"
  shows "(bw = WL_CHANSPEC_BW_20 \<and> 1 \<le> ch \<and> ch \<le> 14) \<or> (bw = WL_CHANSPEC_BW_40 \<and> 3 \<le> ch \<and> ch \<le> 11)"
  using assms(1)
proof (cases rule: centre_cases)
  case 1
  then show ?thesis using assms(2) by (auto simp: wf_valid_20MHz_chan_def word_le_nat_alt unat_of_nat_u32)
next
  case 2
  then show ?thesis using assms(2) by (auto simp: wf_valid_40MHz_center_chan_def word_le_nat_alt unat_of_nat_u32)
qed (simp_all add: wf_valid_80MHz_center_chan_def wf_valid_160MHz_center_chan_def)

lemma visited_2g_mem:
  "c \<in> set (visited WL_CHANSPEC_BAND_2G bw) \<longleftrightarrow>
   (\<exists>k ch. c = chspec_of WL_CHANSPEC_BAND_2G bw k ch \<and> (bw = WL_CHANSPEC_BW_20 \<and> k = 0 \<and> 1 \<le> ch \<and> ch \<le> 14
      \<or> bw = WL_CHANSPEC_BW_40 \<and> k < 2 \<and> 3 \<le> ch \<and> ch \<le> 11))"
proof -
  have a: "set [1, 2, 3, 4, 5, 6, 7, 8, 9, 10, 11, 12, 13, 14] = {1..14 :: nat}" "set [3, 4, 5, 6, 7, 8, 9, 10, 11] = {3..11 :: nat}"
    by (code_simp, code_simp)
  have b: "k < 2 \<longleftrightarrow> k = 0 \<or> k = (1 :: nat)" for k by auto
  show ?thesis
  proof (cases "bw = WL_CHANSPEC_BW_20")
    case True
    then have "set (visited WL_CHANSPEC_BAND_2G bw) = chspec_of WL_CHANSPEC_BAND_2G bw 0 ` {1..14}"
      unfolding a(1) [symmetric] set_map [symmetric] by (simp add: visited_def)
    then show ?thesis using True by (auto simp: image_iff)
  next
    case False
    have "set (visited WL_CHANSPEC_BAND_2G bw) =
        (if bw = WL_CHANSPEC_BW_40 then \<Union>ch \<in> {3..11}. {chspec_of WL_CHANSPEC_BAND_2G bw 0 ch, chspec_of WL_CHANSPEC_BAND_2G bw 1 ch} else {})"
      unfolding visited_def a(2) [symmetric] using False by simp blast
    moreover have "c \<in> (\<Union>ch \<in> {3..11}. {f 0 ch, f 1 ch}) \<longleftrightarrow> (\<exists>k ch. c = f k ch \<and> k < 2 \<and> 3 \<le> ch \<and> ch \<le> 11)" for f :: "nat \<Rightarrow> nat \<Rightarrow> u16"
      unfolding b by (simp add: Bex_def) blast
    ultimately show ?thesis using False by simp
  qed
qed

lemma visited_2g:
  assumes "bw \<in> bws"
  shows "distinct (visited WL_CHANSPEC_BAND_2G bw)" "set (visited WL_CHANSPEC_BAND_2G bw) = asked WL_CHANSPEC_BAND_2G bw"
proof -
  show "distinct (visited WL_CHANSPEC_BAND_2G bw)"
  proof -
    have "distinct (visited WL_CHANSPEC_BAND_2G WL_CHANSPEC_BW_20)" "distinct (visited WL_CHANSPEC_BAND_2G WL_CHANSPEC_BW_40)"
      by code_simp+
    moreover have "bw \<noteq> WL_CHANSPEC_BW_20 \<Longrightarrow> bw \<noteq> WL_CHANSPEC_BW_40 \<Longrightarrow> visited WL_CHANSPEC_BAND_2G bw = []"
      by (simp add: visited_def)
    ultimately show ?thesis by (cases "bw = WL_CHANSPEC_BW_20"; cases "bw = WL_CHANSPEC_BW_40") simp_all
  qed
  have "c \<in> set (visited WL_CHANSPEC_BAND_2G bw)" if c: "c \<in> asked WL_CHANSPEC_BAND_2G bw" for c
  proof -
    have v: "wf_chspec_valid c" using c by simp
    then obtain band w k ch where d: "c = chspec_of band w k ch" "band \<in> bands" "w \<in> bws" "k < num_sb w" "k < 8" "ch < 256"
      and ok: "centre_ok band w (of_nat ch)" by (rule valid_cases)
    have "band = WL_CHANSPEC_BAND_2G" "w = bw" using c chspec_fields(1,2) [OF d(2,3,5,6)] unfolding d(1) by simp_all
    then show ?thesis
      unfolding visited_2g_mem using d(1,4) centre_2g_cases [of w ch] ok d(6) by (intro exI [of _ k] exI [of _ ch]) auto
  qed
  moreover have "c \<in> asked WL_CHANSPEC_BAND_2G bw" if c: "c \<in> set (visited WL_CHANSPEC_BAND_2G bw)" for c
  proof -
    obtain k ch where d: "c = chspec_of WL_CHANSPEC_BAND_2G bw k ch"
      and r: "bw = WL_CHANSPEC_BW_20 \<and> k = 0 \<and> 1 \<le> ch \<and> ch \<le> 14 \<or> bw = WL_CHANSPEC_BW_40 \<and> k < 2 \<and> 3 \<le> ch \<and> ch \<le> 11"
      using c unfolding visited_2g_mem by blast
    have ch: "ch < 256" and k: "k < num_sb bw" "k < 8" using r by auto
    have "centre_ok WL_CHANSPEC_BAND_2G bw (of_nat ch)"
      using r ch by (auto simp: centre_ok_def wf_valid_20MHz_chan_def wf_valid_40MHz_center_chan_def word_le_nat_alt unat_of_nat_u32)
    then have "wf_chspec_valid c" "CHSPEC_BAND c = WL_CHANSPEC_BAND_2G" "CHSPEC_BW c = bw"
      using built [OF d _ assms k(1) ch] by simp_all
    then show ?thesis by (simp add: iter_skips_def)
  qed
  ultimately show "set (visited WL_CHANSPEC_BAND_2G bw) = asked WL_CHANSPEC_BAND_2G bw" by blast
qed

lemma visit_2g:
  "iter_visit (fst (wf_chanspec_iter_init WL_CHANSPEC_BAND_2G WL_CHANSPEC_BW_20)) = Some (visited WL_CHANSPEC_BAND_2G WL_CHANSPEC_BW_20)"
  "iter_visit (fst (wf_chanspec_iter_init WL_CHANSPEC_BAND_2G WL_CHANSPEC_BW_40)) = Some (visited WL_CHANSPEC_BAND_2G WL_CHANSPEC_BW_40)"
  "iter_visit (fst (wf_chanspec_iter_init WL_CHANSPEC_BAND_2G INVCHANSPEC)) =
     Some (visited WL_CHANSPEC_BAND_2G WL_CHANSPEC_BW_20 @ visited WL_CHANSPEC_BAND_2G WL_CHANSPEC_BW_40)"
  by code_simp+

section \<open>The iteration\<close>

lemma visited_spec:
  assumes "band \<in> bands" "bw \<in> bws"
  shows "distinct (visited band bw) \<and> set (visited band bw) = asked band bw"
  using assms visited_high [of band bw] visited_2g [of bw] by auto

lemma visit_one:
  assumes "band \<in> bands" "bw \<in> bws" "snd (wf_chanspec_iter_init band bw)"
  shows "iter_visit (fst (wf_chanspec_iter_init band bw)) = Some (visited band bw)"
proof (cases "band = WL_CHANSPEC_BAND_2G")
  case True
  then have "bw = WL_CHANSPEC_BW_20 \<or> bw = WL_CHANSPEC_BW_40"
    using assms(2,3) by (auto simp: wf_chanspec_iter_init_def Let_def)
  then show ?thesis using visit_2g(1,2) True by auto
next
  case False
  then have "band = WL_CHANSPEC_BAND_5G \<or> band = WL_CHANSPEC_BAND_6G" using assms(1) by simp
  then show ?thesis using visit_5g [OF assms(2)] visit_6g [OF assms(2)] by (auto simp: visited_def prims_def)
qed

lemma visit_all:
  assumes "band \<in> bands"
  shows "iter_visit (fst (wf_chanspec_iter_init band INVCHANSPEC)) =
    Some (concat (map (visited band) [WL_CHANSPEC_BW_20, WL_CHANSPEC_BW_40, WL_CHANSPEC_BW_80, WL_CHANSPEC_BW_160]))"
proof -
  have "visited WL_CHANSPEC_BAND_2G WL_CHANSPEC_BW_80 = []" "visited WL_CHANSPEC_BAND_2G WL_CHANSPEC_BW_160 = []"
    by (simp_all add: visited_def)
  then show ?thesis
    using assms visit_2g(3) visit_5g_all visit_6g_all by (elim insertE emptyE) (simp_all add: visited_def prims_def)
qed

lemma visit_refused: "\<not> snd (wf_chanspec_iter_init band bw) \<Longrightarrow> iter_visit (fst (wf_chanspec_iter_init band bw)) = Some []"
proof -
  assume "\<not> snd (wf_chanspec_iter_init band bw)"
  then have "it_state (fst (wf_chanspec_iter_init band bw)) = WF_ITER_DONE"
    by (auto simp: wf_chanspec_iter_init_def Let_def split: if_splits)
  then show ?thesis by (subst iter_visit.simps) (simp add: wf_chanspec_iter_next_def)
qed

lemma visit_asked:
  assumes "snd (wf_chanspec_iter_init band bw)"
  shows "\<exists>cs. iter_visit (fst (wf_chanspec_iter_init band bw)) = Some cs \<and> distinct cs \<and>
    set cs = {c. wf_chspec_valid c \<and> CHSPEC_BAND c = band \<and> (bw = INVCHANSPEC \<or> CHSPEC_BW c = bw) \<and> \<not> iter_skips c}"
proof -
  have band: "band \<in> bands" and bw: "bw \<in> bws \<or> bw = INVCHANSPEC"
    using assms by (auto simp: wf_chanspec_iter_init_def Let_def split: if_splits)
  show ?thesis
  proof (cases "bw = INVCHANSPEC")
    case False
    then have w: "bw \<in> bws" using bw by simp
    show ?thesis using visit_one [OF band w assms] visited_spec [OF band w] False by simp
  next
    case True
    let ?ws = "[WL_CHANSPEC_BW_20, WL_CHANSPEC_BW_40, WL_CHANSPEC_BW_80, WL_CHANSPEC_BW_160]"
    have d: "distinct (visited band w)" "set (visited band w) = asked band w" if "w \<in> bws" for w
      using visited_spec [OF band that] by simp_all
    note d4 = d [OF bws_members(4)] d [OF bws_members(1)] d [OF bws_members(2)] d [OF bws_members(3)]
    have dist: "distinct (concat (map (visited band) ?ws))" using d4 by auto
    have v: "CHSPEC_BW c \<in> bws" if "wf_chspec_valid c" for c using that by (rule valid_primary)
    have st: "set (concat (map (visited band) ?ws)) = {c. wf_chspec_valid c \<and> CHSPEC_BAND c = band \<and> \<not> iter_skips c}"
      (is "?L = ?R")
    proof -
      have "?L = asked band WL_CHANSPEC_BW_20 \<union> asked band WL_CHANSPEC_BW_40 \<union> asked band WL_CHANSPEC_BW_80 \<union> asked band WL_CHANSPEC_BW_160"
        using d4 by auto
      also have "\<dots> = ?R" using v by blast
      finally show ?thesis .
    qed
    show ?thesis using visit_all [OF band] dist st True by (intro exI [of _ "concat (map (visited band) ?ws)"]) (simp only: simp_thms)
  qed
qed

end
