(* ===== verification/Chanspec_Correct.thy ===== *)
theory Chanspec_Correct
  imports Chanspec_Text Chanspec_Foreach Chanspec_Freq Chanspec_Cover
begin

text \<open>
  The channel specifications of \<open>bcmwifi_channels.c\<close>: what the creators, the text forms, the sub-band functions, the
  overlap test, the frequency conversions and the iterator guarantee. Specifications wider than 160 MHz do not occur in
  this build (\<open>wf_chspec_malformed\<close> refuses them).
\<close>



text \<open>
  C36: Every valid specification has a text form, which \<open>wf_chspec_aton\<close> reads back as the same specification; it is also
  what the creators give for its primary channel, bandwidth and band (40 MHz in the 2.4 GHz band: for its primary channel
  and side band).
\<close>

theorem chanspec_roundtrip:
  assumes "wf_chspec_valid c"
  shows "(\<exists>s. wf_chspec_ntoa c = Some s \<and> wf_chspec_aton s = c)
    \<and> (if CHSPEC_IS40 c \<and> CHSPEC_BAND c = WL_CHANSPEC_BAND_2G
       then wf_create_40MHz_chspec_primary_sb (ucast (wf_chspec_primary20_chan c)) (CHSPEC_CTL_SB c) (CHSPEC_BAND c) = c
       else wf_create_chspec_from_primary (ucast (wf_chspec_primary20_chan c)) (CHSPEC_BW c) (CHSPEC_BAND c) = c)"
proof
  show "\<exists>s. wf_chspec_ntoa c = Some s \<and> wf_chspec_aton s = c"
    using ntoa_valid [OF assms] aton_ntoa [OF assms] by blast
  have "CHSPEC_BW c \<in> bws" using assms by (rule valid_primary)
  moreover have "CHSPEC_BAND c = WL_CHANSPEC_BAND_2G \<Longrightarrow> CHSPEC_BW c = WL_CHANSPEC_BW_20 \<or> CHSPEC_BW c = WL_CHANSPEC_BW_40"
    using valid_bw_2g [OF assms] .
  ultimately show "if CHSPEC_IS40 c \<and> CHSPEC_BAND c = WL_CHANSPEC_BAND_2G
       then wf_create_40MHz_chspec_primary_sb (ucast (wf_chspec_primary20_chan c)) (CHSPEC_CTL_SB c) (CHSPEC_BAND c) = c
       else wf_create_chspec_from_primary (ucast (wf_chspec_primary20_chan c)) (CHSPEC_BW c) (CHSPEC_BAND c) = c"
    using primary_sb_of [OF assms] from_primary_of [OF assms] by (cases "CHSPEC_BAND c = WL_CHANSPEC_BAND_2G") auto
qed

theorem chanspec_roundtrip_witness: "\<exists>s. wf_chspec_ntoa 0xe02a = Some s \<and> wf_chspec_aton s = 0xe02a"
proof -
  have "wf_chspec_valid 0xe02a" by code_simp
  from chanspec_roundtrip [OF this] show ?thesis by blast
qed

text \<open>
  C37: The narrower specifications the driver derives from a valid one lie inside it and keep its primary channel: the
  primary 20 MHz channel always, the primary 40 MHz half of 80 and 160 MHz, and the primary and the secondary 80 MHz of
  160 MHz, which together cover it and do not meet.
\<close>

theorem halves_of_chanspec:
  assumes "wf_chspec_valid c"
  shows "(contains c (wf_chspec_primary20_chspec c) \<and> CHSPEC_IS20 (wf_chspec_primary20_chspec c)
      \<and> CHSPEC_CHANNEL (wf_chspec_primary20_chspec c) = wf_chspec_primary20_chan c)
    \<and> (CHSPEC_IS80 c \<or> CHSPEC_IS160 c \<longrightarrow> contains c (wf_chspec_primary40_chspec c) \<and> CHSPEC_IS40 (wf_chspec_primary40_chspec c)
      \<and> wf_chspec_primary20_chan (wf_chspec_primary40_chspec c) = wf_chspec_primary20_chan c)
    \<and> (CHSPEC_IS160 c \<longrightarrow> contains c (wf_chspec_primary80_chspec c) \<and> CHSPEC_IS80 (wf_chspec_primary80_chspec c)
      \<and> wf_chspec_primary20_chan (wf_chspec_primary80_chspec c) = wf_chspec_primary20_chan c
      \<and> contains c (wf_chspec_secondary80_chspec c) \<and> CHSPEC_IS80 (wf_chspec_secondary80_chspec c)
      \<and> sub_bands (wf_chspec_primary80_chspec c) \<union> sub_bands (wf_chspec_secondary80_chspec c) = sub_bands c
      \<and> sub_bands (wf_chspec_primary80_chspec c) \<inter> sub_bands (wf_chspec_secondary80_chspec c) = {})"
  using primary20_chspec_correct [OF assms] primary40_correct_80 [OF assms] primary40_correct_160 [OF assms]
    primary80_correct [OF assms] by blast

theorem halves_of_chanspec_witness:
  "contains 0xe832 (wf_chspec_primary20_chspec 0xe832) \<and> contains 0xe832 (wf_chspec_primary40_chspec 0xe832)
   \<and> sub_bands (wf_chspec_primary80_chspec 0xe832) \<inter> sub_bands (wf_chspec_secondary80_chspec 0xe832) = {}"
proof -
  have "wf_chspec_valid 0xe832" "CHSPEC_IS160 0xe832" by code_simp+
  with halves_of_chanspec [OF this(1)] show ?thesis by blast
qed





text \<open>
  C40: The client loop of the iterator ends for every band and bandwidth. When the iterator accepts them, the loop sees
  each valid specification of that band and bandwidth (of every bandwidth, when none is given) exactly once and nothing
  else, but for eight 20 MHz channels: 34, 38, 42, 46, 169, 173 and 177 in the 5 GHz band and 2 in the 6 GHz band. When it
  refuses them the loop sees nothing.
\<close>

theorem iterator_visits:
  "\<exists>cs. iter_visit (fst (wf_chanspec_iter_init band bw)) = Some cs \<and> distinct cs
     \<and> set cs = (if snd (wf_chanspec_iter_init band bw)
         then {c. wf_chspec_valid c \<and> CHSPEC_BAND c = band \<and> (bw = INVCHANSPEC \<or> CHSPEC_BW c = bw) \<and> \<not> iter_skips c}
         else {})"
  using visit_asked [of band bw] visit_refused [of band bw] by (cases "snd (wf_chanspec_iter_init band bw)") simp_all

end
