(* ===== verification/Spec2Isabelle.thy ===== *)
theory Spec2Isabelle
  imports Pktq_Correct Xtlv_Correct Tlv_Correct Id_Alloc Crc Stdlib_S Bloom Recovery_Correct Dbg_Ring_Correct Dll
    Flow_Correct Tx_Correct D2h_Correct Chanspec_Correct
begin

text \<open>
  A verification library for the C code of the hub-11 board support: the rescue init that repairs the root file system
  (\<open>src/recovery-init/recovery_init.c\<close>) and the algorithmic parts of the host driver of its wireless chip, \<open>bcmdhd\<close>
  (\<open>src/kernel-extra/drivers/net/wireless/rockchip_wlan/rkwifi/bcmdhd\<close>; file names below are relative to it). The driver
  is modelled as the board builds it: Linux host, PCIe bus (\<open>PCIE_FULL_DONGLE\<close>), TDLS and lossless roaming on,
  router and thread-safe queue options off, \<open>ASSERT\<close> empty.

  \<^bold>\<open>The parts and how they work together.\<close> A packet of the network stack reaches the transmit entry, which looks up the
  flow ring of its interface, priority and destination (\<open>dhd_flowring.c\<close>). A new flow takes an id from an id allocator
  (\<open>id16_map\<close> of \<open>bcmutils.c\<close>), is chained in a hash table, and a ring is requested from the device. The packet waits in
  the backup queue of its ring, a linked packet queue like those of \<open>hnd_pktq.c\<close>; when the device has created the ring it
  is put on a doubly linked list of active rings (\<open>dll\<close> of \<open>bcmutils.h\<close>) and the queue is drained (\<open>dhd_pcie.c\<close>) by
  \<open>dhd_prot_txdata\<close> of \<open>dhd_msgbuf.c\<close>: it takes a packet id for the buffer, writes a work item into the message ring that
  the host shares with the device, and publishes the write index. The device answers through completion rings; the host
  waits until an item is really there (sequence number or checksum), dispatches it on its message type, and a transmit
  status gives the packet id and the buffer back. Control
  traffic carries records, information elements (\<open>bcmutils.c\<close>) or extended TLVs (\<open>bcmxtlv.c\<close>), protected by checksums;
  channels are named by 16 bit specifications (\<open>bcmwifi_channels.c\<close>);
  logs go through debug rings (\<open>dhd_dbg_ring.c\<close>), which copy with the bounds checking functions of \<open>bcmstdlib_s.c\<close>.

  \<^bold>\<open>Theories.\<close>
  \<^item> \<open>Prelude\<close>: integer types, pointers (\<open>nat\<close>, \<open>NULL = 0\<close>), flat byte memory, \<open>BCME_*\<close> codes, unaligned loads and stores,
    shared lemmas and the collections \<open>mem_simps\<close> and others.
  \<^item> \<open>Pktq\<close> (\<open>hnd_pktq.c\<close>): every operation on link level; \<open>Pktq_Rep\<close> the representation of packet lists; \<open>Pktq_Spec\<close>
    the abstract machine; \<open>Pktq_Ops\<close> one refinement lemma per operation; \<open>Pktq_Fifo\<close> the interface \<open>fifo_queue\<close> that the
    flush and filter loops rely on, interpreted for both kinds of queue; \<open>Pktq_Machine\<close> arbitrary runs; \<open>Pktq_Correct\<close>
    the properties C1 to C5.
  \<^item> \<open>Xtlv\<close>, \<open>Xtlv_Correct\<close> (\<open>bcmxtlv.c\<close>): round trips of records and buffers, writes inside the buffer, searches that
    stay inside it (C6 to C9).
  \<^item> \<open>Tlv\<close>, \<open>Tlv_Correct\<close> (element functions of \<open>bcmutils.c\<close>): each parser returns the first matching element of the decoded
    buffer, writers produce what decodes to it (C10 to C12). The loops share the locale \<open>tlv_scan\<close>.
  \<^item> \<open>Mwbmap\<close>, \<open>Mwbmap_Correct\<close>, \<open>Id_Alloc\<close> (\<open>bcm_mwbmap_*\<close>, \<open>id16_map_*\<close>): the locale \<open>id_allocator\<close> is the contract of
    an id allocator; both allocators and the pools of \<open>Dll\<close> interpret it (C13, C14).
  \<^item> \<open>Crc\<close>: tables and loops against the bit serial register, error detection (C15 to C17).
  \<^item> \<open>Stdlib_S\<close> (\<open>bcmstdlib_s.c\<close>): contracts of the bounds checking functions (C18).
  \<^item> \<open>Bloom\<close> (\<open>bcmbloom.c\<close>): no false negatives, no leaks (C19).
  \<^item> \<open>Recovery\<close>, \<open>Recovery_Correct\<close>: the rescue init as a sequence of system calls to an arbitrary kernel; mount
    discipline, descriptors, and that it ends (C20 to C22).
  \<^item> \<open>Dbg_Ring\<close>, \<open>Dbg_Ring_Rep\<close>, \<open>Dbg_Ring_Correct\<close>: the debug rings in byte memory; what is delivered was pushed, and
    first in first out as long as the padding flag is right (C23, C24).
  \<^item> \<open>Dll\<close>: doubly linked lists and pools (C25). \<open>Flow_Queue\<close>: backup queues. \<open>Flowring\<close>: flow ids, lookup, creation and
    release. \<open>Flow_Bus\<close>: start and stop, ring life cycle, transmit path, interface events. \<open>Flow_Ids\<close>, \<open>Flow_Lookup\<close>,
    \<open>Flow_Tx\<close>: the invariants of ids, of the lookup table and of packets. \<open>Flow_Machine\<close>: all of it as a machine whose
    events come in any order. \<open>Flow_Correct\<close>: C26 to C28.
  \<^item> \<open>Pktid\<close> (\<open>dhd_pktid_map_*\<close>, \<open>dhd_pktid_audit\<close>): the map from packet ids to buffers; an id given out is not in use,
    and it returns the buffer it was saved with, once (C29).
  \<^item> \<open>Msg_Ring\<close>, \<open>Msg_Ring_Rep\<close> (ring arithmetic of \<open>dhd_msgbuf.c\<close> and \<open>bcmring\<close> macros): space, index wrap, producer and
    consumer; \<open>Prot_Tx\<close>, \<open>Prot_Tx_Rep\<close>: \<open>dhd_prot_txdata\<close> with its error paths, the flush of pending items and the
    handler of transmit status; \<open>Tx_Machine\<close>: host and device as a machine; \<open>Tx_Correct\<close>: work items arrive in order and
    unchanged, every buffer is in exactly one place, what the transmit call returns (C30 to C32).
  \<^item> \<open>D2h\<close>, \<open>D2h_Rep\<close>, \<open>D2h_Correct\<close>: the three ways to wait for an item of the device, the dispatch of a batch and the
    completion loop; an accepted item is the one the device wrote, and a completion loop returns every completed buffer
    (C33, C34). Lemmas record where a blank slot is accepted and where an unknown message type loses step.
  \<^item> \<open>Chanspec\<close>, \<open>Chanspec_Str\<close>, \<open>Chanspec_Iter\<close> (\<open>bcmwifi_channels.c\<close>, with \<open>bcm_strtoull\<close> of \<open>bcmutils.c\<close>): the channel
    specifications in which driver and firmware name a channel, their text form and the iterator over them.
    \<open>Chanspec_Valid\<close> and \<open>Chanspec_Create\<close> describe the valid ones and what the creators build, \<open>Chanspec_Text\<close> the text
    form, \<open>Chanspec_Sub\<close> and \<open>Chanspec_Foreach\<close> the 20 MHz channels inside a specification, \<open>Chanspec_Freq\<close> frequencies,
    \<open>Chanspec_Visit\<close> and \<open>Chanspec_Cover\<close> the iteration. \<open>Chanspec_Correct\<close>: created specifications are valid and are the
    ones asked for, text and creators give a valid specification back, halves and overlap are the geometric ones,
    frequencies determine channels, and the iterator visits each specification once (C35 to C40). Lemmas record the
    exceptions: 160 MHz and channel 253 of the 6 GHz band.

  \<^bold>\<open>Bounds and fuel.\<close> 8, 16 and 32 bit fields are words. Loops over linked structures are \<open>partial_function (option)\<close>, so
  not ending is the value \<open>None\<close>; for each the lemmas show that it ends on the structures the code builds. The recursion of
  the rescue init over directories carries fuel; \<open>(N + 1) * (D + 1)\<close> is enough for a kernel with at most \<open>N\<close> directory
  reads and depth \<open>D\<close>, which C22 proves. The wait for a device item makes at most 5 times 512 tries, as the code
  does, and the completion loop is bounded by the bound the caller passes. Pointers and lengths are natural numbers where
  no sum of the code can wrap, and words where a check of the code is about wrapping. Channel numbers are words, 8 bits
  in a specification and 32 bits in the arithmetic, as in the code.

  \<^bold>\<open>Not modelled.\<close> Code whose effect is that of the kernel, the firmware or the chip: cfg80211 and ioctl glue
  (\<open>wl_*.c\<close>), module and device glue (\<open>dhd_linux*.c\<close>), register access (\<open>siutils.c\<close>, \<open>hndpmu.c\<close>, \<open>aiutils.c\<close>, \<open>sbutils.c\<close>, most of
  \<open>dhd_pcie.c\<close>), buses the board does not use (SDIO, USB), printing and dumping, interface headers. Spin locks are not
  modelled: an operation is one step, and the findings list where the code gives up a lock between two steps.
\<close>

end
